(* ===== verification/Prelude.thy ===== *)
theory Prelude
  imports Main "HOL-Library.Word"
begin

text \<open>
  Shared vocabulary of the development: the machine integers of the crate, its error type
  (\<open>src/error.rs\<close>), the result of a Rust call, slices and indexing with their panics, little-endian
  codecs, and the checked, saturating and rounding arithmetic the components use.

  Conventions. A value of type \<open>u8\<close> to \<open>u64\<close> is a word of that width, and \<open>+\<close>, \<open>-\<close>, \<open>*\<close>
  on it wrap, as they do in the release profile the crate ships (\<open>Cargo.toml\<close> leaves
  overflow checks off there). A \<open>usize\<close> is a \<open>nat\<close>: it counts bytes of a buffer that exists in
  memory, on a 64-bit target. \<open>x as usize\<close> is \<open>unat x\<close>, \<open>n as u64\<close> is \<open>word_of_nat n\<close>, and a cast
  between word widths is \<open>ucast\<close>. The failure of an allocation is not modelled.
\<close>

unbundle bit_operations_syntax

type_synonym u8 = "8 word"
type_synonym u16 = "16 word"
type_synonym u32 = "32 word"
type_synonym u64 = "64 word"
type_synonym usize = nat
type_synonym byte = "8 word"
type_synonym bytes = "8 word list"

section \<open>Errors and results\<close>

text \<open>
  The error of the block layer belongs to the \<open>fs_core\<close> crate. \<open>ShortRead\<close> is the variant the
  sources name; the other constructor stands for the rest, unexamined.
\<close>

datatype block_error = ShortRead u64 usize usize | OtherBlockError nat

datatype error =
    Block block_error
  | NotErofs
  | BadSuperblock string
  | BadInode string
  | UnsupportedLayout u8
  | BadDirent string
  | BadXattr string
  | NotFound
  | NotADirectory
  | OutOfRange

text \<open>
  What a call does: it returns \<open>Ok\<close> or \<open>Err\<close>, it panics (a slice or an index out of range, an
  \<open>unwrap\<close> on nothing), or, where a definition takes a bound on the recursion depth, it is still
  running when the bound is spent.
\<close>

datatype 'a result = Ok 'a | Err error | Panic | Overrun

definition bindR :: "'a result \<Rightarrow> ('a \<Rightarrow> 'b result) \<Rightarrow> 'b result" where
  "bindR m f = (case m of Ok a \<Rightarrow> f a | Err e \<Rightarrow> Err e | Panic \<Rightarrow> Panic | Overrun \<Rightarrow> Overrun)"

definition ok_or :: "'a option \<Rightarrow> error \<Rightarrow> 'a result" where
  "ok_or x e = (case x of Some a \<Rightarrow> Ok a | None \<Rightarrow> Err e)"

definition is_ok :: "'a result \<Rightarrow> bool" where
  "is_ok r = (case r of Ok _ \<Rightarrow> True | _ \<Rightarrow> False)"

definition returns :: "'a result \<Rightarrow> bool" where
  "returns r = (case r of Ok _ \<Rightarrow> True | Err _ \<Rightarrow> True | _ \<Rightarrow> False)"

named_theorems returns_intros "rules that a call returns, with a value or an error"

lemma bindR_simps [simp]:
  "bindR (Ok a) f = f a" "bindR (Err e) f = Err e" "bindR Panic f = Panic" "bindR Overrun f = Overrun"
  by (simp_all add: bindR_def)

lemma bindR_cong [fundef_cong]:
  "m = m' \<Longrightarrow> (\<And>a. m' = Ok a \<Longrightarrow> f a = g a) \<Longrightarrow> bindR m f = bindR m' g"
  by (cases m') simp_all

lemma bindR_eq_Ok [simp]: "(bindR m f = Ok b) = (\<exists>a. m = Ok a \<and> f a = Ok b)"
  by (cases m) simp_all

lemma bindR_eq_Panic [simp]: "(bindR m f = Panic) = (m = Panic \<or> (\<exists>a. m = Ok a \<and> f a = Panic))"
  by (cases m) simp_all

lemma bindR_assoc: "bindR (bindR m f) g = bindR m (\<lambda>a. bindR (f a) g)"
  by (cases m) simp_all

lemma bindR_if [simp]: "bindR (if b then m else m') f = (if b then bindR m f else bindR m' f)"
  by simp

lemma ok_or_simps [simp]: "ok_or (Some a) e = Ok a" "ok_or None e = Err e"
  by (simp_all add: ok_or_def)

lemma ok_or_eq_Ok [simp]: "(ok_or x e = Ok a) = (x = Some a)"
  by (cases x) simp_all

lemma is_ok_simps [simp]: "is_ok (Ok a)" "\<not> is_ok (Err e)" "\<not> is_ok Panic" "\<not> is_ok Overrun"
  by (simp_all add: is_ok_def)

lemma returns_simps [simp]: "returns (Ok a)" "returns (Err e)" "\<not> returns Panic" "\<not> returns Overrun"
  by (simp_all add: returns_def)

lemma returns_bindR [returns_intros, intro]:
  "returns m \<Longrightarrow> (\<And>a. m = Ok a \<Longrightarrow> returns (f a)) \<Longrightarrow> returns (bindR m f)"
  by (cases m) simp_all

lemma returns_ok_or [returns_intros, simp]: "returns (ok_or x e)"
  by (cases x) simp_all

lemma returns_case_prod [returns_intros]: "(\<And>a b. p = (a, b) \<Longrightarrow> returns (f a b)) \<Longrightarrow> returns (case p of (a, b) \<Rightarrow> f a b)"
  by (cases p) simp

lemma returns_if [returns_intros]:
  "(b \<Longrightarrow> returns x) \<Longrightarrow> (\<not> b \<Longrightarrow> returns y) \<Longrightarrow> returns (if b then x else y)"
  by simp

lemma returns_neq_Panic: "returns r \<Longrightarrow> r \<noteq> Panic \<and> r \<noteq> Overrun"
  by (cases r) simp_all

lemma returns_cases:
  assumes "returns r"
  obtains (Ok) a where "r = Ok a" | (Err) e where "r = Err e"
  using assms by (cases r) auto

subsection \<open>A loop that pushes one result per element and stops at the first error\<close>

fun mapR :: "('a \<Rightarrow> 'b result) \<Rightarrow> 'a list \<Rightarrow> 'b list result" where
  "mapR f [] = Ok []"
| "mapR f (x # xs) = bindR (f x) (\<lambda>y. bindR (mapR f xs) (\<lambda>ys. Ok (y # ys)))"

lemma mapR_all_Ok: "(\<And>x. x \<in> set xs \<Longrightarrow> f x = Ok (g x)) \<Longrightarrow> mapR f xs = Ok (map g xs)"
  by (induction xs) auto

lemma mapR_eq_Ok: "(mapR f xs = Ok ys) = list_all2 (\<lambda>x y. f x = Ok y) xs ys"
  by (induction xs arbitrary: ys) (auto simp: list_all2_Cons1)

lemma mapR_length: "mapR f xs = Ok ys \<Longrightarrow> length ys = length xs"
  by (auto simp: mapR_eq_Ok dest: list_all2_lengthD)

lemma returns_mapR [returns_intros]:
  "(\<And>x. x \<in> set xs \<Longrightarrow> returns (f x)) \<Longrightarrow> returns (mapR f xs)"
  by (induction xs) (auto intro!: returns_bindR)

lemma mapR_cong [fundef_cong]:
  "xs = ys \<Longrightarrow> (\<And>x. x \<in> set ys \<Longrightarrow> f x = g x) \<Longrightarrow> mapR f xs = mapR g ys"
  by (induction ys arbitrary: xs) auto

text \<open>The results such a loop has pushed when it stops.\<close>

fun ok_prefix :: "('a \<Rightarrow> 'b result) \<Rightarrow> 'a list \<Rightarrow> 'b list" where
  "ok_prefix f [] = []"
| "ok_prefix f (x # xs) = (case f x of Ok y \<Rightarrow> y # ok_prefix f xs | _ \<Rightarrow> [])"

lemma ok_prefix_mapR: "mapR f xs = Ok ys \<Longrightarrow> ok_prefix f xs = ys"
  by (induction xs arbitrary: ys) auto

section \<open>Slices and indexing\<close>

text \<open>\<open>xs[a..b]\<close> and \<open>xs[i]\<close> panic out of range.\<close>

definition slice :: "'a list \<Rightarrow> nat \<Rightarrow> nat \<Rightarrow> 'a list result" where
  "slice xs a b = (if a \<le> b \<and> b \<le> length xs then Ok (take (b - a) (drop a xs)) else Panic)"

definition idx :: "'a list \<Rightarrow> nat \<Rightarrow> 'a result" where
  "idx xs i = (if i < length xs then Ok (xs ! i) else Panic)"

text \<open>\<open>xs.get(i)\<close> and \<open>xs.get(a..b)\<close> return \<open>None\<close> out of range.\<close>

definition get_at :: "'a list \<Rightarrow> nat \<Rightarrow> 'a option" where
  "get_at xs i = (if i < length xs then Some (xs ! i) else None)"

definition get_range :: "'a list \<Rightarrow> nat \<Rightarrow> nat \<Rightarrow> 'a list option" where
  "get_range xs a b = (if a \<le> b \<and> b \<le> length xs then Some (take (b - a) (drop a xs)) else None)"

lemma slice_Ok [simp]: "a \<le> b \<Longrightarrow> b \<le> length xs \<Longrightarrow> slice xs a b = Ok (take (b - a) (drop a xs))"
  by (simp add: slice_def)

lemma slice_eq_Ok: "(slice xs a b = Ok ys) = (a \<le> b \<and> b \<le> length xs \<and> ys = take (b - a) (drop a xs))"
  by (auto simp: slice_def)

lemma idx_Ok [simp]: "i < length xs \<Longrightarrow> idx xs i = Ok (xs ! i)"
  by (simp add: idx_def)

lemma idx_eq_Ok: "(idx xs i = Ok x) = (i < length xs \<and> x = xs ! i)"
  by (auto simp: idx_def)

lemma returns_slice [returns_intros]: "a \<le> b \<Longrightarrow> b \<le> length xs \<Longrightarrow> returns (slice xs a b)"
  by simp

lemma returns_idx [returns_intros]: "i < length xs \<Longrightarrow> returns (idx xs i)"
  by simp

text \<open>Writing into a buffer: \<open>buf[i] = x\<close> and \<open>buf[a..a + ys.len()].copy_from_slice(ys)\<close>.\<close>

definition put :: "'a list \<Rightarrow> nat \<Rightarrow> 'a list \<Rightarrow> 'a list" where
  "put xs a ys = take a xs @ ys @ drop (a + length ys) xs"

text \<open>The same writes with their panic when the range leaves the buffer.\<close>

definition put_at :: "'a list \<Rightarrow> nat \<Rightarrow> 'a list \<Rightarrow> 'a list result" where
  "put_at xs a ys = (if a + length ys \<le> length xs then Ok (put xs a ys) else Panic)"

lemma put_at_Ok [simp]: "a + length ys \<le> length xs \<Longrightarrow> put_at xs a ys = Ok (put xs a ys)"
  by (simp add: put_at_def)

lemma length_put [simp]: "a + length ys \<le> length xs \<Longrightarrow> length (put xs a ys) = length xs"
  by (simp add: put_def)

lemma nth_put:
  "a + length ys \<le> length xs \<Longrightarrow> i < length xs \<Longrightarrow>
    put xs a ys ! i = (if a \<le> i \<and> i < a + length ys then ys ! (i - a) else xs ! i)"
  by (auto simp: put_def nth_append min_def)

lemma take_drop_put_same:
  "a + length ys \<le> length xs \<Longrightarrow> take (length ys) (drop a (put xs a ys)) = ys"
  by (simp add: put_def)

lemma take_drop_put_other:
  assumes "a + length ys \<le> length xs" "b + n \<le> length xs" "b + n \<le> a \<or> a + length ys \<le> b"
  shows "take n (drop b (put xs a ys)) = take n (drop b xs)"
  by (rule nth_equalityI) (use assms in \<open>auto simp: nth_put\<close>)

lemma take_put_before:
  "a + length ys \<le> length xs \<Longrightarrow> n \<le> a \<Longrightarrow> take n (put xs a ys) = take n xs"
  by (simp add: put_def min_def)

text \<open>A write over the part of a buffer that lies between two others.\<close>

lemma put_mid: "length xs = a \<Longrightarrow> length zs = length ys \<Longrightarrow> put (xs @ zs @ ws) a ys = xs @ ys @ ws"
  by (simp add: put_def)

lemma put_put_inner:
  "k + length v \<le> length h \<Longrightarrow> a + length h \<le> length xs \<Longrightarrow>
     put (put xs a h) (a + k) v = put xs a (put h k v)"
  by (rule nth_equalityI) (auto simp: nth_put)

lemma put_self: "a + n \<le> length xs \<Longrightarrow> put xs a (take n (drop a xs)) = xs"
  by (rule nth_equalityI) (auto simp: nth_put)

lemma put_take_drop:
  "k + length v \<le> n \<Longrightarrow> a + n \<le> length xs \<Longrightarrow>
     put (take n (drop a xs)) k v = take n (drop a (put xs (a + k) v))"
  by (rule nth_equalityI) (auto simp: nth_put)

subsection \<open>Pieces of a concatenation\<close>

lemma take_drop_concat:
  "i < length xs \<Longrightarrow>
     take (length (xs ! i)) (drop (sum_list (map length (take i xs))) (concat xs @ rest)) = xs ! i"
proof (induction xs arbitrary: i)
  case (Cons x xs)
  then show ?case by (cases i) simp_all
qed simp

lemma take_drop_concat_fixed:
  assumes "\<And>x. x \<in> set xs \<Longrightarrow> length x = w" "i < length xs"
  shows "take w (drop (i * w) (concat xs @ rest)) = xs ! i"
proof -
  have "map length (take i xs) = replicate i w"
    using assms by (intro nth_equalityI) simp_all
  then have "sum_list (map length (take i xs)) = i * w" by (simp add: sum_list_replicate)
  then show ?thesis using take_drop_concat [OF assms(2), of rest] assms by simp
qed

lemma concat_drop: "concat (drop i xs) = drop (sum_list (map length (take i xs))) (concat xs)"
proof (induction xs arbitrary: i)
  case (Cons x xs)
  then show ?case by (cases i) simp_all
qed simp

lemma concat_slices:
  "(\<forall>i<k. g i \<le> g (Suc i)) \<Longrightarrow>
     concat (map (\<lambda>i. take (g (Suc i) - g i) (drop (g i) xs)) [0..<k]) = take (g k - g 0) (drop (g 0) xs)"
proof (induction k)
  case (Suc k)
  have "g 0 \<le> g k" using Suc.prems by (intro lift_Suc_mono_le [of "\<lambda>i. g (min i k)" 0 k, simplified]) (auto simp: min_def Suc_le_eq)
  moreover have "g k \<le> g (Suc k)" using Suc.prems by simp
  ultimately have split: "g (Suc k) - g 0 = (g k - g 0) + (g (Suc k) - g k)"
      "g 0 + (g k - g 0) = g k" by simp_all
  show ?case unfolding split(1) take_add using Suc split(2) by (simp add: add.commute)
qed simp

section \<open>Little-endian integers\<close>

fun le_nat :: "bytes \<Rightarrow> nat" where
  "le_nat [] = 0"
| "le_nat (b # bs) = unat b + 256 * le_nat bs"

fun nat_le :: "nat \<Rightarrow> nat \<Rightarrow> bytes" where
  "nat_le 0 v = []"
| "nat_le (Suc n) v = word_of_nat v # nat_le n (v div 256)"

text \<open>\<open>uN::from_le_bytes\<close> on a slice of the right length, and \<open>uN::to_le_bytes\<close>.\<close>

definition le16 :: "bytes \<Rightarrow> u16" where "le16 bs = word_of_nat (le_nat bs)"
definition le32 :: "bytes \<Rightarrow> u32" where "le32 bs = word_of_nat (le_nat bs)"
definition le64 :: "bytes \<Rightarrow> u64" where "le64 bs = word_of_nat (le_nat bs)"

definition to_le16 :: "u16 \<Rightarrow> bytes" where "to_le16 x = nat_le 2 (unat x)"
definition to_le32 :: "u32 \<Rightarrow> bytes" where "to_le32 x = nat_le 4 (unat x)"
definition to_le64 :: "u64 \<Rightarrow> bytes" where "to_le64 x = nat_le 8 (unat x)"

text \<open>\<open>uN::from_le_bytes(bs[off..off + n].try_into().unwrap())\<close>.\<close>

definition u16_at :: "bytes \<Rightarrow> nat \<Rightarrow> u16 result" where
  "u16_at bs off = bindR (slice bs off (off + 2)) (\<lambda>s. Ok (le16 s))"
definition u32_at :: "bytes \<Rightarrow> nat \<Rightarrow> u32 result" where
  "u32_at bs off = bindR (slice bs off (off + 4)) (\<lambda>s. Ok (le32 s))"
definition u64_at :: "bytes \<Rightarrow> nat \<Rightarrow> u64 result" where
  "u64_at bs off = bindR (slice bs off (off + 8)) (\<lambda>s. Ok (le64 s))"

lemma length_nat_le [simp]: "length (nat_le n v) = n"
  by (induction n arbitrary: v) simp_all

lemma unat_byte_of_nat: "unat (word_of_nat v :: byte) = v mod 256"
  by (simp add: unat_of_nat)

lemma le_nat_bound: "le_nat bs < 256 ^ length bs"
proof (induction bs)
  case (Cons b bs)
  have "unat b < 256" using unsigned_less [of b, where 'a = nat] by simp
  with Cons show ?case by simp
qed simp

lemma le_nat_nat_le: "v < 256 ^ n \<Longrightarrow> le_nat (nat_le n v) = v"
proof (induction n arbitrary: v)
  case (Suc n)
  then have "v div 256 < 256 ^ n" by (simp add: less_mult_imp_div_less mult.commute)
  with Suc show ?case by (simp add: unat_byte_of_nat)
qed simp

lemma nat_le_le_nat: "nat_le (length bs) (le_nat bs) = bs"
proof (induction bs)
  case (Cons b bs)
  have b: "unat b < 256" using unsigned_less [of b, where 'a = nat] by simp
  then have "word_of_nat (unat b + 256 * le_nat bs) = b"
    by (intro word_unat_eq_iff [THEN iffD2])
      (simp only: unat_byte_of_nat mod_mult_self2 mod_less)
  moreover have "(unat b + 256 * le_nat bs) div 256 = le_nat bs" using b by simp
  ultimately show ?case using Cons by simp
qed simp

lemma le_nat_append: "le_nat (xs @ ys) = le_nat xs + 256 ^ length xs * le_nat ys"
  by (induction xs) (simp_all add: algebra_simps)

lemma le_nat_zeros [simp]: "le_nat (replicate n 0) = 0"
  by (induction n) simp_all

lemma nat_le_zero: "nat_le n 0 = replicate n 0"
  by (induction n) simp_all

lemma le_zeros [simp]: "le16 (replicate n 0) = 0" "le32 (replicate n 0) = 0" "le64 (replicate n 0) = 0"
  by (simp_all add: le16_def le32_def le64_def)

lemma to_le_zeros: "to_le16 0 = replicate 2 0" "to_le32 0 = replicate 4 0" "to_le64 0 = replicate 8 0"
  by (simp_all add: to_le16_def to_le32_def to_le64_def nat_le_zero)

lemma u16_at_Ok [simp]: "off + 2 \<le> length bs \<Longrightarrow> u16_at bs off = Ok (le16 (take 2 (drop off bs)))"
  and u32_at_Ok [simp]: "off + 4 \<le> length bs \<Longrightarrow> u32_at bs off = Ok (le32 (take 4 (drop off bs)))"
  and u64_at_Ok [simp]: "off + 8 \<le> length bs \<Longrightarrow> u64_at bs off = Ok (le64 (take 8 (drop off bs)))"
  by (simp_all add: u16_at_def u32_at_def u64_at_def)

subsection \<open>The codec contract\<close>

text \<open>
  A fixed-width wire format: encoding gives \<open>width\<close> bytes, and the two directions are inverse. What
  a parser of an array of records relies on is proved once, from this contract alone.
\<close>

locale byte_codec =
  fixes width :: nat and enc :: "'a \<Rightarrow> bytes" and dec :: "bytes \<Rightarrow> 'a"
  assumes length_enc: "length (enc x) = width"
    and dec_enc: "dec (enc x) = x"
    and enc_dec: "length bs = width \<Longrightarrow> enc (dec bs) = bs"
begin

lemma length_concat_enc: "length (concat (map enc xs)) = length xs * width"
  by (induction xs) (simp_all add: length_enc)

lemma dec_prefix: "dec (take width (enc x @ rest)) = x"
  by (simp add: length_enc dec_enc)

lemma dec_at:
  assumes "i < length xs"
  shows "dec (take width (drop (i * width) (concat (map enc xs) @ rest))) = xs ! i"
  using assms
proof (induction xs arbitrary: i)
  case (Cons x xs)
  then show ?case by (cases i) (simp_all add: length_enc dec_enc)
qed simp

lemma decode_array:
  "map (\<lambda>i. dec (take width (drop (i * width) (concat (map enc xs) @ rest)))) [0..<length xs] = xs"
  by (rule nth_equalityI) (simp_all add: dec_at del: take_append drop_append)

lemma dec_inj_on: "length bs = width \<Longrightarrow> length cs = width \<Longrightarrow> dec bs = dec cs \<Longrightarrow> bs = cs"
  by (metis enc_dec)

end

text \<open>Two formats side by side are a format again.\<close>

locale codec_pair = a: byte_codec wa ea da + b: byte_codec wb eb db
  for wa :: nat and ea :: "'a \<Rightarrow> bytes" and da and wb :: nat and eb :: "'b \<Rightarrow> bytes" and db

sublocale codec_pair \<subseteq> pair: byte_codec "wa + wb" "\<lambda>(x, y). ea x @ eb y"
    "\<lambda>bs. (da (take wa bs), db (drop wa bs))"
proof
  fix bs :: bytes assume "length bs = wa + wb"
  then show "(case (da (take wa bs), db (drop wa bs)) of (x, y) \<Rightarrow> ea x @ eb y) = bs"
    by (simp add: a.enc_dec b.enc_dec)
qed (auto simp: a.length_enc b.length_enc a.dec_enc b.dec_enc)

interpretation le16_codec: byte_codec 2 to_le16 le16
proof
  show "length (to_le16 x) = 2" for x by (simp add: to_le16_def)
  show "le16 (to_le16 x) = x" for x
    using unsigned_less [of x, where 'a = nat] by (simp add: le16_def to_le16_def le_nat_nat_le)
  show "to_le16 (le16 bs) = bs" if "length bs = 2" for bs
    using le_nat_bound [of bs] nat_le_le_nat [of bs] that
    by (simp add: to_le16_def le16_def unat_of_nat)
qed

interpretation le32_codec: byte_codec 4 to_le32 le32
proof
  show "length (to_le32 x) = 4" for x by (simp add: to_le32_def)
  show "le32 (to_le32 x) = x" for x
    using unsigned_less [of x, where 'a = nat] by (simp add: le32_def to_le32_def le_nat_nat_le)
  show "to_le32 (le32 bs) = bs" if "length bs = 4" for bs
    using le_nat_bound [of bs] nat_le_le_nat [of bs] that
    by (simp add: to_le32_def le32_def unat_of_nat)
qed

interpretation le64_codec: byte_codec 8 to_le64 le64
proof
  show "length (to_le64 x) = 8" for x by (simp add: to_le64_def)
  show "le64 (to_le64 x) = x" for x
    using unsigned_less [of x, where 'a = nat] by (simp add: le64_def to_le64_def le_nat_nat_le)
  show "to_le64 (le64 bs) = bs" if "length bs = 8" for bs
    using le_nat_bound [of bs] nat_le_le_nat [of bs] that
    by (simp add: to_le64_def le64_def unat_of_nat)
qed

lemmas le_lengths [simp] = le16_codec.length_enc le32_codec.length_enc le64_codec.length_enc
lemmas le_roundtrips [simp] = le16_codec.dec_enc le32_codec.dec_enc le64_codec.dec_enc
lemmas le_unparse = le16_codec.enc_dec le32_codec.enc_dec le64_codec.enc_dec

section \<open>Checked, saturating and rounding arithmetic\<close>

definition checked_add :: "'a::len word \<Rightarrow> 'a word \<Rightarrow> 'a word option" where
  "checked_add a b = (if unat a + unat b < 2 ^ LENGTH('a) then Some (a + b) else None)"

definition checked_mul :: "'a::len word \<Rightarrow> 'a word \<Rightarrow> 'a word option" where
  "checked_mul a b = (if unat a * unat b < 2 ^ LENGTH('a) then Some (a * b) else None)"

definition usize_checked_add :: "usize \<Rightarrow> usize \<Rightarrow> usize option" where
  "usize_checked_add a b = (if a + b < 2 ^ 64 then Some (a + b) else None)"

definition checked_sub :: "'a::len word \<Rightarrow> 'a word \<Rightarrow> 'a word option" where
  "checked_sub a b = (if b \<le> a then Some (a - b) else None)"

definition sat_add :: "'a::len word \<Rightarrow> 'a word \<Rightarrow> 'a word" where
  "sat_add a b = (if unat a + unat b < 2 ^ LENGTH('a) then a + b else - 1)"

definition sat_mul :: "'a::len word \<Rightarrow> 'a word \<Rightarrow> 'a word" where
  "sat_mul a b = (if unat a * unat b < 2 ^ LENGTH('a) then a * b else - 1)"

text \<open>\<open>div_ceil\<close>, and \<open>next_multiple_of\<close> with the wrap of the release profile.\<close>

definition div_ceil :: "u64 \<Rightarrow> u64 \<Rightarrow> u64" where
  "div_ceil a b = (if a mod b = 0 then a div b else a div b + 1)"

definition next_multiple_of :: "u64 \<Rightarrow> u64 \<Rightarrow> u64" where
  "next_multiple_of a b = (if a mod b = 0 then a else a + (b - a mod b))"

lemma unat_max_word: "unat (- 1 :: 'a::len word) = 2 ^ LENGTH('a) - 1"
  by (simp add: unsigned_minus_1_eq_mask mask_eq_exp_minus_1)

lemma unat_sat_add: "unat (sat_add a b) = min (2 ^ LENGTH('a) - 1) (unat a + unat (b :: 'a::len word))"
  by (auto simp: sat_add_def unat_max_word unat_word_ariths min_def)

lemma unat_sat_mul: "unat (sat_mul a b) = min (2 ^ LENGTH('a) - 1) (unat a * unat (b :: 'a::len word))"
  by (auto simp: sat_mul_def unat_max_word unat_word_ariths min_def)

lemma checked_add_Some: "checked_add a b = Some c \<Longrightarrow> unat c = unat a + unat b"
  by (auto simp: checked_add_def unat_add_lem split: if_splits)

lemma checked_add_None_iff: "(checked_add a b = None) = (2 ^ LENGTH('a) \<le> unat a + unat (b :: 'a::len word))"
  by (auto simp: checked_add_def)

lemma unat_add_no_wrap: "unat a + unat b < 2 ^ LENGTH('a) \<Longrightarrow> unat (a + b) = unat a + unat (b :: 'a::len word)"
  by (simp add: unat_add_lem)

lemma unat_mult_no_wrap: "unat a * unat b < 2 ^ LENGTH('a) \<Longrightarrow> unat (a * b) = unat a * unat (b :: 'a::len word)"
  by (simp add: unat_mult_lem)

lemma unat_sub_no_wrap: "b \<le> a \<Longrightarrow> unat (a - b) = unat a - unat (b :: 'a::len word)"
  by (simp add: unat_sub)

lemma unat_of_nat_small: "n < 2 ^ LENGTH('a) \<Longrightarrow> unat (word_of_nat n :: 'a::len word) = n"
  by (simp add: unat_of_nat)

lemma unat_power2: "n < LENGTH('a) \<Longrightarrow> unat (2 ^ n :: 'a::len word) = 2 ^ n"
proof -
  assume "n < LENGTH('a)"
  then have "(2 :: nat) ^ n < 2 ^ LENGTH('a)" by simp
  then have "unat (word_of_nat (2 ^ n) :: 'a word) = 2 ^ n" by (rule unat_of_nat_small)
  then show ?thesis by simp
qed

lemma unat_min: "unat (min a b) = min (unat a) (unat (b :: 'a::len word))"
  by (simp add: min_def word_le_nat_alt)

lemma unat_ucast_up: "LENGTH('a) \<le> LENGTH('b) \<Longrightarrow> unat (ucast (a :: 'a::len word) :: 'b::len word) = unat a"
  by (simp add: unsigned_ucast_eq take_bit_nat_eq_self_iff less_le_trans [OF unsigned_less])

lemma unat_div_ceil:
  assumes "b \<noteq> 0"
  shows "unat (div_ceil a b) = (unat a + unat b - 1) div unat b"
proof -
  let ?a = "unat a" and ?b = "unat b"
  have b: "0 < ?b" using assms by (simp add: unat_gt_0)
  have split: "?a = ?b * (?a div ?b) + ?a mod ?b" by simp
  show ?thesis
  proof (cases "?a mod ?b = 0")
    case True
    then have m: "a mod b = 0" by (simp add: unat_eq_zero flip: unat_mod)
    define q where "q = ?a div ?b"
    from True split have q: "?a = ?b * q" unfolding q_def by linarith
    have "(?b * q + ?b - 1) div ?b = q"
      using b by (simp add: div_nat_eqI)
    with q m b show ?thesis by (simp add: div_ceil_def unat_div)
  next
    case False
    then have m: "a mod b \<noteq> 0" by (metis unat_0 unat_mod)
    have "?b \<noteq> 1" using False by (metis mod_by_1)
    with b have "1 < ?b" by simp
    moreover have "0 < ?a" using False by (cases "?a = 0") auto
    ultimately have lt: "?a div ?b < ?a" by simp
    with unsigned_less [of a, where 'a = nat] have "?a div ?b + 1 < 2 ^ 64" by simp
    then have "unat (a div b + 1) = ?a div ?b + 1"
      by (simp add: unat_add_no_wrap unat_div)
    moreover have "(?a + ?b - 1) div ?b = ?a div ?b + 1"
    proof (rule div_nat_eqI)
      have e: "?b * (?a div ?b + 1) = ?b * (?a div ?b) + ?b" by simp
      have p: "0 < ?a mod ?b" using False by simp
      show "?b * (?a div ?b + 1) \<le> ?a + ?b - 1"
        unfolding e using p split by linarith
      have e2: "?b * Suc (?a div ?b + 1) = ?b * (?a div ?b) + ?b + ?b" by simp
      show "?a + ?b - 1 < ?b * Suc (?a div ?b + 1)"
        unfolding e2 using split mod_less_divisor [OF b, of ?a] by linarith
    qed
    ultimately show ?thesis using m by (simp add: div_ceil_def)
  qed
qed

section \<open>Bit fields\<close>

text \<open>A word split into a low field of \<open>k\<close> bits, a middle field of \<open>w\<close> bits and the rest.\<close>

lemma bit_take_bit_self: "take_bit k v = v \<Longrightarrow> bit v n \<Longrightarrow> n < k"
  by (metis bit_take_bit_iff)

lemma unpack_pack3:
  "take_bit k x OR push_bit k (take_bit w (drop_bit k x)) OR push_bit (k + w) (drop_bit (k + w) x)
     = (x :: 'a::len word)"
proof (rule bit_word_eqI)
  fix n assume "n < LENGTH('a)"
  then show "bit (take_bit k x OR push_bit k (take_bit w (drop_bit k x))
      OR push_bit (k + w) (drop_bit (k + w) x)) n = bit x n"
    by (cases "n < k"; cases "n < k + w") (auto simp: bit_simps)
qed

lemma pack3_fields:
  fixes v c f :: "'a::len word"
  assumes v: "take_bit k v = v" and c: "take_bit w c = c"
  defines "x \<equiv> v OR push_bit k c OR push_bit (k + w) f"
  shows "k + w \<le> LENGTH('a) \<Longrightarrow> take_bit k x = v"
    and "k + w \<le> LENGTH('a) \<Longrightarrow> take_bit w (drop_bit k x) = c"
    and "take_bit (LENGTH('a) - (k + w)) f = f \<Longrightarrow> drop_bit (k + w) x = f"
proof -
  note bv = bit_take_bit_self [OF v] and bc = bit_take_bit_self [OF c]
  show "take_bit k x = v" if "k + w \<le> LENGTH('a)"
    unfolding x_def using that by (intro bit_word_eqI) (auto simp: bit_simps dest: bv bc)
  show "take_bit w (drop_bit k x) = c" if "k + w \<le> LENGTH('a)"
    unfolding x_def using that by (intro bit_word_eqI) (auto simp: bit_simps dest: bv bc)
  show "drop_bit (k + w) x = f" if f: "take_bit (LENGTH('a) - (k + w)) f = f"
    unfolding x_def by (intro bit_word_eqI) (auto simp: bit_simps dest: bv bc bit_take_bit_self [OF f])
qed
lemma and_masks: "x AND 1 = take_bit 1 (x :: 'a::len word)" "x AND 3 = take_bit 2 x" "x AND 7 = take_bit 3 x" 
  "x AND 0xF = take_bit 4 x" "x AND 0xFF = take_bit 8 x" "x AND 0xFFF = take_bit 12 x" "x AND 0xFFFF = take_bit 16 x"
  by (simp_all add: take_bit_eq_mask mask_eq_exp_minus_1)
end
