(* ===== verification/Layout.thy ===== *)
theory Layout
  imports Prelude
begin

text \<open>
  Decoding of an inode's \<open>i_format\<close> word (\<open>src/layout.rs\<close>): one version bit, three layout bits and
  twelve flag bits. \<open>encode_format\<close> is the expression the image writer builds the word with
  (\<open>encode_inode\<close> in \<open>src/mkfs.rs\<close>).
\<close>

datatype inode_version = Compact | Extended

datatype data_layout = FlatPlain | CompressionLegacy | FlatInline | Compression | ChunkBased

record inode_format =
  fmt_version :: inode_version
  fmt_layout :: data_layout
  fmt_flags :: u16

definition data_layout_from_bits :: "u8 \<Rightarrow> data_layout result" where
  "data_layout_from_bits b =
     (if b = 0 then Ok FlatPlain
      else if b = 1 then Ok CompressionLegacy
      else if b = 2 then Ok FlatInline
      else if b = 3 then Ok Compression
      else if b = 4 then Ok ChunkBased
      else Err (BadInode (if 7 < b then ''data-layout bits out of range''
                          else ''unknown data layout'')))"

definition is_supported_phase0 :: "data_layout \<Rightarrow> bool" where
  "is_supported_phase0 l = (l = FlatPlain \<or> l = FlatInline)"

definition inode_format_parse :: "u16 \<Rightarrow> inode_format result" where
  "inode_format_parse raw =
     (let version = (if raw AND 1 = 0 then Compact else Extended);
          layout_bits = (ucast (drop_bit 1 raw AND 7) :: u8)
      in bindR (data_layout_from_bits layout_bits) (\<lambda>layout.
         let flags = drop_bit 4 raw
         in Ok \<lparr>fmt_version = version, fmt_layout = layout, fmt_flags = flags\<rparr>))"

fun data_layout_code :: "data_layout \<Rightarrow> u16" where
  "data_layout_code FlatPlain = 0"
| "data_layout_code CompressionLegacy = 1"
| "data_layout_code FlatInline = 2"
| "data_layout_code Compression = 3"
| "data_layout_code ChunkBased = 4"

definition encode_format :: "bool \<Rightarrow> data_layout \<Rightarrow> u16 \<Rightarrow> u16" where
  "encode_format is_extended layout flags =
     (if is_extended then 1 else 0) OR push_bit 1 (data_layout_code layout)
       OR push_bit 4 (flags AND 0x0FFF)"

lemma returns_from_bits [returns_intros, simp]: "returns (data_layout_from_bits b)"
  by (simp add: data_layout_from_bits_def)

lemma returns_format_parse [returns_intros, simp]: "returns (inode_format_parse raw)"
  unfolding inode_format_parse_def Let_def by (intro returns_intros) simp_all

lemma take_bit_code [simp]: "take_bit 3 (data_layout_code l) = data_layout_code l"
  by (cases l) (simp_all add: take_bit_eq_mask mask_eq_exp_minus_1)

lemma from_bits_code: "data_layout_from_bits (ucast (data_layout_code l)) = Ok l"
  by (cases l) (simp_all add: data_layout_from_bits_def)

lemma from_bits_code_iff:
  fixes c :: u16
  assumes "take_bit 3 c = c"
  shows "data_layout_from_bits (ucast c) = Ok l \<longleftrightarrow> c = data_layout_code l"
proof
  have "unat c < 8" using assms
    by (metis take_bit_nat_less_exp unsigned_take_bit_eq [of 3 c] numeral_3_eq_3 power_Suc
        power_0 mult.right_neutral mult_2 numeral_Bit0)
  then have u: "unat (ucast c :: u8) = unat c"
    by (simp add: unsigned_ucast_eq take_bit_nat_eq_self)
  then have eqs: "(ucast c :: u8) = word_of_nat n \<longleftrightarrow> c = word_of_nat n" if "n < 256" for n
    using that by (simp add: word_unat_eq_iff unat_of_nat)
  from eqs [of 0] eqs [of 1] eqs [of 2] eqs [of 3] eqs [of 4]
  show "data_layout_from_bits (ucast c) = Ok l \<Longrightarrow> c = data_layout_code l"
    by (auto simp: data_layout_from_bits_def split: if_splits)
qed (simp add: from_bits_code)

lemma format_encode_parse:
  assumes "fl \<le> 0x0FFF"
  shows "inode_format_parse (encode_format e l fl)
    = Ok \<lparr>fmt_version = (if e then Extended else Compact), fmt_layout = l, fmt_flags = fl\<rparr>"
proof -
  let ?v = "if e then 1 else (0 :: u16)" and ?raw = "encode_format e l fl"
  have "unat fl < 2 ^ 12" using assms by (simp add: word_le_nat_alt)
  then have t: "take_bit 12 fl = fl"
    by (intro word_unat_eq_iff [THEN iffD2]) (simp add: unsigned_take_bit_eq take_bit_nat_eq_self)
  have tv: "take_bit 1 ?v = ?v" by simp
  have raw: "?raw = ?v OR push_bit 1 (data_layout_code l) OR push_bit (1 + 3) fl"
    using t by (simp add: encode_format_def and_masks)
  note fields = pack3_fields [OF tv take_bit_code [of l], where f = fl, folded raw]
  have "?raw AND 1 = ?v" "drop_bit 1 ?raw AND 7 = data_layout_code l" "drop_bit 4 ?raw = fl"
    using fields t by (simp_all add: and_masks)
  then show ?thesis by (auto simp: inode_format_parse_def Let_def from_bits_code)
qed

text \<open>C16: the decoder accepts exactly the words the writer's expression produces from a version, one
  of the five layouts and twelve flag bits, and gives back those fields: nothing of an accepted
  word is lost, and no other word is accepted.\<close>

theorem format_parse_iff_encode:
  "(inode_format_parse raw = Ok f) =
     (fmt_flags f \<le> 0x0FFF \<and>
      raw = encode_format (fmt_version f = Extended) (fmt_layout f) (fmt_flags f))"
proof
  let ?c = "take_bit 3 (drop_bit 1 raw)"
  assume "inode_format_parse raw = Ok f"
  then have v: "(fmt_version f = Extended) = (take_bit 1 raw \<noteq> 0)"
    and c: "?c = data_layout_code (fmt_layout f)" and fl: "fmt_flags f = drop_bit 4 raw"
    by (auto simp: inode_format_parse_def Let_def and_masks from_bits_code_iff split: if_splits)
  have "unat (drop_bit 4 raw) \<le> 0x0FFF"
    using unsigned_less [of raw, where 'a = nat] by (simp add: drop_bit_eq_div unat_div)
  then have le: "fmt_flags f \<le> 0x0FFF" by (simp add: fl word_le_nat_alt)
  have "take_bit 1 raw = (if take_bit 1 raw \<noteq> 0 then 1 else 0)"
    by (cases "even raw") (auto simp: take_bit_Suc even_iff_mod_2_eq_zero odd_iff_mod_2_eq_one)
  moreover have "take_bit 12 (drop_bit 4 raw) = drop_bit 4 raw"
    by (rule bit_word_eqI) (auto simp: bit_simps dest: bit_imp_le_length)
  ultimately show "fmt_flags f \<le> 0x0FFF \<and>
      raw = encode_format (fmt_version f = Extended) (fmt_layout f) (fmt_flags f)"
    using unpack_pack3 [of 1 raw 3] le v c fl by (simp add: encode_format_def and_masks)
next
  assume a: "fmt_flags f \<le> 0x0FFF \<and>
      raw = encode_format (fmt_version f = Extended) (fmt_layout f) (fmt_flags f)"
  then show "inode_format_parse raw = Ok f"
    using format_encode_parse [of "fmt_flags f" "fmt_version f = Extended" "fmt_layout f"]
    by (cases "fmt_version f") auto
qed

end
