(* ===== verification/Acl.thy ===== *)
theory Acl
  imports Prelude
begin

text \<open>
  POSIX ACL values (\<open>src/acl.rs\<close>): a four-byte version and an array of eight-byte entries. The
  encoder is the writer's \<open>encode_posix_acl\<close> (\<open>src/mkfs.rs\<close>).
\<close>

datatype acl_tag = UserObj | User | GroupObj | Group | Mask | Other | UnknownTag u16

record acl_entry =
  acl_tag :: acl_tag
  acl_perm :: u16
  acl_id :: u32

definition POSIX_ACL_XATTR_VERSION :: u32 where "POSIX_ACL_XATTR_VERSION = 2"
definition POSIX_ACL_HEADER_SIZE :: usize where "POSIX_ACL_HEADER_SIZE = 4"
definition POSIX_ACL_ENTRY_SIZE :: usize where "POSIX_ACL_ENTRY_SIZE = 8"

definition acl_tag_from_le :: "u16 \<Rightarrow> acl_tag" where
  "acl_tag_from_le raw =
     (if raw = 0x01 then UserObj
      else if raw = 0x02 then User
      else if raw = 0x04 then GroupObj
      else if raw = 0x08 then Group
      else if raw = 0x10 then Mask
      else if raw = 0x20 then Other
      else UnknownTag raw)"

definition perm_read :: "u16 \<Rightarrow> bool" where "perm_read p = (p AND 0x4 \<noteq> 0)"
definition perm_write :: "u16 \<Rightarrow> bool" where "perm_write p = (p AND 0x2 \<noteq> 0)"
definition perm_execute :: "u16 \<Rightarrow> bool" where "perm_execute p = (p AND 0x1 \<noteq> 0)"

definition perm_render :: "u16 \<Rightarrow> string" where
  "perm_render p =
     (if perm_read p then ''r'' else ''-'') @ (if perm_write p then ''w'' else ''-'')
       @ (if perm_execute p then ''x'' else ''-'')"

text \<open>The body of the loop over the entries.\<close>

definition acl_entry_at :: "bytes \<Rightarrow> nat \<Rightarrow> acl_entry result" where
  "acl_entry_at entries_bytes i =
     (let off = i * POSIX_ACL_ENTRY_SIZE in
      bindR (u16_at entries_bytes off) (\<lambda>tag.
      bindR (u16_at entries_bytes (off + 2)) (\<lambda>perm.
      bindR (u32_at entries_bytes (off + 4)) (\<lambda>id.
        Ok \<lparr>acl_tag = acl_tag_from_le tag, acl_perm = perm, acl_id = id\<rparr>))))"

definition acl_parse :: "bytes \<Rightarrow> acl_entry list result" where
  "acl_parse value =
     (if length value < POSIX_ACL_HEADER_SIZE
      then Err (BadXattr ''ACL value shorter than 4-byte header'')
      else bindR (u32_at value 0) (\<lambda>version.
        if version \<noteq> POSIX_ACL_XATTR_VERSION then Err (BadXattr ''ACL header version != 2'')
        else bindR (slice value POSIX_ACL_HEADER_SIZE (length value)) (\<lambda>entries_bytes.
          if length entries_bytes mod POSIX_ACL_ENTRY_SIZE \<noteq> 0
          then Err (BadXattr ''ACL entries area length not a multiple of 8'')
          else mapR (acl_entry_at entries_bytes)
            [0..<length entries_bytes div POSIX_ACL_ENTRY_SIZE])))"

definition encode_posix_acl :: "(u16 \<times> u16 \<times> u32) list \<Rightarrow> bytes" where
  "encode_posix_acl entries =
     to_le32 POSIX_ACL_XATTR_VERSION @
     concat (map (\<lambda>(tag, perm, id). to_le16 tag @ to_le16 perm @ to_le32 id) entries)"

subsection \<open>The entry as a codec\<close>

interpretation acl_tail: codec_pair 2 to_le16 le16 4 to_le32 le32 ..

interpretation acl_wire: codec_pair 2 to_le16 le16 "2 + 4"
  "\<lambda>(p, i). to_le16 p @ to_le32 i" "\<lambda>bs. (le16 (take 2 bs), le32 (drop 2 bs))" ..

definition entry_of_wire :: "u16 \<times> u16 \<times> u32 \<Rightarrow> acl_entry" where
  "entry_of_wire w = (case w of (t, p, i) \<Rightarrow>
     \<lparr>acl_tag = acl_tag_from_le t, acl_perm = p, acl_id = i\<rparr>)"

fun tag_to_le :: "acl_tag \<Rightarrow> u16" where
  "tag_to_le UserObj = 0x01" | "tag_to_le User = 0x02" | "tag_to_le GroupObj = 0x04"
| "tag_to_le Group = 0x08" | "tag_to_le Mask = 0x10" | "tag_to_le Other = 0x20"
| "tag_to_le (UnknownTag n) = n"

lemma tag_to_from: "tag_to_le (acl_tag_from_le t) = t"
  by (simp add: acl_tag_from_le_def)

definition acl_wire_at :: "bytes \<Rightarrow> nat \<Rightarrow> u16 \<times> u16 \<times> u32" where
  "acl_wire_at bs i = (let e = take 8 (drop (i * 8) bs) in
     (le16 (take 2 e), le16 (take 2 (drop 2 e)), le32 (drop 2 (drop 2 e))))"

lemma acl_entry_at_Ok:
  assumes "i < length bs div 8"
  shows "acl_entry_at bs i = Ok (entry_of_wire (acl_wire_at bs i))"
proof -
  have "i * 8 + 8 \<le> length bs" using assms by linarith
  then show ?thesis
    by (simp add: acl_entry_at_def POSIX_ACL_ENTRY_SIZE_def entry_of_wire_def acl_wire_at_def
        Let_def drop_take add.commute)
qed

lemma acl_loop:
  "mapR (acl_entry_at bs) [0..<length bs div 8] =
     Ok (map (\<lambda>i. entry_of_wire (acl_wire_at bs i)) [0..<length bs div 8])"
  by (rule mapR_all_Ok) (simp add: acl_entry_at_Ok)

text \<open>Every outcome of the parser, with no slice of it ever out of range.\<close>

lemma acl_parse_cases:
  "acl_parse v =
     (if length v < 4 then Err (BadXattr ''ACL value shorter than 4-byte header'')
      else if le32 (take 4 v) \<noteq> 2 then Err (BadXattr ''ACL header version != 2'')
      else if (length v - 4) mod 8 \<noteq> 0
           then Err (BadXattr ''ACL entries area length not a multiple of 8'')
      else Ok (map (\<lambda>i. entry_of_wire (acl_wire_at (drop 4 v) i)) [0..<(length v - 4) div 8]))"
  using acl_loop [of "drop 4 v"]
  by (simp add: acl_parse_def POSIX_ACL_HEADER_SIZE_def POSIX_ACL_ENTRY_SIZE_def
        POSIX_ACL_XATTR_VERSION_def)

lemma acl_parse_returns [returns_intros]: "returns (acl_parse v)"
  by (simp add: acl_parse_cases)

lemma acl_wire_at_concat:
  "map (acl_wire_at (concat (map (\<lambda>(t, p, i). to_le16 t @ to_le16 p @ to_le32 i) es)))
     [0..<length es] = es"
  using acl_wire.pair.decode_array [of es "[]"]
  by (simp add: acl_wire_at_def [abs_def] Let_def case_prod_unfold)

lemma acl_wire_encode:
  assumes "length bs = n * 8"
  shows "concat (map (\<lambda>(t, p, i). to_le16 t @ to_le16 p @ to_le32 i) (map (acl_wire_at bs) [0..<n])) = bs"
  using assms
proof (induction n arbitrary: bs)
  case (Suc n)
  have len: "length (take 8 bs) = 2 + (2 + 4)" using Suc.prems by simp
  have "map (acl_wire_at bs) [0..<Suc n] =
      acl_wire_at bs 0 # map (acl_wire_at (drop 8 bs)) [0..<n]"
    by (rule nth_equalityI) (auto simp: nth_Cons acl_wire_at_def Let_def algebra_simps split: nat.split simp del: upt_Suc)
  moreover have "(\<lambda>(t, p, i). to_le16 t @ to_le16 p @ to_le32 i) (acl_wire_at bs 0) = take 8 bs"
    using acl_wire.pair.enc_dec [OF len] by (simp add: acl_wire_at_def Let_def case_prod_unfold)
  ultimately show ?case using Suc.IH [of "drop 8 bs"] Suc.prems by (simp del: upt_Suc)
qed simp

lemma inj_entry_of_wire: "entry_of_wire w = entry_of_wire w' \<Longrightarrow> w = w'"
  by (cases w; cases w') (auto simp: entry_of_wire_def dest: arg_cong [where f = tag_to_le] simp: tag_to_from)

text \<open>C17: a value parses to these entries exactly when it is the writer's encoding of a list of wire
  triples that decode to them: every encoded ACL reads back, and nothing else is accepted.\<close>

theorem acl_parse_iff_encode:
  "(acl_parse v = Ok es) = (\<exists>ws. v = encode_posix_acl ws \<and> es = map entry_of_wire ws)"
proof
  assume ok: "acl_parse v = Ok es"
  let ?n = "(length v - 4) div 8"
  let ?ws = "map (acl_wire_at (drop 4 v)) [0..<?n]"
  from ok have len: "4 \<le> length v" "(length v - 4) mod 8 = 0" and ver: "le32 (take 4 v) = 2"
    and es: "es = map entry_of_wire ?ws"
    by (auto simp: acl_parse_cases comp_def split: if_splits)
  have "length (drop 4 v) = ?n * 8" using len by auto
  from acl_wire_encode [OF this] have "concat (map (\<lambda>(t, p, i). to_le16 t @ to_le16 p @ to_le32 i) ?ws) = drop 4 v" .
  moreover have "to_le32 2 = take 4 v" using le32_codec.enc_dec [of "take 4 v"] len ver by simp
  ultimately have "v = encode_posix_acl ?ws"
    by (simp add: encode_posix_acl_def POSIX_ACL_XATTR_VERSION_def)
  with es show "\<exists>ws. v = encode_posix_acl ws \<and> es = map entry_of_wire ws" by blast
next
  assume "\<exists>ws. v = encode_posix_acl ws \<and> es = map entry_of_wire ws"
  then obtain ws where v: "v = encode_posix_acl ws" and es: "es = map entry_of_wire ws" by blast
  let ?body = "concat (map (\<lambda>(t, p, i). to_le16 t @ to_le16 p @ to_le32 i) ws)"
  have len: "length ?body = length ws * 8"
    using acl_wire.pair.length_concat_enc [of ws] by (simp add: case_prod_unfold)
  have "map (\<lambda>i. entry_of_wire (acl_wire_at ?body i)) [0..<length ws] = map entry_of_wire ws"
    using arg_cong [OF acl_wire_at_concat [of ws], of "map entry_of_wire"] by (simp add: comp_def)
  then show "acl_parse v = Ok es"
    using len by (simp add: v es acl_parse_cases encode_posix_acl_def POSIX_ACL_XATTR_VERSION_def)
qed

end
