(* ===== verification/Device.thy ===== *)
theory Device
  imports Prelude
begin

text \<open>
  The block device, a trait of the \<open>fs_core\<close> crate (\<open>BlockRead\<close>: \<open>read_at\<close> and \<open>size_bytes\<close>), and so
  a parameter of every definition that reads. \<open>read_at(offset, &mut buf)\<close> fails or fills the whole
  buffer, whose length the caller fixed: \<open>dev_read\<close> gives the byte stored at each position of it.
\<close>

record blockdev =
  dev_read :: "u64 \<Rightarrow> usize \<Rightarrow> block_error + (nat \<Rightarrow> byte)"
  dev_size :: u64

text \<open>\<open>dev.read_at(off, &mut buf)?\<close> for a buffer of \<open>n\<close> bytes: the error is wrapped by
  \<open>impl From<BlockError> for Error\<close>.\<close>

definition from_block_error :: "block_error \<Rightarrow> error" where
  "from_block_error e = Block e"

definition read_at :: "blockdev \<Rightarrow> u64 \<Rightarrow> usize \<Rightarrow> bytes result" where
  "read_at d off n =
     (case dev_read d off n of
        Inl e \<Rightarrow> Err (from_block_error e)
      | Inr f \<Rightarrow> Ok (map f [0..<n]))"

lemma read_at_length: "read_at d off n = Ok bs \<Longrightarrow> length bs = n"
  by (auto simp: read_at_def split: sum.splits)

lemma returns_read_at [returns_intros, simp]: "returns (read_at d off n)"
  by (simp add: read_at_def split: sum.split)

text \<open>
  A device that holds an image: every read inside the image returns its bytes, and a read that runs
  past its end fails. This is what \<open>BlockRead\<close> documents for a file or a memory device.
\<close>

definition serves :: "blockdev \<Rightarrow> bytes \<Rightarrow> bool" where
  "serves d img \<longleftrightarrow>
     (\<forall>off n. unat off + n \<le> length img \<longrightarrow> read_at d off n = Ok (take n (drop (unat off) img)))
     \<and> (\<forall>off n. length img < unat off + n \<longrightarrow> \<not> is_ok (read_at d off n))
     \<and> unat (dev_size d) = length img"

definition mem_dev :: "bytes \<Rightarrow> blockdev" where
  "mem_dev img =
     \<lparr>dev_read = (\<lambda>off n. if length img < unat off + n
                    then Inl (ShortRead off n (length img - unat off))
                    else Inr (\<lambda>i. img ! (unat off + i))),
      dev_size = word_of_nat (length img)\<rparr>"

lemma serves_read: "serves d img \<Longrightarrow> unat off + n \<le> length img \<Longrightarrow>
    read_at d off n = Ok (take n (drop (unat off) img))"
  by (simp add: serves_def)

lemma serves_size: "serves d img \<Longrightarrow> unat (dev_size d) = length img"
  by (simp add: serves_def)

lemma serves_mem_dev: "length img < 2 ^ 64 \<Longrightarrow> serves (mem_dev img) img"
  unfolding serves_def
proof (intro conjI allI impI)
  fix off :: u64 and n assume "unat off + n \<le> length img"
  then show "read_at (mem_dev img) off n = Ok (take n (drop (unat off) img))"
    by (auto simp: read_at_def mem_dev_def intro!: nth_equalityI)
next
  fix off :: u64 and n assume "length img < unat off + n"
  then show "\<not> is_ok (read_at (mem_dev img) off n)"
    by (simp add: read_at_def mem_dev_def)
next
  assume "length img < 2 ^ 64"
  then show "unat (dev_size (mem_dev img)) = length img"
    by (simp add: mem_dev_def unat_of_nat_small)
qed

lemma read_at_mem_dev:
  "read_at (mem_dev img) off n =
     (if length img < unat off + n then Err (Block (ShortRead off n (length img - unat off)))
      else Ok (map (\<lambda>i. img ! (unat off + i)) [0..<n]))"
  by (simp add: read_at_def mem_dev_def from_block_error_def)

end
