(* ===== verification/Utf8.thy ===== *)
theory Utf8
  imports Prelude
begin

text \<open>
  The part of the Rust standard library's string handling the reader uses: \<open>std::str::from_utf8\<close>
  (well-formed UTF-8, table 3-7 of the Unicode standard), the NUL-terminated labels of the
  superblock and the device table, and the splitting of a path at its slashes. A \<open>str\<close> is the list
  of its bytes.
\<close>

definition in_range :: "nat \<Rightarrow> nat \<Rightarrow> byte \<Rightarrow> bool" where
  "in_range lo hi b = (lo \<le> unat b \<and> unat b \<le> hi)"

fun utf8_valid :: "bytes \<Rightarrow> bool" where
  "utf8_valid [] = True"
| "utf8_valid (a # bs) =
     (if unat a < 0x80 then utf8_valid bs
      else case bs of [] \<Rightarrow> False | b # cs \<Rightarrow>
        if in_range 0xC2 0xDF a then in_range 0x80 0xBF b \<and> utf8_valid cs
        else case cs of [] \<Rightarrow> False | c # ds \<Rightarrow>
          if in_range 0xE0 0xEF a then
            in_range (if a = 0xE0 then 0xA0 else 0x80) (if a = 0xED then 0x9F else 0xBF) b
              \<and> in_range 0x80 0xBF c \<and> utf8_valid ds
          else case ds of [] \<Rightarrow> False | d # es \<Rightarrow>
            in_range 0xF0 0xF4 a
              \<and> in_range (if a = 0xF0 then 0x90 else 0x80) (if a = 0xF4 then 0x8F else 0xBF) b
              \<and> in_range 0x80 0xBF c \<and> in_range 0x80 0xBF d \<and> utf8_valid es)"

definition from_utf8 :: "bytes \<Rightarrow> bytes option" where
  "from_utf8 bs = (if utf8_valid bs then Some bs else None)"

text \<open>\<open>iter().position(|b| b == 0).unwrap_or(len)\<close>, then the prefix read as text.\<close>

definition nul_end :: "bytes \<Rightarrow> nat" where
  "nul_end bs = length (takeWhile (\<lambda>b. b \<noteq> 0) bs)"

definition label_str :: "bytes \<Rightarrow> bytes" where
  "label_str bs = (case from_utf8 (take (nul_end bs) bs) of Some s \<Rightarrow> s | None \<Rightarrow> [])"

lemma take_nul_end: "take (nul_end bs) bs = takeWhile (\<lambda>b. b \<noteq> 0) bs"
  unfolding nul_end_def by (metis takeWhile_eq_take)

lemma label_str_no_nul: "0 \<notin> set (label_str bs)"
  by (auto simp: label_str_def from_utf8_def take_nul_end dest: set_takeWhileD split: if_splits)

lemma ascii_utf8: "(\<forall>b\<in>set bs. unat b < 128) \<Longrightarrow> utf8_valid bs"
  by (induction bs) simp_all

subsection \<open>Paths\<close>

text \<open>\<open>path.split('/').filter(|c| !c.is_empty())\<close>.\<close>

definition slash :: byte where "slash = 0x2F"

fun split_slash :: "bytes \<Rightarrow> bytes list" where
  "split_slash [] = [[]]"
| "split_slash (b # bs) =
     (if b = slash then [] # split_slash bs
      else (case split_slash bs of [] \<Rightarrow> [[b]] | c # cs \<Rightarrow> (b # c) # cs))"

definition components :: "bytes \<Rightarrow> bytes list" where
  "components path = filter (\<lambda>c. c \<noteq> []) (split_slash path)"

lemma split_slash_nonempty: "split_slash bs \<noteq> []"
  by (induction bs) (auto split: list.split)

lemma split_slash_no_slash: "c \<in> set (split_slash bs) \<Longrightarrow> slash \<notin> set c"
  by (induction bs arbitrary: c) (fastforce split: if_splits list.splits)+

lemma split_slash_append:
  "slash \<notin> set c \<Longrightarrow> split_slash (c @ slash # bs) = c # split_slash bs"
  by (induction c) auto

lemma split_slash_single: "slash \<notin> set c \<Longrightarrow> split_slash c = [c]"
  by (induction c) auto

text \<open>Joining names with slashes and splitting the path again gives the names.\<close>

fun join_path :: "bytes list \<Rightarrow> bytes" where
  "join_path [] = []"
| "join_path (c # cs) = slash # c @ join_path cs"

lemma components_append:
  "slash \<notin> set c \<Longrightarrow> c \<noteq> [] \<Longrightarrow> components (slash # c @ slash # bs) = c # components (slash # bs)"
  by (simp add: components_def split_slash_append)

lemma components_join:
  "(\<forall>c\<in>set cs. c \<noteq> [] \<and> slash \<notin> set c) \<Longrightarrow> components (join_path cs) = cs"
proof (induction cs)
  case Nil
  then show ?case by (simp add: components_def)
next
  case (Cons c cs)
  show ?case
  proof (cases cs)
    case Nil
    with Cons show ?thesis by (simp add: components_def split_slash_single)
  next
    case (Cons d ds)
    with Cons.prems have "components (join_path (c # cs)) = c # components (join_path cs)"
      using components_append [of c "d @ join_path ds"] by simp
    with Cons.IH Cons.prems show ?thesis by simp
  qed
qed

lemma components_wf: "c \<in> set (components p) \<Longrightarrow> c \<noteq> [] \<and> slash \<notin> set c"
  by (auto simp: components_def dest: split_slash_no_slash)

end
