(* ===== verification/Superblock.thy ===== *)
theory Superblock
  imports Device Utf8
begin

text \<open>
  The superblock (\<open>src/superblock.rs\<close>): parsing, the incompatible-feature gate, the checksum, the
  device table and the compression-configuration blob. Field offsets are those of the module
  \<open>offsets\<close> there, written out. The CRC32C function belongs to the \<open>crc32c\<close> crate and is a
  parameter \<open>crc\<close>.

  A device need not return the same bytes twice, so \<open>superblock_read\<close> takes the device as it answers
  the first read and as it answers the second.
\<close>

named_theorems sb_consts "constants of the superblock format"

definition EROFS_SUPER_OFFSET :: u64 where [sb_consts]: "EROFS_SUPER_OFFSET = 1024"
definition EROFS_SUPER_BLOCK_SIZE :: usize where [sb_consts]: "EROFS_SUPER_BLOCK_SIZE = 128"
definition EROFS_SUPER_MAGIC_V1 :: u32 where [sb_consts]: "EROFS_SUPER_MAGIC_V1 = 0xE0F5E1E2"
definition FEATURE_COMPAT_SB_CHKSUM :: u32 where [sb_consts]: "FEATURE_COMPAT_SB_CHKSUM = 0x1"
definition INCOMPAT_ZERO_PADDING :: u32 where [sb_consts]: "INCOMPAT_ZERO_PADDING = 0x1"
definition INCOMPAT_COMPR_CFGS :: u32 where [sb_consts]: "INCOMPAT_COMPR_CFGS = 0x2"
definition INCOMPAT_CHUNKED_FILE :: u32 where [sb_consts]: "INCOMPAT_CHUNKED_FILE = 0x4"
definition INCOMPAT_DEVICE_TABLE :: u32 where [sb_consts]: "INCOMPAT_DEVICE_TABLE = 0x8"
definition INCOMPAT_ZTAILPACKING :: u32 where [sb_consts]: "INCOMPAT_ZTAILPACKING = 0x10"
definition INCOMPAT_FRAGMENTS :: u32 where [sb_consts]: "INCOMPAT_FRAGMENTS = 0x20"
definition INCOMPAT_XATTR_PREFIXES :: u32 where [sb_consts]: "INCOMPAT_XATTR_PREFIXES = 0x40"
definition INCOMPAT_48BIT :: u32 where [sb_consts]: "INCOMPAT_48BIT = 0x80"
definition INCOMPAT_METABOX :: u32 where [sb_consts]: "INCOMPAT_METABOX = 0x100"

definition INCOMPAT_SUPPORTED :: u32 where [sb_consts]:
  "INCOMPAT_SUPPORTED = INCOMPAT_ZERO_PADDING OR INCOMPAT_COMPR_CFGS OR INCOMPAT_CHUNKED_FILE
     OR INCOMPAT_DEVICE_TABLE OR INCOMPAT_ZTAILPACKING OR INCOMPAT_FRAGMENTS
     OR INCOMPAT_XATTR_PREFIXES"

definition MIN_BLKSZBITS :: u8 where [sb_consts]: "MIN_BLKSZBITS = 9"
definition MAX_BLKSZBITS :: u8 where [sb_consts]: "MAX_BLKSZBITS = 16"

definition is_valid_blkszbits :: "u8 \<Rightarrow> bool" where
  "is_valid_blkszbits bits = (MIN_BLKSZBITS \<le> bits \<and> bits \<le> MAX_BLKSZBITS)"

section \<open>The superblock record\<close>

record superblock =
  sb_magic :: u32
  sb_checksum :: u32
  sb_feature_compat :: u32
  sb_blkszbits :: u8
  sb_extslots :: u8
  sb_root_nid :: u16
  sb_inos :: u64
  sb_build_time :: u64
  sb_build_time_nsec :: u32
  sb_blocks :: u32
  sb_meta_blkaddr :: u32
  sb_xattr_blkaddr :: u32
  sb_uuid :: bytes
  sb_volume_name :: bytes
  sb_feature_incompat :: u32
  sb_u1 :: u16
  sb_extra_devices :: u16
  sb_devt_slotoff :: u16
  sb_dirblkbits :: u8
  sb_xattr_prefix_count :: u8
  sb_xattr_prefix_start :: u32
  sb_packed_nid :: u64

definition check_incompat_features :: "superblock \<Rightarrow> unit result" where
  "check_incompat_features sb =
     (let unsupported = sb_feature_incompat sb AND NOT INCOMPAT_SUPPORTED in
      if unsupported = 0 then Ok ()
      else if unsupported AND INCOMPAT_METABOX \<noteq> 0 then
        Err (BadSuperblock ''feature_incompat metabox (0x100) is not implemented by this reader'')
      else if unsupported AND INCOMPAT_48BIT \<noteq> 0 then
        Err (BadSuperblock ''feature_incompat 48bit (0x80) block addressing is not implemented by this reader'')
      else
        Err (BadSuperblock ''feature_incompat carries an unknown bit this reader does not implement''))"

definition superblock_parse :: "bytes \<Rightarrow> superblock result" where
  "superblock_parse bs =
     (if length bs < EROFS_SUPER_BLOCK_SIZE
      then Err (BadSuperblock ''buffer shorter than 128 bytes'')
      else bindR (u32_at bs 0x00) (\<lambda>magic.
        if magic \<noteq> EROFS_SUPER_MAGIC_V1 then Err NotErofs
        else bindR (idx bs 0x0C) (\<lambda>blkszbits.
        if \<not> (MIN_BLKSZBITS \<le> blkszbits \<and> blkszbits \<le> MAX_BLKSZBITS)
        then Err (BadSuperblock ''blkszbits out of range'')
        else bindR (idx bs 0x5A) (\<lambda>dirblkbits.
        if dirblkbits \<noteq> 0
        then Err (BadSuperblock ''dirblkbits is nonzero; only a directory block equal to the filesystem block is supported'')
        else
          bindR (slice bs 0x30 0x40) (\<lambda>uuid.
          bindR (slice bs 0x40 0x50) (\<lambda>volume_name.
          bindR (u32_at bs 0x04) (\<lambda>checksum.
          bindR (u32_at bs 0x08) (\<lambda>feature_compat.
          bindR (idx bs 0x0D) (\<lambda>extslots.
          bindR (u16_at bs 0x0E) (\<lambda>root_nid.
          bindR (u64_at bs 0x10) (\<lambda>inos.
          bindR (u64_at bs 0x18) (\<lambda>build_time.
          bindR (u32_at bs 0x20) (\<lambda>build_time_nsec.
          bindR (u32_at bs 0x24) (\<lambda>blocks.
          bindR (u32_at bs 0x28) (\<lambda>meta_blkaddr.
          bindR (u32_at bs 0x2C) (\<lambda>xattr_blkaddr.
          bindR (u32_at bs 0x50) (\<lambda>feature_incompat.
          bindR (u16_at bs 0x54) (\<lambda>u1.
          bindR (u16_at bs 0x56) (\<lambda>extra_devices.
          bindR (u16_at bs 0x58) (\<lambda>devt_slotoff.
          bindR (idx bs 0x5B) (\<lambda>xattr_prefix_count.
          bindR (u32_at bs 0x5C) (\<lambda>xattr_prefix_start.
          bindR (u64_at bs 0x60) (\<lambda>packed_nid.
            Ok \<lparr>sb_magic = magic, sb_checksum = checksum, sb_feature_compat = feature_compat,
                sb_blkszbits = blkszbits, sb_extslots = extslots, sb_root_nid = root_nid,
                sb_inos = inos, sb_build_time = build_time, sb_build_time_nsec = build_time_nsec,
                sb_blocks = blocks, sb_meta_blkaddr = meta_blkaddr,
                sb_xattr_blkaddr = xattr_blkaddr, sb_uuid = uuid, sb_volume_name = volume_name,
                sb_feature_incompat = feature_incompat, sb_u1 = u1,
                sb_extra_devices = extra_devices, sb_devt_slotoff = devt_slotoff,
                sb_dirblkbits = dirblkbits, sb_xattr_prefix_count = xattr_prefix_count,
                sb_xattr_prefix_start = xattr_prefix_start, sb_packed_nid = packed_nid\<rparr>)))))))))))))))))))))))"

text \<open>A left shift of a 64-bit value masks its count to six bits in the release profile.\<close>

definition block_size :: "superblock \<Rightarrow> u64" where
  "block_size sb = push_bit (unat (sb_blkszbits sb) mod 64) 1"

definition volume_name_str :: "superblock \<Rightarrow> bytes" where
  "volume_name_str sb = label_str (sb_volume_name sb)"

definition checksum_span_len :: "superblock \<Rightarrow> usize" where
  "checksum_span_len sb =
     (let block_size = 2 ^ (unat (sb_blkszbits sb) mod 64) in
      block_size - unat EROFS_SUPER_OFFSET mod block_size)"

definition verify_checksum :: "(bytes \<Rightarrow> u32) \<Rightarrow> superblock \<Rightarrow> bytes \<Rightarrow> bool" where
  "verify_checksum crc sb raw_sb_to_block_end =
     (if sb_feature_compat sb AND FEATURE_COMPAT_SB_CHKSUM = 0 then True
      else let want_len = checksum_span_len sb in
        if length raw_sb_to_block_end < want_len then False
        else let tmp = put (take want_len raw_sb_to_block_end) 0x04 [0, 0, 0, 0] in
          crc tmp XOR 0xFFFFFFFF = sb_checksum sb)"

definition superblock_read :: "(bytes \<Rightarrow> u32) \<Rightarrow> blockdev \<Rightarrow> blockdev \<Rightarrow> superblock result" where
  "superblock_read crc dev1 dev2 =
     bindR (read_at dev1 EROFS_SUPER_OFFSET EROFS_SUPER_BLOCK_SIZE) (\<lambda>buf.
     bindR (superblock_parse buf) (\<lambda>sb.
       if sb_feature_compat sb AND FEATURE_COMPAT_SB_CHKSUM \<noteq> 0 then
         bindR (read_at dev2 EROFS_SUPER_OFFSET
                  (max (checksum_span_len sb) EROFS_SUPER_BLOCK_SIZE)) (\<lambda>span.
         bindR (slice span 0 EROFS_SUPER_BLOCK_SIZE) (\<lambda>head.
         bindR (superblock_parse head) (\<lambda>verified.
           if sb_feature_compat verified AND FEATURE_COMPAT_SB_CHKSUM = 0
              \<or> length span \<noteq> max (checksum_span_len verified) EROFS_SUPER_BLOCK_SIZE
              \<or> \<not> verify_checksum crc verified span
           then Err (BadSuperblock ''superblock checksum mismatch'')
           else Ok verified)))
       else Ok sb))"

section \<open>The device table\<close>

definition EROFS_DEVT_SLOT_SIZE :: u64 where [sb_consts]: "EROFS_DEVT_SLOT_SIZE = 128"

record device_slot =
  slot_tag :: bytes
  slot_blocks :: u32
  slot_mapped_blkaddr :: u32

definition tag_str :: "device_slot \<Rightarrow> bytes" where
  "tag_str s = label_str (slot_tag s)"

definition device_table_offset :: "superblock \<Rightarrow> u64" where
  "device_table_offset sb = ucast (sb_devt_slotoff sb) * EROFS_DEVT_SLOT_SIZE"

definition read_device_table :: "blockdev \<Rightarrow> superblock \<Rightarrow> device_slot list result" where
  "read_device_table dev sb =
     (let n = unat (sb_extra_devices sb) in
      if n = 0 then Ok []
      else let base = device_table_offset sb in
        mapR (\<lambda>i.
          let off = base + word_of_nat i * EROFS_DEVT_SLOT_SIZE in
          bindR (read_at dev off (unat EROFS_DEVT_SLOT_SIZE)) (\<lambda>buf.
          bindR (slice buf 0 64) (\<lambda>tag.
          bindR (u32_at buf 64) (\<lambda>blocks.
          bindR (u32_at buf 68) (\<lambda>mapped_blkaddr.
            Ok \<lparr>slot_tag = tag, slot_blocks = blocks, slot_mapped_blkaddr = mapped_blkaddr\<rparr>)))))
        [0..<n])"

section \<open>The compression-configuration blob\<close>

record lzma_cfg =
  dict_size :: u32
  lzma_lc :: u8
  lzma_lp :: u8
  lzma_pb :: u8

definition lzma_cfg_default :: lzma_cfg where
  "lzma_cfg_default = \<lparr>dict_size = push_bit 24 1, lzma_lc = 3, lzma_lp = 0, lzma_pb = 2\<rparr>"

record zstd_cfg =
  zstd_format :: u8
  zstd_windowlog :: u8

record compr_cfgs =
  cfg_lz4 :: "unit option"
  cfg_lzma :: "lzma_cfg option"
  cfg_deflate :: "unit option"
  cfg_zstd :: "zstd_cfg option"

definition compr_cfgs_default :: compr_cfgs where
  "compr_cfgs_default = \<lparr>cfg_lz4 = None, cfg_lzma = None, cfg_deflate = None, cfg_zstd = None\<rparr>"

definition SB_EXTSLOT_SIZE :: u64 where [sb_consts]: "SB_EXTSLOT_SIZE = 16"
definition COMPR_CFGS_MAX_BYTES :: u64 where [sb_consts]: "COMPR_CFGS_MAX_BYTES = 8 * (2 + 65535)"
definition Z_EROFS_ZSTD_MAX_DICT_LOG :: u32 where [sb_consts]: "Z_EROFS_ZSTD_MAX_DICT_LOG = 20"
definition LZ4_BIT :: u16 where [sb_consts]: "LZ4_BIT = 1"
definition LZMA_BIT :: u16 where [sb_consts]: "LZMA_BIT = 2"
definition DEFLATE_BIT :: u16 where [sb_consts]: "DEFLATE_BIT = 4"
definition ZSTD_BIT :: u16 where [sb_consts]: "ZSTD_BIT = 8"

definition compr_cfgs_offset :: "superblock \<Rightarrow> u64" where
  "compr_cfgs_offset sb =
     EROFS_SUPER_OFFSET + word_of_nat EROFS_SUPER_BLOCK_SIZE + ucast (sb_extslots sb) * SB_EXTSLOT_SIZE"

text \<open>The closure \<open>read_one\<close>: it consumes one record and moves the cursor it was given.\<close>

definition read_one :: "blockdev \<Rightarrow> u64 \<Rightarrow> u64 \<Rightarrow> (bytes \<times> u64) result" where
  "read_one dev stop cursor =
     (if stop < cursor + 2 then Err (BadInode ''COMPR_CFGS walk exceeded sanity bound'')
      else bindR (read_at dev cursor 2) (\<lambda>sz_bytes.
        let size = unat (le16 sz_bytes); cursor = cursor + 2 in
        if 0 < size then
          bindR (read_at dev cursor size) (\<lambda>payload. Ok (payload, cursor + word_of_nat size))
        else Ok ([], cursor)))"

text \<open>The four records, in canonical order, each present when its bit of \<open>u1\<close> is set.\<close>

definition read_lz4_cfg :: "blockdev \<Rightarrow> u64 \<Rightarrow> u16 \<Rightarrow> u64 \<times> compr_cfgs \<Rightarrow> (u64 \<times> compr_cfgs) result" where
  "read_lz4_cfg dev stop algos st = (case st of (cursor, cfgs) \<Rightarrow>
     if algos AND LZ4_BIT \<noteq> 0 then
       bindR (read_one dev stop cursor) (\<lambda>(_, cursor). Ok (cursor, cfgs\<lparr>cfg_lz4 := Some ()\<rparr>))
     else Ok (cursor, cfgs))"

definition read_lzma_cfg :: "blockdev \<Rightarrow> u64 \<Rightarrow> u16 \<Rightarrow> u64 \<times> compr_cfgs \<Rightarrow> (u64 \<times> compr_cfgs) result" where
  "read_lzma_cfg dev stop algos st = (case st of (cursor, cfgs) \<Rightarrow>
     if algos AND LZMA_BIT \<noteq> 0 then
       bindR (read_one dev stop cursor) (\<lambda>(payload, cursor).
         if length payload < 4 then Err (BadInode ''LZMA cfg payload < 4 bytes'')
         else bindR (u32_at payload 0) (\<lambda>dict.
           let dict = (if dict = 0 then dict_size lzma_cfg_default else dict) in
           Ok (cursor, cfgs\<lparr>cfg_lzma := Some (lzma_cfg_default\<lparr>dict_size := dict\<rparr>)\<rparr>)))
     else Ok (cursor, cfgs))"

definition read_deflate_cfg :: "blockdev \<Rightarrow> u64 \<Rightarrow> u16 \<Rightarrow> u64 \<times> compr_cfgs \<Rightarrow> (u64 \<times> compr_cfgs) result" where
  "read_deflate_cfg dev stop algos st = (case st of (cursor, cfgs) \<Rightarrow>
     if algos AND DEFLATE_BIT \<noteq> 0 then
       bindR (read_one dev stop cursor) (\<lambda>(_, cursor). Ok (cursor, cfgs\<lparr>cfg_deflate := Some ()\<rparr>))
     else Ok (cursor, cfgs))"

definition read_zstd_cfg :: "blockdev \<Rightarrow> u64 \<Rightarrow> u16 \<Rightarrow> u64 \<times> compr_cfgs \<Rightarrow> (u64 \<times> compr_cfgs) result" where
  "read_zstd_cfg dev stop algos st = (case st of (cursor, cfgs) \<Rightarrow>
     if algos AND ZSTD_BIT \<noteq> 0 then
       bindR (read_one dev stop cursor) (\<lambda>(payload, cursor).
         if length payload < 2 then Err (BadInode ''ZSTD cfg payload < 2 bytes'')
         else bindR (idx payload 0) (\<lambda>format. bindR (idx payload 1) (\<lambda>windowlog.
           if format \<noteq> 0 then
             Err (BadSuperblock ''ZSTD config declares a format other than 0, the only one defined'')
           else if Z_EROFS_ZSTD_MAX_DICT_LOG < ucast windowlog + 10 then
             Err (BadSuperblock ''ZSTD config declares a dictionary larger than the format allows'')
           else Ok (cursor, cfgs\<lparr>cfg_zstd :=
                  Some \<lparr>zstd_format = format, zstd_windowlog = windowlog\<rparr>\<rparr>))))
     else Ok (cursor, cfgs))"

definition read_compr_cfgs :: "blockdev \<Rightarrow> superblock \<Rightarrow> compr_cfgs option result" where
  "read_compr_cfgs dev sb =
     (if sb_feature_incompat sb AND INCOMPAT_COMPR_CFGS = 0 then Ok None
      else
        let algos = sb_u1 sb; cursor = compr_cfgs_offset sb; stop = cursor + COMPR_CFGS_MAX_BYTES in
        bindR (read_lz4_cfg dev stop algos (cursor, compr_cfgs_default)) (\<lambda>st.
        bindR (read_lzma_cfg dev stop algos st) (\<lambda>st.
        bindR (read_deflate_cfg dev stop algos st) (\<lambda>st.
        bindR (read_zstd_cfg dev stop algos st) (\<lambda>(_, cfgs). Ok (Some cfgs))))))"

section \<open>What parsing accepts\<close>

text \<open>The fields of a superblock as the bytes of a buffer give them.\<close>

definition sb_fields :: "bytes \<Rightarrow> superblock" where
  "sb_fields bs =
     \<lparr>sb_magic = le32 (take 4 bs), sb_checksum = le32 (take 4 (drop 0x04 bs)),
      sb_feature_compat = le32 (take 4 (drop 0x08 bs)), sb_blkszbits = bs ! 0x0C,
      sb_extslots = bs ! 0x0D, sb_root_nid = le16 (take 2 (drop 0x0E bs)),
      sb_inos = le64 (take 8 (drop 0x10 bs)), sb_build_time = le64 (take 8 (drop 0x18 bs)),
      sb_build_time_nsec = le32 (take 4 (drop 0x20 bs)), sb_blocks = le32 (take 4 (drop 0x24 bs)),
      sb_meta_blkaddr = le32 (take 4 (drop 0x28 bs)),
      sb_xattr_blkaddr = le32 (take 4 (drop 0x2C bs)), sb_uuid = take 16 (drop 0x30 bs),
      sb_volume_name = take 16 (drop 0x40 bs),
      sb_feature_incompat = le32 (take 4 (drop 0x50 bs)), sb_u1 = le16 (take 2 (drop 0x54 bs)),
      sb_extra_devices = le16 (take 2 (drop 0x56 bs)),
      sb_devt_slotoff = le16 (take 2 (drop 0x58 bs)), sb_dirblkbits = bs ! 0x5A,
      sb_xattr_prefix_count = bs ! 0x5B, sb_xattr_prefix_start = le32 (take 4 (drop 0x5C bs)),
      sb_packed_nid = le64 (take 8 (drop 0x60 bs))\<rparr>"

lemma superblock_parse_cases:
  "superblock_parse bs =
     (if length bs < 128 then Err (BadSuperblock ''buffer shorter than 128 bytes'')
      else if le32 (take 4 bs) \<noteq> EROFS_SUPER_MAGIC_V1 then Err NotErofs
      else if \<not> (9 \<le> bs ! 0x0C \<and> bs ! 0x0C \<le> 16) then Err (BadSuperblock ''blkszbits out of range'')
      else if bs ! 0x5A \<noteq> 0 then Err (BadSuperblock ''dirblkbits is nonzero; only a directory block equal to the filesystem block is supported'')
      else Ok (sb_fields bs))"
  by (auto simp: superblock_parse_def sb_fields_def EROFS_SUPER_BLOCK_SIZE_def MIN_BLKSZBITS_def
      MAX_BLKSZBITS_def)

lemma returns_superblock_parse [returns_intros, simp]: "returns (superblock_parse bs)"
  by (simp add: superblock_parse_cases)

definition sb_ok :: "superblock \<Rightarrow> bool" where
  "sb_ok sb \<longleftrightarrow> sb_magic sb = EROFS_SUPER_MAGIC_V1 \<and> is_valid_blkszbits (sb_blkszbits sb)
     \<and> sb_dirblkbits sb = 0 \<and> length (sb_uuid sb) = 16 \<and> length (sb_volume_name sb) = 16"

lemma superblock_parse_ok: "superblock_parse bs = Ok sb \<Longrightarrow> sb_ok sb"
  by (auto simp: superblock_parse_cases sb_ok_def sb_fields_def is_valid_blkszbits_def
      MIN_BLKSZBITS_def MAX_BLKSZBITS_def split: if_splits)

lemma sb_ok_blkszbits: "sb_ok sb \<Longrightarrow> 9 \<le> unat (sb_blkszbits sb) \<and> unat (sb_blkszbits sb) \<le> 16"
  by (simp add: sb_ok_def is_valid_blkszbits_def sb_consts word_le_nat_alt)

lemma unat_block_size: "unat (sb_blkszbits sb) < 64 \<Longrightarrow> unat (block_size sb) = 2 ^ unat (sb_blkszbits sb)"
  by (simp add: block_size_def unat_power2)

text \<open>A well-formed superblock's block size, as a number.\<close>

lemma sb_ok_block_size:
  assumes "sb_ok sb"
  shows "unat (block_size sb) = 2 ^ unat (sb_blkszbits sb)"
    and "512 \<le> unat (block_size sb)" and "unat (block_size sb) \<le> 65536"
    and "block_size sb \<noteq> 0"
proof -
  from sb_ok_blkszbits [OF assms] have b: "9 \<le> unat (sb_blkszbits sb)" "unat (sb_blkszbits sb) \<le> 16" by auto
  then show e: "unat (block_size sb) = 2 ^ unat (sb_blkszbits sb)" by (simp add: unat_block_size)
  have "(512 :: nat) = 2 ^ 9" by simp
  also have "\<dots> \<le> 2 ^ unat (sb_blkszbits sb)" using b(1) by (rule power_increasing) simp
  finally show ge: "512 \<le> unat (block_size sb)" by (simp only: e)
  have "(2 :: nat) ^ unat (sb_blkszbits sb) \<le> 2 ^ 16" using b(2) by (rule power_increasing) simp
  also have "\<dots> = (65536 :: nat)" by simp
  finally show "unat (block_size sb) \<le> 65536" by (simp only: e)
  from ge show "block_size sb \<noteq> 0" by auto
qed

lemma checksum_span_len_eq:
  assumes "sb_ok sb"
  shows "checksum_span_len sb = (if unat (sb_blkszbits sb) \<le> 10 then 2 ^ unat (sb_blkszbits sb)
           else 2 ^ unat (sb_blkszbits sb) - 1024)"
proof -
  from sb_ok_blkszbits [OF assms] have b: "9 \<le> unat (sb_blkszbits sb)" "unat (sb_blkszbits sb) \<le> 16" by auto
  show ?thesis
  proof (cases "unat (sb_blkszbits sb) \<le> 10")
    case True
    then have "unat (sb_blkszbits sb) = 9 \<or> unat (sb_blkszbits sb) = 10" using b by linarith
    then show ?thesis by (auto simp: checksum_span_len_def EROFS_SUPER_OFFSET_def)
  next
    case False
    then have "(2 :: nat) ^ 11 \<le> 2 ^ unat (sb_blkszbits sb)" by (intro power_increasing) auto
    then show ?thesis using False b
      by (simp add: checksum_span_len_def EROFS_SUPER_OFFSET_def Let_def)
  qed
qed

lemma checksum_span_len_ge: "sb_ok sb \<Longrightarrow> 512 \<le> checksum_span_len sb"
proof -
  assume ok: "sb_ok sb"
  from sb_ok_blkszbits [OF ok] have b: "9 \<le> unat (sb_blkszbits sb)" by auto
  have "(2 :: nat) ^ 9 \<le> 2 ^ unat (sb_blkszbits sb)" using b by (rule power_increasing) simp
  moreover have "\<not> unat (sb_blkszbits sb) \<le> 10 \<Longrightarrow> (2 :: nat) ^ 11 \<le> 2 ^ unat (sb_blkszbits sb)"
    by (rule power_increasing) auto
  ultimately show ?thesis by (auto simp: checksum_span_len_eq [OF ok])
qed

section \<open>The checksum gate\<close>

lemma returns_superblock_read [returns_intros]: "returns (superblock_read crc d1 d2)"
  unfolding superblock_read_def
proof (intro returns_bindR)
  fix buf sb
  assume "superblock_parse buf = Ok sb"
  show "returns (if sb_feature_compat sb AND FEATURE_COMPAT_SB_CHKSUM \<noteq> 0 then
         bindR (read_at d2 EROFS_SUPER_OFFSET (max (checksum_span_len sb) EROFS_SUPER_BLOCK_SIZE)) (\<lambda>span.
         bindR (slice span 0 EROFS_SUPER_BLOCK_SIZE) (\<lambda>head.
         bindR (superblock_parse head) (\<lambda>verified.
           if sb_feature_compat verified AND FEATURE_COMPAT_SB_CHKSUM = 0
              \<or> length span \<noteq> max (checksum_span_len verified) EROFS_SUPER_BLOCK_SIZE
              \<or> \<not> verify_checksum crc verified span
           then Err (BadSuperblock ''superblock checksum mismatch'')
           else Ok verified)))
       else Ok sb)"
    by (auto intro!: returns_bindR returns_slice dest: read_at_length)
qed simp_all

lemma superblock_read_OkI:
  assumes "read_at d1 1024 128 = Ok buf" "superblock_parse buf = Ok sb1"
    and "sb_feature_compat sb1 AND 1 \<noteq> 0"
    and "read_at d2 1024 (max (checksum_span_len sb1) 128) = Ok span" "128 \<le> length span"
    and "superblock_parse (take 128 span) = Ok v" "sb_feature_compat v AND 1 \<noteq> 0"
    and "length span = max (checksum_span_len v) 128" "verify_checksum crc v span"
  shows "superblock_read crc d1 d2 = Ok v"
  using assms by (simp add: superblock_read_def sb_consts)

text \<open>C18: the superblock an open proceeds with is well formed, and when it advertises a checksum it is
  the very one the checksum was computed over: it parses from the first 128 bytes of a span the
  device returned, that span is exactly the superblock's checksum span, and its CRC with the
  checksum field zeroed is the stored one. A device that answers the two reads differently cannot
  slip an unverified superblock through.\<close>

theorem superblock_read_verified:
  assumes "superblock_read crc d1 d2 = Ok sb"
  shows "sb_ok sb \<and>
    (sb_feature_compat sb AND 1 \<noteq> 0 \<longrightarrow>
      (\<exists>span. read_at d2 1024 (checksum_span_len sb) = Ok span
        \<and> superblock_parse (take 128 span) = Ok sb
        \<and> crc (put span 4 [0, 0, 0, 0]) XOR 0xFFFFFFFF = sb_checksum sb))"
proof (intro conjI impI)
  from assms obtain buf sb1 where sb1: "superblock_parse buf = Ok sb1"
    and r: "if sb_feature_compat sb1 AND 1 \<noteq> 0 then
      (\<exists>span. read_at d2 1024 (max (checksum_span_len sb1) 128) = Ok span \<and>
         128 \<le> length span \<and> superblock_parse (take 128 span) = Ok sb \<and>
         sb_feature_compat sb AND 1 \<noteq> 0 \<and> length span = max (checksum_span_len sb) 128 \<and>
         verify_checksum crc sb span) else sb = sb1"
    by (auto simp: superblock_read_def sb_consts slice_eq_Ok split: if_splits)
  show ok: "sb_ok sb" using r sb1 by (auto dest: superblock_parse_ok split: if_splits)
  assume c: "sb_feature_compat sb AND 1 \<noteq> 0"
  with r obtain span where span: "read_at d2 1024 (max (checksum_span_len sb1) 128) = Ok span"
    "superblock_parse (take 128 span) = Ok sb" "length span = max (checksum_span_len sb) 128"
    "verify_checksum crc sb span" by (auto split: if_splits)
  have m: "max (checksum_span_len sb) 128 = checksum_span_len sb"
    using checksum_span_len_ge [OF ok] by simp
  have "max (checksum_span_len sb1) 128 = length span" using read_at_length [OF span(1)] by simp
  with span m c show "\<exists>span. read_at d2 1024 (checksum_span_len sb) = Ok span
        \<and> superblock_parse (take 128 span) = Ok sb
        \<and> crc (put span 4 [0, 0, 0, 0]) XOR 0xFFFFFFFF = sb_checksum sb"
    by (intro exI [of _ span]) (auto simp: verify_checksum_def Let_def sb_consts split: if_splits)
qed

text \<open>The gate at open passes an image exactly when every incompatible-feature bit it sets is one
  of the seven low bits the reader implements.\<close>

theorem check_incompat_iff:
  "(check_incompat_features sb = Ok ()) = (sb_feature_incompat sb < 0x80)"
proof -
  let ?x = "sb_feature_incompat sb"
  have m: "INCOMPAT_SUPPORTED = mask 7" by (simp add: sb_consts mask_eq_exp_minus_1)
  have "(?x AND NOT (mask 7) = 0) = (take_bit 7 ?x = ?x)"
  proof
    assume "?x AND NOT (mask 7) = 0"
    then have "\<not> bit (?x AND NOT (mask 7)) n" for n by simp
    then have "bit ?x n \<Longrightarrow> n < 7" for n
      using bit_imp_le_length [of ?x n] by (auto simp: bit_simps)
    then show "take_bit 7 ?x = ?x" by (intro bit_word_eqI) (auto simp: bit_simps)
  next
    assume t: "take_bit 7 ?x = ?x"
    show "?x AND NOT (mask 7) = 0"
      by (subst t [symmetric]) (rule bit_word_eqI, auto simp: bit_simps)
  qed
  also have "\<dots> = (?x < 2 ^ 7)"
    by (simp add: word_less_nat_alt word_unat_eq_iff unsigned_take_bit_eq take_bit_nat_eq_self_iff)
  finally show ?thesis by (simp add: check_incompat_features_def Let_def m)
qed

section \<open>The writer's superblock\<close>

text \<open>\<open>write_superblock\<close> of \<open>src/mkfs.rs\<close>: it places the fields in an image buffer, and from 2 KiB
  blocks up advertises and stores the checksum.\<close>

definition mkfs_label :: bytes where
  "mkfs_label = [0x72, 0x73, 0x6D, 0x6B, 0x66, 0x73]"

definition write_superblock ::
    "(bytes \<Rightarrow> u32) \<Rightarrow> bytes \<Rightarrow> u8 \<Rightarrow> u64 \<Rightarrow> u32 \<Rightarrow> u32 \<Rightarrow> u32 \<Rightarrow> u16 \<Rightarrow> u8 \<Rightarrow> u32 \<Rightarrow> bytes result" where
  "write_superblock crc img blkszbits n_inodes total_blocks meta_blkaddr feature_incompat u1
       xattr_prefix_count xattr_prefix_start =
     (let off = unat EROFS_SUPER_OFFSET in
      bindR (put_at img (off + 0x00) (to_le32 EROFS_SUPER_MAGIC_V1)) (\<lambda>img.
      bindR (put_at img (off + 0x0C) [blkszbits]) (\<lambda>img.
      bindR (put_at img (off + 0x0E) (to_le16 0)) (\<lambda>img.
      bindR (put_at img (off + 0x10) (to_le64 n_inodes)) (\<lambda>img.
      bindR (put_at img (off + 0x24) (to_le32 total_blocks)) (\<lambda>img.
      bindR (put_at img (off + 0x28) (to_le32 meta_blkaddr)) (\<lambda>img.
      bindR (put_at img (off + 0x40) mkfs_label) (\<lambda>img.
      bindR (put_at img (off + 0x50) (to_le32 feature_incompat)) (\<lambda>img.
      bindR (put_at img (off + 0x54) (to_le16 u1)) (\<lambda>img.
      bindR (put_at img (off + 0x5B) [xattr_prefix_count]) (\<lambda>img.
      bindR (put_at img (off + 0x5C) (to_le32 xattr_prefix_start)) (\<lambda>img.
      if blkszbits \<le> 10 then Ok img
      else
        bindR (put_at img (off + 0x08) (to_le32 FEATURE_COMPAT_SB_CHKSUM)) (\<lambda>img.
        let block_size = 2 ^ (unat blkszbits mod 64); crc_len = block_size - off mod block_size in
        bindR (slice img off (off + crc_len)) (\<lambda>sb_to_block_end.
        let csum = crc sb_to_block_end XOR 0xFFFFFFFF in
        put_at img (off + 0x04) (to_le32 csum)))))))))))))))"

text \<open>The 128 bytes it leaves at the superblock's place when they were zero before.\<close>

definition sb_header ::
    "u32 \<Rightarrow> u32 \<Rightarrow> u8 \<Rightarrow> u64 \<Rightarrow> u32 \<Rightarrow> u32 \<Rightarrow> u32 \<Rightarrow> u16 \<Rightarrow> u8 \<Rightarrow> u32 \<Rightarrow> bytes" where
  "sb_header csum cpt blkszbits n_inodes total_blocks meta_blkaddr feature_incompat u1 count start =
     to_le32 EROFS_SUPER_MAGIC_V1 @ to_le32 csum @ to_le32 cpt @ [blkszbits, 0, 0, 0]
     @ to_le64 n_inodes @ replicate 12 0 @ to_le32 total_blocks @ to_le32 meta_blkaddr
     @ replicate 20 0 @ mkfs_label @ replicate 10 0 @ to_le32 feature_incompat @ to_le16 u1
     @ replicate 5 0 @ [count] @ to_le32 start @ replicate 32 0"

lemma length_sb_header [simp]: "length (sb_header csum cpt b n t m fi u1 c st) = 128"
  by (simp add: sb_header_def mkfs_label_def)

lemma to_le_zero: "to_le16 0 = [0, 0]" "to_le32 0 = [0, 0, 0, 0]"
  by (simp_all add: to_le_zeros numeral_eq_Suc)

lemma header_writes:
  "put (put (put (put (put (put (put (put (put (put (put (replicate 128 0)
     0x00 (to_le32 EROFS_SUPER_MAGIC_V1)) 0x0C [b]) 0x0E (to_le16 0)) 0x10 (to_le64 n))
     0x24 (to_le32 t)) 0x28 (to_le32 m)) 0x40 mkfs_label) 0x50 (to_le32 fi)) 0x54 (to_le16 u1))
     0x5B [c]) 0x5C (to_le32 st) = sb_header 0 0 b n t m fi u1 c st"
  by (simp add: put_def sb_header_def mkfs_label_def to_le_zero numeral_eq_Suc)
lemma header_compat: "put (sb_header 0 0 b n t m fi u1 c st) 8 (to_le32 x) = sb_header 0 x b n t m fi u1 c st"
  by (simp add: put_def sb_header_def)
lemma header_csum: "put (sb_header y x b n t m fi u1 c st) 4 (to_le32 z) = sb_header z x b n t m fi u1 c st"
  by (simp add: put_def sb_header_def)
lemma sb_fields_header:
  "sb_fields (sb_header csum x b n t m fi u1 c st) =
   \<lparr>sb_magic = EROFS_SUPER_MAGIC_V1, sb_checksum = csum, sb_feature_compat = x, sb_blkszbits = b,
      sb_extslots = 0, sb_root_nid = 0, sb_inos = n, sb_build_time = 0, sb_build_time_nsec = 0,
      sb_blocks = t, sb_meta_blkaddr = m, sb_xattr_blkaddr = 0, sb_uuid = replicate 16 0,
      sb_volume_name = mkfs_label @ replicate 10 0, sb_feature_incompat = fi, sb_u1 = u1,
      sb_extra_devices = 0, sb_devt_slotoff = 0, sb_dirblkbits = 0, sb_xattr_prefix_count = c,
      sb_xattr_prefix_start = st, sb_packed_nid = 0\<rparr>"
proof -
  have z: "le16 [0, 0] = 0" using le_zeros(1) [of 2] by (simp add: numeral_eq_Suc)
  show ?thesis
    by (simp add: sb_fields_def sb_header_def mkfs_label_def nth_append take_replicate drop_replicate z)
qed

lemma write_superblock_eq:
  assumes z: "take 128 (drop 1024 img) = replicate 128 0" and len: "1152 \<le> length img"
    and b: "is_valid_blkszbits b" and blk: "2 ^ unat b \<le> length img"
  shows "write_superblock crc img b n t m fi u1 c st = Ok (put img 1024
     (if b \<le> 10 then sb_header 0 0 b n t m fi u1 c st
      else sb_header (crc (take (2 ^ unat b - 1024)
             (drop 1024 (put img 1024 (sb_header 0 1 b n t m fi u1 c st)))) XOR 0xFFFFFFFF)
           1 b n t m fi u1 c st))"
proof -
  let ?h = "sb_header 0 0 b n t m fi u1 c st" and ?h1 = "sb_header 0 1 b n t m fi u1 c st"
  have base: "put img 1024 (replicate 128 0) = img"
    using put_self [of 1024 128 img] len z by simp
  have inner: "put (put img 1024 h) j v = put img 1024 (put h (j - 1024) v)"
    if "length h = 128" "1024 \<le> j" "j + length v \<le> 1152" for h j v
    using that len put_put_inner [of "j - 1024" v h 1024 img] by simp
  have steps: "write_superblock crc (put img 1024 (replicate 128 0)) b n t m fi u1 c st =
      (if b \<le> 10 then Ok (put img 1024 ?h)
       else bindR (put_at (put img 1024 ?h) (1024 + 8) (to_le32 1)) (\<lambda>img.
        let block_size = 2 ^ (unat b mod 64); crc_len = block_size - 1024 mod block_size in
        bindR (slice img 1024 (1024 + crc_len)) (\<lambda>sb_to_block_end.
        let csum = crc sb_to_block_end XOR 0xFFFFFFFF in
        put_at img (1024 + 4) (to_le32 csum))))"
    using len unfolding write_superblock_def Let_def
    by (simp add: sb_consts inner mkfs_label_def header_writes [unfolded sb_consts mkfs_label_def])
  show ?thesis
  proof (cases "b \<le> 10")
    case True
    then show ?thesis using steps base by simp
  next
    case False
    have b16: "unat b \<le> 16" "\<not> unat b \<le> 10"
      using b False by (auto simp: is_valid_blkszbits_def sb_consts word_le_nat_alt)
    then have "(2 :: nat) ^ 11 \<le> 2 ^ unat b" by (intro power_increasing) auto
    then have "1024 < (2 :: nat) ^ unat b" by (rule less_le_trans [rotated]) simp
    then have e: "2 ^ (unat b mod 64) - 1024 mod 2 ^ (unat b mod 64) = (2 :: nat) ^ unat b - 1024"
      using b16 by simp
    then show ?thesis
      using steps base False len blk \<open>1024 < (2 :: nat) ^ unat b\<close>
      by (simp add: Let_def inner header_compat header_csum)
  qed
qed

definition written_sb :: "u32 \<Rightarrow> u8 \<Rightarrow> u64 \<Rightarrow> u32 \<Rightarrow> u32 \<Rightarrow> u32 \<Rightarrow> u16 \<Rightarrow> u8 \<Rightarrow> u32 \<Rightarrow> superblock" where
  "written_sb csum b n t m fi u1 c st =
     \<lparr>sb_magic = EROFS_SUPER_MAGIC_V1, sb_checksum = csum,
      sb_feature_compat = (if b \<le> 10 then 0 else 1), sb_blkszbits = b,
      sb_extslots = 0, sb_root_nid = 0, sb_inos = n, sb_build_time = 0, sb_build_time_nsec = 0,
      sb_blocks = t, sb_meta_blkaddr = m, sb_xattr_blkaddr = 0, sb_uuid = replicate 16 0,
      sb_volume_name = mkfs_label @ replicate 10 0, sb_feature_incompat = fi, sb_u1 = u1,
      sb_extra_devices = 0, sb_devt_slotoff = 0, sb_dirblkbits = 0, sb_xattr_prefix_count = c,
      sb_xattr_prefix_start = st, sb_packed_nid = 0\<rparr>"

lemma sb_header_nth: "sb_header y x b n t m fi u1 c st ! 0x0C = b" "sb_header y x b n t m fi u1 c st ! 0x5A = 0"
    "take 4 (sb_header y x b n t m fi u1 c st) = to_le32 EROFS_SUPER_MAGIC_V1"
  by (simp_all add: sb_header_def mkfs_label_def nth_append)

lemma parse_header:
  "is_valid_blkszbits b \<Longrightarrow> superblock_parse (sb_header csum (if b \<le> 10 then 0 else 1) b n t m fi u1 c st)
     = Ok (written_sb csum b n t m fi u1 c st)"
  by (simp add: superblock_parse_cases sb_header_nth sb_fields_header written_sb_def
      is_valid_blkszbits_def MIN_BLKSZBITS_def MAX_BLKSZBITS_def)

text \<open>An image that holds a written superblock, and the device that serves it.\<close>

definition sb_in ::
    "(bytes \<Rightarrow> u32) \<Rightarrow> bytes \<Rightarrow> u32 \<Rightarrow> u8 \<Rightarrow> u64 \<Rightarrow> u32 \<Rightarrow> u32 \<Rightarrow> u32 \<Rightarrow> u16 \<Rightarrow> u8 \<Rightarrow> u32 \<Rightarrow> bool" where
  "sb_in crc img cs b n t m fi u1 c st =
     (1152 \<le> length img \<and> 2 ^ unat b \<le> length img
      \<and> take 128 (drop 1024 img) = sb_header cs (if b \<le> 10 then 0 else 1) b n t m fi u1 c st
      \<and> (\<not> b \<le> 10 \<longrightarrow> crc (put (take (2 ^ unat b - 1024) (drop 1024 img)) 4 [0, 0, 0, 0]) XOR 0xFFFFFFFF = cs))"

lemma big_block:
  assumes "is_valid_blkszbits b" "\<not> b \<le> 10"
  shows "unat b \<le> 16" "\<not> unat b \<le> 10" "2048 \<le> (2 :: nat) ^ unat b"
proof -
  show b16: "unat b \<le> 16" "\<not> unat b \<le> 10"
    using assms by (auto simp: is_valid_blkszbits_def sb_consts word_le_nat_alt)
  then have "(2 :: nat) ^ 11 \<le> 2 ^ unat b" by (intro power_increasing) auto
  then show "2048 \<le> (2 :: nat) ^ unat b" by (rule order_trans [rotated]) simp
qed

lemma write_superblock_in:
  assumes z: "take 128 (drop 1024 img) = replicate 128 0" and len: "1152 \<le> length img"
    and b: "is_valid_blkszbits b" and blk: "2 ^ unat b \<le> length img"
  shows "\<exists>h cs. write_superblock crc img b n t m fi u1 c st = Ok (put img 1024 h) \<and> length h = 128
    \<and> sb_in crc (put img 1024 h) cs b n t m fi u1 c st"
proof -
  let ?S = "take (2 ^ unat b - 1024) (drop 1024 (put img 1024 (sb_header 0 1 b n t m fi u1 c st)))"
  let ?cs = "if b \<le> 10 then 0 else crc ?S XOR 0xFFFFFFFF"
  let ?h = "sb_header ?cs (if b \<le> 10 then 0 else 1) b n t m fi u1 c st"
  let ?img = "put img 1024 ?h"
  have head: "take 128 (drop 1024 ?img) = ?h" using len take_drop_put_same [of 1024 ?h img] by simp
  have "put (take (2 ^ unat b - 1024) (drop 1024 ?img)) 4 [0, 0, 0, 0] = ?S" if nb: "\<not> b \<le> 10"
  proof -
    have "put (take (2 ^ unat b - 1024) (drop 1024 ?img)) 4 [0, 0, 0, 0] =
        take (2 ^ unat b - 1024) (drop 1024 (put ?img (1024 + 4) [0, 0, 0, 0]))"
      using big_block(3) [OF b nb] len blk by (intro put_take_drop) auto
    also have "put ?img (1024 + 4) [0, 0, 0, 0] = put img 1024 (put ?h 4 [0, 0, 0, 0])"
      using len by (intro put_put_inner) auto
    also have "put ?h 4 [0, 0, 0, 0] = sb_header 0 1 b n t m fi u1 c st"
      using header_csum [of ?cs 1 b n t m fi u1 c st 0] nb by (simp add: to_le_zero)
    finally show ?thesis .
  qed
  then have "sb_in crc ?img ?cs b n t m fi u1 c st" using len blk head by (simp add: sb_in_def)
  moreover have "write_superblock crc img b n t m fi u1 c st = Ok ?img" using write_superblock_eq [OF z len b blk] by auto
  ultimately show ?thesis by (intro exI [of _ ?h] exI [of _ ?cs]) simp
qed

lemma sb_in_reads:
  assumes sb: "sb_in crc img cs b n t m fi u1 c st" and b: "is_valid_blkszbits b" and d: "serves d img"
  shows "superblock_read crc d d = Ok (written_sb cs b n t m fi u1 c st)"
proof -
  let ?sb = "written_sb cs b n t m fi u1 c st" and ?S = "take (2 ^ unat b - 1024) (drop 1024 img)"
  have len: "1152 \<le> length img" "2 ^ unat b \<le> length img"
    and head: "take 128 (drop 1024 img) = sb_header cs (if b \<le> 10 then 0 else 1) b n t m fi u1 c st"
    and cs: "\<not> b \<le> 10 \<Longrightarrow> crc (put ?S 4 [0, 0, 0, 0]) XOR 0xFFFFFFFF = cs"
    using sb by (auto simp: sb_in_def)
  have r1: "read_at d 1024 128 = Ok (sb_header cs (if b \<le> 10 then 0 else 1) b n t m fi u1 c st)"
    using serves_read [OF d, of 1024 128] len(1) head by simp
  note parse = parse_header [OF b, of cs n t m fi u1 c st]
  show ?thesis
  proof (cases "b \<le> 10")
    case True
    then show ?thesis using r1 parse len by (simp add: superblock_read_def sb_consts written_sb_def)
  next
    case False
    note p = big_block [OF b False]
    have span: "checksum_span_len ?sb = 2 ^ unat b - 1024"
      using checksum_span_len_eq [OF superblock_parse_ok [OF parse]] p(1,2) by (simp add: written_sb_def)
    have l: "length ?S = 2 ^ unat b - 1024" using len p(3) by simp
    have m: "max (2 ^ unat b - 1024) 128 = (2 :: nat) ^ unat b - 1024" "128 \<le> (2 :: nat) ^ unat b - 1024" using p(3) by simp_all
    have "take 128 ?S = take 128 (drop 1024 img)" using m(2) by (simp add: min_def)
    then have h: "superblock_parse (take 128 ?S) = Ok ?sb" by (simp only: head parse)
    have x: "sb_feature_compat ?sb AND 1 \<noteq> 0" using False by (simp add: written_sb_def)
    show ?thesis
    proof (rule superblock_read_OkI [OF r1 parse x _ _ h x])
      show "read_at d 1024 (max (checksum_span_len ?sb) 128) = Ok ?S"
        unfolding span m(1) using serves_read [OF d, of 1024 "2 ^ unat b - 1024"] len p(3) by simp
      show "128 \<le> length ?S" "length ?S = max (checksum_span_len ?sb) 128" unfolding l span m(1) using m(2) by simp_all
      show "verify_checksum crc ?sb ?S"
        using span l p(3) cs [OF False] False by (simp add: verify_checksum_def Let_def sb_consts written_sb_def)
    qed
  qed
qed

text \<open>C19: what the writer stores, the reader reads back: over an image whose superblock area is still
  zero, \<open>write_superblock\<close> succeeds, keeps the image's length, and a device that holds the result
  opens with exactly the fields the writer was given, its checksum (from 2 KiB blocks up)
  accepted.\<close>

theorem write_superblock_read:
  assumes "take 128 (drop 1024 img) = replicate 128 0" "1152 \<le> length img" "is_valid_blkszbits b" "2 ^ unat b \<le> length img"
  shows "\<exists>img' csum. write_superblock crc img b n t m fi u1 c st = Ok img' \<and> length img' = length img \<and>
    (\<forall>d. serves d img' \<longrightarrow> superblock_read crc d d = Ok (written_sb csum b n t m fi u1 c st))"
proof -
  obtain h cs where w: "write_superblock crc img b n t m fi u1 c st = Ok (put img 1024 h)" "length h = 128"
    "sb_in crc (put img 1024 h) cs b n t m fi u1 c st"
    using write_superblock_in [OF assms, of crc n t m fi u1 c st] by blast
  then show ?thesis using sb_in_reads [OF w(3) assms(3)] assms(2) by auto
qed

section \<open>The configuration blob\<close>

lemma returns_read_one [returns_intros]: "returns (read_one dev stop cursor)"
  by (auto simp: read_one_def Let_def intro!: returns_bindR)

lemma returns_read_lz4_cfg [returns_intros]: "returns (read_lz4_cfg dev stop algos st)"
  unfolding read_lz4_cfg_def by (intro returns_intros returns_simps)

lemma returns_read_deflate_cfg [returns_intros]: "returns (read_deflate_cfg dev stop algos st)"
  unfolding read_deflate_cfg_def by (intro returns_intros returns_simps)

lemma returns_read_lzma_cfg [returns_intros]: "returns (read_lzma_cfg dev stop algos st)"
  unfolding read_lzma_cfg_def Let_def
  by (intro returns_case_prod returns_if returns_bindR returns_read_one returns_simps; simp)

lemma returns_read_zstd_cfg [returns_intros]: "returns (read_zstd_cfg dev stop algos st)"
  unfolding read_zstd_cfg_def Let_def
  by (intro returns_case_prod returns_if returns_bindR returns_read_one returns_idx returns_simps; auto)

lemma returns_read_compr_cfgs [returns_intros]: "returns (read_compr_cfgs dev sb)"
  unfolding read_compr_cfgs_def Let_def
  by (intro returns_case_prod returns_if returns_bindR returns_read_lz4_cfg returns_read_lzma_cfg
      returns_read_deflate_cfg returns_read_zstd_cfg returns_simps)

definition cfgs_ok :: "u16 \<Rightarrow> compr_cfgs \<Rightarrow> bool" where
  "cfgs_ok algos c \<longleftrightarrow>
     (cfg_lz4 c \<noteq> None) = (algos AND 1 \<noteq> 0) \<and> (cfg_lzma c \<noteq> None) = (algos AND 2 \<noteq> 0)
     \<and> (cfg_deflate c \<noteq> None) = (algos AND 4 \<noteq> 0) \<and> (cfg_zstd c \<noteq> None) = (algos AND 8 \<noteq> 0)
     \<and> (\<forall>l. cfg_lzma c = Some l \<longrightarrow> dict_size l \<noteq> 0 \<and> lzma_lc l \<le> 8 \<and> lzma_lp l \<le> 4 \<and> lzma_pb l \<le> 4)
     \<and> (\<forall>z. cfg_zstd c = Some z \<longrightarrow> zstd_format z = 0 \<and> zstd_windowlog z \<le> 10)"

lemma windowlog_bound:
  "\<not> Z_EROFS_ZSTD_MAX_DICT_LOG < ucast (w :: u8) + 10 \<Longrightarrow> w \<le> 10"
proof -
  assume a: "\<not> Z_EROFS_ZSTD_MAX_DICT_LOG < ucast w + 10"
  have w: "unat w < 256" using unsigned_less [of w, where 'a = nat] by simp
  have "unat (ucast w :: u32) = unat w" by (simp add: unat_ucast_up)
  moreover from this w have "unat (ucast w + 10 :: u32) = unat w + 10"
    by (simp add: unat_add_no_wrap)
  ultimately show ?thesis using a by (simp add: word_less_nat_alt word_le_nat_alt sb_consts)
qed

text \<open>What each record adds to the configuration; the other fields stay.\<close>

lemma read_lz4_cfg_Ok: "read_lz4_cfg dev stop algos (cur, c) = Ok (cur', c') \<Longrightarrow>
    c' = (if algos AND LZ4_BIT \<noteq> 0 then c\<lparr>cfg_lz4 := Some ()\<rparr> else c)"
  by (auto simp: read_lz4_cfg_def split: if_splits)

lemma read_deflate_cfg_Ok: "read_deflate_cfg dev stop algos (cur, c) = Ok (cur', c') \<Longrightarrow>
    c' = (if algos AND DEFLATE_BIT \<noteq> 0 then c\<lparr>cfg_deflate := Some ()\<rparr> else c)"
  by (auto simp: read_deflate_cfg_def split: if_splits)

lemma read_lzma_cfg_Ok:
  assumes "read_lzma_cfg dev stop algos (cur, c) = Ok (cur', c')"
  shows "if algos AND LZMA_BIT \<noteq> 0
     then \<exists>dict. dict \<noteq> 0 \<and> c' = c\<lparr>cfg_lzma := Some (lzma_cfg_default\<lparr>dict_size := dict\<rparr>)\<rparr> else c' = c"
proof (cases "algos AND LZMA_BIT \<noteq> 0")
  case True
  have d: "lzma_cfg_default = lzma_cfg_default\<lparr>dict_size := dict_size lzma_cfg_default\<rparr>"
      "dict_size lzma_cfg_default \<noteq> 0" by (simp_all add: lzma_cfg_default_def)
  from assms True consider "c' = c\<lparr>cfg_lzma := Some lzma_cfg_default\<rparr>"
    | dict where "dict \<noteq> 0" "c' = c\<lparr>cfg_lzma := Some (lzma_cfg_default\<lparr>dict_size := dict\<rparr>)\<rparr>"
    by (auto simp: read_lzma_cfg_def Let_def split: if_splits)
  then show ?thesis
  proof cases
    case 1
    then show ?thesis using d True by (metis (no_types))
  next
    case 2
    then show ?thesis using True by auto
  qed
qed (use assms in \<open>auto simp: read_lzma_cfg_def\<close>)

lemma read_zstd_cfg_Ok: "read_zstd_cfg dev stop algos (cur, c) = Ok (cur', c') \<Longrightarrow>
    (if algos AND ZSTD_BIT \<noteq> 0
     then \<exists>w. w \<le> 10 \<and> c' = c\<lparr>cfg_zstd := Some \<lparr>zstd_format = 0, zstd_windowlog = w\<rparr>\<rparr> else c' = c)"
  by (auto simp: read_zstd_cfg_def dest: windowlog_bound split: if_splits)

lemmas read_records_Ok = read_lz4_cfg_Ok read_lzma_cfg_Ok read_deflate_cfg_Ok read_zstd_cfg_Ok

text \<open>A configuration blob that is accepted describes exactly the codecs the superblock's bitmap
  names, with parameters their decoders can use: a non-zero LZMA dictionary with legal lc, lp and
  pb, and a ZSTD record of format 0 whose window is at most a mebibyte.\<close>

theorem read_compr_cfgs_ok:
  assumes "read_compr_cfgs dev sb = Ok r"
  shows "case r of None \<Rightarrow> sb_feature_incompat sb AND 2 = 0
      | Some c \<Rightarrow> sb_feature_incompat sb AND 2 \<noteq> 0 \<and> cfgs_ok (sb_u1 sb) c"
proof (cases "sb_feature_incompat sb AND INCOMPAT_COMPR_CFGS = 0")
  case True
  with assms show ?thesis by (simp add: read_compr_cfgs_def INCOMPAT_COMPR_CFGS_def)
next
  case False
  with assms obtain stop k0 k1 c1 k2 c2 k3 c3 k4 c4 where r: "r = Some c4"
    and "read_lz4_cfg dev stop (sb_u1 sb) (k0, compr_cfgs_default) = Ok (k1, c1)"
    and "read_lzma_cfg dev stop (sb_u1 sb) (k1, c1) = Ok (k2, c2)"
    and "read_deflate_cfg dev stop (sb_u1 sb) (k2, c2) = Ok (k3, c3)"
    and "read_zstd_cfg dev stop (sb_u1 sb) (k3, c3) = Ok (k4, c4)"
    by (auto simp: read_compr_cfgs_def Let_def)
  note steps = this(2) [THEN read_lz4_cfg_Ok] this(3) [THEN read_lzma_cfg_Ok]
    this(4) [THEN read_deflate_cfg_Ok] this(5) [THEN read_zstd_cfg_Ok]
  show ?thesis
    using False r steps
    by (auto simp: cfgs_ok_def compr_cfgs_default_def lzma_cfg_default_def INCOMPAT_COMPR_CFGS_def
        LZ4_BIT_def LZMA_BIT_def DEFLATE_BIT_def ZSTD_BIT_def split: if_splits)
qed

section \<open>The device table on an image\<close>

definition slot_of :: "bytes \<Rightarrow> device_slot" where
  "slot_of bs = \<lparr>slot_tag = take 64 bs, slot_blocks = le32 (take 4 (drop 64 bs)),
     slot_mapped_blkaddr = le32 (take 4 (drop 68 bs))\<rparr>"

text \<open>A device table inside the image yields one slot per extra device, slot \<open>k\<close> (device id
  \<open>k + 1\<close>) read from the \<open>k\<close>-th 128-byte record after the slot offset; the offsets never wrap.\<close>

theorem read_device_table_slots:
  assumes d: "serves d img"
    and fits: "(unat (sb_devt_slotoff sb) + unat (sb_extra_devices sb)) * 128 \<le> length img"
  shows "read_device_table d sb =
     Ok (map (\<lambda>k. slot_of (take 128 (drop ((unat (sb_devt_slotoff sb) + k) * 128) img)))
           [0..<unat (sb_extra_devices sb)])"
proof -
  let ?n = "unat (sb_extra_devices sb)" and ?s = "unat (sb_devt_slotoff sb)"
  have bounds: "?n < 65536" "?s < 65536"
    using unsigned_less [of "sb_extra_devices sb", where 'a = nat]
      unsigned_less [of "sb_devt_slotoff sb", where 'a = nat] by simp_all
  have read: "read_at d (device_table_offset sb + word_of_nat k * EROFS_DEVT_SLOT_SIZE) 128 =
      Ok (take 128 (drop ((?s + k) * 128) img))" if "k < ?n" for k
  proof -
    have "ucast (sb_devt_slotoff sb) = (word_of_nat ?s :: u64)" by simp
    then have "device_table_offset sb + word_of_nat k * EROFS_DEVT_SLOT_SIZE =
        (word_of_nat ((?s + k) * 128) :: u64)"
      by (simp add: device_table_offset_def EROFS_DEVT_SLOT_SIZE_def algebra_simps)
    moreover have "unat (word_of_nat ((?s + k) * 128) :: u64) = (?s + k) * 128"
      using that bounds by (intro unat_of_nat_small) simp
    moreover have "(?s + k) * 128 + 128 \<le> length img" using fits that by simp
    ultimately show ?thesis using serves_read [OF d] by metis
  qed
  show ?thesis
  proof (cases "?n = 0")
    case False
    have "mapR (\<lambda>i. bindR (read_at d (device_table_offset sb + word_of_nat i * EROFS_DEVT_SLOT_SIZE) 128)
          (\<lambda>buf. bindR (slice buf 0 64) (\<lambda>tag. bindR (u32_at buf 64) (\<lambda>blocks. bindR (u32_at buf 68)
          (\<lambda>mapped. Ok \<lparr>slot_tag = tag, slot_blocks = blocks, slot_mapped_blkaddr = mapped\<rparr>))))) [0..<?n]
      = Ok (map (\<lambda>k. slot_of (take 128 (drop ((?s + k) * 128) img))) [0..<?n])"
    proof (rule mapR_all_Ok)
      fix k assume "k \<in> set [0..<?n]"
      then have k: "k < ?n" by simp
      have l: "length (take 128 (drop ((?s + k) * 128) img)) = 128" using fits k by simp
      show "bindR (read_at d (device_table_offset sb + word_of_nat k * EROFS_DEVT_SLOT_SIZE) 128)
          (\<lambda>buf. bindR (slice buf 0 64) (\<lambda>tag. bindR (u32_at buf 64) (\<lambda>blocks. bindR (u32_at buf 68)
          (\<lambda>mapped. Ok \<lparr>slot_tag = tag, slot_blocks = blocks, slot_mapped_blkaddr = mapped\<rparr>))))
        = Ok (slot_of (take 128 (drop ((?s + k) * 128) img)))"
        unfolding read [OF k] bindR_simps slot_of_def using l by simp
    qed
    then show ?thesis using False by (simp add: read_device_table_def Let_def EROFS_DEVT_SLOT_SIZE_def)
  qed (simp add: read_device_table_def)
qed

section \<open>Witnesses\<close>

text \<open>A 2 KiB image with a checksummed superblock, for a CRC function that is zero everywhere.\<close>

definition demo_img :: bytes where
  "demo_img = put (replicate 2048 0) 1024 (sb_header 0xFFFFFFFF 1 11 1 1 0 0 0 0 0)"

definition demo_sb :: superblock where
  "demo_sb = written_sb 0xFFFFFFFF 11 1 1 0 0 0 0 0"

lemma length_demo_img [simp]: "length demo_img = 2048"
  by (simp add: demo_img_def)

lemma demo_img_header: "take 128 (drop 1024 demo_img) = sb_header 0xFFFFFFFF 1 11 1 1 0 0 0 0 0"
  using take_drop_put_same [of 1024 "sb_header 0xFFFFFFFF 1 11 1 1 0 0 0 0 0" "replicate 2048 0"]
  by (simp add: demo_img_def)

lemma serves_demo: "serves (mem_dev demo_img) demo_img"
  by (rule serves_mem_dev) simp

lemma demo_parse: "superblock_parse (sb_header 0xFFFFFFFF 1 11 1 1 0 0 0 0 0) = Ok demo_sb"
  using parse_header [where b = 11]
  by (simp add: demo_sb_def is_valid_blkszbits_def sb_consts)

lemma demo_sb_span: "checksum_span_len demo_sb = 1024"
  by (simp add: checksum_span_len_def demo_sb_def written_sb_def sb_consts Let_def)

lemma demo_read: "superblock_read (\<lambda>_. 0) (mem_dev demo_img) (mem_dev demo_img) = Ok demo_sb"
proof (rule superblock_read_OkI)
  show "read_at (mem_dev demo_img) 1024 128 = Ok (sb_header 0xFFFFFFFF 1 11 1 1 0 0 0 0 0)"
    using serves_read [OF serves_demo, of 1024 128] demo_img_header by simp
  show "superblock_parse (sb_header 0xFFFFFFFF 1 11 1 1 0 0 0 0 0) = Ok demo_sb" by (rule demo_parse)
  show "read_at (mem_dev demo_img) 1024 (max (checksum_span_len demo_sb) 128) = Ok (drop 1024 demo_img)"
    using serves_read [OF serves_demo, of 1024 1024] by (simp add: demo_sb_span)
  show "superblock_parse (take 128 (drop 1024 demo_img)) = Ok demo_sb"
    by (simp only: demo_img_header demo_parse)
qed (simp_all add: demo_sb_span verify_checksum_def, simp_all add: demo_sb_def written_sb_def sb_consts)

theorem superblock_read_verified_witness:
  "sb_ok demo_sb \<and> (\<exists>span. read_at (mem_dev demo_img) 1024 1024 = Ok span \<and>
     superblock_parse (take 128 span) = Ok demo_sb)"
  using superblock_read_verified [OF demo_read]
  by (auto simp: demo_sb_span) (auto simp: demo_sb_def written_sb_def)

theorem write_superblock_read_witness:
  "\<exists>img' csum. write_superblock (\<lambda>_. 7) (replicate 2048 0) 11 1 1 0 3 2 0 0 = Ok img' \<and> length img' = 2048 \<and>
    (\<forall>d. serves d img' \<longrightarrow> superblock_read (\<lambda>_. 7) d d = Ok (written_sb csum 11 1 1 0 3 2 0 0))"
  using write_superblock_read [of "replicate 2048 0" 11 "\<lambda>_. 7" 1 1 0 3 2 0 0]
  by (simp add: is_valid_blkszbits_def sb_consts take_replicate drop_replicate)

lemma demo_cfgs:
  "read_compr_cfgs (mem_dev (replicate 1152 0 @ [4, 0, 1, 0, 0, 0])) (written_sb 0 11 1 1 0 2 2 0 0) =
     Ok (Some (compr_cfgs_default\<lparr>cfg_lzma := Some (lzma_cfg_default\<lparr>dict_size := 1\<rparr>)\<rparr>))"
  by (simp add: read_compr_cfgs_def read_lz4_cfg_def read_lzma_cfg_def read_deflate_cfg_def
      read_zstd_cfg_def read_one_def read_at_mem_dev written_sb_def sb_consts compr_cfgs_offset_def
      Let_def nth_append le16_def le32_def upt_rec)

theorem read_compr_cfgs_ok_witness:
  "cfgs_ok 2 (compr_cfgs_default\<lparr>cfg_lzma := Some (lzma_cfg_default\<lparr>dict_size := 1\<rparr>)\<rparr>)"
  using read_compr_cfgs_ok [OF demo_cfgs] by (simp add: written_sb_def)

theorem read_device_table_slots_witness:
  "read_device_table (mem_dev (replicate 256 0)) (demo_sb\<lparr>sb_extra_devices := 1, sb_devt_slotoff := 1\<rparr>)
     = Ok [slot_of (replicate 128 0)]"
  using read_device_table_slots [OF serves_mem_dev [of "replicate 256 0"],
      of "demo_sb\<lparr>sb_extra_devices := 1, sb_devt_slotoff := 1\<rparr>"]
  by (simp add: take_replicate drop_replicate)

end
