(* ===== verification/Inode.thy ===== *)
theory Inode
  imports Layout Superblock
begin

text \<open>
  Inodes (\<open>src/inode.rs\<close>): the two on-disk shapes, where an inode of a given NID lies, and what its
  mode and its \<open>i_u\<close> union mean. \<open>encode_inode_body\<close> is the part of the writer's \<open>encode_inode\<close>
  (\<open>src/mkfs.rs\<close>) that stores the fields once the planner has chosen them, and \<open>needs_extended\<close> is
  the writer's choice between the two shapes.
\<close>

named_theorems inode_consts "constants of the inode format"

definition EROFS_INODE_SLOT_SIZE :: u64 where [inode_consts]: "EROFS_INODE_SLOT_SIZE = 32"
definition COMPACT_INODE_SIZE :: u64 where [inode_consts]: "COMPACT_INODE_SIZE = 32"
definition EXTENDED_INODE_SIZE :: u64 where [inode_consts]: "EXTENDED_INODE_SIZE = 64"

definition S_IFMT :: u16 where [inode_consts]: "S_IFMT = 0xF000"
definition S_IFIFO :: u16 where [inode_consts]: "S_IFIFO = 0x1000"
definition S_IFCHR :: u16 where [inode_consts]: "S_IFCHR = 0x2000"
definition S_IFDIR :: u16 where [inode_consts]: "S_IFDIR = 0x4000"
definition S_IFBLK :: u16 where [inode_consts]: "S_IFBLK = 0x6000"
definition S_IFREG :: u16 where [inode_consts]: "S_IFREG = 0x8000"
definition S_IFLNK :: u16 where [inode_consts]: "S_IFLNK = 0xA000"
definition S_IFSOCK :: u16 where [inode_consts]: "S_IFSOCK = 0xC000"

datatype file_type = Dir | RegularFile | Symlink | ChrDev | BlkDev | Fifo | Sock | Unknown

record inode =
  i_nid :: u64
  i_format :: inode_format
  i_xattr_icount :: u16
  i_mode :: u16
  i_size :: u64
  i_nlink :: u32
  i_uid :: u32
  i_gid :: u32
  i_mtime :: u64
  i_mtime_nsec :: u32
  i_ino :: u32
  i_raw_u :: u32
  i_on_disk_size :: u8

definition inode_parse_compact :: "u64 \<Rightarrow> inode_format \<Rightarrow> u16 \<Rightarrow> u16 \<Rightarrow> u32 \<Rightarrow> bytes \<Rightarrow> inode result" where
  "inode_parse_compact nid format xattr_icount mode raw_u bs =
     bindR (u32_at bs 0x08) (\<lambda>size.
     bindR (u16_at bs 0x06) (\<lambda>nlink.
     bindR (u32_at bs 0x14) (\<lambda>ino.
     bindR (u16_at bs 0x18) (\<lambda>uid.
     bindR (u16_at bs 0x1A) (\<lambda>gid.
       Ok \<lparr>i_nid = nid, i_format = format, i_xattr_icount = xattr_icount, i_mode = mode,
           i_size = ucast size, i_nlink = ucast nlink, i_uid = ucast uid, i_gid = ucast gid,
           i_mtime = 0, i_mtime_nsec = 0, i_ino = ino, i_raw_u = raw_u,
           i_on_disk_size = ucast COMPACT_INODE_SIZE\<rparr>)))))"

definition inode_parse_extended :: "u64 \<Rightarrow> inode_format \<Rightarrow> u16 \<Rightarrow> u16 \<Rightarrow> u32 \<Rightarrow> bytes \<Rightarrow> inode result" where
  "inode_parse_extended nid format xattr_icount mode raw_u bs =
     (if word_of_nat (length bs) < EXTENDED_INODE_SIZE
      then Err (BadInode ''extended inode buffer < 64 bytes'')
      else
     bindR (u64_at bs 0x08) (\<lambda>size.
     bindR (u32_at bs 0x14) (\<lambda>ino.
     bindR (u32_at bs 0x18) (\<lambda>uid.
     bindR (u32_at bs 0x1C) (\<lambda>gid.
     bindR (u64_at bs 0x20) (\<lambda>mtime.
     bindR (u32_at bs 0x28) (\<lambda>mtime_nsec.
     bindR (u32_at bs 0x2C) (\<lambda>nlink.
       Ok \<lparr>i_nid = nid, i_format = format, i_xattr_icount = xattr_icount, i_mode = mode,
           i_size = size, i_nlink = nlink, i_uid = uid, i_gid = gid,
           i_mtime = mtime, i_mtime_nsec = mtime_nsec, i_ino = ino, i_raw_u = raw_u,
           i_on_disk_size = ucast EXTENDED_INODE_SIZE\<rparr>))))))))"

definition inode_parse :: "u64 \<Rightarrow> bytes \<Rightarrow> inode result" where
  "inode_parse nid bs =
     (if word_of_nat (length bs) < COMPACT_INODE_SIZE
      then Err (BadInode ''buffer shorter than 32 bytes'')
      else bindR (u16_at bs 0x00) (\<lambda>raw_format.
           bindR (inode_format_parse raw_format) (\<lambda>format.
           bindR (u16_at bs 0x02) (\<lambda>xattr_icount.
           bindR (u16_at bs 0x04) (\<lambda>mode.
           bindR (u32_at bs 0x10) (\<lambda>raw_u.
             case fmt_version format of
               Compact \<Rightarrow> inode_parse_compact nid format xattr_icount mode raw_u bs
             | Extended \<Rightarrow> inode_parse_extended nid format xattr_icount mode raw_u bs))))))"

definition iloc :: "superblock \<Rightarrow> u64 \<Rightarrow> u64" where
  "iloc sb nid =
     sat_add (sat_mul (ucast (sb_meta_blkaddr sb)) (block_size sb))
       (sat_mul nid EROFS_INODE_SLOT_SIZE)"

definition body_end :: "inode \<Rightarrow> superblock \<Rightarrow> u64" where
  "body_end ino sb =
     (let inode_off = iloc sb (i_nid ino);
          xattr_size = (if i_xattr_icount ino = 0 then 0
            else 12 + (ucast (i_xattr_icount ino) - 1) * 4)
      in sat_add (sat_add inode_off (ucast (i_on_disk_size ino))) xattr_size)"

definition inode_read :: "blockdev \<Rightarrow> superblock \<Rightarrow> u64 \<Rightarrow> inode result" where
  "inode_read dev sb nid =
     (let off = iloc sb nid in
      bindR (read_at dev off (unat EXTENDED_INODE_SIZE)) (\<lambda>buf. inode_parse nid buf))"

definition is_dir :: "inode \<Rightarrow> bool" where "is_dir i = (i_mode i AND S_IFMT = S_IFDIR)"
definition is_regular_file :: "inode \<Rightarrow> bool" where
  "is_regular_file i = (i_mode i AND S_IFMT = S_IFREG)"
definition is_symlink :: "inode \<Rightarrow> bool" where "is_symlink i = (i_mode i AND S_IFMT = S_IFLNK)"
definition is_chrdev :: "inode \<Rightarrow> bool" where "is_chrdev i = (i_mode i AND S_IFMT = S_IFCHR)"
definition is_blkdev :: "inode \<Rightarrow> bool" where "is_blkdev i = (i_mode i AND S_IFMT = S_IFBLK)"
definition is_fifo :: "inode \<Rightarrow> bool" where "is_fifo i = (i_mode i AND S_IFMT = S_IFIFO)"
definition is_sock :: "inode \<Rightarrow> bool" where "is_sock i = (i_mode i AND S_IFMT = S_IFSOCK)"

definition file_type :: "inode \<Rightarrow> file_type" where
  "file_type i =
     (let t = i_mode i AND S_IFMT in
      if t = S_IFDIR then Dir
      else if t = S_IFREG then RegularFile
      else if t = S_IFLNK then Symlink
      else if t = S_IFCHR then ChrDev
      else if t = S_IFBLK then BlkDev
      else if t = S_IFIFO then Fifo
      else if t = S_IFSOCK then Sock
      else Unknown)"

definition rdev :: "inode \<Rightarrow> (u32 \<times> u32) option" where
  "rdev i =
     (if \<not> (is_chrdev i \<or> is_blkdev i) then None
      else let r = i_raw_u i;
               major = drop_bit 8 r AND 0xFFF;
               minor = (r AND 0xFF) OR (drop_bit 12 r AND 0xFFF00)
           in Some (major, minor))"

section \<open>The writer's side\<close>

record node_meta =
  m_uid :: u32
  m_gid :: u32
  m_mtime :: u64
  m_mtime_nsec :: u32

definition needs_extended :: "u64 \<Rightarrow> node_meta \<Rightarrow> bool" where
  "needs_extended sz m =
     (0xFFFFFFFF < sz \<or> 0xFFFF < m_uid m \<or> 0xFFFF < m_gid m \<or> m_mtime m \<noteq> 0
       \<or> m_mtime_nsec m \<noteq> 0)"

definition inode_body_size :: "bool \<Rightarrow> u64" where
  "inode_body_size is_extended = (if is_extended then EXTENDED_INODE_SIZE else COMPACT_INODE_SIZE)"

definition encode_inode_body ::
    "bool \<Rightarrow> data_layout \<Rightarrow> u16 \<Rightarrow> u16 \<Rightarrow> u16 \<Rightarrow> u32 \<Rightarrow> u64 \<Rightarrow> u32 \<Rightarrow> u64 \<Rightarrow> node_meta \<Rightarrow> bytes" where
  "encode_inode_body is_extended layout flags xattr_icount mode raw_u sz nlink nid m =
     (let buf = replicate (unat (inode_body_size is_extended)) 0;
          buf = put buf 0x00 (to_le16 (encode_format is_extended layout flags));
          buf = put buf 0x02 (to_le16 xattr_icount);
          buf = put buf 0x04 (to_le16 mode);
          buf = put buf 0x10 (to_le32 raw_u)
      in if is_extended then
        (let buf = put buf 0x08 (to_le64 sz);
             buf = put buf 0x14 (to_le32 (ucast nid + 1));
             buf = put buf 0x18 (to_le32 (m_uid m));
             buf = put buf 0x1C (to_le32 (m_gid m));
             buf = put buf 0x20 (to_le64 (m_mtime m));
             buf = put buf 0x28 (to_le32 (m_mtime_nsec m))
         in put buf 0x2C (to_le32 nlink))
      else
        (let buf = put buf 0x06 (to_le16 (ucast nlink));
             buf = put buf 0x08 (to_le32 (ucast sz));
             buf = put buf 0x14 (to_le32 (ucast nid + 1));
             buf = put buf 0x18 (to_le16 (ucast (m_uid m)))
         in put buf 0x1A (to_le16 (ucast (m_gid m)))))"

section \<open>Parsing\<close>

definition inode_fields :: "u64 \<Rightarrow> inode_format \<Rightarrow> bytes \<Rightarrow> inode" where
  "inode_fields nid f bs =
     (let at16 = (\<lambda>k. le16 (take 2 (drop k bs))); at32 = (\<lambda>k. le32 (take 4 (drop k bs)));
          at64 = (\<lambda>k. le64 (take 8 (drop k bs)))
      in \<lparr>i_nid = nid, i_format = f, i_xattr_icount = at16 2, i_mode = at16 4,
          i_size = (case fmt_version f of Compact \<Rightarrow> ucast (at32 8) | Extended \<Rightarrow> at64 8),
          i_nlink = (case fmt_version f of Compact \<Rightarrow> ucast (at16 6) | Extended \<Rightarrow> at32 0x2C),
          i_uid = (case fmt_version f of Compact \<Rightarrow> ucast (at16 0x18) | Extended \<Rightarrow> at32 0x18),
          i_gid = (case fmt_version f of Compact \<Rightarrow> ucast (at16 0x1A) | Extended \<Rightarrow> at32 0x1C),
          i_mtime = (case fmt_version f of Compact \<Rightarrow> 0 | Extended \<Rightarrow> at64 0x20),
          i_mtime_nsec = (case fmt_version f of Compact \<Rightarrow> 0 | Extended \<Rightarrow> at32 0x28),
          i_ino = at32 0x14, i_raw_u = at32 0x10,
          i_on_disk_size = (case fmt_version f of Compact \<Rightarrow> 32 | Extended \<Rightarrow> 64)\<rparr>)"

lemma buffer_len_less: "length bs < 2 ^ 64 \<Longrightarrow> k < 2 ^ 64 \<Longrightarrow>
    (word_of_nat (length bs) < (word_of_nat k :: u64)) = (length bs < k)"
  by (simp add: word_less_nat_alt unat_of_nat_small)

text \<open>Every outcome of the parser on a buffer of 64 bytes, the length every caller passes.\<close>

lemma inode_parse_64:
  assumes "length bs = 64"
  shows "inode_parse nid bs =
    bindR (inode_format_parse (le16 (take 2 bs))) (\<lambda>f. Ok (inode_fields nid f bs))"
proof -
  have "inode_parse_compact nid f x m r bs = Ok (inode_fields nid f bs)"
    if "fmt_version f = Compact" "x = le16 (take 2 (drop 2 bs))" "m = le16 (take 2 (drop 4 bs))"
      "r = le32 (take 4 (drop 0x10 bs))" for f x m r
    using assms that by (simp add: inode_parse_compact_def inode_fields_def Let_def inode_consts)
  moreover have "inode_parse_extended nid f x m r bs = Ok (inode_fields nid f bs)"
    if "fmt_version f = Extended" "x = le16 (take 2 (drop 2 bs))" "m = le16 (take 2 (drop 4 bs))"
      "r = le32 (take 4 (drop 0x10 bs))" for f x m r
    using assms that by (simp add: inode_parse_extended_def inode_fields_def Let_def inode_consts)
  ultimately show ?thesis
    using assms
    by (cases "inode_format_parse (le16 (take 2 bs))")
      (simp_all add: inode_parse_def inode_consts split: inode_version.split)
qed

lemma returns_inode_read [returns_intros, simp]: "returns (inode_read dev sb nid)"
  unfolding inode_read_def Let_def
  by (intro returns_bindR) (simp_all add: inode_consts inode_parse_64 read_at_length returns_bindR)

definition inode_ok :: "inode \<Rightarrow> bool" where
  "inode_ok i \<longleftrightarrow> i_on_disk_size i = (case fmt_version (i_format i) of Compact \<Rightarrow> 32 | Extended \<Rightarrow> 64)
     \<and> fmt_flags (i_format i) \<le> 0x0FFF
     \<and> (fmt_version (i_format i) = Compact \<longrightarrow> unat (i_size i) < 2 ^ 32)"

lemma drop4_le: "drop_bit 4 (raw :: u16) \<le> 0x0FFF"
  using unsigned_less [of raw, where 'a = nat]
  by (simp add: word_le_nat_alt drop_bit_eq_div unat_div)

lemma inode_fields_simps [simp]:
  "i_nid (inode_fields nid f bs) = nid" "i_format (inode_fields nid f bs) = f"
  by (simp_all add: inode_fields_def Let_def)

lemma inode_fields_ok: "inode_format_parse raw = Ok f \<Longrightarrow> inode_ok (inode_fields nid f bs)"
proof -
  assume "inode_format_parse raw = Ok f"
  then have fl: "fmt_flags f \<le> 0x0FFF" by (auto simp: inode_format_parse_def Let_def drop4_le)
  have "unat (ucast (x :: u32) :: u64) < 2 ^ 32" for x
    using unsigned_less [of x, where 'a = nat] by (simp add: unat_ucast_up)
  with fl show ?thesis
    by (cases "fmt_version f") (simp_all add: inode_ok_def, simp_all add: inode_fields_def Let_def)
qed

lemma inode_read_ok: "inode_read dev sb nid = Ok i \<Longrightarrow> inode_ok i \<and> i_nid i = nid"
  by (auto simp: inode_read_def inode_consts inode_parse_64 read_at_length inode_fields_ok)

section \<open>Where an inode lies\<close>

lemma unat_iloc:
  "unat (iloc sb nid) = min (2 ^ 64 - 1)
     (unat (sb_meta_blkaddr sb) * unat (block_size sb) + unat nid * 32)"
  by (auto simp: iloc_def unat_sat_add unat_sat_mul inode_consts unat_ucast_up min_def)

text \<open>The xattr area of an inode: a 12-byte header and a four-byte slot for each of its count.\<close>

definition xattr_area :: "inode \<Rightarrow> nat" where
  "xattr_area i = (if i_xattr_icount i = 0 then 0 else 8 + 4 * unat (i_xattr_icount i))"

lemma unat_xattr_size: "unat (12 + (ucast x - 1) * 4 :: u64) = 8 + 4 * unat (x :: u16)"
proof -
  have le: "unat x < 65536" using unsigned_less [of x, where 'a = nat] by simp
  have u: "unat (ucast x :: u64) = unat x" by (simp add: unat_ucast_up)
  have m: "unat (ucast x * 4 :: u64) = unat x * 4"
    using le by (subst unat_mult_no_wrap) (simp_all add: u)
  have "12 + (ucast x - 1) * 4 = (8 + ucast x * 4 :: u64)" by (simp add: algebra_simps)
  also have "unat \<dots> = 8 + 4 * unat x" using le by (subst unat_add_no_wrap) (simp_all add: m)
  finally show ?thesis .
qed

lemma len64: "LENGTH(64) = 64" by simp

lemma unat_ucast_8_64: "unat (ucast (x :: u8) :: u64) = unat x"
  by (simp add: unat_ucast_up)

lemma min_min_add: "min (m :: nat) (min m a + b) = min m (a + b)"
  by (simp add: min_def)

lemma unat_body_end:
  "unat (body_end ino sb) =
     min (2 ^ 64 - 1) (unat (sb_meta_blkaddr sb) * unat (block_size sb) + unat (i_nid ino) * 32
       + unat (i_on_disk_size ino) + xattr_area ino)"
  unfolding body_end_def Let_def xattr_area_def unat_sat_add unat_iloc len64 min_min_add
  by (cases "i_xattr_icount ino = 0")
    (simp_all only: if_P [OF refl] if_not_P if_False unat_xattr_size unat_0 unat_ucast_8_64 add.assoc)

text \<open>The end of an inode's body and inline xattrs is the exact sum of the metadata start, 32
  bytes per NID, the body's size and the xattr area, or the largest 64-bit value where that sum does
  not fit: no NID or address of an image wraps round to another place.\<close>

theorem body_end_saturates:
  "unat (body_end ino sb) =
     min (2 ^ 64 - 1) (unat (sb_meta_blkaddr sb) * unat (block_size sb) + unat (i_nid ino) * 32
       + unat (i_on_disk_size ino) + xattr_area ino)"
  by (rule unat_body_end)

section \<open>File types and device numbers\<close>

lemma is_type_simps:
  "is_dir i = (file_type i = Dir)" "is_regular_file i = (file_type i = RegularFile)"
  "is_symlink i = (file_type i = Symlink)" "is_chrdev i = (file_type i = ChrDev)"
  "is_blkdev i = (file_type i = BlkDev)" "is_fifo i = (file_type i = Fifo)"
  "is_sock i = (file_type i = Sock)"
  by (auto simp: is_dir_def is_regular_file_def is_symlink_def is_chrdev_def is_blkdev_def
      is_fifo_def is_sock_def file_type_def Let_def inode_consts)

definition encode_rdev :: "u32 \<Rightarrow> u32 \<Rightarrow> u32" where
  "encode_rdev major minor =
     push_bit 12 (minor AND 0xFFF00) OR push_bit 8 (major AND 0xFFF) OR (minor AND 0xFF)"

lemma encode_rdev_fields:
  fixes r :: u32
  assumes a: "a \<le> 0xFFF" and b: "b \<le> 0xFFFFF"
  shows "(drop_bit 8 r AND 0xFFF = a \<and> (r AND 0xFF) OR (drop_bit 12 r AND 0xFFF00) = b)
     = (r = encode_rdev a b)"
proof -
  have masks: "0xFFF00 = (push_bit 8 (mask 12) :: u32)" "0xFFF = (mask 12 :: u32)" "0xFF = (mask 8 :: u32)"
    by (simp_all add: mask_eq_exp_minus_1 push_bit_eq_mult)
  have ba: "bit a n \<Longrightarrow> n < 12" for n
    using a by (intro bit_take_bit_self [of 12 a]) (simp_all add: word_unat_eq_iff unsigned_take_bit_eq take_bit_nat_eq_self word_le_nat_alt)
  have bb: "bit b n \<Longrightarrow> n < 20" for n
    using b by (intro bit_take_bit_self [of 20 b]) (simp_all add: word_unat_eq_iff unsigned_take_bit_eq take_bit_nat_eq_self word_le_nat_alt)
  have bits: "bit (encode_rdev a b) n = (if n < 8 then bit b n else if n < 20 then bit a (n - 8)
      else n < 32 \<and> bit b (n - 12))" for n
    unfolding encode_rdev_def masks by (auto simp: bit_simps dest: ba bb)
  show ?thesis
  proof
    assume h: "drop_bit 8 r AND 0xFFF = a \<and> (r AND 0xFF) OR (drop_bit 12 r AND 0xFFF00) = b"
    have a: "bit a n = (bit r (8 + n) \<and> n < 12)" for n
      unfolding conjunct1 [OF h, symmetric] masks by (auto simp: bit_simps)
    have b: "bit b n = (if n < 8 then bit r n else n < 20 \<and> bit r (12 + n))" for n
      unfolding conjunct2 [OF h, symmetric] masks by (auto simp: bit_simps)
    show "r = encode_rdev a b"
      by (rule bit_word_eqI) (auto simp: bits a b)
  next
    assume r: "r = encode_rdev a b"
    have "drop_bit 8 r AND 0xFFF = a"
      unfolding r masks by (rule bit_word_eqI) (auto simp: bit_simps bits dest: ba)
    moreover have "(r AND 0xFF) OR (drop_bit 12 r AND 0xFFF00) = b"
      unfolding r masks by (rule bit_word_eqI) (auto simp: bit_simps bits dest: bb)
    ultimately show "drop_bit 8 r AND 0xFFF = a \<and> (r AND 0xFF) OR (drop_bit 12 r AND 0xFFF00) = b" ..
  qed
qed

text \<open>A device inode's number splits into exactly the major of 12 bits and the minor of 20 bits
  whose kernel encoding it is; any other inode has none.\<close>

theorem rdev_iff_encode:
  "(rdev i = Some (a, b)) =
     ((is_chrdev i \<or> is_blkdev i) \<and> a \<le> 0xFFF \<and> b \<le> 0xFFFFF \<and> i_raw_u i = encode_rdev a b)"
proof -
  have "drop_bit 8 r AND 0xFFF \<le> (0xFFF :: u32)" for r :: u32 by (simp add: word_and_le1)
  moreover have "(r AND 0xFF) OR (drop_bit 12 r AND 0xFFF00) \<le> (0xFFFFF :: u32)" for r :: u32
  proof -
    have "(r AND 0xFF) OR (drop_bit 12 r AND 0xFFF00) = ((r AND 0xFF) OR (drop_bit 12 r AND 0xFFF00)) AND (0xFFFFF :: u32)"
      by (simp add: bit.conj_disj_distrib2 and.assoc)
    then show ?thesis by (metis word_and_le1)
  qed
  ultimately show ?thesis
    using encode_rdev_fields [of a b "i_raw_u i"] by (auto simp: rdev_def Let_def)
qed

section \<open>The writer's inode reads back\<close>

lemma puts_common:
  assumes "length A = 2" "length B = 2" "length C = 2" "length R = 4"
  shows "put (put (put (put (replicate (20 + n) 0) 0 A) 2 B) 4 C) 0x10 R
     = A @ B @ C @ replicate 10 0 @ R @ replicate n (0 :: byte)"
proof -
  have 1: "replicate (20 + n) (0 :: byte) = [] @ replicate 2 0 @ replicate (18 + n) 0"
    by (simp flip: replicate_add)
  have 2: "replicate (18 + n) (0 :: byte) = replicate 2 0 @ replicate (16 + n) 0"
    by (simp flip: replicate_add)
  have 3: "replicate (16 + n) (0 :: byte) = replicate 2 0 @ replicate 10 0 @ replicate 4 0 @ replicate n 0"
    by (simp flip: replicate_add)
  have "put (replicate (20 + n) 0) 0 A = A @ replicate 2 0 @ replicate (16 + n) 0"
    unfolding 1 2 by (subst put_mid) (simp_all add: assms)
  moreover have "put (A @ replicate 2 0 @ replicate (16 + n) 0) 2 B = (A @ B) @ replicate 2 0 @ replicate 10 0 @ replicate 4 0 @ replicate n 0"
    unfolding 3 by (subst put_mid) (simp_all add: assms)
  moreover have "put ((A @ B) @ replicate 2 0 @ replicate 10 0 @ replicate 4 0 @ replicate n 0) 4 C
      = (A @ B @ C @ replicate 10 0) @ replicate 4 0 @ replicate n 0"
    by (subst put_mid) (simp_all add: assms)
  moreover have "put ((A @ B @ C @ replicate 10 0) @ replicate 4 0 @ replicate n 0) 0x10 R
      = A @ B @ C @ replicate 10 0 @ R @ replicate n 0"
    by (subst put_mid) (simp_all add: assms)
  ultimately show ?thesis by (simp only:)
qed

lemma encode_inode_body_eq:
  "encode_inode_body True l fl x m r sz nl nid me =
     to_le16 (encode_format True l fl) @ to_le16 x @ to_le16 m @ replicate 2 0 @ to_le64 sz
     @ to_le32 r @ to_le32 (ucast nid + 1) @ to_le32 (m_uid me) @ to_le32 (m_gid me)
     @ to_le64 (m_mtime me) @ to_le32 (m_mtime_nsec me) @ to_le32 nl @ replicate 16 0" (is ?ext)
  "encode_inode_body False l fl x m r sz nl nid me =
     to_le16 (encode_format False l fl) @ to_le16 x @ to_le16 m @ to_le16 (ucast nl)
     @ to_le32 (ucast sz) @ replicate 4 0 @ to_le32 r @ to_le32 (ucast nid + 1)
     @ to_le16 (ucast (m_uid me)) @ to_le16 (ucast (m_gid me)) @ replicate 4 0" (is ?com)
proof -
  have e: "put (put (put (put (put (put (put (A @ B @ C @ replicate 10 0 @ R @ replicate 44 0) 8 S)
      0x14 I) 0x18 U) 0x1C G) 0x20 T) 0x28 N) 0x2C L =
      A @ B @ C @ replicate 2 0 @ S @ R @ I @ U @ G @ T @ N @ L @ replicate 16 0"
    if "length A = 2" "length B = 2" "length C = 2" "length R = 4" "length S = 8" "length I = 4"
      "length U = 4" "length G = 4" "length T = 8" "length N = 4" "length L = 4"
    for A B C R S I U G T N L :: bytes
  proof -
    have z: "replicate 10 (0 :: byte) = replicate 2 0 @ replicate 8 0"
      "replicate 44 (0 :: byte) = replicate 4 0 @ replicate 4 0 @ replicate 4 0 @ replicate 8 0
        @ replicate 4 0 @ replicate 4 0 @ replicate 16 0"
      by (simp_all flip: replicate_add)
    note w = put_mid [where xs = "A @ B @ C @ replicate 2 0"] put_mid [where xs = "A @ B @ C @ replicate 2 0 @ S @ R"]
      put_mid [where xs = "A @ B @ C @ replicate 2 0 @ S @ R @ I"] put_mid [where xs = "A @ B @ C @ replicate 2 0 @ S @ R @ I @ U"]
      put_mid [where xs = "A @ B @ C @ replicate 2 0 @ S @ R @ I @ U @ G"]
      put_mid [where xs = "A @ B @ C @ replicate 2 0 @ S @ R @ I @ U @ G @ T"]
      put_mid [where xs = "A @ B @ C @ replicate 2 0 @ S @ R @ I @ U @ G @ T @ N"]
    show ?thesis unfolding z
      using that by (simp only: append_assoc) (simp add: w [unfolded append_assoc])
  qed
  show ?ext
    unfolding encode_inode_body_def Let_def inode_body_size_def inode_consts if_True
    using puts_common [of "to_le16 (encode_format True l fl)" "to_le16 x" "to_le16 m" "to_le32 r" 44]
    by (simp add: e)
  have c: "put (put (put (put (put (A @ B @ C @ replicate 10 0 @ R @ replicate 12 0) 6 L) 8 S)
      0x14 I) 0x18 U) 0x1A G =
      A @ B @ C @ L @ S @ replicate 4 0 @ R @ I @ U @ G @ replicate 4 0"
    if "length A = 2" "length B = 2" "length C = 2" "length R = 4" "length S = 4" "length I = 4"
      "length U = 2" "length G = 2" "length L = 2"
    for A B C R S I U G L :: bytes
  proof -
    have z: "replicate 10 (0 :: byte) = replicate 2 0 @ replicate 4 0 @ replicate 4 0"
      "replicate 12 (0 :: byte) = replicate 4 0 @ replicate 2 0 @ replicate 2 0 @ replicate 4 0"
      by (simp_all flip: replicate_add)
    note w = put_mid [where xs = "A @ B @ C"] put_mid [where xs = "A @ B @ C @ L"]
      put_mid [where xs = "A @ B @ C @ L @ S @ replicate 4 0 @ R"]
      put_mid [where xs = "A @ B @ C @ L @ S @ replicate 4 0 @ R @ I"]
      put_mid [where xs = "A @ B @ C @ L @ S @ replicate 4 0 @ R @ I @ U"]
    show ?thesis unfolding z
      using that by (simp only: append_assoc) (simp add: w [unfolded append_assoc])
  qed
  show ?com
    unfolding encode_inode_body_def Let_def inode_body_size_def inode_consts if_False
    using puts_common [of "to_le16 (encode_format False l fl)" "to_le16 x" "to_le16 m" "to_le32 r" 12]
    by (simp add: c)
qed

lemma length_encode_inode_body [simp]:
  "length (encode_inode_body e l fl x m r sz nl nid me) = unat (inode_body_size e)"
  by (cases e) (simp_all add: encode_inode_body_eq inode_body_size_def inode_consts)
definition written_inode ::
    "data_layout \<Rightarrow> u16 \<Rightarrow> u16 \<Rightarrow> u16 \<Rightarrow> u32 \<Rightarrow> u64 \<Rightarrow> u32 \<Rightarrow> u64 \<Rightarrow> node_meta \<Rightarrow> inode" where
  "written_inode l fl x m r sz nl nid me =
     (let e = needs_extended sz me in
      \<lparr>i_nid = nid,
       i_format = \<lparr>fmt_version = (if e then Extended else Compact), fmt_layout = l, fmt_flags = fl\<rparr>,
       i_xattr_icount = x, i_mode = m, i_size = sz, i_nlink = nl, i_uid = m_uid me,
       i_gid = m_gid me, i_mtime = m_mtime me, i_mtime_nsec = m_mtime_nsec me,
       i_ino = ucast nid + 1, i_raw_u = r, i_on_disk_size = (if e then 64 else 32)\<rparr>)"

lemma ucast_back:
  fixes x :: "'a::len word"
  assumes "unat x < 2 ^ LENGTH('b)" "LENGTH('b) \<le> LENGTH('a)"
  shows "ucast (ucast x :: 'b::len word) = x"
proof -
  have "unat (ucast x :: 'b word) = unat x" using assms(1) by (simp add: unsigned_ucast_eq take_bit_nat_eq_self)
  then have "unat (ucast (ucast x :: 'b word) :: 'a word) = unat x" using assms(2) by (simp add: unat_ucast_up)
  then show ?thesis by (simp add: word_unat_eq_iff)
qed

lemma not_needs_extended:
  assumes "\<not> needs_extended sz me"
  shows "ucast (ucast sz :: u32) = sz" "ucast (ucast (m_uid me) :: u16) = m_uid me"
    "ucast (ucast (m_gid me) :: u16) = m_gid me" "m_mtime me = 0" "m_mtime_nsec me = 0"
  using assms by (auto simp: needs_extended_def word_less_nat_alt intro!: ucast_back)

lemma written_inode_fields:
  assumes e: "e = needs_extended sz me" and nl: "e \<or> nl \<le> 0xFFFF"
    and len: "length (encode_inode_body e l fl x m r sz nl nid me @ rest) = 64"
  shows "inode_fields nid \<lparr>fmt_version = (if e then Extended else Compact), fmt_layout = l, fmt_flags = fl\<rparr>
      (encode_inode_body e l fl x m r sz nl nid me @ rest) = written_inode l fl x m r sz nl nid me"
proof (cases e)
  case True
  then show ?thesis
    using e by (simp add: inode_fields_def encode_inode_body_eq written_inode_def Let_def)
next
  case False
  then have n: "\<not> needs_extended sz me" and "nl \<le> 0xFFFF" using e nl by auto
  then have "ucast (ucast nl :: u16) = nl" by (intro ucast_back) (simp_all add: word_le_nat_alt)
  then show ?thesis
    using False n not_needs_extended [OF n]
    by (simp add: inode_fields_def encode_inode_body_eq written_inode_def Let_def)
qed

lemma parse_encoded:
  assumes "e = needs_extended sz me" "e \<or> nl \<le> 0xFFFF" "fl \<le> 0x0FFF"
    and "length (encode_inode_body e l fl x m r sz nl nid me @ rest) = 64"
  shows "inode_parse nid (encode_inode_body e l fl x m r sz nl nid me @ rest)
     = Ok (written_inode l fl x m r sz nl nid me)"
proof -
  have f: "take 2 (encode_inode_body e l fl x m r sz nl nid me @ rest) = to_le16 (encode_format e l fl)"
    by (cases e) (simp_all add: encode_inode_body_eq)
  have "inode_format_parse (encode_format e l fl)
      = Ok \<lparr>fmt_version = (if e then Extended else Compact), fmt_layout = l, fmt_flags = fl\<rparr>"
    by (rule format_encode_parse [OF assms(3)])
  then show ?thesis
    using written_inode_fields [OF assms(1,2,4)]
    by (simp only: inode_parse_64 [OF assms(4)] f le_roundtrips bindR_simps)
qed

text \<open>C20: an inode the writer stores, in the shape the writer chooses for it, reads back with every
  field it was given, whatever bytes follow it in the metadata area. The link count of a compact
  inode is the exception the statement shows: it is kept only up to 65535, since the choice of the
  shape does not look at it.\<close>

theorem encode_inode_parse:
  assumes "e = needs_extended sz me" "e \<or> nl \<le> 0xFFFF" "fl \<le> 0x0FFF"
    and "length (encode_inode_body e l fl x m r sz nl nid me @ rest) = 64"
  shows "inode_parse nid (encode_inode_body e l fl x m r sz nl nid me @ rest)
     = Ok (written_inode l fl x m r sz nl nid me)"
  using assms by (rule parse_encoded)

theorem encode_inode_parse_witness:
  "inode_parse 5 (encode_inode_body True FlatInline 0 0 0x81A4 0 11 1 5 \<lparr>m_uid = 70000, m_gid = 0, m_mtime = 0, m_mtime_nsec = 0\<rparr> @ [])
     = Ok (written_inode FlatInline 0 0 0x81A4 0 11 1 5 \<lparr>m_uid = 70000, m_gid = 0, m_mtime = 0, m_mtime_nsec = 0\<rparr>)"
  by (rule encode_inode_parse) (simp_all add: needs_extended_def inode_body_size_def inode_consts)

end
