(* ===== verification/Dir.thy ===== *)
theory Dir
  imports Inode Utf8
begin

text \<open>
  Directory blocks (\<open>src/dir.rs\<close>): an array of 12-byte dirents, then the names. The reader hands
  each entry to a callback as soon as it is validated, so \<open>visit_block\<close> threads the callback's state
  and returns it with the outcome. \<open>encode_one_dir_block\<close> and the packing loop of
  \<open>encode_dir_blocks\<close> are the writer's (\<open>src/mkfs.rs\<close>).
\<close>

definition EROFS_DIRENT_SIZE :: usize where "EROFS_DIRENT_SIZE = 12"

definition FT_UNKNOWN :: u8 where "FT_UNKNOWN = 0"
definition FT_REG_FILE :: u8 where "FT_REG_FILE = 1"
definition FT_DIR :: u8 where "FT_DIR = 2"
definition FT_CHRDEV :: u8 where "FT_CHRDEV = 3"
definition FT_BLKDEV :: u8 where "FT_BLKDEV = 4"
definition FT_FIFO :: u8 where "FT_FIFO = 5"
definition FT_SOCK :: u8 where "FT_SOCK = 6"
definition FT_SYMLINK :: u8 where "FT_SYMLINK = 7"

definition dirent_type_for_mode :: "u16 \<Rightarrow> u8" where
  "dirent_type_for_mode mode =
     (let t = mode AND S_IFMT in
      if t = S_IFREG then FT_REG_FILE
      else if t = S_IFDIR then FT_DIR
      else if t = S_IFCHR then FT_CHRDEV
      else if t = S_IFBLK then FT_BLKDEV
      else if t = S_IFIFO then FT_FIFO
      else if t = S_IFSOCK then FT_SOCK
      else if t = S_IFLNK then FT_SYMLINK
      else FT_UNKNOWN)"

record dir_entry =
  de_nid :: u64
  de_file_type :: u8
  de_name :: bytes

definition dirent_count :: "bytes \<Rightarrow> usize result" where
  "dirent_count block =
     (if length block < EROFS_DIRENT_SIZE then Err (BadDirent ''block shorter than one dirent'')
      else bindR (u16_at block 8) (\<lambda>first.
        let first_nameoff = unat first in
        if first_nameoff < EROFS_DIRENT_SIZE \<or> length block < first_nameoff
           \<or> first_nameoff mod EROFS_DIRENT_SIZE \<noteq> 0
        then Err (BadDirent ''first nameoff invalid'')
        else Ok (first_nameoff div EROFS_DIRENT_SIZE)))"

text \<open>The scan of the last name: \<open>while e < block.len() && block[e] != 0\<close>.\<close>

function nul_from :: "bytes \<Rightarrow> usize \<Rightarrow> usize" where
  "nul_from block e = (if e < length block \<and> block ! e \<noteq> 0 then nul_from block (e + 1) else e)"
  by pat_completeness auto
termination by (relation "measure (\<lambda>(block, e). length block - e)") auto

text \<open>The body of the loop, up to the call of \<open>f\<close>.\<close>

definition dirent_at :: "bytes \<Rightarrow> usize \<Rightarrow> usize \<Rightarrow> dir_entry result" where
  "dirent_at block n_dirents i =
     (let first_nameoff = n_dirents * EROFS_DIRENT_SIZE; off = i * EROFS_DIRENT_SIZE in
      bindR (u64_at block off) (\<lambda>nid.
      bindR (u16_at block (off + 8)) (\<lambda>nameoff16.
      bindR (idx block (off + 10)) (\<lambda>file_type.
        let nameoff = unat nameoff16 in
        if nameoff < first_nameoff \<or> length block < nameoff
        then Err (BadDirent ''dirent nameoff out of bounds'')
        else
          bindR (if i + 1 < n_dirents then
                   (let next_off = (i + 1) * EROFS_DIRENT_SIZE in
                    bindR (u16_at block (next_off + 8)) (\<lambda>next16.
                      let next_nameoff = unat next16 in
                      if next_nameoff < nameoff \<or> length block < next_nameoff
                      then Err (BadDirent ''dirent nameoff non-monotonic'')
                      else Ok next_nameoff))
                 else Ok (nul_from block nameoff)) (\<lambda>name_end.
          bindR (slice block nameoff name_end) (\<lambda>name.
            if name = [] then Err (BadDirent ''dirent name is empty'')
            else if 0 \<in> set name then Err (BadDirent ''dirent name contains a NUL byte'')
            else if slash \<in> set name then Err (BadDirent (''dirent name contains '' @ [CHR 0x27, CHR 0x2F, CHR 0x27]))
            else Ok \<lparr>de_nid = nid, de_file_type = file_type, de_name = name\<rparr>))))))"

fun visit_from :: "(dir_entry \<Rightarrow> 's \<Rightarrow> 's) \<Rightarrow> bytes \<Rightarrow> usize \<Rightarrow> nat list \<Rightarrow> 's \<Rightarrow> 's \<times> unit result" where
  "visit_from f block n [] s = (s, Ok ())"
| "visit_from f block n (i # is) s =
     (case dirent_at block n i of
        Ok e \<Rightarrow> visit_from f block n is (f e s)
      | Err e \<Rightarrow> (s, Err e) | Panic \<Rightarrow> (s, Panic) | Overrun \<Rightarrow> (s, Overrun))"

definition visit_block :: "bytes \<Rightarrow> (dir_entry \<Rightarrow> 's \<Rightarrow> 's) \<Rightarrow> 's \<Rightarrow> 's \<times> unit result" where
  "visit_block block f s =
     (case dirent_count block of
        Ok n_dirents \<Rightarrow> visit_from f block n_dirents [0..<n_dirents] s
      | Err e \<Rightarrow> (s, Err e) | Panic \<Rightarrow> (s, Panic) | Overrun \<Rightarrow> (s, Overrun))"

definition iter_block :: "bytes \<Rightarrow> dir_entry list result" where
  "iter_block block =
     bindR (dirent_count block) (\<lambda>_.
       case visit_block block (\<lambda>e out. out @ [e]) [] of (out, r) \<Rightarrow> bindR r (\<lambda>_. Ok out))"

section \<open>The writer's side\<close>

type_synonym dir_ent = "bytes \<times> u64 \<times> u8"

fun write_dirents :: "dir_ent list \<Rightarrow> nat \<Rightarrow> usize \<Rightarrow> bytes \<Rightarrow> bytes result" where
  "write_dirents [] i name_cursor buf = Ok buf"
| "write_dirents ((name, nid, ft) # es) i name_cursor buf =
     (let off = i * EROFS_DIRENT_SIZE in
      bindR (put_at buf off (to_le64 nid)) (\<lambda>buf.
      bindR (put_at buf (off + 8) (to_le16 (word_of_nat name_cursor))) (\<lambda>buf.
      bindR (put_at buf (off + 10) [ft]) (\<lambda>buf.
      bindR (put_at buf name_cursor name) (\<lambda>buf.
        write_dirents es (i + 1) (name_cursor + length name) buf)))))"

definition names_size :: "dir_ent list \<Rightarrow> usize" where
  "names_size entries = sum_list (map (\<lambda>(name, _, _). length name) entries)"

definition encode_one_dir_block :: "dir_ent list \<Rightarrow> u64 \<Rightarrow> bytes result" where
  "encode_one_dir_block entries bs =
     (let header_size = length entries * EROFS_DIRENT_SIZE in
      if bs < word_of_nat (header_size + names_size entries)
      then Err (BadDirent ''dir block overflow (planner bug)'')
      else write_dirents entries 0 header_size (replicate (unat bs) 0))"

text \<open>The inner loop of \<open>encode_dir_blocks\<close>: how many entries the block that starts here takes,
  given the header and name bytes taken so far. \<open>None\<close> is the entry that fits no block.\<close>

fun block_take :: "u64 \<Rightarrow> dir_ent list \<Rightarrow> bool \<Rightarrow> usize \<Rightarrow> usize \<Rightarrow> nat option" where
  "block_take bs [] first header names = Some 0"
| "block_take bs ((name, nid, ft) # es) first header names =
     (let nh = header + EROFS_DIRENT_SIZE; nn = names + length name in
      if bs < word_of_nat (nh + nn) then (if first then None else Some 0)
      else map_option Suc (block_take bs es False nh nn))"

lemma block_take_bound: "block_take bs es first h n = Some k \<Longrightarrow> k \<le> length es"
  by (induction bs es first h n arbitrary: k rule: block_take.induct)
    (auto simp: Let_def split: if_splits)

lemma block_take_pos: "block_take bs es True h n = Some k \<Longrightarrow> es \<noteq> [] \<Longrightarrow> 0 < k"
  by (cases es) (auto simp: Let_def split: if_splits)

function pack_dir_blocks :: "u64 \<Rightarrow> dir_ent list \<Rightarrow> bytes list result" where
  "pack_dir_blocks bs all =
     (if all = [] then Ok []
      else case block_take bs all True 0 0 of
             None \<Rightarrow> Err (BadDirent ''single dir entry larger than block_size'')
           | Some k \<Rightarrow>
               bindR (encode_one_dir_block (take k all) bs) (\<lambda>block.
               bindR (pack_dir_blocks bs (drop k all)) (\<lambda>out. Ok (block # out))))"
  by pat_completeness auto
termination
  by (relation "measure (\<lambda>(bs, all). length all)") (auto dest: block_take_pos)

declare nul_from.simps [simp del] pack_dir_blocks.simps [simp del]

section \<open>Listing\<close>

lemma nul_from_eq: "e \<le> length block \<Longrightarrow> nul_from block e = e + nul_end (drop e block)"
proof (induction block e rule: nul_from.induct)
  case (1 block e)
  show ?case
  proof (cases "e < length block")
    case True
    then have d: "drop e block = block ! e # drop (e + 1) block" by (simp add: Cons_nth_drop_Suc)
    show ?thesis
    proof (cases "block ! e = 0")
      case True
      then have "nul_end (drop e block) = 0" unfolding nul_end_def d by simp
      then show ?thesis using True by (simp add: nul_from.simps [of block e])
    next
      case False
      then have "nul_end (drop e block) = Suc (nul_end (drop (e + 1) block))"
        unfolding nul_end_def d by simp
      moreover have "nul_from block e = nul_from block (e + 1)"
        using True False by (subst nul_from.simps) simp
      moreover have "nul_from block (e + 1) = e + 1 + nul_end (drop (e + 1) block)"
        using 1 True False by auto
      ultimately show ?thesis by simp
    qed
  next
    case False
    with 1 have "e = length block" by simp
    then show ?thesis by (subst nul_from.simps) (simp add: nul_end_def)
  qed
qed

lemma nul_end_le: "nul_end bs \<le> length bs"
  by (simp add: nul_end_def length_takeWhile_le)

lemma dirent_count_Ok:
  "(dirent_count block = Ok n) =
     (12 \<le> length block \<and> 0 < n \<and> 12 * n \<le> length block \<and> unat (le16 (take 2 (drop 8 block))) = 12 * n)"
  by (auto simp: dirent_count_def EROFS_DIRENT_SIZE_def Let_def)

lemma returns_dirent_count [returns_intros, simp]: "returns (dirent_count block)"
  by (auto simp: dirent_count_def EROFS_DIRENT_SIZE_def Let_def)

definition nameoff :: "bytes \<Rightarrow> nat \<Rightarrow> nat" where
  "nameoff block i = unat (le16 (take 2 (drop (i * 12 + 8) block)))"

definition name_stop :: "bytes \<Rightarrow> nat \<Rightarrow> nat \<Rightarrow> nat" where
  "name_stop block n i =
     (if i + 1 < n then nameoff block (i + 1)
      else nameoff block i + nul_end (drop (nameoff block i) block))"

definition dirent_name :: "bytes \<Rightarrow> nat \<Rightarrow> nat \<Rightarrow> bytes" where
  "dirent_name block n i =
     take (name_stop block n i - nameoff block i) (drop (nameoff block i) block)"

definition dirent_of :: "bytes \<Rightarrow> nat \<Rightarrow> nat \<Rightarrow> dir_entry" where
  "dirent_of block n i =
     \<lparr>de_nid = le64 (take 8 (drop (i * 12) block)), de_file_type = block ! (i * 12 + 10),
      de_name = dirent_name block n i\<rparr>"

definition name_ok :: "bytes \<Rightarrow> bool" where
  "name_ok name \<longleftrightarrow> name \<noteq> [] \<and> 0 \<notin> set name \<and> slash \<notin> set name"

text \<open>Every outcome of one step of the walk: no read of it is out of range.\<close>

lemma dirent_at_cases:
  assumes "dirent_count block = Ok n" "i < n"
  shows "dirent_at block n i =
    (let off = nameoff block i; stop = name_stop block n i; name = dirent_name block n i in
     if off < n * 12 \<or> length block < off then Err (BadDirent ''dirent nameoff out of bounds'')
     else if i + 1 < n \<and> (stop < off \<or> length block < stop)
     then Err (BadDirent ''dirent nameoff non-monotonic'')
     else if name = [] then Err (BadDirent ''dirent name is empty'')
     else if 0 \<in> set name then Err (BadDirent ''dirent name contains a NUL byte'')
     else if slash \<in> set name then Err (BadDirent (''dirent name contains '' @ [CHR 0x27, CHR 0x2F, CHR 0x27]))
     else Ok (dirent_of block n i))"
proof -
  have len: "12 * n \<le> length block" using assms by (simp add: dirent_count_Ok)
  have a: "i * 12 + 12 \<le> length block" using assms(2) len by linarith
  have b: "(i + 1) * 12 + 12 \<le> length block" if "i + 1 < n" using len that by simp
  have scan: "nul_from block (nameoff block i) = name_stop block n i \<and> name_stop block n i \<le> length block
      \<and> nameoff block i \<le> name_stop block n i"
    if "\<not> i + 1 < n" "nameoff block i \<le> length block"
    using that nul_end_le [of "drop (nameoff block i) block"] by (simp add: nul_from_eq name_stop_def)
  show ?thesis
  proof (cases "i + 1 < n")
    case True
    then show ?thesis
      using a b [OF True]
      by (simp add: dirent_at_def Let_def EROFS_DIRENT_SIZE_def nameoff_def name_stop_def
          dirent_name_def dirent_of_def add.commute)
  next
    case False
    then show ?thesis
      using a scan
      by (simp add: dirent_at_def Let_def EROFS_DIRENT_SIZE_def dirent_name_def dirent_of_def
          flip: nameoff_def)
  qed
qed

lemma dirent_at_Ok:
  assumes "dirent_count block = Ok n" "i < n"
  shows "(dirent_at block n i = Ok e) =
    (n * 12 \<le> nameoff block i \<and> nameoff block i \<le> name_stop block n i
      \<and> name_stop block n i \<le> length block \<and> name_ok (dirent_name block n i)
      \<and> e = dirent_of block n i)"
  using nul_end_le [of "drop (nameoff block i) block"]
  by (auto simp: dirent_at_cases [OF assms] Let_def name_ok_def name_stop_def)

lemma returns_dirent_at [returns_intros]:
  "dirent_count block = Ok n \<Longrightarrow> i < n \<Longrightarrow> returns (dirent_at block n i)"
  by (simp add: dirent_at_cases Let_def)

lemma fold_snoc: "fold (\<lambda>e out. out @ [e]) es acc = acc @ es"
  by (induction es arbitrary: acc) simp_all

text \<open>The walk as the map that stops at the first error, with the entries the callback saw.\<close>

lemma visit_from_mapR:
  "visit_from f block n is s =
     (fold f (ok_prefix (dirent_at block n) is) s, bindR (mapR (dirent_at block n) is) (\<lambda>_. Ok ()))"
  by (induction "is" arbitrary: s) (auto simp: bindR_assoc split: result.split)

lemma iter_block_eq:
  "iter_block block = bindR (dirent_count block) (\<lambda>n. mapR (dirent_at block n) [0..<n])"
proof (cases "dirent_count block")
  case (Ok n)
  then show ?thesis
    by (cases "mapR (dirent_at block n) [0..<n]")
      (simp_all add: iter_block_def visit_block_def fold_snoc visit_from_mapR ok_prefix_mapR)
qed (simp_all add: iter_block_def)

lemma returns_iter_block [returns_intros, simp]: "returns (iter_block block)"
  unfolding iter_block_eq by (intro returns_bindR returns_mapR) (auto intro: returns_dirent_at)

text \<open>C21: the walk with a callback and the listing are the same walk. Whatever the callback, it runs
  on a list of entries of the block, in order; when the listing succeeds that list is the listing
  and the walk succeeds; when the listing fails the walk fails with the same error, and neither
  panics on any block.\<close>

theorem visit_block_iter_block:
  "\<exists>es. (\<forall>f s. visit_block block f s = (fold f es s, bindR (iter_block block) (\<lambda>_. Ok ())))
      \<and> (iter_block block = Ok es \<or> (\<exists>e. iter_block block = Err e))"
proof (cases "dirent_count block")
  case (Ok n)
  have "returns (mapR (dirent_at block n) [0..<n])"
    using Ok by (auto intro!: returns_mapR returns_dirent_at)
  then show ?thesis
    by (intro exI [of _ "ok_prefix (dirent_at block n) [0..<n]"])
      (auto simp: Ok visit_block_def visit_from_mapR iter_block_eq ok_prefix_mapR elim: returns_cases)
next
  case (Err e)
  then show ?thesis by (intro exI [of _ "[]"]) (simp add: visit_block_def iter_block_eq)
qed (use returns_dirent_count [of block] in auto)

lemma iter_block_Ok:
  assumes "iter_block block = Ok es"
  obtains n where "dirent_count block = Ok n" "es = map (dirent_of block n) [0..<n]"
    "\<And>i. i < n \<Longrightarrow> n * 12 \<le> nameoff block i \<and> nameoff block i \<le> name_stop block n i
       \<and> name_stop block n i \<le> length block \<and> name_ok (dirent_name block n i)"
proof -
  from assms obtain n where n: "dirent_count block = Ok n"
    and m: "list_all2 (\<lambda>i e. dirent_at block n i = Ok e) [0..<n] es"
    by (auto simp: iter_block_eq mapR_eq_Ok)
  have len: "length es = n" using list_all2_lengthD [OF m] by simp
  have e: "dirent_at block n i = Ok (es ! i)" if "i < n" for i
    using list_all2_nthD [OF m, of i] that by simp
  have "es = map (dirent_of block n) [0..<n]"
    using e len by (intro nth_equalityI) (simp_all add: dirent_at_Ok [OF n])
  with n e show thesis by (intro that) (auto simp: dirent_at_Ok [OF n])
qed

text \<open>In a block the reader accepts, the names are non-empty, have no NUL and no slash, and lie
  back to back from the end of the dirent array, all inside the block: the listing is that stretch
  of bytes cut into names.\<close>

theorem iter_block_names:
  assumes "iter_block block = Ok es"
  shows "es \<noteq> [] \<and> (\<forall>e\<in>set es. de_name e \<noteq> [] \<and> 0 \<notin> set (de_name e) \<and> slash \<notin> set (de_name e))
    \<and> (\<exists>rest. drop (12 * length es) block = concat (map de_name es) @ rest)"
proof -
  from iter_block_Ok [OF assms] obtain n where n: "dirent_count block = Ok n"
    and es: "es = map (dirent_of block n) [0..<n]"
    and ok: "\<And>i. i < n \<Longrightarrow> n * 12 \<le> nameoff block i \<and> nameoff block i \<le> name_stop block n i
       \<and> name_stop block n i \<le> length block \<and> name_ok (dirent_name block n i)" by blast
  let ?g = "\<lambda>i. if i < n then nameoff block i else name_stop block n (n - 1)"
  have n0: "0 < n" and first: "nameoff block 0 = 12 * n" using n by (auto simp: dirent_count_Ok nameoff_def)
  have step: "?g (Suc i) = name_stop block n i" if "i < n" for i
    using that by (cases "Suc i < n") (auto simp: name_stop_def le_antisym less_Suc_eq dest: Suc_lessI)
  have "concat (map (\<lambda>i. take (?g (Suc i) - ?g i) (drop (?g i) block)) [0..<n])
      = take (?g n - ?g 0) (drop (?g 0) block)"
    using ok step by (intro concat_slices) auto
  moreover have "map (\<lambda>i. take (?g (Suc i) - ?g i) (drop (?g i) block)) [0..<n] = map de_name es"
    unfolding es using step by (simp add: dirent_of_def dirent_name_def)
  ultimately have "concat (map de_name es) = take (?g n - 12 * n) (drop (12 * n) block)"
    using n0 first by simp
  then have "drop (12 * length es) block = concat (map de_name es) @ drop (?g n - 12 * n) (drop (12 * n) block)"
    using es by (metis append_take_drop_id length_map length_upt minus_nat.diff_0)
  then show ?thesis using n0 ok by (auto simp: es dirent_of_def name_ok_def)
qed

section \<open>A written block reads back\<close>

text \<open>The dirent array and the name area the writer produces.\<close>

fun dirent_headers :: "dir_ent list \<Rightarrow> usize \<Rightarrow> bytes list" where
  "dirent_headers [] cursor = []"
| "dirent_headers ((name, nid, ft) # es) cursor =
     (to_le64 nid @ to_le16 (word_of_nat cursor) @ [ft, 0]) # dirent_headers es (cursor + length name)"

definition ent_names :: "dir_ent list \<Rightarrow> bytes list" where
  "ent_names es = map fst es"

lemma length_dirent_headers [simp]: "length (dirent_headers es c) = length es"
  by (induction es c rule: dirent_headers.induct) simp_all

lemma width_dirent_headers: "h \<in> set (dirent_headers es c) \<Longrightarrow> length h = 12"
  by (induction es c rule: dirent_headers.induct) auto

lemma dirent_headers_nth:
  "i < length es \<Longrightarrow> dirent_headers es c ! i =
     to_le64 (fst (snd (es ! i))) @ to_le16 (word_of_nat (c + sum_list (map length (take i (ent_names es)))))
       @ [snd (snd (es ! i)), 0]"
proof (induction es c arbitrary: i rule: dirent_headers.induct)
  case (2 name nid ft es c)
  then show ?case by (cases i) (simp_all add: ent_names_def add.assoc)
qed simp

lemma names_size_eq: "names_size es = length (concat (ent_names es))"
  by (simp add: names_size_def ent_names_def length_concat comp_def case_prod_unfold)

lemma length_concat_headers: "length (concat (dirent_headers es c)) = 12 * length es"
  by (induction es c rule: dirent_headers.induct) simp_all

lemma write_dirents_eq:
  "length H = 12 * i \<Longrightarrow> cursor = length H + 12 * length es + length N \<Longrightarrow> names_size es \<le> m \<Longrightarrow>
     write_dirents es i cursor (H @ replicate (12 * length es) 0 @ N @ replicate m 0)
       = Ok (H @ concat (dirent_headers es cursor) @ N @ concat (ent_names es) @ replicate (m - names_size es) 0)"
proof (induction es arbitrary: i cursor H N m)
  case Nil
  then show ?case by (simp add: ent_names_def names_size_def)
next
  case (Cons e es)
  obtain name nid ft where e: "e = (name, nid, ft)" by (cases e)
  let ?k = "length name" and ?z = "12 * length es"
  let ?h = "to_le64 nid @ to_le16 (word_of_nat cursor) @ [ft, 0]"
  have m: "?k + names_size es \<le> m" using Cons.prems(3) by (simp add: e names_size_def)
  have z: "replicate (12 * length (e # es)) (0 :: byte) =
      replicate 8 0 @ replicate 2 0 @ [0] @ [0] @ replicate ?z 0"
    by (simp add: numeral_eq_Suc)
  have zm: "replicate m (0 :: byte) = replicate ?k 0 @ replicate (m - ?k) 0"
    using m by (simp flip: replicate_add)
  have w: "put (put (put (put (H @ replicate (12 * length (e # es)) 0 @ N @ replicate m 0) (12 * i) (to_le64 nid))
        (12 * i + 8) (to_le16 (word_of_nat cursor))) (12 * i + 10) [ft]) cursor name
      = (H @ ?h) @ replicate ?z 0 @ (N @ name) @ replicate (m - ?k) 0"
    unfolding z zm
    using Cons.prems(1,2)
      put_mid [of H "12 * i" "replicate 8 0" "to_le64 nid"
        "replicate 2 0 @ [0] @ [0] @ replicate ?z 0 @ N @ replicate ?k 0 @ replicate (m - ?k) 0"]
      put_mid [of "H @ to_le64 nid" "12 * i + 8" "replicate 2 0" "to_le16 (word_of_nat cursor)"
        "[0] @ [0] @ replicate ?z 0 @ N @ replicate ?k 0 @ replicate (m - ?k) 0"]
      put_mid [of "H @ to_le64 nid @ to_le16 (word_of_nat cursor)" "12 * i + 10" "[0]" "[ft]"
        "[0] @ replicate ?z 0 @ N @ replicate ?k 0 @ replicate (m - ?k) 0"]
      put_mid [of "H @ ?h @ replicate ?z 0 @ N" cursor "replicate ?k 0" name "replicate (m - ?k) 0"]
    by simp
  have "write_dirents (e # es) i cursor (H @ replicate (12 * length (e # es)) 0 @ N @ replicate m 0)
      = write_dirents es (i + 1) (cursor + ?k)
          ((H @ ?h) @ replicate ?z 0 @ (N @ name) @ replicate (m - ?k) 0)"
    unfolding w [symmetric] e write_dirents.simps Let_def EROFS_DIRENT_SIZE_def
    using Cons.prems(1,2) m by (simp add: e mult.commute)
  also have "\<dots> = Ok ((H @ ?h) @ concat (dirent_headers es (cursor + ?k)) @ (N @ name)
      @ concat (ent_names es) @ replicate (m - ?k - names_size es) 0)"
    using Cons.prems(1,2) m by (intro Cons.IH) (simp_all add: e)
  finally show ?case by (simp add: e ent_names_def names_size_def)
qed

definition ent_of :: "dir_ent \<Rightarrow> dir_entry" where
  "ent_of e = (case e of (name, nid, ft) \<Rightarrow> \<lparr>de_nid = nid, de_file_type = ft, de_name = name\<rparr>)"

definition dir_image :: "dir_ent list \<Rightarrow> nat \<Rightarrow> bytes" where
  "dir_image es pad = concat (dirent_headers es (12 * length es)) @ concat (ent_names es) @ replicate pad 0"

definition name_pos :: "dir_ent list \<Rightarrow> nat \<Rightarrow> nat" where
  "name_pos es i = 12 * length es + sum_list (map length (take i (ent_names es)))"

lemma length_dir_image: "length (dir_image es pad) = 12 * length es + names_size es + pad"
  by (simp add: dir_image_def length_concat_headers names_size_eq)

lemma name_pos_Suc: "i < length es \<Longrightarrow> name_pos es (Suc i) = name_pos es i + length (fst (es ! i))"
  by (simp add: name_pos_def ent_names_def take_Suc_conv_app_nth)

lemma name_pos_le: "i \<le> length es \<Longrightarrow> name_pos es i \<le> 12 * length es + names_size es"
proof -
  have "concat (ent_names es) = concat (take i (ent_names es)) @ concat (drop i (ent_names es))"
    by (simp flip: concat_append)
  then have "length (concat (take i (ent_names es))) \<le> names_size es" by (simp add: names_size_eq)
  then show ?thesis by (simp add: name_pos_def length_concat)
qed

lemma dir_image_header:
  assumes "i < length es"
  shows "take 12 (drop (i * 12) (dir_image es pad)) =
     to_le64 (fst (snd (es ! i))) @ to_le16 (word_of_nat (name_pos es i)) @ [snd (snd (es ! i)), 0]"
  using assms take_drop_concat_fixed [of "dirent_headers es (12 * length es)" 12 i
      "concat (ent_names es) @ replicate pad 0"]
  by (simp add: dir_image_def width_dirent_headers dirent_headers_nth name_pos_def del: of_nat_add)

lemma dir_image_name:
  assumes "i < length es"
  shows "take (length (fst (es ! i))) (drop (name_pos es i) (dir_image es pad)) = fst (es ! i)"
  using assms take_drop_concat [of i "ent_names es" "replicate pad 0"]
  by (simp add: dir_image_def name_pos_def length_concat_headers ent_names_def)

lemma dir_image_last:
  assumes "length es = Suc i"
  shows "drop (name_pos es i) (dir_image es pad) = fst (es ! i) @ replicate pad 0"
proof -
  have "drop i (ent_names es) = [fst (es ! i)]"
    using assms by (simp add: ent_names_def drop_map Cons_nth_drop_Suc [symmetric])
  then have "drop (sum_list (map length (take i (ent_names es)))) (concat (ent_names es)) = fst (es ! i)"
    using concat_drop [of i "ent_names es"] by simp
  moreover have "sum_list (map length (take i (ent_names es))) \<le> length (concat (ent_names es))"
    using name_pos_le [of i es] assms by (simp add: name_pos_def names_size_eq)
  ultimately show ?thesis by (simp add: dir_image_def name_pos_def length_concat_headers)
qed

lemma nul_end_append_zeros: "0 \<notin> set bs \<Longrightarrow> nul_end (bs @ replicate n 0) = length bs"
  by (cases n; induction bs) (auto simp: nul_end_def)

lemma encode_one_dir_block_eq:
  assumes "length es * 12 + names_size es \<le> unat bs"
  shows "encode_one_dir_block es bs = Ok (dir_image es (unat bs - (length es * 12 + names_size es)))"
proof -
  have lt: "unat bs < 2 ^ 64" using unsigned_less [of bs, where 'a = nat] by simp
  let ?m = "unat bs - length es * 12"
  have "replicate (unat bs) (0 :: byte) = [] @ replicate (12 * length es) 0 @ [] @ replicate ?m 0"
    using assms by (simp flip: replicate_add)
  then have "write_dirents es 0 (length es * 12) (replicate (unat bs) 0)
      = Ok (dir_image es (unat bs - (length es * 12 + names_size es)))"
    using write_dirents_eq [of "[]" 0 "length es * 12" es "[]" ?m] assms
    by (simp add: dir_image_def mult.commute del: replicate_add)
  moreover have "\<not> bs < word_of_nat (length es * 12 + names_size es)"
    using assms lt by (simp add: word_less_nat_alt unat_of_nat_small del: of_nat_add of_nat_mult)
  ultimately show ?thesis by (simp add: encode_one_dir_block_def EROFS_DIRENT_SIZE_def Let_def)
qed

lemma iter_dir_image:
  assumes ne: "es \<noteq> []" and ok: "\<forall>e\<in>set es. name_ok (fst e)"
    and small: "12 * length es + names_size es \<le> 65536"
  shows "iter_block (dir_image es pad) = Ok (map ent_of es)"
proof -
  let ?b = "dir_image es pad" and ?n = "length es"
  have pos: "name_pos es i < 65536" if "i < ?n" for i
  proof -
    have "fst (es ! i) \<noteq> []" using ok that by (auto simp: name_ok_def)
    then have "name_pos es i < name_pos es (Suc i)" using that by (simp add: name_pos_Suc)
    also have "\<dots> \<le> 65536" using name_pos_le [of "Suc i" es] that small by simp
    finally show ?thesis .
  qed
  have off: "nameoff ?b i = name_pos es i" if i: "i < ?n" for i
  proof -
    have "take 2 (drop (i * 12 + 8) ?b) = take 2 (drop 8 (take 12 (drop (i * 12) ?b)))"
      by (simp add: drop_take add.commute)
    then show ?thesis using pos [OF i]
      by (simp add: nameoff_def dir_image_header [OF i] unat_of_nat_small)
  qed
  have cnt: "dirent_count ?b = Ok ?n"
  proof -
    have "nameoff ?b 0 = 12 * ?n" using off [of 0] ne by (simp add: name_pos_def)
    then show ?thesis using ne by (cases es) (auto simp: dirent_count_Ok length_dir_image nameoff_def)
  qed
  have stop: "name_stop ?b ?n i = name_pos es i + length (fst (es ! i))" if i: "i < ?n" for i
  proof (cases "i + 1 < ?n")
    case True
    then show ?thesis using i by (simp add: name_stop_def off name_pos_Suc)
  next
    case False
    then have "?n = Suc i" using i by simp
    moreover have "0 \<notin> set (fst (es ! i))" using ok i by (simp add: name_ok_def)
    ultimately show ?thesis using i
      by (simp add: name_stop_def off dir_image_last nul_end_append_zeros)
  qed
  have "dirent_at ?b ?n i = Ok (ent_of (es ! i))" if i: "i < ?n" for i
  proof -
    have nm: "dirent_name ?b ?n i = fst (es ! i)"
      using i by (simp add: dirent_name_def off stop dir_image_name)
    have "take 8 (drop (i * 12) ?b) = take 8 (take 12 (drop (i * 12) ?b))" by simp
    then have nid: "le64 (take 8 (drop (i * 12) ?b)) = fst (snd (es ! i))"
      by (simp only: dir_image_header [OF i]) simp
    have "?b ! (i * 12 + 10) = take 12 (drop (i * 12) ?b) ! 10"
      using i by (simp add: length_dir_image)
    then have ft: "?b ! (i * 12 + 10) = snd (snd (es ! i))"
      by (simp only: dir_image_header [OF i]) (simp add: nth_append)
    have "name_pos es (Suc i) \<le> length ?b" using name_pos_le [of "Suc i" es] i by (simp add: length_dir_image)
    then show ?thesis
      using i ok nm nid ft
      by (simp add: dirent_at_Ok [OF cnt i] off stop dirent_of_def ent_of_def name_pos_Suc
          case_prod_unfold, simp add: name_pos_def)
  qed
  then have "mapR (dirent_at ?b ?n) [0..<?n] = Ok (map (\<lambda>i. ent_of (es ! i)) [0..<?n])"
    by (intro mapR_all_Ok) simp
  moreover have "map (\<lambda>i. ent_of (es ! i)) [0..<?n] = map ent_of es"
    by (rule nth_equalityI) simp_all
  ultimately show ?thesis by (simp add: iter_block_eq cnt)
qed

text \<open>A block the writer fills with valid names fits the block size and lists as exactly the
  entries it was given, in order.\<close>

theorem encode_one_dir_block_lists:
  assumes "entries \<noteq> []" and "\<forall>e\<in>set entries. name_ok (fst e)"
    and "length entries * 12 + names_size entries \<le> unat bs" and "unat bs \<le> 65536"
  shows "\<exists>block. encode_one_dir_block entries bs = Ok block \<and> length block = unat bs
     \<and> iter_block block = Ok (map ent_of entries)"
  using assms iter_dir_image [of entries]
  by (auto simp: encode_one_dir_block_eq length_dir_image)

lemma block_take_fits:
  "block_take bs es first h n = Some k \<Longrightarrow> h + n \<le> unat bs \<Longrightarrow> h + n + 12 * length es + names_size es < 2 ^ 64 \<Longrightarrow>
     h + n + 12 * k + names_size (take k es) \<le> unat bs"
proof (induction bs es first h n arbitrary: k rule: block_take.induct)
  case (2 bs name nid ft es first h n)
  have lt: "h + 12 + (n + length name) < 2 ^ 64" using 2(4) by (simp add: names_size_def)
  show ?case
  proof (cases "bs < word_of_nat (h + 12 + (n + length name))")
    case True
    then show ?thesis using 2(2,3) by (auto simp: Let_def EROFS_DIRENT_SIZE_def names_size_def split: if_splits)
  next
    case False
    then have le: "h + 12 + (n + length name) \<le> unat bs"
      using lt by (simp add: word_less_nat_alt unat_of_nat_small del: of_nat_add)
    from False 2(2) obtain k' where "block_take bs es False (h + 12) (n + length name) = Some k'" "k = Suc k'"
      by (auto simp: Let_def EROFS_DIRENT_SIZE_def)
    then show ?thesis using 2(1) [OF refl refl, of k'] False le 2(4)
      by (simp add: EROFS_DIRENT_SIZE_def names_size_def)
  qed
qed (simp add: names_size_def)

lemma block_take_not_first: "\<exists>k. block_take bs es False h n = Some k"
  by (induction bs es False h n rule: block_take.induct) (auto simp: Let_def)

lemma block_take_some:
  assumes "es \<noteq> []" "12 + length (fst (hd es)) \<le> unat bs"
  shows "\<exists>k. block_take bs es True 0 0 = Some k"
proof -
  obtain name nid ft es' where es: "es = (name, nid, ft) # es'" using assms(1) by (cases es) auto
  have "12 + length name < 2 ^ 64"
    using assms(2) unsigned_less [of bs, where 'a = nat] by (simp add: es)
  then have "\<not> bs < word_of_nat (12 + length name)"
    using assms(2) by (simp add: es word_less_nat_alt unat_of_nat_small del: of_nat_add)
  then show ?thesis using block_take_not_first [of bs es' 12 "length name"]
    by (auto simp: es EROFS_DIRENT_SIZE_def Let_def)
qed

lemma names_size_take_drop: "names_size (take k es) + names_size (drop k es) = names_size es"
  by (metis append_take_drop_id length_append concat_append ent_names_def map_append names_size_eq)

text \<open>Packing a directory always succeeds when each entry fits a block, every block it makes has
  the block size, and listing the blocks in turn gives back the whole directory in order: no entry is
  lost, repeated or cut at a block's boundary.\<close>

theorem pack_dir_blocks_lists:
  assumes "\<forall>e\<in>set all. name_ok (fst e) \<and> 12 + length (fst e) \<le> unat bs"
    and "unat bs \<le> 65536" and "12 * length all + names_size all < 2 ^ 64"
  shows "\<exists>blocks. pack_dir_blocks bs all = Ok blocks \<and> (\<forall>b\<in>set blocks. length b = unat bs)
     \<and> bindR (mapR iter_block blocks) (\<lambda>ess. Ok (concat ess)) = Ok (map ent_of all)"
  using assms
proof (induction bs all rule: pack_dir_blocks.induct)
  case (1 bs all)
  show ?case
  proof (cases "all = []")
    case False
    then have "12 + length (fst (hd all)) \<le> unat bs" using 1(2) by simp
    from block_take_some [OF False this] obtain k where k: "block_take bs all True 0 0 = Some k" by blast
    have pos: "0 < k" using block_take_pos [OF k False] .
    have fits: "length (take k all) * 12 + names_size (take k all) \<le> unat bs"
      using block_take_fits [OF k] block_take_bound [OF k] 1(4) by (simp add: min.absorb2 mult.commute)
    let ?pad = "unat bs - (length (take k all) * 12 + names_size (take k all))"
    let ?block = "dir_image (take k all) ?pad"
    have e: "encode_one_dir_block (take k all) bs = Ok ?block" using fits by (rule encode_one_dir_block_eq)
    have len: "length ?block = unat bs" using fits by (simp add: length_dir_image)
    have it: "iter_block ?block = Ok (map ent_of (take k all))"
      using False pos fits 1(2,3) by (intro iter_dir_image) (auto dest: in_set_takeD)
    have "12 * length (drop k all) + names_size (drop k all) < 2 ^ 64"
      using 1(4) names_size_take_drop [of k all] by simp
    then obtain blocks where "pack_dir_blocks bs (drop k all) = Ok blocks" "\<forall>b\<in>set blocks. length b = unat bs"
      "bindR (mapR iter_block blocks) (\<lambda>ess. Ok (concat ess)) = Ok (map ent_of (drop k all))"
      using 1(1) [OF False k e] 1(2,3) by (auto dest: in_set_dropD)
    moreover from this have "map ent_of all = map ent_of (take k all) @ map ent_of (drop k all)"
      by (metis append_take_drop_id map_append)
    ultimately show ?thesis
      using False k e len it by (subst pack_dir_blocks.simps) auto
  qed (simp add: pack_dir_blocks.simps)
qed

section \<open>Types\<close>

fun ftype_code :: "file_type \<Rightarrow> u8" where
  "ftype_code Dir = FT_DIR" | "ftype_code RegularFile = FT_REG_FILE" | "ftype_code Symlink = FT_SYMLINK"
| "ftype_code ChrDev = FT_CHRDEV" | "ftype_code BlkDev = FT_BLKDEV" | "ftype_code Fifo = FT_FIFO"
| "ftype_code Sock = FT_SOCK" | "ftype_code Unknown = FT_UNKNOWN"

lemma dirent_type_for_mode_eq: "dirent_type_for_mode (i_mode i) = ftype_code (file_type i)"
  by (auto simp: dirent_type_for_mode_def file_type_def Let_def inode_consts)

section \<open>Witnesses\<close>

definition demo_entries :: "dir_ent list" where
  "demo_entries = [([0x2E], 36, 2), ([0x2E, 0x2E], 36, 2), ([0x61], 40, 1)]"

theorem encode_one_dir_block_lists_witness:
  "\<exists>block. encode_one_dir_block demo_entries 512 = Ok block \<and> length block = 512
     \<and> iter_block block = Ok (map ent_of demo_entries)"
  using encode_one_dir_block_lists [of demo_entries 512]
  by (simp add: demo_entries_def name_ok_def names_size_def slash_def)

theorem pack_dir_blocks_lists_witness:
  "\<exists>blocks. pack_dir_blocks 512 demo_entries = Ok blocks \<and> (\<forall>b\<in>set blocks. length b = 512)
     \<and> bindR (mapR iter_block blocks) (\<lambda>ess. Ok (concat ess)) = Ok (map ent_of demo_entries)"
  using pack_dir_blocks_lists [of demo_entries 512]
  by (simp add: demo_entries_def name_ok_def names_size_def slash_def)

lemma demo_block:
  "iter_block (dir_image demo_entries 472) = Ok (map ent_of demo_entries)"
  by (rule iter_dir_image) (simp_all add: demo_entries_def name_ok_def names_size_def slash_def)

theorem iter_block_names_witness:
  "\<exists>rest. drop 36 (dir_image demo_entries 472) = [0x2E, 0x2E, 0x2E, 0x61] @ rest"
  using iter_block_names [OF demo_block] by (simp add: demo_entries_def ent_of_def)

end
