(* ===== verification/Chunked.thy ===== *)
theory Chunked
  imports Inode
begin

text \<open>
  Chunk-based files (\<open>src/chunked.rs\<close>): the geometry an inode's \<open>i_u\<close> word declares and the lookup
  in the chunk map that follows the inode. \<open>encode_chunkmap\<close> and \<open>total_chunked_size\<close> are the
  writer's (\<open>src/mkfs.rs\<close>).
\<close>

definition EROFS_NULL_ADDR :: u32 where "EROFS_NULL_ADDR = 0xFFFFFFFF"
definition EROFS_CHUNK_FORMAT_BLKBITS_MASK :: u16 where "EROFS_CHUNK_FORMAT_BLKBITS_MASK = 0x1F"
definition EROFS_CHUNK_FORMAT_INDEXES :: u16 where "EROFS_CHUNK_FORMAT_INDEXES = 0x20"

record chunk_geometry =
  chunk_bits :: u8
  uses_indexes :: bool
  chunk_size :: u64
  n_chunks :: u64

definition checked_shl :: "u64 \<Rightarrow> u32 \<Rightarrow> u64 option" where
  "checked_shl a n = (if n < 64 then Some (push_bit (unat n) a) else None)"

definition chunk_info :: "superblock \<Rightarrow> inode \<Rightarrow> chunk_geometry result" where
  "chunk_info sb ino =
     (let flags = (ucast (i_raw_u ino AND 0xFFFF) :: u16);
          bits = (ucast (flags AND EROFS_CHUNK_FORMAT_BLKBITS_MASK) :: u8);
          indexed = (flags AND EROFS_CHUNK_FORMAT_INDEXES \<noteq> 0)
      in bindR (ok_or (checked_shl (block_size sb) (ucast bits)) (BadInode ''chunk_bits shift overflow''))
        (\<lambda>csize.
          if csize = 0 then Err (BadInode ''chunk_size is zero'')
          else Ok \<lparr>chunk_bits = bits, uses_indexes = indexed, chunk_size = csize,
                   n_chunks = div_ceil (i_size ino) csize\<rparr>))"

definition lookup_chunk_blkaddr ::
    "blockdev \<Rightarrow> superblock \<Rightarrow> inode \<Rightarrow> u64 \<Rightarrow> (u32 \<times> u16) result" where
  "lookup_chunk_blkaddr dev sb ino chunk_idx =
     bindR (chunk_info sb ino) (\<lambda>info.
       if n_chunks info \<le> chunk_idx then Err OutOfRange
       else
         let entry_size = (if uses_indexes info then 8 else 4);
             map_start = body_end ino sb;
             entry_off = map_start + chunk_idx * entry_size
         in if uses_indexes info then
              bindR (read_at dev entry_off 8) (\<lambda>buf.
              bindR (u16_at buf 2) (\<lambda>device_id.
              bindR (u32_at buf 4) (\<lambda>blkaddr. Ok (blkaddr, device_id))))
            else
              bindR (read_at dev entry_off 4) (\<lambda>buf. bindR (u32_at buf 0) (\<lambda>blkaddr. Ok (blkaddr, 0))))"

definition encode_chunkmap :: "bool \<Rightarrow> u32 list \<Rightarrow> bytes" where
  "encode_chunkmap use_indexed_format addrs =
     (if use_indexed_format then concat (map (\<lambda>a. to_le16 0 @ to_le16 0 @ to_le32 a) addrs)
      else concat (map to_le32 addrs))"

text \<open>The loop of \<open>total_chunked_size\<close>; a hole is \<open>None\<close>.\<close>

fun add_chunks :: "u64 \<Rightarrow> bytes option list \<Rightarrow> u64 \<Rightarrow> u64 result" where
  "add_chunks csize [] acc = Ok acc"
| "add_chunks csize (c # cs) acc =
     (let last = (cs = []) in
      case c of
        Some buf \<Rightarrow>
          if \<not> last \<and> word_of_nat (length buf) \<noteq> csize
          then Err (BadInode ''chunked file: non-final chunk must be exactly chunk_size bytes'')
          else if csize < word_of_nat (length buf)
          then Err (BadInode ''chunked file: chunk larger than chunk_size'')
          else add_chunks csize cs (acc + word_of_nat (length buf))
      | None \<Rightarrow> add_chunks csize cs (acc + csize))"

definition total_chunked_size :: "bytes option list \<Rightarrow> u8 \<Rightarrow> u64 \<Rightarrow> u64 result" where
  "total_chunked_size chunks bits bs =
     (if chunks = [] then Ok 0
      else let csize = push_bit (unat bits mod 64) bs in add_chunks csize chunks 0)"

section \<open>Geometry\<close>

lemma take_bit_less_word: "unat (take_bit n (x :: 'a::len word)) < 2 ^ n"
  by (simp add: unsigned_take_bit_eq)

lemma chunk_bits_less: "unat (ucast ((f :: u16) AND 0x1F) :: u8) < 32"
proof -
  have m: "f AND 0x1F = take_bit 5 f" by (simp add: take_bit_eq_mask mask_eq_exp_minus_1)
  have "unat (take_bit 5 f) < 32" using take_bit_less_word [of 5 f] by simp
  then show ?thesis by (simp add: m unsigned_ucast_eq take_bit_nat_eq_self)
qed

lemma unat_push_bit:
  assumes "unat a * 2 ^ n < 2 ^ LENGTH('a)"
  shows "unat (push_bit n (a :: 'a::len word)) = unat a * 2 ^ n"
  using assms by (simp add: unsigned_push_bit_eq push_bit_nat_def take_bit_nat_eq_self)

lemma block_shift_bound:
  assumes "sb_ok sb" "b < 32"
  shows "unat (block_size sb) * 2 ^ b \<le> 2 ^ 47"
proof -
  have "unat (block_size sb) * 2 ^ b \<le> 65536 * 2 ^ 31"
    using assms sb_ok_block_size(3) [OF assms(1)] by (intro mult_mono power_increasing) auto
  then show ?thesis by simp
qed

lemma chunk_info_eq:
  fixes ino :: inode
  assumes ok: "sb_ok sb"
  defines "f \<equiv> (ucast (i_raw_u ino AND 0xFFFF) :: u16)"
  defines "b \<equiv> (ucast (f AND 0x1F) :: u8)"
  defines "cs \<equiv> push_bit (unat b) (block_size sb)"
  shows "chunk_info sb ino =
      Ok \<lparr>chunk_bits = b, uses_indexes = (f AND 0x20 \<noteq> 0), chunk_size = cs, n_chunks = div_ceil (i_size ino) cs\<rparr>"
    and "unat cs = unat (block_size sb) * 2 ^ unat b" and "0 < unat cs" and "unat cs \<le> 2 ^ 47"
    and "unat b < 32"
proof -
  show b: "unat b < 32" unfolding b_def by (rule chunk_bits_less)
  show le: "unat cs \<le> 2 ^ 47" and cs: "unat cs = unat (block_size sb) * 2 ^ unat b"
    using block_shift_bound [OF ok b] by (simp_all add: cs_def unat_push_bit)
  show pos: "0 < unat cs" unfolding cs using sb_ok_block_size(2) [OF ok] by simp
  have "(ucast b :: u32) < 64" using b by (simp add: word_less_nat_alt unat_ucast_up)
  moreover have "cs \<noteq> 0" using pos by auto
  ultimately show "chunk_info sb ino =
      Ok \<lparr>chunk_bits = b, uses_indexes = (f AND 0x20 \<noteq> 0), chunk_size = cs, n_chunks = div_ceil (i_size ino) cs\<rparr>"
    by (simp add: chunk_info_def Let_def checked_shl_def EROFS_CHUNK_FORMAT_BLKBITS_MASK_def
        EROFS_CHUNK_FORMAT_INDEXES_def unat_ucast_up cs_def flip: f_def b_def)
qed

lemma less_div_ceil_iff:
  assumes "b \<noteq> 0"
  shows "(k < unat (div_ceil a b)) = (k * unat b < unat a)"
proof -
  let ?a = "unat a" and ?b = "unat b"
  have b: "0 < ?b" using assms by (simp add: unat_gt_0)
  have "(k < (?a + ?b - 1) div ?b) = (Suc k \<le> (?a + ?b - 1) div ?b)" by auto
  also have "\<dots> = (Suc k * ?b \<le> ?a + ?b - 1)" by (rule less_eq_div_iff_mult_less_eq [OF b])
  also have "\<dots> = (k * ?b < ?a)" using b by auto
  finally show ?thesis by (simp add: unat_div_ceil [OF assms])
qed

lemma chunk_bits_eq: "unat (ucast ((ucast (r AND 0xFFFF) :: u16) AND 0x1F) :: u8) = unat (r :: u32) mod 32"
proof -
  have m: "(0x1F :: u16) = mask 5" "(0xFFFF :: u32) = mask 16" by (simp_all add: mask_eq_exp_minus_1)
  have "unat (ucast ((ucast (r AND 0xFFFF) :: u16) AND 0x1F) :: u8) = take_bit 5 (unat r)"
    unfolding m by (rule bit_eqI) (auto simp: bit_simps)
  then show ?thesis by (simp add: take_bit_eq_mod)
qed

text \<open>The geometry of a chunked inode is always derived, whatever its \<open>i_u\<close> word holds: the chunk
  is the block shifted by the low five bits of that word, without overflow, and a chunk is counted
  exactly when its first byte lies inside the file.\<close>

theorem chunk_info_geometry:
  assumes "sb_ok sb"
  shows "\<exists>info. chunk_info sb ino = Ok info
     \<and> unat (chunk_bits info) = unat (i_raw_u ino) mod 32
     \<and> unat (chunk_size info) = unat (block_size sb) * 2 ^ unat (chunk_bits info)
     \<and> (\<forall>k. (k < n_chunks info) = (unat k * unat (chunk_size info) < unat (i_size ino)))"
proof -
  let ?f = "ucast (i_raw_u ino AND 0xFFFF) :: u16"
  let ?b = "ucast (?f AND 0x1F) :: u8"
  note eq = chunk_info_eq [OF assms, of ino]
  have "push_bit (unat ?b) (block_size sb) \<noteq> 0" using eq(3) by auto
  note less = less_div_ceil_iff [OF this]
  let ?info = "\<lparr>chunk_bits = ?b, uses_indexes = (?f AND 0x20 \<noteq> 0), chunk_size = push_bit (unat ?b) (block_size sb),
      n_chunks = div_ceil (i_size ino) (push_bit (unat ?b) (block_size sb))\<rparr>"
  have sel: "chunk_bits ?info = ?b" "chunk_size ?info = push_bit (unat ?b) (block_size sb)"
    "n_chunks ?info = div_ceil (i_size ino) (push_bit (unat ?b) (block_size sb))" by simp_all
  have "chunk_info sb ino = Ok ?info" by (rule eq(1))
  moreover have "unat (chunk_bits ?info) = unat (i_raw_u ino) mod 32"
    unfolding sel by (rule chunk_bits_eq)
  moreover have "unat (chunk_size ?info) = unat (block_size sb) * 2 ^ unat (chunk_bits ?info)"
    unfolding sel by (rule eq(2))
  moreover have "\<forall>k. (k < n_chunks ?info) = (unat k * unat (chunk_size ?info) < unat (i_size ino))"
    unfolding sel word_less_nat_alt less by blast
  ultimately show ?thesis by blast
qed

section \<open>The chunk map\<close>

interpretation chunk_index_tail: codec_pair 2 to_le16 le16 4 to_le32 le32 ..

interpretation chunk_index: codec_pair 2 to_le16 le16 "2 + 4"
  "\<lambda>(d, a). to_le16 d @ to_le32 a" "\<lambda>bs. (le16 (take 2 bs), le32 (drop 2 bs))" ..

lemma encode_chunkmap_indexed:
  "encode_chunkmap True addrs = concat (map (\<lambda>(x, y). to_le16 x @ (case y of (d, a) \<Rightarrow> to_le16 d @ to_le32 a))
     (map (\<lambda>a. (0, 0, a)) addrs))"
  by (simp add: encode_chunkmap_def comp_def)

lemma length_encode_chunkmap: "length (encode_chunkmap ix addrs) = length addrs * (if ix then 8 else 4)"
  using chunk_index.pair.length_concat_enc [of "map (\<lambda>a. (0, 0, a)) addrs"]
    le32_codec.length_concat_enc [of addrs]
  by (cases ix) (simp_all add: encode_chunkmap_indexed, simp add: encode_chunkmap_def)

lemma encode_chunkmap_entry:
  assumes "k < length addrs"
  shows "take 4 (drop (k * 4) (encode_chunkmap False addrs @ rest)) = to_le32 (addrs ! k)"
    and "take 8 (drop (k * 8) (encode_chunkmap True addrs @ rest)) = [0, 0, 0, 0] @ to_le32 (addrs ! k)"
proof -
  have "take 4 (drop (k * 4) (concat (map to_le32 addrs) @ rest)) = map to_le32 addrs ! k"
    by (rule take_drop_concat_fixed) (use assms in auto)
  then show "take 4 (drop (k * 4) (encode_chunkmap False addrs @ rest)) = to_le32 (addrs ! k)"
    by (simp only: encode_chunkmap_def if_False nth_map [OF assms])
  let ?e = "\<lambda>a. to_le16 0 @ to_le16 0 @ to_le32 a"
  have "take 8 (drop (k * 8) (concat (map ?e addrs) @ rest)) = map ?e addrs ! k"
    by (rule take_drop_concat_fixed) (use assms in auto)
  then show "take 8 (drop (k * 8) (encode_chunkmap True addrs @ rest)) = [0, 0, 0, 0] @ to_le32 (addrs ! k)"
    by (simp only: encode_chunkmap_def if_True nth_map [OF assms]) (simp add: to_le_zero)
qed

text \<open>C22: where the image holds, right after a chunked inode, the map the writer makes of some block
  addresses, every lookup inside both the map and the file returns the address stored for that chunk
  and the primary device, in either of the two map forms.\<close>

theorem lookup_written_chunk:
  assumes d: "serves d img" and ok: "sb_ok sb" and info: "chunk_info sb ino = Ok info"
    and img: "unat (body_end ino sb) \<le> length img"
    and map_here: "drop (unat (body_end ino sb)) img = encode_chunkmap (uses_indexes info) addrs @ rest"
    and k: "unat k < length addrs" "k < n_chunks info"
  shows "lookup_chunk_blkaddr d sb ino k = Ok (addrs ! unat k, 0)"
proof -
  let ?p = "body_end ino sb" and ?w = "if uses_indexes info then 8 else 4 :: u64"
  have w: "unat ?w = (if uses_indexes info then 8 else 4)" by simp
  have small: "length img < 2 ^ 64"
    using serves_size [OF d] unsigned_less [of "dev_size d", where 'a = nat] by simp
  have fits: "unat ?p + length addrs * unat ?w \<le> length img"
    using arg_cong [OF map_here, of length] img by (simp add: length_encode_chunkmap w split: if_splits)
  have kw: "(unat k + 1) * unat ?w \<le> length addrs * unat ?w" using k(1) by (intro mult_right_mono) auto
  have "unat k * unat ?w < 2 ^ 64" using kw fits small by simp
  then have m: "unat (k * ?w) = unat k * unat ?w" by (subst unat_mult_no_wrap) auto
  have "unat ?p + unat k * unat ?w < 2 ^ 64" using kw fits small by simp
  then have off: "unat (?p + k * ?w) = unat ?p + unat k * unat ?w"
    using m by (subst unat_add_no_wrap) auto
  have "unat (?p + k * ?w) + unat ?w \<le> length img" using kw fits unfolding off by simp
  from serves_read [OF d this]
  have read: "read_at d (?p + k * ?w) (unat ?w)
      = Ok (take (unat ?w) (drop (unat k * unat ?w) (encode_chunkmap (uses_indexes info) addrs @ rest)))"
    unfolding off add.commute [of "unat ?p"] drop_drop [symmetric] map_here .
  have "\<not> n_chunks info \<le> k" using k(2) by simp
  then show ?thesis
    using read encode_chunkmap_entry [OF k(1), of rest]
    by (cases "uses_indexes info") (simp_all add: lookup_chunk_blkaddr_def info Let_def le16_def)
qed

section \<open>The writer's size\<close>

lemma add_chunks_Ok:
  assumes "add_chunks cs xs s = Ok t" "xs \<noteq> []" "last xs \<noteq> Some []"
    and "\<forall>b. Some b \<in> set xs \<longrightarrow> length b < 2 ^ 64"
    and "0 < unat cs" and "unat s + length xs * unat cs < 2 ^ 64"
  shows "unat s + (length xs - 1) * unat cs < unat t \<and> unat t \<le> unat s + length xs * unat cs"
  using assms
proof (induction cs xs s rule: add_chunks.induct)
  case (2 cs c xs s)
  have mul: "length (c # xs) * unat cs = unat cs + length xs * unat cs" by simp
  show ?case
  proof (cases "xs = []")
    case True
    show ?thesis
    proof (cases c)
      case None
      then have "t = s + cs" using 2(3) True by simp
      then show ?thesis using True 2(7,8) by (simp add: unat_add_no_wrap)
    next
      case (Some b)
      have len: "length b < 2 ^ 64" using 2(6) Some by auto
      have b: "unat (word_of_nat (length b) :: u64) = length b" using len by (simp add: unat_of_nat_small)
      have "length b \<le> unat cs" and t: "t = s + word_of_nat (length b)"
        using 2(3) True Some b by (auto simp: word_less_nat_alt split: if_splits)
      moreover have "0 < length b" using 2(5) Some True by auto
      ultimately show ?thesis using True 2(8) b by (simp add: unat_add_no_wrap)
    qed
  next
    case False
    have ne: "last xs \<noteq> Some []" using 2(5) False by simp
    have s: "unat (s + cs) = unat s + unat cs"
      using 2(8) mul by (intro unat_add_no_wrap) simp
    have r: "add_chunks cs xs (s + cs) = Ok t"
      using 2(3) False by (auto split: option.splits if_splits)
    have "unat (s + cs) + (length xs - 1) * unat cs < unat t \<and> unat t \<le> unat (s + cs) + length xs * unat cs"
    proof (cases c)
      case None
      show ?thesis using 2(1) [OF refl None r False ne] 2(6,7,8) s mul by auto
    next
      case (Some b)
      then have "word_of_nat (length b) = cs" using 2(3) False by (auto split: if_splits)
      then show ?thesis using 2(2) [OF refl Some _ _ _ False ne] r False 2(3,6,7,8) s mul by (auto split: if_splits)
    qed
    moreover have "(length (c # xs) - 1) * unat cs = unat cs + (length xs - 1) * unat cs"
      using False by (cases xs) simp_all
    ultimately show ?thesis using s mul by simp
  qed
qed simp

text \<open>The two sides agree on the number of chunks. For a size the writer computes, with a final
  chunk that is not empty, the reader counts exactly the writer's chunks, so the chunk map the writer
  emits has one entry for each index the reader can ask for.\<close>

theorem total_chunked_size_n_chunks:
  assumes "sb_ok sb" and "total_chunked_size chunks bits (block_size sb) = Ok sz"
    and "chunks \<noteq> []" "last chunks \<noteq> Some []" and "\<forall>b. Some b \<in> set chunks \<longrightarrow> length b < 2 ^ 64"
    and "i_size ino = sz" and "unat (i_raw_u ino) mod 32 = unat bits"
    and "length chunks * (unat (block_size sb) * 2 ^ unat bits) < 2 ^ 64"
  shows "bindR (chunk_info sb ino) (\<lambda>info. Ok (unat (n_chunks info))) = Ok (length chunks)"
proof -
  note eq = chunk_info_eq [OF assms(1), of ino]
  let ?f = "ucast (i_raw_u ino AND 0xFFFF) :: u16"
  let ?b = "ucast (?f AND 0x1F) :: u8"
  let ?cs = "push_bit (unat ?b) (block_size sb)"
  have b: "unat ?b = unat bits" using assms(7) by (simp only: chunk_bits_eq)
  then have small: "unat bits mod 64 = unat bits" using eq(5) by simp
  have r: "add_chunks ?cs chunks 0 = Ok sz"
    using assms(2,3) small b by (simp add: total_chunked_size_def)
  have len: "unat (0 :: u64) + length chunks * unat ?cs < 2 ^ 64" using assms(8) b eq(2) by simp
  from add_chunks_Ok [OF r assms(3-5) eq(3) len] have
    lo: "(length chunks - 1) * unat ?cs < unat sz" and hi: "unat sz \<le> length chunks * unat ?cs" by auto
  have ne: "?cs \<noteq> 0" using eq(3) by auto
  have "length chunks - 1 < unat (div_ceil sz ?cs)" using lo by (simp only: less_div_ceil_iff [OF ne])
  moreover have "\<not> length chunks < unat (div_ceil sz ?cs)" using hi by (simp only: less_div_ceil_iff [OF ne] not_less)
  ultimately have "unat (div_ceil sz ?cs) = length chunks" by simp
  then show ?thesis by (simp add: eq(1) assms(6))
qed

section \<open>Witnesses\<close>

text \<open>A chunked inode of two one-block chunks, at NID 0 of an image whose metadata starts at block 1.\<close>

definition demo_chunked :: "u64 \<Rightarrow> u32 \<Rightarrow> inode" where
  "demo_chunked sz u = \<lparr>i_nid = 0,
     i_format = \<lparr>fmt_version = Compact, fmt_layout = ChunkBased, fmt_flags = 0\<rparr>,
     i_xattr_icount = 0, i_mode = 0x81A4, i_size = sz, i_nlink = 1, i_uid = 0, i_gid = 0,
     i_mtime = 0, i_mtime_nsec = 0, i_ino = 1, i_raw_u = u, i_on_disk_size = 32\<rparr>"

definition demo_sb512 :: superblock where
  "demo_sb512 = written_sb 0 9 1 8 1 0 0 0 0"

lemma demo_sb512_ok: "sb_ok demo_sb512"
  by (rule superblock_parse_ok, unfold demo_sb512_def, rule parse_header)
    (simp add: is_valid_blkszbits_def sb_consts)

lemma demo_sb512_size: "block_size demo_sb512 = 512"
  by (simp add: demo_sb512_def block_size_def written_sb_def push_bit_eq_mult)

theorem chunk_info_geometry_witness:
  "\<exists>info. chunk_info demo_sb512 (demo_chunked 600 0) = Ok info \<and> (0 < n_chunks info) \<and> (1 < n_chunks info)
     \<and> \<not> 2 < n_chunks info"
  using chunk_info_geometry [OF demo_sb512_ok, of "demo_chunked 600 0"]
  by (auto simp: demo_chunked_def demo_sb512_size)

lemma demo_chunk_info:
  "chunk_info demo_sb512 (demo_chunked 600 0x20) =
     Ok \<lparr>chunk_bits = 0, uses_indexes = True, chunk_size = 512, n_chunks = 2\<rparr>"
  by (simp add: chunk_info_def demo_chunked_def demo_sb512_size checked_shl_def div_ceil_def Let_def
      EROFS_CHUNK_FORMAT_BLKBITS_MASK_def EROFS_CHUNK_FORMAT_INDEXES_def)

lemma demo_body_end: "unat (body_end (demo_chunked sz u) demo_sb512) = 544"
proof -
  have "unat (block_size demo_sb512) = 512" by (simp add: demo_sb512_size)
  then show ?thesis
    by (simp add: body_end_def Let_def unat_sat_add unat_iloc demo_chunked_def unat_ucast_8_64)
      (simp add: demo_sb512_def written_sb_def)
qed

theorem lookup_written_chunk_witness:
  "lookup_chunk_blkaddr (mem_dev (replicate 544 0 @ encode_chunkmap True [7, 9])) demo_sb512
     (demo_chunked 600 0x20) 1 = Ok (9, 0)"
proof -
  have "lookup_chunk_blkaddr (mem_dev (replicate 544 0 @ encode_chunkmap True [7, 9])) demo_sb512
     (demo_chunked 600 0x20) 1 = Ok ([7, 9] ! unat (1 :: u64), 0)"
    by (rule lookup_written_chunk [OF serves_mem_dev demo_sb512_ok demo_chunk_info, where rest = "[]"])
      (simp_all add: demo_body_end length_encode_chunkmap)
  then show ?thesis by simp
qed

theorem total_chunked_size_n_chunks_witness:
  "bindR (chunk_info demo_sb512 (demo_chunked 513 0)) (\<lambda>info. Ok (unat (n_chunks info))) = Ok 2"
proof -
  have "bindR (chunk_info demo_sb512 (demo_chunked 513 0)) (\<lambda>info. Ok (unat (n_chunks info)))
      = Ok (length [None, Some [1 :: byte]])"
    by (rule total_chunked_size_n_chunks [where bits = 0 and sz = 513, OF demo_sb512_ok])
      (simp_all add: total_chunked_size_def demo_sb512_size, simp_all add: demo_chunked_def)
  then show ?thesis by (simp only: list.size numeral_2_eq_2 add_0_left add_Suc_right add_0_right)
qed

end
