(* ===== verification/Xattr.thy ===== *)
theory Xattr
  imports Inode
begin

text \<open>
  Extended attributes (\<open>src/xattr.rs\<close>): the inline area after an inode, the shared area, and the
  dictionary of custom name prefixes. \<open>encode_inline_xattrs\<close> and \<open>encode_prefixes\<close> are the writer's
  (\<open>src/mkfs.rs\<close>).

  The loop of the inline parser moves its cursor through 64-bit arithmetic, so it takes fuel; a buffer
  that fits in memory never spends it (\<open>inline_entries_enough\<close>).
\<close>

definition XATTR_HEADER_SIZE :: usize where "XATTR_HEADER_SIZE = 12"
definition XATTR_ENTRY_HEADER_SIZE :: usize where "XATTR_ENTRY_HEADER_SIZE = 4"
definition XATTR_ENTRY_ALIGN :: u64 where "XATTR_ENTRY_ALIGN = 4"
definition EROFS_XATTR_LONG_PREFIX :: u8 where "EROFS_XATTR_LONG_PREFIX = 0x80"
definition EROFS_XATTR_LONG_PREFIX_MASK :: u8 where "EROFS_XATTR_LONG_PREFIX_MASK = 0x7F"

lemmas xattr_consts = XATTR_HEADER_SIZE_def XATTR_ENTRY_HEADER_SIZE_def XATTR_ENTRY_ALIGN_def
  EROFS_XATTR_LONG_PREFIX_def EROFS_XATTR_LONG_PREFIX_MASK_def

record xattr_header =
  xh_name_len :: usize
  xh_name_index :: u8
  xh_value_size :: usize

definition xattr_header_parse :: "bytes \<Rightarrow> xattr_header result" where
  "xattr_header_parse buf =
     (if length buf < XATTR_ENTRY_HEADER_SIZE then Err (BadXattr ''xattr entry header truncated'')
      else bindR (idx buf 0) (\<lambda>name_len. bindR (idx buf 1) (\<lambda>name_index.
           bindR (u16_at buf 2) (\<lambda>value_size.
             Ok \<lparr>xh_name_len = unat name_len, xh_name_index = name_index,
                 xh_value_size = unat value_size\<rparr>))))"

definition total_len :: "xattr_header \<Rightarrow> usize result" where
  "total_len h =
     ok_or (case usize_checked_add XATTR_ENTRY_HEADER_SIZE (xh_name_len h) of
              None \<Rightarrow> None | Some p \<Rightarrow> usize_checked_add p (xh_value_size h))
       (BadXattr ''entry size overflow'')"

definition is_padding :: "xattr_header \<Rightarrow> bool" where
  "is_padding h = (xh_name_len h = 0 \<and> xh_value_size h = 0 \<and> xh_name_index h = 0)"

record xattr_entry =
  x_name_index :: u8
  x_name :: bytes
  x_value :: bytes

record xattr_long_prefix =
  base_index :: u8
  infix_bytes :: bytes

definition align_to_xattr_entry :: "u64 \<Rightarrow> u64" where
  "align_to_xattr_entry n = next_multiple_of n XATTR_ENTRY_ALIGN"

fun inline_entries :: "nat \<Rightarrow> bytes \<Rightarrow> usize \<Rightarrow> xattr_entry list \<Rightarrow> xattr_entry list result" where
  "inline_entries 0 buf cur out = (if cur < length buf then Overrun else Ok out)"
| "inline_entries (Suc fuel) buf cur out =
     (let entries_end = length buf in
      if \<not> cur < entries_end then Ok out
      else if entries_end - cur < XATTR_ENTRY_HEADER_SIZE then Ok out
      else bindR (slice buf cur (length buf)) (\<lambda>here.
        bindR (xattr_header_parse here) (\<lambda>header.
        let name_len = xh_name_len header; name_index = xh_name_index header in
        if is_padding header then Ok out
        else
          let entry_body_start = cur + XATTR_ENTRY_HEADER_SIZE in
          bindR (total_len header) (\<lambda>tl.
          bindR (ok_or (usize_checked_add cur tl) (BadXattr ''entry size overflow'')) (\<lambda>entry_body_end.
            if entries_end < entry_body_end then Err (BadXattr ''entry runs past inline area'')
            else bindR (slice buf entry_body_start (entry_body_start + name_len)) (\<lambda>name.
                 bindR (slice buf (entry_body_start + name_len) entry_body_end) (\<lambda>value.
                   inline_entries fuel buf
                     (unat (align_to_xattr_entry (word_of_nat entry_body_end)))
                     (out @ [\<lparr>x_name_index = name_index, x_name = name, x_value = value\<rparr>]))))))))"

definition parse_inline_xattrs :: "bytes \<Rightarrow> (u32 list \<times> xattr_entry list) result" where
  "parse_inline_xattrs buf =
     (if buf = [] then Ok ([], [])
      else if length buf < XATTR_HEADER_SIZE then Err (BadXattr ''buffer shorter than xattr header'')
      else bindR (idx buf 4) (\<lambda>count.
        let shared_count = unat count; shared_bytes = shared_count * 4 in
        bindR (ok_or (usize_checked_add XATTR_HEADER_SIZE shared_bytes) (BadXattr ''shared count overflow''))
          (\<lambda>shared_end.
          if length buf < shared_end then Err (BadXattr ''shared indices extend past inline area'')
          else bindR (mapR (\<lambda>i. u32_at buf (XATTR_HEADER_SIZE + i * 4)) [0..<shared_count]) (\<lambda>shared.
               bindR (inline_entries (length buf) buf shared_end []) (\<lambda>out. Ok (shared, out))))))"

definition parse_shared_entry :: "bytes \<Rightarrow> xattr_entry result" where
  "parse_shared_entry buf =
     bindR (xattr_header_parse buf) (\<lambda>header.
     let name_len = xh_name_len header; name_index = xh_name_index header;
         body_start = XATTR_ENTRY_HEADER_SIZE in
     bindR (total_len header) (\<lambda>body_end.
       if length buf < body_end then Err (BadXattr ''shared entry runs past read'')
       else bindR (slice buf body_start (body_start + name_len)) (\<lambda>name.
            bindR (slice buf (body_start + name_len) body_end) (\<lambda>value.
              Ok \<lparr>x_name_index = name_index, x_name = name, x_value = value\<rparr>))))"

text \<open>A byte string literal \<open>b"..."\<close>.\<close>

definition str_bytes :: "string \<Rightarrow> bytes" where
  "str_bytes s = map (\<lambda>c. word_of_nat (of_char c)) s"

definition resolve_full_name :: "u8 \<Rightarrow> bytes \<Rightarrow> bytes" where
  "resolve_full_name name_index name =
     (let prefix = (if name_index = 0 then []
        else if name_index = 1 then str_bytes ''user.''
        else if name_index = 2 then str_bytes ''system.posix_acl_access''
        else if name_index = 3 then str_bytes ''system.posix_acl_default''
        else if name_index = 4 then str_bytes ''trusted.''
        else if name_index = 5 then str_bytes ''lustre.''
        else if name_index = 6 then str_bytes ''security.''
        else [])
      in prefix @ name)"

definition resolve_with_dict :: "u8 \<Rightarrow> bytes \<Rightarrow> xattr_long_prefix list \<Rightarrow> bytes result" where
  "resolve_with_dict name_index name dict =
     (if name_index AND EROFS_XATTR_LONG_PREFIX = 0 then Ok (resolve_full_name name_index name)
      else
        let dict_idx = unat (name_index AND EROFS_XATTR_LONG_PREFIX_MASK) in
        bindR (ok_or (get_at dict dict_idx) (BadXattr ''custom xattr prefix index out of range'')) (\<lambda>entry.
          let ns_prefix = resolve_full_name (base_index entry) []
          in Ok (ns_prefix @ infix_bytes entry @ name)))"

definition read_inline_xattrs ::
    "blockdev \<Rightarrow> superblock \<Rightarrow> inode \<Rightarrow> (u32 list \<times> xattr_entry list) result" where
  "read_inline_xattrs dev sb ino =
     (if i_xattr_icount ino = 0 then Ok ([], [])
      else
        let start = iloc sb (i_nid ino) + ucast (i_on_disk_size ino);
            stop = body_end ino sb
        in if stop < start then Err (BadXattr ''body_end before xattr start'')
           else let len = unat (stop - start) in
             bindR (read_at dev start len) (\<lambda>buf. parse_inline_xattrs buf))"

text \<open>One turn of the loop over the shared indices: the header first, to learn the length.\<close>

definition read_shared_at :: "blockdev \<Rightarrow> u64 \<Rightarrow> u32 \<Rightarrow> xattr_entry result" where
  "read_shared_at dev base i =
     bindR (ok_or (checked_mul (ucast i) 4) (BadXattr ''shared xattr offset overflow'')) (\<lambda>rel.
     bindR (ok_or (checked_add base rel) (BadXattr ''shared xattr offset overflow'')) (\<lambda>off.
     bindR (read_at dev off XATTR_ENTRY_HEADER_SIZE) (\<lambda>raw.
     bindR (xattr_header_parse raw) (\<lambda>h.
     bindR (total_len h) (\<lambda>total.
     bindR (read_at dev off total) (\<lambda>buf. parse_shared_entry buf))))))"

definition read_shared_xattrs :: "blockdev \<Rightarrow> superblock \<Rightarrow> u32 list \<Rightarrow> xattr_entry list result" where
  "read_shared_xattrs dev sb shared_indices =
     (if shared_indices = [] then Ok []
      else let base = ucast (sb_xattr_blkaddr sb) * block_size sb
           in mapR (read_shared_at dev base) shared_indices)"

definition read_all_xattrs :: "blockdev \<Rightarrow> superblock \<Rightarrow> inode \<Rightarrow> xattr_entry list result" where
  "read_all_xattrs dev sb ino =
     bindR (read_inline_xattrs dev sb ino) (\<lambda>(shared_indices, entries).
     bindR (read_shared_xattrs dev sb shared_indices) (\<lambda>shared_entries.
       Ok (entries @ shared_entries)))"

fun read_prefixes :: "blockdev \<Rightarrow> nat \<Rightarrow> u64 \<Rightarrow> xattr_long_prefix list result" where
  "read_prefixes dev 0 cursor = Ok []"
| "read_prefixes dev (Suc n) cursor =
     bindR (read_at dev cursor 2) (\<lambda>size_buf.
     let size = unat (le16 size_buf) in
     if size = 0 then Err (BadXattr ''xattr prefix entry size zero'')
     else bindR (read_at dev (cursor + 2) size) (\<lambda>body.
       bindR (idx body 0) (\<lambda>base.
       bindR (slice body 1 (length body)) (\<lambda>infx.
       let consumed = 2 + word_of_nat size; cursor = align_to_xattr_entry (cursor + consumed) in
       bindR (read_prefixes dev n cursor) (\<lambda>out.
         Ok (\<lparr>base_index = base, infix_bytes = infx\<rparr> # out))))))"

definition read_xattr_prefix_dictionary :: "blockdev \<Rightarrow> superblock \<Rightarrow> xattr_long_prefix list result" where
  "read_xattr_prefix_dictionary dev sb =
     (if sb_xattr_prefix_count sb = 0 then Ok []
      else read_prefixes dev (unat (sb_xattr_prefix_count sb)) (ucast (sb_xattr_prefix_start sb) * 4))"

section \<open>The writer's side\<close>

lemma len_mod_align: "((word_of_nat n :: u64) mod XATTR_ENTRY_ALIGN = 0) = (n mod 4 = 0)"
proof -
  have "unat ((word_of_nat n :: u64) mod 4) = n mod 4"
    by (simp add: unat_mod unat_of_nat mod_mod_cancel)
  then show ?thesis by (simp add: XATTR_ENTRY_ALIGN_def unat_eq_zero [symmetric])
qed

lemma pad_decreases:
  assumes "n mod 4 \<noteq> 0"
  shows "(4 - Suc n mod 4) mod 4 < (4 - n mod 4) mod (4 :: nat)"
proof -
  have "n mod 4 = 1 \<or> n mod 4 = 2 \<or> n mod 4 = 3"
    using assms mod_less_divisor [of 4 n] by (simp only: zero_less_numeral simp_thms) linarith
  then show ?thesis by (elim disjE) (simp_all only: mod_Suc, simp_all)
qed

text \<open>\<open>while !(buf.len() as u64).is_multiple_of(XATTR_ENTRY_ALIGN) { buf.push(0) }\<close>.\<close>

function pad_to_align :: "bytes \<Rightarrow> bytes" where
  "pad_to_align buf =
     (if (word_of_nat (length buf) :: u64) mod XATTR_ENTRY_ALIGN = 0 then buf else pad_to_align (buf @ [0]))"
  by pat_completeness auto
termination
  by (relation "measure (\<lambda>buf. (4 - length buf mod 4) mod 4)")
    (simp_all only: wf_measure in_measure len_mod_align length_append list.size add_0 add_Suc_right
      pad_decreases add_0_right simp_thms)

declare pad_to_align.simps [simp del]

fun push_xattrs :: "xattr_entry list \<Rightarrow> bytes \<Rightarrow> bytes result" where
  "push_xattrs [] buf = Ok buf"
| "push_xattrs (x # xs) buf =
     (if 255 < length (x_name x) then Err (BadXattr ''xattr name length > 255'')
      else if 65535 < length (x_value x) then Err (BadXattr ''xattr value length > 65535'')
      else push_xattrs xs (pad_to_align
             (buf @ [word_of_nat (length (x_name x)), x_name_index x]
                @ to_le16 (word_of_nat (length (x_value x))) @ x_name x @ x_value x)))"

definition encode_inline_xattrs :: "xattr_entry list \<Rightarrow> (bytes \<times> u16) result" where
  "encode_inline_xattrs xattrs =
     (if xattrs = [] then Ok ([], 0)
      else bindR (put_at (replicate XATTR_HEADER_SIZE 0) 4 [0]) (\<lambda>buf.
        bindR (push_xattrs xattrs buf) (\<lambda>buf.
        let icount = (length buf - XATTR_HEADER_SIZE) div 4 + 1 in
        if 65535 < icount then Err (BadXattr ''xattr icount overflow'')
        else Ok (buf, word_of_nat icount))))"

fun push_prefixes :: "xattr_long_prefix list \<Rightarrow> bytes \<Rightarrow> bytes result" where
  "push_prefixes [] buf = Ok buf"
| "push_prefixes (p # ps) buf =
     bindR (ok_or (usize_checked_add 1 (length (infix_bytes p))) (BadXattr ''xattr prefix entry size overflow usize''))
       (\<lambda>size.
       if 65535 < size then Err (BadXattr ''xattr prefix entry size > 65535'')
       else push_prefixes ps (pad_to_align (buf @ to_le16 (word_of_nat size) @ [base_index p] @ infix_bytes p)))"

definition encode_prefixes :: "xattr_long_prefix list \<Rightarrow> (bytes \<times> u8) result" where
  "encode_prefixes prefixes =
     (if prefixes = [] then Ok ([], 0)
      else if 255 < length prefixes then Err (BadXattr ''xattr_prefixes count > 255'')
      else bindR (push_prefixes prefixes []) (\<lambda>buf. Ok (buf, word_of_nat (length prefixes))))"

section \<open>Alignment and headers\<close>

definition padn :: "nat \<Rightarrow> nat" where "padn n = (4 - n mod 4) mod 4"

lemma padn_aligned: "(n + padn n) mod 4 = 0"
proof -
  have "n mod 4 = 0 \<or> n mod 4 = 1 \<or> n mod 4 = 2 \<or> n mod 4 = 3"
    using mod_less_divisor [of 4 n] by (simp only: zero_less_numeral simp_thms) linarith
  moreover have "(n + padn n) mod 4 = (n mod 4 + padn n) mod 4" by (simp only: mod_add_left_eq)
  ultimately show ?thesis by (elim disjE) (simp_all add: padn_def)
qed

lemma padn_less: "padn n < 4"
  by (simp add: padn_def)

lemma padn_0: "n mod 4 = 0 \<Longrightarrow> padn n = 0"
  by (simp add: padn_def)

lemma padn_Suc: "n mod 4 \<noteq> 0 \<Longrightarrow> padn n = Suc (padn (Suc n))"
proof -
  assume "n mod 4 \<noteq> 0"
  then have "n mod 4 = 1 \<or> n mod 4 = 2 \<or> n mod 4 = 3"
    using mod_less_divisor [of 4 n] by (simp only: zero_less_numeral simp_thms) linarith
  then show ?thesis unfolding padn_def by (elim disjE) (simp_all only: mod_Suc, simp_all)
qed

lemma padn_add: "a mod 4 = 0 \<Longrightarrow> padn (a + b) = padn b"
  by (metis add_0 mod_add_left_eq padn_def)

lemma pad_to_align_eq: "pad_to_align buf = buf @ replicate (padn (length buf)) 0"
proof (induction buf rule: pad_to_align.induct)
  case (1 buf)
  show ?case
  proof (cases "length buf mod 4 = 0")
    case True
    then show ?thesis by (subst pad_to_align.simps) (simp add: len_mod_align padn_0)
  next
    case False
    then show ?thesis using 1 by (subst pad_to_align.simps) (simp add: len_mod_align padn_Suc)
  qed
qed

lemma unat_align:
  assumes "n < 2 ^ 63"
  shows "unat (align_to_xattr_entry (word_of_nat n)) = n + padn n"
proof -
  let ?w = "word_of_nat n :: u64"
  have w: "unat ?w = n" using assms by (simp add: unat_of_nat_small)
  have m: "unat (?w mod 4) = n mod 4" using w by (simp add: unat_mod)
  show ?thesis
  proof (cases "n mod 4 = 0")
    case True
    then have "?w mod 4 = 0" using m by (simp add: unat_eq_zero)
    then show ?thesis using True w
      by (simp add: align_to_xattr_entry_def next_multiple_of_def XATTR_ENTRY_ALIGN_def padn_0)
  next
    case False
    have nz: "?w mod 4 \<noteq> 0"
    proof
      assume "?w mod 4 = 0"
      with m have "n mod 4 = 0" by (simp only: unat_0)
      with False show "False" ..
    qed
    have "unat (4 - ?w mod 4) = 4 - n mod 4"
      using m by (subst unat_sub_no_wrap) (simp_all add: word_le_nat_alt)
    moreover have "4 - n mod 4 = padn n" using False by (simp add: padn_def)
    ultimately have "unat (?w + (4 - ?w mod 4)) = n + padn n"
      using assms w padn_less [of n] by (subst unat_add_no_wrap) simp_all
    then show ?thesis using nz
      by (simp add: align_to_xattr_entry_def next_multiple_of_def XATTR_ENTRY_ALIGN_def)
  qed
qed

lemma xattr_header_parse_eq:
  "xattr_header_parse buf =
     (if length buf < 4 then Err (BadXattr ''xattr entry header truncated'')
      else Ok \<lparr>xh_name_len = unat (buf ! 0), xh_name_index = buf ! 1,
               xh_value_size = unat (le16 (take 2 (drop 2 buf)))\<rparr>)"
  by (auto simp: xattr_header_parse_def xattr_consts idx_def)

lemma byte_bound: "unat (b :: byte) < 256"
  using unsigned_less [of b, where 'a = nat] by simp

lemma u16_bound: "unat (b :: u16) < 65536"
  using unsigned_less [of b, where 'a = nat] by simp

lemma total_len_eq:
  "xattr_header_parse buf = Ok h \<Longrightarrow>
     total_len h = Ok (4 + xh_name_len h + xh_value_size h) \<and> xh_name_len h < 256 \<and> xh_value_size h < 65536"
  using byte_bound [of "buf ! 0"] u16_bound [of "le16 (take 2 (drop 2 buf))"]
  by (auto simp: xattr_header_parse_eq total_len_def usize_checked_add_def xattr_consts split: if_splits)

section \<open>The inline parser always returns\<close>

text \<open>One turn of the loop on a buffer that fits in memory.\<close>

lemma inline_entries_Suc:
  assumes len: "length buf < 2 ^ 63"
  shows "inline_entries (Suc fuel) buf cur out =
    (if length buf < cur + 4 then Ok out
     else let nl = unat (buf ! cur); ix = buf ! (cur + 1); vs = unat (le16 (take 2 (drop (cur + 2) buf)));
              e = cur + 4 + nl + vs in
       if nl = 0 \<and> vs = 0 \<and> ix = 0 then Ok out
       else if length buf < e then Err (BadXattr ''entry runs past inline area'')
       else inline_entries fuel buf (e + padn e)
         (out @ [\<lparr>x_name_index = ix, x_name = take nl (drop (cur + 4) buf),
                   x_value = take vs (drop (cur + 4 + nl) buf)\<rparr>]))"
proof (cases "length buf < cur + 4")
  case True
  then show ?thesis by (auto simp: Let_def xattr_consts)
next
  case False
  define h where "h = \<lparr>xh_name_len = unat (buf ! cur), xh_name_index = buf ! (cur + 1),
    xh_value_size = unat (le16 (take 2 (drop (cur + 2) buf)))\<rparr>"
  have p: "xattr_header_parse (drop cur buf) = Ok h"
    using False by (simp add: xattr_header_parse_eq h_def add.commute)
  note tl = total_len_eq [OF p]
  define e where "e = cur + (4 + xh_name_len h + xh_value_size h)"
  have ue: "usize_checked_add cur (4 + xh_name_len h + xh_value_size h) = Some e"
    using False len tl by (simp add: usize_checked_add_def e_def)
  have cur: "cur < length buf" "\<not> length buf - cur < 4" "slice buf cur (length buf) = Ok (drop cur buf)"
    using False by simp_all
  have "inline_entries (Suc fuel) buf cur out =
      (if is_padding h then Ok out
       else if length buf < e then Err (BadXattr ''entry runs past inline area'')
       else inline_entries fuel buf (e + padn e)
         (out @ [\<lparr>x_name_index = xh_name_index h, x_name = take (xh_name_len h) (drop (cur + 4) buf),
                   x_value = take (xh_value_size h) (drop (cur + 4 + xh_name_len h) buf)\<rparr>]))"
  proof (cases "length buf < e")
    case True
    then show ?thesis using cur p tl ue by (simp add: Let_def xattr_consts)
  next
    case le: False
    have al: "unat (align_to_xattr_entry (word_of_nat e)) = e + padn e"
      using len le by (intro unat_align) simp
    have "cur + 4 + xh_name_len h \<le> e" "e - (cur + 4 + xh_name_len h) = xh_value_size h"
      by (simp_all add: e_def)
    then show ?thesis using cur p tl ue al le by (simp add: Let_def xattr_consts)
  qed
  then show ?thesis using False by (simp add: is_padding_def Let_def) (simp add: h_def e_def add.assoc)
qed

lemma inline_entries_returns:
  assumes "length buf < 2 ^ 63"
  shows "length buf - cur \<le> fuel \<Longrightarrow> returns (inline_entries fuel buf cur out)"
  by (induction fuel arbitrary: cur out)
    (auto simp: inline_entries_Suc [OF assms] Let_def simp del: inline_entries.simps(2))

lemma u32_index_Ok:
  "12 + n * 4 \<le> length buf \<Longrightarrow> mapR (\<lambda>i. u32_at buf (XATTR_HEADER_SIZE + i * 4)) [0..<n]
     = Ok (map (\<lambda>i. le32 (take 4 (drop (12 + i * 4) buf))) [0..<n])"
proof (rule mapR_all_Ok)
  fix i assume a: "12 + n * 4 \<le> length buf" "i \<in> set [0..<n]"
  then have "i + 1 \<le> n" by simp
  then have "(i + 1) * 4 \<le> n * 4" by (rule mult_right_mono) simp
  then show "u32_at buf (XATTR_HEADER_SIZE + i * 4) = Ok (le32 (take 4 (drop (12 + i * 4) buf)))"
    using a by (simp add: xattr_consts)
qed

lemma parse_inline_xattrs_eq:
  "parse_inline_xattrs buf =
     (if buf = [] then Ok ([], [])
      else if length buf < 12 then Err (BadXattr ''buffer shorter than xattr header'')
      else let n = unat (buf ! 4) in
        if length buf < 12 + n * 4 then Err (BadXattr ''shared indices extend past inline area'')
        else bindR (inline_entries (length buf) buf (12 + n * 4) [])
          (\<lambda>out. Ok (map (\<lambda>i. le32 (take 4 (drop (12 + i * 4) buf))) [0..<n], out)))"
  using byte_bound [of "buf ! 4"]
  by (simp add: parse_inline_xattrs_def usize_checked_add_def u32_index_Ok Let_def)
    (simp add: xattr_consts)

lemma returns_parse_inline [returns_intros]:
  "length buf < 2 ^ 63 \<Longrightarrow> returns (parse_inline_xattrs buf)"
  unfolding parse_inline_xattrs_eq Let_def
  by (intro returns_if returns_bindR inline_entries_returns) simp_all

section \<open>What the parser yields\<close>

definition entry_size :: "xattr_entry \<Rightarrow> nat" where
  "entry_size x = 4 + length (x_name x) + length (x_value x)"

definition entry_ok :: "xattr_entry \<Rightarrow> bool" where
  "entry_ok x \<longleftrightarrow> length (x_name x) < 256 \<and> length (x_value x) < 65536
     \<and> \<not> (x_name x = [] \<and> x_value x = [] \<and> x_name_index x = 0)"

lemma inline_entries_yield:
  assumes "length buf < 2 ^ 63"
  shows "inline_entries fuel buf cur out = Ok r \<Longrightarrow> cur \<le> length buf \<Longrightarrow>
    \<exists>es. r = out @ es \<and> (\<forall>x\<in>set es. entry_ok x) \<and> cur + sum_list (map entry_size es) \<le> length buf"
proof (induction fuel arbitrary: cur out)
  case 0
  then show ?case by (intro exI [of _ "[]"]) (auto split: if_splits)
next
  case (Suc fuel)
  define nl ix vs where d: "nl = unat (buf ! cur)" "ix = buf ! (cur + 1)"
    "vs = unat (le16 (take 2 (drop (cur + 2) buf)))"
  let ?e = "cur + 4 + nl + vs"
  let ?x = "\<lparr>x_name_index = ix, x_name = take nl (drop (cur + 4) buf),
    x_value = take vs (drop (cur + 4 + nl) buf)\<rparr>"
  note step = Suc.prems(1) [unfolded inline_entries_Suc [OF assms] Let_def, folded d]
  show ?case
  proof (cases "length buf < cur + 4 \<or> nl = 0 \<and> vs = 0 \<and> ix = 0")
    case True
    then show ?thesis using step Suc.prems(2) by (intro exI [of _ "[]"]) (auto split: if_splits)
  next
    case False
    then have le: "?e \<le> length buf" and rest: "inline_entries fuel buf (?e + padn ?e) (out @ [?x]) = Ok r"
      using step by (auto split: if_splits)
    have lens: "length (x_name ?x) = nl" "length (x_value ?x) = vs" using le by simp_all
    have ok: "entry_ok ?x" using False byte_bound [of "buf ! cur"] u16_bound [of "le16 (take 2 (drop (cur + 2) buf))"]
      lens by (auto simp: entry_ok_def d)
    have sz: "cur + entry_size ?x = ?e" unfolding entry_size_def lens by simp
    show ?thesis
    proof (cases "?e + padn ?e \<le> length buf")
      case True
      from Suc.IH [OF rest True] obtain es where "r = (out @ [?x]) @ es" "\<forall>x\<in>set es. entry_ok x"
        "?e + padn ?e + sum_list (map entry_size es) \<le> length buf" by blast
      then show ?thesis using ok sz by (intro exI [of _ "?x # es"]) simp
    next
      case F: False
      then have "r = out @ [?x]" using rest by (cases fuel) (auto simp: inline_entries_Suc [OF assms] simp del: inline_entries.simps(2))
      then show ?thesis using ok sz le by (intro exI [of _ "[?x]"]) simp
    qed
  qed
qed

text \<open>C23: parsing an inode's inline area of any bytes returns; when it succeeds, the header, the
  shared indices and the entries it lists all fit in the area side by side, and no entry has a length
  its header cannot hold or is the all-zero padding header. So the memory a parse hands out is bounded
  by the area it read.\<close>

theorem parse_inline_xattrs_bounded:
  assumes "length buf < 2 ^ 63"
  shows "(\<exists>e. parse_inline_xattrs buf = Err e) \<or>
    (\<exists>shared es. parse_inline_xattrs buf = Ok (shared, es) \<and> (\<forall>x\<in>set es. entry_ok x)
       \<and> (buf = [] \<or> 12 + 4 * length shared + sum_list (map entry_size es) \<le> length buf))"
proof (cases "parse_inline_xattrs buf")
  case (Ok p)
  obtain shared es where p: "p = (shared, es)" by (cases p)
  show ?thesis
  proof (cases "buf = []")
    case True
    then show ?thesis by (simp add: parse_inline_xattrs_eq)
  next
    case False
    then obtain n where n: "12 + n * 4 \<le> length buf" "length shared = n"
      and r: "inline_entries (length buf) buf (12 + n * 4) [] = Ok es"
      using Ok by (auto simp: p parse_inline_xattrs_eq Let_def split: if_splits)
    from inline_entries_yield [OF assms r n(1)] show ?thesis using n Ok by (auto simp: p)
  qed
qed (use returns_parse_inline [OF assms] in simp_all)

section \<open>The writer's area reads back\<close>

definition entry_bytes :: "xattr_entry \<Rightarrow> bytes" where
  "entry_bytes x = [word_of_nat (length (x_name x)), x_name_index x]
     @ to_le16 (word_of_nat (length (x_value x))) @ x_name x @ x_value x"

definition padded_entry :: "xattr_entry \<Rightarrow> bytes" where
  "padded_entry x = entry_bytes x @ replicate (padn (entry_size x)) 0"

lemma length_entry_bytes: "length (entry_bytes x) = entry_size x"
  by (simp add: entry_bytes_def entry_size_def)

lemma length_padded_entry: "length (padded_entry x) = entry_size x + padn (entry_size x)"
  by (simp add: padded_entry_def length_entry_bytes)

lemma push_xattrs_eq:
  "length buf mod 4 = 0 \<Longrightarrow> \<forall>x\<in>set xs. entry_ok x \<Longrightarrow>
     push_xattrs xs buf = Ok (buf @ concat (map padded_entry xs))"
proof (induction xs arbitrary: buf)
  case (Cons x xs)
  have len: "length (buf @ entry_bytes x) = length buf + entry_size x" by (simp add: length_entry_bytes)
  have pad: "pad_to_align (buf @ entry_bytes x) = buf @ padded_entry x"
    unfolding pad_to_align_eq len padn_add [OF Cons.prems(1)] by (simp add: padded_entry_def)
  have "length (buf @ padded_entry x) mod 4 = 0"
    using Cons.prems(1) padn_aligned [of "entry_size x"]
    by (simp only: length_append length_padded_entry mod_add_left_eq [symmetric, of "length buf"] add_0)
  then show ?case using Cons pad by (simp add: entry_ok_def entry_bytes_def)
qed simp

lemma entry_bytes_take:
  assumes "entry_ok x" "drop cur buf = entry_bytes x @ rest" "cur \<le> length buf"
  shows "unat (buf ! cur) = length (x_name x)" "buf ! (cur + 1) = x_name_index x"
    "unat (le16 (take 2 (drop (cur + 2) buf))) = length (x_value x)"
    "take (length (x_name x)) (drop (cur + 4) buf) = x_name x"
    "take (length (x_value x)) (drop (cur + 4 + length (x_name x)) buf) = x_value x"
    "cur + entry_size x + length rest = length buf"
proof -
  let ?d = "drop cur buf"
  have d: "?d = word_of_nat (length (x_name x)) # x_name_index x # to_le16 (word_of_nat (length (x_value x)))
      @ x_name x @ x_value x @ rest" by (simp add: assms(2) entry_bytes_def)
  have len: "length ?d = entry_size x + length rest" by (simp only: assms(2) length_append length_entry_bytes)
  then have l4: "cur + 4 \<le> length buf" by (simp add: entry_size_def)
  have "buf ! cur = ?d ! 0" "buf ! (cur + 1) = ?d ! 1" using l4 by simp_all
  then show "unat (buf ! cur) = length (x_name x)" "buf ! (cur + 1) = x_name_index x"
    unfolding d using assms(1) by (simp_all add: entry_ok_def unat_of_nat_small)
  have "drop (cur + 2) buf = drop 2 ?d" "drop (cur + 4) buf = drop 4 ?d"
    "drop (cur + 4 + length (x_name x)) buf = drop (length (x_name x)) (drop 4 ?d)"
    by (simp_all only: drop_drop add.commute add.left_commute add.assoc)
  then show "unat (le16 (take 2 (drop (cur + 2) buf))) = length (x_value x)"
    "take (length (x_name x)) (drop (cur + 4) buf) = x_name x"
    "take (length (x_value x)) (drop (cur + 4 + length (x_name x)) buf) = x_value x"
    unfolding d using assms(1) by (simp_all add: entry_ok_def unat_of_nat_small)
  show "cur + entry_size x + length rest = length buf" using len assms(3) by simp
qed

lemma inline_entries_written:
  assumes len: "length buf < 2 ^ 63"
  shows "drop cur buf = concat (map padded_entry xs) \<Longrightarrow> cur \<le> length buf \<Longrightarrow> cur mod 4 = 0 \<Longrightarrow>
     length xs \<le> fuel \<Longrightarrow> \<forall>x\<in>set xs. entry_ok x \<Longrightarrow> inline_entries fuel buf cur out = Ok (out @ xs)"
proof (induction fuel arbitrary: xs cur out)
  case 0
  then show ?case by simp
next
  case (Suc fuel)
  show ?case
  proof (cases xs)
    case Nil
    then show ?thesis using Suc.prems by (simp add: inline_entries_Suc [OF len] del: inline_entries.simps(2))
  next
    case (Cons x ys)
    let ?rest = "replicate (padn (entry_size x)) 0 @ concat (map padded_entry ys)"
    let ?e = "cur + entry_size x"
    have x: "entry_ok x" using Suc.prems(5) Cons by simp
    have d: "drop cur buf = entry_bytes x @ ?rest" using Suc.prems(1) Cons padded_entry_def [of x] by simp
    note t = entry_bytes_take [OF x d Suc.prems(2)]
    have pe: "padn ?e = padn (entry_size x)" by (rule padn_add [OF Suc.prems(3)])
    have e: "cur + 4 + length (x_name x) + length (x_value x) = ?e" by (simp add: entry_size_def)
    have nz: "\<not> (length (x_name x) = 0 \<and> length (x_value x) = 0 \<and> x_name_index x = 0)"
      using x by (simp add: entry_ok_def)
    have le: "\<not> length buf < cur + 4" "\<not> length buf < ?e" using t(6) by (simp_all add: entry_size_def)
    have eta: "\<lparr>x_name_index = x_name_index x, x_name = x_name x, x_value = x_value x\<rparr> = x" by simp
    have "inline_entries (Suc fuel) buf cur out = inline_entries fuel buf (?e + padn ?e) (out @ [x])"
      unfolding inline_entries_Suc [OF len] Let_def t(1-5) e eta using nz le by (simp only: if_False)
    also have "\<dots> = Ok ((out @ [x]) @ ys)"
    proof (rule Suc.IH)
      have "drop (?e + padn ?e) buf = drop (length (entry_bytes x) + padn ?e) (drop cur buf)"
        by (simp add: length_entry_bytes add.commute add.left_commute add.assoc)
      then show "drop (?e + padn ?e) buf = concat (map padded_entry ys)"
        unfolding d pe by simp
      show "?e + padn ?e \<le> length buf" using t(6) pe by simp
      show "(?e + padn ?e) mod 4 = 0" by (rule padn_aligned)
    qed (use Suc.prems Cons in simp_all)
    finally show ?thesis by (simp add: Cons)
  qed
qed

lemma length_entries_le: "length xs \<le> length (concat (map padded_entry xs))"
  by (induction xs) (simp_all add: length_padded_entry entry_size_def)

lemma padded_entries_mod: "length (concat (map padded_entry xs)) mod 4 = 0"
proof (induction xs)
  case (Cons x xs)
  then show ?case using padn_aligned [of "entry_size x"]
    by (simp only: list.map concat.simps length_append length_padded_entry mod_add_eq [symmetric, of "_ + _" _ "4 :: nat"])
qed simp

lemma encode_inline_xattrs_parses:
  assumes "encode_inline_xattrs xs = Ok (buf, icount)" and "\<forall>x\<in>set xs. entry_ok x"
    and "i_xattr_icount ino = icount"
  shows "length buf = xattr_area ino \<and> parse_inline_xattrs buf = Ok ([], xs) \<and> (xs = [] \<longleftrightarrow> icount = 0)"
proof (cases "xs = []")
  case True
  then show ?thesis using assms by (simp add: encode_inline_xattrs_def xattr_area_def parse_inline_xattrs_eq)
next
  case False
  let ?H = "replicate 12 (0 :: byte)" and ?E = "concat (map padded_entry xs)"
  have h: "put_at ?H 4 [0] = Ok ?H" by (simp add: put_def numeral_eq_Suc)
  have p: "push_xattrs xs ?H = Ok (?H @ ?E)" using assms(2) by (intro push_xattrs_eq) simp_all
  have "bindR (put_at ?H 4 [0]) (\<lambda>buf. bindR (push_xattrs xs buf) (\<lambda>buf.
      let icount = (length buf - 12) div 4 + 1 in
      if 65535 < icount then Err (BadXattr ''xattr icount overflow'') else Ok (buf, word_of_nat icount)))
      = Ok (buf, icount)"
    using assms(1) False by (simp only: encode_inline_xattrs_def if_False XATTR_HEADER_SIZE_def)
  then have buf: "buf = ?H @ ?E" and ic: "icount = word_of_nat (length ?E div 4 + 1)" and small: "length ?E div 4 + 1 \<le> 65535"
    unfolding h by (auto simp: p Let_def simp del: replicate.simps of_nat_add split: if_splits)
  have m: "length ?E div 4 * 4 = length ?E" 
    using div_mult_mod_eq [of "length ?E" 4] padded_entries_mod [of xs] by (simp only: add_0_right)
  have u: "unat icount = length ?E div 4 + 1" unfolding ic using small by (intro unat_of_nat_small) simp
  then have "icount \<noteq> 0" by auto
  then have len: "length buf = xattr_area ino" using u m by (simp add: buf xattr_area_def assms(3))
  have b63: "length buf < 2 ^ 63" using small m by (simp add: buf)
  have z: "buf ! 4 = 0" "buf \<noteq> []" by (simp_all add: buf nth_append)
  have "inline_entries (length buf) buf 12 [] = Ok ([] @ xs)"
    using length_entries_le [of xs] assms(2) by (intro inline_entries_written [OF b63]) (simp_all add: buf)
  then have "parse_inline_xattrs buf = Ok ([], xs)"
    using z by (simp add: parse_inline_xattrs_eq) (simp add: buf)
  with len \<open>icount \<noteq> 0\<close> False show ?thesis by simp
qed

lemma length_img_less: "serves d img \<Longrightarrow> length img < 2 ^ 64"
  using serves_size [of d img] unsigned_less [of "dev_size d", where 'a = nat] by simp

text \<open>When the image holds, right after an inode's body, the inline area the writer makes for some
  attributes, and the inode stores the slot count the writer computed, reading the inode's attributes
  gives exactly these attributes in order: the size the reader derives from the slot count is the size
  of the area, and no shared attribute is added.\<close>

theorem read_all_xattrs_written:
  assumes d: "serves d img" and enc: "encode_inline_xattrs xs = Ok (buf, icount)"
    and ok: "\<forall>x\<in>set xs. entry_ok x" and ic: "i_xattr_icount ino = icount"
    and here: "unat (iloc sb (i_nid ino)) + unat (i_on_disk_size ino) + length buf \<le> length img"
    and img: "take (length buf) (drop (unat (iloc sb (i_nid ino)) + unat (i_on_disk_size ino)) img) = buf"
  shows "read_all_xattrs d sb ino = Ok xs"
proof -
  note w = encode_inline_xattrs_parses [OF enc ok ic]
  show ?thesis
  proof (cases "icount = 0")
    case True
    then show ?thesis using w ic by (simp add: read_all_xattrs_def read_inline_xattrs_def read_shared_xattrs_def)
  next
    case False
    let ?i = "iloc sb (i_nid ino)" and ?o = "i_on_disk_size ino"
    note lt = length_img_less [OF d]
    have s: "unat (?i + ucast ?o) = unat ?i + unat ?o"
      using here lt by (subst unat_add_no_wrap) (simp_all add: unat_ucast_8_64)
    have xs: "unat (12 + (ucast icount - 1) * 4 :: u64) = length buf"
      using w False by (simp only: ic unat_xattr_size xattr_area_def if_False)
    have m: "unat (sat_add ?i (ucast ?o)) = unat ?i + unat ?o"
      using here lt by (simp add: unat_sat_add unat_ucast_8_64)
    have e: "unat (body_end ino sb) = unat ?i + unat ?o + length buf"
      using here lt False ic xs m unfolding body_end_def Let_def unat_sat_add by simp
    have le: "\<not> body_end ino sb < ?i + ucast ?o" using s e by (simp add: word_less_nat_alt)
    have len: "unat (body_end ino sb - (?i + ucast ?o)) = length buf"
      using s e by (subst unat_sub_no_wrap) (simp_all add: word_le_nat_alt)
    have "read_at d (?i + ucast ?o) (length buf) = Ok buf"
      using serves_read [OF d, of "?i + ucast ?o" "length buf"] here img s by simp
    then have "read_inline_xattrs d sb ino = Ok ([], xs)"
      unfolding read_inline_xattrs_def Let_def len using le False ic w by simp
    then show ?thesis by (simp add: read_all_xattrs_def read_shared_xattrs_def)
  qed
qed

section \<open>Shared attributes\<close>

lemma parse_shared_entry_bytes:
  assumes "entry_ok x"
  shows "parse_shared_entry (entry_bytes x) = Ok x"
proof -
  note t = entry_bytes_take [OF assms, of 0 "entry_bytes x" "[]", unfolded drop_0 add_0 append_Nil2, OF refl le0]
  have len: "length (entry_bytes x) = 4 + length (x_name x) + length (x_value x)"
    by (simp add: length_entry_bytes entry_size_def)
  define h where "h = \<lparr>xh_name_len = length (x_name x), xh_name_index = x_name_index x, xh_value_size = length (x_value x)\<rparr>"
  have p: "xattr_header_parse (entry_bytes x) = Ok h"
    using len t by (simp add: xattr_header_parse_eq h_def)
  have h: "xh_name_len h = length (x_name x)" "xh_name_index h = x_name_index x" "xh_value_size h = length (x_value x)"
    by (simp_all add: h_def)
  show ?thesis
    using total_len_eq [OF p] t len by (simp add: parse_shared_entry_def p Let_def xattr_consts h)
qed

text \<open>A shared index names the entry stored at that multiple of four bytes from the start of the
  shared area. Where the image holds an entry at the place each index of a list names, reading the list
  gives those entries in order, whatever surrounds them.\<close>

theorem read_shared_xattrs_stored:
  assumes d: "serves d img" and ok: "sb_ok sb" and n: "length idxs = length xs"
    and at: "\<forall>k < length xs. entry_ok (xs ! k) \<and>
      (let off = unat (sb_xattr_blkaddr sb) * unat (block_size sb) + unat (idxs ! k) * 4 in
        off + entry_size (xs ! k) \<le> length img
        \<and> take (entry_size (xs ! k)) (drop off img) = entry_bytes (xs ! k))"
  shows "read_shared_xattrs d sb idxs = Ok xs"
proof (cases "idxs = []")
  case True
  then show ?thesis using n by (simp add: read_shared_xattrs_def)
next
  case False
  let ?base = "ucast (sb_xattr_blkaddr sb) * block_size sb :: u64"
  have "unat (sb_xattr_blkaddr sb) * unat (block_size sb) \<le> 2 ^ 32 * 65536"
    using unsigned_less [of "sb_xattr_blkaddr sb", where 'a = nat] sb_ok_block_size(3) [OF ok]
    by (intro mult_mono) simp_all
  then have base: "unat ?base = unat (sb_xattr_blkaddr sb) * unat (block_size sb)"
    by (subst unat_mult_no_wrap) (simp_all add: unat_ucast_up)
  have one: "read_shared_at d ?base (idxs ! k) = Ok (xs ! k)" if k: "k < length xs" for k
  proof -
    let ?x = "xs ! k" and ?i = "ucast (idxs ! k) :: u64"
    let ?off = "unat ?base + unat (idxs ! k) * 4"
    have x: "entry_ok ?x" and fits: "?off + entry_size ?x \<le> length img"
      and bytes: "take (entry_size ?x) (drop ?off img) = entry_bytes ?x"
      using at k by (simp_all only: base Let_def)
    have i: "unat (?i * 4) = unat (idxs ! k) * 4" "checked_mul ?i 4 = Some (?i * 4)"
      using unsigned_less [of "idxs ! k", where 'a = nat]
      by (subst unat_mult_no_wrap, simp_all add: unat_ucast_up checked_mul_def)
    have lt: "?off < 2 ^ 64" using fits length_img_less [OF d] by (simp add: entry_size_def)
    then have off: "checked_add ?base (?i * 4) = Some (?base + ?i * 4)" "unat (?base + ?i * 4) = ?off"
      using i by (simp add: checked_add_def, subst unat_add_no_wrap, simp_all)
    have full: "read_at d (?base + ?i * 4) (entry_size ?x) = Ok (entry_bytes ?x)"
      using serves_read [OF d, of "?base + ?i * 4" "entry_size ?x"] fits bytes off by simp
    have head: "read_at d (?base + ?i * 4) 4 = Ok (take 4 (entry_bytes ?x))"
      using serves_read [OF d, of "?base + ?i * 4" 4] fits bytes [symmetric] off
      by (simp add: entry_size_def min_def)
    note t = entry_bytes_take [OF x, of 0 "entry_bytes ?x" "[]", unfolded drop_0 add_0 append_Nil2, OF refl le0]
    define h where "h = \<lparr>xh_name_len = length (x_name ?x), xh_name_index = x_name_index ?x, xh_value_size = length (x_value ?x)\<rparr>"
    have p: "xattr_header_parse (take 4 (entry_bytes ?x)) = Ok h"
      using t by (simp add: xattr_header_parse_eq h_def length_entry_bytes entry_size_def drop_take)
    have tl: "total_len h = Ok (entry_size ?x)"
      using total_len_eq [OF p] by (simp add: h_def entry_size_def)
    show ?thesis
      using head full p tl parse_shared_entry_bytes [OF x]
      by (simp add: read_shared_at_def i off XATTR_ENTRY_HEADER_SIZE_def)
  qed
  have "mapR (read_shared_at d ?base) idxs = Ok xs"
    unfolding mapR_eq_Ok list_all2_conv_all_nth using n one by simp
  then show ?thesis using False by (simp add: read_shared_xattrs_def)
qed

section \<open>The prefix dictionary\<close>

definition prefix_ok :: "xattr_long_prefix \<Rightarrow> bool" where
  "prefix_ok p \<longleftrightarrow> length (infix_bytes p) < 65535"

definition prefix_bytes :: "xattr_long_prefix \<Rightarrow> bytes" where
  "prefix_bytes p = to_le16 (word_of_nat (1 + length (infix_bytes p))) @ [base_index p] @ infix_bytes p"

definition padded_prefix :: "xattr_long_prefix \<Rightarrow> bytes" where
  "padded_prefix p = prefix_bytes p @ replicate (padn (3 + length (infix_bytes p))) 0"

lemma length_padded_prefix:
  "length (padded_prefix p) = 3 + length (infix_bytes p) + padn (3 + length (infix_bytes p))"
  by (simp add: padded_prefix_def prefix_bytes_def)

lemma push_prefixes_eq:
  "length buf mod 4 = 0 \<Longrightarrow> push_prefixes ps buf = Ok out \<Longrightarrow>
     out = buf @ concat (map padded_prefix ps) \<and> (\<forall>p\<in>set ps. prefix_ok p)"
proof (induction ps arbitrary: buf)
  case (Cons p ps)
  let ?n = "3 + length (infix_bytes p)"
  have ok: "prefix_ok p" and rest: "push_prefixes ps (pad_to_align (buf @ prefix_bytes p)) = Ok out"
    using Cons.prems(2) by (auto simp: prefix_ok_def prefix_bytes_def usize_checked_add_def split: if_splits)
  have len: "length (buf @ prefix_bytes p) = length buf + ?n" by (simp add: prefix_bytes_def)
  have pad: "pad_to_align (buf @ prefix_bytes p) = buf @ padded_prefix p"
    unfolding pad_to_align_eq len padn_add [OF Cons.prems(1)] by (simp add: padded_prefix_def)
  have "length (buf @ padded_prefix p) mod 4 = 0"
    using Cons.prems(1) padn_aligned [of ?n]
    by (simp only: length_append length_padded_prefix mod_add_left_eq [symmetric, of "length buf"] add_0)
  from Cons.IH [OF this] rest show ?case using ok by (simp add: pad)
qed simp

lemma read_prefixes_stored:
  assumes d: "serves d img" and small: "length img < 2 ^ 63"
  shows "unat cur \<le> length img \<Longrightarrow> unat cur mod 4 = 0 \<Longrightarrow>
    drop (unat cur) img = concat (map padded_prefix ps) @ rest \<Longrightarrow> \<forall>p\<in>set ps. prefix_ok p \<Longrightarrow>
    read_prefixes d (length ps) cur = Ok ps"
proof (induction ps arbitrary: cur)
  case (Cons p ps)
  let ?n = "length (infix_bytes p)" and ?c = "unat cur"
  have ok: "?n < 65535" using Cons.prems(4) by (simp add: prefix_ok_def)
  have img: "drop ?c img = to_le16 (word_of_nat (1 + ?n)) @ [base_index p] @ infix_bytes p
      @ replicate (padn (3 + ?n)) 0 @ concat (map padded_prefix ps) @ rest"
    using Cons.prems(3) padded_prefix_def [of p] prefix_bytes_def [of p] by simp
  have fits: "?c + 3 + ?n + padn (3 + ?n) \<le> length img"
    using arg_cong [OF img, of length] Cons.prems(1) by simp
  have r1: "read_at d cur 2 = Ok (to_le16 (word_of_nat (1 + ?n)))"
    using serves_read [OF d, of cur 2] fits by (simp add: img del: of_nat_add)
  have sz: "unat (word_of_nat (1 + ?n) :: u16) = 1 + ?n" using ok by (intro unat_of_nat_small) simp
  have c2: "unat (cur + 2) = ?c + 2" using fits small by (subst unat_add_no_wrap) simp_all
  have "drop (?c + 2) img = drop 2 (drop ?c img)" by (simp add: add.commute)
  then have r2: "read_at d (cur + 2) (1 + ?n) = Ok (base_index p # infix_bytes p)"
    using serves_read [OF d, of "cur + 2" "1 + ?n"] fits by (simp add: img c2 del: of_nat_add drop_drop)
  have n64: "unat (word_of_nat (1 + ?n) :: u64) = 1 + ?n" using ok by (intro unat_of_nat_small) simp
  have sum: "unat (cur + (2 + w)) = ?c + 3 + ?n" if w: "unat w = 1 + ?n" for w :: u64
  proof -
    have "unat (2 + w) = 3 + ?n" using w ok by (subst unat_add_no_wrap) simp_all
    then show ?thesis using fits small by (subst unat_add_no_wrap) simp_all
  qed
  note sum [OF n64]
  then have E: "cur + (2 + word_of_nat (1 + ?n)) = word_of_nat (?c + 3 + ?n)"
    using fits small by (simp add: word_unat_eq_iff unat_of_nat_small del: of_nat_add)
  have P: "padn (?c + 3 + ?n) = padn (3 + ?n)"
    using padn_add [OF Cons.prems(2), of "3 + ?n"] by (simp add: add.assoc)
  have "?c + 3 + ?n < 2 ^ 63" using fits small by simp
  from unat_align [OF this] have al: "unat (align_to_xattr_entry (cur + (2 + word_of_nat (1 + ?n)))) = ?c + 3 + ?n + padn (3 + ?n)"
    by (simp only: E P)
  let ?cur = "align_to_xattr_entry (cur + (2 + word_of_nat (1 + ?n)))"
  have "read_prefixes d (length ps) ?cur = Ok ps"
  proof (rule Cons.IH)
    show "unat ?cur \<le> length img" using fits al by simp
    have "(?c + (3 + ?n + padn (3 + ?n))) mod 4 = 0"
      using Cons.prems(2) padn_aligned [of "3 + ?n"] by (simp only: mod_add_left_eq [symmetric, of ?c] add_0)
    then show "unat ?cur mod 4 = 0" by (simp only: al add.assoc)
    have "drop (?c + (3 + ?n + padn (3 + ?n))) img = drop (3 + ?n + padn (3 + ?n)) (drop ?c img)"
      by (simp only: drop_drop add.commute)
    also have "\<dots> = concat (map padded_prefix ps) @ rest"
      using length_padded_prefix [of p] by (simp only: Cons.prems(3) list.map concat.simps append_assoc) simp
    finally show "drop (unat ?cur) img = concat (map padded_prefix ps) @ rest" by (simp only: al add.assoc)
  qed (use Cons.prems in simp)
  then show ?case
    using r1 r2 sz by (simp add: Let_def del: of_nat_add of_nat_Suc)
qed simp

text \<open>The prefix dictionary the writer emits, placed at any multiple of four bytes the superblock
  can name, reads back as the prefixes it was made from, with the count the writer reports: both sides
  align each entry the same way.\<close>

theorem prefix_dictionary_roundtrip:
  assumes "serves d img" "length img < 2 ^ 63" and enc: "encode_prefixes ps = Ok (buf, count)"
    and sb: "sb_xattr_prefix_count sb = count" "unat (sb_xattr_prefix_start sb) * 4 \<le> length img"
    and img: "drop (unat (sb_xattr_prefix_start sb) * 4) img = buf @ rest"
  shows "read_xattr_prefix_dictionary d sb = Ok ps"
proof (cases "ps = []")
  case True
  then show ?thesis using enc sb(1) by (simp add: encode_prefixes_def read_xattr_prefix_dictionary_def)
next
  case False
  then have push: "push_prefixes ps [] = Ok buf" and c: "count = word_of_nat (length ps)" "length ps < 256"
    using enc by (auto simp: encode_prefixes_def split: if_splits)
  have n: "unat count = length ps" using c by (simp add: unat_of_nat_small)
  then have "count \<noteq> 0" using False by auto
  have base: "unat (ucast (sb_xattr_prefix_start sb) * 4 :: u64) = unat (sb_xattr_prefix_start sb) * 4"
    using unsigned_less [of "sb_xattr_prefix_start sb", where 'a = nat]
    by (subst unat_mult_no_wrap) (simp_all add: unat_ucast_up)
  from push_prefixes_eq [of "[]", OF _ push] have "buf = concat (map padded_prefix ps)" "\<forall>p\<in>set ps. prefix_ok p"
    by simp_all
  then have "read_prefixes d (length ps) (ucast (sb_xattr_prefix_start sb) * 4) = Ok ps"
    using sb(2) img by (intro read_prefixes_stored [OF assms(1,2), of _ _ rest]) (simp_all add: base)
  then show ?thesis using \<open>count \<noteq> 0\<close> n by (simp add: read_xattr_prefix_dictionary_def sb(1))
qed

section \<open>Names\<close>

text \<open>The full name of an attribute. A plain namespace index never fails and never looks at the
  dictionary; an index with the long-prefix bit resolves exactly when its low seven bits lie inside the
  dictionary, to the namespace prefix, the infix and the stored name joined in that order, which is the
  name of the same attribute stored under the base index with the infix written out.\<close>

theorem resolve_with_dict_joins:
  "resolve_with_dict ix name dict =
     (if ix < 0x80 then Ok (resolve_full_name ix name)
      else if length dict \<le> unat ix - 0x80 then Err (BadXattr ''custom xattr prefix index out of range'')
      else let e = dict ! (unat ix - 0x80) in Ok (resolve_full_name (base_index e) (infix_bytes e @ name)))"
proof -
  have low: "unat (ix AND 0x7F) = unat ix mod 128"
  proof -
    have m: "ix AND 0x7F = take_bit 7 ix" by (simp add: take_bit_eq_mask mask_eq_exp_minus_1)
    show ?thesis unfolding m unsigned_take_bit_eq by (simp add: take_bit_eq_mod)
  qed
  have "(ix AND 0x80 = 0) = (take_bit 7 ix = ix)"
  proof -
    have top: "n = 7" if "n < LENGTH(8)" "\<not> n < 7" for n using that by simp
    have "(ix AND 0x80 = 0) = (\<not> bit ix 7)" using and_exp_eq_0_iff_not_bit [of ix 7] by simp
    also have "\<dots> = (take_bit 7 ix = ix)"
    proof
      show "\<not> bit ix 7 \<Longrightarrow> take_bit 7 ix = ix"
        by (rule bit_word_eqI) (metis bit_take_bit_iff top)
      assume "take_bit 7 ix = ix"
      then have "bit ix 7 = bit (take_bit 7 ix) 7" by simp
      then show "\<not> bit ix 7" by (simp add: bit_take_bit_iff)
    qed
    finally show ?thesis .
  qed
  also have "\<dots> = (unat ix mod 128 = unat ix)"
    by (simp only: word_unat_eq_iff unsigned_take_bit_eq) (simp add: take_bit_eq_mod)
  also have "\<dots> = (unat ix < 128)" using byte_bound [of ix] by (auto simp: mod_less)
  finally have hi: "(ix AND 0x80 = 0) = (ix < 0x80)" by (simp add: word_less_nat_alt)
  have "unat ix mod 128 = unat ix - 128" if "\<not> ix < 0x80"
    using that byte_bound [of ix] by (simp add: word_less_nat_alt le_mod_geq)
  then show ?thesis
    by (auto simp: resolve_with_dict_def hi low xattr_consts get_at_def Let_def resolve_full_name_def)
qed

section \<open>Witnesses\<close>

definition demo_xattrs :: "xattr_entry list" where
  "demo_xattrs = [\<lparr>x_name_index = 1, x_name = [0x61], x_value = [7, 8]\<rparr>]"

definition demo_area :: bytes where
  "demo_area = replicate 12 0 @ [1, 1, 2, 0, 0x61, 7, 8, 0]"

lemma demo_xattrs_ok: "\<forall>x\<in>set demo_xattrs. entry_ok x"
  by (simp add: demo_xattrs_def entry_ok_def)

lemma to_le16_eqI: "le16 bs = x \<Longrightarrow> length bs = 2 \<Longrightarrow> to_le16 x = bs"
  by (auto simp: le16_codec.enc_dec)

lemma demo_entry: "padded_entry \<lparr>x_name_index = 1, x_name = [0x61], x_value = [7, 8]\<rparr> = [1, 1, 2, 0, 0x61, 7, 8, 0]"
proof -
  have "to_le16 2 = [2, 0]" by (rule to_le16_eqI) (simp_all add: le16_def)
  moreover have "padn 7 = Suc 0" by (simp add: padn_def)
  ultimately show ?thesis by (simp add: padded_entry_def entry_bytes_def entry_size_def)
qed

lemma demo_encode: "encode_inline_xattrs demo_xattrs = Ok (demo_area, 3)"
proof -
  have z: "put_at (replicate 12 0) 4 [0] = Ok (replicate 12 (0 :: byte))" by (simp add: put_def numeral_eq_Suc)
  have "push_xattrs demo_xattrs (replicate 12 0) = Ok demo_area"
    using push_xattrs_eq [OF _ demo_xattrs_ok, of "replicate 12 0"]
    by (simp add: demo_xattrs_def demo_entry demo_area_def)
  moreover have "length demo_area = 20" by (simp add: demo_area_def)
  moreover have "demo_xattrs \<noteq> []" by (simp add: demo_xattrs_def)
  ultimately show ?thesis
    by (simp only: encode_inline_xattrs_def if_False z bindR_simps XATTR_HEADER_SIZE_def) (simp add: Let_def)
qed

theorem parse_inline_xattrs_bounded_witness:
  "12 + sum_list (map entry_size demo_xattrs) \<le> length demo_area"
proof -
  have p: "parse_inline_xattrs demo_area = Ok ([], demo_xattrs)"
    using encode_inline_xattrs_parses [OF demo_encode demo_xattrs_ok,
        of "undefined\<lparr>i_xattr_icount := 3\<rparr>"] by simp
  have "length demo_area < 2 ^ 63" "demo_area \<noteq> []" by (simp_all add: demo_area_def)
  then show ?thesis using parse_inline_xattrs_bounded [of demo_area] by (auto simp: p)
qed

definition demo_xino :: inode where
  "demo_xino = \<lparr>i_nid = 2, i_format = \<lparr>fmt_version = Compact, fmt_layout = FlatPlain, fmt_flags = 0\<rparr>,
     i_xattr_icount = 3, i_mode = 0x81A4, i_size = 0, i_nlink = 1, i_uid = 0, i_gid = 0,
     i_mtime = 0, i_mtime_nsec = 0, i_ino = 1, i_raw_u = 0, i_on_disk_size = 32\<rparr>"

lemma demo_iloc: "unat (iloc (demo_sb\<lparr>sb_meta_blkaddr := 0\<rparr>) 2) = 64"
  by (simp add: unat_iloc)

theorem read_all_xattrs_written_witness:
  "read_all_xattrs (mem_dev (replicate 96 0 @ demo_area)) (demo_sb\<lparr>sb_meta_blkaddr := 0\<rparr>) demo_xino = Ok demo_xattrs"
  by (rule read_all_xattrs_written [OF serves_mem_dev demo_encode demo_xattrs_ok])
    (simp_all add: demo_xino_def demo_iloc, simp_all add: demo_area_def)

theorem read_shared_xattrs_stored_witness:
  "read_shared_xattrs (mem_dev (replicate 4 0 @ entry_bytes (demo_xattrs ! 0))) (demo_sb\<lparr>sb_xattr_blkaddr := 0\<rparr>) [1]
     = Ok demo_xattrs"
proof (rule read_shared_xattrs_stored [OF serves_mem_dev])
  show "sb_ok (demo_sb\<lparr>sb_xattr_blkaddr := 0\<rparr>)"
    using superblock_parse_ok [OF demo_parse] by (simp add: sb_ok_def)
qed (use demo_xattrs_ok in \<open>simp_all add: demo_xattrs_def length_entry_bytes\<close>, simp add: entry_size_def)

definition demo_prefixes :: "xattr_long_prefix list" where
  "demo_prefixes = [\<lparr>base_index = 1, infix_bytes = [0x64, 0x2E]\<rparr>]"

lemma demo_encode_prefixes: "encode_prefixes demo_prefixes = Ok ([3, 0, 1, 0x64, 0x2E, 0, 0, 0], 1)"
proof -
  have "to_le16 3 = [3, 0]" by (rule to_le16_eqI) (simp_all add: le16_def)
  moreover have "replicate 3 0 = [0, 0, 0 :: byte]" by (simp add: numeral_3_eq_3)
  ultimately show ?thesis
    by (simp add: encode_prefixes_def demo_prefixes_def usize_checked_add_def pad_to_align_eq padn_def)
qed

theorem prefix_dictionary_roundtrip_witness:
  "read_xattr_prefix_dictionary (mem_dev ([0, 0, 0, 0, 3, 0, 1, 0x64, 0x2E, 0, 0, 0]))
     (demo_sb\<lparr>sb_xattr_prefix_count := 1, sb_xattr_prefix_start := 1\<rparr>) = Ok demo_prefixes"
  by (rule prefix_dictionary_roundtrip [OF serves_mem_dev _ demo_encode_prefixes, where rest = "[]"]) simp_all

end
