(* ===== verification/Decompress.thy ===== *)
theory Decompress
  imports Chunked
begin

text \<open>
  The codec layer (\<open>src/decompress.rs\<close>): dispatch on the algorithm, removal of the zero pad, the
  bounds on what a codec may produce, and the crate's own partial LZ4 decoder. The codecs themselves
  (\<open>lz4_flex\<close>, \<open>lzma_rs\<close>, \<open>flate2\<close>, \<open>ruzstd\<close>) are other crates, so they are the fields of a record
  that every definition takes. A decoder that fills a caller's buffer of \<open>n\<close> bytes is a function of
  its input and \<open>n\<close>; one that writes to a sink gives the chunks it writes in turn and whether it then
  finishes without an error of its own; the streaming decoder has a state. The output buffer is read
  by a caller only after success, so a call returns the bytes it filled the buffer with.
\<close>

datatype algorithm = Lz4 | Lzma | Deflate | Zstd

record 'z codecs =
  lz4_block :: "bytes \<Rightarrow> usize \<Rightarrow> bytes option"
  lzma_writes :: "bytes \<Rightarrow> bytes list \<times> bool"
  lzma_sized :: "bytes \<Rightarrow> usize \<Rightarrow> string + bytes"
  inflate :: "bytes \<Rightarrow> usize \<Rightarrow> bytes option"
  zstd_new :: "bytes \<Rightarrow> 'z option"
  zstd_read :: "'z \<Rightarrow> usize \<Rightarrow> (bytes \<times> 'z) option"

definition algorithm_from_id :: "u8 \<Rightarrow> algorithm result" where
  "algorithm_from_id n =
     (if n = 0 then Ok Lz4 else if n = 1 then Ok Lzma else if n = 2 then Ok Deflate
      else if n = 3 then Ok Zstd else Err (UnsupportedLayout n))"

definition strip_leading_pad :: "bytes \<Rightarrow> string \<Rightarrow> bytes result" where
  "strip_leading_pad input codec =
     (let pad = length (takeWhile (\<lambda>b. b = 0) input) in
      bindR (slice input pad (length input)) (\<lambda>frame.
        if frame = [] then Err (BadInode (
          if codec = ''LZ4'' then ''LZ4 input is all zeros''
          else if codec = ''LZMA'' then ''LZMA input is all zeros''
          else if codec = ''ZSTD'' then ''ZSTD input is all zeros''
          else ''DEFLATE input is all zeros''))
        else Ok frame))"

section \<open>Partial LZ4 decoding\<close>

definition LZ4_FAILED :: error where "LZ4_FAILED = BadInode ''LZ4 decompression failed''"

function lz4_length_ext :: "bytes \<Rightarrow> usize \<Rightarrow> usize \<Rightarrow> (usize \<times> usize) result" where
  "lz4_length_ext input ip len =
     (case get_at input ip of
        None \<Rightarrow> Err LZ4_FAILED
      | Some b \<Rightarrow> bindR (ok_or (usize_checked_add len (unat b)) LZ4_FAILED) (\<lambda>len.
          if b \<noteq> 255 then Ok (len, ip + 1) else lz4_length_ext input (ip + 1) len))"
  by pat_completeness auto
termination
  by (relation "measure (\<lambda>(input, ip, len). length input - ip)") (auto simp: get_at_def split: if_splits)

declare lz4_length_ext.simps [simp del]

text \<open>\<open>length(input, &mut ip, len)\<close>: the length and the cursor it leaves.\<close>

definition lz4_length :: "bytes \<Rightarrow> usize \<Rightarrow> usize \<Rightarrow> (usize \<times> usize) result" where
  "lz4_length input ip len = (if len \<noteq> 15 then Ok (len, ip) else lz4_length_ext input ip len)"

lemma lz4_length_ext_mono: "lz4_length_ext input ip len = Ok (l, ip') \<Longrightarrow> ip \<le> ip' \<and> len \<le> l"
proof (induction input ip len rule: lz4_length_ext.induct)
  case (1 input ip len)
  from 1(2) obtain b where b: "get_at input ip = Some b" and s: "usize_checked_add len (unat b) = Some (len + unat b)"
    and r: "(if b \<noteq> 255 then Ok (len + unat b, ip + 1) else lz4_length_ext input (ip + 1) (len + unat b)) = Ok (l, ip')"
    by (subst (asm) lz4_length_ext.simps) (auto simp: usize_checked_add_def split: option.splits if_splits)
  show ?case using r 1(1) [OF b, of "len + unat b"] s by (auto split: if_splits)
qed

lemma lz4_length_mono: "lz4_length input ip len = Ok (l, ip') \<Longrightarrow> ip \<le> ip' \<and> len \<le> l"
  by (auto simp: lz4_length_def dest: lz4_length_ext_mono split: if_splits)

text \<open>The copy of a match, byte by byte when it overlaps what it writes.\<close>

fun lz4_copy_bytes :: "usize \<Rightarrow> nat \<Rightarrow> bytes \<Rightarrow> bytes result" where
  "lz4_copy_bytes offset 0 out = Ok out"
| "lz4_copy_bytes offset (Suc n) out =
     bindR (idx out (length out - offset)) (\<lambda>b. lz4_copy_bytes offset n (out @ [b]))"

definition lz4_copy_match :: "usize \<Rightarrow> usize \<Rightarrow> bytes \<Rightarrow> bytes result" where
  "lz4_copy_match offset n out =
     (if n \<le> offset then
        bindR (slice out (length out - offset) (length out - offset + n)) (\<lambda>s. Ok (out @ s))
      else lz4_copy_bytes offset n out)"

text \<open>The loop over the sequences: \<open>out\<close> is what has been decoded, \<open>stop\<close> the size of the output.\<close>

function lz4_sequences :: "bytes \<Rightarrow> usize \<Rightarrow> usize \<Rightarrow> bytes \<Rightarrow> bytes result" where
  "lz4_sequences input stop ip out =
     (if \<not> length out < stop then Ok out
      else case get_at input ip of
        None \<Rightarrow> Err LZ4_FAILED
      | Some token \<Rightarrow>
        bindR (lz4_length input (ip + 1) (unat (drop_bit 4 token))) (\<lambda>(literals, ip1).
        bindR (ok_or (usize_checked_add ip1 literals) LZ4_FAILED) (\<lambda>literal_end.
          if length input < literal_end then Err LZ4_FAILED
          else bindR (slice input ip1 (ip1 + min literals (stop - length out))) (\<lambda>lits.
            let out = out @ lits in
            if length out = stop then Ok out
            else bindR (ok_or (get_range input literal_end (literal_end + 2)) LZ4_FAILED) (\<lambda>b.
              let offset = unat (le16 b); ip2 = literal_end + 2 in
              if offset = 0 \<or> length out < offset then Err LZ4_FAILED
              else bindR (lz4_length input ip2 (unat (token AND 0x0F))) (\<lambda>(m, ip3).
                   bindR (ok_or (usize_checked_add m 4) LZ4_FAILED) (\<lambda>matched.
                   bindR (lz4_copy_match offset (min matched (stop - length out)) out) (\<lambda>out.
                     lz4_sequences input stop ip3 out))))))))"
  by pat_completeness auto
termination
  by (relation "measure (\<lambda>(input, stop, ip, out). length input - ip)")
    (auto simp: get_at_def get_range_def usize_checked_add_def dest!: lz4_length_mono split: if_splits)

declare lz4_sequences.simps [simp del]

definition lz4_decode_prefix :: "bytes \<Rightarrow> usize \<Rightarrow> bytes result" where
  "lz4_decode_prefix input n = lz4_sequences input n 0 []"

definition decompress_lz4 :: "'z codecs \<Rightarrow> bytes \<Rightarrow> usize \<Rightarrow> bool \<Rightarrow> bool \<Rightarrow> bytes result" where
  "decompress_lz4 cs input n zero_padding prefix =
     (if input = [] \<and> n = 0 then Ok []
      else bindR (if zero_padding then strip_leading_pad input ''LZ4'' else Ok input) (\<lambda>real_input.
        if prefix then lz4_decode_prefix real_input n
        else case lz4_block cs real_input n of
               None \<Rightarrow> Err (BadInode ''LZ4 decompression failed'')
             | Some out \<Rightarrow>
                 if length out \<noteq> n then Err (BadInode ''LZ4 decompressed size mismatch'') else Ok out))"

section \<open>ZSTD\<close>

definition Z_EROFS_ZSTD_MAX_DICT_SIZE :: u64 where "Z_EROFS_ZSTD_MAX_DICT_SIZE = 1024 * 1024"

fun le_or :: "nat \<Rightarrow> bytes \<Rightarrow> u64 \<Rightarrow> u64" where
  "le_or i [] v = v"
| "le_or i (b # bs) v = le_or (i + 1) bs (v OR push_bit ((8 * i) mod 64) (ucast b))"

definition zstd_window_size :: "bytes \<Rightarrow> u64 result" where
  "zstd_window_size frame =
     (let bad = BadInode ''ZSTD frame header is not readable'' in
      if length frame < 5 \<or> take 4 frame \<noteq> [0x28, 0xb5, 0x2f, 0xfd] then Err bad
      else bindR (idx frame 4) (\<lambda>descriptor.
        let content_size_flag = drop_bit 6 descriptor;
            single_segment = (descriptor AND 0x20 \<noteq> 0);
            dict_id_flag = unat (descriptor AND 0x03) in
        bindR (if single_segment then Ok (None, 5)
               else bindR (ok_or (get_at frame 5) bad) (\<lambda>b. Ok (Some b, 6))) (\<lambda>(window_descriptor, pos).
        bindR (idx [0, 1, 2, 4] dict_id_flag) (\<lambda>dict_width.
        let pos = pos + dict_width;
            width = (if content_size_flag = 0 then (if single_segment then 1 else 0)
                     else if content_size_flag = 1 then 2
                     else if content_size_flag = 2 then 4 else 8) in
        bindR (if width = 0 then Ok None
               else bindR (ok_or (get_range frame pos (pos + width)) bad) (\<lambda>bs.
                 let v = le_or 0 bs 0 in Ok (Some (if width = 2 then v + 256 else v)))) (\<lambda>content_size.
        case window_descriptor of
          Some wd \<Rightarrow>
            let exponent = ucast (drop_bit 3 wd) :: u32; mantissa = ucast (wd AND 7) :: u64 in
            bindR (ok_or (checked_shl 1 (10 + exponent)) (BadInode ''ZSTD frame declares an impossible window''))
              (\<lambda>base. Ok (base + base div 8 * mantissa))
        | None \<Rightarrow> ok_or content_size bad)))))"

text \<open>\<open>while filled < output.len()\<close>: what is still to fill, and the bytes filled so far.\<close>

function zstd_fill :: "('z \<Rightarrow> usize \<Rightarrow> (bytes \<times> 'z) option) \<Rightarrow> nat \<Rightarrow> 'z \<Rightarrow> bytes \<Rightarrow> (bytes \<times> 'z) result" where
  "zstd_fill rd left z out =
     (if left = 0 then Ok (out, z)
      else case rd z left of
        None \<Rightarrow> Err (BadInode ''ZSTD decompression failed'')
      | Some (bs, z') \<Rightarrow>
          if length bs = 0 then Err (BadInode ''ZSTD decompressed size mismatch'')
          else zstd_fill rd (left - length bs) z' (out @ bs))"
  by pat_completeness auto
termination by (relation "measure (\<lambda>(rd, left, z, out). left)") auto

declare zstd_fill.simps [simp del]

definition decompress_zstd :: "'z codecs \<Rightarrow> bytes \<Rightarrow> usize \<Rightarrow> bool \<Rightarrow> bool \<Rightarrow> bytes result" where
  "decompress_zstd cs input n zero_padding prefix =
     (if input = [] \<and> n = 0 then Ok []
      else bindR (if zero_padding then strip_leading_pad input ''ZSTD'' else Ok input) (\<lambda>real_input.
        let ceiling = max Z_EROFS_ZSTD_MAX_DICT_SIZE (word_of_nat n) in
        bindR (zstd_window_size real_input) (\<lambda>window.
          if ceiling < window
          then Err (BadInode ''ZSTD frame asks for a window larger than the format allows'')
          else bindR (ok_or (zstd_new cs real_input) (BadInode ''ZSTD frame header is not readable'')) (\<lambda>z.
            bindR (zstd_fill (zstd_read cs) n z []) (\<lambda>(out, z).
              if prefix then Ok out
              else case zstd_read cs z 1 of
                     None \<Rightarrow> Err (BadInode ''ZSTD decompression failed'')
                   | Some (bs, z') \<Rightarrow>
                       if length bs = 0 then Ok out
                       else Err (BadInode ''ZSTD decompressed size mismatch''))))))"

section \<open>LZMA\<close>

definition LZMA_MATCH_LEN_MAX :: usize where "LZMA_MATCH_LEN_MAX = 273"

record capped =
  cap_buf :: bytes
  cap_limit :: usize

definition capped_write :: "bytes \<Rightarrow> capped \<Rightarrow> capped option" where
  "capped_write data sink =
     (if cap_limit sink < length (cap_buf sink) + length data then None
      else Some (sink\<lparr>cap_buf := cap_buf sink @ data\<rparr>))"

fun capped_feed :: "bytes list \<Rightarrow> capped \<Rightarrow> capped option" where
  "capped_feed [] sink = Some sink"
| "capped_feed (d # ds) sink = (case capped_write d sink of None \<Rightarrow> None | Some s \<Rightarrow> capped_feed ds s)"

definition try_decompress_lzma_with_header :: "'z codecs \<Rightarrow> bytes \<Rightarrow> usize \<Rightarrow> bytes result" where
  "try_decompress_lzma_with_header cs input n =
     (case lzma_writes cs input of (chunks, finished) \<Rightarrow>
        (case capped_feed chunks \<lparr>cap_buf = [], cap_limit = n\<rparr> of
           None \<Rightarrow> Err (BadInode ''LZMA decompression failed'')
         | Some sink \<Rightarrow>
             if \<not> finished then Err (BadInode ''LZMA decompression failed'')
             else if length (cap_buf sink) \<noteq> n then Err (BadInode ''LZMA decompressed size mismatch'')
             else Ok (cap_buf sink)))"

definition lzma_decode_to :: "'z codecs \<Rightarrow> bytes \<Rightarrow> bytes \<Rightarrow> usize \<Rightarrow> (string + bytes) result" where
  "lzma_decode_to cs framed input sz =
     bindR (slice framed 0 5) (\<lambda>props.
       Ok (lzma_sized cs (props @ to_le64 (word_of_nat sz) @ input) sz))"

definition lzma_decode_exactly :: "'z codecs \<Rightarrow> bytes \<Rightarrow> bytes \<Rightarrow> usize \<Rightarrow> bytes result" where
  "lzma_decode_exactly cs framed input sz =
     bindR (lzma_decode_to cs framed input sz) (\<lambda>r. case r of
         Inl _ \<Rightarrow> Err (BadInode ''LZMA decompression failed'')
       | Inr decoded \<Rightarrow>
           if length decoded \<noteq> sz then Err (BadInode ''LZMA decompressed size mismatch'') else Ok decoded)"

text \<open>
  \<open>message.rsplit("decompressed to ").next()\<close>, \<open>trim\<close> and \<open>parse::<usize>()\<close> on an ASCII message: the
  text after the last occurrence, without blanks around it, as a decimal number with an optional plus.
\<close>

fun after_last :: "string \<Rightarrow> string \<Rightarrow> string option" where
  "after_last pat [] = (if pat = [] then Some [] else None)"
| "after_last pat (c # cs) =
     (case after_last pat cs of
        Some r \<Rightarrow> Some r
      | None \<Rightarrow> if take (length pat) (c # cs) = pat then Some (drop (length pat) (c # cs)) else None)"

definition is_blank :: "char \<Rightarrow> bool" where
  "is_blank c = ((of_char c :: nat) \<in> {9, 10, 11, 12, 13, 32})"

definition trim :: "string \<Rightarrow> string" where
  "trim s = rev (dropWhile is_blank (rev (dropWhile is_blank s)))"

fun parse_digits :: "string \<Rightarrow> nat \<Rightarrow> nat option" where
  "parse_digits [] v = Some v"
| "parse_digits (c # cs) v =
     (let d = of_char c :: nat in
      if 48 \<le> d \<and> d \<le> 57 \<and> v * 10 + (d - 48) < 2 ^ 64 then parse_digits cs (v * 10 + (d - 48)) else None)"

definition parse_usize :: "string \<Rightarrow> nat option" where
  "parse_usize s =
     (let s = (case s of c # cs \<Rightarrow> if c = CHR ''+'' then cs else s | [] \<Rightarrow> [])
      in if s = [] then None else parse_digits s 0)"

definition lzma_hint :: "string \<Rightarrow> usize \<Rightarrow> usize option" where
  "lzma_hint message len =
     (let last = (case after_last ''decompressed to '' message of Some r \<Rightarrow> r | None \<Rightarrow> message) in
      case parse_usize (trim last) of
        Some n \<Rightarrow> if len < n \<and> n \<le> len + LZMA_MATCH_LEN_MAX then Some n else None
      | None \<Rightarrow> None)"

text \<open>The retries: the first candidate whose decode has the candidate's size.\<close>

fun lzma_retry :: "'z codecs \<Rightarrow> bytes \<Rightarrow> bytes \<Rightarrow> usize \<Rightarrow> usize list \<Rightarrow> bytes result" where
  "lzma_retry cs framed input len [] = Err (BadInode ''LZMA decompression failed'')"
| "lzma_retry cs framed input len (sz # szs) =
     bindR (lzma_decode_to cs framed input sz) (\<lambda>r. case r of
         Inr decoded \<Rightarrow>
           if length decoded = sz then slice decoded 0 len else lzma_retry cs framed input len szs
       | Inl _ \<Rightarrow> lzma_retry cs framed input len szs)"

definition lzma_framed :: "lzma_cfg \<Rightarrow> bytes" where
  "lzma_framed cfg =
     (let props = ((ucast (lzma_pb cfg) * 5 + ucast (lzma_lp cfg)) * 9 + ucast (lzma_lc cfg) :: u16)
      in [ucast props] @ to_le32 (dict_size cfg))"

definition decompress_lzma_no_header ::
    "'z codecs \<Rightarrow> bytes \<Rightarrow> usize \<Rightarrow> lzma_cfg \<Rightarrow> bool \<Rightarrow> bytes result" where
  "decompress_lzma_no_header cs input n cfg prefix =
     (if 8 < lzma_lc cfg \<or> 4 < lzma_lp cfg \<or> 4 < lzma_pb cfg
      then Err (BadInode ''LZMA cfg lc/lp/pb out of range'')
      else let framed = lzma_framed cfg in
        if \<not> prefix then lzma_decode_exactly cs framed input n
        else bindR (lzma_decode_to cs framed input n) (\<lambda>r. case r of
            Inr decoded \<Rightarrow>
              if length decoded = n then Ok decoded
              else Err (BadInode ''LZMA decompressed size mismatch'')
          | Inl message \<Rightarrow>
              lzma_retry cs framed input n
                ((case lzma_hint message n of Some h \<Rightarrow> [h] | None \<Rightarrow> [])
                   @ [n + 1..<n + LZMA_MATCH_LEN_MAX + 1])))"

definition decompress_lzma ::
    "'z codecs \<Rightarrow> bytes \<Rightarrow> usize \<Rightarrow> lzma_cfg \<Rightarrow> bool \<Rightarrow> bool \<Rightarrow> bytes result" where
  "decompress_lzma cs input n cfg zero_padding prefix =
     (if input = [] \<and> n = 0 then Ok []
      else bindR (if zero_padding then strip_leading_pad input ''LZMA'' else Ok input) (\<lambda>real_input.
        case try_decompress_lzma_with_header cs real_input n of
          Ok out \<Rightarrow> Ok out
        | Panic \<Rightarrow> Panic | Overrun \<Rightarrow> Overrun
        | Err _ \<Rightarrow> decompress_lzma_no_header cs real_input n cfg prefix))"

section \<open>DEFLATE and the dispatch\<close>

definition decompress_deflate :: "'z codecs \<Rightarrow> bytes \<Rightarrow> usize \<Rightarrow> bool \<Rightarrow> bytes result" where
  "decompress_deflate cs input n zero_padding =
     (if input = [] \<and> n = 0 then Ok []
      else bindR (if zero_padding then strip_leading_pad input ''DEFLATE'' else Ok input) (\<lambda>real_input.
        case inflate cs real_input n of
          None \<Rightarrow> Err (BadInode ''DEFLATE decompression failed'')
        | Some out \<Rightarrow>
            if length out \<noteq> n then Err (BadInode ''DEFLATE decompressed size mismatch'') else Ok out))"

definition decode ::
    "'z codecs \<Rightarrow> algorithm \<Rightarrow> lzma_cfg option \<Rightarrow> bool \<Rightarrow> bool \<Rightarrow> bytes \<Rightarrow> usize \<Rightarrow> bytes result" where
  "decode cs algo config zero_padding prefix input n =
     (case algo of
        Lz4 \<Rightarrow> decompress_lz4 cs input n zero_padding prefix
      | Lzma \<Rightarrow> (let cfg = (case config of Some c \<Rightarrow> c | None \<Rightarrow> lzma_cfg_default)
                in decompress_lzma cs input n cfg zero_padding prefix)
      | Deflate \<Rightarrow> decompress_deflate cs input n zero_padding
      | Zstd \<Rightarrow> decompress_zstd cs input n zero_padding prefix)"

definition decompress :: "'z codecs \<Rightarrow> algorithm \<Rightarrow> bytes \<Rightarrow> usize \<Rightarrow> bytes result" where
  "decompress cs algo input n = decode cs algo None True False input n"

definition decompress_with_config ::
    "'z codecs \<Rightarrow> algorithm \<Rightarrow> lzma_cfg option \<Rightarrow> bytes \<Rightarrow> usize \<Rightarrow> bytes result" where
  "decompress_with_config cs algo config input n = decode cs algo config True False input n"

definition decompress_with_config_and_padding ::
    "'z codecs \<Rightarrow> algorithm \<Rightarrow> lzma_cfg option \<Rightarrow> bool \<Rightarrow> bytes \<Rightarrow> usize \<Rightarrow> bytes result" where
  "decompress_with_config_and_padding cs algo config zero_padding input n =
     decode cs algo config zero_padding False input n"

definition decompress_prefix_with_config_and_padding ::
    "'z codecs \<Rightarrow> algorithm \<Rightarrow> lzma_cfg option \<Rightarrow> bool \<Rightarrow> bytes \<Rightarrow> usize \<Rightarrow> bytes result" where
  "decompress_prefix_with_config_and_padding cs algo config zero_padding input n =
     decode cs algo config zero_padding True input n"

section \<open>What the partial LZ4 decoder computes\<close>

text \<open>A match as the bytes it appends, one at a time.\<close>

fun copied :: "nat \<Rightarrow> nat \<Rightarrow> bytes \<Rightarrow> bytes" where
  "copied off 0 out = out"
| "copied off (Suc n) out = copied off n (out @ [out ! (length out - off)])"

lemma length_copied [simp]: "length (copied off n out) = length out + n"
  by (induction off n out rule: copied.induct) simp_all

lemma copied_add: "copied off (a + b) out = copied off b (copied off a out)"
  by (induction off a out rule: copied.induct) simp_all

lemma copied_prefix: "take (length out) (copied off n out) = out"
proof (induction n arbitrary: out)
  case (Suc n)
  from Suc [of "out @ [out ! (length out - off)]"]
  have "take (length out) (take (Suc (length out)) (copied off (Suc n) out)) = out" by simp
  then show ?case by (simp del: copied.simps)
qed simp

lemma copied_take: "a \<le> n \<Longrightarrow> take (length out + a) (copied off n out) = copied off a out"
  using copied_prefix [of "copied off a out" off "n - a"] by (simp flip: copied_add)

lemma copied_snoc: "0 < off \<Longrightarrow> copied off (Suc n) out = copied off n out @ [copied off n out ! (length out + n - off)]"
  using copied_add [of off n 1 out] by simp

lemma copied_short: "n \<le> off \<Longrightarrow> off \<le> length out \<Longrightarrow> copied off n out = out @ take n (drop (length out - off) out)"
proof (induction n)
  case (Suc n)
  then have c: "copied off n out = out @ take n (drop (length out - off) out)" by simp
  have "copied off (Suc n) out = copied off n out @ [copied off n out ! (length out + n - off)]"
    using Suc.prems by (intro copied_snoc) simp
  also have "copied off n out ! (length out + n - off) = out ! (length out - off + n)"
    unfolding c using Suc.prems by (simp add: nth_append)
  also have "copied off n out @ [out ! (length out - off + n)] = out @ take (Suc n) (drop (length out - off) out)"
    unfolding c using Suc.prems by (simp add: take_Suc_conv_app_nth)
  finally show ?case .
qed simp

lemma lz4_copy_bytes_eq: "0 < off \<Longrightarrow> off \<le> length out \<Longrightarrow> lz4_copy_bytes off n out = Ok (copied off n out)"
  by (induction off n out rule: lz4_copy_bytes.induct) simp_all

lemma lz4_copy_match_eq:
  "0 < off \<Longrightarrow> off \<le> length out \<Longrightarrow> lz4_copy_match off n out = Ok (copied off n out)"
  by (simp add: lz4_copy_match_def lz4_copy_bytes_eq copied_short)

text \<open>The decoder as a relation: it stops when the output is full, a literal run may fill it, and
  otherwise a sequence is a literal run and a match.\<close>

inductive lz4_run :: "bytes \<Rightarrow> nat \<Rightarrow> nat \<Rightarrow> bytes \<Rightarrow> bytes \<Rightarrow> bool" for input stop where
  run_done: "\<not> length out < stop \<Longrightarrow> lz4_run input stop ip out out"
| run_last: "length out < stop \<Longrightarrow> get_at input ip = Some token \<Longrightarrow>
    lz4_length input (ip + 1) (unat (drop_bit 4 token)) = Ok (nl, ip1) \<Longrightarrow>
    usize_checked_add ip1 nl = Some (ip1 + nl) \<Longrightarrow> ip1 + nl \<le> length input \<Longrightarrow>
    stop \<le> length out + nl \<Longrightarrow>
    lz4_run input stop ip out (out @ take (stop - length out) (drop ip1 input))"
| run_step: "length out < stop \<Longrightarrow> get_at input ip = Some token \<Longrightarrow>
    lz4_length input (ip + 1) (unat (drop_bit 4 token)) = Ok (nl, ip1) \<Longrightarrow>
    usize_checked_add ip1 nl = Some (ip1 + nl) \<Longrightarrow> ip1 + nl \<le> length input \<Longrightarrow>
    length out + nl < stop \<Longrightarrow>
    get_range input (ip1 + nl) (ip1 + nl + 2) = Some b \<Longrightarrow>
    0 < unat (le16 b) \<Longrightarrow> unat (le16 b) \<le> length out + nl \<Longrightarrow>
    lz4_length input (ip1 + nl + 2) (unat (token AND 0x0F)) = Ok (m, ip3) \<Longrightarrow>
    usize_checked_add m 4 = Some (m + 4) \<Longrightarrow>
    lz4_run input stop ip3 (copied (unat (le16 b)) (min (m + 4) (stop - (length out + nl)))
        (out @ take nl (drop ip1 input))) a \<Longrightarrow>
    lz4_run input stop ip out a"

lemma usize_checked_add_Some: "usize_checked_add a b = Some c \<Longrightarrow> c = a + b"
  by (auto simp: usize_checked_add_def split: if_splits)

lemma lz4_run_Ok: "lz4_run input stop ip out a \<Longrightarrow> lz4_sequences input stop ip out = Ok a"
proof (induction rule: lz4_run.induct)
  case (run_done out ip)
  then show ?case by (simp add: lz4_sequences.simps)
next
  case (run_last out ip token nl ip1)
  then have "min nl (stop - length out) = stop - length out" by simp
  then show ?case using run_last by (subst lz4_sequences.simps) simp
next
  case (run_step out ip token nl ip1 b m ip3 a)
  then have "min nl (stop - length out) = nl" by simp
  then show ?case using run_step
    by (subst lz4_sequences.simps) (simp add: Let_def lz4_copy_match_eq)
qed

lemma lz4_Ok_run: "lz4_sequences input stop ip out = Ok a \<Longrightarrow> lz4_run input stop ip out a"
proof (induction "length input - ip" arbitrary: ip out rule: less_induct)
  case less
  show ?case
  proof (cases "length out < stop")
    case False
    then show ?thesis using less.prems by (subst (asm) lz4_sequences.simps) (auto intro: run_done)
  next
    case True
    from less.prems True obtain token nl ip1 e where e: "get_at input ip = Some token"
        "lz4_length input (ip + 1) (unat (drop_bit 4 token)) = Ok (nl, ip1)"
        "usize_checked_add ip1 nl = Some e" "\<not> length input < e"
      by (subst (asm) lz4_sequences.simps) (auto split: option.splits if_splits)
    from e usize_checked_add_Some [OF e(3)] have t: "get_at input ip = Some token"
        "lz4_length input (ip + 1) (unat (drop_bit 4 token)) = Ok (nl, ip1)"
        "usize_checked_add ip1 nl = Some (ip1 + nl)" "ip1 + nl \<le> length input" by simp_all
    show ?thesis
    proof (cases "stop \<le> length out + nl")
      case last: True
      then have "min nl (stop - length out) = stop - length out" by simp
      then have "a = out @ take (stop - length out) (drop ip1 input)"
        using less.prems True t last by (subst (asm) lz4_sequences.simps) (simp add: slice_eq_Ok)
      then show ?thesis using run_last [OF True t last] by simp
    next
      case more: False
      then have m: "min nl (stop - length out) = nl" by simp
      obtain b mm ip3 e where e: "get_range input (ip1 + nl) (ip1 + nl + 2) = Some b"
          "0 < unat (le16 b)" "unat (le16 b) \<le> length out + nl"
          "lz4_length input (ip1 + nl + 2) (unat (token AND 0x0F)) = Ok (mm, ip3)"
          "usize_checked_add mm 4 = Some e"
          "lz4_sequences input stop ip3 (copied (unat (le16 b)) (min e (stop - (length out + nl)))
             (out @ take nl (drop ip1 input))) = Ok a"
        using less.prems [unfolded lz4_sequences.simps [of input stop ip out]] True t more m
        by (auto simp: Let_def lz4_copy_match_eq split: if_splits)
      from e usize_checked_add_Some [OF e(5)] have r: "get_range input (ip1 + nl) (ip1 + nl + 2) = Some b"
          "0 < unat (le16 b)" "unat (le16 b) \<le> length out + nl"
          "lz4_length input (ip1 + nl + 2) (unat (token AND 0x0F)) = Ok (mm, ip3)"
          "usize_checked_add mm 4 = Some (mm + 4)"
          "lz4_sequences input stop ip3 (copied (unat (le16 b)) (min (mm + 4) (stop - (length out + nl)))
             (out @ take nl (drop ip1 input))) = Ok a" by simp_all
      have "length input - ip3 < length input - ip"
        using t(1) lz4_length_mono [OF t(2)] lz4_length_mono [OF r(4)] by (auto simp: get_at_def split: if_splits)
      from less.hyps [OF this r(6)] show ?thesis
        using run_step [OF True t _ r(1-5)] more by simp
    qed
  qed
qed

lemma lz4_run_length: "lz4_run input stop ip out a \<Longrightarrow> length out \<le> stop \<Longrightarrow> length a = stop \<and> take (length out) a = out"
proof (induction rule: lz4_run.induct)
  case (run_step out ip token nl ip1 b m ip3 a)
  let ?o = "out @ take nl (drop ip1 input)"
  let ?c = "copied (unat (le16 b)) (min (m + 4) (stop - (length out + nl))) ?o"
  have l: "length ?o = length out + nl" using run_step by simp
  have "length a = stop \<and> take (length ?c) a = ?c" using run_step l by simp
  moreover from this have "take (length out) a = take (length out) ?c"
    by (metis length_copied l le_add1 min.absorb1 take_take trans_le_add1)
  moreover have "take (length out) ?c = take (length out) (take (length ?o) ?c)" using l by simp
  ultimately show ?case by (simp only: copied_prefix) simp
qed simp_all

lemma lz4_run_prefix:
  "lz4_run input n ip out a \<Longrightarrow> m \<le> n \<Longrightarrow> length out \<le> m \<Longrightarrow> length out \<le> n \<Longrightarrow> lz4_run input m ip out (take m a)"
proof (induction rule: lz4_run.induct)
  case (run_done out ip)
  then have "take m out = out" "\<not> length out < m" by simp_all
  then show ?case by (auto intro: lz4_run.run_done)
next
  case (run_last out ip token nl ip1)
  show ?case
  proof (cases "length out < m")
    case True
    have "take m (out @ take (n - length out) (drop ip1 input)) = out @ take (m - length out) (drop ip1 input)"
      using run_last.prems by (simp add: min_def)
    moreover have "m \<le> length out + nl" using run_last by simp
    ultimately show ?thesis using lz4_run.run_last [OF True run_last(2-5)] by simp
  next
    case False
    then have "m = length out" using run_last.prems by simp
    then show ?thesis by (auto intro: lz4_run.run_done)
  qed
next
  case (run_step out ip token nl ip1 b k ip3 a)
  let ?o = "out @ take nl (drop ip1 input)" and ?off = "unat (le16 b)"
  let ?c = "copied ?off (min (k + 4) (n - (length out + nl))) ?o"
  have l: "length ?o = length out + nl" using run_step by simp
  have c: "length ?c \<le> n" using run_step l by simp
  from lz4_run_length [OF run_step(12) c] have a: "length a = n" "take (length ?c) a = ?c" by simp_all
  have ao: "take (length out + nl) a = ?o"
    by (metis a(2) copied_prefix l le_add1 length_copied min.absorb1 take_take)
  show ?case
  proof (cases "length out < m")
    case False
    then have m: "m = length out" using run_step.prems by simp
    have "take m a = take m (take (length out + nl) a)" using m by simp
    also have "\<dots> = out" unfolding ao m by simp
    finally show ?thesis using False by (auto intro: lz4_run.run_done)
  next
    case True
    show ?thesis
    proof (cases "m \<le> length out + nl")
      case last: True
      have "take m a = take m (take (length out + nl) a)" using last by simp
      also have "\<dots> = out @ take (m - length out) (drop ip1 input)"
        unfolding ao using last True by (simp add: min_def)
      finally show ?thesis using lz4_run.run_last [OF True run_step(2-5) last] by simp
    next
      case more: False
      let ?d = "copied ?off (min (k + 4) (m - (length out + nl))) ?o"
      have "lz4_run input m ip3 ?d (take m a)"
      proof (cases "length ?c \<le> m")
        case True
        then have "?d = ?c" using l run_step.prems more by (intro arg_cong2 [where f = "\<lambda>x. copied ?off x"]) auto
        then show ?thesis using run_step.IH [OF run_step.prems(1) True c] by simp
      next
        case False
        then have min: "min (k + 4) (m - (length out + nl)) = m - (length out + nl)" using l by simp
        have "take m a = take m (take (length ?c) a)" using False by simp
        also have "\<dots> = take (length ?o + (m - (length out + nl))) ?c" unfolding a(2) using l more by simp
        also have "\<dots> = ?d" unfolding min using False l run_step.prems(1) by (intro copied_take) (auto simp: min_def split: if_splits)
        finally show ?thesis using l more min by (auto intro!: lz4_run.run_done)
      qed
      then show ?thesis using lz4_run.run_step [OF True run_step(2-5) _ run_step(7-11)] more by simp
    qed
  qed
qed

lemma lz4_decode_prefix_take:
  assumes "lz4_decode_prefix input n = Ok a" "m \<le> n"
  shows "lz4_decode_prefix input m = Ok (take m a) \<and> length a = n"
proof -
  have r: "lz4_run input n 0 [] a" using assms(1) by (intro lz4_Ok_run) (simp add: lz4_decode_prefix_def)
  from lz4_run_length [OF r] lz4_run_prefix [OF r assms(2)] show ?thesis
    by (simp add: lz4_decode_prefix_def lz4_run_Ok)
qed

text \<open>A partial decode is a prefix of every longer one. Whatever the input, if decoding it to some
  size succeeds, the result has that size, and decoding to any smaller size succeeds with the
  corresponding prefix: an extent that covers only part of a shared pcluster reads the same bytes as
  one that covers more of it.\<close>

theorem lz4_decode_prefix_mono:
  assumes "lz4_decode_prefix input n = Ok a" "m \<le> n"
  shows "lz4_decode_prefix input m = Ok (take m a) \<and> length a = n"
  using assms by (rule lz4_decode_prefix_take)

section \<open>The LZ4 block format\<close>

text \<open>
  The block format as an encoder writes it: sequences of literals and a match (an offset back and a
  length of at least four), then the last literals. A length over fourteen goes on in bytes of 255.
\<close>

fun lz4_ext :: "nat \<Rightarrow> bytes" where
  "lz4_ext v = (if v < 255 then [word_of_nat v] else 255 # lz4_ext (v - 255))"

declare lz4_ext.simps [simp del]

definition lz4_ext_of :: "nat \<Rightarrow> bytes" where
  "lz4_ext_of len = (if len < 15 then [] else lz4_ext (len - 15))"

definition lz4_token :: "nat \<Rightarrow> nat \<Rightarrow> byte" where
  "lz4_token l m = word_of_nat (16 * min 15 l + min 15 m)"

definition lz4_seq_bytes :: "bytes \<times> u16 \<times> nat \<Rightarrow> bytes" where
  "lz4_seq_bytes q = (case q of (lits, off, m) \<Rightarrow>
     [lz4_token (length lits) (m - 4)] @ lz4_ext_of (length lits) @ lits @ to_le16 off @ lz4_ext_of (m - 4))"

definition lz4_encode :: "(bytes \<times> u16 \<times> nat) list \<Rightarrow> bytes \<Rightarrow> bytes" where
  "lz4_encode seqs lits =
     concat (map lz4_seq_bytes seqs) @ [lz4_token (length lits) 0] @ lz4_ext_of (length lits) @ lits"

fun lz4_expand :: "(bytes \<times> u16 \<times> nat) list \<Rightarrow> bytes \<Rightarrow> bytes \<Rightarrow> bytes" where
  "lz4_expand [] lits out = out @ lits"
| "lz4_expand ((ls, off, m) # seqs) lits out = lz4_expand seqs lits (copied (unat off) m (out @ ls))"

fun lz4_valid :: "(bytes \<times> u16 \<times> nat) list \<Rightarrow> nat \<Rightarrow> bool" where
  "lz4_valid [] n = True"
| "lz4_valid ((ls, off, m) # seqs) n =
     (0 < unat off \<and> unat off \<le> n + length ls \<and> 4 \<le> m \<and> lz4_valid seqs (n + length ls + m))"

lemma lz4_token_fields:
  "unat (drop_bit 4 (lz4_token l m)) = min 15 l" "unat (lz4_token l m AND 0x0F) = min 15 m"
proof -
  have "16 * min 15 l + min 15 m < 256" by (simp add: min_def)
  then have t: "unat (lz4_token l m) = 16 * min 15 l + min 15 m"
    unfolding lz4_token_def by (intro unat_of_nat_small) simp
  show "unat (drop_bit 4 (lz4_token l m)) = min 15 l"
    by (simp add: drop_bit_eq_div unat_div t min_def)
  have m: "lz4_token l m AND 0x0F = take_bit 4 (lz4_token l m)" by (simp add: and_masks)
  show "unat (lz4_token l m AND 0x0F) = min 15 m"
    unfolding m unsigned_take_bit_eq t by (simp add: take_bit_eq_mod min_def)
qed

lemma get_at_drop: "drop ip input = b # rest \<Longrightarrow> get_at input ip = Some b"
  by (metis append_Nil2 drop_all drop_eq_nths get_at_def hd_drop_conv_nth leI list.distinct(1) list.sel(1))

lemma drop_Suc_of: "drop ip input = b # rest \<Longrightarrow> drop (Suc ip) input = rest"
  by (metis drop_Suc list.sel(3) tl_drop)

lemma lz4_length_ext_encoded:
  "drop ip input = lz4_ext v @ rest \<Longrightarrow> len + v < 2 ^ 64 \<Longrightarrow>
     lz4_length_ext input ip len = Ok (len + v, ip + length (lz4_ext v)) \<and> drop (ip + length (lz4_ext v)) input = rest"
proof (induction v arbitrary: ip len rule: lz4_ext.induct)
  case (1 v)
  show ?case
  proof (cases "v < 255")
    case True
    have d: "drop ip input = word_of_nat v # rest" using 1(2) True by (simp add: lz4_ext.simps [of v])
    have u: "unat (word_of_nat v :: byte) = v" using True by (simp add: unat_of_nat_small)
    then have "(word_of_nat v :: byte) \<noteq> 255" using True by auto
    then show ?thesis
      using True 1(3) u get_at_drop [OF d] drop_Suc_of [OF d]
      by (subst lz4_length_ext.simps) (simp add: lz4_ext.simps [of v] usize_checked_add_def)
  next
    case False
    have d: "drop ip input = 255 # lz4_ext (v - 255) @ rest" using 1(2) False by (simp add: lz4_ext.simps [of v])
    from 1(1) [OF False drop_Suc_of [OF d], of "len + 255"] False 1(3)
    show ?thesis using get_at_drop [OF d]
      by (subst lz4_length_ext.simps) (simp add: lz4_ext.simps [of v] usize_checked_add_def)
  qed
qed

lemma lz4_length_encoded:
  assumes "drop ip input = lz4_ext_of len @ rest" "len < 2 ^ 64"
  shows "lz4_length input ip (min 15 len) = Ok (len, ip + length (lz4_ext_of len))
    \<and> drop (ip + length (lz4_ext_of len)) input = rest"
proof (cases "len < 15")
  case False
  then have "min 15 len = 15" by simp
  then show ?thesis using lz4_length_ext_encoded [of ip input "len - 15" rest 15] assms False
    by (simp add: lz4_length_def lz4_ext_of_def)
qed (use assms in \<open>simp add: lz4_length_def lz4_ext_of_def\<close>)

lemma lz4_expand_length: "length out \<le> length (lz4_expand seqs lits out)"
  by (induction seqs lits out rule: lz4_expand.induct) simp_all

lemma drop_length_le: "drop ip input = xs \<Longrightarrow> xs \<noteq> [] \<Longrightarrow> ip + length xs = length input"
  by (metis add_diff_inverse_nat drop_eq_Nil leI length_drop not_less_iff_gr_or_eq order_less_imp_le)

lemma lz4_run_encoded:
  "drop ip input = lz4_encode seqs lits \<Longrightarrow> lz4_valid seqs (length out) \<Longrightarrow> length input < 2 ^ 64 \<Longrightarrow>
     stop = length (lz4_expand seqs lits out) \<Longrightarrow> stop < 2 ^ 64 \<Longrightarrow>
     lz4_run input stop ip out (lz4_expand seqs lits out)"
proof (induction seqs arbitrary: ip out)
  case Nil
  show ?case
  proof (cases "lits = []")
    case True
    then show ?thesis using Nil by (auto intro: run_done)
  next
    case False
    let ?n = "length lits"
    have d: "drop ip input = lz4_token ?n 0 # lz4_ext_of ?n @ lits" using Nil.prems(1) by (simp add: lz4_encode_def)
    have "?n \<le> length input" using arg_cong [OF d, of length] by simp
    then have n: "?n < 2 ^ 64" using Nil.prems(3) by simp
    note e = lz4_length_encoded [OF drop_Suc_of [OF d] n]
    let ?ip1 = "Suc ip + length (lz4_ext_of ?n)"
    have "?ip1 + ?n = length input" using e False by (intro drop_length_le) simp_all
    moreover from this have "usize_checked_add ?ip1 ?n = Some (?ip1 + ?n)"
      using Nil.prems(3) by (simp add: usize_checked_add_def)
    ultimately have "lz4_run input stop ip out (out @ take (stop - length out) (drop ?ip1 input))"
      using False Nil.prems(4) get_at_drop [OF d] e
      by (intro run_last [where nl = ?n and token = "lz4_token ?n 0"]) (simp_all add: lz4_token_fields)
    then show ?thesis using e Nil.prems(4) by simp
  qed
next
  case (Cons q seqs)
  obtain ls off m where q: "q = (ls, off, m)" by (cases q)
  let ?n = "length ls" and ?R = "lz4_encode seqs lits"
  have v: "0 < unat off" "unat off \<le> length out + ?n" "4 \<le> m" "lz4_valid seqs (length out + ?n + m)"
    using Cons.prems(2) by (simp_all add: q)
  have d: "drop ip input = lz4_token ?n (m - 4) # lz4_ext_of ?n @ ls @ to_le16 off @ lz4_ext_of (m - 4) @ ?R"
    using Cons.prems(1) by (simp add: lz4_encode_def q lz4_seq_bytes_def)
  have "?n \<le> length input" using arg_cong [OF d, of length] by simp
  then have n: "?n < 2 ^ 64" using Cons.prems(3) by simp
  note e = lz4_length_encoded [OF drop_Suc_of [OF d] n]
  let ?ip1 = "Suc ip + length (lz4_ext_of ?n)" and ?out1 = "out @ ls"
  from e have d1: "drop ?ip1 input = ls @ to_le16 off @ lz4_ext_of (m - 4) @ ?R" by simp
  then have le1: "?ip1 + ?n + 2 \<le> length input"
    using drop_length_le [OF d1] by (simp add: lz4_encode_def)
  have "drop (?ip1 + ?n) input = drop ?n (drop ?ip1 input)" by (simp add: add.commute)
  then have d2: "drop (?ip1 + ?n) input = to_le16 off @ lz4_ext_of (m - 4) @ ?R" by (simp only: d1) simp
  have "drop (?ip1 + ?n + 2) input = drop 2 (drop (?ip1 + ?n) input)" by (simp add: add.commute)
  then have d3: "drop (?ip1 + ?n + 2) input = lz4_ext_of (m - 4) @ ?R" by (simp only: d2) simp
  have out: "length (copied (unat off) m ?out1) \<le> stop"
    unfolding Cons.prems(4) q lz4_expand.simps by (rule lz4_expand_length)
  then have "m - 4 < 2 ^ 64" using Cons.prems(5) by simp
  note f = lz4_length_encoded [OF d3 this]
  have r: "get_range input (?ip1 + ?n) (?ip1 + ?n + 2) = Some (to_le16 off)"
    using le1 d2 by (simp add: get_range_def del: drop_drop)
  have run: "lz4_run input stop (?ip1 + ?n + 2 + length (lz4_ext_of (m - 4))) (copied (unat off) m ?out1)
      (lz4_expand seqs lits (copied (unat off) m ?out1))"
    using f v Cons.prems by (intro Cons.IH) (simp_all add: q add.assoc)
  have rest: "lz4_run input stop (?ip1 + ?n + 2 + length (lz4_ext_of (m - 4)))
      (copied (unat off) (min (m - 4 + 4) (stop - (length out + ?n))) ?out1) (lz4_expand (q # seqs) lits out)"
    unfolding q lz4_expand.simps
  proof -
    have "min (m - 4 + 4) (stop - (length out + ?n)) = m" using v(3) out by simp
    then show "lz4_run input stop (?ip1 + ?n + 2 + length (lz4_ext_of (m - 4)))
        (copied (unat off) (min (m - 4 + 4) (stop - (length out + ?n))) ?out1)
        (lz4_expand seqs lits (copied (unat off) m ?out1))" using run by (simp only:)
  qed
  show ?case
  proof (rule run_step [where token = "lz4_token ?n (m - 4)" and nl = ?n and ?ip1.0 = ?ip1 and b = "to_le16 off"
        and m = "m - 4" and ?ip3.0 = "?ip1 + ?n + 2 + length (lz4_ext_of (m - 4))"])
    show "length out < stop" "length out + ?n < stop" using out v(3) by simp_all
    show "get_at input ip = Some (lz4_token ?n (m - 4))" by (rule get_at_drop [OF d])
    show "lz4_length input (ip + 1) (unat (drop_bit 4 (lz4_token ?n (m - 4)))) = Ok (?n, ?ip1)"
      using e by (simp add: lz4_token_fields)
    show "usize_checked_add ?ip1 ?n = Some (?ip1 + ?n)" using le1 Cons.prems(3) by (simp add: usize_checked_add_def)
    show "?ip1 + ?n \<le> length input" using le1 by simp
    show "get_range input (?ip1 + ?n) (?ip1 + ?n + 2) = Some (to_le16 off)" by (rule r)
    show "0 < unat (le16 (to_le16 off))" "unat (le16 (to_le16 off)) \<le> length out + ?n" using v by simp_all
    show "lz4_length input (?ip1 + ?n + 2) (unat (lz4_token ?n (m - 4) AND 0x0F))
        = Ok (m - 4, ?ip1 + ?n + 2 + length (lz4_ext_of (m - 4)))"
      using f by (simp add: lz4_token_fields)
    show "usize_checked_add (m - 4) 4 = Some (m - 4 + 4)"
      using v(3) out Cons.prems(5) by (simp add: usize_checked_add_def)
    have "take ?n (drop ?ip1 input) = ls" unfolding d1 by simp
    then show "lz4_run input stop (?ip1 + ?n + 2 + length (lz4_ext_of (m - 4)))
      (copied (unat (le16 (to_le16 off))) (min (m - 4 + 4) (stop - (length out + ?n)))
        (out @ take ?n (drop ?ip1 input))) (lz4_expand (q # seqs) lits out)"
      using rest by (simp only: le_roundtrips)
  qed
qed

text \<open>C24: on every well-formed LZ4 block the partial decoder returns the bytes the block stands for, up
  to the size asked for: literals, matches that overlap what they write, and lengths of any number of
  extension bytes included.\<close>

theorem lz4_decode_prefix_encoded:
  assumes "lz4_valid seqs 0" and "length (lz4_encode seqs lits) < 2 ^ 64"
    and "length (lz4_expand seqs lits []) < 2 ^ 64" and "n \<le> length (lz4_expand seqs lits [])"
  shows "lz4_decode_prefix (lz4_encode seqs lits) n = Ok (take n (lz4_expand seqs lits []))"
proof -
  have "lz4_run (lz4_encode seqs lits) (length (lz4_expand seqs lits [])) 0 [] (lz4_expand seqs lits [])"
    using assms by (intro lz4_run_encoded) simp_all
  then have "lz4_decode_prefix (lz4_encode seqs lits) (length (lz4_expand seqs lits [])) = Ok (lz4_expand seqs lits [])"
    by (simp add: lz4_decode_prefix_def lz4_run_Ok)
  from lz4_decode_prefix_take [OF this assms(4)] show ?thesis by simp
qed

section \<open>Every decode returns, and fills its output exactly\<close>

lemma returns_lz4_length_ext: "returns (lz4_length_ext input ip len)"
proof (induction input ip len rule: lz4_length_ext.induct)
  case (1 input ip len)
  then show ?case
    by (subst lz4_length_ext.simps) (auto split: option.split intro!: returns_bindR)
qed

lemma returns_lz4_length [returns_intros]: "returns (lz4_length input ip len)"
  by (simp add: lz4_length_def returns_lz4_length_ext)

lemma add_min_le: "b + a \<le> n \<Longrightarrow> b + min a c \<le> (n :: nat)"
  by simp

lemma returns_lz4_sequences: "returns (lz4_sequences input stop ip out)"
proof (induction "length input - ip" arbitrary: ip out rule: less_induct)
  case less
  have rec: "returns (lz4_sequences input stop ip3 out')"
    if "get_at input ip = Some token" "lz4_length input (Suc ip) l = Ok (nl, ip1)"
      "lz4_length input (Suc (Suc (ip1 + nl))) l' = Ok (m, ip3)" for token l nl ip1 l' m ip3 out'
    using that lz4_length_mono [OF that(2)] lz4_length_mono [OF that(3)]
    by (intro less) (auto simp: get_at_def split: if_splits)
  show ?case
    by (subst lz4_sequences.simps)
      (auto simp: Let_def lz4_copy_match_eq split: option.split dest!: usize_checked_add_Some
        intro!: returns_bindR returns_lz4_length returns_slice add_min_le, erule (2) rec)
qed

lemma lz4_decode_prefix_exact: "(\<exists>e. lz4_decode_prefix input n = Err e) \<or> (\<exists>out. lz4_decode_prefix input n = Ok out \<and> length out = n)"
proof -
  have "returns (lz4_decode_prefix input n)" by (simp add: lz4_decode_prefix_def returns_lz4_sequences)
  then show ?thesis using lz4_decode_prefix_take [of input n _ n] by (auto elim!: returns_cases)
qed

lemma returns_strip [returns_intros]: "returns (strip_leading_pad input codec)"
  unfolding strip_leading_pad_def Let_def
  by (intro returns_bindR returns_slice returns_if) (simp_all add: length_takeWhile_le)

text \<open>A call that returns, and whose result, when it has one, has \<open>n\<close> bytes.\<close>

definition exact :: "nat \<Rightarrow> bytes result \<Rightarrow> bool" where
  "exact n r \<longleftrightarrow> (\<exists>e. r = Err e) \<or> (\<exists>out. r = Ok out \<and> length out = n)"

named_theorems exact_intros "rules that a decode is exact"

lemma exact_Err [exact_intros, simp]: "exact n (Err e)"
  by (simp add: exact_def)

lemma exact_Ok [simp]: "exact n (Ok out) = (length out = n)"
  by (simp add: exact_def)

lemma exact_bindR [exact_intros]: "returns m \<Longrightarrow> (\<And>a. m = Ok a \<Longrightarrow> exact n (f a)) \<Longrightarrow> exact n (bindR m f)"
  by (cases m) simp_all

lemma exact_if [exact_intros]: "(b \<Longrightarrow> exact n x) \<Longrightarrow> (\<not> b \<Longrightarrow> exact n y) \<Longrightarrow> exact n (if b then x else y)"
  by simp

text \<open>What \<open>std::io::Read\<close> documents: a read never returns more than it was asked for.\<close>

definition reads_within :: "'z codecs \<Rightarrow> bool" where
  "reads_within cs \<longleftrightarrow> (\<forall>z k bs z'. zstd_read cs z k = Some (bs, z') \<longrightarrow> length bs \<le> k)"

lemma zstd_fill_exact:
  assumes "reads_within cs"
  shows "returns (zstd_fill (zstd_read cs) left z out)
    \<and> (\<forall>r z'. zstd_fill (zstd_read cs) left z out = Ok (r, z') \<longrightarrow> length r = length out + left)"
proof (induction "zstd_read cs" left z out rule: zstd_fill.induct)
  case (1 left z out)
  note step = zstd_fill.simps [of "zstd_read cs" left z out]
  show ?case
  proof (cases "left = 0 \<or> zstd_read cs z left = None")
    case True
    then show ?thesis unfolding step by auto
  next
    case False
    then obtain bs z' where r: "zstd_read cs z left = Some (bs, z')" "left \<noteq> 0" by auto
    then have le: "length bs \<le> left" using assms by (auto simp: reads_within_def)
    show ?thesis
    proof (cases "length bs = 0")
      case True
      then have "zstd_fill (zstd_read cs) left z out = Err (BadInode ''ZSTD decompressed size mismatch'')"
        unfolding step using r by simp
      then show ?thesis by simp
    next
      case ne: False
      have eq: "zstd_fill (zstd_read cs) left z out = zstd_fill (zstd_read cs) (left - length bs) z' (out @ bs)"
        unfolding step using r ne by simp
      have len: "length (out @ bs) + (left - length bs) = length out + left" using le by simp
      show ?thesis using 1 [OF r(2,1) refl ne] unfolding eq len .
    qed
  qed
qed

lemma returns_zstd_fill: "reads_within cs \<Longrightarrow> returns (zstd_fill (zstd_read cs) n z out)"
  by (rule zstd_fill_exact [THEN conjunct1])

lemma length_zstd_fill: "reads_within cs \<Longrightarrow> zstd_fill (zstd_read cs) n z [] = Ok (r, z') \<Longrightarrow> length r = n"
  using zstd_fill_exact [of cs n z "[]"] by simp

lemma returns_zstd_window [returns_intros]: "returns (zstd_window_size frame)"
proof -
  have w: "unat ((b :: u8) AND 3) < 4" for b
    using take_bit_less_word [of 2 b] by (simp add: and_masks)
  have i: "returns (idx [0, 1, 2, 4 :: nat] (unat ((b :: u8) AND 3)))" for b using w [of b] by simp
  show ?thesis
    unfolding zstd_window_size_def Let_def
    by (intro returns_if returns_bindR returns_case_prod i) (auto intro!: returns_bindR split: option.split)
qed

lemma decompress_zstd_exact: "reads_within cs \<Longrightarrow> exact n (decompress_zstd cs input n zp pf)"
  unfolding decompress_zstd_def Let_def
  by (intro exact_if exact_bindR returns_if returns_strip returns_zstd_window returns_ok_or returns_zstd_fill)
    (auto split: option.split dest: length_zstd_fill)

lemma exact_lzma_exactly: "5 \<le> length framed \<Longrightarrow> exact n (lzma_decode_exactly cs framed input n)"
  by (auto simp: lzma_decode_exactly_def lzma_decode_to_def split: sum.split)

lemma exact_lzma_retry:
  "5 \<le> length framed \<Longrightarrow> \<forall>sz\<in>set szs. n \<le> sz \<Longrightarrow> exact n (lzma_retry cs framed input n szs)"
  by (induction szs) (auto simp: lzma_decode_to_def split: sum.split)

lemma length_lzma_framed [simp]: "length (lzma_framed cfg) = 5"
  by (simp add: lzma_framed_def Let_def)

lemma lzma_hint_range: "lzma_hint msg n = Some h \<Longrightarrow> n < h \<and> h \<le> n + 273"
  by (auto simp: lzma_hint_def Let_def LZMA_MATCH_LEN_MAX_def split: option.splits if_splits)

lemma exact_no_header: "exact n (decompress_lzma_no_header cs input n cfg pf)"
  by (auto simp: decompress_lzma_no_header_def Let_def lzma_decode_to_def exact_lzma_exactly
      split: sum.split option.split intro!: exact_lzma_retry dest: lzma_hint_range)

lemma exact_with_header: "exact n (try_decompress_lzma_with_header cs input n)"
  by (auto simp: try_decompress_lzma_with_header_def split: prod.split option.split)

lemma decompress_lzma_exact: "exact n (decompress_lzma cs input n cfg zp pf)"
proof -
  have "exact n (case try_decompress_lzma_with_header cs i n of Ok out \<Rightarrow> Ok out | Panic \<Rightarrow> Panic
      | Overrun \<Rightarrow> Overrun | Err _ \<Rightarrow> decompress_lzma_no_header cs i n cfg pf)" for i
    using exact_with_header [of n cs i] exact_no_header [of n cs i cfg pf] unfolding exact_def by auto
  then show ?thesis unfolding decompress_lzma_def by (intro exact_if exact_bindR returns_if returns_strip) simp_all
qed

lemma decompress_lz4_exact: "exact n (decompress_lz4 cs input n zp pf)"
proof -
  have "exact n (lz4_decode_prefix i n)" for i using lz4_decode_prefix_exact [of i n] by (simp add: exact_def)
  then show ?thesis unfolding decompress_lz4_def
    by (intro exact_if exact_bindR returns_if returns_strip) (auto split: option.split)
qed

lemma decompress_deflate_exact: "exact n (decompress_deflate cs input n zp)"
  unfolding decompress_deflate_def
  by (intro exact_if exact_bindR returns_if returns_strip) (auto split: option.split)

lemma decode_exact: "reads_within cs \<Longrightarrow> exact n (decode cs algo config zp pf input n)"
  by (simp add: decode_def Let_def decompress_lz4_exact decompress_lzma_exact decompress_deflate_exact
      decompress_zstd_exact split: algorithm.split)

text \<open>C25: decoding any bytes with any of the four codecs returns, and a successful decode fills the
  caller's buffer exactly, whatever the codec does with the input: no codec output longer or shorter
  than the extent reaches a reader.\<close>

theorem decode_fills_exactly:
  assumes "reads_within cs"
  shows "(\<exists>e. decode cs algo config zp pf input n = Err e) \<or>
    (\<exists>out. decode cs algo config zp pf input n = Ok out \<and> length out = n)"
  using decode_exact [OF assms, of n algo config zp pf input] by (simp add: exact_def)

section \<open>The window a ZSTD frame may ask for\<close>

lemma zstd_base:
  fixes wd :: u8
  shows "checked_shl 1 (10 + ucast (drop_bit 3 wd)) = Some (2 ^ (10 + unat wd div 8))"
    and "unat (2 ^ (10 + unat wd div 8) + 2 ^ (10 + unat wd div 8) div 8 * ucast (wd AND 7) :: u64)
      = 2 ^ (10 + unat wd div 8) + 2 ^ (7 + unat wd div 8) * (unat wd mod 8)"
proof -
  let ?e = "unat wd div 8"
  have e: "?e < 32" using unsigned_less [of wd, where 'a = nat] by simp
  have d: "unat (drop_bit 3 wd) = ?e" by (simp add: drop_bit_eq_div unat_div)
  have "unat (10 + ucast (drop_bit 3 wd) :: u32) = 10 + ?e"
    using e by (subst unat_add_no_wrap) (simp_all add: unat_ucast_up d)
  then show "checked_shl 1 (10 + ucast (drop_bit 3 wd)) = Some (2 ^ (10 + ?e))"
    using e by (simp add: checked_shl_def word_less_nat_alt push_bit_eq_mult)
  have b: "unat (2 ^ (10 + ?e) :: u64) = 2 ^ (10 + ?e)" using e by (intro unat_power2) simp
  have "(2 :: nat) ^ (10 + ?e) = 8 * 2 ^ (7 + ?e)" by (simp add: power_add)
  then have q: "unat (2 ^ (10 + ?e) div 8 :: u64) = 2 ^ (7 + ?e)" by (simp add: unat_div b)
  have low: "unat (wd AND 7) = unat wd mod 8" unfolding and_masks unsigned_take_bit_eq by (simp add: take_bit_eq_mod)
  have m: "unat (ucast (wd AND 7) :: u64) = unat wd mod 8" by (simp add: unat_ucast_up low)
  have "(2 :: nat) ^ (7 + ?e) \<le> 2 ^ 38" using e by (intro power_increasing) auto
  then have s1: "(2 :: nat) ^ (7 + ?e) * (unat wd mod 8) \<le> 2 ^ 38 * 7"
    by (rule mult_mono) simp_all
  have s2: "(2 :: nat) ^ (10 + ?e) \<le> 2 ^ 41" using e by (intro power_increasing) auto
  have p: "unat (2 ^ (10 + ?e) div 8 * ucast (wd AND 7) :: u64) = 2 ^ (7 + ?e) * (unat wd mod 8)"
    using s1 by (subst unat_mult_no_wrap) (simp_all only: q m, simp)
  show "unat (2 ^ (10 + ?e) + 2 ^ (10 + ?e) div 8 * ucast (wd AND 7) :: u64)
      = 2 ^ (10 + ?e) + 2 ^ (7 + ?e) * (unat wd mod 8)"
    using s1 s2 by (subst unat_add_no_wrap) (simp_all only: b p, simp)
qed

text \<open>A ZSTD decode that succeeds was of a frame whose declared window is at most one mebibyte or
  the extent's own size; the check comes before the decoder exists. For a frame with a window
  descriptor the window is the RFC's: \<open>2 ^ (10 + e)\<close> and \<open>m\<close> eighths of it, computed without
  overflow.\<close>

theorem zstd_window_bounded:
  assumes "decompress_zstd cs input n zp pf = Ok out" and "0 < n" "n < 2 ^ 64"
  shows "\<exists>frame w. zstd_window_size frame = Ok w \<and> zstd_new cs frame \<noteq> None
    \<and> frame = (if zp then dropWhile (\<lambda>b. b = 0) input else input)
    \<and> unat w \<le> max (2 ^ 20) n
    \<and> (frame ! 4 AND 0x20 \<noteq> 0
       \<or> unat w = 2 ^ (10 + unat (frame ! 5) div 8) + 2 ^ (7 + unat (frame ! 5) div 8) * (unat (frame ! 5) mod 8))"
proof -
  have strip: "strip_leading_pad input c = Ok f \<Longrightarrow> f = dropWhile (\<lambda>b. b = 0) input" for f c
    by (auto simp: strip_leading_pad_def Let_def slice_eq_Ok dropWhile_eq_drop split: if_splits)
  from assms(1,2) obtain frame w where f: "(if zp then strip_leading_pad input ''ZSTD'' else Ok input) = Ok frame"
    and w: "zstd_window_size frame = Ok w" and le: "\<not> max Z_EROFS_ZSTD_MAX_DICT_SIZE (word_of_nat n) < w"
    and new: "zstd_new cs frame \<noteq> None"
    by (auto simp: decompress_zstd_def Let_def split: if_splits)
  have "unat (max Z_EROFS_ZSTD_MAX_DICT_SIZE (word_of_nat n)) = max (2 ^ 20) n"
    using assms(3) by (auto simp: max_def word_le_nat_alt unat_of_nat_small Z_EROFS_ZSTD_MAX_DICT_SIZE_def)
  moreover have "unat w \<le> unat (max Z_EROFS_ZSTD_MAX_DICT_SIZE (word_of_nat n))"
    using le by (simp only: word_less_nat_alt not_less)
  ultimately have "unat w \<le> max (2 ^ 20) n" by simp
  moreover have "frame ! 4 AND 0x20 \<noteq> 0
       \<or> unat w = 2 ^ (10 + unat (frame ! 5) div 8) + 2 ^ (7 + unat (frame ! 5) div 8) * (unat (frame ! 5) mod 8)"
    using w by (auto simp: zstd_window_size_def Let_def idx_eq_Ok get_at_def zstd_base split: if_splits)
  ultimately show ?thesis using f w new strip by (intro exI [of _ frame] exI [of _ w]) (auto split: if_splits)
qed

section \<open>The search for the end of an LZMA prefix\<close>

definition lzma_at :: "'z codecs \<Rightarrow> lzma_cfg \<Rightarrow> bytes \<Rightarrow> nat \<Rightarrow> string + bytes" where
  "lzma_at cs cfg input sz = lzma_sized cs (lzma_framed cfg @ to_le64 (word_of_nat sz) @ input) sz"

lemma lzma_decode_to_eq: "lzma_decode_to cs (lzma_framed cfg) input sz = Ok (lzma_at cs cfg input sz)"
  by (simp add: lzma_decode_to_def lzma_at_def)

lemma lzma_retry_Ok:
  "\<forall>sz\<in>set szs. n \<le> sz \<Longrightarrow>
   (\<exists>sz\<in>set szs. \<exists>d. lzma_at cs cfg input sz = Inr d \<and> length d = sz \<and>
       lzma_retry cs (lzma_framed cfg) input n szs = Ok (take n d))
   \<or> (\<forall>sz\<in>set szs. \<forall>d. lzma_at cs cfg input sz = Inr d \<longrightarrow> length d \<noteq> sz)
      \<and> lzma_retry cs (lzma_framed cfg) input n szs = Err (BadInode ''LZMA decompression failed'')"
  by (induction szs) (auto simp: lzma_decode_to_eq split: sum.splits)

lemma lzma_retry_sizes:
  "set ((case lzma_hint msg n of Some h \<Rightarrow> [h] | None \<Rightarrow> []) @ [n + 1..<n + LZMA_MATCH_LEN_MAX + 1]) = {n<..n + 273}"
  by (auto simp: LZMA_MATCH_LEN_MAX_def split: option.splits dest: lzma_hint_range lzma_hint_range [OF sym])

lemma lzma_prefix_retry:
  assumes "lzma_lc cfg \<le> 8" "lzma_lp cfg \<le> 4" "lzma_pb cfg \<le> 4" "lzma_at cs cfg input n = Inl msg"
  shows "(\<exists>sz d. n < sz \<and> sz \<le> n + 273 \<and> lzma_at cs cfg input sz = Inr d \<and> length d = sz
        \<and> decompress_lzma_no_header cs input n cfg True = Ok (take n d))
    \<or> (\<nexists>sz d. n < sz \<and> sz \<le> n + 273 \<and> lzma_at cs cfg input sz = Inr d \<and> length d = sz)
      \<and> decompress_lzma_no_header cs input n cfg True = Err (BadInode ''LZMA decompression failed'')"
proof -
  let ?l = "(case lzma_hint msg n of Some h \<Rightarrow> [h] | None \<Rightarrow> []) @ [n + 1..<n + LZMA_MATCH_LEN_MAX + 1]"
  have "\<not> (8 < lzma_lc cfg \<or> 4 < lzma_lp cfg \<or> 4 < lzma_pb cfg)" using assms by auto
  then have eq: "decompress_lzma_no_header cs input n cfg True = lzma_retry cs (lzma_framed cfg) input n ?l"
    by (simp only: decompress_lzma_no_header_def if_False Let_def lzma_decode_to_eq bindR_simps assms(4)
        sum.case not_True_eq_False)
  have "\<forall>sz\<in>set ?l. n \<le> sz" unfolding lzma_retry_sizes by auto
  from lzma_retry_Ok [OF this, of cs cfg input, unfolded lzma_retry_sizes] show ?thesis
    unfolding eq Ball_def Bex_def greaterThanAtMost_iff by blast
qed

text \<open>C26: reading a prefix of \<open>n\<close> bytes of a headerless LZMA stream, on every branch. Properties out of
  range are an error. A decode told the size \<open>n\<close> that the codec accepts decides alone: \<open>n\<close> bytes are the
  result, any other number is a size mismatch and nothing more is tried. When the codec refuses the size
  \<open>n\<close>, because the prefix ends inside a match or for any other reason, the read succeeds exactly when the
  codec decodes the stream to some size of the next 273, the longest match, and the result is then the first
  \<open>n\<close> bytes of such a decode; else it fails. The size the codec's message hints at changes only the order of the
  attempts.\<close>

theorem lzma_prefix_search:
  "let r = decompress_lzma_no_header cs input n cfg True in
     if 8 < lzma_lc cfg \<or> 4 < lzma_lp cfg \<or> 4 < lzma_pb cfg
     then r = Err (BadInode ''LZMA cfg lc/lp/pb out of range'')
     else case lzma_at cs cfg input n of
       Inr d \<Rightarrow> r = (if length d = n then Ok d else Err (BadInode ''LZMA decompressed size mismatch''))
     | Inl msg \<Rightarrow>
         (\<exists>sz d. n < sz \<and> sz \<le> n + 273 \<and> lzma_at cs cfg input sz = Inr d \<and> length d = sz \<and> r = Ok (take n d))
         \<or> (\<nexists>sz d. n < sz \<and> sz \<le> n + 273 \<and> lzma_at cs cfg input sz = Inr d \<and> length d = sz)
           \<and> r = Err (BadInode ''LZMA decompression failed'')"
proof (cases "8 < lzma_lc cfg \<or> 4 < lzma_lp cfg \<or> 4 < lzma_pb cfg")
  case False
  then have c: "lzma_lc cfg \<le> 8" "lzma_lp cfg \<le> 4" "lzma_pb cfg \<le> 4" by auto
  show ?thesis
  proof (cases "lzma_at cs cfg input n")
    case (Inl msg)
    show ?thesis
      unfolding Let_def if_not_P [OF False] Inl sum.case by (rule lzma_prefix_retry [OF c Inl])
  next
    case (Inr d)
    then show ?thesis using False
      by (simp only: decompress_lzma_no_header_def Let_def if_False lzma_decode_to_eq bindR_simps sum.case
          not_True_eq_False)
  qed
qed (simp only: decompress_lzma_no_header_def Let_def if_True)

section \<open>Witnesses\<close>

text \<open>A codec of every kind that stores its input: enough to run each decoder.\<close>

definition demo_codecs :: "bytes codecs" where
  "demo_codecs = \<lparr>lz4_block = (\<lambda>i n. if length i = n then Some i else None),
     lzma_writes = (\<lambda>i. ([i], False)),
     lzma_sized = (\<lambda>i n. if n = 3 then Inr [1, 2, 3] else Inl ''decompressed to 3''),
     inflate = (\<lambda>i n. Some (take n i)),
     zstd_new = (\<lambda>f. Some (drop 6 f)),
     zstd_read = (\<lambda>z k. Some (take k z, drop k z))\<rparr>"

lemma demo_reads_within: "reads_within demo_codecs"
  by (simp add: reads_within_def demo_codecs_def)

theorem lz4_decode_prefix_mono_witness:
  "lz4_decode_prefix [0x20, 7, 8, 1, 0] 2 = Ok [7, 8] \<and> lz4_decode_prefix [0x20, 7, 8, 1, 0] 1 = Ok [7]"
proof -
  have two: "lz4_decode_prefix [0x20, 7, 8, 1, 0] 2 = Ok [7, 8]"
    by (simp add: lz4_decode_prefix_def lz4_sequences.simps lz4_length_def get_at_def
        usize_checked_add_def drop_bit_eq_div)
  then show ?thesis using lz4_decode_prefix_mono [OF two, of 1] by simp
qed

lemma copied_numeral:
  "copied off (numeral k) out = copied off (pred_numeral k) (out @ [out ! (length out - off)])"
  by (simp add: numeral_eq_Suc)

theorem lz4_decode_prefix_encoded_witness:
  "lz4_decode_prefix (lz4_encode [([7, 8], 1, 6)] [9]) 8 = Ok [7, 8, 8, 8, 8, 8, 8, 8]"
proof -
  have e: "lz4_expand [([7, 8], 1, 6)] [9] [] = [7, 8, 8, 8, 8, 8, 8, 8, 9]"
    by (simp add: copied_numeral)
  have "length (lz4_encode [([7, 8], 1, 6)] [9]) < 2 ^ 64"
    by (simp add: lz4_encode_def lz4_seq_bytes_def lz4_ext_of_def)
  from lz4_decode_prefix_encoded [OF _ this, of 8] show ?thesis by (simp only: e) simp
qed

theorem decode_fills_exactly_witness:
  "decode demo_codecs Deflate None True False [0, 0, 5, 6] 2 = Ok [5, 6] \<and> length [5, 6 :: byte] = 2"
proof -
  have d: "decode demo_codecs Deflate None True False [0, 0, 5, 6] 2 = Ok [5, 6]"
    by (simp add: decode_def decompress_deflate_def strip_leading_pad_def demo_codecs_def)
  then show ?thesis using decode_fills_exactly [OF demo_reads_within, of Deflate None True False "[0, 0, 5, 6]" 2] by simp
qed

lemma demo_zstd: "decompress_zstd demo_codecs [0x28, 0xb5, 0x2f, 0xfd, 0, 0, 9] 1 False True = Ok [9]"
proof -
  have "zstd_window_size [0x28, 0xb5, 0x2f, 0xfd, 0, 0, 9] = Ok 1024"
    by (simp add: zstd_window_size_def checked_shl_def get_at_def Let_def push_bit_eq_mult)
  moreover have "zstd_fill (zstd_read demo_codecs) 1 [9] [] = Ok ([9], [])"
    by (simp add: zstd_fill.simps demo_codecs_def)
  moreover have "\<not> max Z_EROFS_ZSTD_MAX_DICT_SIZE (word_of_nat 1) < 1024"
    by (simp add: Z_EROFS_ZSTD_MAX_DICT_SIZE_def max_def word_le_nat_alt word_less_nat_alt)
  moreover have "zstd_new demo_codecs [0x28, 0xb5, 0x2f, 0xfd, 0, 0, 9] = Some [9]" by (simp add: demo_codecs_def)
  ultimately show ?thesis by (simp add: decompress_zstd_def)
qed

theorem zstd_window_bounded_witness:
  "\<exists>w. zstd_window_size [0x28, 0xb5, 0x2f, 0xfd, 0, 0, 9] = Ok w \<and> unat w = 1024"
  using zstd_window_bounded [OF demo_zstd] by auto

theorem lzma_prefix_search_witness:
  "decompress_lzma_no_header demo_codecs [7] 2 lzma_cfg_default True = Ok [1, 2]"
proof -
  have at: "lzma_at demo_codecs lzma_cfg_default [7] sz = (if sz = 3 then Inr [1, 2, 3] else Inl ''decompressed to 3'')" for sz
    by (simp add: lzma_at_def demo_codecs_def)
  have c: "\<not> (8 < lzma_lc lzma_cfg_default \<or> 4 < lzma_lp lzma_cfg_default \<or> 4 < lzma_pb lzma_cfg_default)"
    by (simp add: lzma_cfg_default_def word_less_nat_alt)
  have two: "lzma_at demo_codecs lzma_cfg_default [7] 2 = Inl ''decompressed to 3''" by (simp add: at)
  have "\<exists>sz d. 2 < sz \<and> sz \<le> 2 + 273 \<and> lzma_at demo_codecs lzma_cfg_default [7] sz = Inr d \<and> length d = sz"
    by (intro exI [of _ 3] exI [of _ "[1, 2, 3]"]) (simp add: at)
  with lzma_prefix_search [of demo_codecs "[7]" 2 lzma_cfg_default, unfolded Let_def if_not_P [OF c] two sum.case]
  obtain sz d where
    "lzma_at demo_codecs lzma_cfg_default [7] sz = Inr d" and
    out: "decompress_lzma_no_header demo_codecs [7] 2 lzma_cfg_default True = Ok (take 2 d)" by blast
  then have "d = [1, 2, 3]" by (simp add: at split: if_splits)
  with out show ?thesis by simp
qed

end
