(* ===== verification/Zmap.thy ===== *)
theory Zmap
  imports Decompress
begin

text \<open>
  The logical-cluster index of compressed files (\<open>src/zmap.rs\<close>): the map header, the two index
  encodings (full 8-byte entries, and packs of 16-bit or 14-bit entries around a base block address),
  and the extent of the physical cluster that holds a byte of the file. \<open>pack_write_entry\<close> is the
  writer's (\<open>src/mkfs.rs\<close>). The memo of \<open>fragment_range\<close> (an \<open>OnceLock\<close>) only avoids recomputing a
  function of the header and the index, and is not part of the state here.
\<close>

named_theorems zmap_consts "constants of the compressed index"

definition Z_EROFS_COMPACT_MAP_HEADER_SIZE :: u64 where [zmap_consts]: "Z_EROFS_COMPACT_MAP_HEADER_SIZE = 8"
definition COMPACT_MAP_EBASE_ALIGN :: u64 where [zmap_consts]: "COMPACT_MAP_EBASE_ALIGN = 8"
definition Z_EROFS_LCLUSTER_INDEX_SIZE :: u64 where [zmap_consts]: "Z_EROFS_LCLUSTER_INDEX_SIZE = 8"
definition LCLUSTER_TYPE_PLAIN :: u8 where [zmap_consts]: "LCLUSTER_TYPE_PLAIN = 0"
definition LCLUSTER_TYPE_HEAD1 :: u8 where [zmap_consts]: "LCLUSTER_TYPE_HEAD1 = 1"
definition LCLUSTER_TYPE_NONHEAD :: u8 where [zmap_consts]: "LCLUSTER_TYPE_NONHEAD = 2"
definition LCLUSTER_TYPE_HEAD2 :: u8 where [zmap_consts]: "LCLUSTER_TYPE_HEAD2 = 3"
definition ADVISE_COMPACTED_2B :: u16 where [zmap_consts]: "ADVISE_COMPACTED_2B = 0x0001"
definition ADVISE_BIG_PCLUSTER_1 :: u16 where [zmap_consts]: "ADVISE_BIG_PCLUSTER_1 = 0x0002"
definition ADVISE_BIG_PCLUSTER_2 :: u16 where [zmap_consts]: "ADVISE_BIG_PCLUSTER_2 = 0x0004"
definition ADVISE_INLINE_PCLUSTER :: u16 where [zmap_consts]: "ADVISE_INLINE_PCLUSTER = 0x0008"
definition ADVISE_INTERLACED_PCLUSTER :: u16 where [zmap_consts]: "ADVISE_INTERLACED_PCLUSTER = 0x0010"
definition ADVISE_FRAGMENT_PCLUSTER :: u16 where [zmap_consts]: "ADVISE_FRAGMENT_PCLUSTER = 0x0020"
definition Z_EROFS_FRAGMENT_INODE_BIT :: u8 where [zmap_consts]: "Z_EROFS_FRAGMENT_INODE_BIT = 0x80"
definition LI_D0_CBLKCNT :: u32 where [zmap_consts]: "LI_D0_CBLKCNT = 0x800"
definition LI_PARTIAL_REF :: u16 where [zmap_consts]: "LI_PARTIAL_REF = 0x8000"
definition LI_D0_CBLKCNT_VAL_MASK :: u32 where [zmap_consts]: "LI_D0_CBLKCNT_VAL_MASK = LI_D0_CBLKCNT - 1"

text \<open>The largest span of a pcluster, from \<open>src/fs.rs\<close>: twelve mebibytes.\<close>

definition MAX_PCLUSTER_SIZE :: u64 where [zmap_consts]: "MAX_PCLUSTER_SIZE = 12 * 1024 * 1024"

section \<open>Data\<close>

record zmap_header =
  zh_fragment_off_or_idata_size :: u32
  zh_advise :: u16
  zh_algorithm_type :: u8
  zh_clusterbits_byte :: u8

record lcluster_entry =
  lc_cluster_type :: u8
  lc_advise_raw :: u16
  lc_clusterofs :: u16
  lc_u_raw :: u32
  lc_cblkcnt :: "u32 option"

record cluster_mapping =
  cm_pcluster_blkaddr :: u32
  cm_cluster_type :: u8
  cm_offset_in_lcluster :: u64
  cm_pcluster_blocks :: u32
  cm_lcluster_idx :: u64

record pcluster_extent =
  pe_blkaddr :: u32
  pe_block_count :: u64
  pe_source_start :: u64
  pe_source_end :: u64
  pe_cluster_type :: u8
  pe_head_lcluster_idx :: u64
  pe_is_last :: bool
  pe_head_clusterofs :: u16
  pe_device_id :: u16
  pe_partial_ref :: bool

datatype index_format = LegacyIndex | CompactIndex

record compact_pack_shape =
  pack_bytes :: u32
  vcnt :: u32
  encodebits :: u32

record pack_geom =
  g_pack_bytes :: u32
  g_vcnt :: u32
  g_encodebits :: u32
  g_lobits :: u32

record pack_location =
  pl_pack_offset :: u64
  pl_intra_pack :: u32
  pl_geom :: pack_geom

record zmap =
  zm_inode :: inode
  zm_header :: zmap_header
  zm_index_start_offset :: u64
  zm_lclusterbits :: u8
  zm_z_lclusterbits :: u32
  zm_format :: index_format
  zm_compact_4b_initial :: u32
  zm_compact_2b :: u32
  zm_big_pcluster :: bool
  zm_algo_head1_id :: u8
  zm_algo_head2_id :: u8

definition header_lclusterbits :: "zmap_header \<Rightarrow> u8" where
  "header_lclusterbits h = zh_clusterbits_byte h AND 0x0F"

definition idata_size :: "zmap_header \<Rightarrow> u16" where
  "idata_size h = ucast (drop_bit 16 (zh_fragment_off_or_idata_size h) AND 0xFFFF)"

definition fragment_off :: "zmap_header \<Rightarrow> u32" where
  "fragment_off h = zh_fragment_off_or_idata_size h"

definition bytes_per_lcluster :: "compact_pack_shape \<Rightarrow> u32" where
  "bytes_per_lcluster s = pack_bytes s div vcnt s"

definition bytes_for :: "compact_pack_shape \<Rightarrow> u64 \<Rightarrow> u64" where
  "bytes_for s lclusters = div_ceil lclusters (ucast (vcnt s)) * ucast (pack_bytes s)"

definition COMPACT_4B :: compact_pack_shape where [zmap_consts]:
  "COMPACT_4B = \<lparr>pack_bytes = 8, vcnt = 2, encodebits = 16\<rparr>"
definition COMPACT_2B :: compact_pack_shape where [zmap_consts]:
  "COMPACT_2B = \<lparr>pack_bytes = 32, vcnt = 16, encodebits = 14\<rparr>"

definition compact_alignment_pad :: "u64 \<Rightarrow> u32" where
  "compact_alignment_pad ebase =
     (let align = ucast (pack_bytes COMPACT_2B);
          per_lcluster = ucast (bytes_per_lcluster COMPACT_4B);
          lclusters_per_align = align div per_lcluster
      in ucast (((align - ebase mod align) div per_lcluster) AND (lclusters_per_align - 1)))"

definition from_shape :: "compact_pack_shape \<Rightarrow> u32 \<Rightarrow> pack_geom" where
  "from_shape s z_lclusterbits =
     \<lparr>g_pack_bytes = pack_bytes s, g_vcnt = vcnt s, g_encodebits = encodebits s,
      g_lobits = max z_lclusterbits 12\<rparr>"

definition four_byte :: "u32 \<Rightarrow> pack_geom" where "four_byte z = from_shape COMPACT_4B z"
definition two_byte :: "u32 \<Rightarrow> pack_geom" where "two_byte z = from_shape COMPACT_2B z"

text \<open>\<open>1u64 << n\<close>; the release profile takes the shift modulo 64.\<close>

definition one_shl :: "u32 \<Rightarrow> u64" where "one_shl n = push_bit (unat n mod 64) 1"

section \<open>Opening the map\<close>

definition zmap_open :: "blockdev \<Rightarrow> superblock \<Rightarrow> inode \<Rightarrow> zmap result" where
  "zmap_open dev sb ino =
     (let header_off = body_end ino sb in
      bindR (read_at dev header_off 8) (\<lambda>h.
      bindR (u32_at h 0) (\<lambda>frag.
      bindR (u16_at h 4) (\<lambda>advise.
      bindR (idx h 6) (\<lambda>algorithm_type.
      bindR (idx h 7) (\<lambda>clusterbits_byte.
      let header = \<lparr>zh_fragment_off_or_idata_size = frag, zh_advise = advise,
                    zh_algorithm_type = algorithm_type, zh_clusterbits_byte = clusterbits_byte\<rparr>;
          big_pcluster = (advise AND (ADVISE_BIG_PCLUSTER_1 OR ADVISE_BIG_PCLUSTER_2) \<noteq> 0);
          lclusterbits = clusterbits_byte AND 0x0F;
          format = (case fmt_layout (i_format ino) of
                      Compression \<Rightarrow> CompactIndex
                    | CompressionLegacy \<Rightarrow> LegacyIndex
                    | _ \<Rightarrow> LegacyIndex);
          ebase = next_multiple_of header_off COMPACT_MAP_EBASE_ALIGN + Z_EROFS_COMPACT_MAP_HEADER_SIZE;
          index_start_offset = (case format of LegacyIndex \<Rightarrow> ebase + 8 | CompactIndex \<Rightarrow> ebase);
          z_lclusterbits = ucast (sb_blkszbits sb) + ucast lclusterbits;
          lcluster_size = one_shl z_lclusterbits;
          count = div_ceil (i_size ino) lcluster_size
      in if 2 ^ 32 \<le> unat count then Err (BadInode ''inode too large for compact zmap'')
         else
           let totalidx = (ucast count :: u32);
               regions = (if format = CompactIndex then
                   let initial = min (compact_alignment_pad ebase) totalidx;
                       middle = (if advise AND ADVISE_COMPACTED_2B \<noteq> 0 \<and> initial < totalidx
                                 then let remaining = totalidx - initial
                                      in remaining - remaining mod vcnt COMPACT_2B
                                 else 0)
                   in (initial, middle)
                 else (0, 0))
           in Ok \<lparr>zm_inode = ino, zm_header = header, zm_index_start_offset = index_start_offset,
                  zm_lclusterbits = lclusterbits, zm_z_lclusterbits = z_lclusterbits,
                  zm_format = format, zm_compact_4b_initial = fst regions,
                  zm_compact_2b = snd regions, zm_big_pcluster = big_pcluster,
                  zm_algo_head1_id = algorithm_type AND 0x0F,
                  zm_algo_head2_id = drop_bit 4 algorithm_type AND 0x0F\<rparr>))))))"

definition header_algo :: "zmap \<Rightarrow> u8 \<Rightarrow> algorithm result" where
  "header_algo zm t =
     (if t = LCLUSTER_TYPE_HEAD1 then algorithm_from_id (zm_algo_head1_id zm)
      else if t = LCLUSTER_TYPE_HEAD2 then algorithm_from_id (zm_algo_head2_id zm)
      else Err (BadInode ''header_algo: cluster_type has no codec''))"

definition inode_size :: "zmap \<Rightarrow> u64" where "inode_size zm = i_size (zm_inode zm)"

definition lcluster_size :: "zmap \<Rightarrow> u64" where "lcluster_size zm = one_shl (zm_z_lclusterbits zm)"

definition n_lclusters :: "zmap \<Rightarrow> u64" where
  "n_lclusters zm = div_ceil (i_size (zm_inode zm)) (lcluster_size zm)"

definition has_inline_tail :: "zmap \<Rightarrow> bool" where
  "has_inline_tail zm = (zh_advise (zm_header zm) AND ADVISE_INLINE_PCLUSTER \<noteq> 0)"

definition index_array_bytes :: "zmap \<Rightarrow> u64" where
  "index_array_bytes zm =
     (case zm_format zm of
        LegacyIndex \<Rightarrow> n_lclusters zm * Z_EROFS_LCLUSTER_INDEX_SIZE
      | CompactIndex \<Rightarrow>
          (let totalidx = (ucast (n_lclusters zm) :: u32);
               initial = zm_compact_4b_initial zm;
               middle = zm_compact_2b zm;
               tail = totalidx - initial - middle;
               initial_bytes = div_ceil (ucast initial) 2 * 8;
               middle_bytes = div_ceil (ucast middle) 16 * 32;
               tail_bytes = div_ceil (ucast tail) 2 * 8
           in initial_bytes + middle_bytes + tail_bytes))"

definition has_full_fragment :: "zmap \<Rightarrow> bool" where
  "has_full_fragment zm = (zh_clusterbits_byte (zm_header zm) AND Z_EROFS_FRAGMENT_INODE_BIT \<noteq> 0)"

definition has_fragment :: "zmap \<Rightarrow> bool" where
  "has_fragment zm = (zh_advise (zm_header zm) AND ADVISE_FRAGMENT_PCLUSTER \<noteq> 0
     \<or> zh_clusterbits_byte (zm_header zm) AND Z_EROFS_FRAGMENT_INODE_BIT \<noteq> 0)"

definition has_interlaced_pcluster :: "zmap \<Rightarrow> bool" where
  "has_interlaced_pcluster zm = (zh_advise (zm_header zm) AND ADVISE_INTERLACED_PCLUSTER \<noteq> 0)"

definition tail_inline_offset_and_size :: "zmap \<Rightarrow> (u64 \<times> u32) option" where
  "tail_inline_offset_and_size zm =
     (if \<not> has_inline_tail zm then None
      else if has_fragment zm then None
      else Some (zm_index_start_offset zm + index_array_bytes zm, ucast (idata_size (zm_header zm))))"

section \<open>Reading one index entry\<close>

definition is_head_or_plain :: "u8 \<Rightarrow> bool" where
  "is_head_or_plain t =
     (t = LCLUSTER_TYPE_PLAIN \<or> t = LCLUSTER_TYPE_HEAD1 \<or> t = LCLUSTER_TYPE_HEAD2)"

definition read_lcluster_legacy :: "zmap \<Rightarrow> blockdev \<Rightarrow> u64 \<Rightarrow> lcluster_entry result" where
  "read_lcluster_legacy zm dev i =
     (let off = zm_index_start_offset zm + i * Z_EROFS_LCLUSTER_INDEX_SIZE in
      bindR (read_at dev off 8) (\<lambda>buf.
      bindR (u16_at buf 0) (\<lambda>advise_raw.
      let cluster_type = ucast (advise_raw AND 3) in
      bindR (u16_at buf 2) (\<lambda>clusterofs.
      bindR (u32_at buf 4) (\<lambda>u_raw.
        Ok \<lparr>lc_cluster_type = cluster_type, lc_advise_raw = advise_raw, lc_clusterofs = clusterofs,
            lc_u_raw = u_raw,
            lc_cblkcnt =
              (if zm_big_pcluster zm \<and> cluster_type = LCLUSTER_TYPE_NONHEAD \<and> u_raw AND LI_D0_CBLKCNT \<noteq> 0
               then Some (u_raw AND LI_D0_CBLKCNT_VAL_MASK) else None)\<rparr>)))))"

definition locate_compact_pack :: "zmap \<Rightarrow> u64 \<Rightarrow> pack_location result" where
  "locate_compact_pack zm i =
     (let initial = (ucast (zm_compact_4b_initial zm) :: u64);
          middle = (ucast (zm_compact_2b zm) :: u64);
          z_lcb = zm_z_lclusterbits zm;
          at_pack = (\<lambda>geom start k.
            Ok \<lparr>pl_pack_offset = start + (k div ucast (g_vcnt geom)) * ucast (g_pack_bytes geom),
                pl_intra_pack = ucast (k mod ucast (g_vcnt geom)), pl_geom = geom\<rparr>)
      in if i < initial then at_pack (four_byte z_lcb) (zm_index_start_offset zm) i
         else
           let after_initial = i - initial;
               initial_bytes = bytes_for COMPACT_4B initial
           in if after_initial < middle
              then at_pack (two_byte z_lcb) (zm_index_start_offset zm + initial_bytes) after_initial
              else
                let after_middle = after_initial - middle;
                    middle_bytes = bytes_for COMPACT_2B middle
                in at_pack (four_byte z_lcb) (zm_index_start_offset zm + initial_bytes + middle_bytes)
                     after_middle)"

definition decode_packed_entry :: "pack_geom \<Rightarrow> bytes \<Rightarrow> u32 \<Rightarrow> (u8 \<times> u32) result" where
  "decode_packed_entry geom bitstream intra =
     (let bit_pos = unat (g_encodebits geom * intra);
          byte_pos = bit_pos div 8;
          shift = bit_pos mod 8;
          window = map (\<lambda>k. if byte_pos + k < length bitstream then bitstream ! (byte_pos + k) else 0) [0..<4];
          v = drop_bit shift (le32 window)
      in if 32 \<le> g_lobits geom then Err (BadInode ''compact lobits out of range'')
         else
           let lo_mask = push_bit (unat (g_lobits geom)) 1 - 1;
               lo = v AND lo_mask;
               cluster_type = ucast (drop_bit (unat (g_lobits geom)) v AND 3)
           in Ok (cluster_type, lo))"

text \<open>\<open>lo as i32\<close> never turns negative, so the walk below goes down.\<close>

lemma decode_lo_nonneg: "decode_packed_entry geom bs i = Ok (t, lo) \<Longrightarrow> 0 \<le> sint lo"
proof -
  assume "decode_packed_entry geom bs i = Ok (t, lo)"
  then obtain v :: u32 where n: "g_lobits geom < 32" and lo: "lo = v AND (push_bit (unat (g_lobits geom)) 1 - 1)"
    by (auto simp: decode_packed_entry_def Let_def split: if_splits)
  have k: "unat (g_lobits geom) < 32" using n by (simp add: word_less_nat_alt)
  have "lo = take_bit (unat (g_lobits geom)) v"
    by (simp add: lo take_bit_eq_mask mask_eq_decr_exp)
  then have "\<not> bit lo 31" using k by (simp add: bit_take_bit_iff)
  then show ?thesis using bit_last_iff [of lo] by (simp add: not_less)
qed

function count_simple_from :: "pack_geom \<Rightarrow> bytes \<Rightarrow> int \<Rightarrow> u32 \<Rightarrow> u32 result" where
  "count_simple_from geom bitstream i nblk =
     (if 0 < i then
        let i = i - 1 in
        bindR (decode_packed_entry geom bitstream (word_of_int i)) (\<lambda>p.
          if fst p = LCLUSTER_TYPE_NONHEAD \<and> snd p AND LI_D0_CBLKCNT \<noteq> 0
          then Err (BadInode ''CBLKCNT marker without BIG_PCLUSTER advise'')
          else
            let i = (if fst p = LCLUSTER_TYPE_NONHEAD then i - sint (snd p) else i) in
            if 0 \<le> i
            then bindR (ok_or (checked_add nblk 1) (BadInode ''compact nblk overflow''))
                   (\<lambda>nblk. count_simple_from geom bitstream i nblk)
            else count_simple_from geom bitstream i nblk)
      else Ok nblk)"
  by pat_completeness auto
termination
  by (relation "measure (\<lambda>(geom, bs, i, nblk). nat i)")
    (auto dest: decode_lo_nonneg split: if_splits)

definition compact_count_simple :: "pack_geom \<Rightarrow> bytes \<Rightarrow> u32 \<Rightarrow> u32 result" where
  "compact_count_simple geom bitstream intra_pack = count_simple_from geom bitstream (sint intra_pack) 1"

text \<open>The walk from \<open>j = intra_pack - 1\<close> down to \<open>0\<close>.\<close>

fun count_big_from :: "pack_geom \<Rightarrow> bytes \<Rightarrow> u32 \<Rightarrow> nat \<Rightarrow> u32 \<Rightarrow> u32 result" where
  "count_big_from geom bitstream intra_pack 0 nblk = Ok nblk"
| "count_big_from geom bitstream intra_pack (Suc n) nblk =
     (let j = word_of_nat n in
      bindR (decode_packed_entry geom bitstream j) (\<lambda>(ty, lo).
        if ty = LCLUSTER_TYPE_NONHEAD \<and> lo AND LI_D0_CBLKCNT \<noteq> 0
        then bindR (ok_or (checked_add nblk (lo AND LI_D0_CBLKCNT_VAL_MASK)) (BadInode ''compact nblk overflow''))
               (\<lambda>nblk. count_big_from geom bitstream intra_pack n nblk)
        else if ty \<noteq> LCLUSTER_TYPE_NONHEAD then
          bindR (if j + 1 < intra_pack
                 then bindR (decode_packed_entry geom bitstream (j + 1)) (\<lambda>(n_ty, n_lo).
                        Ok (n_ty = LCLUSTER_TYPE_NONHEAD \<and> n_lo AND LI_D0_CBLKCNT \<noteq> 0))
                 else Ok False)
            (\<lambda>next_is_cblkcnt.
              if next_is_cblkcnt then count_big_from geom bitstream intra_pack n nblk
              else bindR (ok_or (checked_add nblk 1) (BadInode ''compact nblk overflow''))
                     (\<lambda>nblk. count_big_from geom bitstream intra_pack n nblk))
        else count_big_from geom bitstream intra_pack n nblk))"

definition compact_count_big_pcluster :: "pack_geom \<Rightarrow> bytes \<Rightarrow> u32 \<Rightarrow> u32 result" where
  "compact_count_big_pcluster geom bitstream intra_pack =
     (if intra_pack = 0 then Ok 0 else count_big_from geom bitstream intra_pack (unat intra_pack) 0)"

definition compact_count_pre_head_or_plain :: "pack_geom \<Rightarrow> bytes \<Rightarrow> u32 \<Rightarrow> bool \<Rightarrow> u32 result" where
  "compact_count_pre_head_or_plain geom bitstream intra_pack big_pcluster =
     (if big_pcluster then compact_count_big_pcluster geom bitstream intra_pack
      else compact_count_simple geom bitstream intra_pack)"

definition compact_nonhead_delta0 :: "pack_geom \<Rightarrow> bytes \<Rightarrow> u32 \<Rightarrow> u32 \<Rightarrow> u16 result" where
  "compact_nonhead_delta0 geom bitstream intra_pack lo_at_intra =
     (if intra_pack + 1 \<noteq> g_vcnt geom then Ok (ucast (lo_at_intra AND 0xFFFF))
      else if intra_pack = 0 then Err (BadInode ''compact pack vcnt < 2'')
      else bindR (decode_packed_entry geom bitstream (intra_pack - 1)) (\<lambda>(prev_ty, prev_lo).
        let derived = (if prev_ty \<noteq> LCLUSTER_TYPE_NONHEAD then 0
                       else if prev_lo AND LI_D0_CBLKCNT \<noteq> 0 then 1
                       else prev_lo)
        in bindR (ok_or (checked_add derived 1) (BadInode ''NONHEAD delta0 overflow'')) (\<lambda>d0.
             Ok (ucast (d0 AND 0xFFFF)))))"

text \<open>The stack buffer holds 32 bytes, of which the read fills \<open>pack_bytes\<close>.\<close>

definition read_pack :: "blockdev \<Rightarrow> pack_location \<Rightarrow> (bytes \<times> u32) result" where
  "read_pack dev loc =
     (let n = unat (g_pack_bytes (pl_geom loc)) in
      if 32 < n then Panic
      else bindR (read_at dev (pl_pack_offset loc) n) (\<lambda>bs.
        let buf = bs @ replicate (32 - n) 0 in
        bindR (u32_at buf (n - 4)) (\<lambda>base. Ok (buf, base))))"

definition read_lcluster_compact :: "zmap \<Rightarrow> blockdev \<Rightarrow> u64 \<Rightarrow> lcluster_entry result" where
  "read_lcluster_compact zm dev i =
     bindR (locate_compact_pack zm i) (\<lambda>loc.
     bindR (read_pack dev loc) (\<lambda>(pack, base_blkaddr).
     let bitstream_len = unat (g_pack_bytes (pl_geom loc) - 4) in
     bindR (slice pack 0 bitstream_len) (\<lambda>bitstream.
     bindR (decode_packed_entry (pl_geom loc) bitstream (pl_intra_pack loc)) (\<lambda>(cluster_type, lo).
       if is_head_or_plain cluster_type then
         bindR (compact_count_pre_head_or_plain (pl_geom loc) bitstream (pl_intra_pack loc)
                  (zm_big_pcluster zm)) (\<lambda>nblk.
         bindR (ok_or (checked_add base_blkaddr nblk) (BadInode ''compact pcluster blkaddr overflow''))
           (\<lambda>pcluster_blkaddr.
             Ok \<lparr>lc_cluster_type = cluster_type, lc_advise_raw = ucast cluster_type,
                 lc_clusterofs = ucast lo, lc_u_raw = pcluster_blkaddr, lc_cblkcnt = None\<rparr>))
       else if cluster_type = LCLUSTER_TYPE_NONHEAD then
         if zm_big_pcluster zm \<and> lo AND LI_D0_CBLKCNT \<noteq> 0
         then Ok \<lparr>lc_cluster_type = cluster_type, lc_advise_raw = ucast cluster_type,
                  lc_clusterofs = 0, lc_u_raw = 1, lc_cblkcnt = Some (lo AND LI_D0_CBLKCNT_VAL_MASK)\<rparr>
         else bindR (compact_nonhead_delta0 (pl_geom loc) bitstream (pl_intra_pack loc) lo) (\<lambda>delta0.
           Ok \<lparr>lc_cluster_type = cluster_type, lc_advise_raw = ucast cluster_type,
               lc_clusterofs = 0, lc_u_raw = ucast delta0, lc_cblkcnt = None\<rparr>)
       else Err (BadInode ''invalid compact cluster type bits'')))))"

definition read_lcluster :: "zmap \<Rightarrow> blockdev \<Rightarrow> u64 \<Rightarrow> lcluster_entry result" where
  "read_lcluster zm dev i =
     (if n_lclusters zm \<le> i then Err OutOfRange
      else case zm_format zm of
          LegacyIndex \<Rightarrow> read_lcluster_legacy zm dev i
        | CompactIndex \<Rightarrow> read_lcluster_compact zm dev i)"

section \<open>Extents\<close>

text \<open>How far a NONHEAD entry points back: a marker entry carries an implicit one.\<close>

definition delta0 :: "lcluster_entry \<Rightarrow> u64" where
  "delta0 e = (case lc_cblkcnt e of Some _ \<Rightarrow> 1 | None \<Rightarrow> ucast (lc_u_raw e AND 0xFFFF))"

definition map_offset :: "zmap \<Rightarrow> blockdev \<Rightarrow> u64 \<Rightarrow> cluster_mapping result" where
  "map_offset zm dev file_offset =
     (if i_size (zm_inode zm) \<le> file_offset then Err OutOfRange
      else
        let lcsize = lcluster_size zm;
            lcluster_idx = file_offset div lcsize;
            in_lcluster = file_offset mod lcsize
        in bindR (read_lcluster zm dev lcluster_idx) (\<lambda>entry.
           bindR (if is_head_or_plain (lc_cluster_type entry) then Ok (lc_u_raw entry, lc_cluster_type entry)
                  else if lc_cluster_type entry = LCLUSTER_TYPE_NONHEAD then
                    if delta0 entry = 0 \<or> lcluster_idx < delta0 entry
                    then Err (BadInode ''NONHEAD delta out of range'')
                    else bindR (read_lcluster zm dev (lcluster_idx - delta0 entry)) (\<lambda>head_entry.
                           if \<not> is_head_or_plain (lc_cluster_type head_entry)
                           then Err (BadInode ''NONHEAD does not lead to HEAD'')
                           else Ok (lc_u_raw head_entry, lc_cluster_type head_entry))
                  else Err (BadInode ''invalid cluster type bits''))
             (\<lambda>(blkaddr, ct).
               Ok \<lparr>cm_pcluster_blkaddr = blkaddr, cm_cluster_type = ct, cm_offset_in_lcluster = in_lcluster,
                   cm_pcluster_blocks = 1, cm_lcluster_idx = lcluster_idx\<rparr>)))"

text \<open>
  The loops of \<open>pcluster_extent\<close> and of the fragment range, over the reader of index entries they
  call: back to the head that owns an offset, forward to the next head, and back from the last entry.
\<close>

lemma unat_diff_less: "d \<noteq> 0 \<Longrightarrow> \<not> c < d \<Longrightarrow> unat (c - d) < unat (c :: u64)"
proof -
  assume d: "d \<noteq> 0" "\<not> c < d"
  then have "unat (c - d) = unat c - unat d" by (simp add: unat_sub_no_wrap not_less)
  moreover have "0 < unat d" using d(1) by (metis unat_eq_zero gr0I)
  moreover have "unat d \<le> unat c" using d(2) by (simp add: not_less word_le_nat_alt)
  ultimately show ?thesis by linarith
qed

lemma unat_pred_less: "c \<noteq> 0 \<Longrightarrow> unat (c - 1) < unat (c :: u64)"
  by (rule unat_diff_less) (simp_all add: word_less_1)

lemma unat_succ: "c < d \<Longrightarrow> unat (c + 1) = unat c + 1" for c d :: u64
  using unsigned_less [of d, where 'a = nat] by (simp add: word_less_nat_alt unat_add_no_wrap)

function find_head :: "(u64 \<Rightarrow> lcluster_entry result) \<Rightarrow> u64 \<Rightarrow> u64 \<Rightarrow> u64 \<Rightarrow> (u64 \<times> lcluster_entry) result" where
  "find_head rd lcsize lcluster_idx in_lcluster =
     bindR (rd lcluster_idx) (\<lambda>entry.
       if is_head_or_plain (lc_cluster_type entry) then
         if in_lcluster < ucast (lc_clusterofs entry) then
           if lcluster_idx = 0 then Err (BadInode ''HEAD clusterofs > offset at lcluster 0'')
           else find_head rd lcsize (lcluster_idx - 1) lcsize
         else Ok (lcluster_idx, entry)
       else if lc_cluster_type entry = LCLUSTER_TYPE_NONHEAD then
         if delta0 entry = 0 \<or> lcluster_idx < delta0 entry
         then Err (BadInode ''NONHEAD delta out of range'')
         else
           let head_idx = lcluster_idx - delta0 entry in
           bindR (rd head_idx) (\<lambda>head_entry.
             if \<not> is_head_or_plain (lc_cluster_type head_entry)
             then Err (BadInode ''NONHEAD does not lead to HEAD'')
             else Ok (head_idx, head_entry))
       else Err (BadInode ''invalid cluster type bits''))"
  by pat_completeness auto
termination
  by (relation "measure (\<lambda>(rd, lcs, i, k). unat i)")
    (auto intro: unat_pred_less)

function scan_heads :: "(u64 \<Rightarrow> lcluster_entry result) \<Rightarrow> u64 \<Rightarrow> u64 \<Rightarrow> u32 option
    \<Rightarrow> ((u64 \<times> lcluster_entry) option \<times> u32 option) result" where
  "scan_heads rd scan_end i cblkcnt_blocks =
     (if i < scan_end then
        bindR (rd i) (\<lambda>e.
          if is_head_or_plain (lc_cluster_type e) then Ok (Some (i, e), cblkcnt_blocks)
          else scan_heads rd scan_end (i + 1)
                 (if cblkcnt_blocks = None
                  then (case lc_cblkcnt e of Some b \<Rightarrow> Some b | None \<Rightarrow> cblkcnt_blocks)
                  else cblkcnt_blocks))
      else Ok (None, cblkcnt_blocks))"
  by pat_completeness auto
termination
  by (relation "measure (\<lambda>(rd, n, i, c). unat n - unat i)")
    (auto simp: unat_succ word_less_nat_alt)

function walk_fragment :: "(u64 \<Rightarrow> lcluster_entry result) \<Rightarrow> u64 \<Rightarrow> lcluster_entry \<Rightarrow> (u64 \<times> lcluster_entry) result" where
  "walk_fragment rd cursor entry =
     (if is_head_or_plain (lc_cluster_type entry) then Ok (cursor, entry)
      else if lc_cluster_type entry = LCLUSTER_TYPE_NONHEAD then
        if delta0 entry = 0 \<or> cursor < delta0 entry
        then Err (BadInode ''fragment NONHEAD delta out of range'')
        else
          let cursor = cursor - delta0 entry in
          bindR (rd cursor) (\<lambda>entry. walk_fragment rd cursor entry)
      else Err (BadInode ''fragment lcluster: invalid cluster type''))"
  by pat_completeness auto
termination
  by (relation "measure (\<lambda>(rd, c, e). unat c)")
    (auto intro: unat_diff_less)

definition pcluster_extent_at :: "zmap \<Rightarrow> blockdev \<Rightarrow> u64 \<Rightarrow> pcluster_extent result" where
  "pcluster_extent_at zm dev file_offset =
     (if i_size (zm_inode zm) \<le> file_offset then Err OutOfRange
      else
        let lcsize = lcluster_size zm;
            n = n_lclusters zm
        in bindR (find_head (read_lcluster zm dev) lcsize (file_offset div lcsize) (file_offset mod lcsize))
          (\<lambda>(head_idx, head_entry).
           let source_start = head_idx * lcsize + ucast (lc_clusterofs head_entry);
               reach = max (MAX_PCLUSTER_SIZE div lcsize) 1 + 1;
               scan_end = min (sat_add (sat_add head_idx 1) reach) n
           in bindR (scan_heads (read_lcluster zm dev) scan_end (head_idx + 1) None)
             (\<lambda>(next_head, cblkcnt_blocks).
              let source_end = (case next_head of
                      Some (nh_idx, nh) \<Rightarrow> min (nh_idx * lcsize + ucast (lc_clusterofs nh)) (i_size (zm_inode zm))
                    | None \<Rightarrow> i_size (zm_inode zm));
                  is_last = (i_size (zm_inode zm) \<le> source_end)
              in bindR (case cblkcnt_blocks of
                     Some blocks \<Rightarrow>
                       if blocks = 0 then Err (BadInode ''CBLKCNT marker with zero block count'')
                       else Ok (ucast blocks)
                   | None \<Rightarrow> Ok 1)
                (\<lambda>block_count.
                  Ok \<lparr>pe_blkaddr = lc_u_raw head_entry, pe_block_count = block_count,
                      pe_source_start = source_start, pe_source_end = source_end,
                      pe_cluster_type = lc_cluster_type head_entry, pe_head_lcluster_idx = head_idx,
                      pe_is_last = is_last, pe_head_clusterofs = lc_clusterofs head_entry,
                      pe_device_id = 0,
                      pe_partial_ref = (lc_advise_raw head_entry AND LI_PARTIAL_REF \<noteq> 0)\<rparr>))))"

definition fragment_range :: "zmap \<Rightarrow> blockdev \<Rightarrow> (u32 \<times> u64 \<times> u64) option result" where
  "fragment_range zm dev =
     (if \<not> has_fragment zm then Ok None
      else if i_size (zm_inode zm) = 0 then Ok None
      else if has_full_fragment zm
      then Ok (Some (fragment_off (zm_header zm), 0, i_size (zm_inode zm)))
      else if n_lclusters zm = 0 then Ok None
      else
        let last_idx = n_lclusters zm - 1;
            lcsize = lcluster_size zm
        in bindR (read_lcluster zm dev last_idx) (\<lambda>entry.
           let last_byte_in_lcluster = (i_size (zm_inode zm) - 1) mod lcsize in
           bindR (if is_head_or_plain (lc_cluster_type entry)
                     \<and> last_byte_in_lcluster < ucast (lc_clusterofs entry) \<and> 0 < last_idx
                  then bindR (read_lcluster zm dev (last_idx - 1)) (\<lambda>entry. Ok (last_idx - 1, entry))
                  else Ok (last_idx, entry)) (\<lambda>(cursor, entry).
           bindR (walk_fragment (read_lcluster zm dev) cursor entry) (\<lambda>(cursor, entry).
           let source_start = cursor * lcsize + ucast (lc_clusterofs entry);
               source_end = i_size (zm_inode zm)
           in if source_end \<le> source_start then Ok None
              else Ok (Some (fragment_off (zm_header zm), source_start, source_end))))))"

section \<open>Reading never panics\<close>

declare count_simple_from.simps [simp del] find_head.simps [simp del] scan_heads.simps [simp del]
  walk_fragment.simps [simp del]

lemma returns_decode_packed [returns_intros, simp]: "returns (decode_packed_entry geom bs i)"
  by (simp add: decode_packed_entry_def Let_def)

lemma returns_count_simple [returns_intros, simp]: "returns (count_simple_from geom bs i nblk)"
proof (induction geom bs i nblk rule: count_simple_from.induct)
  case (1 geom bs i nblk)
  show ?case
    by (subst count_simple_from.simps) (auto simp: Let_def intro!: returns_bindR returns_if 1)
qed

lemma returns_count_big [returns_intros, simp]: "returns (count_big_from geom bs n j nblk)"
proof (induction j arbitrary: nblk)
  case (Suc j)
  then show ?case by (auto simp: Let_def intro!: returns_bindR returns_case_prod returns_if)
qed simp

lemma returns_compact_count [returns_intros, simp]:
  "returns (compact_count_pre_head_or_plain geom bs n big)"
  by (simp add: compact_count_pre_head_or_plain_def compact_count_big_pcluster_def compact_count_simple_def)

lemma returns_nonhead_delta0 [returns_intros, simp]: "returns (compact_nonhead_delta0 geom bs n lo)"
  unfolding compact_nonhead_delta0_def Let_def by (intro returns_intros) simp_all

lemma four_two_byte [simp]:
  "g_pack_bytes (four_byte z) = 8" "g_vcnt (four_byte z) = 2" "g_encodebits (four_byte z) = 16"
  "g_lobits (four_byte z) = max z 12" "g_pack_bytes (two_byte z) = 32" "g_vcnt (two_byte z) = 16"
  "g_encodebits (two_byte z) = 14" "g_lobits (two_byte z) = max z 12"
  by (simp_all add: four_byte_def two_byte_def from_shape_def COMPACT_4B_def COMPACT_2B_def)

lemma locate_Ok:
  obtains loc where "locate_compact_pack zm i = Ok loc"
    and "pl_geom loc = four_byte (zm_z_lclusterbits zm) \<or> pl_geom loc = two_byte (zm_z_lclusterbits zm)"
  by (cases "locate_compact_pack zm i") (auto simp: locate_compact_pack_def Let_def split: if_splits)

lemma returns_read_compact [returns_intros, simp]: "returns (read_lcluster_compact zm dev i)"
proof -
  obtain loc where loc: "locate_compact_pack zm i = Ok loc"
    and g: "pl_geom loc = four_byte (zm_z_lclusterbits zm) \<or> pl_geom loc = two_byte (zm_z_lclusterbits zm)"
    by (rule locate_Ok)
  from g have n: "g_pack_bytes (pl_geom loc) = 8 \<or> g_pack_bytes (pl_geom loc) = 32" by auto
  have "returns (read_pack dev loc)"
    using n by (auto simp: read_pack_def Let_def intro!: returns_bindR dest!: read_at_length)
  moreover have "length (fst p) = 32" if "read_pack dev loc = Ok p" for p
    using that n by (auto simp: read_pack_def Let_def dest!: read_at_length)
  ultimately show ?thesis
    unfolding read_lcluster_compact_def loc Let_def using n
    by (auto intro!: returns_intros split: prod.splits)
qed

lemma returns_read_lcluster [returns_intros, simp]: "returns (read_lcluster zm dev i)"
proof -
  have "returns (read_lcluster_legacy zm dev i)"
    by (auto simp: read_lcluster_legacy_def Let_def intro!: returns_bindR dest!: read_at_length)
  then show ?thesis by (simp add: read_lcluster_def split: index_format.split)
qed

lemma returns_zmap_open [returns_intros, simp]: "returns (zmap_open dev sb ino)"
  by (auto simp: zmap_open_def Let_def intro!: returns_bindR dest!: read_at_length)

section \<open>The contract of an index\<close>

text \<open>
  What the walks rely on: reading an entry returns, and an index past the last lcluster is an error.
  A block count is a
  masked field. Everything about an image that is not trusted follows from these laws.
\<close>

locale lcluster_index =
  fixes rd :: "u64 \<Rightarrow> lcluster_entry result" and n :: u64
  assumes rd_returns: "returns (rd i)"
    and rd_range: "n \<le> i \<Longrightarrow> rd i = Err OutOfRange"
    and rd_marker: "rd i = Ok e \<Longrightarrow> lc_cblkcnt e = Some b \<Longrightarrow> b \<le> 2047"
begin

lemma rd_less: "rd i = Ok e \<Longrightarrow> i < n"
  by (metis rd_range not_less result.distinct(1))

lemma returns_find_head: "returns (find_head rd lcsize i k)"
proof (induction "unat i" arbitrary: i k rule: less_induct)
  case less
  have "returns (find_head rd lcsize (i - 1) lcsize)" if "i \<noteq> 0"
    using that by (intro less unat_pred_less)
  then show ?case
    by (subst find_head.simps) (auto simp: Let_def intro!: returns_bindR rd_returns)
qed

lemma find_head_Ok:
  "find_head rd lcsize i k = Ok (h, e) \<Longrightarrow> rd h = Ok e \<and> is_head_or_plain (lc_cluster_type e) \<and> h \<le> i"
proof (induction "unat i" arbitrary: i k rule: less_induct)
  case less
  have ih: "rd h = Ok e \<and> is_head_or_plain (lc_cluster_type e) \<and> h \<le> i"
    if "i \<noteq> 0" "find_head rd lcsize (i - 1) lcsize = Ok (h, e)"
  proof -
    have "rd h = Ok e \<and> is_head_or_plain (lc_cluster_type e) \<and> h \<le> i - 1"
      using that by (intro less.hyps [OF unat_pred_less]) simp_all
    moreover have "i - 1 \<le> i" using unat_pred_less [OF that(1)] by (simp add: word_le_nat_alt)
    ultimately show ?thesis by (auto intro: order_trans)
  qed
  have le: "i - delta0 x \<le> i" if "delta0 x \<noteq> 0" "\<not> i < delta0 x" for x
    using unat_diff_less [OF that] by (simp add: word_le_nat_alt)
  from less.prems show ?case
    by (subst (asm) find_head.simps) (auto simp: Let_def word_gt_0 split: if_splits dest: ih intro: le)
qed

lemma returns_scan_heads: "returns (scan_heads rd stop i c)"
proof (induction "unat stop - unat i" arbitrary: i c rule: less_induct)
  case less
  have "returns (scan_heads rd stop (i + 1) c')" if "i < stop" for c'
    using that unat_succ [OF that] by (intro less) (simp add: word_less_nat_alt)
  then show ?case
    by (subst scan_heads.simps) (auto intro!: returns_bindR rd_returns)
qed

lemma returns_walk_fragment: "returns (walk_fragment rd c e)"
proof (induction "unat c" arbitrary: c e rule: less_induct)
  case less
  have "returns (walk_fragment rd (c - delta0 e) x)" if "delta0 e \<noteq> 0" "\<not> c < delta0 e" for x
    using unat_diff_less [OF that] by (intro less)
  then show ?case
    by (subst walk_fragment.simps) (auto simp: Let_def intro!: returns_bindR rd_returns)
qed

lemma scan_heads_marker:
  "scan_heads rd stop i c = Ok (r, c') \<Longrightarrow> (\<forall>b. c = Some b \<longrightarrow> b \<le> 2047) \<Longrightarrow> (\<forall>b. c' = Some b \<longrightarrow> b \<le> 2047)"
proof (induction "unat stop - unat i" arbitrary: i c rule: less_induct)
  case less
  show ?case
  proof (cases "i < stop")
    case True
    with less.prems obtain x where x: "rd i = Ok x" by (subst (asm) scan_heads.simps) auto
    let ?c = "if c = None then (case lc_cblkcnt x of Some b \<Rightarrow> Some b | None \<Rightarrow> c) else c"
    have c: "\<forall>b. ?c = Some b \<longrightarrow> b \<le> 2047" using less.prems(2) rd_marker [OF x] by (auto split: option.splits)
    show ?thesis
    proof (cases "is_head_or_plain (lc_cluster_type x)")
      case head: True
      with less.prems True x show ?thesis by (subst (asm) scan_heads.simps) simp
    next
      case False
      with less.prems(1) True x have "scan_heads rd stop (i + 1) ?c = Ok (r, c')"
        by (subst (asm) scan_heads.simps) simp
      from less.hyps [OF _ this c] show ?thesis
        using True unat_succ [OF True] by (simp add: word_less_nat_alt)
    qed
  next
    case False
    with less.prems show ?thesis by (subst (asm) scan_heads.simps) simp
  qed
qed

lemma scan_heads_Ok:
  "scan_heads rd stop i c = Ok (Some (j, e), c') \<Longrightarrow>
     rd j = Ok e \<and> is_head_or_plain (lc_cluster_type e) \<and> i \<le> j \<and> j < stop"
proof (induction "unat stop - unat i" arbitrary: i c rule: less_induct)
  case less
  have ih: "rd j = Ok e \<and> is_head_or_plain (lc_cluster_type e) \<and> i \<le> j \<and> j < stop"
    if "i < stop" "scan_heads rd stop (i + 1) c'' = Ok (Some (j, e), c')" for c''
  proof -
    have "rd j = Ok e \<and> is_head_or_plain (lc_cluster_type e) \<and> i + 1 \<le> j \<and> j < stop"
      using that(2) unat_succ [OF that(1)] that(1)
      by (intro less.hyps) (simp_all add: word_less_nat_alt)
    then show ?thesis using unat_succ [OF that(1)] by (auto simp: word_le_nat_alt)
  qed
  show ?case
  proof (cases "i < stop")
    case True
    with less.prems obtain x where x: "rd i = Ok x" by (subst (asm) scan_heads.simps) auto
    show ?thesis
    proof (cases "is_head_or_plain (lc_cluster_type x)")
      case head: True
      with less.prems True x show ?thesis by (subst (asm) scan_heads.simps) simp
    next
      case False
      with less.prems True x show ?thesis by (subst (asm) scan_heads.simps) (auto dest!: ih)
    qed
  next
    case False
    with less.prems show ?thesis by (subst (asm) scan_heads.simps) simp
  qed
qed

end

lemma read_lcluster_marker:
  assumes "read_lcluster zm dev i = Ok e" "lc_cblkcnt e = Some b"
  shows "b \<le> 2047"
proof -
  have m: "x AND LI_D0_CBLKCNT_VAL_MASK \<le> 2047" for x
    using word_and_le1 [of x LI_D0_CBLKCNT_VAL_MASK] by (simp add: zmap_consts)
  from assms show ?thesis
    by (auto simp: read_lcluster_def read_lcluster_legacy_def read_lcluster_compact_def Let_def m
        split: index_format.splits if_splits)
qed

interpretation zmi: lcluster_index "read_lcluster zm dev" "n_lclusters zm" for zm dev
  by unfold_locales (simp_all add: read_lcluster_marker, simp add: read_lcluster_def)

lemma returns_pcluster_extent [returns_intros, simp]: "returns (pcluster_extent_at zm dev off)"
  unfolding pcluster_extent_at_def Let_def
  by (intro returns_intros zmi.returns_find_head zmi.returns_scan_heads) (auto split: option.splits)

lemma returns_fragment_range [returns_intros, simp]: "returns (fragment_range zm dev)"
  unfolding fragment_range_def Let_def
  by (intro returns_intros zmi.returns_walk_fragment returns_read_lcluster returns_simps)

lemma returns_map_offset [returns_intros, simp]: "returns (map_offset zm dev off)"
  unfolding map_offset_def Let_def by (auto intro!: returns_intros)

section \<open>The index as a list of entries\<close>

text \<open>
  The abstract view of a map: the list of its entries. In a well-formed one every NONHEAD entry leads to
  the nearest head before it, no more than \<open>m\<close> lclusters away, a head starts inside its own lcluster,
  and the first entry is a head that starts the file. \<open>owner\<close> is the head whose extent holds an offset,
  and the extent of a head ends where the next one starts, or with the file.
\<close>

abbreviation entry_head :: "lcluster_entry \<Rightarrow> bool" where
  "entry_head e \<equiv> is_head_or_plain (lc_cluster_type e)"

definition index_is :: "(u64 \<Rightarrow> lcluster_entry result) \<Rightarrow> u64 \<Rightarrow> lcluster_entry list \<Rightarrow> bool" where
  "index_is rd n es = (unat n = length es \<and> (\<forall>i<length es. rd (word_of_nat i) = Ok (es ! i)))"

definition nonhead_ok :: "nat \<Rightarrow> lcluster_entry list \<Rightarrow> nat \<Rightarrow> bool" where
  "nonhead_ok m es i =
     (let d = unat (delta0 (es ! i)) in
      lc_cluster_type (es ! i) = LCLUSTER_TYPE_NONHEAD \<and> lc_cblkcnt (es ! i) \<noteq> Some 0
      \<and> 0 < d \<and> d \<le> m \<and> d \<le> i \<and> entry_head (es ! (i - d)) \<and> (\<forall>j<d. \<not> entry_head (es ! (i - j))))"

definition wf_entries :: "nat \<Rightarrow> nat \<Rightarrow> lcluster_entry list \<Rightarrow> bool" where
  "wf_entries lcsize m es =
     ((\<forall>i<length es. if entry_head (es ! i) then unat (lc_clusterofs (es ! i)) < lcsize
                     else nonhead_ok m es i)
      \<and> (es = [] \<or> entry_head (es ! 0) \<and> lc_clusterofs (es ! 0) = 0))"

definition start_of :: "nat \<Rightarrow> lcluster_entry list \<Rightarrow> nat \<Rightarrow> nat" where
  "start_of lcsize es i = i * lcsize + unat (lc_clusterofs (es ! i))"

definition head_of :: "lcluster_entry list \<Rightarrow> nat \<Rightarrow> nat" where
  "head_of es i = (if entry_head (es ! i) then i else i - unat (delta0 (es ! i)))"

definition owner :: "nat \<Rightarrow> lcluster_entry list \<Rightarrow> nat \<Rightarrow> nat" where
  "owner lcsize es off =
     (let i = off div lcsize in
      if entry_head (es ! i) \<and> off mod lcsize < unat (lc_clusterofs (es ! i)) then head_of es (i - 1)
      else head_of es i)"

definition run_of :: "lcluster_entry list \<Rightarrow> nat \<Rightarrow> lcluster_entry list" where
  "run_of es h = takeWhile (\<lambda>e. \<not> entry_head e) (drop (Suc h) es)"

definition end_of :: "nat \<Rightarrow> nat \<Rightarrow> lcluster_entry list \<Rightarrow> nat \<Rightarrow> nat" where
  "end_of lcsize fsize es h =
     (let j = Suc h + length (run_of es h) in
      if j < length es then min (start_of lcsize es j) fsize else fsize)"

fun first_marker :: "lcluster_entry list \<Rightarrow> u32 option" where
  "first_marker [] = None"
| "first_marker (e # es) = (case lc_cblkcnt e of Some b \<Rightarrow> Some b | None \<Rightarrow> first_marker es)"

lemma head_of_facts:
  assumes "wf_entries lcsize m es" "i < length es"
  shows "head_of es i \<le> i" and "entry_head (es ! head_of es i)"
    and "head_of es i < j \<Longrightarrow> j \<le> i \<Longrightarrow> \<not> entry_head (es ! j)"
    and "i \<le> head_of es i + m"
proof -
  have ok: "if entry_head (es ! i) then unat (lc_clusterofs (es ! i)) < lcsize else nonhead_ok m es i"
    using assms by (simp add: wf_entries_def)
  then show "head_of es i \<le> i" "entry_head (es ! head_of es i)" "i \<le> head_of es i + m"
    by (auto simp: head_of_def nonhead_ok_def Let_def split: if_splits)
  assume j: "head_of es i < j" "j \<le> i"
  have ne: "\<not> entry_head (es ! i)" using j by (auto simp: head_of_def)
  with ok have "\<forall>k<unat (delta0 (es ! i)). \<not> entry_head (es ! (i - k))" by (simp add: nonhead_ok_def Let_def)
  moreover have "i - j < unat (delta0 (es ! i))" "i - (i - j) = j" using j ne by (auto simp: head_of_def)
  ultimately show "\<not> entry_head (es ! j)" by metis
qed

lemma run_of_facts:
  assumes "h < length es"
  defines "j \<equiv> Suc h + length (run_of es h)"
  shows "j \<le> length es" and "j < length es \<Longrightarrow> entry_head (es ! j)"
    and "h < i \<Longrightarrow> i < j \<Longrightarrow> \<not> entry_head (es ! i)"
proof -
  let ?P = "\<lambda>e. \<not> entry_head e"
  have le: "length (run_of es h) \<le> length es - Suc h"
    unfolding run_of_def by (metis length_takeWhile_le length_drop)
  then show "j \<le> length es" using assms(1) by (simp add: j_def)
  show "entry_head (es ! j)" if "j < length es"
  proof -
    have "length (run_of es h) < length (drop (Suc h) es)" using that by (simp add: j_def)
    then have "\<not> ?P (drop (Suc h) es ! length (run_of es h))"
      unfolding run_of_def by (rule nth_length_takeWhile)
    moreover have "drop (Suc h) es ! length (run_of es h) = es ! j"
      using that by (simp add: j_def)
    ultimately show ?thesis by simp
  qed
  show "\<not> entry_head (es ! i)" if "h < i" "i < j"
  proof -
    have k: "i - Suc h < length (run_of es h)" using that by (simp add: j_def)
    then have "run_of es h ! (i - Suc h) = drop (Suc h) es ! (i - Suc h)"
      unfolding run_of_def by (rule takeWhile_nth)
    also have "\<dots> = es ! i" using that k le by simp
    finally have "run_of es h ! (i - Suc h) = es ! i" .
    moreover have "run_of es h ! (i - Suc h) \<in> set (run_of es h)" using k by simp
    ultimately have "es ! i \<in> set (run_of es h)" by simp
    then show ?thesis unfolding run_of_def by (auto dest: set_takeWhileD)
  qed
qed

lemma run_of_head:
  assumes "wf_entries lcsize m es" "h < length es" "entry_head (es ! h)"
    and "h < i" "i < Suc h + length (run_of es h)"
  shows "head_of es i = h"
proof -
  have i: "i < length es" using assms(5) run_of_facts(1) [OF assms(2)] by linarith
  note f = head_of_facts [OF assms(1) i]
  have "\<not> head_of es i < h" using f(3) [of h] assms by auto
  moreover have "\<not> h < head_of es i" 
    using run_of_facts(3) [OF assms(2), of "head_of es i"] f(1,2) assms(5) by auto
  ultimately show ?thesis by simp
qed

lemma run_of_length:
  assumes "wf_entries lcsize m es" "h < length es" "entry_head (es ! h)"
  shows "length (run_of es h) \<le> m"
proof (rule ccontr)
  assume "\<not> length (run_of es h) \<le> m"
  then have i: "h < Suc (h + m)" "Suc (h + m) < Suc h + length (run_of es h)" by simp_all
  have "Suc (h + m) < length es" using i run_of_facts(1) [OF assms(2)] by linarith
  from head_of_facts(4) [OF assms(1) this] run_of_head [OF assms i] show False by simp
qed

text \<open>The head \<open>owner\<close> names is the one whose extent holds the offset.\<close>

lemma owner_facts:
  assumes wf: "wf_entries lcsize m es" and i: "off div lcsize < length es" and pos: "0 < lcsize"
    and sz: "off < fsize"
  defines "h \<equiv> owner lcsize es off"
  shows "h < length es" and "entry_head (es ! h)" and "start_of lcsize es h \<le> off"
    and "off < end_of lcsize fsize es h"
proof -
  define i where "i = off div lcsize"
  have off: "off = i * lcsize + off mod lcsize" "off mod lcsize < lcsize" using pos by (simp_all add: i_def)
  have ofs: "unat (lc_clusterofs (es ! k)) < lcsize" if "k < length es" "entry_head (es ! k)" for k
    using wf that by (auto simp: wf_entries_def)
  have h: "h < length es \<and> entry_head (es ! h) \<and> start_of lcsize es h \<le> off
      \<and> (\<forall>j. h < j \<and> j < length es \<and> entry_head (es ! j) \<longrightarrow> off < start_of lcsize es j)"
  proof (cases "entry_head (es ! i) \<and> off mod lcsize < unat (lc_clusterofs (es ! i))")
    case True
    have "i \<noteq> 0"
    proof
      assume "i = 0"
      with wf i have "lc_clusterofs (es ! i) = 0" by (auto simp: wf_entries_def i_def)
      with True show False by simp
    qed
    then obtain i' where i': "i = Suc i'" by (cases i) auto
    with i have il: "i' < length es" by (simp add: i_def)
    have hd: "h = head_of es i'" using True by (simp add: h_def owner_def Let_def i_def [symmetric] i')
    note f = head_of_facts [OF wf il, folded hd]
    have hl: "h < length es" using f(1) il by simp
    have "start_of lcsize es h \<le> h * lcsize + lcsize" using ofs [OF hl f(2)] by (simp add: start_of_def)
    also have "\<dots> \<le> i * lcsize" using f(1) mult_le_mono1 [of "Suc h" i lcsize] by (simp add: i')
    finally have "start_of lcsize es h \<le> off" using off(1) by linarith
    moreover have "off < start_of lcsize es j" if j: "h < j" "entry_head (es ! j)" for j
    proof -
      have "i' < j" using f(3) [OF j(1)] j(2) by (meson not_le)
      then have "j = i \<or> Suc i \<le> j" by (auto simp: i')
      then show ?thesis
      proof
        assume "j = i" then show ?thesis using True off(1) unfolding start_of_def by simp
      next
        assume "Suc i \<le> j"
        from mult_le_mono1 [OF this, of lcsize] have "i * lcsize + lcsize \<le> j * lcsize" by simp
        with off show ?thesis unfolding start_of_def by linarith
      qed
    qed
    ultimately show ?thesis using hl f(2) by blast
  next
    case False
    have hd: "h = head_of es i" using False by (auto simp: h_def owner_def Let_def i_def [symmetric])
    note f = head_of_facts [OF wf i [folded i_def], folded hd]
    have hl: "h < length es" using f(1) i by (simp add: i_def)
    have "start_of lcsize es h \<le> off"
    proof (cases "h = i")
      case True
      with False f(2) have "unat (lc_clusterofs (es ! i)) \<le> off mod lcsize" by auto
      with off(1) show ?thesis unfolding start_of_def True by linarith
    next
      case False
      with f(1) have "Suc h \<le> i" by simp
      from mult_le_mono1 [OF this, of lcsize] have "h * lcsize + lcsize \<le> i * lcsize" by simp
      with ofs [OF hl f(2)] off(1) show ?thesis unfolding start_of_def by linarith
    qed
    moreover have "off < start_of lcsize es j" if j: "h < j" "entry_head (es ! j)" for j
    proof -
      have "Suc i \<le> j" using f(3) [OF j(1)] j(2) by (meson not_less_eq_eq)
      from mult_le_mono1 [OF this, of lcsize] have "i * lcsize + lcsize \<le> j * lcsize" by simp
      with off show ?thesis unfolding start_of_def by linarith
    qed
    ultimately show ?thesis using hl f(2) by blast
  qed
  then show "h < length es" "entry_head (es ! h)" "start_of lcsize es h \<le> off" by simp_all
  let ?j = "Suc h + length (run_of es h)"
  have "off < start_of lcsize es ?j" if "?j < length es"
    using h that run_of_facts(2) [of h es] by auto
  then show "off < end_of lcsize fsize es h" using sz by (auto simp: end_of_def Let_def)
qed

text \<open>The loops of the model compute these notions.\<close>

context lcluster_index
begin

lemma index_at: "index_is rd n es \<Longrightarrow> i < length es \<Longrightarrow> rd (word_of_nat i) = Ok (es ! i)"
  by (simp add: index_is_def)

lemma index_small: "index_is rd n es \<Longrightarrow> length es < 2 ^ 64"
  using unsigned_less [of n, where 'a = nat] by (simp add: index_is_def)

lemma nonhead_back:
  assumes "index_is rd n es" "wf_entries lcs m es" "i < length es" "\<not> entry_head (es ! i)"
  shows "lc_cluster_type (es ! i) = LCLUSTER_TYPE_NONHEAD" "delta0 (es ! i) \<noteq> 0"
    and "\<not> word_of_nat i < delta0 (es ! i)" and "word_of_nat i - delta0 (es ! i) = word_of_nat (head_of es i)"
    and "head_of es i < length es" "entry_head (es ! head_of es i)"
proof -
  have ok: "nonhead_ok m es i" using assms(2-4) by (auto simp: wf_entries_def)
  let ?d = "unat (delta0 (es ! i))"
  from ok have d: "0 < ?d" "?d \<le> i" by (simp_all add: nonhead_ok_def Let_def)
  have iu: "unat (word_of_nat i :: u64) = i"
    using assms(3) index_small [OF assms(1)] by (simp add: unat_of_nat_small)
  show "lc_cluster_type (es ! i) = LCLUSTER_TYPE_NONHEAD" using ok by (simp add: nonhead_ok_def Let_def)
  show "delta0 (es ! i) \<noteq> 0" using d(1) by auto
  show nl: "\<not> word_of_nat i < delta0 (es ! i)" using d(2) by (simp add: word_less_nat_alt iu)
  show "word_of_nat i - delta0 (es ! i) = word_of_nat (head_of es i)"
    using assms(4) d(2) by (simp add: head_of_def of_nat_diff)
  show "head_of es i < length es" "entry_head (es ! head_of es i)"
    using head_of_facts(1,2) [OF assms(2,3)] assms(3) by simp_all
qed

lemma find_head_direct:
  assumes "index_is rd n es" "wf_entries lcs m es" "i < length es"
    and "entry_head (es ! i) \<Longrightarrow> unat (lc_clusterofs (es ! i)) \<le> unat k"
  shows "find_head rd lcsize (word_of_nat i) k = Ok (word_of_nat (head_of es i), es ! head_of es i)"
proof (cases "entry_head (es ! i)")
  case True
  then have "\<not> k < ucast (lc_clusterofs (es ! i))"
    using assms(4) by (simp add: word_less_nat_alt unat_ucast_up)
  with True show ?thesis
    by (subst find_head.simps) (simp add: index_at [OF assms(1,3)] head_of_def)
next
  case False
  note b = nonhead_back [OF assms(1-3) False]
  from False b(1) have nh: "\<not> is_head_or_plain LCLUSTER_TYPE_NONHEAD" by simp
  show ?thesis
    by (subst find_head.simps)
      (simp add: index_at [OF assms(1,3)] b nh index_at [OF assms(1) b(5)])
qed

lemma find_head_owner:
  assumes "index_is rd n es" "wf_entries (unat lcsize) m es" "off div unat lcsize < length es"
    and "off < 2 ^ 64" "lcsize \<noteq> 0"
  shows "find_head rd lcsize (word_of_nat (off div unat lcsize)) (word_of_nat (off mod unat lcsize))
           = Ok (word_of_nat (owner (unat lcsize) es off), es ! owner (unat lcsize) es off)"
proof -
  let ?i = "off div unat lcsize" and ?k = "off mod unat lcsize"
  have k: "unat (word_of_nat ?k :: u64) = ?k"
    using assms(4) by (intro unat_of_nat_small) (simp add: le_less_trans [OF mod_less_eq_dividend])
  show ?thesis
  proof (cases "entry_head (es ! ?i) \<and> ?k < unat (lc_clusterofs (es ! ?i))")
    case False
    then show ?thesis
      using find_head_direct [OF assms(1-3), of "word_of_nat ?k"] k
      by (auto simp: owner_def Let_def not_less)
  next
    case True
    have "?i \<noteq> 0"
    proof
      assume "?i = 0"
      with assms(2,3) have "lc_clusterofs (es ! ?i) = 0" by (auto simp: wf_entries_def)
      with True show False by simp
    qed
    then obtain i' where i': "?i = Suc i'" by (cases ?i) auto
    have il: "i' < length es" using assms(3) i' by simp
    have nz: "(word_of_nat (Suc i') :: u64) \<noteq> 0"
    proof -
      have "unat (word_of_nat (Suc i') :: u64) = Suc i'"
        using assms(3) index_small [OF assms(1)] i' by (intro unat_of_nat_small) simp
      then show ?thesis by (metis unat_0 nat.simps(3))
    qed
    have gt: "word_of_nat ?k < (ucast (lc_clusterofs (es ! ?i)) :: u64)"
      using True by (simp add: word_less_nat_alt k unat_ucast_up)
    have rd: "rd (word_of_nat ?i) = Ok (es ! ?i)" by (rule index_at [OF assms(1,3)])
    have "find_head rd lcsize (word_of_nat ?i) (word_of_nat ?k) = find_head rd lcsize (word_of_nat ?i - 1) lcsize"
      unfolding find_head.simps [of rd lcsize "word_of_nat ?i"] rd bindR_simps
      using True gt nz by (simp add: i')
    also have "word_of_nat ?i - 1 = (word_of_nat i' :: u64)" by (simp add: i')
    also have "find_head rd lcsize (word_of_nat i') lcsize = Ok (word_of_nat (head_of es i'), es ! head_of es i')"
      using assms(2) il by (intro find_head_direct [OF assms(1,2) il]) (auto simp: wf_entries_def)
    also have "head_of es i' = owner (unat lcsize) es off" using True by (simp add: owner_def Let_def i')
    finally show ?thesis .
  qed
qed

lemma walk_fragment_head_of:
  assumes "index_is rd n es" "wf_entries lcs m es" "i < length es"
  shows "walk_fragment rd (word_of_nat i) (es ! i) = Ok (word_of_nat (head_of es i), es ! head_of es i)"
proof (cases "entry_head (es ! i)")
  case True
  then show ?thesis by (subst walk_fragment.simps) (simp add: head_of_def)
next
  case False
  note b = nonhead_back [OF assms False]
  from False b(1) have nh: "\<not> is_head_or_plain LCLUSTER_TYPE_NONHEAD" by simp
  have h: "walk_fragment rd (word_of_nat (head_of es i)) (es ! head_of es i)
      = Ok (word_of_nat (head_of es i), es ! head_of es i)"
    using b(6) by (subst walk_fragment.simps) simp
  show ?thesis
    by (subst walk_fragment.simps) (simp add: b nh index_at [OF assms(1) b(5)] h)
qed

lemma scan_heads_run:
  assumes "index_is rd n es" "i \<le> t" "t \<le> length es"
  defines "r \<equiv> takeWhile (\<lambda>e. \<not> entry_head e) (drop i (take t es))"
  shows "scan_heads rd (word_of_nat t) (word_of_nat i) c =
           Ok (if i + length r < t then Some (word_of_nat (i + length r), es ! (i + length r)) else None,
               if c = None then first_marker r else c)"
  using assms(2) unfolding r_def
proof (induction "t - i" arbitrary: i c)
  case 0
  then show ?case by (subst scan_heads.simps) simp
next
  case (Suc d)
  from Suc.hyps(2) have it: "i < t" by simp
  have small: "t < 2 ^ 64" using assms(3) index_small [OF assms(1)] by simp
  have lt: "(word_of_nat i :: u64) < word_of_nat t"
    using it small by (simp add: word_less_nat_alt unat_of_nat_small)
  have rd: "rd (word_of_nat i) = Ok (es ! i)" using it assms(3) by (intro index_at [OF assms(1)]) simp
  have dr: "drop i (take t es) = es ! i # drop (Suc i) (take t es)"
    using it assms(3) Cons_nth_drop_Suc [of i "take t es"] by simp
  have ih: "scan_heads rd (word_of_nat t) (word_of_nat i + 1) c' = 
      (let r = takeWhile (\<lambda>e. \<not> entry_head e) (drop (Suc i) (take t es)) in
       Ok (if Suc i + length r < t then Some (word_of_nat (Suc i + length r), es ! (Suc i + length r)) else None,
           if c' = None then first_marker r else c'))" for c'
    using Suc.hyps(1) [of "Suc i" c'] Suc.hyps(2) it by (simp add: Let_def add.commute)
  show ?case
    unfolding scan_heads.simps [of rd _ "word_of_nat i"] rd bindR_simps dr using lt it
    by (auto simp: ih Let_def split: option.splits)
qed

end

section \<open>Extents of an opened map\<close>

definition span_lclusters :: "zmap \<Rightarrow> nat" where
  "span_lclusters zm = max (unat MAX_PCLUSTER_SIZE div unat (lcluster_size zm)) 1"

definition wf_index :: "zmap \<Rightarrow> blockdev \<Rightarrow> lcluster_entry list \<Rightarrow> bool" where
  "wf_index zm dev es =
     (index_is (read_lcluster zm dev) (n_lclusters zm) es
      \<and> wf_entries (unat (lcluster_size zm)) (span_lclusters zm) es)"

lemma zmap_open_Ok:
  assumes "sb_ok sb" "zmap_open dev sb ino = Ok zm"
  shows "zm_inode zm = ino" and "9 \<le> unat (zm_z_lclusterbits zm)" "unat (zm_z_lclusterbits zm) \<le> 31"
    and "unat (n_lclusters zm) < 2 ^ 32"
proof -
  from assms(2) obtain cb :: u8 where
    z: "zm_z_lclusterbits zm = ucast (sb_blkszbits sb) + ucast (cb AND 0x0F)"
    and ino: "zm_inode zm = ino" and n: "unat (n_lclusters zm) < 2 ^ 32"
    by (auto simp: zmap_open_def Let_def n_lclusters_def lcluster_size_def not_le split: if_splits)
  have b: "9 \<le> unat (sb_blkszbits sb)" "unat (sb_blkszbits sb) \<le> 16" using sb_ok_blkszbits [OF assms(1)] by simp_all
  have c: "unat (cb AND 0x0F) < 16" unfolding and_masks using take_bit_less_word [of 4 cb] by simp
  have "unat (ucast (sb_blkszbits sb) + ucast (cb AND 0x0F) :: u32) = unat (sb_blkszbits sb) + unat (cb AND 0x0F)"
    using b c by (subst unat_add_no_wrap) (simp_all add: unat_ucast_up)
  with b c show "9 \<le> unat (zm_z_lclusterbits zm)" "unat (zm_z_lclusterbits zm) \<le> 31" by (simp_all add: z)
  show "zm_inode zm = ino" "unat (n_lclusters zm) < 2 ^ 32" by (rule ino, rule n)
qed

lemma zmap_open_sizes:
  assumes "sb_ok sb" "zmap_open dev sb ino = Ok zm"
  shows "unat (lcluster_size zm) = 2 ^ unat (zm_z_lclusterbits zm)" and "lcluster_size zm \<noteq> 0"
    and "512 \<le> unat (lcluster_size zm)" and "unat (lcluster_size zm) \<le> 2 ^ 31"
    and "unat (n_lclusters zm) * unat (lcluster_size zm) < 2 ^ 63"
    and "unat off < unat (i_size ino) \<Longrightarrow> unat off div unat (lcluster_size zm) < unat (n_lclusters zm)"
proof -
  note z = zmap_open_Ok [OF assms]
  have p31: "(2 :: nat) ^ unat (zm_z_lclusterbits zm) \<le> 2 ^ 31" using z(3) by (rule power_increasing) simp
  then show l: "unat (lcluster_size zm) = 2 ^ unat (zm_z_lclusterbits zm)"
    unfolding lcluster_size_def one_shl_def using z(3) by (subst unat_push_bit) simp_all
  then show nz: "lcluster_size zm \<noteq> 0" by auto
  have "(2 :: nat) ^ 9 \<le> 2 ^ unat (zm_z_lclusterbits zm)" using z(2) by (rule power_increasing) simp
  then show "512 \<le> unat (lcluster_size zm)" by (simp add: l)
  show l31: "unat (lcluster_size zm) \<le> 2 ^ 31" unfolding l by (rule p31)
  have "unat (n_lclusters zm) * unat (lcluster_size zm) < 2 ^ 32 * 2 ^ 31"
    using z(4) l31 nz by (intro mult_less_le_imp_less) (auto simp: unat_gt_0)
  then show "unat (n_lclusters zm) * unat (lcluster_size zm) < 2 ^ 63" by simp
  assume off: "unat off < unat (i_size ino)"
  have "unat off div unat (lcluster_size zm) * unat (lcluster_size zm) < unat (i_size ino)"
    using off by (rule le_less_trans [OF div_times_less_eq_dividend])
  then show "unat off div unat (lcluster_size zm) < unat (n_lclusters zm)"
    unfolding n_lclusters_def z(1) by (subst less_div_ceil_iff [OF nz])
qed

lemma start_of_bound:
  assumes "wf_entries lcsize m es" "h < length es" "entry_head (es ! h)"
  shows "start_of lcsize es h < length es * lcsize"
proof -
  have "unat (lc_clusterofs (es ! h)) < lcsize" using assms by (auto simp: wf_entries_def)
  moreover have "Suc h * lcsize \<le> length es * lcsize" using assms(2) by (intro mult_le_mono1) simp
  ultimately show ?thesis unfolding start_of_def by simp
qed

lemma unat_start_of:
  assumes "wf_entries (unat lcsize) m es" "h < length es" "entry_head (es ! h)"
    and "length es * unat lcsize < 2 ^ 63" "lcsize \<noteq> (0 :: u64)"
  shows "unat (word_of_nat h * lcsize + ucast (lc_clusterofs (es ! h)) :: u64) = start_of (unat lcsize) es h"
proof -
  note b = start_of_bound [OF assms(1-3)]
  have l: "1 \<le> unat lcsize" using assms(5) by (metis One_nat_def Suc_leI unat_gt_0)
  have "h * 1 \<le> h * unat lcsize" using l by (rule mult_le_mono2)
  then have "h \<le> h * unat lcsize" by (simp only: mult_1_right)
  moreover have "(2 :: nat) ^ 63 < 2 ^ 64" by simp
  ultimately have h: "h < 2 ^ 64" using b assms(4) unfolding start_of_def by linarith
  have hu: "unat (word_of_nat h :: u64) = h" using h by (simp add: unat_of_nat_small)
  have m: "unat (word_of_nat h * lcsize :: u64) = h * unat lcsize"
    using b assms(4) unfolding start_of_def by (subst unat_mult_no_wrap) (simp_all add: hu)
  show ?thesis
    using b assms(4) unfolding start_of_def
    by (subst unat_add_no_wrap) (simp_all add: m unat_ucast_up)
qed

text \<open>The forward walk covers everything up to the next head.\<close>

lemma scan_reach:
  assumes "wf_entries lcsize m es" "h < length es" "entry_head (es ! h)"
  defines "t \<equiv> min (h + 2 + m) (length es)"
  shows "takeWhile (\<lambda>e. \<not> entry_head e) (drop (Suc h) (take t es)) = run_of es h"
    and "(Suc h + length (run_of es h) < t) = (Suc h + length (run_of es h) < length es)"
proof -
  let ?j = "Suc h + length (run_of es h)"
  note r = run_of_facts [OF assms(2)] run_of_length [OF assms(1-3)]
  show e: "(?j < t) = (?j < length es)" using r(4) by (auto simp: t_def)
  have jt: "?j \<le> t" using r(1,4) by (simp add: t_def)
  have "take (length (run_of es h)) (drop (Suc h) es) = run_of es h"
    unfolding run_of_def by (metis takeWhile_eq_take)
  then have sp: "drop (Suc h) (take ?j es) = run_of es h" by (simp add: drop_take)
  have dt: "drop (Suc h) (take t es) = run_of es h @ drop ?j (take t es)"
  proof -
    have "take t es = take ?j (take t es) @ drop ?j (take t es)" by (rule append_take_drop_id [symmetric])
    also have "take ?j (take t es) = take ?j es" using jt by (simp add: min_def)
    finally have "drop (Suc h) (take t es) = drop (Suc h) (take ?j es @ drop ?j (take t es))" by simp
    also have "\<dots> = run_of es h @ drop ?j (take t es)"
      using r(1) unfolding drop_append sp by simp
    finally show ?thesis .
  qed
  have all: "\<forall>e\<in>set (run_of es h). \<not> entry_head e"
    unfolding run_of_def by (auto dest: set_takeWhileD)
  show "takeWhile (\<lambda>e. \<not> entry_head e) (drop (Suc h) (take t es)) = run_of es h"
  proof (cases "?j < t")
    case True
    with jt have "drop ?j (take t es) = es ! ?j # drop (Suc ?j) (take t es)"
      using Cons_nth_drop_Suc [of ?j "take t es"] e by (simp add: t_def)
    then show ?thesis unfolding dt using all r(2) True e
      by (simp add: takeWhile_append2 takeWhile_eq_all_conv)
  next
    case False
    then show ?thesis unfolding dt using all jt by (simp add: takeWhile_eq_all_conv)
  qed
qed

lemma first_marker_pos:
  assumes "wf_entries lcsize m es" "h < length es"
  shows "first_marker (run_of es h) \<noteq> Some 0"
proof -
  have "first_marker es' \<noteq> Some 0" if "\<forall>e\<in>set es'. lc_cblkcnt e \<noteq> Some 0" for es'
    using that by (induction es') (auto split: option.splits)
  moreover have "lc_cblkcnt e \<noteq> Some 0" if e: "e \<in> set (run_of es h)" for e
  proof -
    have "\<not> entry_head e" using e unfolding run_of_def by (auto dest: set_takeWhileD)
    moreover have "e \<in> set (drop (Suc h) es)" using e unfolding run_of_def by (auto dest: set_takeWhileD)
    then obtain i where "i < length es" "e = es ! i" by (metis in_set_conv_nth in_set_dropD)
    ultimately show ?thesis using assms(1) by (auto simp: wf_entries_def nonhead_ok_def Let_def)
  qed
  ultimately show ?thesis by blast
qed

definition blocks_of :: "lcluster_entry list \<Rightarrow> nat \<Rightarrow> u64" where
  "blocks_of es h = (case first_marker (run_of es h) of Some b \<Rightarrow> ucast b | None \<Rightarrow> 1)"

lemma unat_scan_end:
  assumes "h < 2 ^ 32" "512 \<le> unat lcsize" "h < unat n"
  shows "min (sat_add (sat_add (word_of_nat h) 1) (max (MAX_PCLUSTER_SIZE div lcsize) 1 + 1)) n
         = (word_of_nat (min (h + 2 + max (unat MAX_PCLUSTER_SIZE div unat lcsize) 1) (unat n)) :: u64)"
proof -
  let ?q = "max (unat MAX_PCLUSTER_SIZE div unat lcsize) 1"
  have M: "unat MAX_PCLUSTER_SIZE = 12582912" by (simp add: zmap_consts)
  have q: "?q \<le> 12582912" unfolding M using div_le_dividend [of 12582912 "unat lcsize"] by linarith
  have "unat (max (MAX_PCLUSTER_SIZE div lcsize) 1) = ?q"
    by (simp add: max_def word_le_nat_alt unat_div)
  then have r: "unat (max (MAX_PCLUSTER_SIZE div lcsize) 1 + 1) = ?q + 1"
    using q by (subst unat_add_no_wrap) simp_all
  have h: "unat (word_of_nat h :: u64) = h" using assms(1) by (simp add: unat_of_nat_small)
  have h1: "unat (sat_add (word_of_nat h) 1 :: u64) = h + 1"
    using assms(1) by (simp add: unat_sat_add h)
  have s: "unat (sat_add (sat_add (word_of_nat h) 1) (max (MAX_PCLUSTER_SIZE div lcsize) 1 + 1) :: u64) = h + 2 + ?q"
  proof -
    define q where "q = ?q"
    have "q \<le> 12582912" using q by (simp only: q_def)
    then have "min (2 ^ 64 - 1) (h + 1 + (q + 1)) = h + 2 + q" using assms(1) by simp
    then show ?thesis
      unfolding unat_sat_add [of "sat_add (word_of_nat h) 1"] h1 r q_def by (simp only: len64)
  qed
  have n: "unat n < 2 ^ 64" using unsigned_less [of n, where 'a = nat] by simp
  show ?thesis
    by (rule word_unat_eq_iff [THEN iffD2])
      (use n in \<open>simp only: unat_min s unat_of_nat_small min_less_iff_conj len64 simp_thms min.strict_coboundedI2\<close>)
qed

lemma pcluster_extent_eq:
  assumes ok: "sb_ok sb" "zmap_open dev sb ino = Ok zm" and wf: "wf_index zm dev es"
    and off: "off < i_size ino"
  defines "h \<equiv> owner (unat (lcluster_size zm)) es (unat off)"
  obtains x where "pcluster_extent_at zm dev off = Ok x"
    and "unat (pe_source_start x) = start_of (unat (lcluster_size zm)) es h"
    and "unat (pe_source_end x) = end_of (unat (lcluster_size zm)) (unat (i_size ino)) es h"
    and "pe_head_lcluster_idx x = word_of_nat h" "pe_blkaddr x = lc_u_raw (es ! h)"
    and "pe_block_count x = blocks_of es h" "pe_cluster_type x = lc_cluster_type (es ! h)"
    and "\<And>off'. off' < i_size ino \<Longrightarrow> owner (unat (lcluster_size zm)) es (unat off') = h \<Longrightarrow>
           pcluster_extent_at zm dev off' = Ok x"
proof -
  let ?lcs = "unat (lcluster_size zm)" and ?rd = "read_lcluster zm dev" and ?m = "span_lclusters zm"
  note zo = zmap_open_Ok [OF ok] and zs = zmap_open_sizes [OF ok]
  from wf have ix: "index_is ?rd (n_lclusters zm) es" and we: "wf_entries ?lcs ?m es"
    by (simp_all add: wf_index_def)
  have len: "length es = unat (n_lclusters zm)" using ix by (simp add: index_is_def)
  have il: "unat off div ?lcs < length es" using zs(6) off len by (simp add: word_less_nat_alt)
  note ow = owner_facts [OF we il _ off [unfolded word_less_nat_alt], folded h_def]
  have lpos: "0 < ?lcs" using zs(3) by simp
  note ow = ow [OF lpos]
  have hb: "h < 2 ^ 32" using ow(1) len zo(4) by simp
  let ?t = "min (h + 2 + ?m) (length es)"
  let ?r = "run_of es h"
  let ?j = "Suc h + length ?r"
  let ?ss = "word_of_nat h * lcluster_size zm + ucast (lc_clusterofs (es ! h)) :: u64"
  let ?se = "(if ?j < length es then min (word_of_nat ?j * lcluster_size zm + ucast (lc_clusterofs (es ! ?j))) (i_size ino)
    else i_size ino) :: u64"
  let ?x = "\<lparr>pe_blkaddr = lc_u_raw (es ! h), pe_block_count = blocks_of es h,
    pe_source_start = ?ss, pe_source_end = ?se,
    pe_cluster_type = lc_cluster_type (es ! h), pe_head_lcluster_idx = word_of_nat h,
    pe_is_last = (i_size ino \<le> ?se), pe_head_clusterofs = lc_clusterofs (es ! h), pe_device_id = 0,
    pe_partial_ref = (lc_advise_raw (es ! h) AND LI_PARTIAL_REF \<noteq> 0)\<rparr>"
  have se: "min (sat_add (sat_add (word_of_nat h) 1) (max (MAX_PCLUSTER_SIZE div lcluster_size zm) 1 + 1)) (n_lclusters zm)
      = word_of_nat ?t"
    using unat_scan_end [OF hb zs(3)] ow(1) len unfolding span_lclusters_def by simp
  have ht: "Suc h \<le> ?t" using ow(1) by simp
  note reach = scan_reach [OF we ow(1,2)]
  have scan: "scan_heads ?rd (word_of_nat ?t) (word_of_nat (Suc h)) None =
      Ok (if ?j < length es then Some (word_of_nat ?j, es ! ?j) else None, first_marker ?r)"
    using zmi.scan_heads_run [OF ix ht min.cobounded2] unfolding reach by simp
  have fm: "first_marker ?r \<noteq> Some 0" by (rule first_marker_pos [OF we ow(1)])
  have bc: "(case first_marker ?r of Some b \<Rightarrow> if b = 0 then Err (BadInode ''CBLKCNT marker with zero block count'') else Ok (ucast b)
      | None \<Rightarrow> Ok 1) = Ok (blocks_of es h)"
    using fm by (auto simp: blocks_of_def split: option.split)
  have all: "pcluster_extent_at zm dev off' = Ok ?x"
    if o: "off' < i_size ino" "owner ?lcs es (unat off') = h" for off'
  proof -
    have ol: "unat off' div ?lcs < length es" using zs(6) o(1) len by (simp add: word_less_nat_alt)
    have dm: "off' div lcluster_size zm = word_of_nat (unat off' div ?lcs)"
      "off' mod lcluster_size zm = word_of_nat (unat off' mod ?lcs)"
      by (simp_all flip: unat_div unat_mod)
    have f: "find_head ?rd (lcluster_size zm) (off' div lcluster_size zm) (off' mod lcluster_size zm)
        = Ok (word_of_nat h, es ! h)"
      unfolding dm using zmi.find_head_owner [OF ix we ol _ zs(2)] unsigned_less [of off', where 'a = nat] o(2)
      by simp
    have succ: "word_of_nat h + 1 = (word_of_nat (Suc h) :: u64)" by simp
    show ?thesis
      unfolding pcluster_extent_at_def Let_def f bindR_simps case_prod_conv se succ scan bc zo(1)
      using o(1) bc
      by (auto simp: not_le not_less split: if_splits)
  qed
  have len63: "length es * ?lcs < 2 ^ 63" using zs(5) len by simp
  have ss: "unat ?ss = start_of ?lcs es h" by (rule unat_start_of [OF we ow(1,2) len63 zs(2)])
  have se: "unat ?se = end_of ?lcs (unat (i_size ino)) es h"
  proof (cases "?j < length es")
    case True
    have "unat (word_of_nat ?j * lcluster_size zm + ucast (lc_clusterofs (es ! ?j)) :: u64) = start_of ?lcs es ?j"
      by (rule unat_start_of [OF we True run_of_facts(2) [OF ow(1) True] len63 zs(2)])
    with True show ?thesis by (simp only: end_of_def Let_def if_True unat_min)
  qed (simp add: end_of_def Let_def)
  have sel: "pe_source_start ?x = ?ss" "pe_source_end ?x = ?se" by simp_all
  show thesis
  proof (rule that [OF all [OF off meta_eq_to_obj_eq [OF h_def, symmetric]]])
    show "unat (pe_source_start ?x) = start_of ?lcs es h" unfolding sel by (rule ss)
    show "unat (pe_source_end ?x) = end_of ?lcs (unat (i_size ino)) es h" unfolding sel by (rule se)
  qed (rule all | simp)+
qed

lemma end_of_le_start:
  assumes we: "wf_entries lcsize m es" and g: "entry_head (es ! g)" "h < g" "g < length es"
  shows "end_of lcsize fsize es h \<le> start_of lcsize es g"
proof -
  let ?j = "Suc h + length (run_of es h)"
  have h: "h < length es" using g by simp
  note r = run_of_facts [OF h]
  have jg: "?j \<le> g" using r(3) [of g] g by (meson not_less)
  then have "?j < length es" using g(3) by simp
  then have "end_of lcsize fsize es h \<le> start_of lcsize es ?j" by (simp add: end_of_def Let_def)
  also have "\<dots> \<le> start_of lcsize es g"
  proof (cases "?j = g")
    case False
    with jg have "Suc ?j \<le> g" by simp
    from mult_le_mono1 [OF this, of lcsize] have "?j * lcsize + lcsize \<le> g * lcsize" by simp
    moreover have "unat (lc_clusterofs (es ! ?j)) < lcsize"
      using we r(2) \<open>?j < length es\<close> by (auto simp: wf_entries_def)
    ultimately show ?thesis unfolding start_of_def by linarith
  qed simp
  finally show ?thesis .
qed

lemma owner_unique:
  assumes we: "wf_entries lcsize m es" and h: "h < length es" "entry_head (es ! h)"
    and b: "start_of lcsize es h \<le> b" "b < end_of lcsize fsize es h"
    and bl: "b div lcsize < length es" "0 < lcsize" "b < fsize"
  shows "owner lcsize es b = h"
proof -
  note o = owner_facts [OF we bl]
  have "\<not> h < owner lcsize es b" 
    using end_of_le_start [OF we o(2) _ o(1), of h fsize] o(3) b(2) by linarith
  moreover have "\<not> owner lcsize es b < h"
    using end_of_le_start [OF we h(2) _ h(1), of "owner lcsize es b" fsize] o(4) b(1) by linarith
  ultimately show ?thesis by simp
qed

lemma pcluster_extent_bounds:
  assumes x: "pcluster_extent_at zm dev off = Ok x"
  shows "is_head_or_plain (pe_cluster_type x) \<and> pe_head_lcluster_idx x < n_lclusters zm
      \<and> pe_head_lcluster_idx x \<le> off div lcluster_size zm
      \<and> 1 \<le> pe_block_count x \<and> pe_block_count x \<le> 2047 \<and> pe_source_end x \<le> i_size (zm_inode zm)"
proof -
  from x have sz: "\<not> i_size (zm_inode zm) \<le> off" by (auto simp: pcluster_extent_at_def)
  with x obtain h e where f: "find_head (read_lcluster zm dev) (lcluster_size zm) (off div lcluster_size zm)
      (off mod lcluster_size zm) = Ok (h, e)"
    by (auto simp: pcluster_extent_at_def Let_def)
  with x sz obtain stop nx cb bc where sc: "scan_heads (read_lcluster zm dev) stop (h + 1) None = Ok (nx, cb)"
    and bc: "(case cb of Some b \<Rightarrow> if b = 0 then Err (BadInode ''CBLKCNT marker with zero block count'')
        else Ok (ucast b) | None \<Rightarrow> Ok 1) = Ok bc"
    and xh: "pe_cluster_type x = lc_cluster_type e" "pe_head_lcluster_idx x = h" "pe_block_count x = bc"
    and xe: "pe_source_end x = (case nx of
        Some (j, y) \<Rightarrow> min (j * lcluster_size zm + ucast (lc_clusterofs y)) (i_size (zm_inode zm))
      | None \<Rightarrow> i_size (zm_inode zm))"
    by (auto simp: pcluster_extent_at_def Let_def)
  have bound: "pe_source_end x \<le> i_size (zm_inode zm)" by (auto simp: xe split: option.split)
  have "1 \<le> pe_block_count x \<and> pe_block_count x \<le> 2047"
  proof (cases cb)
    case (Some b)
    have "b \<le> 2047" using zmi.scan_heads_marker [OF sc] Some by auto
    moreover have "b \<noteq> 0" "bc = ucast b" using bc Some by (auto split: if_splits)
    ultimately show ?thesis using xh(3) by (simp add: word_le_nat_alt unat_ucast_up unat_gt_0 Suc_le_eq)
  qed (use bc xh(3) in simp)
  then show ?thesis using xh(1,2) bound zmi.find_head_Ok [OF f] zmi.rd_less [of zm dev h e] by auto
qed

text \<open>C27: on an image nothing is known about, resolving an extent returns, and an extent it resolves
  has a head that is an entry of the index at or before the offset's own lcluster, a type that can head an
  extent, at least one and at most 2047 blocks, and an end inside the file.\<close>

theorem pcluster_extent_untrusted:
  "(\<exists>e. pcluster_extent_at zm dev off = Err e) \<or>
   (\<exists>x. pcluster_extent_at zm dev off = Ok x
      \<and> is_head_or_plain (pe_cluster_type x) \<and> pe_head_lcluster_idx x < n_lclusters zm
      \<and> pe_head_lcluster_idx x \<le> off div lcluster_size zm
      \<and> 1 \<le> pe_block_count x \<and> pe_block_count x \<le> 2047 \<and> pe_source_end x \<le> i_size (zm_inode zm))"
  by (rule returns_cases [OF returns_pcluster_extent [of zm dev off]])
    (use pcluster_extent_bounds [of zm dev off] in simp_all)

text \<open>C28: on a well-formed index, whatever its encoding, the resolved extent of an offset is the one the
  list of entries assigns it: the nearest head whose data starts at or before the offset, up to the start
  of the next head or the end of the file, with that head's block address and the block count of its
  marker. The extent contains the offset.\<close>

theorem pcluster_extent_spec:
  assumes "sb_ok sb" "zmap_open dev sb ino = Ok zm" and "wf_index zm dev es" and "off < i_size ino"
  shows "\<exists>x. pcluster_extent_at zm dev off = Ok x \<and>
    (let lcs = unat (lcluster_size zm); h = owner lcs es (unat off) in
       h < length es \<and> entry_head (es ! h) \<and> pe_head_lcluster_idx x = word_of_nat h
       \<and> unat (pe_source_start x) = start_of lcs es h
       \<and> unat (pe_source_end x) = end_of lcs (unat (i_size ino)) es h
       \<and> start_of lcs es h \<le> unat off \<and> unat off < end_of lcs (unat (i_size ino)) es h
       \<and> pe_blkaddr x = lc_u_raw (es ! h) \<and> pe_block_count x = blocks_of es h
       \<and> pe_cluster_type x = lc_cluster_type (es ! h))"
proof -
  note zs = zmap_open_sizes [OF assms(1,2)]
  have we: "wf_entries (unat (lcluster_size zm)) (span_lclusters zm) es"
    and len: "length es = unat (n_lclusters zm)" using assms(3) by (simp_all add: wf_index_def index_is_def)
  have il: "unat off div unat (lcluster_size zm) < length es" "0 < unat (lcluster_size zm)"
    using zs(3,6) assms(4) len by (simp_all add: word_less_nat_alt)
  note ow = owner_facts [OF we il assms(4) [unfolded word_less_nat_alt]]
  from assms show ?thesis
    by (rule pcluster_extent_eq) (use ow in \<open>simp add: Let_def\<close>)
qed

text \<open>C29: the extents of a file with a well-formed index (\<open>wf_index\<close>: every entry can be read, the first
  is a head at offset 0, a head starts inside its logical cluster, and any other entry gives the distance to
  the nearest head before it) partition the file. A map that opens need not have such an index.
  The extent of an offset inside the file contains it, and every offset inside that extent resolves to the same one, so decompressing one extent serves exactly its own bytes.\<close>

theorem pcluster_extents_partition:
  assumes "sb_ok sb" "zmap_open dev sb ino = Ok zm" and "wf_index zm dev es" and "off < i_size ino"
  shows "\<exists>x. pcluster_extent_at zm dev off = Ok x \<and> pe_source_start x \<le> off \<and> off < pe_source_end x
    \<and> (\<forall>b. pe_source_start x \<le> b \<and> b < pe_source_end x \<longrightarrow> pcluster_extent_at zm dev b = Ok x)"
proof -
  let ?lcs = "unat (lcluster_size zm)" and ?sz = "unat (i_size ino)"
  note zs = zmap_open_sizes [OF assms(1,2)]
  have we: "wf_entries ?lcs (span_lclusters zm) es" and len: "length es = unat (n_lclusters zm)"
    using assms(3) by (simp_all add: wf_index_def index_is_def)
  have lpos: "0 < ?lcs" using zs(3) by simp
  have il: "unat b div ?lcs < length es" if "b < i_size ino" for b
    using zs(6) that len by (simp add: word_less_nat_alt)
  note ow = owner_facts [OF we il [OF assms(4)] lpos assms(4) [unfolded word_less_nat_alt]]
  from assms obtain x where x: "pcluster_extent_at zm dev off = Ok x"
    and s: "unat (pe_source_start x) = start_of ?lcs es (owner ?lcs es (unat off))"
    and e: "unat (pe_source_end x) = end_of ?lcs ?sz es (owner ?lcs es (unat off))"
    and all: "\<And>b. b < i_size ino \<Longrightarrow> owner ?lcs es (unat b) = owner ?lcs es (unat off) \<Longrightarrow>
      pcluster_extent_at zm dev b = Ok x"
    by (rule pcluster_extent_eq) blast
  have "pcluster_extent_at zm dev b = Ok x" if b: "pe_source_start x \<le> b" "b < pe_source_end x" for b
  proof (rule all)
    have "end_of ?lcs ?sz es (owner ?lcs es (unat off)) \<le> ?sz" by (simp add: end_of_def Let_def)
    then show bs: "b < i_size ino" using b(2) e by (simp add: word_less_nat_alt)
    show "owner ?lcs es (unat b) = owner ?lcs es (unat off)"
      using b s e bs il [OF bs] lpos
      by (intro owner_unique [where fsize = ?sz, OF we ow(1,2)]) (simp_all add: word_less_nat_alt word_le_nat_alt)
  qed
  then show ?thesis using x s e ow(3,4) by (auto simp: word_less_nat_alt word_le_nat_alt)
qed

lemma last_lcluster:
  assumes "sb_ok sb" "zmap_open dev sb ino = Ok zm" "0 < i_size ino"
  shows "unat (i_size ino - 1) div unat (lcluster_size zm) = unat (n_lclusters zm) - 1"
    and "n_lclusters zm \<noteq> 0" and "unat (n_lclusters zm - 1) = unat (n_lclusters zm) - 1"
proof -
  let ?l = "unat (lcluster_size zm)" and ?s = "unat (i_size ino)" and ?n = "unat (n_lclusters zm)"
  note zs = zmap_open_sizes [OF assms(1,2)] and zo = zmap_open_Ok [OF assms(1,2)]
  have sp: "0 < ?s" using assms(3) by (simp add: word_less_nat_alt)
  have s1: "unat (i_size ino - 1) = ?s - 1" using sp by (simp add: unat_minus_one unat_gt_0)
  have lt: "(?s - 1) div ?l < ?n" using zs(6) [of "i_size ino - 1"] s1 sp by simp
  then show nz: "n_lclusters zm \<noteq> 0" by auto
  then show "unat (n_lclusters zm - 1) = ?n - 1" by (rule unat_minus_one)
  have ceil: "k < ?n = (k * ?l < ?s)" for k
    unfolding n_lclusters_def zo(1) by (rule less_div_ceil_iff [OF zs(2)])
  have "?n - 1 < ?n" using lt by simp
  then have "(?n - 1) * ?l \<le> ?s - 1" using ceil [of "?n - 1"] by simp
  then have "?n - 1 \<le> (?s - 1) div ?l" using zs(3) by (simp add: less_eq_div_iff_mult_less_eq)
  with lt show "unat (i_size ino - 1) div ?l = ?n - 1" unfolding s1 by simp
qed

text \<open>Where the tail of a file is a fragment, the range that is redirected to the packed inode is
  exactly the extent of the file's last byte: the fragment starts on an extent boundary and ends with the
  file, so no byte is served from both sources or from neither.\<close>

theorem fragment_range_last_extent:
  assumes "sb_ok sb" "zmap_open dev sb ino = Ok zm" and "wf_index zm dev es" and "0 < i_size ino"
    and "has_fragment zm" "\<not> has_full_fragment zm"
  shows "\<exists>x. pcluster_extent_at zm dev (i_size ino - 1) = Ok x \<and> pe_source_end x = i_size ino
    \<and> fragment_range zm dev = Ok (Some (fragment_off (zm_header zm), pe_source_start x, i_size ino))"
proof -
  let ?lcs = "unat (lcluster_size zm)" and ?sz = "unat (i_size ino)" and ?last = "unat (n_lclusters zm) - 1"
  let ?rd = "read_lcluster zm dev"
  note zs = zmap_open_sizes [OF assms(1,2)] and zo = zmap_open_Ok [OF assms(1,2)]
    and ll = last_lcluster [OF assms(1,2,4)]
  have ix: "index_is ?rd (n_lclusters zm) es" and we: "wf_entries ?lcs (span_lclusters zm) es"
    and len: "length es = unat (n_lclusters zm)" using assms(3) by (simp_all add: wf_index_def index_is_def)
  have np: "0 < unat (n_lclusters zm)" using ll(2) by (simp add: unat_gt_0)
  then have lastl: "?last < length es" using len by simp
  have lpos: "0 < ?lcs" using zs(3) by simp
  have sp: "0 < ?sz" using assms(4) by (simp add: word_less_nat_alt)
  have s1: "unat (i_size ino - 1) = ?sz - 1" using sp by (simp add: unat_minus_one unat_gt_0)
  have off: "i_size ino - 1 < i_size ino" using s1 sp by (simp add: word_less_nat_alt)
  have il: "(?sz - 1) div ?lcs < length es" using ll(1) lastl s1 by simp
  define h where "h = owner ?lcs es (?sz - 1)"
  have ow: "h < length es" "entry_head (es ! h)" "start_of ?lcs es h \<le> ?sz - 1"
      "?sz - 1 < end_of ?lcs ?sz es h"
    using owner_facts [OF we il lpos, of ?sz] sp by (simp_all add: h_def)
  from assms(1-3) off obtain x where x: "pcluster_extent_at zm dev (i_size ino - 1) = Ok x"
    and s: "unat (pe_source_start x) = start_of ?lcs es h"
    and e: "unat (pe_source_end x) = end_of ?lcs ?sz es h"
    by (rule pcluster_extent_eq) (auto simp: s1 h_def)
  have "end_of ?lcs ?sz es h \<le> ?sz" by (simp add: end_of_def Let_def)
  with ow(4) have "end_of ?lcs ?sz es h = ?sz" by simp
  with e have pe: "pe_source_end x = i_size ino" by (simp add: word_unat_eq_iff)
  have lastw: "n_lclusters zm - 1 = word_of_nat ?last" unfolding ll(3) [symmetric] by simp
  have last0: "(0 < n_lclusters zm - 1) = (0 < ?last)" using ll(3) by (simp add: word_less_nat_alt)
  have m: "(i_size ino - 1) mod lcluster_size zm < ucast (lc_clusterofs y)
      \<longleftrightarrow> (?sz - 1) mod ?lcs < unat (lc_clusterofs y)" for y
    by (simp add: word_less_nat_alt unat_mod s1 unat_ucast_up)
  have rl: "?rd (word_of_nat ?last) = Ok (es ! ?last)" by (rule zmi.index_at [OF ix lastl])
  have lm: "word_of_nat ?last - 1 = (word_of_nat (?last - 1) :: u64)" if "0 < ?last"
    using that by (simp add: of_nat_diff)
  let ?step = "if entry_head (es ! ?last) \<and> (i_size ino - 1) mod lcluster_size zm < ucast (lc_clusterofs (es ! ?last))
      \<and> 0 < (word_of_nat ?last :: u64)
    then bindR (?rd (word_of_nat ?last - 1)) (\<lambda>entry. Ok (word_of_nat ?last - 1, entry))
    else Ok (word_of_nat ?last, es ! ?last)"
  obtain c y where step: "?step = Ok (c, y)" and walk: "walk_fragment ?rd c y = Ok (word_of_nat h, es ! h)"
  proof (cases "entry_head (es ! ?last) \<and> (?sz - 1) mod ?lcs < unat (lc_clusterofs (es ! ?last))")
    case True
    have "?last \<noteq> 0"
    proof
      assume z: "?last = 0"
      with we lastl have "lc_clusterofs (es ! ?last) = 0" by (auto simp: wf_entries_def)
      with True show False by simp
    qed
    then have p: "0 < ?last" by simp
    have hh: "h = head_of es (?last - 1)" using True ll(1) s1 by (simp add: h_def owner_def Let_def)
    have l1: "?last - 1 < length es" using lastl by simp
    show ?thesis
      using True p zmi.walk_fragment_head_of [OF ix we l1] zmi.index_at [OF ix l1]
      by (intro that) (simp_all only: m lm [OF p] last0 [unfolded lastw] simp_thms if_True bindR_simps hh)
  next
    case False
    have hh: "h = head_of es ?last" using False ll(1) s1 by (auto simp: h_def owner_def Let_def)
    have c: "\<not> (entry_head (es ! ?last) \<and> (i_size ino - 1) mod lcluster_size zm < ucast (lc_clusterofs (es ! ?last))
        \<and> 0 < (word_of_nat ?last :: u64))" using False by (auto simp only: m)
    show ?thesis by (rule that, unfold if_not_P [OF c] hh, rule refl, rule zmi.walk_fragment_head_of [OF ix we lastl])
  qed
  have ss: "word_of_nat h * lcluster_size zm + ucast (lc_clusterofs (es ! h)) = pe_source_start x"
    using unat_start_of [OF we ow(1,2) _ zs(2)] zs(5) len s by (simp add: word_unat_eq_iff)
  have lt: "\<not> i_size ino \<le> pe_source_start x" using s ow(3) sp by (simp add: word_le_nat_alt)
  have "fragment_range zm dev = Ok (Some (fragment_off (zm_header zm), pe_source_start x, i_size ino))"
    unfolding fragment_range_def Let_def zo(1) lastw rl bindR_simps step case_prod_conv walk ss
    using assms(5,6) sp ll(2) lt by (simp add: unat_gt_0)
  then show ?thesis using x pe by blast
qed

section \<open>Witnesses\<close>

text \<open>
  A compressed file of 1200 bytes in three lclusters of 512, with a full index: a head at the start, a
  head 100 bytes into the second lcluster, and a NONHEAD entry that leads back to it.
\<close>

definition demo_zino :: inode where
  "demo_zino = (demo_chunked 1200 0)\<lparr>i_format := \<lparr>fmt_version = Compact, fmt_layout = CompressionLegacy, fmt_flags = 0\<rparr>\<rparr>"

definition demo_zmap_bytes :: bytes where
  "demo_zmap_bytes = [5, 0, 0, 0, 0x20, 0, 0, 0] @ replicate 8 0
     @ [1, 0, 0, 0, 7, 0, 0, 0] @ [1, 0, 100, 0, 8, 0, 0, 0] @ [2, 0, 0, 0, 1, 0, 0, 0]"

definition demo_zdev :: blockdev where
  "demo_zdev = mem_dev (replicate 544 0 @ demo_zmap_bytes)"

definition demo_entries :: "lcluster_entry list" where
  "demo_entries =
     [\<lparr>lc_cluster_type = 1, lc_advise_raw = 1, lc_clusterofs = 0, lc_u_raw = 7, lc_cblkcnt = None\<rparr>,
      \<lparr>lc_cluster_type = 1, lc_advise_raw = 1, lc_clusterofs = 100, lc_u_raw = 8, lc_cblkcnt = None\<rparr>,
      \<lparr>lc_cluster_type = 2, lc_advise_raw = 2, lc_clusterofs = 0, lc_u_raw = 1, lc_cblkcnt = None\<rparr>]"

definition demo_zmap :: zmap where
  "demo_zmap = \<lparr>zm_inode = demo_zino,
     zm_header = \<lparr>zh_fragment_off_or_idata_size = 5, zh_advise = 0x20, zh_algorithm_type = 0, zh_clusterbits_byte = 0\<rparr>,
     zm_index_start_offset = 560, zm_lclusterbits = 0, zm_z_lclusterbits = 9, zm_format = LegacyIndex,
     zm_compact_4b_initial = 0, zm_compact_2b = 0, zm_big_pcluster = False,
     zm_algo_head1_id = 0, zm_algo_head2_id = 0\<rparr>"

lemma demo_zdev_read:
  "unat off + k \<le> 584 \<Longrightarrow> 544 \<le> unat off \<Longrightarrow>
     read_at demo_zdev off k = Ok (take k (drop (unat off - 544) demo_zmap_bytes))"
  using serves_read [OF serves_mem_dev, of "replicate 544 0 @ demo_zmap_bytes" off k]
  by (simp add: demo_zdev_def demo_zmap_bytes_def)

lemma demo_zbody_end: "body_end demo_zino demo_sb512 = 544"
proof -
  have "body_end demo_zino demo_sb512 = body_end (demo_chunked 1200 0) demo_sb512"
    by (simp add: body_end_def demo_zino_def demo_chunked_def)
  then show ?thesis using demo_body_end [of 1200 0] by (simp add: word_unat_eq_iff)
qed

lemma demo_zopen: "zmap_open demo_zdev demo_sb512 demo_zino = Ok demo_zmap"
proof -
  have b: "take 8 (drop 0 demo_zmap_bytes) = [5, 0, 0, 0, 0x20, 0, 0, 0]"
    by (simp add: demo_zmap_bytes_def)
  have r: "read_at demo_zdev 544 8 = Ok [5, 0, 0, 0, 0x20, 0, 0, 0]"
    using demo_zdev_read [of 544 8] b by simp
  let ?b = "[5, 0, 0, 0, 0x20, 0, 0, 0] :: bytes"
  have f: "u32_at ?b 0 = Ok 5" "u16_at ?b 4 = Ok 0x20" "idx ?b 6 = Ok 0" "idx ?b 7 = Ok 0"
    by (simp_all add: le32_def le16_def)
  have z: "sb_blkszbits demo_sb512 = 9" "i_size demo_zino = 1200"
      "fmt_layout (i_format demo_zino) = CompressionLegacy"
    by (simp_all add: demo_sb512_def written_sb_def demo_zino_def demo_chunked_def)
  show ?thesis
    unfolding zmap_open_def demo_zbody_end Let_def r bindR_simps f z
    by (simp add: next_multiple_of_def one_shl_def div_ceil_def push_bit_eq_mult zmap_consts demo_zmap_def)
qed

lemma demo_zsizes:
  "lcluster_size demo_zmap = 512" "n_lclusters demo_zmap = 3" "i_size demo_zino = 1200"
  "span_lclusters demo_zmap = 24576"
proof -
  show l: "lcluster_size demo_zmap = 512"
    by (simp add: lcluster_size_def one_shl_def demo_zmap_def push_bit_eq_mult)
  show s: "i_size demo_zino = 1200" by (simp add: demo_zino_def demo_chunked_def)
  have "zm_inode demo_zmap = demo_zino" by (simp add: demo_zmap_def)
  then show "n_lclusters demo_zmap = 3" unfolding n_lclusters_def l by (simp add: s div_ceil_def)
  show "span_lclusters demo_zmap = 24576" by (simp add: span_lclusters_def l zmap_consts)
qed

lemma demo_zread: "i < 3 \<Longrightarrow> read_lcluster demo_zmap demo_zdev (word_of_nat i) = Ok (demo_entries ! i)"
proof -
  assume i: "i < 3"
  have iu: "unat (word_of_nat i :: u64) = i" using i by (simp add: unat_of_nat_small)
  have sel: "zm_format demo_zmap = LegacyIndex" "zm_index_start_offset demo_zmap = 560"
      "zm_big_pcluster demo_zmap = False" by (simp_all add: demo_zmap_def)
  have off: "unat (560 + word_of_nat i * 8 :: u64) = 560 + i * 8"
    using i by (auto simp: less_Suc_eq numeral_3_eq_3)
  have r: "read_at demo_zdev (560 + word_of_nat i * 8) 8 = Ok (take 8 (drop (16 + i * 8) demo_zmap_bytes))"
    using demo_zdev_read [of "560 + word_of_nat i * 8" 8] i by (simp add: off)
  have "\<not> n_lclusters demo_zmap \<le> word_of_nat i"
    using i by (simp add: demo_zsizes word_le_nat_alt iu)
  then show ?thesis
    using i unfolding read_lcluster_def read_lcluster_legacy_def sel index_format.case Let_def
    by (auto simp: r [simplified] zmap_consts demo_zmap_bytes_def demo_entries_def le16_def le32_def less_Suc_eq
        numeral_3_eq_3)
qed

lemma demo_wf: "wf_index demo_zmap demo_zdev demo_entries"
proof -
  have ix: "index_is (read_lcluster demo_zmap demo_zdev) (n_lclusters demo_zmap) demo_entries"
    unfolding index_is_def using demo_zread by (simp add: demo_zsizes demo_entries_def)
  have len: "length demo_entries = 3" and first: "entry_head (demo_entries ! 0)" "lc_clusterofs (demo_entries ! 0) = 0"
    by (simp_all add: demo_entries_def is_head_or_plain_def zmap_consts)
  have "\<forall>i<3. if entry_head (demo_entries ! i) then unat (lc_clusterofs (demo_entries ! i)) < 512
      else nonhead_ok 24576 demo_entries i"
    by (simp add: numeral_3_eq_3 All_less_Suc demo_entries_def nonhead_ok_def is_head_or_plain_def delta0_def zmap_consts)
  then have "wf_entries (unat (lcluster_size demo_zmap)) (span_lclusters demo_zmap) demo_entries"
    unfolding wf_entries_def len demo_zsizes using first by simp
  with ix show ?thesis by (simp add: wf_index_def)
qed

theorem pcluster_extent_spec_witness:
  "\<exists>x. pcluster_extent_at demo_zmap demo_zdev 1199 = Ok x \<and> unat (pe_source_start x) = 612
     \<and> unat (pe_source_end x) = 1200 \<and> pe_blkaddr x = 8"
  using pcluster_extent_spec [OF demo_sb512_ok demo_zopen demo_wf, of 1199]
  by (auto simp: demo_zsizes Let_def owner_def head_of_def start_of_def end_of_def run_of_def demo_entries_def
      is_head_or_plain_def delta0_def zmap_consts)

theorem pcluster_extents_partition_witness:
  "\<exists>x. pcluster_extent_at demo_zmap demo_zdev 600 = Ok x \<and> pe_source_start x \<le> 600 \<and> 600 < pe_source_end x"
  using pcluster_extents_partition [OF demo_sb512_ok demo_zopen demo_wf, of 600]
  by (auto simp: demo_zsizes)

theorem fragment_range_last_extent_witness:
  "\<exists>x. pcluster_extent_at demo_zmap demo_zdev 1199 = Ok x
     \<and> fragment_range demo_zmap demo_zdev = Ok (Some (5, pe_source_start x, 1200))"
proof -
  have f: "has_fragment demo_zmap" "\<not> has_full_fragment demo_zmap" "fragment_off (zm_header demo_zmap) = 5"
    by (simp_all add: has_fragment_def has_full_fragment_def fragment_off_def demo_zmap_def zmap_consts)
  show ?thesis
    using fragment_range_last_extent [OF demo_sb512_ok demo_zopen demo_wf _ f(1,2)]
    by (auto simp: demo_zsizes f(3))
qed

end
