(* ===== verification/Cache.thy ===== *)
theory Cache
  imports Prelude "HOL-Library.AList"
begin

text \<open>
  The cache of decompressed pclusters (\<open>PclusterCache\<close>, \<open>cache_lookup\<close> and \<open>cache_insert\<close> of
  \<open>src/fs.rs\<close>): a bound on the number of entries, kept by the \<open>lru\<close> crate, and a bound on the bytes
  they hold, kept here. The crate is a parameter, \<open>lru_ops\<close>; what it documents is the locale
  \<open>lru_cache\<close>, over the entries in order of use.
\<close>

type_synonym pcluster_key = "u64 \<times> u32 \<times> u64 \<times> u64"
type_synonym pcluster_entry = "pcluster_key \<times> bytes"

record 'c lru_ops =
  lru_new :: "usize \<Rightarrow> 'c"
  lru_len :: "'c \<Rightarrow> usize"
  lru_cap :: "'c \<Rightarrow> usize"
  lru_get :: "pcluster_key \<Rightarrow> 'c \<Rightarrow> bytes option \<times> 'c"
  lru_push :: "pcluster_key \<Rightarrow> bytes \<Rightarrow> 'c \<Rightarrow> pcluster_entry option \<times> 'c"
  lru_pop :: "'c \<Rightarrow> pcluster_entry option \<times> 'c"

definition DEFAULT_PCLUSTER_CACHE_CAPACITY :: usize where "DEFAULT_PCLUSTER_CACHE_CAPACITY = 256"
definition DEFAULT_PCLUSTER_CACHE_BYTES :: usize where "DEFAULT_PCLUSTER_CACHE_BYTES = 64 * 1024 * 1024"

record 'c pcluster_cache =
  pc_inner :: "'c option"
  pc_bytes :: usize
  pc_byte_limit :: usize
  pc_hits :: u64
  pc_misses :: u64

definition cache_new :: "'c lru_ops \<Rightarrow> usize \<Rightarrow> 'c pcluster_cache" where
  "cache_new lru capacity =
     \<lparr>pc_inner = (if capacity = 0 then None else Some (lru_new lru capacity)), pc_bytes = 0,
      pc_byte_limit = DEFAULT_PCLUSTER_CACHE_BYTES, pc_hits = 0, pc_misses = 0\<rparr>"

text \<open>\<open>usize\<close> arithmetic of the release profile.\<close>

definition usize_add :: "usize \<Rightarrow> usize \<Rightarrow> usize" where "usize_add a b = (a + b) mod 2 ^ 64"
definition usize_sub :: "usize \<Rightarrow> usize \<Rightarrow> usize" where
  "usize_sub a b = (if b \<le> a then a - b else a + 2 ^ 64 - b)"

text \<open>
  The eviction loop. Each round removes an entry, so \<open>len\<close> rounds and one more to find the cache empty
  are enough; running out of rounds is the value \<open>Overrun\<close>.
\<close>

fun evict :: "'c lru_ops \<Rightarrow> nat \<Rightarrow> usize \<Rightarrow> usize \<Rightarrow> 'c \<Rightarrow> (usize \<times> 'c) result" where
  "evict lru 0 limit total_bytes c = (if limit < total_bytes then Overrun else Ok (total_bytes, c))"
| "evict lru (Suc n) limit total_bytes c =
     (if limit < total_bytes then
        (case lru_pop lru c of
           (Some (k, evicted), c') \<Rightarrow> evict lru n limit (usize_sub total_bytes (length evicted)) c'
         | (None, c') \<Rightarrow> Ok (total_bytes, c'))
      else Ok (total_bytes, c))"

definition cache_insert ::
    "'c lru_ops \<Rightarrow> pcluster_key \<Rightarrow> bytes \<Rightarrow> 'c pcluster_cache \<Rightarrow> 'c pcluster_cache result" where
  "cache_insert lru key v pc =
     (case pc_inner pc of
        None \<Rightarrow> Ok pc
      | Some c \<Rightarrow>
          if pc_byte_limit pc < length v then Ok pc
          else
            let total_bytes = usize_add (pc_bytes pc) (length v);
                (displaced, c') = lru_push lru key v c;
                total_bytes = (case displaced of
                   Some (k, d) \<Rightarrow> usize_sub total_bytes (length d) | None \<Rightarrow> total_bytes)
            in bindR (evict lru (Suc (lru_len lru c')) (pc_byte_limit pc) total_bytes c') (\<lambda>(n, c'').
                 Ok (pc\<lparr>pc_inner := Some c'', pc_bytes := n\<rparr>)))"

definition cache_lookup ::
    "'c lru_ops \<Rightarrow> pcluster_key \<Rightarrow> 'c pcluster_cache \<Rightarrow> bytes option \<times> 'c pcluster_cache" where
  "cache_lookup lru key pc =
     (case pc_inner pc of
        None \<Rightarrow> (None, pc)
      | Some c \<Rightarrow>
          (case lru_get lru key c of
             (Some v, c') \<Rightarrow> (Some v, pc\<lparr>pc_inner := Some c', pc_hits := pc_hits pc + 1\<rparr>)
           | (None, c') \<Rightarrow> (None, pc\<lparr>pc_inner := Some c', pc_misses := pc_misses pc + 1\<rparr>)))"

definition cache_stats :: "'c lru_ops \<Rightarrow> 'c pcluster_cache \<Rightarrow> usize \<times> usize \<times> u64 \<times> u64" where
  "cache_stats lru pc =
     (case pc_inner pc of
        Some c \<Rightarrow> (lru_len lru c, lru_cap lru c, pc_hits pc, pc_misses pc)
      | None \<Rightarrow> (0, 0, pc_hits pc, pc_misses pc))"

text \<open>Both ways to set the capacity replace the cache.\<close>

definition set_pcluster_cache_capacity :: "'c lru_ops \<Rightarrow> usize \<Rightarrow> 'c pcluster_cache \<Rightarrow> 'c pcluster_cache" where
  "set_pcluster_cache_capacity lru n pc = cache_new lru n"

section \<open>What the crate documents\<close>

locale lru_cache =
  fixes lru :: "'c lru_ops" and contents :: "'c \<Rightarrow> pcluster_entry list"
  assumes new: "0 < n \<Longrightarrow> contents (lru_new lru n) = []" "0 < n \<Longrightarrow> lru_cap lru (lru_new lru n) = n"
    and len: "lru_len lru c = length (contents c)"
    and get: "lru_get lru k c = (v, c') \<Longrightarrow> v = map_of (contents c) k \<and> lru_cap lru c' = lru_cap lru c \<and>
      contents c' = (case v of Some x \<Rightarrow> (k, x) # AList.delete k (contents c) | None \<Rightarrow> contents c)"
    and push: "lru_push lru k x c = (d, c') \<Longrightarrow> lru_cap lru c' = lru_cap lru c \<and>
      (case map_of (contents c) k of
         Some old \<Rightarrow> d = Some (k, old) \<and> contents c' = (k, x) # AList.delete k (contents c)
       | None \<Rightarrow>
           if length (contents c) < lru_cap lru c then d = None \<and> contents c' = (k, x) # contents c
           else contents c \<noteq> [] \<longrightarrow> d = Some (last (contents c)) \<and> contents c' = (k, x) # butlast (contents c))"
    and pop: "lru_pop lru c = (d, c') \<Longrightarrow> lru_cap lru c' = lru_cap lru c \<and>
      (if contents c = [] then d = None \<and> contents c' = []
       else d = Some (last (contents c)) \<and> contents c' = butlast (contents c))"
begin

definition held :: "'c \<Rightarrow> nat" where "held c = sum_list (map (length \<circ> snd) (contents c))"

text \<open>The invariant: keys are distinct, the counted bytes are the bytes held, both bounds hold.\<close>

definition good :: "'c pcluster_cache \<Rightarrow> bool" where
  "good pc = (pc_byte_limit pc = DEFAULT_PCLUSTER_CACHE_BYTES \<and>
     (case pc_inner pc of
        None \<Rightarrow> pc_bytes pc = 0
      | Some c \<Rightarrow> distinct (map fst (contents c)) \<and> pc_bytes pc = held c \<and> held c \<le> pc_byte_limit pc
          \<and> 0 < lru_cap lru c \<and> length (contents c) \<le> lru_cap lru c))"

definition entries :: "'c pcluster_cache \<Rightarrow> pcluster_key \<Rightarrow> bytes option" where
  "entries pc = (case pc_inner pc of None \<Rightarrow> Map.empty | Some c \<Rightarrow> map_of (contents c))"

definition capacity :: "'c pcluster_cache \<Rightarrow> nat" where
  "capacity pc = (case pc_inner pc of None \<Rightarrow> 0 | Some c \<Rightarrow> lru_cap lru c)"

lemma good_new: "good (cache_new lru n)" "entries (cache_new lru n) = Map.empty" "capacity (cache_new lru n) = n"
  by (simp_all add: good_def cache_new_def held_def entries_def new capacity_def)

lemma held_delete:
  "distinct (map fst xs) \<Longrightarrow> map_of xs k = Some v \<Longrightarrow>
     sum_list (map (length \<circ> snd) xs) = length v + sum_list (map (length \<circ> snd) (AList.delete k xs))"
  for xs :: "pcluster_entry list"
proof (induction xs)
  case (Cons y ys)
  show ?case
  proof (cases "fst y = k")
    case True
    with Cons.prems(1) have "map_of ys k = None" by (auto simp: map_of_eq_None_iff)
    then have "AList.delete k ys = ys" by (simp add: AList.delete_eq filter_id_conv map_of_eq_None_iff) force
    with True Cons.prems show ?thesis by (cases y) (simp add: AList.delete_eq)
  qed (use Cons in \<open>auto simp: AList.delete_eq split: if_splits\<close>)
qed simp

lemma length_delete_less: "map_of xs k = Some v \<Longrightarrow> length (AList.delete k xs) < length xs"
  by (induction xs) (auto simp: AList.delete_eq le_imp_less_Suc split: if_splits)

lemma held_last: "xs \<noteq> [] \<Longrightarrow> sum_list (map (length \<circ> snd) xs) =
    sum_list (map (length \<circ> snd) (butlast xs)) + length (snd (last xs))"
  for xs :: "pcluster_entry list"
  by (subst append_butlast_last_id [symmetric], assumption) (simp del: append_butlast_last_id)

lemma map_of_butlast: "distinct (map fst xs) \<Longrightarrow> map_of (butlast xs) k = Some v \<Longrightarrow> map_of xs k = Some v"
  by (metis (no_types, lifting) butlast_snoc in_set_butlastD map_of_SomeD map_of_is_SomeI)

lemma lookup_good:
  assumes "good pc" "cache_lookup lru k pc = (v, pc')"
  shows "good pc' \<and> v = entries pc k \<and> entries pc' = entries pc \<and> capacity pc' = capacity pc"
proof (cases "pc_inner pc")
  case None
  with assms show ?thesis by (simp add: cache_lookup_def entries_def)
next
  case (Some c)
  obtain w c' where g: "lru_get lru k c = (w, c')" by (cases "lru_get lru k c")
  note f = get [OF g]
  have d: "distinct (map fst (contents c))" using assms(1) Some by (simp add: good_def)
  have "held c' = held c \<and> distinct (map fst (contents c')) \<and> length (contents c') \<le> length (contents c)
      \<and> map_of (contents c') = map_of (contents c)"
  proof (cases w)
    case (Some x)
    with f have m: "map_of (contents c) k = Some x" and e: "contents c' = (k, x) # AList.delete k (contents c)" by simp_all
    have "length (contents c') \<le> length (contents c)"
      using length_delete_less [OF m] by (simp add: e)
    moreover have "distinct (map fst (contents c'))"
      using d by (simp add: e delete_keys distinct_removeAll)
    moreover have "map_of (contents c') = map_of (contents c)"
      unfolding e using m by (simp add: delete_conv') (simp flip: m)
    moreover have "held c' = held c" using held_delete [OF d m] by (simp add: held_def e)
    ultimately show ?thesis by blast
  qed (use f in \<open>simp add: held_def d\<close>)
  then show ?thesis
    using assms Some g f by (auto simp: cache_lookup_def good_def entries_def capacity_def split: option.splits)
qed

text \<open>The loop drops entries from the old end until the rest fits; it never runs out of rounds.\<close>

lemma evict_fits:
  assumes "length (contents c) < n"
  shows "\<exists>c' m. evict lru n limit (held c) c = Ok (held c', c') \<and> contents c' = take m (contents c)
    \<and> held c' \<le> limit \<and> lru_cap lru c' = lru_cap lru c
    \<and> (contents c \<noteq> [] \<longrightarrow> length (snd (hd (contents c))) \<le> limit \<longrightarrow> 0 < m)"
  using assms
proof (induction n arbitrary: c)
  case (Suc n)
  show ?case
  proof (cases "limit < held c")
    case False
    then show ?thesis by (intro exI [of _ c] exI [of _ "Suc (length (contents c))"]) simp
  next
    case True
    then have ne: "contents c \<noteq> []" by (auto simp: held_def)
    obtain d c' where p: "lru_pop lru c = (d, c')" by (cases "lru_pop lru c")
    from pop [OF p] ne have d: "d = Some (last (contents c))" and e: "contents c' = butlast (contents c)"
      and cap: "lru_cap lru c' = lru_cap lru c" by simp_all
    obtain k v where kv: "last (contents c) = (k, v)" by (cases "last (contents c)")
    have h: "held c = held c' + length v" using held_last [OF ne] by (simp add: held_def e kv)
    have "length (contents c') < n" using Suc.prems ne by (cases "contents c") (simp_all add: e)
    from Suc.IH [OF this] obtain c'' m where ih: "evict lru n limit (held c') c' = Ok (held c'', c'')"
      "contents c'' = take m (contents c')" "held c'' \<le> limit" "lru_cap lru c'' = lru_cap lru c'"
      "contents c' \<noteq> [] \<longrightarrow> length (snd (hd (contents c'))) \<le> limit \<longrightarrow> 0 < m" by blast
    have step: "evict lru (Suc n) limit (held c) c = evict lru n limit (held c') c'"
      using True by (simp add: p d kv h usize_sub_def)
    have t: "contents c'' = take (min m (length (contents c) - 1)) (contents c)"
      by (simp add: ih(2) e butlast_conv_take min_def)
    have "0 < min m (length (contents c) - 1)" if "length (snd (hd (contents c))) \<le> limit"
    proof -
      have "contents c' \<noteq> []"
      proof
        assume "contents c' = []"
        with ne have "contents c = [(k, v)]" by (metis e kv append_butlast_last_id append_Nil)
        with that True show False by (simp add: held_def)
      qed
      moreover from this have "hd (contents c') = hd (contents c)" 
        using e by (cases "contents c") (auto split: if_splits)
      ultimately show ?thesis using ih(5) that e by (simp add: length_butlast flip: length_greater_0_conv)
    qed
    then show ?thesis using step ih(1,3,4) t cap by (metis (no_types, lifting))
  qed
qed simp

lemma distinct_take_keys: "distinct (map fst xs) \<Longrightarrow> distinct (map fst (take m xs))"
  by (simp add: take_map [symmetric])

lemma map_leD: "m \<subseteq>\<^sub>m n \<Longrightarrow> m k = Some v \<Longrightarrow> n k = Some v"
  by (force simp: map_le_def)

lemma map_of_take: "distinct (map fst xs) \<Longrightarrow> map_of (take m xs) k = Some v \<Longrightarrow> map_of xs k = Some v"
  by (metis in_set_takeD map_of_SomeD map_of_is_SomeI)

lemma push_good:
  assumes "good pc" "pc_inner pc = Some c" "length v \<le> pc_byte_limit pc" and p: "lru_push lru k v c = (d, c')"
  shows "held c' = (case d of Some (j, x) \<Rightarrow> usize_sub (usize_add (held c) (length v)) (length x)
                    | None \<Rightarrow> usize_add (held c) (length v))"
    and "distinct (map fst (contents c'))" and "\<exists>xs. contents c' = (k, v) # xs" 
    and "length (contents c') \<le> lru_cap lru c" and "lru_cap lru c' = lru_cap lru c"
    and "map_of (contents c') \<subseteq>\<^sub>m (map_of (contents c))(k \<mapsto> v)"
proof -
  let ?xs = "contents c"
  from assms have g: "distinct (map fst ?xs)" "held c \<le> DEFAULT_PCLUSTER_CACHE_BYTES" "0 < lru_cap lru c"
      "length ?xs \<le> lru_cap lru c" "length v \<le> DEFAULT_PCLUSTER_CACHE_BYTES"
    by (simp_all add: good_def)
  then have add: "usize_add (held c) (length v) = held c + length v"
    by (simp add: usize_add_def DEFAULT_PCLUSTER_CACHE_BYTES_def)
  note f = push [OF p]
  then show "lru_cap lru c' = lru_cap lru c" by simp
  have "held c' = (case d of Some (j, x) \<Rightarrow> usize_sub (usize_add (held c) (length v)) (length x)
        | None \<Rightarrow> usize_add (held c) (length v)) \<and> distinct (map fst (contents c'))
      \<and> (\<exists>xs. contents c' = (k, v) # xs) \<and> length (contents c') \<le> lru_cap lru c
      \<and> map_of (contents c') \<subseteq>\<^sub>m (map_of ?xs)(k \<mapsto> v)"
  proof (cases "map_of ?xs k")
    case (Some old)
    with f have e: "d = Some (k, old)" "contents c' = (k, v) # AList.delete k ?xs" by simp_all
    have "held c' = held c + length v - length old"
      using held_delete [OF g(1) Some] by (simp add: held_def e)
    moreover have "length old \<le> held c" using held_delete [OF g(1) Some] by (simp add: held_def)
    moreover have "map_of (contents c') = (map_of ?xs)(k \<mapsto> v)" by (simp add: e delete_conv')
    ultimately show ?thesis
      using g(1,4) length_delete_less [OF Some]
      by (simp add: e add usize_sub_def delete_keys distinct_removeAll)
  next
    case None
    then have nk: "k \<notin> fst ` set ?xs" by (simp add: map_of_eq_None_iff)
    show ?thesis
    proof (cases "length ?xs < lru_cap lru c")
      case True
      with f None have e: "d = None" "contents c' = (k, v) # ?xs" by simp_all
      show ?thesis using True g(1) nk add by (simp add: e held_def)
    next
      case False
      with g(3) have ne: "?xs \<noteq> []" by auto
      with False f None have e: "d = Some (last ?xs)" "contents c' = (k, v) # butlast ?xs" by simp_all
      have nk': "k \<notin> fst ` set (butlast ?xs)" using nk by (auto dest: in_set_butlastD)
      have "distinct (map fst (butlast ?xs))" using g(1) by (simp add: map_butlast distinct_butlast)
      moreover have "map_of (contents c') \<subseteq>\<^sub>m (map_of ?xs)(k \<mapsto> v)"
        using map_of_butlast [OF g(1)] by (auto simp: e map_le_def)
      ultimately show ?thesis
        using g(4) ne nk' held_last [OF ne] add by (simp add: e usize_sub_def held_def split: prod.split)
    qed
  qed
  then show "held c' = (case d of Some (j, x) \<Rightarrow> usize_sub (usize_add (held c) (length v)) (length x)
        | None \<Rightarrow> usize_add (held c) (length v))" "distinct (map fst (contents c'))"
      "\<exists>xs. contents c' = (k, v) # xs" "length (contents c') \<le> lru_cap lru c"
      "map_of (contents c') \<subseteq>\<^sub>m (map_of ?xs)(k \<mapsto> v)" by blast+
qed

lemma insert_good:
  assumes "good pc"
  shows "\<exists>pc'. cache_insert lru k v pc = Ok pc' \<and> good pc' \<and> capacity pc' = capacity pc \<and>
    (if pc_inner pc = None \<or> DEFAULT_PCLUSTER_CACHE_BYTES < length v then pc' = pc
     else entries pc' \<subseteq>\<^sub>m (entries pc)(k \<mapsto> v) \<and> entries pc' k = Some v)"
proof (cases "pc_inner pc")
  case None
  then show ?thesis using assms by (simp add: cache_insert_def)
next
  case (Some c)
  have lim: "pc_byte_limit pc = DEFAULT_PCLUSTER_CACHE_BYTES" and held: "pc_bytes pc = held c"
    using assms Some by (simp_all add: good_def)
  show ?thesis
  proof (cases "pc_byte_limit pc < length v")
    case True
    with Some assms lim show ?thesis by (simp add: cache_insert_def)
  next
    case False
    then have v: "length v \<le> pc_byte_limit pc" by simp
    obtain d c' where p: "lru_push lru k v c = (d, c')" by (cases "lru_push lru k v c")
    note pg = push_good [OF assms Some v p]
    have "length (contents c') < Suc (lru_len lru c')" by (simp add: len)
    from evict_fits [OF this, of "pc_byte_limit pc"] obtain c'' m where
      ev: "evict lru (Suc (lru_len lru c')) (pc_byte_limit pc) (held c') c' = Ok (held c'', c'')"
        "contents c'' = take m (contents c')" "held c'' \<le> pc_byte_limit pc" "lru_cap lru c'' = lru_cap lru c'"
        "contents c' \<noteq> [] \<longrightarrow> length (snd (hd (contents c'))) \<le> pc_byte_limit pc \<longrightarrow> 0 < m"
      by blast
    have m: "0 < m" using ev(5) pg(3) v by auto
    let ?pc = "pc\<lparr>pc_inner := Some c'', pc_bytes := held c''\<rparr>"
    have ins: "cache_insert lru k v pc = Ok ?pc"
      using False by (simp add: cache_insert_def Some p held pg(1) [symmetric] ev(1) Let_def del: evict.simps)
    have "good ?pc"
      using assms Some pg ev m distinct_take_keys [OF pg(2), of m]
      by (auto simp: good_def)
    moreover have "entries ?pc \<subseteq>\<^sub>m (entries pc)(k \<mapsto> v)"
      using pg(6) map_of_take [OF pg(2), of m]
      by (simp add: entries_def Some ev(2) map_le_def dom_def) (metis option.inject)
    moreover have "entries ?pc k = Some v"
      using pg(3) m by (auto simp: entries_def ev(2) gr0_conv_Suc)
    moreover have "capacity ?pc = capacity pc" using ev(4) pg(5) Some by (simp add: capacity_def)
    ultimately show ?thesis using ins Some False lim by simp
  qed
qed

end

section \<open>Runs of cache operations\<close>

datatype cache_op = Lookup pcluster_key | Insert pcluster_key bytes | Resize usize

fun cache_run :: "'c lru_ops \<Rightarrow> cache_op list \<Rightarrow> 'c pcluster_cache \<Rightarrow> 'c pcluster_cache result" where
  "cache_run lru [] pc = Ok pc"
| "cache_run lru (Lookup k # ops) pc = cache_run lru ops (snd (cache_lookup lru k pc))"
| "cache_run lru (Insert k v # ops) pc = bindR (cache_insert lru k v pc) (cache_run lru ops)"
| "cache_run lru (Resize n # ops) pc = cache_run lru ops (set_pcluster_cache_capacity lru n pc)"

text \<open>The capacity last set.\<close>

fun capacity_after :: "cache_op list \<Rightarrow> usize \<Rightarrow> usize" where
  "capacity_after [] n = n"
| "capacity_after (Resize m # ops) n = capacity_after ops m"
| "capacity_after (op # ops) n = capacity_after ops n"

text \<open>The value an operation sequence last stored under a key since the capacity was last set; one larger
  than the cache is not stored.\<close>

fun stored :: "cache_op list \<Rightarrow> pcluster_key \<Rightarrow> bytes option \<Rightarrow> bytes option" where
  "stored [] k old = old"
| "stored (Lookup j # ops) k old = stored ops k old"
| "stored (Resize n # ops) k old = stored ops k None"
| "stored (Insert j v # ops) k old =
     stored ops k (if j = k \<and> length v \<le> DEFAULT_PCLUSTER_CACHE_BYTES then Some v else old)"

lemma stored_mono: "(a = None \<or> a = b) \<Longrightarrow> stored ops k a = None \<or> stored ops k a = stored ops k b"
  by (induction ops k a arbitrary: b rule: stored.induct) auto

context lru_cache
begin

lemma cache_run_good:
  "good pc \<Longrightarrow> \<exists>pc'. cache_run lru ops pc = Ok pc' \<and> good pc' \<and> capacity pc' = capacity_after ops (capacity pc) \<and>
     (\<forall>k v. entries pc' k = Some v \<longrightarrow> stored ops k (entries pc k) = Some v)"
proof (induction ops arbitrary: pc)
  case (Cons op ops)
  show ?case
  proof (cases op)
    case (Lookup k)
    obtain v pc' where l: "cache_lookup lru k pc = (v, pc')" by (cases "cache_lookup lru k pc")
    note lg = lookup_good [OF Cons.prems l]
    then have "good pc'" "entries pc' = entries pc" "capacity pc' = capacity pc" by simp_all
    with Cons.IH [of pc'] show ?thesis by (simp add: Lookup l)
  next
    case (Insert k v)
    from insert_good [OF Cons.prems, of k v] obtain pc' where
      i: "cache_insert lru k v pc = Ok pc'" "good pc'" "capacity pc' = capacity pc"
      and e: "if pc_inner pc = None \<or> DEFAULT_PCLUSTER_CACHE_BYTES < length v then pc' = pc
              else entries pc' \<subseteq>\<^sub>m (entries pc)(k \<mapsto> v) \<and> entries pc' k = Some v" by blast
    from Cons.IH [OF i(2)] obtain pc'' where r: "cache_run lru ops pc' = Ok pc''" "good pc''"
        "capacity pc'' = capacity_after ops (capacity pc')"
      and st: "\<And>j w. entries pc'' j = Some w \<Longrightarrow> stored ops j (entries pc' j) = Some w" by blast
    have "stored (op # ops) j (entries pc j) = Some w" if w: "entries pc'' j = Some w" for j w
    proof -
      let ?new = "if k = j \<and> length v \<le> DEFAULT_PCLUSTER_CACHE_BYTES then Some v else entries pc j"
      have "stored ops j (entries pc' j) = Some w" by (rule st [OF w])
      moreover have "entries pc' j = None \<or> entries pc' j = ?new"
      proof (cases "pc_inner pc = None")
        case True
        then have "pc' = pc" using e by simp
        then show ?thesis using True by (simp add: entries_def)
      next
        case False
        then show ?thesis using e by (cases "entries pc' j") (auto dest: map_leD split: if_splits)
      qed
      ultimately show ?thesis using stored_mono [of "entries pc' j" ?new ops j] by (simp add: Insert)
    qed
    then show ?thesis using i r by (auto simp: Insert)
  next
    case (Resize n)
    then show ?thesis
      using Cons.IH [OF good_new(1) [of n]] by (simp add: set_pcluster_cache_capacity_def good_new)
  qed
qed simp

end

section \<open>An implementation of the contract\<close>

text \<open>The crate's documented behaviour on a list of entries, newest first, beside its capacity.\<close>

definition lru_list :: "(nat \<times> pcluster_entry list) lru_ops" where
  "lru_list =
     \<lparr>lru_new = (\<lambda>n. (n, [])), lru_len = (\<lambda>(n, xs). length xs), lru_cap = fst,
      lru_get = (\<lambda>k (n, xs). case map_of xs k of
                   Some v \<Rightarrow> (Some v, (n, (k, v) # AList.delete k xs)) | None \<Rightarrow> (None, (n, xs))),
      lru_push = (\<lambda>k v (n, xs). case map_of xs k of
                   Some old \<Rightarrow> (Some (k, old), (n, (k, v) # AList.delete k xs))
                 | None \<Rightarrow> if length xs < n then (None, (n, (k, v) # xs))
                            else (Some (last xs), (n, (k, v) # butlast xs))),
      lru_pop = (\<lambda>(n, xs). if xs = [] then (None, (n, xs)) else (Some (last xs), (n, butlast xs)))\<rparr>"

interpretation lru_list: lru_cache lru_list snd
  by unfold_locales (auto simp: lru_list_def split: option.splits prod.splits if_splits)

text \<open>C30: after any sequence of lookups, insertions and changes of capacity the cache holds no more entries
  than the capacity last set and no more than 64 MiB, its byte count is exactly what it holds, and every
  entry it holds is the value last stored under that key since then; the eviction loop always ends.\<close>

theorem cache_run_bounded:
  assumes "lru_cache lru contents"
  shows "\<exists>pc. cache_run lru ops (cache_new lru n) = Ok pc \<and> pc_bytes pc \<le> 64 * 1024 * 1024 \<and>
    (case pc_inner pc of
       None \<Rightarrow> capacity_after ops n = 0 \<and> pc_bytes pc = 0
     | Some c \<Rightarrow> length (contents c) \<le> capacity_after ops n \<and> pc_bytes pc = sum_list (map (length \<circ> snd) (contents c))
         \<and> list_all (\<lambda>(k, v). stored ops k None = Some v) (contents c))"
proof -
  note new = lru_cache.good_new [OF assms] and defs = lru_cache.good_def [OF assms]
    lru_cache.capacity_def [OF assms] lru_cache.entries_def [OF assms] lru_cache.held_def [OF assms]
  obtain pc where r: "cache_run lru ops (cache_new lru n) = Ok pc" and g: "lru_cache.good lru contents pc"
      "lru_cache.capacity lru pc = capacity_after ops n"
    and st: "\<And>k v. lru_cache.entries contents pc k = Some v \<Longrightarrow> stored ops k None = Some v"
    using lru_cache.cache_run_good [OF assms new(1), of ops n] by (auto simp: new)
  show ?thesis
  proof (cases "pc_inner pc")
    case None
    with r g show ?thesis by (auto simp: defs)
  next
    case (Some c)
    then have "distinct (map fst (contents c))" using g by (simp add: defs)
    then have "list_all (\<lambda>(k, v). stored ops k None = Some v) (contents c)"
      using st Some by (auto simp: list_all_iff defs)
    with r g Some show ?thesis by (auto simp: defs DEFAULT_PCLUSTER_CACHE_BYTES_def)
  qed
qed

theorem cache_run_bounded_witness:
  "\<exists>pc. cache_run lru_list [Insert (1, 2, 3, 4) [5], Lookup (1, 2, 3, 4), Insert (1, 2, 3, 5) [6, 7]] (cache_new lru_list 1) = Ok pc
     \<and> pc_bytes pc \<le> 64 * 1024 * 1024"
  using cache_run_bounded [OF lru_list.lru_cache_axioms,
      of "[Insert (1, 2, 3, 4) [5], Lookup (1, 2, 3, 4), Insert (1, 2, 3, 5) [6, 7]]" 1] by blast

end
