(* ===== verification/Reader.thy ===== *)
theory Reader
  imports Cache Zmap Dir Xattr
begin

text \<open>
  The filesystem handle and the reading of data (\<open>Filesystem\<close> of \<open>src/fs.rs\<close>): opening, routing of
  reads to devices, one block of an inode of any layout, and \<open>read_file\<close>. The state a read changes
  is the cache of decompressed pclusters; the handle's two \<open>OnceLock\<close>s only remember functions of the
  device and are recomputed here. The codecs and the \<open>lru\<close> crate are the record \<open>libs\<close>. A mutex that
  is poisoned by a panic of another thread is not modelled.
\<close>

record ('z, 'c) libs =
  lib_codecs :: "'z codecs"
  lib_lru :: "'c lru_ops"

record filesystem =
  fs_primary :: blockdev
  fs_data :: blockdev
  fs_extras :: "blockdev list"
  fs_sb :: superblock
  fs_compr_cfgs :: "compr_cfgs option"

section \<open>Calls that change the cache\<close>

type_synonym ('c, 'a) io = "'c pcluster_cache \<Rightarrow> 'a result \<times> 'c pcluster_cache"

definition liftS :: "'a result \<Rightarrow> ('c, 'a) io" where "liftS r s = (r, s)"

definition bindS :: "('c, 'a) io \<Rightarrow> ('a \<Rightarrow> ('c, 'b) io) \<Rightarrow> ('c, 'b) io" where
  "bindS m f s = (case m s of
     (Ok a, s') \<Rightarrow> f a s' | (Err e, s') \<Rightarrow> (Err e, s') | (Panic, s') \<Rightarrow> (Panic, s') | (Overrun, s') \<Rightarrow> (Overrun, s'))"

lemma liftS_apply [simp]: "liftS r s = (r, s)"
  by (simp add: liftS_def)

lemma bindS_cong [fundef_cong]:
  "m s = m' s \<Longrightarrow> s = t \<Longrightarrow> (\<And>a s'. m' s = (Ok a, s') \<Longrightarrow> f a s' = g a s') \<Longrightarrow> bindS m f s = bindS m' g t"
  by (cases "m' s"; cases "fst (m' s)") (auto simp: bindS_def)

section \<open>Opening\<close>

definition DEFAULT_METADATA_CACHE_BLOCKS :: usize where "DEFAULT_METADATA_CACHE_BLOCKS = 512"
definition MAX_SYMLINK_TARGET :: u64 where "MAX_SYMLINK_TARGET = 4096"

definition open_split ::
    "(bytes \<Rightarrow> u32) \<Rightarrow> blockdev \<Rightarrow> blockdev \<Rightarrow> blockdev list \<Rightarrow> filesystem result" where
  "open_split crc primary data extras =
     bindR (superblock_read crc primary primary) (\<lambda>sb.
     bindR (check_incompat_features sb) (\<lambda>_.
       if length extras \<noteq> unat (sb_extra_devices sb)
       then Err (BadSuperblock ''extra device count mismatch'')
       else bindR (read_compr_cfgs primary sb) (\<lambda>cfgs.
         Ok \<lparr>fs_primary = primary, fs_data = data, fs_extras = extras, fs_sb = sb, fs_compr_cfgs = cfgs\<rparr>)))"

definition open_with_devices :: "(bytes \<Rightarrow> u32) \<Rightarrow> blockdev \<Rightarrow> blockdev list \<Rightarrow> filesystem result" where
  "open_with_devices crc primary extras = open_split crc primary primary extras"

text \<open>\<open>fs_core::CachingDevice::read_only\<close> is a parameter.\<close>

definition open_with_cache ::
    "(bytes \<Rightarrow> u32) \<Rightarrow> (blockdev \<Rightarrow> u64 \<Rightarrow> usize \<Rightarrow> blockdev) \<Rightarrow> blockdev \<Rightarrow> usize \<Rightarrow> filesystem result" where
  "open_with_cache crc caching dev blocks =
     (if blocks = 0 then open_with_devices crc dev []
      else bindR (superblock_read crc dev dev) (\<lambda>sb.
        open_split crc (caching dev (push_bit (unat (sb_blkszbits sb) mod 64) 1) blocks) dev []))"

definition fs_open ::
    "(bytes \<Rightarrow> u32) \<Rightarrow> (blockdev \<Rightarrow> u64 \<Rightarrow> usize \<Rightarrow> blockdev) \<Rightarrow> blockdev \<Rightarrow> filesystem result" where
  "fs_open crc caching dev = open_with_cache crc caching dev DEFAULT_METADATA_CACHE_BLOCKS"

definition fs_read_device_table :: "filesystem \<Rightarrow> device_slot list result" where
  "fs_read_device_table fs = read_device_table (fs_primary fs) (fs_sb fs)"

section \<open>Devices\<close>

definition device_for :: "filesystem \<Rightarrow> u16 \<Rightarrow> blockdev result" where
  "device_for fs device_id =
     (if device_id = 0 then Ok (fs_primary fs)
      else ok_or (get_at (fs_extras fs) (unat device_id - 1)) (BadSuperblock ''device_id out of range''))"

definition data_device_for :: "filesystem \<Rightarrow> u16 \<Rightarrow> blockdev result" where
  "data_device_for fs device_id = (if device_id = 0 then Ok (fs_data fs) else device_for fs device_id)"

definition read_block :: "filesystem \<Rightarrow> u16 \<Rightarrow> u64 \<Rightarrow> usize \<Rightarrow> bytes result" where
  "read_block fs device_id off n = bindR (device_for fs device_id) (\<lambda>dev. read_at dev off n)"

definition read_data :: "filesystem \<Rightarrow> u16 \<Rightarrow> u64 \<Rightarrow> usize \<Rightarrow> bytes result" where
  "read_data fs device_id off n = bindR (data_device_for fs device_id) (\<lambda>dev. read_at dev off n)"

definition read_source :: "filesystem \<Rightarrow> bool \<Rightarrow> u16 \<Rightarrow> u64 \<Rightarrow> usize \<Rightarrow> bytes result" where
  "read_source fs metadata device_id off n =
     (if metadata then read_block fs device_id off n else read_data fs device_id off n)"

definition root_inode :: "filesystem \<Rightarrow> inode result" where
  "root_inode fs = inode_read (fs_primary fs) (fs_sb fs) (ucast (sb_root_nid (fs_sb fs)))"

definition read_inode :: "filesystem \<Rightarrow> u64 \<Rightarrow> inode result" where
  "read_inode fs nid = inode_read (fs_primary fs) (fs_sb fs) nid"

definition packed_inode :: "filesystem \<Rightarrow> inode result" where
  "packed_inode fs =
     (if sb_packed_nid (fs_sb fs) = 0 then Err (BadInode ''packed_nid is zero; cannot load packed inode'')
      else inode_read (fs_primary fs) (fs_sb fs) (sb_packed_nid (fs_sb fs)))"

definition xattr_prefix_dict :: "filesystem \<Rightarrow> xattr_long_prefix list result" where
  "xattr_prefix_dict fs = read_xattr_prefix_dictionary (fs_primary fs) (fs_sb fs)"

definition fs_xattrs :: "filesystem \<Rightarrow> inode \<Rightarrow> (bytes \<times> bytes) list result" where
  "fs_xattrs fs ino =
     bindR (read_all_xattrs (fs_primary fs) (fs_sb fs) ino) (\<lambda>entries.
       if entries = [] then Ok []
       else bindR (xattr_prefix_dict fs) (\<lambda>dict.
         mapR (\<lambda>e. bindR (resolve_with_dict (x_name_index e) (x_name e) dict) (\<lambda>full.
                 Ok (full, x_value e))) entries))"

section \<open>One pcluster\<close>

definition interlaced_index :: "usize \<Rightarrow> usize \<Rightarrow> usize \<Rightarrow> usize \<Rightarrow> usize result" where
  "interlaced_index on_disk_len bs head_in_block off =
     (if on_disk_len = 0 then Panic
      else Ok (usize_add (usize_sub on_disk_len (usize_sub bs head_in_block)) off mod on_disk_len))"

definition pcluster_span :: "u64 \<Rightarrow> u64 \<Rightarrow> usize result" where
  "pcluster_span start_byte end_byte =
     bindR (ok_or (checked_sub end_byte start_byte) (BadInode ''pcluster ends before it starts'')) (\<lambda>span.
       if MAX_PCLUSTER_SIZE < span
       then Err (BadInode ''pcluster covers more of the file than a pcluster can'')
       else Ok (unat span))"

text \<open>The offset inside the extent, and how many bytes of it a buffer of \<open>n\<close> takes.\<close>

definition in_extent :: "pcluster_extent \<Rightarrow> u64 \<Rightarrow> usize" where
  "in_extent x off = unat (off - pe_source_start x)"

definition extent_take :: "pcluster_extent \<Rightarrow> u64 \<Rightarrow> usize \<Rightarrow> usize" where
  "extent_take x off n = min n (unat (pe_source_end x - off))"

text \<open>A PLAIN tail stored inline after the index.\<close>

definition fill_inline_plain ::
    "filesystem \<Rightarrow> bool \<Rightarrow> zmap \<Rightarrow> pcluster_extent \<Rightarrow> u64 \<times> u32 \<Rightarrow> u64 \<Rightarrow> usize \<Rightarrow> nat \<times> nat \<Rightarrow> bytes result" where
  "fill_inline_plain fs metadata zm x tail off n wanted =
     (let bs = block_size (fs_sb fs);
          take_n = extent_take x off n; off_in_pcluster = in_extent x off;
          inline_off = fst tail; inline_len = unat (snd tail)
      in if has_interlaced_pcluster zm then
           let head_in_block = unat (pe_source_start x mod bs) in
           bindR (pcluster_span (pe_source_start x) (pe_source_end x)) (\<lambda>span.
             if inline_len < head_in_block + span \<and> head_in_block + span \<le> unat bs then
               if fst wanted < take_n \<and> fst wanted < snd wanted
               then Err (BadInode ''interlaced inline PLAIN tail runs past its inline data (mkfs.erofs -Eall-fragments,ztailpacking); its bytes cannot be read truthfully'')
               else Ok (replicate take_n 0)
             else bindR (read_source fs metadata 0 inline_off inline_len) (\<lambda>inl.
               mapR (\<lambda>k. bindR (interlaced_index (unat bs) (unat bs) head_in_block (off_in_pcluster + k)) (\<lambda>at.
                      ok_or (get_at inl at) (BadInode ''interlaced inline PLAIN tail shorter than its extent'')))
                 [0..<take_n]))
         else if inline_len < off_in_pcluster + take_n
         then Err (BadInode ''inline PLAIN tail shorter than its extent'')
         else read_source fs metadata 0 (inline_off + word_of_nat off_in_pcluster) take_n)"

text \<open>A PLAIN extent in blocks of its own.\<close>

definition fill_plain ::
    "filesystem \<Rightarrow> bool \<Rightarrow> zmap \<Rightarrow> pcluster_extent \<Rightarrow> u64 \<Rightarrow> usize \<Rightarrow> bytes result" where
  "fill_plain fs metadata zm x off n =
     (let bs = block_size (fs_sb fs);
          take_n = extent_take x off n; off_in_pcluster = in_extent x off
      in if has_interlaced_pcluster zm then
           let on_disk_len = unat (pe_block_count x) * unat bs in
           if 2 ^ 64 \<le> on_disk_len then Err (BadInode ''INTERLACED PLAIN: pcluster size overflows'')
           else bindR (pcluster_span (pe_source_start x) (pe_source_end x)) (\<lambda>span.
             if on_disk_len < span then Err (BadInode ''INTERLACED PLAIN: extent longer than its blocks'')
             else bindR (read_source fs metadata (pe_device_id x) (ucast (pe_blkaddr x) * bs) on_disk_len) (\<lambda>on_disk.
               let head_in_block = unat (pe_source_start x mod bs) in
               mapR (\<lambda>k. bindR (interlaced_index on_disk_len (unat bs) head_in_block (off_in_pcluster + k))
                            (idx on_disk)) [0..<take_n]))
         else read_source fs metadata (pe_device_id x)
                (ucast (pe_blkaddr x) * bs + word_of_nat off_in_pcluster) take_n)"

text \<open>Where the compressed bytes of an extent lie: the inline tail, or its blocks up to the end of the device.\<close>

definition compressed_source ::
    "filesystem \<Rightarrow> bool \<Rightarrow> pcluster_extent \<Rightarrow> (u64 \<times> u32) option \<Rightarrow> (u64 \<times> usize) result" where
  "compressed_source fs metadata x tail =
     (case tail of
        Some (off, sz) \<Rightarrow> Ok (off, unat sz)
      | None \<Rightarrow>
          bindR (if metadata then device_for fs (pe_device_id x) else data_device_for fs (pe_device_id x)) (\<lambda>dev.
            let bs = block_size (fs_sb fs);
                off = ucast (pe_blkaddr x) * bs;
                want = pe_block_count x * bs;
                capped = (if dev_size dev \<le> off then 0 else min want (dev_size dev - off))
            in Ok (off, unat capped)))"

definition decode_extent ::
    "('z, 'c) libs \<Rightarrow> filesystem \<Rightarrow> bool \<Rightarrow> zmap \<Rightarrow> pcluster_extent \<Rightarrow> (u64 \<times> u32) option \<Rightarrow> bytes result" where
  "decode_extent L fs metadata zm x tail =
     bindR (header_algo zm (pe_cluster_type x)) (\<lambda>algo.
     bindR (compressed_source fs metadata x tail) (\<lambda>(src_off, src_len).
     bindR (if 0 < src_len then read_source fs metadata (pe_device_id x) src_off src_len else Ok []) (\<lambda>compressed.
     bindR (pcluster_span (pe_source_start x) (pe_source_end x)) (\<lambda>uncompressed_len.
     let lzma_cfg = (case fs_compr_cfgs fs of Some c \<Rightarrow> cfg_lzma c | None \<Rightarrow> None);
         zero_padding = (sb_feature_incompat (fs_sb fs) AND INCOMPAT_ZERO_PADDING \<noteq> 0)
     in if pe_partial_ref x
        then decompress_prefix_with_config_and_padding (lib_codecs L) algo lzma_cfg zero_padding compressed uncompressed_len
        else decompress_with_config_and_padding (lib_codecs L) algo lzma_cfg zero_padding compressed uncompressed_len))))"

definition fill_compressed ::
    "('z, 'c) libs \<Rightarrow> filesystem \<Rightarrow> u64 \<Rightarrow> bool \<Rightarrow> zmap \<Rightarrow> pcluster_extent \<Rightarrow> (u64 \<times> u32) option
       \<Rightarrow> u64 \<Rightarrow> usize \<Rightarrow> ('c, bytes) io" where
  "fill_compressed L fs nid metadata zm x tail off n s =
     (let take_n = extent_take x off n; off_in_pcluster = in_extent x off;
          key = (nid, pe_blkaddr x, pe_source_start x, pe_source_end x)
      in case cache_lookup (lib_lru L) key s of
           (Some cached, s') \<Rightarrow>
             (ok_or (get_range cached off_in_pcluster (off_in_pcluster + take_n))
                (BadInode ''cached pcluster is shorter than its extent''), s')
         | (None, s') \<Rightarrow>
             bindS (liftS (decode_extent L fs metadata zm x tail)) (\<lambda>decompressed.
             bindS (liftS (slice decompressed off_in_pcluster (off_in_pcluster + take_n))) (\<lambda>out s.
               case cache_insert (lib_lru L) key decompressed s of
                 Ok s' \<Rightarrow> (Ok out, s') | Err e \<Rightarrow> (Err e, s) | Panic \<Rightarrow> (Panic, s) | Overrun \<Rightarrow> (Overrun, s))) s')"

definition fill_extent ::
    "('z, 'c) libs \<Rightarrow> filesystem \<Rightarrow> u64 \<Rightarrow> bool \<Rightarrow> zmap \<Rightarrow> pcluster_extent \<Rightarrow> u64 \<Rightarrow> usize \<Rightarrow> nat \<times> nat
       \<Rightarrow> ('c, bytes) io" where
  "fill_extent L fs nid metadata zm x off n wanted =
     (if off < pe_source_start x \<or> pe_source_end x < off
      then liftS (Err (BadInode ''pcluster extent does not bracket the requested file offset''))
      else
        let tail = (if pe_is_last x then tail_inline_offset_and_size zm else None) in
        if pe_cluster_type x = LCLUSTER_TYPE_PLAIN then
          (case tail of
             Some t \<Rightarrow> liftS (fill_inline_plain fs metadata zm x t off n wanted)
           | None \<Rightarrow> liftS (fill_plain fs metadata zm x off n))
        else fill_compressed L fs nid metadata zm x tail off n)"

text \<open>The bytes of a fragment come from the packed inode, through \<open>read_packed\<close>.\<close>

definition fill_fragment ::
    "filesystem \<Rightarrow> (inode \<Rightarrow> u64 \<Rightarrow> usize \<Rightarrow> ('c, bytes) io) \<Rightarrow> u32 \<times> u64 \<times> u64 \<Rightarrow> u64 \<Rightarrow> usize \<Rightarrow> ('c, bytes) io" where
  "fill_fragment fs read_packed frag off n =
     (case frag of (fragmentoff, frag_start, frag_end) \<Rightarrow>
        let in_frag = off - frag_start;
            frag_remaining = unat (frag_end - off);
            take_n = min n frag_remaining
        in bindS (liftS (packed_inode fs)) (\<lambda>packed.
             let src_off = ucast fragmentoff + in_frag in
             if i_size packed < sat_add src_off (word_of_nat take_n)
             then liftS (Err (BadInode ''fragment range extends past packed inode size''))
             else read_packed packed src_off take_n))"

definition fill_from_one_pcluster ::
    "('z, 'c) libs \<Rightarrow> filesystem \<Rightarrow> (inode \<Rightarrow> u64 \<Rightarrow> usize \<Rightarrow> ('c, bytes) io) \<Rightarrow> u64 \<Rightarrow> bool \<Rightarrow> zmap
       \<Rightarrow> u64 \<Rightarrow> usize \<Rightarrow> nat \<times> nat \<Rightarrow> ('c, bytes) io" where
  "fill_from_one_pcluster L fs read_packed nid metadata zm off n wanted =
     (if inode_size zm \<le> off then liftS (Ok (replicate n 0))
      else bindS (liftS (fragment_range zm (fs_primary fs))) (\<lambda>frag.
        case frag of
          Some (fo, frag_start, frag_end) \<Rightarrow>
            if frag_start \<le> off \<and> off < frag_end
            then fill_fragment fs read_packed (fo, frag_start, frag_end) off n
            else bindS (liftS (pcluster_extent_at zm (fs_primary fs) off)) (\<lambda>x.
                   fill_extent L fs nid metadata zm x off n wanted)
        | None \<Rightarrow> bindS (liftS (pcluster_extent_at zm (fs_primary fs) off)) (\<lambda>x.
                   fill_extent L fs nid metadata zm x off n wanted)))"

section \<open>One block\<close>

text \<open>
  The loop of \<open>read_compressed_block\<close>, from \<open>written\<close> on, over the function that fills from one
  pcluster: it ends with the buffer full, or zero-filled from where a call made no progress.
\<close>

function fill_block_from ::
    "(u64 \<Rightarrow> usize \<Rightarrow> nat \<times> nat \<Rightarrow> ('c, bytes) io) \<Rightarrow> u64 \<Rightarrow> usize \<Rightarrow> nat \<times> nat \<Rightarrow> usize \<Rightarrow> ('c, bytes) io" where
  "fill_block_from fill block_start n wanted written s =
     (if written < n then
        bindS (fill (block_start + word_of_nat written) (n - written) (fst wanted - written, snd wanted - written))
          (\<lambda>bs s.
            if length bs = 0 then (Ok (replicate (n - written) 0), s)
            else bindS (fill_block_from fill block_start n wanted (written + length bs))
                   (\<lambda>rest s. (Ok (bs @ rest), s)) s) s
      else (Ok [], s))"
  by pat_completeness auto
termination
  by (relation "measure (\<lambda>(f, b, n, w, k, s). n - k)") (auto intro!: diff_less_mono2)

definition read_compressed_block ::
    "('z, 'c) libs \<Rightarrow> filesystem \<Rightarrow> (inode \<Rightarrow> u64 \<Rightarrow> usize \<Rightarrow> ('c, bytes) io) \<Rightarrow> inode \<Rightarrow> u64 \<Rightarrow> zmap
       \<Rightarrow> usize \<Rightarrow> nat \<times> nat \<Rightarrow> ('c, bytes) io" where
  "read_compressed_block L fs read_packed ino block_idx zm n wanted =
     (let block_start = block_idx * block_size (fs_sb fs) in
      fill_block_from (fill_from_one_pcluster L fs read_packed (i_nid ino) (is_dir ino \<or> is_symlink ino) zm)
        block_start n wanted 0)"

text \<open>The closure \<open>read\<close>.\<close>

definition read_via :: "filesystem \<Rightarrow> inode \<Rightarrow> u16 \<Rightarrow> u64 \<Rightarrow> usize \<Rightarrow> bytes result" where
  "read_via fs ino device_id off n =
     (if is_dir ino \<or> is_symlink ino then read_block fs device_id off n else read_data fs device_id off n)"

definition read_chunk_block :: "filesystem \<Rightarrow> inode \<Rightarrow> u64 \<Rightarrow> usize \<Rightarrow> bytes result" where
  "read_chunk_block fs ino block_idx n =
     (let bs = block_size (fs_sb fs) in
      bindR (chunk_info (fs_sb fs) ino) (\<lambda>info.
        let chunk_idx = drop_bit (unat (chunk_bits info)) block_idx;
            block_in_chunk = block_idx AND (push_bit (unat (chunk_bits info)) 1 - 1)
        in bindR (lookup_chunk_blkaddr (fs_primary fs) (fs_sb fs) ino chunk_idx) (\<lambda>(blkaddr, device_id).
             if blkaddr = EROFS_NULL_ADDR then Ok (replicate n 0)
             else read_via fs ino device_id ((ucast blkaddr + block_in_chunk) * bs) n)))"

definition read_data_block_for ::
    "('z, 'c) libs \<Rightarrow> filesystem \<Rightarrow> (inode \<Rightarrow> u64 \<Rightarrow> usize \<Rightarrow> ('c, bytes) io) \<Rightarrow> inode \<Rightarrow> u64 \<Rightarrow> u64
       \<Rightarrow> zmap option \<Rightarrow> usize \<Rightarrow> nat \<times> nat \<Rightarrow> ('c, bytes) io" where
  "read_data_block_for L fs read_packed ino block_idx total_blocks zm n wanted =
     (let bs = block_size (fs_sb fs) in
      case fmt_layout (i_format ino) of
        FlatPlain \<Rightarrow> liftS (read_via fs ino 0 (ucast (i_raw_u ino) * bs + block_idx * bs) n)
      | FlatInline \<Rightarrow>
          if 0 < total_blocks \<and> block_idx = total_blocks - 1
          then liftS (read_via fs ino 0 (body_end ino (fs_sb fs)) n)
          else liftS (read_via fs ino 0 (ucast (i_raw_u ino) * bs + block_idx * bs) n)
      | ChunkBased \<Rightarrow> liftS (read_chunk_block fs ino block_idx n)
      | _ \<Rightarrow>
          (case zm of
             Some z \<Rightarrow> read_compressed_block L fs read_packed ino block_idx z n wanted
           | None \<Rightarrow> bindS (liftS (zmap_open (fs_primary fs) (fs_sb fs) ino)) (\<lambda>z.
                       read_compressed_block L fs read_packed ino block_idx z n wanted)))"

definition read_data_block ::
    "('z, 'c) libs \<Rightarrow> filesystem \<Rightarrow> (inode \<Rightarrow> u64 \<Rightarrow> usize \<Rightarrow> ('c, bytes) io) \<Rightarrow> inode \<Rightarrow> u64 \<Rightarrow> u64
       \<Rightarrow> zmap option \<Rightarrow> usize \<Rightarrow> ('c, bytes) io" where
  "read_data_block L fs read_packed ino block_idx total_blocks zm n =
     read_data_block_for L fs read_packed ino block_idx total_blocks zm n (0, n)"

definition zmap_for :: "filesystem \<Rightarrow> inode \<Rightarrow> zmap option result" where
  "zmap_for fs ino =
     (case fmt_layout (i_format ino) of
        Compression \<Rightarrow> bindR (zmap_open (fs_primary fs) (fs_sb fs) ino) (\<lambda>z. Ok (Some z))
      | CompressionLegacy \<Rightarrow> bindR (zmap_open (fs_primary fs) (fs_sb fs) ino) (\<lambda>z. Ok (Some z))
      | _ \<Rightarrow> Ok None)"

section \<open>Reading a file\<close>

text \<open>
  The loop of \<open>read_file\<close> over the function that reads a block. Each round copies at least one byte, so
  \<open>n\<close> rounds are enough for a buffer of \<open>n\<close>; a round that copied none would be repeated for ever,
  and spends the bound: \<open>Overrun\<close>.
\<close>

primrec read_loop ::
    "(u64 \<Rightarrow> usize \<Rightarrow> nat \<times> nat \<Rightarrow> ('c, bytes) io) \<Rightarrow> u64 \<Rightarrow> u64 \<Rightarrow> nat \<Rightarrow> u64 \<Rightarrow> usize \<Rightarrow> usize \<Rightarrow> ('c, bytes) io" where
  "read_loop rd bs fsize 0 cursor n written = liftS (if written < n then Overrun else Ok [])"
| "read_loop rd bs fsize (Suc rounds) cursor n written =
     (if written < n then
        let block_idx = cursor div bs;
            block_start = block_idx * bs;
            valid_in_block = unat (min (fsize - block_start) bs);
            in_block_off = unat (cursor mod bs);
            take_n = min (usize_sub valid_in_block in_block_off) (n - written)
        in bindS (rd block_idx valid_in_block (in_block_off, in_block_off + take_n)) (\<lambda>block.
           bindS (liftS (slice block in_block_off (in_block_off + take_n))) (\<lambda>bytes.
           bindS (read_loop rd bs fsize rounds (cursor + word_of_nat take_n) n (written + take_n)) (\<lambda>rest.
             liftS (Ok (bytes @ rest)))))
      else liftS (Ok []))"

definition read_file_with ::
    "('z, 'c) libs \<Rightarrow> filesystem \<Rightarrow> (inode \<Rightarrow> u64 \<Rightarrow> usize \<Rightarrow> ('c, bytes) io) \<Rightarrow> inode \<Rightarrow> u64 \<Rightarrow> usize
       \<Rightarrow> ('c, bytes) io" where
  "read_file_with L fs read_packed ino off n =
     (if i_size ino < sat_add off (word_of_nat n) then liftS (Err OutOfRange)
      else if n = 0 then liftS (Ok [])
      else
        let bs = block_size (fs_sb fs);
            total_blocks = div_ceil (i_size ino) bs
        in bindS (liftS (zmap_for fs ino)) (\<lambda>zm.
             read_loop (\<lambda>block_idx. read_data_block_for L fs read_packed ino block_idx total_blocks zm)
               bs (i_size ino) n off n 0))"

text \<open>
  A read of a file with a fragment reads the packed inode, which may have a fragment itself: the first
  argument bounds how deep the calls nest.
\<close>

primrec read_file :: "nat \<Rightarrow> ('z, 'c) libs \<Rightarrow> filesystem \<Rightarrow> inode \<Rightarrow> u64 \<Rightarrow> usize \<Rightarrow> ('c, bytes) io" where
  "read_file 0 L fs ino off n = liftS Overrun"
| "read_file (Suc depth) L fs ino off n = read_file_with L fs (read_file depth L fs) ino off n"

end
