(* ===== verification/Paths.thy ===== *)
theory Paths
  imports Reader
begin

text \<open>
  Directories, symbolic links and paths (\<open>read_dir\<close> to \<open>resolve_path\<close> of \<open>src/fs.rs\<close>). A
  component of a path is the bytes between slashes; \<open>resolve_path\<close> keeps the components still to walk,
  those walked, and the number of symbolic links it may still follow. The first argument of each
  definition is the bound on nested reads of the packed inode that \<open>read_file\<close> takes.
\<close>

section \<open>Directories\<close>

text \<open>\<open>buf.resize(bs, 0)\<close> for a buffer no longer than a block.\<close>

definition pad_block :: "u64 \<Rightarrow> bytes \<Rightarrow> bytes" where
  "pad_block bs buf = buf @ replicate (unat bs - length buf) 0"

primrec read_dir_loop ::
    "(u64 \<Rightarrow> usize \<Rightarrow> ('c, bytes) io) \<Rightarrow> u64 \<Rightarrow> nat \<Rightarrow> u64 \<Rightarrow> u64 \<Rightarrow> dir_entry list \<Rightarrow> ('c, dir_entry list) io" where
  "read_dir_loop rd bs 0 remaining block_idx out = liftS (if 0 < remaining then Overrun else Ok out)"
| "read_dir_loop rd bs (Suc rounds) remaining block_idx out =
     (if 0 < remaining then
        let this_block = min remaining bs in
        bindS (rd block_idx (unat this_block)) (\<lambda>buf.
        bindS (liftS (iter_block (pad_block bs buf))) (\<lambda>entries.
          read_dir_loop rd bs rounds (remaining - this_block) (block_idx + 1) (out @ entries)))
      else liftS (Ok out))"

definition read_dir :: "nat \<Rightarrow> ('z, 'c) libs \<Rightarrow> filesystem \<Rightarrow> inode \<Rightarrow> ('c, dir_entry list) io" where
  "read_dir depth L fs ino =
     (if \<not> is_dir ino then liftS (Err NotADirectory)
      else
        let bs = block_size (fs_sb fs);
            total_blocks = div_ceil (i_size ino) bs
        in bindS (liftS (zmap_for fs ino)) (\<lambda>zm.
             read_dir_loop (\<lambda>block_idx. read_data_block L fs (read_file depth L fs) ino block_idx total_blocks zm)
               bs (unat total_blocks) (i_size ino) 0 []))"

text \<open>The callback of \<open>lookup\<close> keeps the first entry of the name.\<close>

definition first_match :: "bytes \<Rightarrow> dir_entry \<Rightarrow> u64 option \<Rightarrow> u64 option" where
  "first_match name e found = (if found = None \<and> de_name e = name then Some (de_nid e) else found)"

primrec lookup_loop ::
    "(u64 \<Rightarrow> usize \<Rightarrow> ('c, bytes) io) \<Rightarrow> u64 \<Rightarrow> bytes \<Rightarrow> nat \<Rightarrow> u64 \<Rightarrow> u64 \<Rightarrow> u64 option \<Rightarrow> ('c, u64 option) io" where
  "lookup_loop rd bs name 0 remaining block_idx found = liftS (if 0 < remaining then Overrun else Ok found)"
| "lookup_loop rd bs name (Suc rounds) remaining block_idx found =
     (if 0 < remaining then
        let this_block = min remaining bs in
        bindS (rd block_idx (unat this_block)) (\<lambda>buf.
          case visit_block (pad_block bs buf) (first_match name) found of (found', r) \<Rightarrow>
            bindS (liftS r) (\<lambda>_.
              lookup_loop rd bs name rounds (remaining - this_block) (block_idx + 1) found'))
      else liftS (Ok found))"

definition lookup :: "nat \<Rightarrow> ('z, 'c) libs \<Rightarrow> filesystem \<Rightarrow> inode \<Rightarrow> bytes \<Rightarrow> ('c, inode) io" where
  "lookup depth L fs dir name =
     (if \<not> is_dir dir then liftS (Err NotADirectory)
      else
        let bs = block_size (fs_sb fs);
            total_blocks = div_ceil (i_size dir) bs
        in bindS (liftS (zmap_for fs dir)) (\<lambda>zm.
           bindS (lookup_loop (\<lambda>block_idx. read_data_block L fs (read_file depth L fs) dir block_idx total_blocks zm)
                    bs name (unat total_blocks) (i_size dir) 0 None) (\<lambda>found.
             case found of
               Some nid \<Rightarrow> liftS (read_inode fs nid)
             | None \<Rightarrow> liftS (Err NotFound))))"

section \<open>Paths\<close>

primrec walk :: "nat \<Rightarrow> ('z, 'c) libs \<Rightarrow> filesystem \<Rightarrow> bytes list \<Rightarrow> inode \<Rightarrow> ('c, inode) io" where
  "walk depth L fs [] node = liftS (Ok node)"
| "walk depth L fs (c # cs) node = bindS (lookup depth L fs node c) (walk depth L fs cs)"

definition lookup_path_bytes :: "nat \<Rightarrow> ('z, 'c) libs \<Rightarrow> filesystem \<Rightarrow> bytes \<Rightarrow> ('c, inode) io" where
  "lookup_path_bytes depth L fs path =
     bindS (liftS (root_inode fs)) (\<lambda>node. walk depth L fs (components path) node)"

definition read_symlink_target :: "nat \<Rightarrow> ('z, 'c) libs \<Rightarrow> filesystem \<Rightarrow> inode \<Rightarrow> ('c, bytes) io" where
  "read_symlink_target depth L fs ino =
     (if \<not> is_symlink ino then liftS (Err (BadInode ''read_symlink_target on non-symlink''))
      else if MAX_SYMLINK_TARGET < i_size ino
      then liftS (Err (BadInode ''symlink target is longer than any path can be''))
      else
        let n = unat (i_size ino) in
        if 0 < n then read_file depth L fs ino 0 n else liftS (Ok []))"

definition MAXSYMLINKS :: u32 where "MAXSYMLINKS = 40"

lemma unat_pred_less32 [simp]: "b \<noteq> 0 \<Longrightarrow> unat (b - 1) < unat (b :: u32)"
  by (simp add: unat_minus_one unat_gt_0)

function resolve_loop ::
    "nat \<Rightarrow> ('z, 'c) libs \<Rightarrow> filesystem \<Rightarrow> u32 \<Rightarrow> bytes list \<Rightarrow> bytes list \<Rightarrow> inode \<Rightarrow> ('c, inode) io" where
  "resolve_loop depth L fs budget [] walked node s = (Ok node, s)"
| "resolve_loop depth L fs budget (component # pending) walked node s =
     bindS (lookup depth L fs node component) (\<lambda>node s.
       if is_symlink node then
         if budget = 0 then (Err (BadInode ''symlink loop''), s)
         else
           bindS (read_symlink_target depth L fs node) (\<lambda>target s.
             case from_utf8 target of
               None \<Rightarrow> (Err (BadInode ''symlink target not UTF-8''), s)
             | Some target_str \<Rightarrow>
                 if target_str \<noteq> [] \<and> hd target_str = slash
                 then bindS (liftS (root_inode fs)) (\<lambda>node s.
                        resolve_loop depth L fs (budget - 1) (components target_str @ pending) [] node s) s
                 else bindS (bindS (liftS (root_inode fs)) (walk depth L fs walked)) (\<lambda>node s.
                        resolve_loop depth L fs (budget - 1) (components target_str @ pending) walked node s) s) s
       else resolve_loop depth L fs budget pending (walked @ [component]) node s) s"
  by pat_completeness auto
termination
  by (relation "measures [\<lambda>(d, L, fs, b, p, w, n, s). unat b, \<lambda>(d, L, fs, b, p, w, n, s). length p]")
    auto

definition resolve_path :: "nat \<Rightarrow> ('z, 'c) libs \<Rightarrow> filesystem \<Rightarrow> bytes \<Rightarrow> bool \<Rightarrow> ('c, inode) io" where
  "resolve_path depth L fs path follow_symlinks =
     (if \<not> follow_symlinks then lookup_path_bytes depth L fs path
      else bindS (liftS (root_inode fs)) (\<lambda>node.
        resolve_loop depth L fs MAXSYMLINKS (components path) [] node))"

end
