(* ===== verification/ReaderSafe.thy ===== *)
theory ReaderSafe
  imports Paths
begin

text \<open>
  Reading on an image nothing is known about but two things: its packed inode has no fragment of its own,
  and neither that inode nor the file read has the size 2^64 - 1. The calls return, with a buffer of the
  length asked for or an error, whatever else the image holds and whatever a sound cache keeps. A packed
  inode that is a fragment of itself is read without end, which is proved here too.
\<close>

section \<open>Calls that return and keep the cache sound\<close>

text \<open>\<open>io_ok I P m\<close>: from a state in \<open>I\<close>, \<open>m\<close> returns, ends in \<open>I\<close>, and its value satisfies \<open>P\<close>.\<close>

definition io_ok :: "('c pcluster_cache \<Rightarrow> bool) \<Rightarrow> ('a \<Rightarrow> bool) \<Rightarrow> ('c, 'a) io \<Rightarrow> bool" where
  "io_ok I P m = (\<forall>s. I s \<longrightarrow> I (snd (m s)) \<and>
     (case fst (m s) of Ok a \<Rightarrow> P a | Err _ \<Rightarrow> True | Panic \<Rightarrow> False | Overrun \<Rightarrow> False))"

named_theorems io_intros "rules for io_ok"

lemma io_ok_lift [io_intros]: "returns r \<Longrightarrow> (\<And>a. r = Ok a \<Longrightarrow> P a) \<Longrightarrow> io_ok I P (liftS r)"
  by (cases r) (simp_all add: io_ok_def)

lemma io_ok_bind: "io_ok I Q m \<Longrightarrow> (\<And>a. Q a \<Longrightarrow> io_ok I P (f a)) \<Longrightarrow> io_ok I P (bindS m f)"
proof -
  assume m: "io_ok I Q m" and f: "\<And>a. Q a \<Longrightarrow> io_ok I P (f a)"
  show "io_ok I P (bindS m f)"
    unfolding io_ok_def
  proof (intro allI impI)
    fix s assume s: "I s"
    obtain r s' where ms: "m s = (r, s')" by (cases "m s")
    have r: "I s'" "case r of Ok a \<Rightarrow> Q a | Err _ \<Rightarrow> True | Panic \<Rightarrow> False | Overrun \<Rightarrow> False"
      using m s by (auto simp: io_ok_def ms dest!: spec [of _ s])
    show "I (snd (bindS m f s)) \<and>
      (case fst (bindS m f s) of Ok a \<Rightarrow> P a | Err _ \<Rightarrow> True | Panic \<Rightarrow> False | Overrun \<Rightarrow> False)"
    proof (cases r)
      case (Ok a)
      with r have "io_ok I P (f a)" by (intro f) simp
      with r(1) show ?thesis by (simp add: bindS_def ms Ok io_ok_def)
    qed (use r in \<open>simp_all add: bindS_def ms\<close>)
  qed
qed

lemma io_ok_lift_bind [io_intros]:
  "returns r \<Longrightarrow> (\<And>a. r = Ok a \<Longrightarrow> io_ok I P (f a)) \<Longrightarrow> io_ok I P (bindS (liftS r) f)"
  by (rule io_ok_bind [of _ "\<lambda>a. r = Ok a"]) (simp_all add: io_ok_lift)

lemma io_ok_if [io_intros]:
  "(b \<Longrightarrow> io_ok I P m) \<Longrightarrow> (\<not> b \<Longrightarrow> io_ok I P m') \<Longrightarrow> io_ok I P (if b then m else m')"
  by simp

lemma io_ok_mono: "io_ok I P m \<Longrightarrow> (\<And>a. P a \<Longrightarrow> Q a) \<Longrightarrow> io_ok I Q m"
  unfolding io_ok_def by (fastforce split: result.splits)

lemma io_ok_returns: "io_ok I P m \<Longrightarrow> I s \<Longrightarrow> returns (fst (m s))"
  unfolding io_ok_def by (cases "fst (m s)") auto

section \<open>The pieces\<close>

lemma returns_device [returns_intros, simp]: "returns (device_for fs d)" "returns (data_device_for fs d)"
  by (simp_all add: device_for_def data_device_for_def)

lemma returns_read [returns_intros, simp]: "returns (read_block fs d off n)" "returns (read_data fs d off n)"
    "returns (read_source fs m d off n)" "returns (read_via fs ino d off n)"
  unfolding read_block_def read_data_def read_source_def read_via_def
  by (auto intro!: returns_intros)

lemma read_length: 
  "read_block fs d off n = Ok bs \<Longrightarrow> length bs = n" "read_data fs d off n = Ok bs \<Longrightarrow> length bs = n"
  "read_source fs m d off n = Ok bs \<Longrightarrow> length bs = n" "read_via fs ino d off n = Ok bs \<Longrightarrow> length bs = n"
  by (auto simp: read_block_def read_data_def read_source_def read_via_def dest: read_at_length split: if_splits)

lemma returns_inodes [returns_intros, simp]: "returns (root_inode fs)" "returns (read_inode fs nid)"
    "returns (packed_inode fs)" "returns (zmap_for fs ino)"
  by (auto simp: root_inode_def read_inode_def packed_inode_def zmap_for_def split: data_layout.split
      intro!: returns_intros)

lemma returns_span [returns_intros, simp]: "returns (pcluster_span a b)"
  unfolding pcluster_span_def by (intro returns_intros) simp_all

lemma span_Ok: "pcluster_span a b = Ok k \<Longrightarrow> a \<le> b \<and> k = unat (b - a)"
  by (auto simp: pcluster_span_def checked_sub_def split: if_splits)

lemma interlaced_Ok:
  "0 < n \<Longrightarrow> \<exists>k. interlaced_index n bs h off = Ok k \<and> k < n"
  by (simp add: interlaced_index_def)

lemma returns_interlaced [returns_intros]: "0 < n \<Longrightarrow> returns (interlaced_index n bs h off)"
  by (simp add: interlaced_index_def)

lemma mapR_Ok_length: "mapR f [0..<n] = Ok ys \<Longrightarrow> length ys = n"
  by (drule mapR_length) simp

lemma fill_inline_plain_ok:
  assumes "0 < block_size (fs_sb fs)"
  shows "returns (fill_inline_plain fs m zm x t off n w)"
    and "fill_inline_plain fs m zm x t off n w = Ok bs \<Longrightarrow> length bs = extent_take x off n"
proof -
  have "0 < unat (block_size (fs_sb fs))" using assms by (simp add: word_less_nat_alt)
  then show "returns (fill_inline_plain fs m zm x t off n w)"
    unfolding fill_inline_plain_def Let_def
    by (intro returns_intros) (simp_all add: returns_interlaced)
  show "fill_inline_plain fs m zm x t off n w = Ok bs \<Longrightarrow> length bs = extent_take x off n"
    by (auto simp: fill_inline_plain_def Let_def dest: mapR_Ok_length read_length split: if_splits)
qed

lemma fill_plain_ok:
  assumes "0 < block_size (fs_sb fs)" "0 < pe_block_count x"
  shows "returns (fill_plain fs m zm x off n)"
    and "fill_plain fs m zm x off n = Ok bs \<Longrightarrow> length bs = extent_take x off n"
proof -
  let ?l = "unat (pe_block_count x) * unat (block_size (fs_sb fs))"
  have l: "0 < ?l" using assms by (simp add: word_less_nat_alt)
  show "returns (fill_plain fs m zm x off n)"
  proof (cases "has_interlaced_pcluster zm")
    case True
    show ?thesis
      unfolding fill_plain_def Let_def if_P [OF True]
    proof (intro returns_bindR returns_if returns_mapR)
      fix on_disk k j
      assume r: "read_source fs m (pe_device_id x) (ucast (pe_blkaddr x) * block_size (fs_sb fs)) ?l = Ok on_disk"
        and j: "interlaced_index ?l (unat (block_size (fs_sb fs)))
          (unat (pe_source_start x mod block_size (fs_sb fs))) (in_extent x off + k) = Ok j"
      have "j < ?l" using interlaced_Ok [OF l] j by (metis result.inject(1))
      then show "returns (idx on_disk j)" using read_length(3) [OF r] by simp
    qed (use l in \<open>simp_all add: returns_interlaced\<close>)
  qed (simp add: fill_plain_def)
  show "fill_plain fs m zm x off n = Ok bs \<Longrightarrow> length bs = extent_take x off n"
    by (auto simp: fill_plain_def Let_def dest: mapR_Ok_length read_length split: if_splits)
qed

lemma decode_extent_ok:
  assumes "reads_within (lib_codecs L)"
  shows "returns (decode_extent L fs m zm x tail)"
    and "decode_extent L fs m zm x tail = Ok bs \<Longrightarrow>
      pe_source_start x \<le> pe_source_end x \<and> length bs = unat (pe_source_end x - pe_source_start x)"
proof -
  have d: "exact n (decode (lib_codecs L) algo cfg zp pf input n)" for n algo cfg zp pf input
    by (rule decode_exact [OF assms])
  have dr: "returns (decode (lib_codecs L) algo cfg zp pf input n)" for n algo cfg zp pf input
    using d [of n algo cfg zp pf input] by (auto simp: exact_def)
  have "returns (header_algo zm t)" for t
    by (simp add: header_algo_def algorithm_from_id_def)
  moreover have "returns (compressed_source fs m x tail)"
    unfolding compressed_source_def Let_def by (cases tail) (auto intro!: returns_intros)
  ultimately show "returns (decode_extent L fs m zm x tail)"
    unfolding decode_extent_def Let_def decompress_prefix_with_config_and_padding_def
      decompress_with_config_and_padding_def
    by (auto intro!: returns_bindR dr)
  have dl: "decode (lib_codecs L) algo cfg zp pf input n = Ok bs \<Longrightarrow> length bs = n" for algo cfg zp pf input n
    using d [of n algo cfg zp pf input] by (auto simp: exact_def)
  show "decode_extent L fs m zm x tail = Ok bs \<Longrightarrow>
      pe_source_start x \<le> pe_source_end x \<and> length bs = unat (pe_source_end x - pe_source_start x)"
    by (auto simp: decode_extent_def Let_def decompress_prefix_with_config_and_padding_def
        decompress_with_config_and_padding_def dest!: dl span_Ok split: if_splits)
qed

lemma unat_diff_split: "a \<le> b \<Longrightarrow> b \<le> c \<Longrightarrow> unat (b - a) + unat (c - b) = unat (c - (a :: u64))"
  by (auto simp: unat_sub_no_wrap word_le_nat_alt dest: order_trans)

lemma in_extent_take:
  assumes "pe_source_start x \<le> off" "off \<le> pe_source_end x"
  shows "in_extent x off + extent_take x off n \<le> unat (pe_source_end x - pe_source_start x)"
  using unat_diff_split [OF assms] by (simp add: in_extent_def extent_take_def)

text \<open>What a call that fills \<open>n\<close> bytes from one pcluster promises: no more than was asked for.\<close>

definition fills :: "nat \<Rightarrow> bytes \<Rightarrow> bool" where "fills n bs = (length bs \<le> n)"

context lru_cache
begin

lemma fill_compressed_ok:
  assumes "reads_within (lib_codecs L)" "lib_lru L = lru"
    and "pe_source_start x \<le> off" "off \<le> pe_source_end x"
  shows "io_ok good (fills n) (fill_compressed L fs nid m zm x tail off n)"
  unfolding io_ok_def
proof (intro allI impI)
  fix s assume g: "good s"
  let ?k = "(nid, pe_blkaddr x, pe_source_start x, pe_source_end x)"
  let ?t = "extent_take x off n" and ?i = "in_extent x off"
  have t: "?t \<le> n" by (simp add: extent_take_def)
  obtain v s' where l: "cache_lookup lru ?k s = (v, s')" by (cases "cache_lookup lru ?k s")
  from lookup_good [OF g l] have g': "good s'" by simp
  show "good (snd (fill_compressed L fs nid m zm x tail off n s)) \<and>
    (case fst (fill_compressed L fs nid m zm x tail off n s) of
       Ok a \<Rightarrow> fills n a | Err _ \<Rightarrow> True | Panic \<Rightarrow> False | Overrun \<Rightarrow> False)"
  proof (cases v)
    case (Some c)
    with l g' t show ?thesis
      by (auto simp: fill_compressed_def assms(2) Let_def get_range_def fills_def split: result.split)
  next
    case None
    show ?thesis
    proof (cases "decode_extent L fs m zm x tail")
      case (Ok d)
      have len: "?i + ?t \<le> length d"
        using decode_extent_ok(2) [OF assms(1) Ok] in_extent_take [OF assms(3,4), of n] by simp
      obtain s'' where i: "cache_insert lru ?k d s' = Ok s''" "good s''"
        using insert_good [OF g', of ?k d] by blast
      show ?thesis
        using None l i len t
        by (simp add: fill_compressed_def assms(2) Let_def Ok bindS_def fills_def)
    qed (use None l g' decode_extent_ok(1) [OF assms(1), of fs m zm x tail] in
        \<open>simp_all add: fill_compressed_def assms(2) Let_def bindS_def\<close>)
  qed
qed

lemma fill_extent_ok:
  assumes "reads_within (lib_codecs L)" "lib_lru L = lru" "0 < block_size (fs_sb fs)" "0 < pe_block_count x"
  shows "io_ok good (fills n) (fill_extent L fs nid m zm x off n w)"
proof -
  have t: "length bs = extent_take x off n \<Longrightarrow> fills n bs" for bs
    by (simp add: fills_def extent_take_def)
  have inl: "io_ok good (fills n) (liftS (fill_inline_plain fs m zm x p off n w))" for p
    by (rule io_ok_lift [OF fill_inline_plain_ok(1) [OF assms(3)] t [OF fill_inline_plain_ok(2) [OF assms(3)]]])
  have pl: "io_ok good (fills n) (liftS (fill_plain fs m zm x off n))"
    by (rule io_ok_lift [OF fill_plain_ok(1) [OF assms(3,4)] t [OF fill_plain_ok(2) [OF assms(3,4)]]])
  show ?thesis
    unfolding fill_extent_def Let_def
    by (intro io_ok_if) (auto simp: not_less io_ok_def [of _ _ "liftS (Err _)"] intro: inl pl fill_compressed_ok [OF assms(1,2)] split: option.split)
qed

lemma fill_one_ok:
  assumes L: "reads_within (lib_codecs L)" "lib_lru L = lru" and b: "0 < block_size (fs_sb fs)"
    and rp: "\<And>p off k. has_fragment zm \<Longrightarrow> packed_inode fs = Ok p \<Longrightarrow> k \<le> n \<Longrightarrow>
      io_ok good (\<lambda>bs. length bs = k) (rp p off k)"
  shows "io_ok good (fills n) (fill_from_one_pcluster L fs rp nid m zm off n w)"
proof -
  have x: "io_ok good (fills n) (bindS (liftS (pcluster_extent_at zm (fs_primary fs) off))
      (\<lambda>x. fill_extent L fs nid m zm x off n w))"
  proof (rule io_ok_lift_bind)
    fix x assume "pcluster_extent_at zm (fs_primary fs) off = Ok x"
    from pcluster_extent_bounds [OF this] have "0 < pe_block_count x"
      by (auto simp: word_less_nat_alt word_le_nat_alt)
    then show "io_ok good (fills n) (fill_extent L fs nid m zm x off n w)" by (rule fill_extent_ok [OF L b])
  qed simp
  have f: "io_ok good (fills n) (fill_fragment fs rp (fo, a, b) off n)" if "has_fragment zm" for fo a b
    unfolding fill_fragment_def Let_def prod.case
    by (intro io_ok_lift_bind io_ok_if)
      (auto simp: io_ok_def [of _ _ "liftS (Err _)"] fills_def intro!: io_ok_mono [OF rp [OF that]])
  have z: "fills n (replicate n 0)" by (simp add: fills_def)
  have frag: "has_fragment zm" if "fragment_range zm (fs_primary fs) = Ok (Some fr)" for fr
    using that by (auto simp: fragment_range_def split: if_splits)
  show ?thesis
    unfolding fill_from_one_pcluster_def
  proof (intro io_ok_if io_ok_lift_bind)
    fix fr assume "fragment_range zm (fs_primary fs) = Ok fr"
    then show "io_ok good (fills n) (case fr of
        None \<Rightarrow> bindS (liftS (pcluster_extent_at zm (fs_primary fs) off)) (\<lambda>x. fill_extent L fs nid m zm x off n w)
      | Some (fo, a, b) \<Rightarrow> if a \<le> off \<and> off < b then fill_fragment fs rp (fo, a, b) off n
          else bindS (liftS (pcluster_extent_at zm (fs_primary fs) off)) (\<lambda>x. fill_extent L fs nid m zm x off n w))"
      using x f frag by (cases fr) auto
  qed (auto simp: z intro: io_ok_lift)
qed

end

section \<open>Blocks\<close>

lemma fill_block_unfold:
  "fill_block_from fill b n w k =
     (if k < n then bindS (fill (b + word_of_nat k) (n - k) (fst w - k, snd w - k)) (\<lambda>bs.
        if length bs = 0 then liftS (Ok (replicate (n - k) 0))
        else bindS (fill_block_from fill b n w (k + length bs)) (\<lambda>rest. liftS (Ok (bs @ rest))))
      else liftS (Ok []))"
  by (rule ext) (subst fill_block_from.simps, auto simp: bindS_def split: result.split prod.split)

declare fill_block_from.simps [simp del]

lemma fill_block_ok:
  assumes "\<And>off k w. k \<le> n \<Longrightarrow> io_ok I (fills k) (fill off k w)"
  shows "io_ok I (\<lambda>bs. length bs = n - written) (fill_block_from fill b n w written)"
proof (induction "n - written" arbitrary: written rule: less_induct)
  case less
  show ?case
  proof (cases "written < n")
    case True
    show ?thesis
      unfolding fill_block_unfold [of _ _ _ _ written] if_P [OF True]
    proof (rule io_ok_bind [OF assms], simp)
      fix bs assume bs: "fills (n - written) bs"
      show "io_ok I (\<lambda>bs. length bs = n - written)
        (if length bs = 0 then liftS (Ok (replicate (n - written) 0))
         else bindS (fill_block_from fill b n w (written + length bs)) (\<lambda>rest. liftS (Ok (bs @ rest))))"
      proof (intro io_ok_if io_ok_bind [of _ "\<lambda>rest. length rest = n - (written + length bs)"] less)
        fix rest :: bytes assume "length bs \<noteq> 0" "length rest = n - (written + length bs)"
        with bs True show "io_ok I (\<lambda>bs. length bs = n - written) (liftS (Ok (bs @ rest)))"
          by (intro io_ok_lift) (auto simp: fills_def)
      qed (use True in \<open>auto intro: io_ok_lift diff_less_mono2\<close>)
    qed
  qed (simp add: fill_block_unfold [of _ _ _ _ written] io_ok_def)
qed

lemma returns_chunk [returns_intros, simp]: "returns (chunk_info sb ino)"
    "returns (lookup_chunk_blkaddr dev sb ino i)" "returns (read_chunk_block fs ino i n)"
proof -
  show c: "returns (chunk_info sb ino)" for sb ino
    by (simp add: chunk_info_def Let_def returns_bindR)
  show l: "returns (lookup_chunk_blkaddr dev sb ino i)" for dev sb ino i
    unfolding lookup_chunk_blkaddr_def Let_def
    by (intro returns_bindR returns_if) (auto simp: c read_at_length)
  show "returns (read_chunk_block fs ino i n)"
    unfolding read_chunk_block_def Let_def
    by (intro returns_bindR returns_if returns_case_prod) (simp_all add: c l)
qed

lemma read_chunk_length: "read_chunk_block fs ino i n = Ok bs \<Longrightarrow> length bs = n"
  by (auto simp: read_chunk_block_def Let_def dest: read_length split: prod.splits if_splits)

context lru_cache
begin

lemma read_data_block_ok:
  assumes L: "reads_within (lib_codecs L)" "lib_lru L = lru" and sb: "sb_ok (fs_sb fs)"
    and zm: "zmap_for fs ino = Ok zm"
    and rp: "\<And>z p off k. zm = Some z \<Longrightarrow> has_fragment z \<Longrightarrow> packed_inode fs = Ok p \<Longrightarrow> k \<le> n \<Longrightarrow>
      io_ok good (\<lambda>bs. length bs = k) (rp p off k)"
  shows "io_ok good (\<lambda>bs. length bs = n) (read_data_block_for L fs rp ino i tot zm n w)"
proof -
  have b: "0 < block_size (fs_sb fs)" using sb_ok_block_size(4) [OF sb] by (simp add: word_neq_0_conv)
  have via: "io_ok good (\<lambda>bs. length bs = n) (liftS (read_via fs ino d off n))" for d off
    by (intro io_ok_lift) (simp_all add: read_length)
  have comp: "io_ok good (\<lambda>bs. length bs = n) (read_compressed_block L fs rp ino i z n w)" if "zm = Some z" for z
  proof -
    have "io_ok good (\<lambda>bs. length bs = n - 0) (read_compressed_block L fs rp ino i z n w)"
      unfolding read_compressed_block_def Let_def
      by (intro fill_block_ok fill_one_ok [OF L b] rp [OF that]) auto
    then show ?thesis by simp
  qed
  have "\<exists>z. zm = Some z" if "fmt_layout (i_format ino) \<in> {Compression, CompressionLegacy}"
    using zm that by (auto simp: zmap_for_def)
  then show ?thesis
    using via comp unfolding read_data_block_for_def Let_def
    by (cases "fmt_layout (i_format ino)") (auto intro: io_ok_lift read_chunk_length)
qed

end

section \<open>Files\<close>

lemma sub_split: "t \<le> n - w \<Longrightarrow> t + (n - (w + t)) = n - (w :: nat)"
  by simp

lemma sub_round:
  "0 < t \<Longrightarrow> t \<le> n - w \<Longrightarrow> c + (n - w) \<le> f \<Longrightarrow> n - w \<le> Suc r \<Longrightarrow>
     c + t + (n - (w + t)) \<le> f \<and> n - (w + t) \<le> (r :: nat)"
  by simp

lemma slice_length: "slice xs a (a + k) = Ok ys \<Longrightarrow> length ys = k"
  by (auto simp: slice_eq_Ok)

lemma div_times_le: "unat (a div b * b) \<le> unat (a :: u64)"
proof -
  have "unat a div unat b * unat b \<le> unat a" by simp
  also have "unat a < 2 ^ 64" using unsigned_less [of a, where 'a = nat] by simp
  finally have "unat (a div b) * unat b < 2 ^ 64" by (simp add: unat_div)
  then show ?thesis by (simp add: unat_mult_no_wrap unat_div)
qed

lemma block_round:
  fixes bs cursor fsize :: u64
  assumes "bs \<noteq> 0" "cursor < fsize"
  shows "unat (cursor mod bs) < unat (min (fsize - cursor div bs * bs) bs)"
    and "unat (min (fsize - cursor div bs * bs) bs) \<le> unat bs"
proof -
  let ?c = "unat cursor" and ?b = "unat bs" and ?f = "unat fsize"
  have lt: "?c < ?f" using assms(2) by (simp add: word_less_nat_alt)
  have b: "0 < ?b" using assms(1) by (simp add: unat_gt_0)
  have "?c div ?b * ?b \<le> ?c" by simp
  also have "?c < 2 ^ 64" using unsigned_less [of cursor, where 'a = nat] by simp
  finally have "unat (cursor div bs) * ?b < 2 ^ 64" by (simp add: unat_div)
  then have m: "unat (cursor div bs * bs) = ?c div ?b * ?b"
    by (simp add: unat_mult_no_wrap unat_div)
  with lt have "cursor div bs * bs \<le> fsize" by (simp add: word_le_nat_alt) (metis div_times_less_eq_dividend le_trans less_imp_le)
  then have d: "unat (fsize - cursor div bs * bs) = ?f - ?c div ?b * ?b"
    by (simp add: unat_sub_no_wrap m)
  have "?c div ?b * ?b + ?c mod ?b = ?c" by simp
  then have "?c mod ?b < ?f - ?c div ?b * ?b" using lt by linarith
  then show "unat (cursor mod bs) < unat (min (fsize - cursor div bs * bs) bs)"
    using b by (simp add: unat_min d unat_mod)
  show "unat (min (fsize - cursor div bs * bs) bs) \<le> unat bs" by (simp add: unat_min)
qed

lemma read_loop_ok:
  assumes bs: "bs \<noteq> 0" and rd: "\<And>i k w. k \<le> unat bs \<Longrightarrow> io_ok I (\<lambda>b. length b = k) (rd i k w)"
  shows "unat cursor + (n - written) \<le> unat fsize \<Longrightarrow> n - written \<le> rounds \<Longrightarrow>
    io_ok I (\<lambda>b. length b = n - written) (read_loop rd bs fsize rounds cursor n written)"
proof (induction rounds arbitrary: cursor written)
  case 0
  then show ?case by (simp add: io_ok_def)
next
  case (Suc rounds)
  show ?case
  proof (cases "written < n")
    case True
    let ?v = "unat (min (fsize - cursor div bs * bs) bs)" and ?o = "unat (cursor mod bs)"
    let ?t = "min (usize_sub ?v ?o) (n - written)"
    have "cursor < fsize" using Suc.prems(1) True by (simp add: word_less_nat_alt)
    note r = block_round [OF bs this]
    then have t: "0 < ?t" "?t \<le> n - written" "?o + ?t \<le> ?v" using True by (auto simp: usize_sub_def)
    have "unat cursor + ?t \<le> unat fsize" using t(2) Suc.prems(1) True by linarith
    also have "unat fsize < 2 ^ 64" using unsigned_less [of fsize, where 'a = nat] by simp
    finally have "unat cursor + ?t < 2 ^ 64" .
    then have c: "unat (cursor + word_of_nat ?t) = unat cursor + ?t"
      by (simp add: unat_add_no_wrap unat_of_nat_small)
    show ?thesis
      unfolding read_loop.simps if_P [OF True] Let_def
    proof (rule io_ok_bind [OF rd [OF r(2)]], rule io_ok_lift_bind)
      fix block :: bytes assume l: "length block = ?v"
      with t show "returns (slice block ?o (?o + ?t))" by (intro returns_slice) auto
      fix bytes assume "slice block ?o (?o + ?t) = Ok bytes"
      then have lb: "length bytes = ?t" by (rule slice_length)
      have l: "length (bytes @ rest) = n - written" if "length rest = n - (written + ?t)" for rest :: bytes
        unfolding length_append that lb by (rule sub_split [OF t(2)])
      have "unat (cursor + word_of_nat ?t) + (n - (written + ?t)) \<le> unat fsize" "n - (written + ?t) \<le> rounds"
        unfolding c using sub_round [OF t(1,2) Suc.prems] by blast+
      from Suc.IH [OF this] show "io_ok I (\<lambda>b. length b = n - written)
        (bindS (read_loop rd bs fsize rounds (cursor + word_of_nat ?t) n (written + ?t)) (\<lambda>rest. liftS (Ok (bytes @ rest))))"
        by (rule io_ok_bind) (rule io_ok_lift [OF returns_simps(1)], metis l result.inject(1))
    qed
  qed (simp add: io_ok_def)
qed

lemma request_in_file:
  assumes "\<not> fsize < sat_add off (word_of_nat n)" "fsize \<noteq> - 1" "n < 2 ^ 64"
  shows "unat off + n \<le> unat (fsize :: u64)"
proof -
  have "unat fsize \<noteq> 2 ^ 64 - 1" using assms(2) unat_max_word [where 'a = 64] by (metis unsigned_word_eqI len64)
  moreover have "unat fsize < 2 ^ 64" using unsigned_less [of fsize, where 'a = nat] by simp
  ultimately have "unat fsize < 2 ^ 64 - 1" by simp
  moreover have "min (2 ^ 64 - 1) (unat off + n) \<le> unat fsize"
    using assms(1,3) unat_sat_add [of off "word_of_nat n"] unat_of_nat_small [of n, where 'a = 64]
    by (simp add: not_less word_le_nat_alt)
  ultimately show ?thesis by linarith
qed

context lru_cache
begin

lemma read_file_with_ok:
  assumes L: "reads_within (lib_codecs L)" "lib_lru L = lru" and sb: "sb_ok (fs_sb fs)"
    and rp: "\<And>z p off k. zmap_for fs ino = Ok (Some z) \<Longrightarrow> has_fragment z \<Longrightarrow> packed_inode fs = Ok p \<Longrightarrow>
      k < 2 ^ 64 \<Longrightarrow> io_ok good (\<lambda>bs. length bs = k) (rp p off k)"
    and sz: "i_size ino \<noteq> - 1 \<or> unat off + n \<le> unat (i_size ino)" and n: "n < 2 ^ 64"
  shows "io_ok good (\<lambda>bs. length bs = n) (read_file_with L fs rp ino off n)"
proof -
  note bs = sb_ok_block_size [OF sb]
  show ?thesis
    unfolding read_file_with_def Let_def
  proof (intro io_ok_if io_ok_lift_bind)
    fix zm assume zm: "zmap_for fs ino = Ok zm" and f: "\<not> i_size ino < sat_add off (word_of_nat n)"
    have "io_ok good (\<lambda>b. length b = k) (read_data_block_for L fs rp ino i
        (div_ceil (i_size ino) (block_size (fs_sb fs))) zm k w)" if "k \<le> unat (block_size (fs_sb fs))" for i k w
      using that bs(3) zm by (intro read_data_block_ok [OF L sb zm] rp) auto
    moreover have "unat off + n \<le> unat (i_size ino)" using request_in_file [OF f _ n] sz by blast
    ultimately
    show "io_ok good (\<lambda>bs. length bs = n) (read_loop (\<lambda>i. read_data_block_for L fs rp ino i
        (div_ceil (i_size ino) (block_size (fs_sb fs))) zm) (block_size (fs_sb fs)) (i_size ino) n off n 0)"
      using read_loop_ok [OF bs(4), of good _ off n 0 "i_size ino" n] by simp
  qed (simp_all add: io_ok_def)
qed

end

text \<open>The packed inode has no fragment of its own, and a size that an offset can still exceed.\<close>

definition packed_plain :: "filesystem \<Rightarrow> bool" where
  "packed_plain fs = (case packed_inode fs of
     Ok p \<Rightarrow> i_size p \<noteq> - 1 \<and> (case zmap_for fs p of Ok (Some z) \<Rightarrow> \<not> has_fragment z | _ \<Rightarrow> True)
   | _ \<Rightarrow> True)"

lemma packed_plainD:
  "packed_plain fs \<Longrightarrow> packed_inode fs = Ok p \<Longrightarrow> i_size p \<noteq> - 1"
  "packed_plain fs \<Longrightarrow> packed_inode fs = Ok p \<Longrightarrow> zmap_for fs p = Ok (Some z) \<Longrightarrow> \<not> has_fragment z"
  by (simp_all add: packed_plain_def)

context lru_cache
begin

lemma read_packed_ok:
  assumes L: "reads_within (lib_codecs L)" "lib_lru L = lru" and sb: "sb_ok (fs_sb fs)"
    and pp: "packed_plain fs" and p: "packed_inode fs = Ok p" and k: "k < 2 ^ 64"
  shows "io_ok good (\<lambda>bs. length bs = k) (read_file (Suc d) L fs p off k)"
  unfolding read_file.simps
  by (rule read_file_with_ok [OF L sb _ disjI1 [OF packed_plainD(1) [OF pp p]] k])
    (use packed_plainD(2) [OF pp p] in blast)

lemma read_file_ok:
  assumes L: "reads_within (lib_codecs L)" "lib_lru L = lru" and sb: "sb_ok (fs_sb fs)"
    and pp: "packed_plain fs" and sz: "i_size ino \<noteq> - 1 \<or> unat off + n \<le> unat (i_size ino)" and n: "n < 2 ^ 64"
  shows "io_ok good (\<lambda>bs. length bs = n) (read_file (Suc (Suc d)) L fs ino off n)"
  using sz n read_packed_ok [OF L sb pp]
  by (subst read_file.simps) (intro read_file_with_ok [OF L sb], simp_all del: read_file.simps)

end

section \<open>How deep the reads of the packed inode nest\<close>

lemma fill_one_cong:
  assumes "\<And>p. has_fragment zm \<Longrightarrow> packed_inode fs = Ok p \<Longrightarrow> rp p = rp' p"
  shows "fill_from_one_pcluster L fs rp nid m zm = fill_from_one_pcluster L fs rp' nid m zm"
proof (rule ext)+
  fix off n w s
  have f: "fill_fragment fs rp fr off n = fill_fragment fs rp' fr off n" if "has_fragment zm" for fr
    using assms [OF that] by (cases "packed_inode fs") (auto simp: fill_fragment_def Let_def bindS_def split: prod.split)
  show "fill_from_one_pcluster L fs rp nid m zm off n w s = fill_from_one_pcluster L fs rp' nid m zm off n w s"
  proof (cases "fragment_range zm (fs_primary fs)")
    case (Ok fr)
    then have "fr \<noteq> None \<Longrightarrow> has_fragment zm" by (auto simp: fragment_range_def split: if_splits)
    then show ?thesis
      by (cases fr) (auto simp: fill_from_one_pcluster_def Ok bindS_def f)
  qed (simp_all add: fill_from_one_pcluster_def bindS_def)
qed

lemma read_file_with_cong:
  assumes "\<And>z p. zmap_for fs ino = Ok (Some z) \<Longrightarrow> has_fragment z \<Longrightarrow> packed_inode fs = Ok p \<Longrightarrow> rp p = rp' p"
  shows "read_file_with L fs rp ino = read_file_with L fs rp' ino"
proof (rule ext)+
  fix off n s
  show "read_file_with L fs rp ino off n s = read_file_with L fs rp' ino off n s"
  proof (cases "zmap_for fs ino")
    case (Ok zm)
    have "fill_from_one_pcluster L fs rp nid m z = fill_from_one_pcluster L fs rp' nid m z" if "zm = Some z" for z nid m
      using assms Ok that by (intro fill_one_cong) simp
    then have "read_compressed_block L fs rp ino i z = read_compressed_block L fs rp' ino i z" if "zm = Some z" for z i
      using that by (intro ext) (simp add: read_compressed_block_def)
    moreover have "zm \<noteq> None \<or> fmt_layout (i_format ino) \<notin> {Compression, CompressionLegacy}"
      using Ok by (auto simp: zmap_for_def)
    ultimately have rd: "read_data_block_for L fs rp ino i t zm k w = read_data_block_for L fs rp' ino i t zm k w" for i t k w
      by (cases zm; cases "fmt_layout (i_format ino)") (simp_all add: read_data_block_for_def Let_def)
    then have "(\<lambda>i. read_data_block_for L fs rp ino i t zm) = (\<lambda>i. read_data_block_for L fs rp' ino i t zm)" for t
      by (intro ext) (rule fun_cong [OF rd])
    then show ?thesis by (simp add: read_file_with_def Ok bindS_def Let_def)
  qed (simp_all add: read_file_with_def bindS_def Let_def)
qed

text \<open>With a packed inode that has no fragment two nested reads are enough, whatever the file.\<close>

lemma read_file_depth:
  assumes "packed_plain fs"
  shows "read_file (Suc (Suc d)) L fs = read_file 2 L fs"
proof (rule ext)
  fix ino
  have "read_file (Suc d) L fs p = read_file 1 L fs p" if "packed_inode fs = Ok p" for p
  proof -
    have "read_file_with L fs (read_file d L fs) p = read_file_with L fs (read_file 0 L fs) p"
      by (rule read_file_with_cong) (use packed_plainD(2) [OF assms that] in blast)
    then show ?thesis by (intro ext) simp
  qed
  then have "read_file_with L fs (read_file (Suc d) L fs) ino = read_file_with L fs (read_file 1 L fs) ino"
    by (intro read_file_with_cong)
  then show "read_file (Suc (Suc d)) L fs ino = read_file 2 L fs ino"
    by (intro ext) (simp only: numeral_2_eq_2 One_nat_def read_file.simps)
qed

text \<open>C31: on an opened image whose packed inode has no fragment of its own and not the size 2^64 - 1
  (\<open>packed_plain\<close>), reading any range of a file whose size is not 2^64 - 1 returns, whatever else the image's
  bytes are and whatever a sound cache holds: an error, or exactly as many bytes as the buffer has; no slice
  or index is out of range and every loop ends. The cache invariant is kept, and two nested reads are enough.
  Both conditions are needed: a packed inode that is a fragment of itself is read without end, and with the
  size 2^64 - 1 the check of the request against the size saturates. The codecs yield no more than they are
  asked for.\<close>

theorem read_file_untrusted:
  assumes "lru_cache lru contents" "lib_lru L = lru" "reads_within (lib_codecs L)"
    and "sb_ok (fs_sb fs)" "packed_plain fs" "i_size ino \<noteq> - 1" "n < 2 ^ 64"
    and "lru_cache.good lru contents pc" "2 \<le> depth"
  shows "\<exists>r pc'. read_file depth L fs ino off n pc = (r, pc') \<and> lru_cache.good lru contents pc'
    \<and> ((\<exists>e. r = Err e) \<or> (\<exists>bs. r = Ok bs \<and> length bs = n))
    \<and> read_file depth L fs ino off n pc = read_file 2 L fs ino off n pc"
proof -
  obtain d where d: "depth = Suc (Suc d)" using assms(9) by (metis add_2_eq_Suc le_Suc_ex)
  from lru_cache.read_file_ok [OF assms(1,3,2,4,5) disjI1 [OF assms(6)] assms(7), of d off] assms(8)
  have "lru_cache.good lru contents (snd (read_file depth L fs ino off n pc)) \<and>
      (case fst (read_file depth L fs ino off n pc) of
         Ok bs \<Rightarrow> length bs = n | Err _ \<Rightarrow> True | Panic \<Rightarrow> False | Overrun \<Rightarrow> False)"
    by (simp add: io_ok_def d del: read_file.simps)
  moreover have "read_file depth L fs ino off n pc = read_file 2 L fs ino off n pc"
    by (simp only: d read_file_depth [OF assms(5)])
  moreover obtain r pc' where e: "read_file depth L fs ino off n pc = (r, pc')"
    by (cases "read_file depth L fs ino off n pc")
  ultimately show ?thesis
    unfolding e by (intro exI [of _ r] exI [of _ pc']) (cases r, simp_all)
qed

text \<open>C32: a packed inode that is a full fragment of itself, at offset 0, is never read: however deep the
  reads may nest, a read of any non-empty range of it is still unfinished, so the code recurses until the
  stack ends. Nothing in the code looks for this; it is why the bound on reading asks for a packed inode without a
  fragment.\<close>

theorem self_fragment_never_returns:
  assumes "sb_ok (fs_sb fs)" "packed_inode fs = Ok p" "zmap_for fs p = Ok (Some z)"
    and "has_full_fragment z" "fragment_off (zm_header z) = 0"
    and "0 < n" "unat off + n \<le> unat (i_size p)"
  shows "read_file depth L fs p off n pc = (Overrun, pc)"
  using assms(6,7)
proof (induction depth arbitrary: off n)
  case (Suc depth)
  let ?bs = "block_size (fs_sb fs)"
  note bs = sb_ok_block_size [OF assms(1)]
  have zo: "zmap_open (fs_primary fs) (fs_sb fs) p = Ok z"
    and lay: "fmt_layout (i_format p) \<in> {Compression, CompressionLegacy}"
    using assms(3) by (auto simp: zmap_for_def split: data_layout.splits)
  have zi: "inode_size z = i_size p" using zmap_open_Ok(1) [OF assms(1) zo] by (simp add: inode_size_def)
  have pos: "i_size p \<noteq> 0" and frag: "has_fragment z"
    using Suc.prems assms(4) by (auto simp: has_fragment_def has_full_fragment_def)
  have fr: "fragment_range z (fs_primary fs) = Ok (Some (0, 0, i_size p))"
    using frag assms(4,5) pos zi by (simp add: fragment_range_def inode_size_def)
  have fill: "fill_from_one_pcluster L fs (read_file depth L fs) nid m z at k w pc = (Overrun, pc)"
    if "0 < k" "k < 2 ^ 64" "at < i_size p" for nid m at k w
  proof -
    let ?k = "min k (unat (i_size p - at))"
    have k: "unat (i_size p - at) = unat (i_size p) - unat at" using that(3) by (simp add: unat_sub_no_wrap)
    have le: "0 < ?k" "unat at + ?k \<le> unat (i_size p)" using that(1,3) k by (auto simp: word_less_nat_alt)
    have "?k < 2 ^ 64" using that(2) by simp
    then have "unat (sat_add at (word_of_nat ?k)) \<le> unat (i_size p)"
      using le(2) unat_sat_add [of at "word_of_nat ?k"] by (simp only: unat_of_nat_small len64)
    then have "\<not> i_size p < sat_add at (word_of_nat ?k)" by (simp add: word_less_nat_alt not_less)
    then show ?thesis
      using Suc.IH [OF le] that(3) zi
      by (simp add: fill_from_one_pcluster_def fill_fragment_def fr assms(2) bindS_def Let_def not_le)
  qed
  have c: "off < i_size p" using Suc.prems by (simp add: word_less_nat_alt)
  note r = block_round [OF bs(4) this]
  let ?st = "off div ?bs * ?bs" and ?v = "unat (min (i_size p - off div ?bs * ?bs) ?bs)"
  have st: "?st \<le> off" by (simp add: word_le_nat_alt div_times_le)
  have v: "0 < ?v" using r(1) by simp
  have vb: "?v < 2 ^ 64" using r(2) bs(3) by simp
  have block: "read_data_block_for L fs (read_file depth L fs) p (off div ?bs) t (Some z) ?v w pc = (Overrun, pc)" for t w
  proof -
    note f = fill [OF v vb order.strict_trans1 [OF st c], of _ _ w]
    have "read_data_block_for L fs (read_file depth L fs) p i t (Some z) k w
        = read_compressed_block L fs (read_file depth L fs) p i z k w" for i k w
      using lay by (auto simp: read_data_block_for_def Let_def)
    moreover have "read_compressed_block L fs (read_file depth L fs) p (off div ?bs) z ?v w pc = (Overrun, pc)"
      unfolding read_compressed_block_def Let_def
      by (subst fill_block_unfold) (simp add: if_P [OF v] bindS_def f del: min_less_iff_conj)
    ultimately show ?thesis by simp
  qed
  have "unat (sat_add off (word_of_nat n)) \<le> unat (i_size p)"
    using Suc.prems(2) unat_sat_add [of off "word_of_nat n"] le_unat_uoi [of n "i_size p"] by simp
  then have nf: "\<not> i_size p < sat_add off (word_of_nat n)" by (simp add: word_less_nat_alt not_less)
  obtain k where n: "n = Suc k" using Suc.prems(1) by (cases n) auto
  show ?case
    unfolding read_file.simps read_file_with_def if_not_P [OF nf] Let_def
    using Suc.prems(1) by (simp add: assms(3) n bindS_def block Let_def)
qed simp

section \<open>A filesystem whose packed inode is a fragment of itself\<close>

definition demo_libs :: "(bytes, nat \<times> pcluster_entry list) libs" where
  "demo_libs = \<lparr>lib_codecs = demo_codecs, lib_lru = lru_list\<rparr>"

definition demo_packed_image :: bytes where
  "demo_packed_image = replicate 544 0
     @ [2, 0, 0, 0, 0, 0x80, 1, 0, 100, 0, 0, 0] @ replicate 20 0
     @ [0, 0, 0, 0, 0, 0, 0, 0x80] @ replicate 56 0"

definition demo_fs :: filesystem where
  "demo_fs = \<lparr>fs_primary = mem_dev demo_packed_image, fs_data = mem_dev demo_packed_image, fs_extras = [],
     fs_sb = demo_sb512\<lparr>sb_packed_nid := 1\<rparr>, fs_compr_cfgs = None\<rparr>"

definition demo_packed :: inode where
  "demo_packed = \<lparr>i_nid = 1, i_format = \<lparr>fmt_version = Compact, fmt_layout = CompressionLegacy, fmt_flags = 0\<rparr>,
     i_xattr_icount = 0, i_mode = S_IFREG, i_size = 100, i_nlink = 1, i_uid = 0, i_gid = 0, i_mtime = 0,
     i_mtime_nsec = 0, i_ino = 0, i_raw_u = 0, i_on_disk_size = 32\<rparr>"

definition demo_packed_map :: zmap where
  "demo_packed_map = \<lparr>zm_inode = demo_packed,
     zm_header = \<lparr>zh_fragment_off_or_idata_size = 0, zh_advise = 0, zh_algorithm_type = 0, zh_clusterbits_byte = 0x80\<rparr>,
     zm_index_start_offset = 592, zm_lclusterbits = 0, zm_z_lclusterbits = 9, zm_format = LegacyIndex,
     zm_compact_4b_initial = 0, zm_compact_2b = 0, zm_big_pcluster = False,
     zm_algo_head1_id = 0, zm_algo_head2_id = 0\<rparr>"

lemma demo_sb_packed: "sb_ok (demo_sb512\<lparr>sb_packed_nid := 1\<rparr>)"
  using demo_sb512_ok by (simp add: sb_ok_def)

lemma demo_packed_iloc: "iloc (demo_sb512\<lparr>sb_packed_nid := 1\<rparr>) 1 = 544"
  by (simp add: iloc_def block_size_def demo_sb512_def written_sb_def sat_mul_def sat_add_def inode_consts push_bit_eq_mult)

lemma demo_packed_inode: "packed_inode demo_fs = Ok demo_packed"
proof -
  have "read_at (mem_dev demo_packed_image) 544 64 = Ok (take 64 (drop 544 demo_packed_image))"
    using serves_read [OF serves_mem_dev, of demo_packed_image 544 64] by (simp add: demo_packed_image_def)
  moreover have "inode_parse 1 (take 64 (drop 544 demo_packed_image)) = Ok demo_packed"
    by (simp add: demo_packed_image_def inode_parse_def inode_parse_compact_def u16_at_def u32_at_def slice_def
        inode_format_parse_def data_layout_from_bits_def le16_def le32_def inode_consts demo_packed_def)
  ultimately show ?thesis
    by (simp add: packed_inode_def demo_fs_def inode_read_def demo_packed_iloc inode_consts Let_def)
qed

lemma demo_packed_zmap: "zmap_for demo_fs demo_packed = Ok (Some demo_packed_map)"
proof -
  let ?h = "[0, 0, 0, 0, 0, 0, 0, 0x80] :: bytes"
  have r: "read_at (mem_dev demo_packed_image) 576 8 = Ok ?h"
    using serves_read [OF serves_mem_dev, of demo_packed_image 576 8] by (simp add: demo_packed_image_def)
  have b: "body_end demo_packed (demo_sb512\<lparr>sb_packed_nid := 1\<rparr>) = 576"
    by (simp add: body_end_def demo_packed_def demo_packed_iloc sat_add_def)
  have z: "sb_blkszbits (demo_sb512\<lparr>sb_packed_nid := 1\<rparr>) = 9" "i_size demo_packed = 100"
      "fmt_layout (i_format demo_packed) = CompressionLegacy"
    by (simp_all add: demo_sb512_def written_sb_def demo_packed_def)
  have f: "u32_at ?h 0 = Ok 0" "u16_at ?h 4 = Ok 0" "idx ?h 6 = Ok 0" "idx ?h 7 = Ok 0x80"
    by (simp_all add: le32_def le16_def)
  have "zmap_open (mem_dev demo_packed_image) (demo_sb512\<lparr>sb_packed_nid := 1\<rparr>) demo_packed = Ok demo_packed_map"
    unfolding zmap_open_def b Let_def r bindR_simps f z
    by (simp add: next_multiple_of_def one_shl_def div_ceil_def push_bit_eq_mult zmap_consts demo_packed_map_def)
  then show ?thesis by (simp add: zmap_for_def z demo_fs_def)
qed

theorem read_file_untrusted_witness:
  "\<exists>r pc. read_file 3 demo_libs (demo_fs\<lparr>fs_sb := demo_sb512\<rparr>) demo_packed 5 20 (cache_new lru_list 4) = (r, pc)
     \<and> r \<noteq> Overrun \<and> r \<noteq> Panic"
proof -
  have "packed_plain (demo_fs\<lparr>fs_sb := demo_sb512\<rparr>)"
    by (simp add: packed_plain_def packed_inode_def demo_sb512_def written_sb_def)
  then show ?thesis
    using read_file_untrusted [OF lru_list.lru_cache_axioms, of demo_libs "demo_fs\<lparr>fs_sb := demo_sb512\<rparr>"
        demo_packed 20 "cache_new lru_list 4" 3 5] demo_reads_within demo_sb512_ok lru_list.good_new(1) [of 4]
    by (auto simp: demo_libs_def demo_packed_def)
qed

theorem self_fragment_never_returns_witness:
  "read_file 1000 demo_libs demo_fs demo_packed 0 100 (cache_new lru_list 4) = (Overrun, cache_new lru_list 4)"
proof -
  have z: "has_full_fragment demo_packed_map" "fragment_off (zm_header demo_packed_map) = 0"
    by (simp_all add: has_full_fragment_def fragment_off_def demo_packed_map_def zmap_consts)
  show ?thesis
    by (rule self_fragment_never_returns [OF _ demo_packed_inode demo_packed_zmap z])
      (use demo_sb_packed in \<open>simp_all add: demo_fs_def demo_packed_def\<close>)
qed

end
