(* ===== verification/PathsSafe.thy ===== *)
theory PathsSafe
  imports ReaderSafe
begin

text \<open>
  Directories and paths: a lookup is the first match in the listing, and listing, lookup and the
  resolution of paths return on every image whose packed inode has no fragment of its own.
\<close>

section \<open>Lookup and listing\<close>

declare liftS_apply [simp del]

lemma bindS_assoc: "bindS (bindS m f) g = bindS m (\<lambda>a. bindS (f a) g)"
  by (rule ext) (auto simp: bindS_def split: result.split prod.split)

lemma bindS_lift [simp]: "bindS (liftS (Ok a)) f = f a" "bindS (liftS (Err e)) g = liftS (Err e)"
  by (simp_all add: bindS_def fun_eq_iff liftS_apply)

lemma bindS_eqI: "(\<And>a s. f a s = g a s) \<Longrightarrow> bindS m f = bindS m g"
  by (auto simp: bindS_def fun_eq_iff split: result.split prod.split)

text \<open>What the walk with a callback does, by the outcome of the listing.\<close>

lemma visit_listed:
  "iter_block b = Ok es \<Longrightarrow> visit_block b f acc = (fold f es acc, Ok ())"
  "iter_block b = Err e \<Longrightarrow> snd (visit_block b f acc) = Err e"
  by (cases "dirent_count b"; force simp: visit_block_def visit_from_mapR iter_block_eq ok_prefix_mapR)+

lemma fold_first_match:
  "fold (first_match name) es None = map_option de_nid (find (\<lambda>e. de_name e = name) es)"
proof -
  have "fold (first_match name) es (Some v) = Some v" for v
    by (induction es) (simp_all add: first_match_def)
  then show ?thesis by (induction es) (simp_all add: first_match_def)
qed

lemma lookup_loop_listing:
  "lookup_loop rd bs name rounds remaining i (fold (first_match name) out None) =
     bindS (read_dir_loop rd bs rounds remaining i out) (\<lambda>es. liftS (Ok (fold (first_match name) es None)))"
proof (induction rounds arbitrary: remaining i out)
  case (Suc rounds)
  show ?case
  proof (cases "0 < remaining")
    case True
    have step: "(case visit_block b (first_match name) (fold (first_match name) out None) of
          (found', r) \<Rightarrow> bindS (liftS r) (\<lambda>_. lookup_loop rd bs name rounds rest j found')) =
        bindS (bindS (liftS (iter_block b)) (\<lambda>es. read_dir_loop rd bs rounds rest j (out @ es)))
          (\<lambda>es. liftS (Ok (fold (first_match name) es None)))" for b rest j
    proof (cases rule: returns_cases [OF returns_iter_block [of b]])
      case (1 es)
      then show ?thesis using Suc.IH [of rest j "out @ es"] by (simp add: visit_listed(1))
    next
      case (2 e)
      then show ?thesis
        using visit_listed(2) [OF 2, of "first_match name" "fold (first_match name) out None"]
        by (simp add: split_beta)
    qed
    from True show ?thesis by (simp add: Let_def bindS_assoc [of "rd _ _"] step)
  qed simp
qed (simp add: fun_eq_iff bindS_def liftS_apply)

lemma lookup_listing:
  "lookup depth L fs dir name =
     bindS (read_dir depth L fs dir) (\<lambda>es.
       case find (\<lambda>e. de_name e = name) es of
         Some e \<Rightarrow> liftS (read_inode fs (de_nid e)) | None \<Rightarrow> liftS (Err NotFound))"
proof (cases "is_dir dir")
  case True
  have loop: "lookup_loop rd bs name rounds remaining i None =
      bindS (read_dir_loop rd bs rounds remaining i [])
        (\<lambda>es. liftS (Ok (map_option de_nid (find (\<lambda>e. de_name e = name) es))))" for rd bs rounds remaining i
    using lookup_loop_listing [of rd bs name rounds remaining i "[]"] by (simp add: fold_first_match)
  show ?thesis
    by (simp add: lookup_def read_dir_def True Let_def bindS_assoc loop case_map_option cong: option.case_cong)
qed (simp add: lookup_def read_dir_def)

text \<open>C33: looking a name up in a directory is the first entry of that name in the directory's listing: for
  every inode, name and image, with the same reads, the same errors and the same effect on the cache.
  A listing that fails makes every lookup fail with its error, also when the name lies before the
  fault.\<close>

theorem lookup_finds_first:
  "lookup depth L fs dir name pc =
     (case read_dir depth L fs dir pc of
        (Ok es, pc') \<Rightarrow>
          (case find (\<lambda>e. de_name e = name) es of
             Some e \<Rightarrow> (read_inode fs (de_nid e), pc') | None \<Rightarrow> (Err NotFound, pc'))
      | (Err e, pc') \<Rightarrow> (Err e, pc') | (Panic, pc') \<Rightarrow> (Panic, pc') | (Overrun, pc') \<Rightarrow> (Overrun, pc'))"
  unfolding lookup_listing [of depth L fs dir name]
  by (auto simp: bindS_def liftS_apply split: prod.split result.split option.split)

section \<open>Listing, lookup and resolution return\<close>

lemma rounds_cover: "b \<noteq> 0 \<Longrightarrow> unat a \<le> unat (div_ceil a b) * unat b"
proof -
  assume b: "b \<noteq> 0"
  then have "0 < unat b" by (simp add: unat_gt_0)
  have "unat a + unat b - 1 = (unat a + unat b - 1) div unat b * unat b + (unat a + unat b - 1) mod unat b" by simp
  moreover have "(unat a + unat b - 1) mod unat b < unat b" using \<open>0 < unat b\<close> by simp
  ultimately show ?thesis unfolding unat_div_ceil [OF b] by linarith
qed

lemma read_dir_loop_ok:
  assumes rd: "\<And>i k. k \<le> unat bs \<Longrightarrow> io_ok I (\<lambda>b. length b = k) (rd i k)"
  shows "unat remaining \<le> rounds * unat bs \<Longrightarrow> io_ok I (\<lambda>_. True) (read_dir_loop rd bs rounds remaining i out)"
proof (induction rounds arbitrary: remaining i out)
  case (Suc rounds)
  show ?case
  proof (cases "0 < remaining")
    case True
    let ?t = "min remaining bs"
    have t: "unat ?t \<le> unat bs" "unat (remaining - ?t) = unat remaining - unat ?t"
      by (auto simp: unat_min unat_sub_no_wrap)
    have "unat (remaining - ?t) \<le> rounds * unat bs" using Suc.prems unfolding t(2) by (auto simp: unat_min min_def)
    note ih = Suc.IH [OF this]
    show ?thesis
      unfolding read_dir_loop.simps if_P [OF True] Let_def
      by (rule io_ok_bind [OF rd [OF t(1)]], rule io_ok_lift_bind [OF returns_iter_block ih])
  qed (simp add: io_ok_lift)
qed (simp add: io_ok_lift unat_eq_zero)

text \<open>What the two sides promise: codecs that stay inside the buffers they are given, and an image whose
  superblock was accepted and whose packed inode has no fragment.\<close>

definition safe_reader :: "('z, 'c) libs \<Rightarrow> filesystem \<Rightarrow> bool" where
  "safe_reader L fs = (reads_within (lib_codecs L) \<and> sb_ok (fs_sb fs) \<and> packed_plain fs)"

lemma resolve_loop_unfold:
  "resolve_loop d L fs budget [] walked node = liftS (Ok node)"
  "resolve_loop d L fs budget (c # pending) walked node =
     bindS (lookup d L fs node c) (\<lambda>node.
       if is_symlink node then
         if budget = 0 then liftS (Err (BadInode ''symlink loop''))
         else bindS (read_symlink_target d L fs node) (\<lambda>target.
           case from_utf8 target of
             None \<Rightarrow> liftS (Err (BadInode ''symlink target not UTF-8''))
           | Some t \<Rightarrow>
               if t \<noteq> [] \<and> hd t = slash
               then bindS (liftS (root_inode fs)) (resolve_loop d L fs (budget - 1) (components t @ pending) [])
               else bindS (bindS (liftS (root_inode fs)) (walk d L fs walked))
                      (resolve_loop d L fs (budget - 1) (components t @ pending) walked))
       else resolve_loop d L fs budget pending (walked @ [c]) node)"
  by (rule ext, subst resolve_loop.simps,
      auto simp: liftS_apply bindS_def split: result.split prod.split option.split)+

declare resolve_loop.simps [simp del]

context lru_cache
begin

lemma read_dir_ok:
  assumes "safe_reader L fs" "lib_lru L = lru"
  shows "io_ok good (\<lambda>_. True) (read_dir (Suc d) L fs ino)"
proof -
  note L = assms(1) [unfolded safe_reader_def]
  note bs = sb_ok_block_size [OF L [THEN conjunct2, THEN conjunct1]]
  show ?thesis
    unfolding read_dir_def Let_def
  proof (intro io_ok_if io_ok_lift_bind)
    fix zm assume zm: "zmap_for fs ino = Ok zm"
    have "io_ok good (\<lambda>b. length b = k)
        (read_data_block L fs (read_file (Suc d) L fs) ino i (div_ceil (i_size ino) (block_size (fs_sb fs))) zm k)"
      if "k \<le> unat (block_size (fs_sb fs))" for i k
      unfolding read_data_block_def using L that bs(3)
      by (intro read_data_block_ok [OF _ assms(2) _ zm] read_packed_ok [OF _ assms(2)]) auto
    then show "io_ok good (\<lambda>_. True) (read_dir_loop (\<lambda>i. read_data_block L fs (read_file (Suc d) L fs) ino i
        (div_ceil (i_size ino) (block_size (fs_sb fs))) zm) (block_size (fs_sb fs))
        (unat (div_ceil (i_size ino) (block_size (fs_sb fs)))) (i_size ino) 0 [])"
      by (rule read_dir_loop_ok) (assumption, rule rounds_cover [OF bs(4)])
  qed (simp_all add: io_ok_lift)
qed

lemma lookup_ok:
  assumes "safe_reader L fs" "lib_lru L = lru"
  shows "io_ok good (\<lambda>_. True) (lookup (Suc d) L fs dir name)"
  unfolding lookup_listing
  by (rule io_ok_bind [OF read_dir_ok [OF assms]]) (simp add: io_ok_lift split: option.split)

lemma walk_ok:
  assumes "safe_reader L fs" "lib_lru L = lru"
  shows "io_ok good (\<lambda>_. True) (walk (Suc d) L fs cs node)"
  by (induction cs arbitrary: node) (simp_all add: io_ok_lift io_ok_bind [OF lookup_ok [OF assms]])

lemma read_symlink_target_ok:
  assumes "safe_reader L fs" "lib_lru L = lru"
  shows "io_ok good (\<lambda>_. True) (read_symlink_target (Suc (Suc d)) L fs ino)"
  unfolding read_symlink_target_def Let_def
proof (intro io_ok_if)
  assume le: "\<not> MAX_SYMLINK_TARGET < i_size ino"
  then have "unat (i_size ino) \<le> 4096" by (simp add: MAX_SYMLINK_TARGET_def not_less word_le_nat_alt)
  moreover from this have "i_size ino \<noteq> - 1" by (auto simp: unat_max_word)
  ultimately show "io_ok good (\<lambda>_. True) (read_file (Suc (Suc d)) L fs ino 0 (unat (i_size ino)))"
    using assms by (intro io_ok_mono [OF read_file_ok]) (simp_all add: safe_reader_def)
qed (simp_all add: io_ok_lift)

lemma resolve_loop_ok:
  assumes S: "safe_reader L fs" "lib_lru L = lru"
  shows "io_ok good (\<lambda>_. True) (resolve_loop (Suc (Suc d)) L fs budget pending walked node)"
proof (induction "unat budget" arbitrary: budget pending walked node rule: less_induct)
  case less
  show ?case
  proof (induction pending arbitrary: walked node)
    case (Cons c pending)
    have link: "io_ok good (\<lambda>_. True) (bindS m (resolve_loop (Suc (Suc d)) L fs (budget - 1) p w))"
      if "budget \<noteq> 0" "io_ok good (\<lambda>_. True) m" for m p w
      by (rule io_ok_bind [OF that(2)]) (rule less, use that(1) in simp)
    have root: "io_ok good (\<lambda>_. True) (liftS (root_inode fs))" by (simp add: io_ok_lift)
    show ?case
      unfolding resolve_loop_unfold
      by (rule io_ok_bind [OF lookup_ok [OF S]], intro io_ok_if io_ok_bind [OF read_symlink_target_ok [OF S]])
        (auto simp: io_ok_lift Cons.IH split: option.split intro!: link root io_ok_bind [OF root walk_ok [OF S]])
  qed (simp add: resolve_loop_unfold io_ok_lift)
qed

end

text \<open>The components a walk meets, as long as it succeeds, are no symbolic links.\<close>

primrec meets_no_link :: "nat \<Rightarrow> ('z, 'c) libs \<Rightarrow> filesystem \<Rightarrow> bytes list \<Rightarrow> inode \<Rightarrow> 'c pcluster_cache \<Rightarrow> bool" where
  "meets_no_link d L fs [] node pc = True"
| "meets_no_link d L fs (c # cs) node pc =
     (case lookup d L fs node c pc of
        (Ok node', pc') \<Rightarrow> \<not> is_symlink node' \<and> meets_no_link d L fs cs node' pc'
      | _ \<Rightarrow> True)"

lemma resolve_loop_walk:
  "meets_no_link d L fs pending node pc \<Longrightarrow>
     resolve_loop d L fs budget pending walked node pc = walk d L fs pending node pc"
proof (induction pending arbitrary: walked node pc)
  case (Cons c pending)
  obtain r pc' where l: "lookup d L fs node c pc = (r, pc')" by (cases "lookup d L fs node c pc")
  with Cons show ?case
    by (cases r) (simp_all add: resolve_loop_unfold bindS_def)
qed (simp add: resolve_loop_unfold)

text \<open>C34: on an opened image whose packed inode has no fragment of its own and not the size 2^64 - 1
  (\<open>safe_reader\<close>; directories and links may be stored as fragments, and a read of a packed inode that is a
  fragment of itself does not end), resolving any path returns, with an inode or an error, whatever else the
  image holds: the budget of 40 symbolic links and the length of the path bound the walk whatever the links
  say, loops and absolute targets included, and nothing panics. The codecs yield no more than they are asked
  for and the cache is sound at the start; its invariant is kept. A path that meets no symbolic link resolves
  as \<open>lookup_path\<close> does, with the same effect on the cache.\<close>

theorem resolve_path_untrusted:
  assumes "lru_cache lru contents" "lib_lru L = lru" "safe_reader L fs"
    and "lru_cache.good lru contents pc" "2 \<le> depth"
  shows "\<exists>r pc'. resolve_path depth L fs path follow pc = (r, pc') \<and> lru_cache.good lru contents pc'
    \<and> ((\<exists>e. r = Err e) \<or> (\<exists>node. r = Ok node))
    \<and> ((\<forall>root. root_inode fs = Ok root \<longrightarrow> meets_no_link depth L fs (components path) root pc) \<longrightarrow>
         (r, pc') = lookup_path_bytes depth L fs path pc)"
proof -
  obtain d where d: "depth = Suc (Suc d)" using assms(5) by (metis add_2_eq_Suc le_Suc_ex)
  have root: "io_ok I (\<lambda>_. True) (liftS (root_inode fs))" for I :: "'a pcluster_cache \<Rightarrow> bool"
    by (simp add: io_ok_lift)
  have "io_ok (lru_cache.good lru contents) (\<lambda>_. True) (resolve_path depth L fs path follow)"
    unfolding resolve_path_def lookup_path_bytes_def d
    using assms(2,3)
    by (intro io_ok_if io_ok_bind [OF root] lru_cache.walk_ok [OF assms(1)] lru_cache.resolve_loop_ok [OF assms(1)])
  moreover obtain r pc' where e: "resolve_path depth L fs path follow pc = (r, pc')"
    by (cases "resolve_path depth L fs path follow pc")
  ultimately have "lru_cache.good lru contents pc' \<and> ((\<exists>e. r = Err e) \<or> (\<exists>node. r = Ok node))"
    using assms(4) by (cases r) (auto simp: io_ok_def dest!: spec [of _ pc])
  moreover have "resolve_path depth L fs path follow pc = lookup_path_bytes depth L fs path pc"
    if "\<forall>root. root_inode fs = Ok root \<longrightarrow> meets_no_link depth L fs (components path) root pc"
    using that by (cases "root_inode fs")
      (simp_all add: resolve_path_def lookup_path_bytes_def bindS_def liftS_apply resolve_loop_walk)
  ultimately show ?thesis using e by auto
qed

lemma demo_safe: "safe_reader demo_libs (demo_fs\<lparr>fs_sb := demo_sb512\<rparr>)"
  using demo_reads_within demo_sb512_ok
  by (simp add: safe_reader_def demo_libs_def packed_plain_def packed_inode_def demo_sb512_def written_sb_def)

theorem resolve_path_untrusted_witness:
  "\<exists>r pc. resolve_path 2 demo_libs (demo_fs\<lparr>fs_sb := demo_sb512\<rparr>) [97, 47, 98] True (cache_new lru_list 4) = (r, pc)
     \<and> r \<noteq> Overrun \<and> r \<noteq> Panic"
proof -
  have "lib_lru demo_libs = lru_list" by (simp add: demo_libs_def)
  from resolve_path_untrusted [OF lru_list.lru_cache_axioms this demo_safe lru_list.good_new(1) [of 4], of 2 "[97, 47, 98]" True]
  show ?thesis by auto
qed

end
