(* ===== verification/CacheTransparent.thy ===== *)
theory CacheTransparent
  imports PathsSafe
begin

text \<open>
  Reading through the cache of decompressed pclusters gives what reading without it gives: the entries
  of the cache are what their extents decode to, and a key names one extent of one inode.
\<close>

section \<open>A key names one extent\<close>

definition keyed :: "zmap \<Rightarrow> blockdev \<Rightarrow> bool" where
  "keyed zm dev = (\<forall>off off' x x'. pcluster_extent_at zm dev off = Ok x \<longrightarrow> pcluster_extent_at zm dev off' = Ok x' \<longrightarrow>
     pe_source_start x = pe_source_start x' \<longrightarrow> x = x')"

lemma wf_index_keyed:
  assumes ok: "sb_ok sb" "zmap_open dev sb ino = Ok zm" and wf: "wf_index zm dev es"
  shows "keyed zm dev"
  unfolding keyed_def
proof (intro allI impI)
  fix off off' x x'
  assume x: "pcluster_extent_at zm dev off = Ok x" and x': "pcluster_extent_at zm dev off' = Ok x'"
    and eq: "pe_source_start x = pe_source_start x'"
  let ?lcs = "unat (lcluster_size zm)"
  note zo = zmap_open_Ok [OF ok] and zs = zmap_open_sizes [OF ok]
  have o: "off < i_size ino" "off' < i_size ino"
    using x x' zo(1) by (auto simp: pcluster_extent_at_def not_le split: if_splits)
  let ?h = "owner ?lcs es (unat off)" and ?g = "owner ?lcs es (unat off')"
  from wf have ix: "index_is (read_lcluster zm dev) (n_lclusters zm) es"
    and we: "wf_entries ?lcs (span_lclusters zm) es" by (simp_all add: wf_index_def)
  have len: "length es = unat (n_lclusters zm)" using ix by (simp add: index_is_def)
  have facts: "owner ?lcs es (unat o') < length es \<and> entry_head (es ! owner ?lcs es (unat o'))
      \<and> start_of ?lcs es (owner ?lcs es (unat o')) \<le> unat o'
      \<and> unat o' < end_of ?lcs (unat (i_size ino)) es (owner ?lcs es (unat o'))" if "o' < i_size ino" for o'
  proof -
    have "unat o' div ?lcs < length es" using zs(6) that len by (simp add: word_less_nat_alt)
    moreover have "0 < ?lcs" using zs(3) by simp
    ultimately show ?thesis using owner_facts [OF we _ _ that [unfolded word_less_nat_alt]] by blast
  qed
  obtain y where y: "pcluster_extent_at zm dev off = Ok y" "unat (pe_source_start y) = start_of ?lcs es ?h"
    and all: "\<And>o'. o' < i_size ino \<Longrightarrow> owner ?lcs es (unat o') = ?h \<Longrightarrow> pcluster_extent_at zm dev o' = Ok y"
    by (rule pcluster_extent_eq [OF ok wf o(1)]) blast
  obtain y' where y': "pcluster_extent_at zm dev off' = Ok y'" "unat (pe_source_start y') = start_of ?lcs es ?g"
    by (rule pcluster_extent_eq [OF ok wf o(2)]) blast
  have st: "start_of ?lcs es ?h = start_of ?lcs es ?g" using x x' y y' eq by simp
  have "\<not> ?h < ?g"
    using end_of_le_start [OF we, of ?g ?h "unat (i_size ino)"] facts [OF o(1)] facts [OF o(2)] st by linarith
  moreover have "\<not> ?g < ?h"
    using end_of_le_start [OF we, of ?h ?g "unat (i_size ino)"] facts [OF o(1)] facts [OF o(2)] st by linarith
  ultimately have "?g = ?h" by simp
  from all [OF o(2) this] x x' y(1) show "x = x'" by simp
qed

lemma inode_read_nid: "inode_read dev sb nid = Ok ino \<Longrightarrow> i_nid ino = nid"
  by (auto simp: inode_read_def Let_def inode_parse_def inode_parse_compact_def inode_parse_extended_def
      split: if_splits inode_version.splits) (meson inode_version.exhaust)+

definition inode_of :: "filesystem \<Rightarrow> inode \<Rightarrow> bool" where
  "inode_of fs ino = (read_inode fs (i_nid ino) = Ok ino)"

lemma inode_of_read: "read_inode fs nid = Ok ino \<Longrightarrow> inode_of fs ino"
  using inode_read_nid by (simp add: inode_of_def read_inode_def)

text \<open>Inodes of an image whose indices, if they are compressed, are well formed; the packed inode is one of them.\<close>

definition well_indexed :: "filesystem \<Rightarrow> inode set \<Rightarrow> bool" where
  "well_indexed fs S = ((\<forall>p. packed_inode fs = Ok p \<longrightarrow> p \<in> S) \<and>
     (\<forall>ino\<in>S. inode_of fs ino \<and>
        (\<forall>z. zmap_for fs ino = Ok (Some z) \<longrightarrow> (\<exists>es. wf_index z (fs_primary fs) es))))"

definition all_keyed :: "filesystem \<Rightarrow> inode set \<Rightarrow> bool" where
  "all_keyed fs S = ((\<forall>p. packed_inode fs = Ok p \<longrightarrow> p \<in> S) \<and>
     (\<forall>ino\<in>S. inode_of fs ino \<and> (\<forall>z. zmap_for fs ino = Ok (Some z) \<longrightarrow> keyed z (fs_primary fs))))"

lemma zmap_for_open: "zmap_for fs ino = Ok (Some z) \<Longrightarrow> zmap_open (fs_primary fs) (fs_sb fs) ino = Ok z"
  by (auto simp: zmap_for_def split: data_layout.splits)

lemma well_indexed_keyed: "sb_ok (fs_sb fs) \<Longrightarrow> well_indexed fs S \<Longrightarrow> all_keyed fs S"
  unfolding all_keyed_def well_indexed_def by (meson wf_index_keyed zmap_for_open)

section \<open>Cached and uncached calls\<close>

text \<open>What an extent of an inode decodes to.\<close>

definition extent_data :: "('z, 'c) libs \<Rightarrow> filesystem \<Rightarrow> inode \<Rightarrow> zmap \<Rightarrow> pcluster_extent \<Rightarrow> bytes result" where
  "extent_data L fs ino z x = decode_extent L fs (is_dir ino \<or> is_symlink ino) z x
     (if pe_is_last x then tail_inline_offset_and_size z else None)"

definition extent_key :: "inode \<Rightarrow> pcluster_extent \<Rightarrow> pcluster_key" where
  "extent_key ino x = (i_nid ino, pe_blkaddr x, pe_source_start x, pe_source_end x)"

definition truthful :: "('z, 'c) libs \<Rightarrow> filesystem \<Rightarrow> inode set \<Rightarrow> pcluster_key \<Rightarrow> bytes \<Rightarrow> bool" where
  "truthful L fs S k v = (\<forall>ino z off x. ino \<in> S \<longrightarrow> zmap_for fs ino = Ok (Some z) \<longrightarrow>
     pcluster_extent_at z (fs_primary fs) off = Ok x \<longrightarrow> k = extent_key ino x \<longrightarrow> extent_data L fs ino z x = Ok v)"

lemma truthful_insert:
  assumes ix: "all_keyed fs S" and ino: "ino \<in> S" and z: "zmap_for fs ino = Ok (Some z)"
    and x: "pcluster_extent_at z (fs_primary fs) off = Ok x" and d: "extent_data L fs ino z x = Ok v"
  shows "truthful L fs S (extent_key ino x) v"
  unfolding truthful_def
proof (intro allI impI)
  fix ino' z' off' x'
  assume ino': "ino' \<in> S" and z': "zmap_for fs ino' = Ok (Some z')"
    and x': "pcluster_extent_at z' (fs_primary fs) off' = Ok x'" and k: "extent_key ino x = extent_key ino' x'"
  from k have "i_nid ino = i_nid ino'" and st: "pe_source_start x = pe_source_start x'"
    by (simp_all add: extent_key_def)
  have "inode_of fs ino" "inode_of fs ino'" using ix ino ino' by (simp_all add: all_keyed_def)
  with \<open>i_nid ino = i_nid ino'\<close> have i: "ino' = ino" by (simp add: inode_of_def)
  with z z' have zz: "z' = z" by simp
  have "keyed z (fs_primary fs)" using ix ino z by (simp add: all_keyed_def)
  with x x' st zz have "x' = x" unfolding keyed_def by metis
  with i zz d show "extent_data L fs ino' z' x' = Ok v" by simp
qed

section \<open>Calls whose outcome does not depend on the cache\<close>

text \<open>From a cache in \<open>J\<close>, \<open>m\<close> does what it does with no cache, and ends in \<open>J\<close>; with no cache it keeps none.\<close>

definition same :: "'c lru_ops \<Rightarrow> ('c pcluster_cache \<Rightarrow> bool) \<Rightarrow> ('c, 'a) io \<Rightarrow> bool" where
  "same lru J m = (snd (m (cache_new lru 0)) = cache_new lru 0
     \<and> (\<forall>s. J s \<longrightarrow> J (snd (m s)) \<and> fst (m s) = fst (m (cache_new lru 0))))"

lemma same_lift: "same lru J (liftS r)"
  by (simp add: same_def liftS_apply)

lemma same_snd: "same lru J m \<Longrightarrow> snd (m (cache_new lru 0)) = cache_new lru 0"
  unfolding same_def by blast

lemma sameD:
  assumes "same lru J m" "J s"
  shows "J (snd (m s))" and "fst (m s) = fst (m (cache_new lru 0))"
  using assms unfolding same_def by blast+

lemma same_uncached: "same lru J m \<Longrightarrow> J s \<Longrightarrow> m (cache_new lru 0) = (fst (m s), cache_new lru 0)"
  using same_snd sameD(2) by (metis prod.collapse)

lemma same_bind:
  assumes m: "same lru J m" and f: "\<And>a. fst (m (cache_new lru 0)) = Ok a \<Longrightarrow> same lru J (f a)"
  shows "same lru J (bindS m f)"
proof -
  let ?e = "cache_new lru 0"
  have "snd (bindS m f ?e) = ?e"
  proof (cases "fst (m ?e)")
    case (Ok a)
    then show ?thesis
      using same_snd [OF m] same_snd [OF f [OF Ok]] by (cases "m ?e") (simp add: bindS_def)
  qed (use same_snd [OF m] in \<open>cases "m ?e", simp add: bindS_def\<close>)+
  moreover have "J (snd (bindS m f s)) \<and> fst (bindS m f s) = fst (bindS m f ?e)" if s: "J s" for s
  proof -
    obtain r s' where ms: "m s = (r, s')" by (cases "m s")
    have m': "J s'" "m ?e = (r, ?e)"
      using sameD(1) [OF m s] same_uncached [OF m s] by (simp_all add: ms)
    show ?thesis
    proof (cases r)
      case (Ok a)
      with m' have g: "same lru J (f a)" by (intro f) simp
      show ?thesis using m' Ok sameD [OF g m'(1)] by (simp add: bindS_def ms)
    qed (use m' in \<open>simp_all add: bindS_def ms\<close>)
  qed
  ultimately show ?thesis unfolding same_def by blast
qed

lemma same_lift_bind: "(\<And>a. r = Ok a \<Longrightarrow> same lru J (f a)) \<Longrightarrow> same lru J (bindS (liftS r) f)"
  by (rule same_bind) (simp_all add: same_lift liftS_apply)

lemma same_if: "(b \<Longrightarrow> same lru J m) \<Longrightarrow> (\<not> b \<Longrightarrow> same lru J m') \<Longrightarrow> same lru J (if b then m else m')"
  by simp

text \<open>Only a decoded extent touches the cache: if those calls are \<open>same\<close> for the inodes of \<open>S\<close>, every read of one is.\<close>

definition same_extents :: "('z, 'c) libs \<Rightarrow> ('c pcluster_cache \<Rightarrow> bool) \<Rightarrow> filesystem \<Rightarrow> inode set \<Rightarrow> bool" where
  "same_extents L J fs S = ((\<forall>p. packed_inode fs = Ok p \<longrightarrow> p \<in> S) \<and>
     (\<forall>ino\<in>S. \<forall>z at x off n. zmap_for fs ino = Ok (Some z) \<longrightarrow> pcluster_extent_at z (fs_primary fs) at = Ok x \<longrightarrow>
        pe_source_start x \<le> off \<longrightarrow> off \<le> pe_source_end x \<longrightarrow>
        same (lib_lru L) J (fill_compressed L fs (i_nid ino) (is_dir ino \<or> is_symlink ino) z x
          (if pe_is_last x then tail_inline_offset_and_size z else None) off n)))"

lemma same_fill_extent:
  assumes ix: "same_extents L J fs S"
    and ino: "ino \<in> S" and z: "zmap_for fs ino = Ok (Some z)"
    and x: "pcluster_extent_at z (fs_primary fs) at = Ok x"
  shows "same (lib_lru L) J (fill_extent L fs (i_nid ino) (is_dir ino \<or> is_symlink ino) z x off n w)"
proof (cases "off < pe_source_start x \<or> pe_source_end x < off")
  case False
  then have b: "pe_source_start x \<le> off" "off \<le> pe_source_end x" by auto
  show ?thesis
    using ix ino z x b False
    by (auto simp: fill_extent_def Let_def same_lift same_extents_def split: option.split)
qed (simp add: fill_extent_def same_lift)

lemma same_fill_one:
  assumes ix: "same_extents L J fs S"
    and ino: "ino \<in> S" and z: "zmap_for fs ino = Ok (Some z)"
    and rp: "\<And>p off n. p \<in> S \<Longrightarrow> same (lib_lru L) J (rp p off n)"
  shows "same (lib_lru L) J (fill_from_one_pcluster L fs rp (i_nid ino) (is_dir ino \<or> is_symlink ino) z off n w)"
proof -
  have f: "same (lib_lru L) J (fill_fragment fs rp fr off n)" for fr
    unfolding fill_fragment_def Let_def split_beta
    by (intro same_lift_bind same_if same_lift rp) (use ix in \<open>simp add: same_extents_def\<close>)
  have x: "same (lib_lru L) J (bindS (liftS (pcluster_extent_at z (fs_primary fs) off))
      (\<lambda>x. fill_extent L fs (i_nid ino) (is_dir ino \<or> is_symlink ino) z x off n w))"
    by (intro same_lift_bind same_fill_extent [OF ix ino z])
  show ?thesis
    unfolding fill_from_one_pcluster_def
    by (intro same_if same_lift same_lift_bind) (auto simp: f x split: option.split)
qed

lemma same_fill_block:
  assumes "\<And>off k w. same lru J (fill off k w)"
  shows "same lru J (fill_block_from fill b n w written)"
proof (induction "n - written" arbitrary: written rule: less_induct)
  case less
  show ?case
  proof (cases "written < n")
    case True
    show ?thesis
      unfolding fill_block_unfold [of _ _ _ _ written] if_P [OF True]
      by (intro same_bind [OF assms] same_if same_lift same_bind [OF less])
        (use True in \<open>simp_all add: diff_less_mono2 same_lift\<close>)
  qed (simp add: fill_block_unfold [of _ _ _ _ written] same_lift)
qed

lemma same_read_data_block:
  assumes ix: "same_extents L J fs S"
    and ino: "ino \<in> S" and zm: "zmap_for fs ino = Ok zm"
    and rp: "\<And>p off n. p \<in> S \<Longrightarrow> same (lib_lru L) J (rp p off n)"
  shows "same (lib_lru L) J (read_data_block_for L fs rp ino i tot zm n w)"
proof -
  have comp: "same (lib_lru L) J (read_compressed_block L fs rp ino i z n w)" if "zm = Some z" for z
    unfolding read_compressed_block_def Let_def
    by (rule same_fill_block, rule same_fill_one [OF ix ino _ rp]) (simp_all add: zm that)
  have "\<exists>z. zm = Some z" if "fmt_layout (i_format ino) \<in> {Compression, CompressionLegacy}"
    using zm that by (auto simp: zmap_for_def)
  then show ?thesis
    using comp unfolding read_data_block_for_def Let_def
    by (cases "fmt_layout (i_format ino)") (auto simp: same_lift)
qed

lemma same_read_loop:
  assumes "\<And>i k w. same lru J (rd i k w)"
  shows "same lru J (read_loop rd bs fsize rounds cursor n written)"
  by (induction rounds arbitrary: cursor written)
    (auto simp: Let_def same_lift intro!: same_if same_bind [OF assms] same_lift_bind intro: same_bind)

lemma same_read_file:
  assumes ix: "same_extents L J fs S"
  shows "ino \<in> S \<Longrightarrow> same (lib_lru L) J (read_file depth L fs ino off n)"
proof (induction depth arbitrary: ino off n)
  case (Suc depth)
  show ?case
    unfolding read_file.simps read_file_with_def Let_def
    by (intro same_if same_lift same_lift_bind same_read_loop same_read_data_block [OF ix Suc.prems] Suc.IH)
qed (simp add: same_lift)

lemma fill_compressed_uncached:
  "fill_compressed L fs nid m z x tail off n (cache_new (lib_lru L) 0) =
    (bindR (decode_extent L fs m z x tail) (\<lambda>d. slice d (in_extent x off) (in_extent x off + extent_take x off n)),
     cache_new (lib_lru L) 0)"
proof -
  have "cache_lookup (lib_lru L) k (cache_new (lib_lru L) 0) = (None, cache_new (lib_lru L) 0)"
      "cache_insert (lib_lru L) k v (cache_new (lib_lru L) 0) = Ok (cache_new (lib_lru L) 0)" for k v
    by (simp_all add: cache_lookup_def cache_insert_def cache_new_def)
  then show ?thesis
    by (cases "decode_extent L fs m z x tail")
      (auto simp: fill_compressed_def Let_def bindS_def liftS_apply split: result.split)
qed

context lru_cache
begin

definition coherent :: "('z, 'c) libs \<Rightarrow> filesystem \<Rightarrow> inode set \<Rightarrow> 'c pcluster_cache \<Rightarrow> bool" where
  "coherent L fs S pc = (good pc \<and> (\<forall>k v. entries pc k = Some v \<longrightarrow> truthful L fs S k v))"

lemma coherent_new: "coherent L fs S (cache_new lru n)"
  by (simp add: coherent_def good_new)

lemma same_fill_compressed:
  assumes L: "reads_within (lib_codecs L)" "lib_lru L = lru" and ix: "all_keyed fs S"
    and ino: "ino \<in> S" and z: "zmap_for fs ino = Ok (Some z)"
    and x: "pcluster_extent_at z (fs_primary fs) at = Ok x"
    and b: "pe_source_start x \<le> off" "off \<le> pe_source_end x"
  shows "same lru (coherent L fs S) (fill_compressed L fs (i_nid ino) (is_dir ino \<or> is_symlink ino) z x
    (if pe_is_last x then tail_inline_offset_and_size z else None) off n)"
    (is "same lru _ ?m")
proof -
  let ?e = "cache_new lru 0" and ?i = "in_extent x off" and ?t = "extent_take x off n"
  let ?D = "extent_data L fs ino z x"
  have e: "?m ?e = (bindR ?D (\<lambda>d. slice d ?i (?i + ?t)), ?e)"
    by (simp add: fill_compressed_uncached [of L, unfolded L(2)] extent_data_def)
  have len: "?i + ?t \<le> length d" if "?D = Ok d" for d
    using decode_extent_ok(2) [OF L(1) that [unfolded extent_data_def]] in_extent_take [OF b, of n] by simp
  let ?k = "extent_key ino x"
  have "coherent L fs S (snd (?m s)) \<and> fst (?m s) = fst (?m ?e)" if s: "coherent L fs S s" for s
  proof -
    obtain v s' where l: "cache_lookup lru ?k s = (v, s')" by (cases "cache_lookup lru ?k s")
    have g: "good s" using s by (simp add: coherent_def)
    from lookup_good [OF g l] have s': "coherent L fs S s'" and v: "v = entries s ?k"
      using s by (auto simp: coherent_def)
    show ?thesis
    proof (cases v)
      case (Some d)
      then have "truthful L fs S ?k d" using s v unfolding coherent_def by metis
      then have d: "?D = Ok d" using ino z x by (simp add: truthful_def)
      have "?m s = (Ok (take ?t (drop ?i d)), s')"
        using l Some len [OF d] by (simp add: fill_compressed_def L(2) Let_def get_range_def extent_key_def)
      then show ?thesis using s' e d len [OF d] by simp
    next
      case None
      have m: "?m s = bindS (liftS ?D) (\<lambda>d. bindS (liftS (slice d ?i (?i + ?t))) (\<lambda>out s.
          case cache_insert lru ?k d s of
            Ok s' \<Rightarrow> (Ok out, s') | Err e \<Rightarrow> (Err e, s) | Panic \<Rightarrow> (Panic, s) | Overrun \<Rightarrow> (Overrun, s))) s'"
        using l None by (simp add: fill_compressed_def L(2) Let_def extent_key_def extent_data_def)
      show ?thesis
      proof (cases ?D)
        case (Ok d)
        obtain s'' where i: "cache_insert lru ?k d s' = Ok s''" "good s''"
          and en: "if pc_inner s' = None \<or> DEFAULT_PCLUSTER_CACHE_BYTES < length d then s'' = s'
            else entries s'' \<subseteq>\<^sub>m (entries s')(?k \<mapsto> d) \<and> entries s'' ?k = Some d"
          using insert_good [of s' ?k d] s' by (auto simp: coherent_def)
        have "truthful L fs S k w" if "entries s'' k = Some w" for k w
        proof -
          from en that have "entries s' k = Some w \<or> (k = ?k \<and> w = d)"
            by (auto dest: map_leD split: if_splits)
          then show ?thesis
            using truthful_insert [OF ix ino z x Ok] s' unfolding coherent_def by metis
        qed
        with i(2) have "coherent L fs S s''" by (simp add: coherent_def)
        then show ?thesis unfolding m e using i(1) len [OF Ok] by (simp add: Ok bindS_def liftS_apply)
      qed (use s' in \<open>simp_all add: m e bindS_def liftS_apply\<close>)
    qed
  qed
  then show ?thesis using e by (simp add: same_def)
qed

lemma coherent_extents:
  "reads_within (lib_codecs L) \<Longrightarrow> lib_lru L = lru \<Longrightarrow> all_keyed fs S \<Longrightarrow> same_extents L (coherent L fs S) fs S"
  unfolding same_extents_def using same_fill_compressed all_keyed_def by blast

end

section \<open>Sequences of reads\<close>

fun read_run ::
    "nat \<Rightarrow> ('z, 'c) libs \<Rightarrow> filesystem \<Rightarrow> (inode \<times> u64 \<times> usize) list \<Rightarrow> 'c pcluster_cache \<Rightarrow> bytes result list" where
  "read_run depth L fs [] pc = []"
| "read_run depth L fs ((ino, off, n) # rs) pc =
     (case read_file depth L fs ino off n pc of (r, pc') \<Rightarrow> r # read_run depth L fs rs pc')"

lemma read_run_same:
  assumes "lru_cache lru contents" "reads_within (lib_codecs L)" "lib_lru L = lru" "all_keyed fs S"
    and "fst ` set rs \<subseteq> S"
  shows "lru_cache.coherent lru contents L fs S pc \<Longrightarrow>
    read_run depth L fs rs pc = map (\<lambda>(ino, off, n). fst (read_file depth L fs ino off n (cache_new lru 0))) rs"
  using assms(5)
proof (induction rs arbitrary: pc)
  case (Cons r rs)
  obtain ino off n where r: "r = (ino, off, n)" by (cases r)
  obtain v pc' where v: "read_file depth L fs ino off n pc = (v, pc')" by (cases "read_file depth L fs ino off n pc")
  have "ino \<in> S" using Cons.prems(2) by (simp add: r)
  note sm = sameD [OF same_read_file [OF lru_cache.coherent_extents [OF assms(1-4)] this] Cons.prems(1), of depth off n,
      unfolded assms(3)]
  have "lru_cache.coherent lru contents L fs S pc'" "v = fst (read_file depth L fs ino off n (cache_new lru 0))"
    using sm by (simp_all add: v)
  with Cons show ?case by (simp add: r v)
qed simp

text \<open>C35: the cache of decompressed pclusters cannot be observed: any sequence of reads through a cache of
  any capacity gives, read by read, the bytes or the error that the same read gives with no cache at
  all. The inodes are the image's own, and a compressed one has a well-formed index, which is what
  makes the cache's key name one extent.\<close>

theorem cached_reads_transparent:
  assumes "lru_cache lru contents" "lib_lru L = lru" "reads_within (lib_codecs L)"
    and "sb_ok (fs_sb fs)" "well_indexed fs S" "fst ` set rs \<subseteq> S"
  shows "read_run depth L fs rs (cache_new lru capacity) =
    map (\<lambda>(ino, off, n). fst (read_file depth L fs ino off n (cache_new lru 0))) rs"
  by (rule read_run_same [OF assms(1,3,2) well_indexed_keyed [OF assms(4,5)] assms(6)])
    (rule lru_cache.coherent_new [OF assms(1)])

text \<open>A compressed file of 100 bytes in one extent.\<close>

definition demo_lz_image :: bytes where
  "demo_lz_image = replicate 544 0
     @ [2, 0, 0, 0, 0, 0x80, 1, 0, 100, 0, 0, 0] @ replicate 20 0
     @ [0, 0, 0, 0, 0, 0, 0, 0] @ replicate 8 0 @ [1, 0, 0, 0, 2, 0, 0, 0] @ replicate 40 0"

definition demo_lz_fs :: filesystem where
  "demo_lz_fs = \<lparr>fs_primary = mem_dev demo_lz_image, fs_data = mem_dev demo_lz_image, fs_extras = [],
     fs_sb = demo_sb512, fs_compr_cfgs = None\<rparr>"

definition demo_lz_map :: zmap where
  "demo_lz_map = demo_packed_map\<lparr>zm_header := \<lparr>zh_fragment_off_or_idata_size = 0, zh_advise = 0,
     zh_algorithm_type = 0, zh_clusterbits_byte = 0\<rparr>\<rparr>"

definition demo_lz_entry :: lcluster_entry where
  "demo_lz_entry = \<lparr>lc_cluster_type = 1, lc_advise_raw = 1, lc_clusterofs = 0, lc_u_raw = 2, lc_cblkcnt = None\<rparr>"

lemma demo_lz_read:
  "unat off + k \<le> 640 \<Longrightarrow> read_at (mem_dev demo_lz_image) off k = Ok (take k (drop (unat off) demo_lz_image))"
  using serves_read [OF serves_mem_dev, of demo_lz_image off k] by (simp add: demo_lz_image_def)

lemma demo_lz_iloc: "iloc demo_sb512 1 = 544"
  by (simp add: iloc_def block_size_def demo_sb512_def written_sb_def sat_mul_def sat_add_def inode_consts push_bit_eq_mult)

lemma demo_lz_inode: "read_inode demo_lz_fs 1 = Ok demo_packed"
proof -
  have "inode_parse 1 (take 64 (drop 544 demo_lz_image)) = Ok demo_packed"
    by (simp add: demo_lz_image_def inode_parse_def inode_parse_compact_def u16_at_def u32_at_def slice_def
        inode_format_parse_def data_layout_from_bits_def le16_def le32_def inode_consts demo_packed_def)
  then show ?thesis
    using demo_lz_read [of 544 64]
    by (simp add: read_inode_def demo_lz_fs_def inode_read_def demo_lz_iloc inode_consts Let_def)
qed

lemma demo_lz_zmap: "zmap_for demo_lz_fs demo_packed = Ok (Some demo_lz_map)"
proof -
  let ?h = "[0, 0, 0, 0, 0, 0, 0, 0] :: bytes"
  have r: "read_at (mem_dev demo_lz_image) 576 8 = Ok ?h"
    using demo_lz_read [of 576 8] by (simp add: demo_lz_image_def)
  have b: "body_end demo_packed demo_sb512 = 576"
    by (simp add: body_end_def demo_packed_def demo_lz_iloc sat_add_def)
  have z: "sb_blkszbits demo_sb512 = 9" "i_size demo_packed = 100"
      "fmt_layout (i_format demo_packed) = CompressionLegacy"
    by (simp_all add: demo_sb512_def written_sb_def demo_packed_def)
  have f: "u32_at ?h 0 = Ok 0" "u16_at ?h 4 = Ok 0" "idx ?h 6 = Ok 0" "idx ?h 7 = Ok 0"
    by (simp_all add: le32_def le16_def)
  have "zmap_open (mem_dev demo_lz_image) demo_sb512 demo_packed = Ok demo_lz_map"
    unfolding zmap_open_def b Let_def r bindR_simps f z
    by (simp add: next_multiple_of_def one_shl_def div_ceil_def push_bit_eq_mult zmap_consts demo_lz_map_def demo_packed_map_def)
  then show ?thesis by (simp add: zmap_for_def z demo_lz_fs_def)
qed

lemma demo_lz_sizes: "lcluster_size demo_lz_map = 512" "n_lclusters demo_lz_map = 1"
proof -
  show l: "lcluster_size demo_lz_map = 512"
    by (simp add: lcluster_size_def one_shl_def demo_lz_map_def demo_packed_map_def push_bit_eq_mult)
  have "i_size (zm_inode demo_lz_map) = 100" by (simp add: demo_lz_map_def demo_packed_map_def demo_packed_def)
  then show "n_lclusters demo_lz_map = 1" by (simp add: n_lclusters_def l div_ceil_def)
qed

lemma demo_lz_wf: "wf_index demo_lz_map (mem_dev demo_lz_image) [demo_lz_entry]"
proof -
  have "read_at (mem_dev demo_lz_image) 592 8 = Ok [1, 0, 0, 0, 2, 0, 0, 0]"
    using demo_lz_read [of 592 8] by (simp add: demo_lz_image_def)
  then have "read_lcluster demo_lz_map (mem_dev demo_lz_image) 0 = Ok demo_lz_entry"
    unfolding read_lcluster_def read_lcluster_legacy_def demo_lz_sizes Let_def
    by (simp add: demo_lz_map_def demo_packed_map_def demo_lz_entry_def zmap_consts le16_def le32_def)
  then have "index_is (read_lcluster demo_lz_map (mem_dev demo_lz_image)) (n_lclusters demo_lz_map) [demo_lz_entry]"
    by (simp add: index_is_def demo_lz_sizes)
  moreover have "wf_entries (unat (lcluster_size demo_lz_map)) m [demo_lz_entry]" for m
    by (simp add: wf_entries_def demo_lz_sizes demo_lz_entry_def is_head_or_plain_def zmap_consts)
  ultimately show ?thesis by (simp add: wf_index_def)
qed

theorem cached_reads_transparent_witness:
  "read_run 2 demo_libs demo_lz_fs [(demo_packed, 0, 100), (demo_packed, 50, 10)] (cache_new lru_list 8) =
     [fst (read_file 2 demo_libs demo_lz_fs demo_packed 0 100 (cache_new lru_list 0)),
      fst (read_file 2 demo_libs demo_lz_fs demo_packed 50 10 (cache_new lru_list 0))]"
proof -
  have "inode_of demo_lz_fs demo_packed" by (rule inode_of_read [OF demo_lz_inode])
  moreover have "packed_inode demo_lz_fs \<noteq> Ok p" for p
    by (simp add: packed_inode_def demo_lz_fs_def demo_sb512_def written_sb_def)
  moreover have "fs_primary demo_lz_fs = mem_dev demo_lz_image" by (simp add: demo_lz_fs_def)
  ultimately have "well_indexed demo_lz_fs {demo_packed}"
    using demo_lz_zmap demo_lz_wf by (auto simp: well_indexed_def)
  moreover have "sb_ok (fs_sb demo_lz_fs)" using demo_sb512_ok by (simp add: demo_lz_fs_def)
  moreover have "lib_lru demo_libs = lru_list" "reads_within (lib_codecs demo_libs)"
    using demo_reads_within by (simp_all add: demo_libs_def)
  ultimately show ?thesis
    using cached_reads_transparent [OF lru_list.lru_cache_axioms, of demo_libs demo_lz_fs "{demo_packed}"
        "[(demo_packed, 0, 100), (demo_packed, 50, 10)]" 2 8] by simp
qed

end
