(* ===== verification/FileContent.thy ===== *)
theory FileContent
  imports CacheTransparent
begin

text \<open>
  A file has one content: what a read of any range returns is that range of what a read of the whole
  file returns, and the content of a flat file is a piece of the device.
\<close>

section \<open>Asking for fewer bytes of a block\<close>










section \<open>Reading without a cache\<close>

lemma uncached_extents: "same_extents L (\<lambda>s. s = cache_new (lib_lru L) 0) fs UNIV"
  by (simp add: same_extents_def same_def fill_compressed_uncached)

lemma fst_bindS: "same lru J m \<Longrightarrow> fst (bindS m f (cache_new lru 0)) =
    bindR (fst (m (cache_new lru 0))) (\<lambda>a. fst (f a (cache_new lru 0)))"
  using same_snd [of lru J m] by (cases "m (cache_new lru 0)"; cases "fst (m (cache_new lru 0))") (simp_all add: bindS_def)

lemma fst_bindS_lift [simp]: "fst (bindS (liftS r) f s) = bindR r (\<lambda>a. fst (f a s))"
  by (cases r) (simp_all add: bindS_def liftS_apply)

section \<open>The loop over blocks\<close>

text \<open>Block \<open>i\<close> of a file of \<open>f\<close> bytes, and that reading it gives the start of \<open>xs\<close>.\<close>

definition valid_len :: "nat \<Rightarrow> nat \<Rightarrow> nat \<Rightarrow> nat" where "valid_len b f i = min (f - i * b) b"

definition block_gives :: "nat \<Rightarrow> bytes result \<Rightarrow> bytes \<Rightarrow> bool" where
  "block_gives v r xs = (\<exists>blk. r = Ok blk \<and> v \<le> length blk \<and> take v blk = take v xs)"

lemma block_gives_slice:
  assumes "block_gives v r xs" "a + t \<le> v"
  shows "bindR r (\<lambda>blk. slice blk a (a + t)) = Ok (take t (drop a xs))"
proof -
  from assms(1) obtain blk where b: "r = Ok blk" "v \<le> length blk" "take v blk = take v xs"
    by (auto simp: block_gives_def)
  have "take t (drop a blk) = take t (drop a (take v blk))" using assms(2) by (simp add: drop_take take_take)
  also have "\<dots> = take t (drop a xs)" using assms(2) unfolding b(3) by (simp add: drop_take take_take)
  finally show ?thesis using b assms(2) by simp
qed

text \<open>One round of the loop, with its arithmetic in natural numbers.\<close>

lemma read_loop_step:
  assumes rd: "\<And>i k w. same lru J (rd i k w)" and b: "bs \<noteq> 0"
    and c: "unat cursor < unat fsize" and w: "written < n" "unat cursor + (n - written) \<le> unat fsize"
  defines "i \<equiv> unat cursor div unat bs" and "a \<equiv> unat cursor mod unat bs"
  defines "v \<equiv> valid_len (unat bs) (unat fsize) i"
  defines "t \<equiv> min (v - a) (n - written)"
  shows "fst (read_loop rd bs fsize (Suc rounds) cursor n written (cache_new lru 0)) =
      bindR (fst (rd (word_of_nat i) v (a, a + t) (cache_new lru 0))) (\<lambda>blk. bindR (slice blk a (a + t)) (\<lambda>bytes.
        bindR (fst (read_loop rd bs fsize rounds (cursor + word_of_nat t) n (written + t) (cache_new lru 0)))
          (\<lambda>rest. Ok (bytes @ rest))))"
    and "a < v" and "v \<le> unat bs" and "unat (cursor + word_of_nat t) = unat cursor + t"
proof -
  have lt: "cursor < fsize" using c by (simp add: word_less_nat_alt)
  note r = block_round [OF b lt]
  have ie: "cursor div bs = word_of_nat i" by (simp add: i_def flip: unat_div)
  have ib: "i * unat bs \<le> unat cursor" by (simp add: i_def)
  note ib
  also have "unat cursor < 2 ^ 64" using unsigned_less [of cursor, where 'a = nat] by simp
  finally have "unat (cursor div bs) * unat bs < 2 ^ 64" by (simp add: unat_div i_def)
  then have st: "unat (cursor div bs * bs) = i * unat bs" by (simp add: unat_mult_no_wrap unat_div i_def)
  then have "cursor div bs * bs \<le> fsize" using ib c by (simp add: word_le_nat_alt)
  then have ve: "unat (min (fsize - cursor div bs * bs) bs) = v"
    by (simp add: unat_min unat_sub_no_wrap st v_def valid_len_def)
  have ae: "unat (cursor mod bs) = a" by (simp add: a_def unat_mod)
  show av: "a < v" "v \<le> unat bs" using r by (simp_all add: ve ae)
  have te: "min (usize_sub v a) (n - written) = t" using av by (simp add: t_def usize_sub_def)
  have "unat cursor + t \<le> unat fsize" using w by (simp add: t_def)
  also have "unat fsize < 2 ^ 64" using unsigned_less [of fsize, where 'a = nat] by simp
  finally show "unat (cursor + word_of_nat t) = unat cursor + t"
    by (simp add: unat_add_no_wrap unat_of_nat_small)
  show "fst (read_loop rd bs fsize (Suc rounds) cursor n written (cache_new lru 0)) =
      bindR (fst (rd (word_of_nat i) v (a, a + t) (cache_new lru 0))) (\<lambda>blk. bindR (slice blk a (a + t)) (\<lambda>bytes.
        bindR (fst (read_loop rd bs fsize rounds (cursor + word_of_nat t) n (written + t) (cache_new lru 0)))
          (\<lambda>rest. Ok (bytes @ rest))))"
    unfolding read_loop.simps if_P [OF w(1)] Let_def ve ae te unfolding ie
    by (simp add: fst_bindS [OF rd] fst_bindS [OF same_read_loop [OF rd]] liftS_apply)
qed

lemma take_drop_split: "n = t + m \<Longrightarrow> take n (drop c xs) = take t (drop c xs) @ take m (drop (c + t) xs)"
  by (simp only: take_add drop_drop add.commute [of c t])

lemma read_loop_slice:
  assumes rd: "\<And>i k w. same lru J (rd i k w)" and b: "bs \<noteq> 0"
    and hold: "\<And>i w. i * unat bs < unat fsize \<Longrightarrow>
      block_gives (valid_len (unat bs) (unat fsize) i)
        (fst (rd (word_of_nat i) (valid_len (unat bs) (unat fsize) i) w (cache_new lru 0))) (drop (i * unat bs) content)"
  shows "unat cursor + (n - written) \<le> unat fsize \<Longrightarrow> n - written \<le> rounds \<Longrightarrow>
    fst (read_loop rd bs fsize rounds cursor n written (cache_new lru 0)) = Ok (take (n - written) (drop (unat cursor) content))"
proof (induction rounds arbitrary: cursor written)
  case 0
  then show ?case by (simp add: liftS_apply)
next
  case (Suc rounds)
  show ?case
  proof (cases "written < n")
    case True
    let ?i = "unat cursor div unat bs" and ?a = "unat cursor mod unat bs"
    let ?v = "valid_len (unat bs) (unat fsize) ?i"
    let ?t = "min (?v - ?a) (n - written)"
    have c: "unat cursor < unat fsize" using Suc.prems(1) True by simp
    note st = read_loop_step [OF rd b c True Suc.prems(1)]
    have "?i * unat bs \<le> unat cursor" by simp
    then have "?i * unat bs < unat fsize" using c by (rule le_less_trans)
    note g = hold [OF this, of "(?a, ?a + ?t)"]
    have t1: "0 < ?t" using st(2) True by simp
    have t2: "?t \<le> n - written" by (rule min.cobounded2)
    have "?t \<le> ?v - ?a" by (rule min.cobounded1)
    then have t3: "?a + ?t \<le> ?v" using st(2) by linarith
    note t = t1 t2 t3
    have bytes: "bindR (fst (rd (word_of_nat ?i) ?v (?a, ?a + ?t) (cache_new lru 0))) (\<lambda>blk. slice blk ?a (?a + ?t))
        = Ok (take ?t (drop (unat cursor) content))"
      using block_gives_slice [OF g t(3)] by (simp add: add.commute)
    have n: "unat (cursor + word_of_nat ?t) + (n - (written + ?t)) \<le> unat fsize" "n - (written + ?t) \<le> rounds"
      unfolding st(4) using sub_round [OF t(1,2) Suc.prems] by blast+
    have "n - written = ?t + (n - (written + ?t))" by (rule sub_split [OF t(2), symmetric])
    then have "take (n - written) (drop (unat cursor) content) =
        take ?t (drop (unat cursor) content) @ take (n - (written + ?t)) (drop (unat cursor + ?t) content)"
      by (rule take_drop_split)
    then show ?thesis
      unfolding st(1) bindR_assoc [symmetric] bytes bindR_simps Suc.IH [OF n] unfolding st(4) by simp
  qed (simp add: liftS_apply)
qed


section \<open>Files\<close>

lemma request_accepted: "unat o' + k \<le> unat sz \<Longrightarrow> \<not> sz < sat_add o' (word_of_nat k)" for sz :: u64
  using unat_sat_add [of o' "word_of_nat k"] le_unat_uoi [of k sz]
  by (simp add: word_less_nat_alt not_less)

lemma read_file_blocks:
  assumes sb: "sb_ok (fs_sb fs)" and zm: "zmap_for fs ino = Ok zm"
    and hold: "\<And>i w. i * unat (block_size (fs_sb fs)) < unat (i_size ino) \<Longrightarrow>
      block_gives (valid_len (unat (block_size (fs_sb fs))) (unat (i_size ino)) i)
        (fst (read_data_block_for L fs (read_file d L fs) ino (word_of_nat i)
           (div_ceil (i_size ino) (block_size (fs_sb fs))) zm
           (valid_len (unat (block_size (fs_sb fs))) (unat (i_size ino)) i) w (cache_new (lib_lru L) 0)))
        (drop (i * unat (block_size (fs_sb fs))) content)"
    and n: "unat off + n \<le> unat (i_size ino)"
  shows "fst (read_file (Suc d) L fs ino off n (cache_new (lib_lru L) 0)) = Ok (take n (drop (unat off) content))"
proof (cases "n = 0")
  case True
  then show ?thesis using request_accepted [OF n] by (simp add: read_file_with_def liftS_apply)
next
  case False
  let ?e = "cache_new (lib_lru L) 0" and ?bs = "block_size (fs_sb fs)"
  let ?rd = "\<lambda>i. read_data_block_for L fs (read_file d L fs) ino i (div_ceil (i_size ino) ?bs) zm"
  have rd: "same (lib_lru L) (\<lambda>s. s = ?e) (?rd i k w)" for i k w
    by (intro same_read_data_block [OF uncached_extents _ zm] same_read_file [OF uncached_extents]) simp_all
  from read_loop_slice [OF rd sb_ok_block_size(4) [OF sb] hold, of off n 0 n] n
  show ?thesis using request_accepted [OF n] False by (simp add: read_file_with_def Let_def zm)
qed


section \<open>Flat files\<close>

text \<open>The device a file's data is read from.\<close>

definition content_dev :: "filesystem \<Rightarrow> inode \<Rightarrow> blockdev" where
  "content_dev fs ino = (if is_dir ino \<or> is_symlink ino then fs_primary fs else fs_data fs)"

lemma read_via_dev: "read_via fs ino 0 off n = read_at (content_dev fs ino) off n"
  by (simp add: read_via_def content_dev_def read_block_def read_data_def device_for_def data_device_for_def)

text \<open>Where the format puts the bytes of a flat file: in blocks of its own from \<open>raw_u\<close> on, but for the
  last block of an inline file, which follows the inode.\<close>

definition tail_start :: "nat \<Rightarrow> nat \<Rightarrow> nat" where "tail_start b fsize = (fsize - 1) div b * b"

definition flat_content :: "superblock \<Rightarrow> inode \<Rightarrow> bytes \<Rightarrow> bytes" where
  "flat_content sb ino img =
     (let b = unat (block_size sb); start = unat (i_raw_u ino) * b; fsize = unat (i_size ino); t = tail_start b fsize
      in if fmt_layout (i_format ino) = FlatInline
         then take t (drop start img) @ take (fsize - t) (drop (unat (body_end ino sb)) img)
         else take fsize (drop start img))"

definition flat_fits :: "superblock \<Rightarrow> inode \<Rightarrow> bytes \<Rightarrow> bool" where
  "flat_fits sb ino img =
     (let b = unat (block_size sb); start = unat (i_raw_u ino) * b; fsize = unat (i_size ino); t = tail_start b fsize
      in if fmt_layout (i_format ino) = FlatInline
         then start + t \<le> length img \<and> unat (body_end ino sb) + (fsize - t) \<le> length img
         else start + fsize \<le> length img)"

lemma block_gives_take:
  "take v (drop a xs) = take v ys \<Longrightarrow> a + v \<le> length xs \<Longrightarrow> block_gives v (Ok (take v (drop a xs))) ys"
proof -
  assume t: "take v (drop a xs) = take v ys" and l: "a + v \<le> length xs"
  from l have "v \<le> length (take v (drop a xs))" by simp
  with t show ?thesis unfolding block_gives_def by (metis take_take min.idem)
qed

lemma take_drop_take: "a + v \<le> m \<Longrightarrow> take v (drop a (take m xs)) = take v (drop a xs)"
  by (simp add: drop_take take_take)

lemma last_block:
  assumes "0 < b" "i * b < fsize"
  shows "i = (fsize - 1) div b \<longleftrightarrow> fsize \<le> i * b + b" and "i * b \<le> tail_start b fsize"
    and "i \<noteq> (fsize - 1) div b \<Longrightarrow> i * b + b \<le> tail_start b (fsize :: nat)"
proof -
  let ?q = "(fsize - 1) div b"
  have q: "?q * b \<le> fsize - 1" "fsize - 1 < ?q * b + b"
    using assms(1) by (simp_all add: div_times_less_eq_dividend) (metis dividend_less_div_times add.commute)
  have le: "i \<le> ?q" using assms by (simp add: less_eq_div_iff_mult_less_eq)
  then show t: "i * b \<le> tail_start b fsize" by (simp add: tail_start_def)
  show "i = ?q \<longleftrightarrow> fsize \<le> i * b + b"
  proof
    assume "fsize \<le> i * b + b"
    with q(1) assms(2) have "?q * b < i * b + b" by linarith
    then have "?q * b < Suc i * b" by simp
    then have "?q < Suc i" using assms(1) by (simp only: mult_less_cancel2)
    with le show "i = ?q" by simp
  qed (use q(2) in simp)
  assume "i \<noteq> ?q"
  with le have "Suc i \<le> ?q" by simp
  from mult_le_mono1 [OF this, of b] show "i * b + b \<le> tail_start b fsize" by (simp add: tail_start_def)
qed

lemma serves_block:
  assumes "serves dev img" "unat start + i * unat bs + v \<le> length img" and bs: "bs \<noteq> 0"
  shows "read_at dev (start + word_of_nat i * bs) v = Ok (take v (drop (unat start + i * unat bs) img))"
proof -
  have len: "length img < 2 ^ 64"
    using serves_size [OF assms(1)] unsigned_less [of "dev_size dev", where 'a = nat] by simp
  have "i \<le> i * unat bs" using bs by (simp add: unat_gt_0 Suc_le_eq)
  then have "i < 2 ^ 64" using assms(2) len by linarith
  then have i: "unat (word_of_nat i :: u64) = i" by (intro unat_of_nat_small) simp
  then have m: "unat (word_of_nat i * bs) = i * unat bs"
    using assms(2) len by (subst unat_mult_no_wrap) simp_all
  have "unat (start + word_of_nat i * bs) = unat start + i * unat bs"
    using assms(2) len by (subst unat_add_no_wrap) (simp_all add: m)
  then show ?thesis using serves_read [OF assms(1), of "start + word_of_nat i * bs" v] assms(2) by simp
qed

lemma flat_read:
  assumes sb: "sb_ok (fs_sb fs)" and dev: "serves (content_dev fs ino) img"
    and lay: "fmt_layout (i_format ino) \<in> {FlatPlain, FlatInline}" and fits: "flat_fits (fs_sb fs) ino img"
    and n: "unat off + n \<le> unat (i_size ino)" and depth: "0 < depth"
  shows "fst (read_file depth L fs ino off n (cache_new (lib_lru L) 0)) =
    Ok (take n (drop (unat off) (flat_content (fs_sb fs) ino img)))"
proof -
  let ?bs = "block_size (fs_sb fs)" and ?f = "unat (i_size ino)"
  let ?b = "unat ?bs" and ?s = "ucast (i_raw_u ino) * ?bs"
  let ?start = "unat (i_raw_u ino) * ?b" and ?t = "tail_start (unat ?bs) ?f"
  note bs = sb_ok_block_size [OF sb]
  have b: "0 < ?b" using bs(2) by simp
  obtain d where d: "depth = Suc d" using depth by (cases depth) auto
  have zm: "zmap_for fs ino = Ok None" using lay by (auto simp: zmap_for_def)
  have "unat (i_raw_u ino) < 2 ^ 32" using unsigned_less [of "i_raw_u ino", where 'a = nat] by simp
  with bs(3) b have "?start < 2 ^ 32 * 65537" by (intro mult_less_le_imp_less) auto
  then have s: "unat ?s = ?start" by (subst unat_mult_no_wrap) (simp_all add: unat_ucast_up)
  have hold: "block_gives (valid_len ?b ?f i) (fst (read_data_block_for L fs (read_file d L fs) ino (word_of_nat i)
        (div_ceil (i_size ino) ?bs) None (valid_len ?b ?f i) w (cache_new (lib_lru L) 0)))
      (drop (i * ?b) (flat_content (fs_sb fs) ino img))" if i: "i * ?b < ?f" for i w
  proof -
    let ?v = "valid_len ?b ?f i"
    note last = last_block [OF b i]
    have v: "i * ?b + ?v \<le> ?f" "?v \<le> ?b" using i by (simp_all add: valid_len_def)
    have own: "read_at (content_dev fs ino) (?s + word_of_nat i * ?bs) ?v = Ok (take ?v (drop (?start + i * ?b) img))"
      if "?start + (i * ?b + ?v) \<le> length img"
      using serves_block [OF dev, of ?s i ?bs ?v] that bs(4) by (simp add: s add.assoc)
    note give = block_gives_take [of ?v _ img]
    show ?thesis
    proof (cases "fmt_layout (i_format ino) = FlatInline")
      case False
      then have pl: "fmt_layout (i_format ino) = FlatPlain" using lay by simp
      have fit: "?start + ?f \<le> length img" using fits pl by (simp add: flat_fits_def Let_def)
      have "block_gives ?v (Ok (take ?v (drop (?start + i * ?b) img))) (drop (i * ?b) (take ?f (drop ?start img)))"
        using v(1) fit by (intro give) (simp_all add: take_drop_take add.commute)
      then show ?thesis
        using own fit v(1) by (simp add: read_data_block_for_def pl read_via_dev flat_content_def liftS_apply Let_def)
    next
      case inl: True
      have fit: "?start + ?t \<le> length img" "unat (body_end ino (fs_sb fs)) + (?f - ?t) \<le> length img"
        using fits inl by (simp_all add: flat_fits_def Let_def)
      have tot: "0 < div_ceil (i_size ino) ?bs" "unat (div_ceil (i_size ino) ?bs - 1) = (?f - 1) div ?b"
      proof -
        have "?f + ?b - 1 = ?f - 1 + ?b" using i by simp
        then have q: "unat (div_ceil (i_size ino) ?bs) = Suc ((?f - 1) div ?b)"
          using b unfolding unat_div_ceil [OF bs(4)] by (simp only: div_add_self2)
        then show "0 < div_ceil (i_size ino) ?bs" by (simp add: word_less_nat_alt)
        then have "div_ceil (i_size ino) ?bs \<noteq> 0" by auto
        from unat_minus_one [OF this] q show "unat (div_ceil (i_size ino) ?bs - 1) = (?f - 1) div ?b" by simp
      qed
      show ?thesis
      proof (cases "i = (?f - 1) div ?b")
        case True
        then have t: "i * ?b = ?t" by (simp add: tail_start_def)
        have vt: "?v = ?f - ?t" using iffD1 [OF last(1) True] unfolding valid_len_def t by simp
        have tl: "word_of_nat i = div_ceil (i_size ino) ?bs - 1" 
          unfolding True tot(2) [symmetric] by simp
        have "block_gives ?v (Ok (take ?v (drop (unat (body_end ino (fs_sb fs))) img)))
            (drop (i * ?b) (take ?t (drop ?start img) @ take (?f - ?t) (drop (unat (body_end ino (fs_sb fs))) img)))"
          using fit by (intro give) (simp_all add: t vt)
        then show ?thesis
          using serves_read [OF dev, of "body_end ino (fs_sb fs)" ?v] fit(2) tot(1)
          by (simp add: read_data_block_for_def inl read_via_dev flat_content_def liftS_apply Let_def tl vt)
      next
        case False
        note t = last(3) [OF False]
        have ne: "word_of_nat i \<noteq> div_ceil (i_size ino) ?bs - 1"
        proof
          assume "word_of_nat i = div_ceil (i_size ino) ?bs - 1"
          moreover have "unat (word_of_nat i :: u64) = i"
            using i b unsigned_less [of "i_size ino", where 'a = nat]
            by (intro unat_of_nat_small) (metis le_less_trans less_imp_le len64 mult_le_mono2 nat_mult_1_right Suc_leI One_nat_def)
          ultimately show False using tot(2) False by simp
        qed
        have "block_gives ?v (Ok (take ?v (drop (?start + i * ?b) img)))
            (drop (i * ?b) (take ?t (drop ?start img) @ take (?f - ?t) (drop (unat (body_end ino (fs_sb fs))) img)))"
          using t v(2) fit(1) by (intro give) (simp_all add: take_drop_take add.commute)
        then show ?thesis
          using own t v(2) fit(1) ne
          by (simp add: read_data_block_for_def inl read_via_dev flat_content_def liftS_apply Let_def)
      qed
    qed
  qed
  show ?thesis unfolding d by (rule read_file_blocks [OF sb zm hold n])
qed

text \<open>Reading a range of a flat file, plain or inline, returns the bytes the format puts there: those
  of its own blocks, and for the last block of an inline file those that follow the inode on the
  device, wherever the range begins and ends.\<close>

theorem read_flat_file:
  assumes "sb_ok (fs_sb fs)" "serves (content_dev fs ino) img"
    and "fmt_layout (i_format ino) \<in> {FlatPlain, FlatInline}" "flat_fits (fs_sb fs) ino img"
    and "unat off + n \<le> unat (i_size ino)" "0 < depth"
  shows "fst (read_file depth L fs ino off n (cache_new (lib_lru L) 0)) =
    Ok (take n (drop (unat off) (flat_content (fs_sb fs) ino img)))"
  using assms by (rule flat_read)

section \<open>A flat file of 700 bytes in two blocks\<close>

definition demo_flat_image :: bytes where
  "demo_flat_image = replicate 512 0 @ replicate 700 7 @ replicate 324 0"

definition demo_flat_fs :: filesystem where
  "demo_flat_fs = demo_fs\<lparr>fs_primary := mem_dev demo_flat_image, fs_data := mem_dev demo_flat_image\<rparr>"

definition demo_flat :: inode where
  "demo_flat = demo_packed\<lparr>i_format := \<lparr>fmt_version = Compact, fmt_layout = FlatPlain, fmt_flags = 0\<rparr>, i_size := 700, i_raw_u := 1\<rparr>"

lemma demo_flat_facts:
  "sb_ok (fs_sb demo_flat_fs)" "serves (content_dev demo_flat_fs demo_flat) demo_flat_image"
  "fmt_layout (i_format demo_flat) \<in> {FlatPlain, FlatInline}" "flat_fits (fs_sb demo_flat_fs) demo_flat demo_flat_image"
  "flat_content (fs_sb demo_flat_fs) demo_flat demo_flat_image = replicate 700 7"
proof -
  have b: "block_size (fs_sb demo_flat_fs) = 512"
    by (simp add: demo_flat_fs_def demo_fs_def demo_sb512_def block_size_def written_sb_def push_bit_eq_mult)
  show "sb_ok (fs_sb demo_flat_fs)" using demo_sb_packed by (simp add: demo_flat_fs_def demo_fs_def)
  have "length demo_flat_image = 1536" by (simp add: demo_flat_image_def)
  then show "serves (content_dev demo_flat_fs demo_flat) demo_flat_image"
      "flat_fits (fs_sb demo_flat_fs) demo_flat demo_flat_image"
    using b by (simp_all add: content_dev_def demo_flat_fs_def serves_mem_dev flat_fits_def demo_flat_def)
  show "fmt_layout (i_format demo_flat) \<in> {FlatPlain, FlatInline}" by (simp add: demo_flat_def)
  show "flat_content (fs_sb demo_flat_fs) demo_flat demo_flat_image = replicate 700 7"
    by (simp add: flat_content_def b demo_flat_def demo_flat_image_def)
qed

lemma demo_flat_size: "i_size demo_flat = 700" "lib_lru demo_libs = lru_list"
  by (simp_all add: demo_flat_def demo_libs_def)

theorem read_flat_file_witness:
  "fst (read_file 1 demo_libs demo_flat_fs demo_flat 500 100 (cache_new lru_list 0)) = Ok (replicate 100 7)"
  using read_flat_file [OF demo_flat_facts(1-4), of 500 100 1 demo_libs]
  by (simp add: demo_flat_facts(5) demo_flat_size del: read_file.simps)


end
