(* ===== verification/IndexWriter.thy ===== *)
theory IndexWriter
  imports Zmap
begin

text \<open>
  The writer of compressed indices (\<open>encode_zmap_trailer\<close> and what it calls in \<open>src/mkfs.rs\<close>): the map
  header, the legacy index of eight bytes an entry, and the compact index, whose packs hold their
  entries in a bit stream. What the reader of \<open>Zmap\<close> makes of the bytes is proved below.
\<close>

unbundle bit_operations_syntax

section \<open>The legacy index\<close>

definition Z_EROFS_LEGACY_MAP_HEADER_SIZE :: u64 where "Z_EROFS_LEGACY_MAP_HEADER_SIZE = 16"

definition encode_zmap_header :: "u16 \<Rightarrow> u8 \<Rightarrow> u8 \<Rightarrow> bytes" where
  "encode_zmap_header advise lclusterbits algorithm =
     to_le32 0 @ to_le16 advise @ [algorithm AND 0x0F, lclusterbits AND 0x0F] @ replicate 8 0"

definition encode_lcluster_index :: "u8 \<Rightarrow> u16 \<Rightarrow> u32 \<Rightarrow> bytes" where
  "encode_lcluster_index cluster_type clusterofs blkaddr_or_delta =
     to_le16 (ucast cluster_type AND 3) @ to_le16 clusterofs @ to_le32 blkaddr_or_delta"

section \<open>The compact index\<close>

record compact_geom =
  cg_initial :: u32
  cg_middle :: u32
  cg_tail :: u32
  cg_use_2b_middle :: bool

definition compact_geom_bytes :: "compact_geom \<Rightarrow> u64" where
  "compact_geom_bytes g =
     (let initial_bytes = div_ceil (ucast (cg_initial g)) 2 * 8;
          middle_bytes = div_ceil (ucast (cg_middle g)) 16 * 32;
          tail_bytes = div_ceil (ucast (cg_tail g)) 2 * 8
      in initial_bytes + middle_bytes + tail_bytes)"

definition compact_geom_totalidx :: "compact_geom \<Rightarrow> u32" where
  "compact_geom_totalidx g = cg_initial g + cg_middle g + cg_tail g"

definition compute_compact_geom :: "u64 \<Rightarrow> u32 \<Rightarrow> bool \<Rightarrow> compact_geom" where
  "compute_compact_geom ebase totalidx want_2b_middle =
     (if totalidx = 0 then \<lparr>cg_initial = 0, cg_middle = 0, cg_tail = 0, cg_use_2b_middle = False\<rparr>
      else
        let pad = ucast (((32 - ebase mod 32) div 4) AND 7);
            initial = min pad totalidx
        in if want_2b_middle \<and> initial < totalidx then
             let remaining = totalidx - initial;
                 middle = remaining - remaining mod 16;
                 tail = remaining - middle
             in \<lparr>cg_initial = initial, cg_middle = middle, cg_tail = tail, cg_use_2b_middle = (0 < middle)\<rparr>
           else \<lparr>cg_initial = initial, cg_middle = 0, cg_tail = totalidx - initial, cg_use_2b_middle = False\<rparr>)"

text \<open>An entry is OR-merged into the bit stream, over as many bytes as a shifted word can touch.\<close>

definition entry_value :: "u32 \<Rightarrow> u8 \<Rightarrow> u32 \<Rightarrow> u32" where
  "entry_value lobits cluster_type lo =
     (let s = unat lobits mod 32; lo_mask = push_bit s 1 - 1
      in push_bit s (ucast cluster_type AND 3) OR (lo AND lo_mask))"

definition pack_write_entry :: "bytes \<Rightarrow> nat \<Rightarrow> u32 \<Rightarrow> u8 \<Rightarrow> u32 \<Rightarrow> bytes" where
  "pack_write_entry bitstream bit_pos lobits cluster_type lo =
     (let shifted = push_bit (bit_pos mod 8) (ucast (entry_value lobits cluster_type lo) :: u64);
          byte = bit_pos div 8
      in fold (\<lambda>k bs. if byte + k < length bs
                      then bs[byte + k := bs ! (byte + k) OR ucast (drop_bit (k * 8) shifted AND 0xFF)] else bs)
           [0..<8] bitstream)"

record compact_entry =
  ce_cluster_type :: u8
  ce_lo :: u32
  ce_pcluster_blkaddr :: u32

primrec write_entries :: "compact_entry list \<Rightarrow> nat \<Rightarrow> nat \<Rightarrow> u32 \<Rightarrow> bytes \<Rightarrow> bytes" where
  "write_entries [] i eb lobits bitstream = bitstream"
| "write_entries (e # es) i eb lobits bitstream =
     write_entries es (Suc i) eb lobits
       (pack_write_entry bitstream (i * eb) lobits (ce_cluster_type e) (ce_lo e))"

definition pack_base :: "compact_entry list \<Rightarrow> u32" where
  "pack_base es = (case find (\<lambda>e. ce_cluster_type e \<noteq> LCLUSTER_TYPE_NONHEAD) es of
     Some e \<Rightarrow> if ce_pcluster_blkaddr e = 0 then 0 else ce_pcluster_blkaddr e - 1
   | None \<Rightarrow> 0)"

text \<open>The closure \<open>emit_pack\<close>: one pack written at the cursor into the index area.\<close>

definition emit_pack ::
    "u32 \<Rightarrow> compact_pack_shape \<Rightarrow> compact_entry list \<Rightarrow> bytes \<times> nat \<Rightarrow> (bytes \<times> nat) result" where
  "emit_pack lobits shape es st =
     (let (out, byte_cursor) = st;
          n = unat (pack_bytes shape); bitstream_len = n - 4
      in bindR (slice out byte_cursor (byte_cursor + n)) (\<lambda>pack_dst.
         let bitstream = write_entries es 0 (unat (encodebits shape)) lobits (take bitstream_len pack_dst)
         in bindR (put_at out byte_cursor (bitstream @ to_le32 (pack_base es))) (\<lambda>out.
              Ok (out, byte_cursor + n))))"

text \<open>The three region loops. Each round takes an entry or more, so as many rounds as entries are enough.\<close>

primrec emit_region ::
    "nat \<Rightarrow> u32 \<Rightarrow> compact_pack_shape \<Rightarrow> compact_entry list \<Rightarrow> nat \<Rightarrow> nat \<Rightarrow> bytes \<times> nat
       \<Rightarrow> (nat \<times> bytes \<times> nat) result" where
  "emit_region 0 lobits shape entries remaining entry_cursor st =
     (if 0 < remaining then Overrun else Ok (entry_cursor, st))"
| "emit_region (Suc rounds) lobits shape entries remaining entry_cursor st =
     (if 0 < remaining then
        let taken = min remaining (unat (vcnt shape)) in
        bindR (slice entries entry_cursor (entry_cursor + taken)) (\<lambda>es.
        bindR (emit_pack lobits shape es st) (\<lambda>st.
          emit_region rounds lobits shape entries (remaining - taken) (entry_cursor + taken) st))
      else Ok (entry_cursor, st))"

definition encode_compact2b_index :: "compact_geom \<Rightarrow> compact_entry list \<Rightarrow> u32 \<Rightarrow> bytes result" where
  "encode_compact2b_index geom entries lobits =
     (let n = unat (cg_initial geom); k = unat (cg_middle geom); t = unat (cg_tail geom) in
      bindR (emit_region n lobits COMPACT_4B entries n 0 (replicate (unat (compact_geom_bytes geom)) 0, 0)) (\<lambda>(c, st).
      bindR (if cg_use_2b_middle geom then emit_region k lobits COMPACT_2B entries k c st else Ok (c, st)) (\<lambda>(c, st).
      bindR (emit_region t lobits COMPACT_4B entries t c st) (\<lambda>(c, out, bc). Ok out))))"

section \<open>The trailer of a compressed inode\<close>

datatype compressed_algo = AlgoLz4 | AlgoLzma | AlgoDeflate

datatype compressed_index_format = Legacy | Compacted2B

record lcluster_index_entry =
  li_cluster_type :: u8
  li_clusterofs_or_delta0 :: u16
  li_pcluster_idx :: u32

text \<open>What the trailer takes from a planned compressed file.\<close>

record compressed_index =
  ci_algo :: compressed_algo
  ci_lclusterbits :: u8
  ci_entries :: "lcluster_index_entry list"
  ci_format :: compressed_index_format
  ci_inline :: "bytes option"

definition algo_id :: "compressed_algo \<Rightarrow> u8" where
  "algo_id a = (case a of AlgoLz4 \<Rightarrow> 0 | AlgoLzma \<Rightarrow> 1 | AlgoDeflate \<Rightarrow> 2)"

text \<open>The block address of an entry's pcluster, or its distance to it.\<close>

definition legacy_entry :: "u32 list \<Rightarrow> lcluster_index_entry \<Rightarrow> bytes result" where
  "legacy_entry addrs e =
     bindR (if li_cluster_type e = LCLUSTER_TYPE_NONHEAD then Ok (0, ucast (li_clusterofs_or_delta0 e))
            else bindR (idx addrs (unat (li_pcluster_idx e))) (\<lambda>blkaddr. Ok (li_clusterofs_or_delta0 e, blkaddr)))
       (\<lambda>(clusterofs, u). Ok (encode_lcluster_index (li_cluster_type e) clusterofs u))"

definition compact_entry_of :: "u32 list \<Rightarrow> lcluster_index_entry \<Rightarrow> compact_entry result" where
  "compact_entry_of addrs e =
     bindR (if li_cluster_type e = LCLUSTER_TYPE_NONHEAD then Ok (ucast (li_clusterofs_or_delta0 e), 0)
            else bindR (idx addrs (unat (li_pcluster_idx e))) (\<lambda>blkaddr. Ok (ucast (li_clusterofs_or_delta0 e), blkaddr)))
       (\<lambda>(lo, blkaddr). Ok \<lparr>ce_cluster_type = li_cluster_type e, ce_lo = lo, ce_pcluster_blkaddr = blkaddr\<rparr>)"

definition inline_bytes :: "compressed_index \<Rightarrow> bytes" where
  "inline_bytes ci = (case ci_inline ci of Some t \<Rightarrow> t | None \<Rightarrow> [])"

definition legacy_trailer :: "compressed_index \<Rightarrow> u32 list \<Rightarrow> bytes result" where
  "legacy_trailer ci addrs =
     (let has_inline = (ci_inline ci \<noteq> None);
          idata_size = (word_of_nat (length (inline_bytes ci)) :: u16);
          advise = (if has_inline then ADVISE_INLINE_PCLUSTER else 0);
          header = encode_zmap_header advise (ci_lclusterbits ci) (algo_id (ci_algo ci));
          header = (if has_inline then put header 0 (to_le32 (push_bit 16 (ucast idata_size))) else header)
      in bindR (mapR (legacy_entry addrs) (ci_entries ci)) (\<lambda>es. Ok (header @ concat es @ inline_bytes ci)))"

definition compact_trailer :: "compressed_index \<Rightarrow> u32 list \<Rightarrow> u64 \<Rightarrow> u8 \<Rightarrow> bytes result" where
  "compact_trailer ci addrs bend blkszbits =
     (let has_inline = (ci_inline ci \<noteq> None);
          idata_size = (word_of_nat (length (inline_bytes ci)) :: u16);
          ebase = next_multiple_of bend COMPACT_MAP_EBASE_ALIGN + Z_EROFS_COMPACT_MAP_HEADER_SIZE;
          totalidx = word_of_nat (length (ci_entries ci));
          geom = compute_compact_geom ebase totalidx True;
          lobits = max (ucast blkszbits + ucast (ci_lclusterbits ci)) 12;
          advise = (if cg_use_2b_middle geom then ADVISE_COMPACTED_2B else 0)
                   OR (if has_inline then ADVISE_INLINE_PCLUSTER else 0);
          header = to_le32 (push_bit 16 (ucast idata_size)) @ to_le16 advise
                   @ [algo_id (ci_algo ci) AND 0x0F, ci_lclusterbits ci AND 0x0F];
          pad_before_index = unat ((8 - bend mod 8) mod 8)
      in bindR (mapR (compact_entry_of addrs) (ci_entries ci)) (\<lambda>entries.
         bindR (encode_compact2b_index geom entries lobits) (\<lambda>index_bytes.
           Ok (header @ replicate pad_before_index 0 @ index_bytes @ inline_bytes ci))))"

definition encode_zmap_trailer :: "compressed_index \<Rightarrow> u32 list \<Rightarrow> u64 \<Rightarrow> u8 \<Rightarrow> bytes result" where
  "encode_zmap_trailer ci addrs bend blkszbits =
     (case ci_format ci of
        Legacy \<Rightarrow> legacy_trailer ci addrs
      | Compacted2B \<Rightarrow> compact_trailer ci addrs bend blkszbits)"

section \<open>Bits of a byte stream\<close>

definition sbit :: "bytes \<Rightarrow> nat \<Rightarrow> bool" where
  "sbit bs p = (p div 8 < length bs \<and> bit (bs ! (p div 8)) (p mod 8))"

lemma bit_le_nat: "bit (le_nat bs) p = sbit bs p"
proof (induction bs arbitrary: p)
  case (Cons b bs)
  let ?x = "le_nat (b # bs)"
  have b: "unat b < 256" using unsigned_less [of b, where 'a = nat] by simp
  show ?case
  proof (cases "p < 8")
    case True
    have "take_bit 8 ?x = unat b" using b by (simp add: take_bit_eq_mod)
    with True have "bit ?x p = bit (unat b) p" by (metis bit_take_bit_iff)
    with True show ?thesis by (simp add: sbit_def bit_unsigned_iff)
  next
    case False
    then obtain q where q: "p = 8 + q" using le_Suc_ex [of 8 p] by auto
    have "drop_bit 8 ?x = le_nat bs" using b by (simp add: drop_bit_eq_div)
    then have "bit ?x p = bit (le_nat bs) q" by (metis q bit_drop_bit_eq comp_apply)
    moreover have "(8 + q) div 8 = Suc (q div 8)" by simp
    ultimately show ?thesis using Cons q by (simp add: sbit_def del: div_add_self1)
  qed
qed (simp add: sbit_def)

lemma bit_le32: "length bs = 4 \<Longrightarrow> bit (le32 bs) p = sbit bs p"
proof -
  assume l: "length bs = 4"
  then have "unat (le32 bs) = le_nat bs" using le_nat_bound [of bs] by (simp add: le32_def unat_of_nat_small)
  then have "bit (unat (le32 bs)) p = sbit bs p" by (simp only: bit_le_nat)
  then show ?thesis by (simp add: bit_unsigned_iff)
qed

lemma sbit_shift: "sbit (drop k bs) p = sbit bs (8 * k + p)"
  by (cases "k \<le> length bs") (auto simp: sbit_def)

lemma sbit_window:
  "p < 32 \<Longrightarrow> sbit (map (\<lambda>j. if k + j < length bs then bs ! (k + j) else 0) [0..<4]) p = sbit bs (8 * k + p)"
  by (auto simp: sbit_def)

lemma decode_packed_bits:
  assumes "unat (g_lobits geom) \<le> 23" "unat (g_encodebits geom * i) = pos"
  obtains t lo where "decode_packed_entry geom bs i = Ok (t, lo)"
    and "\<And>q. bit lo q = (q < unat (g_lobits geom) \<and> sbit bs (pos + q))"
    and "\<And>q. bit t q = (q < 2 \<and> sbit bs (pos + unat (g_lobits geom) + q))"
proof -
  let ?n = "unat (g_lobits geom)"
  let ?w = "map (\<lambda>k. if pos div 8 + k < length bs then bs ! (pos div 8 + k) else 0) [0..<4]"
  define v where "v = drop_bit (pos mod 8) (le32 ?w)"
  have v: "bit v q = sbit bs (pos + q)" if "q < 25" for q
  proof -
    have "pos mod 8 + q < 32" using that mod_less_divisor [of 8 pos] by simp
    moreover have "8 * (pos div 8) + (pos mod 8 + q) = pos + q" by (metis add.assoc mult_div_mod_eq)
    ultimately show ?thesis
      using sbit_window [of "pos mod 8 + q" "pos div 8" bs] by (simp add: v_def bit_drop_bit_eq bit_le32)
  qed
  let ?lo = "v AND (push_bit ?n 1 - 1)" and ?t = "ucast (drop_bit ?n v AND 3) :: u8"
  have m: "push_bit ?n 1 - 1 = (mask ?n :: u32)" "2 ^ ?n - 1 = (mask ?n :: u32)" by (simp_all add: mask_eq_decr_exp)
  have lt: "\<not> 32 \<le> g_lobits geom" using assms(1) by (simp add: word_le_nat_alt)
  show thesis
  proof
    show "decode_packed_entry geom bs i = Ok (?t, ?lo)"
      using lt by (simp add: decode_packed_entry_def Let_def assms(2) v_def)
    show "bit ?lo q = (q < ?n \<and> sbit bs (pos + q))" for q
      using assms(1) by (auto simp: m bit_and_iff bit_mask_iff v)
    show "bit ?t q = (q < 2 \<and> sbit bs (pos + ?n + q))" for q
      using assms(1) by (auto simp: bit_ucast_iff and_masks bit_take_bit_iff bit_drop_bit_eq v add.assoc)
  qed
qed

lemma sbit_update:
  "j < length bs \<Longrightarrow> sbit (bs[j := bs ! j OR x]) p = (sbit bs p \<or> (p div 8 = j \<and> bit x (p mod 8)))"
  by (auto simp: sbit_def bit_or_iff nth_list_update)

lemma sbit_or_bytes:
  "sbit (fold (\<lambda>k bs. if b + k < length bs then bs[b + k := bs ! (b + k) OR f k] else bs) [0..<n] bs) p =
     (sbit bs p \<or> (p div 8 < length bs \<and> b \<le> p div 8 \<and> p div 8 < b + n \<and> bit (f (p div 8 - b)) (p mod 8)))
   \<and> length (fold (\<lambda>k bs. if b + k < length bs then bs[b + k := bs ! (b + k) OR f k] else bs) [0..<n] bs) = length bs"
proof (induction n)
  case (Suc n)
  let ?g = "\<lambda>k bs. if b + k < length bs then bs[b + k := bs ! (b + k) OR f k] else (bs :: bytes)"
  have s: "fold ?g [0..<Suc n] bs = ?g n (fold ?g [0..<n] bs)" by simp
  let ?r = "fold ?g [0..<n] bs"
  have len: "length ?r = length bs" and ih: "sbit ?r p = (sbit bs p \<or>
      (p div 8 < length bs \<and> b \<le> p div 8 \<and> p div 8 < b + n \<and> bit (f (p div 8 - b)) (p mod 8)))"
    using Suc by blast+
  have "sbit (?g n ?r) p = (sbit ?r p \<or> (b + n < length bs \<and> p div 8 = b + n \<and> bit (f n) (p mod 8)))"
    using sbit_update [of "b + n" ?r "f n" p] len by auto
  moreover have "length (?g n ?r) = length bs" using len by simp
  ultimately show ?case unfolding s ih by (auto simp: less_Suc_eq)
qed auto

lemma entry_value_bits:
  assumes "unat lobits < 30" "\<And>q. bit lo q \<Longrightarrow> q < unat lobits" "t \<le> 3"
  shows "bit (entry_value lobits t lo) q =
    (if q < unat lobits then bit lo q else q < unat lobits + 2 \<and> bit t (q - unat lobits))"
proof -
  have m: "push_bit (unat lobits) 1 - 1 = (mask (unat lobits) :: u32)" "2 ^ unat lobits - 1 = (mask (unat lobits) :: u32)"
    by (simp_all add: mask_eq_decr_exp)
  show ?thesis
    using assms(1,2)
    by (auto simp: entry_value_def Let_def m bit_or_iff bit_push_bit_iff bit_and_iff bit_mask_iff and_masks
        bit_take_bit_iff bit_ucast_iff)
qed

lemma byte_bit_offset:
  fixes p pos b c m n :: nat
  shows "pos \<le> p \<Longrightarrow> c \<le> b \<Longrightarrow> p = 8 * b + m \<Longrightarrow> pos = 8 * c + n \<Longrightarrow> (b - c) * 8 + m = p - pos + n"
  by (simp add: diff_mult_distrib)

lemma byte_bit_before:
  fixes p pos b c m n :: nat
  shows "p < pos \<Longrightarrow> p = 8 * b + m \<Longrightarrow> pos = 8 * c + n \<Longrightarrow> c \<le> b \<Longrightarrow> (b - c) * 8 + m < n"
  by (simp add: diff_mult_distrib)

lemma pack_write_bits:
  assumes "unat lobits < 30" "\<And>q. bit lo q \<Longrightarrow> q < unat lobits" "t \<le> 3"
  shows "length (pack_write_entry bs pos lobits t lo) = length bs"
    and "sbit (pack_write_entry bs pos lobits t lo) p =
      (sbit bs p \<or> (p div 8 < length bs \<and> pos \<le> p \<and> bit (entry_value lobits t lo) (p - pos)))"
proof -
  let ?v = "entry_value lobits t lo"
  let ?s = "push_bit (pos mod 8) (ucast ?v :: u64)"
  let ?f = "\<lambda>k. ucast (drop_bit (k * 8) ?s AND 0xFF) :: u8"
  have ff: "x AND 0xFF = take_bit 8 x" for x :: u64 by (simp add: take_bit_eq_mask mask_eq_exp_minus_1)
  have small: "bit ?v q \<Longrightarrow> q < 32" for q using bit_imp_le_length [of ?v q] by simp
  have f: "bit (?f k) q = (q < 8 \<and> pos mod 8 \<le> k * 8 + q \<and> bit ?v (k * 8 + q - pos mod 8))" for k q
    using small [of "k * 8 + q - pos mod 8"] mod_less_divisor [of 8 pos]
    by (auto simp: ff bit_ucast_iff bit_take_bit_iff bit_drop_bit_eq bit_push_bit_iff)
  note w = sbit_or_bytes [of "pos div 8" ?f 8 bs p]
  show "length (pack_write_entry bs pos lobits t lo) = length bs"
    using w by (simp add: pack_write_entry_def Let_def)
  have "(pos div 8 \<le> p div 8 \<and> p div 8 < pos div 8 + 8 \<and> bit (?f (p div 8 - pos div 8)) (p mod 8))
      = (pos \<le> p \<and> bit ?v (p - pos))"
  proof (cases "pos \<le> p")
    case True
    then have d: "pos div 8 \<le> p div 8" by (rule div_le_mono)
    have e: "(p div 8 - pos div 8) * 8 + p mod 8 = p - pos + pos mod 8"
      by (rule byte_bit_offset [OF True d]) simp_all
    have "p div 8 < pos div 8 + 8" if "bit ?v (p - pos)"
      using small [OF that] by linarith
    then show ?thesis using True d unfolding f e by auto
  next
    case False
    then have "p < pos" by simp
    have "(p div 8 - pos div 8) * 8 + p mod 8 < pos mod 8" if "pos div 8 \<le> p div 8"
      by (rule byte_bit_before [OF \<open>p < pos\<close> _ _ that]) simp_all
    with False show ?thesis unfolding f by (meson leD)
  qed
  then show "sbit (pack_write_entry bs pos lobits t lo) p =
      (sbit bs p \<or> (p div 8 < length bs \<and> pos \<le> p \<and> bit ?v (p - pos)))"
    using w by (simp add: pack_write_entry_def Let_def)
qed

section \<open>What a written entry decodes to\<close>

text \<open>An entry of \<open>lobits\<close> offset bits and two type bits.\<close>

definition entry_fits :: "u32 \<Rightarrow> compact_entry \<Rightarrow> bool" where
  "entry_fits lobits e = (ce_cluster_type e \<le> 3 \<and> unat (ce_lo e) < 2 ^ unat lobits)"

lemma entry_fits_bits: "entry_fits lobits e \<Longrightarrow> bit (ce_lo e) q \<Longrightarrow> q < unat lobits"
proof -
  assume "entry_fits lobits e" and b: "bit (ce_lo e) q"
  then have "take_bit (unat lobits) (ce_lo e) = ce_lo e"
    by (simp add: entry_fits_def word_unat_eq_iff unsigned_take_bit_eq take_bit_nat_eq_self)
  with b show ?thesis by (metis bit_take_bit_iff)
qed

lemma type_bits: "t \<le> 3 \<Longrightarrow> bit (t :: u8) q \<Longrightarrow> q < 2"
proof -
  assume "t \<le> 3" and b: "bit t q"
  then have "take_bit 2 t = t"
    by (simp add: word_unat_eq_iff unsigned_take_bit_eq take_bit_nat_eq_self word_le_nat_alt)
  with b show ?thesis by (metis bit_take_bit_iff)
qed

definition entry_bits :: "u32 \<Rightarrow> compact_entry \<Rightarrow> u32" where
  "entry_bits lobits e = entry_value lobits (ce_cluster_type e) (ce_lo e)"

lemma entry_bits_small:
  assumes "unat lobits < 30" "entry_fits lobits e"
  shows "bit (entry_bits lobits e) q \<Longrightarrow> q < unat lobits + 2"
  using entry_value_bits [OF assms(1) entry_fits_bits [OF assms(2)], where t = "ce_cluster_type e" and q = q] assms(2)
  by (auto simp: entry_bits_def entry_fits_def split: if_splits)

lemma write_entries_bits:
  assumes "unat lobits < 30" "unat lobits + 2 \<le> eb" "\<forall>e\<in>set es. entry_fits lobits e"
  shows "length (write_entries es i eb lobits bs) = length bs
    \<and> sbit (write_entries es i eb lobits bs) p = (sbit bs p \<or> (p div 8 < length bs
        \<and> (\<exists>k<length es. (i + k) * eb \<le> p \<and> bit (entry_bits lobits (es ! k)) (p - (i + k) * eb))))"
  using assms(3)
proof (induction es arbitrary: i bs)
  case (Cons e es)
  let ?b = "pack_write_entry bs (i * eb) lobits (ce_cluster_type e) (ce_lo e)"
  have e: "entry_fits lobits e" and es: "\<forall>e\<in>set es. entry_fits lobits e" using Cons.prems by auto
  have t: "ce_cluster_type e \<le> 3" using e by (simp add: entry_fits_def)
  have w: "length ?b = length bs" "sbit ?b p = (sbit bs p \<or> (p div 8 < length bs \<and> i * eb \<le> p
      \<and> bit (entry_bits lobits e) (p - i * eb)))"
    using pack_write_bits [OF assms(1) entry_fits_bits [OF e] t] by (simp_all add: entry_bits_def)
  note ih = Cons.IH [OF es, of "Suc i" ?b]
  have ex: "(\<exists>k<length (e # es). (i + k) * eb \<le> p \<and> bit (entry_bits lobits ((e # es) ! k)) (p - (i + k) * eb))
      = ((i * eb \<le> p \<and> bit (entry_bits lobits e) (p - i * eb))
         \<or> (\<exists>k<length es. (Suc i + k) * eb \<le> p \<and> bit (entry_bits lobits (es ! k)) (p - (Suc i + k) * eb)))"
    by (simp add: Ex_less_Suc2 del: mult_Suc)
  show ?case using ih unfolding ex write_entries.simps w by blast
qed simp

lemma decode_written:
  assumes "unat lobits \<le> 23" "unat lobits + 2 \<le> eb" "\<forall>e\<in>set es. entry_fits lobits e"
    and "k < length es" "(k + 1) * eb \<le> 8 * n" "g_lobits geom = lobits" "unat (g_encodebits geom * i) = k * eb"
  shows "decode_packed_entry geom (write_entries es 0 eb lobits (replicate n 0)) i
    = Ok (ce_cluster_type (es ! k), ce_lo (es ! k))"
proof -
  let ?bs = "write_entries es 0 eb lobits (replicate n 0)"
  have lb: "unat lobits < 30" using assms(1) by simp
  have e: "entry_fits lobits (es ! k)" using assms(3,4) by simp
  have at: "sbit ?bs (k * eb + q) = bit (entry_bits lobits (es ! k)) q" if q: "q < eb" for q
  proof -
    have len: "(k * eb + q) div 8 < n" using assms(5) q by (simp add: div_less_iff_less_mult)
    have "(\<exists>j<length es. j * eb \<le> k * eb + q \<and> bit (entry_bits lobits (es ! j)) (k * eb + q - j * eb))
        = bit (entry_bits lobits (es ! k)) q" (is "?l = ?r")
    proof
      assume ?l
      then obtain j where j: "j < length es" "j * eb \<le> k * eb + q"
        "bit (entry_bits lobits (es ! j)) (k * eb + q - j * eb)" by blast
      have "entry_fits lobits (es ! j)" using assms(3) j(1) by simp
      then have lt: "k * eb + q - j * eb < eb" using entry_bits_small [OF lb _ j(3)] assms(2) by simp
      have "j = k"
      proof (rule antisym)
        have "j * eb < Suc k * eb" using j(2) q by simp
        then show "j \<le> k" unfolding mult_less_cancel2 by simp
        have "k * eb < Suc j * eb" using lt j(2) by simp
        then show "k \<le> j" unfolding mult_less_cancel2 by simp
      qed
      with j(3) show ?r by simp
    next
      assume ?r
      then show ?l using assms(4) by (intro exI [of _ k]) simp
    qed
    moreover have "\<not> sbit (replicate n 0) (k * eb + q)" using len by (simp add: sbit_def)
    ultimately show ?thesis
      using write_entries_bits [OF lb assms(2,3), of 0 "replicate n 0" "k * eb + q"] len by simp
  qed
  have v: "bit (entry_bits lobits (es ! k)) q =
      (if q < unat lobits then bit (ce_lo (es ! k)) q else q < unat lobits + 2 \<and> bit (ce_cluster_type (es ! k)) (q - unat lobits))" for q
    using entry_value_bits [OF lb entry_fits_bits [OF e], where t = "ce_cluster_type (es ! k)" and q = q] e
    by (simp add: entry_bits_def entry_fits_def)
  have "ce_cluster_type (es ! k) \<le> 3" using e by (simp add: entry_fits_def)
  then have ty: "bit (ce_cluster_type (es ! k)) q \<Longrightarrow> q < 2" for q by (rule type_bits)
  obtain t lo where d: "decode_packed_entry geom ?bs i = Ok (t, lo)"
    and lo: "\<And>q. bit lo q = (q < unat lobits \<and> sbit ?bs (k * eb + q))"
    and t: "\<And>q. bit t q = (q < 2 \<and> sbit ?bs (k * eb + unat lobits + q))"
    by (rule decode_packed_bits [of geom i "k * eb" ?bs]) (use assms in auto)
  have "bit lo q = bit (ce_lo (es ! k)) q" for q
    using at [of q] v [of q] assms(2) entry_fits_bits [OF e, of q] unfolding lo by auto
  moreover have "bit t q = bit (ce_cluster_type (es ! k)) q" for q
    using at [of "unat lobits + q"] v [of "unat lobits + q"] assms(2) ty [of q] unfolding t add.assoc by auto
  ultimately have "lo = ce_lo (es ! k)" "t = ce_cluster_type (es ! k)" by (auto intro: bit_eqI)
  with d show ?thesis by simp
qed

section \<open>One pack\<close>

definition is_nonhead :: "compact_entry \<Rightarrow> bool" where
  "is_nonhead e = (ce_cluster_type e = LCLUSTER_TYPE_NONHEAD)"

definition heads :: "compact_entry list \<Rightarrow> nat" where
  "heads es = length (filter (\<lambda>e. \<not> is_nonhead e) es)"

lemma heads_simps [simp]:
  "heads [] = 0" "heads (e # es) = (if is_nonhead e then 0 else 1) + heads es" "heads (xs @ ys) = heads xs + heads ys"
  by (simp_all add: heads_def)

lemma heads_take_Suc: "k < length es \<Longrightarrow> heads (take (Suc k) es) = heads (take k es) + (if is_nonhead (es ! k) then 0 else 1)"
  by (simp add: take_Suc_conv_app_nth)

lemma heads_le: "heads es \<le> length es"
  by (simp add: heads_def)

text \<open>A NONHEAD entry carries its distance to the head it belongs to, which the one before it settles.\<close>

definition chained :: "compact_entry list \<Rightarrow> nat \<Rightarrow> bool" where
  "chained es k = (is_nonhead (es ! k) \<longrightarrow>
     0 < unat (ce_lo (es ! k)) \<and> unat (ce_lo (es ! k)) < 0x800
     \<and> (0 < k \<longrightarrow> unat (ce_lo (es ! k)) = (if is_nonhead (es ! (k - 1)) then Suc (unat (ce_lo (es ! (k - 1)))) else 1)))"

lemma chained_back:
  assumes "\<And>i. i \<le> k \<Longrightarrow> chained es i" "is_nonhead (es ! k)"
  defines "d \<equiv> unat (ce_lo (es ! k))"
  shows "j < d \<Longrightarrow> j \<le> k \<Longrightarrow> is_nonhead (es ! (k - j)) \<and> unat (ce_lo (es ! (k - j))) = d - j"
proof (induction j)
  case (Suc j)
  then have ih: "is_nonhead (es ! (k - j))" "unat (ce_lo (es ! (k - j))) = d - j" by auto
  have "chained es (k - j)" "0 < k - j" "k - j - 1 = k - Suc j" using assms(1) Suc.prems by auto
  with ih have "d - j = (if is_nonhead (es ! (k - Suc j)) then Suc (unat (ce_lo (es ! (k - Suc j)))) else 1)"
    unfolding chained_def by metis
  then show ?case using Suc.prems by (auto split: if_splits)
qed (use assms in simp)

lemma chained_head:
  assumes "\<And>i. i \<le> k \<Longrightarrow> chained es i" "is_nonhead (es ! k)" "unat (ce_lo (es ! k)) \<le> k"
  shows "\<not> is_nonhead (es ! (k - unat (ce_lo (es ! k))))"
proof
  let ?d = "unat (ce_lo (es ! k))"
  assume h: "is_nonhead (es ! (k - ?d))"
  have d: "0 < ?d" using assms(1) [of k] assms(2) by (simp add: chained_def)
  define i where "i = k - (?d - 1)"
  have i: "is_nonhead (es ! i)" "unat (ce_lo (es ! i)) = 1" "0 < i" "i - 1 = k - ?d" "i \<le> k"
    using chained_back [OF assms(1,2), of "?d - 1"] d assms(3) by (auto simp: i_def)
  have "0 < unat (ce_lo (es ! (k - ?d)))" using assms(1) [of "k - ?d"] h by (simp add: chained_def)
  then show False using assms(1) [OF i(5)] i h by (simp add: chained_def)
qed

text \<open>The heads have consecutive block addresses; only the last may have none.\<close>

definition in_order :: "nat \<Rightarrow> compact_entry list \<Rightarrow> bool" where
  "in_order start es = (\<forall>k<length es. \<not> is_nonhead (es ! k) \<longrightarrow>
     (unat (ce_pcluster_blkaddr (es ! k)) = start + heads (take k es)
      \<or> (ce_pcluster_blkaddr (es ! k) = 0 \<and> (\<forall>j. k < j \<longrightarrow> j < length es \<longrightarrow> is_nonhead (es ! j)))))"

lemma heads_behind:
  assumes "k < length es" "\<forall>j<d. j \<le> k \<longrightarrow> is_nonhead (es ! (k - j))"
  shows "heads (take (Suc k) es) = heads (take (Suc k - d) es)"
  using assms(2)
proof (induction d)
  case (Suc d)
  then have ih: "heads (take (Suc k) es) = heads (take (Suc k - d) es)" by simp
  show ?case
  proof (cases "d \<le> k")
    case True
    then have s: "Suc k - d = Suc (k - d)" "Suc k - Suc d = k - d" by auto
    have "is_nonhead (es ! (k - d))" using Suc.prems True by simp
    then show ?thesis using ih assms(1) unfolding s by (simp add: heads_take_Suc)
  qed (use ih in simp)
qed simp

lemma no_marker: "unat (lo :: u32) < 0x800 \<Longrightarrow> lo AND LI_D0_CBLKCNT = 0"
proof -
  assume l: "unat lo < 0x800"
  have "take_bit 11 lo = lo" by (simp add: word_unat_eq_iff unsigned_take_bit_eq take_bit_nat_eq_self l)
  moreover have "take_bit n lo AND push_bit n 1 = 0" for n
    by (intro bit_eqI) (auto simp: bit_and_iff bit_take_bit_iff bit_exp_iff)
  from this [of 11] have "take_bit 11 lo AND 0x800 = 0" by simp
  ultimately show ?thesis by (simp add: LI_D0_CBLKCNT_def)
qed

lemma sint_small: "unat (lo :: u32) < 0x800 \<Longrightarrow> sint lo = int (unat lo)"
proof -
  assume "unat lo < 0x800"
  moreover have "uint lo = int (unat lo)" by simp
  ultimately have "uint lo < 0x800" by linarith
  moreover have "0 \<le> uint lo" by simp
  ultimately have "signed_take_bit 31 (uint lo) = uint lo" by (intro signed_take_bit_int_eq_self) (simp_all add: order_trans [of _ 0])
  then show ?thesis by (simp add: sint_uint)
qed

lemma count_simple_heads:
  assumes dec: "\<And>k. k < length es \<Longrightarrow> decode_packed_entry geom bs (word_of_nat k) = Ok (ce_cluster_type (es ! k), ce_lo (es ! k))"
    and chain: "\<And>k. k < length es \<Longrightarrow> chained es k"
  shows "k \<le> length es \<Longrightarrow> unat nblk + k < 2 ^ 32 \<Longrightarrow>
    count_simple_from geom bs (int k) nblk = Ok (nblk + word_of_nat (heads (take k es)))"
proof (induction k arbitrary: nblk rule: less_induct)
  case (less k)
  show ?case
  proof (cases k)
    case 0
    then show ?thesis by (subst count_simple_from.simps) simp
  next
    case (Suc m)
    have m: "m < length es" using less.prems Suc by simp
    have add: "checked_add nblk 1 = Some (nblk + 1)" using less.prems Suc by (simp add: checked_add_def)
    have n1: "unat (nblk + 1) = unat nblk + 1" using less.prems Suc by (simp add: unat_add_no_wrap)
    have d: "decode_packed_entry geom bs (word_of_int (int k - 1)) = Ok (ce_cluster_type (es ! m), ce_lo (es ! m))"
      using dec [OF m] Suc by simp
    show ?thesis
    proof (cases "is_nonhead (es ! m)")
      case False
      have "count_simple_from geom bs (int m) (nblk + 1) = Ok (nblk + 1 + word_of_nat (heads (take m es)))"
        using less.IH [of m "nblk + 1"] less.prems Suc n1 by simp
      then show ?thesis using False d add Suc m
        by (subst count_simple_from.simps) (simp add: is_nonhead_def heads_take_Suc)
    next
      case True
      let ?d = "unat (ce_lo (es ! m))"
      have c: "0 < ?d" "?d < 0x800" "\<forall>j<?d. j \<le> m \<longrightarrow> is_nonhead (es ! (m - j))" "?d \<le> m \<Longrightarrow> \<not> is_nonhead (es ! (m - ?d))"
      proof -
        have ch: "chained es i" if "i \<le> m" for i using that chain m by simp
        show "0 < ?d" "?d < 0x800" using chain [OF m] True by (simp_all add: chained_def)
        show "\<forall>j<?d. j \<le> m \<longrightarrow> is_nonhead (es ! (m - j))" using chained_back [OF ch True] by blast
        show "?d \<le> m \<Longrightarrow> \<not> is_nonhead (es ! (m - ?d))" by (rule chained_head [OF ch True])
      qed
      note nm = no_marker [OF c(2)] and si = sint_small [OF c(2)]
      have ty: "ce_cluster_type (es ! m) = LCLUSTER_TYPE_NONHEAD" using True by (simp add: is_nonhead_def)
      have h: "heads (take k es) = heads (take (Suc m - ?d) es)" using heads_behind [OF m c(3)] Suc by simp
      show ?thesis
      proof (cases "?d \<le> m")
        case le: True
        have i: "int m - sint (ce_lo (es ! m)) = int (m - ?d)" using si le by simp
        have "count_simple_from geom bs (int (m - ?d)) (nblk + 1) = Ok (nblk + 1 + word_of_nat (heads (take (m - ?d) es)))"
          using less.IH [of "m - ?d" "nblk + 1"] less.prems Suc n1 by simp
        moreover have "heads (take (Suc m - ?d) es) = Suc (heads (take (m - ?d) es))"
          using c(4) [OF le] le m by (simp add: Suc_diff_le heads_take_Suc)
        ultimately show ?thesis using d add Suc nm ty h
          by (subst count_simple_from.simps) (simp add: i Let_def del: of_nat_diff)
      next
        case False
        have i: "int m - sint (ce_lo (es ! m)) < 0" using si False by linarith
        then have stop: "count_simple_from geom bs (int m - sint (ce_lo (es ! m))) nblk = Ok nblk"
          by (subst count_simple_from.simps) simp
        have "heads (take k es) = 0" using h False by simp
        then show ?thesis using d Suc nm ty i stop
          by (subst count_simple_from.simps) (simp add: Let_def)
      qed
    qed
  qed
qed

definition pack_of :: "u32 \<Rightarrow> compact_pack_shape \<Rightarrow> compact_entry list \<Rightarrow> bytes" where
  "pack_of lobits shape es =
     write_entries es 0 (unat (encodebits shape)) lobits (replicate (unat (pack_bytes shape) - 4) 0)
     @ to_le32 (pack_base es)"

lemma length_write_entries [simp]: "length (write_entries es i eb lobits bs) = length bs"
proof (induction es arbitrary: i bs)
  case (Cons e es)
  have "length (pack_write_entry bs pos lobits t lo) = length bs" for bs pos t lo
    unfolding pack_write_entry_def Let_def using sbit_or_bytes [THEN conjunct2] by simp
  then show ?case using Cons by simp
qed simp

definition pack_shape :: "compact_pack_shape \<Rightarrow> bool" where
  "pack_shape shape = (shape = COMPACT_4B \<or> shape = COMPACT_2B)"

text \<open>What an entry is read back as; the address of a head that has none is whatever the pack gives.\<close>

definition entry_read :: "compact_entry \<Rightarrow> lcluster_entry" where
  "entry_read e =
     \<lparr>lc_cluster_type = ce_cluster_type e, lc_advise_raw = ucast (ce_cluster_type e),
      lc_clusterofs = (if is_nonhead e then 0 else ucast (ce_lo e)),
      lc_u_raw = (if is_nonhead e then ce_lo e else ce_pcluster_blkaddr e), lc_cblkcnt = None\<rparr>"

definition reads_as :: "compact_entry \<Rightarrow> lcluster_entry result \<Rightarrow> bool" where
  "reads_as e r = (\<exists>u. r = Ok (entry_read e \<lparr>lc_u_raw := u\<rparr>)
     \<and> (u = lc_u_raw (entry_read e) \<or> (\<not> is_nonhead e \<and> ce_pcluster_blkaddr e = 0)))"

definition pack_ok :: "u32 \<Rightarrow> compact_pack_shape \<Rightarrow> nat \<Rightarrow> compact_entry list \<Rightarrow> bool" where
  "pack_ok lobits shape start es =
     (pack_shape shape \<and> unat lobits \<le> 23 \<and> unat lobits + 2 \<le> unat (encodebits shape)
      \<and> length es \<le> unat (vcnt shape) \<and> (\<forall>e\<in>set es. entry_fits lobits e) \<and> (\<forall>k<length es. chained es k)
      \<and> in_order start es \<and> 0 < start \<and> start + length es \<le> 2 ^ 32)"

lemma heads_none: "\<forall>j<i. is_nonhead (es ! j) \<Longrightarrow> i \<le> length es \<Longrightarrow> heads (take i es) = 0"
  by (induction i) (simp_all add: heads_take_Suc)

lemma pack_base_cases:
  assumes "in_order start es" "0 < start"
  shows "unat (pack_base es) + 1 = start
    \<or> (pack_base es = 0 \<and> (\<forall>k<length es. \<not> is_nonhead (es ! k) \<longrightarrow> ce_pcluster_blkaddr (es ! k) = 0))"
proof (cases "find (\<lambda>e. ce_cluster_type e \<noteq> LCLUSTER_TYPE_NONHEAD) es")
  case None
  then have "\<forall>k<length es. is_nonhead (es ! k)" by (auto simp: find_None_iff is_nonhead_def)
  then show ?thesis by (simp add: pack_base_def None)
next
  case (Some e)
  then obtain i where i: "i < length es" "e = es ! i" "\<not> is_nonhead (es ! i)" "\<forall>j<i. is_nonhead (es ! j)"
    by (auto simp: find_Some_iff is_nonhead_def)
  have h: "heads (take i es) = 0" using i by (intro heads_none) simp_all
  show ?thesis
  proof (cases "ce_pcluster_blkaddr e = 0")
    case False
    then have st: "unat (ce_pcluster_blkaddr e) = start" using assms(1) i h unfolding in_order_def by auto
    have "unat (ce_pcluster_blkaddr e) \<noteq> 0" using False by (simp add: unat_eq_zero)
    then have "unat (ce_pcluster_blkaddr e - 1) + 1 = unat (ce_pcluster_blkaddr e)"
      by (subst unat_sub_no_wrap) (simp_all add: word_le_nat_alt)
    then show ?thesis using Some False st by (simp add: pack_base_def)
  next
    case True
    then have last: "\<forall>j. i < j \<longrightarrow> j < length es \<longrightarrow> is_nonhead (es ! j)"
      using assms(1) i(1,2,3) h assms(2) unfolding in_order_def
      by (metis add_is_0 less_numeral_extra(3) unat_eq_zero)
    have "ce_pcluster_blkaddr (es ! k) = 0" if "k < length es" "\<not> is_nonhead (es ! k)" for k
    proof (cases k i rule: linorder_cases)
      case less
      then show ?thesis using i(4) that(2) by blast
    next
      case equal
      then show ?thesis using True i(2) by simp
    next
      case greater
      then show ?thesis using last that by blast
    qed
    then show ?thesis using Some True by (simp add: pack_base_def)
  qed
qed

lemma byte_le_3: "(t :: u8) \<le> 3 \<Longrightarrow> t = 0 \<or> t = 1 \<or> t = 2 \<or> t = 3"
proof -
  assume "t \<le> 3"
  then have "unat t \<le> 3" by (simp add: word_le_nat_alt)
  then have "unat t = 0 \<or> unat t = 1 \<or> unat t = 2 \<or> unat t = 3" by linarith
  then show ?thesis by (simp add: word_unat_eq_iff)
qed

lemma low16: "ucast (x AND 0xFFFF) = (ucast (x :: u32) :: u16)"
  by (intro bit_eqI) (auto simp: and_masks bit_ucast_iff bit_take_bit_iff)

lemma unat_ucast16: "unat (x :: u32) < 0x800 \<Longrightarrow> unat (ucast x :: u16) = unat x"
  by (simp add: unsigned_ucast_eq take_bit_nat_eq_self)

text \<open>Reading an entry of a pack that lies on the device gives the entry it was written from.\<close>

lemma read_pack_entry:
  assumes ok: "pack_ok (g_lobits (pl_geom loc)) shape start es"
    and zm: "\<not> zm_big_pcluster zm" "locate_compact_pack zm i = Ok loc"
    and g: "pl_geom loc = from_shape shape (zm_z_lclusterbits zm)"
    and dev: "read_at dev (pl_pack_offset loc) (unat (pack_bytes shape)) = Ok (pack_of (g_lobits (pl_geom loc)) shape es)"
    and k: "k < length es" "pl_intra_pack loc = word_of_nat k"
  shows "reads_as (es ! k) (read_lcluster_compact zm dev i)"
proof -
  let ?e = "es ! k" and ?lob = "g_lobits (pl_geom loc)"
  let ?bs = "write_entries es 0 (unat (encodebits shape)) ?lob (replicate (unat (pack_bytes shape) - 4) 0)"
  have len: "length es \<le> 16" using ok by (auto simp: pack_ok_def pack_shape_def COMPACT_4B_def COMPACT_2B_def)
  have ub: "unat (encodebits shape) * length es \<le> 8 * (unat (pack_bytes shape) - 4)"
    and pb: "unat (pack_bytes shape) \<le> 32" "4 \<le> unat (pack_bytes shape)" "unat (pack_bytes shape - 4) = unat (pack_bytes shape) - 4"
    and eb: "unat (encodebits shape) \<le> 16" and vc: "1 < vcnt shape" "unat (vcnt shape) \<le> 16"
    using ok by (auto simp: pack_ok_def pack_shape_def COMPACT_4B_def COMPACT_2B_def)
  have dec: "decode_packed_entry (pl_geom loc) ?bs (word_of_nat j) = Ok (ce_cluster_type (es ! j), ce_lo (es ! j))"
    if "j < length es" for j
  proof (rule decode_written)
    have "unat (encodebits shape) * j \<le> 16 * 16" using eb len that by (intro mult_le_mono) simp_all
    moreover have "unat (word_of_nat j :: u32) = j" using len that by (simp add: unat_of_nat)
    ultimately show "unat (g_encodebits (pl_geom loc) * word_of_nat j) = j * unat (encodebits shape)"
      using g by (simp add: from_shape_def unat_mult_no_wrap mult.commute)
    have "(j + 1) * unat (encodebits shape) \<le> length es * unat (encodebits shape)" using that by (intro mult_le_mono1) simp
    then show "(j + 1) * unat (encodebits shape) \<le> 8 * (unat (pack_bytes shape) - 4)"
      using ub by (simp only: mult.commute)
  qed (use ok that in \<open>auto simp: pack_ok_def\<close>)
  let ?n = "unat (pack_bytes shape)"
  let ?buf = "pack_of ?lob shape es @ replicate (32 - ?n) 0"
  have gb: "g_pack_bytes (pl_geom loc) = pack_bytes shape" "g_vcnt (pl_geom loc) = vcnt shape"
    using g by (simp_all add: from_shape_def)
  have lp: "length (pack_of ?lob shape es) = ?n" using pb(2) by (simp add: pack_of_def)
  have "u32_at ?buf (?n - 4) = Ok (pack_base es)" using pb(2) by (simp add: pack_of_def)
  then have rp: "read_pack dev loc = Ok (?buf, pack_base es)"
    using dev pb(1) lp by (simp add: read_pack_def gb Let_def)
  have sl: "slice ?buf 0 (?n - 4) = Ok ?bs" using pb(2) lp by (simp add: pack_of_def)
  have fits: "entry_fits ?lob ?e" using ok k(1) by (simp add: pack_ok_def)
  have ui: "unat (word_of_nat k :: u32) = k" using k(1) len by (simp add: unat_of_nat)
  show ?thesis
  proof (cases "is_nonhead ?e")
    case False
    let ?h = "heads (take k es)"
    have hd: "is_head_or_plain (ce_cluster_type ?e)"
      using False fits byte_le_3 [of "ce_cluster_type ?e"]
      unfolding is_nonhead_def entry_fits_def is_head_or_plain_def zmap_consts by auto
    have "?h \<le> k" using heads_le [of "take k es"] by simp
    have "sint (word_of_nat k :: u32) = int k" using ui k(1) len by (subst sint_small) simp_all
    moreover have "count_simple_from (pl_geom loc) ?bs (int k) 1 = Ok (1 + word_of_nat ?h)"
      using k(1) len ok by (intro count_simple_heads dec) (auto simp: pack_ok_def)
    ultimately have c: "compact_count_pre_head_or_plain (pl_geom loc) ?bs (word_of_nat k) False = Ok (1 + word_of_nat ?h)"
      by (simp add: compact_count_pre_head_or_plain_def compact_count_simple_def)
    have uh: "unat (1 + word_of_nat ?h :: u32) = 1 + ?h"
      using \<open>?h \<le> k\<close> k(1) len by (subst unat_add_no_wrap) (simp_all add: unat_of_nat)
    have base: "unat (pack_base es) + 1 = start \<or> pack_base es = 0 \<and> ce_pcluster_blkaddr ?e = 0"
      using pack_base_cases [of start es] ok k(1) False by (auto simp: pack_ok_def)
    have fit: "unat (pack_base es) + unat (1 + word_of_nat ?h :: u32) < 2 ^ 32"
      using base uh \<open>?h \<le> k\<close> k(1) len ok by (auto simp: pack_ok_def)
    define u where "u = pack_base es + (1 + word_of_nat ?h)"
    have add: "checked_add (pack_base es) (1 + word_of_nat ?h) = Some u" using fit by (simp add: checked_add_def u_def)
    have "u = ce_pcluster_blkaddr ?e" if nz: "ce_pcluster_blkaddr ?e \<noteq> 0"
      using ok k(1) False nz base uh fit unfolding u_def pack_ok_def in_order_def
      by (auto simp: word_unat_eq_iff unat_add_no_wrap)
    moreover have "read_lcluster_compact zm dev i = Ok (entry_read ?e \<lparr>lc_u_raw := u\<rparr>)"
      using rp sl dec [OF k(1)] zm hd False c pb(3) add
      by (simp add: read_lcluster_compact_def gb k(2) entry_read_def)
    ultimately show ?thesis using False by (auto simp: reads_as_def entry_read_def)
  next
    case True
    let ?d = "unat (ce_lo ?e)"
    have ch: "chained es j" if "j < length es" for j using ok that by (simp add: pack_ok_def)
    have d: "0 < ?d" "?d < 0x800" using ch [OF k(1)] True by (simp_all add: chained_def)
    have ty: "ce_cluster_type ?e = LCLUSTER_TYPE_NONHEAD" using True by (simp add: is_nonhead_def)
    have nh: "\<not> is_head_or_plain LCLUSTER_TYPE_NONHEAD" by (simp add: is_head_or_plain_def zmap_consts)
    have "compact_nonhead_delta0 (pl_geom loc) ?bs (word_of_nat k) (ce_lo ?e) = Ok (ucast (ce_lo ?e))"
    proof (cases "word_of_nat k + 1 \<noteq> vcnt shape")
      case True
      then show ?thesis by (simp add: compact_nonhead_delta0_def gb low16)
    next
      case False
      then have "k \<noteq> 0" using vc(1) by (intro notI) simp
      then obtain m where m: "k = Suc m" by (cases k) auto
      let ?p = "es ! m"
      have w: "(word_of_nat k :: u32) \<noteq> 0" "word_of_nat k - 1 = (word_of_nat m :: u32)" using m ui by (auto simp: unat_eq_zero)
      have dp: "decode_packed_entry (pl_geom loc) ?bs (word_of_nat m) = Ok (ce_cluster_type ?p, ce_lo ?p)"
        using dec [of m] m k(1) by simp
      have dd: "?d = (if is_nonhead ?p then Suc (unat (ce_lo ?p)) else 1)"
        using ch [OF k(1)] \<open>is_nonhead ?e\<close> m by (simp add: chained_def)
      show ?thesis
      proof (cases "is_nonhead ?p")
        case True
        have pd: "unat (ce_lo ?p) < 0x800" using ch [of m] True k(1) m by (simp add: chained_def)
        have add: "checked_add (ce_lo ?p) 1 = Some (ce_lo ?p + 1)" using pd by (simp add: checked_add_def)
        have "ce_lo ?e = ce_lo ?p + 1" using dd True pd by (simp add: word_unat_eq_iff unat_add_no_wrap)
        then show ?thesis using False w dp True no_marker [OF pd] add
          by (simp add: compact_nonhead_delta0_def gb is_nonhead_def low16)
      next
        case nh: False
        then have "ce_lo ?e = 1" using dd by (simp add: word_unat_eq_iff)
        then show ?thesis using False w dp nh
          by (simp add: compact_nonhead_delta0_def gb is_nonhead_def low16 checked_add_def)
      qed
    qed
    moreover have "ucast (ucast (ce_lo ?e) :: u16) = ce_lo ?e"
      using d(2) by (simp add: word_unat_eq_iff unat_ucast_up unat_ucast16)
    ultimately show ?thesis
      using rp sl dec [OF k(1)] zm nh ty True pb(3)
      by (simp add: read_lcluster_compact_def gb k(2) entry_read_def reads_as_def)
  qed
qed

section \<open>Regions of packs\<close>

definition packs_needed :: "compact_pack_shape \<Rightarrow> nat \<Rightarrow> nat" where
  "packs_needed shape r = (r + (unat (vcnt shape) - 1)) div unat (vcnt shape)"

primrec region_of :: "u32 \<Rightarrow> compact_pack_shape \<Rightarrow> nat \<Rightarrow> compact_entry list \<Rightarrow> bytes" where
  "region_of lobits shape 0 es = []"
| "region_of lobits shape (Suc q) es =
     pack_of lobits shape (take (unat (vcnt shape)) es) @ region_of lobits shape q (drop (unat (vcnt shape)) es)"

lemma shape_sizes:
  "pack_shape shape \<Longrightarrow> 0 < unat (vcnt shape) \<and> 4 \<le> unat (pack_bytes shape) \<and> unat (pack_bytes shape) \<le> 32"
  by (auto simp: pack_shape_def COMPACT_4B_def COMPACT_2B_def)

lemma packs_needed_0: "pack_shape shape \<Longrightarrow> packs_needed shape 0 = 0"
  using shape_sizes [of shape] by (simp add: packs_needed_def)

lemma packs_needed_step:
  assumes "pack_shape shape" "0 < r"
  shows "packs_needed shape r = Suc (packs_needed shape (r - min r (unat (vcnt shape))))"
proof -
  let ?v = "unat (vcnt shape)"
  have v: "0 < ?v" using shape_sizes [OF assms(1)] by simp
  show ?thesis
  proof (cases "r \<le> ?v")
    case True
    have "(r + (?v - 1)) div ?v = 1" using True v assms(2) by (intro div_nat_eqI) auto
    then show ?thesis using True v by (simp add: packs_needed_def min_def)
  next
    case False
    define k where "k = r - ?v + (?v - 1)"
    have "r + (?v - 1) = ?v + k" "r - min r ?v + (?v - 1) = k" using False v by (simp_all add: k_def)
    moreover have "(?v + k) div ?v = Suc (k div ?v)" using v by (subst div_add_self1) simp_all
    ultimately show ?thesis by (simp only: packs_needed_def)
  qed
qed

lemma length_pack_of: "pack_shape shape \<Longrightarrow> length (pack_of lobits shape es) = unat (pack_bytes shape)"
  using shape_sizes [of shape] by (simp add: pack_of_def)

lemma length_region_of: "pack_shape shape \<Longrightarrow> length (region_of lobits shape q es) = q * unat (pack_bytes shape)"
  by (induction q arbitrary: es) (simp_all add: length_pack_of)

lemma region_pack:
  "pack_shape shape \<Longrightarrow> j < q \<Longrightarrow>
     take (unat (pack_bytes shape)) (drop (j * unat (pack_bytes shape)) (region_of lobits shape q es @ rest))
       = pack_of lobits shape (take (unat (vcnt shape)) (drop (j * unat (vcnt shape)) es))"
proof (induction j arbitrary: q es)
  case 0
  then show ?case by (cases q) (simp_all add: length_pack_of)
next
  case (Suc j)
  then obtain r where q: "q = Suc r" by (cases q) auto
  have e: "drop (Suc j * unat (pack_bytes shape)) (region_of lobits shape q es @ rest)
      = drop (j * unat (pack_bytes shape)) (region_of lobits shape r (drop (unat (vcnt shape)) es) @ rest)"
    using Suc.prems(1) by (simp add: q length_pack_of)
  show ?case unfolding e using Suc q by (simp add: add.commute)
qed

lemma emit_pack_at:
  assumes "pack_shape shape" "unat (pack_bytes shape) \<le> m"
  shows "emit_pack lobits shape es (xs @ replicate m 0, length xs) =
    Ok (xs @ pack_of lobits shape es @ replicate (m - unat (pack_bytes shape)) 0, length xs + unat (pack_bytes shape))"
proof -
  let ?n = "unat (pack_bytes shape)"
  note n = shape_sizes [OF assms(1)]
  have "put (xs @ replicate m 0) (length xs) (pack_of lobits shape es) = xs @ pack_of lobits shape es @ replicate (m - ?n) 0"
    using assms by (simp add: put_def length_pack_of)
  then show ?thesis using n assms length_pack_of [OF assms(1), of lobits es]
    by (simp add: emit_pack_def pack_of_def Let_def min_def)
qed

lemma emit_region_gives:
  assumes "pack_shape shape"
  shows "remaining \<le> rounds \<Longrightarrow> c + remaining \<le> length entries \<Longrightarrow> packs_needed shape remaining * unat (pack_bytes shape) \<le> m \<Longrightarrow>
    emit_region rounds lobits shape entries remaining c (xs @ replicate m 0, length xs) =
      Ok (c + remaining,
          xs @ region_of lobits shape (packs_needed shape remaining) (take remaining (drop c entries))
             @ replicate (m - packs_needed shape remaining * unat (pack_bytes shape)) 0,
          length xs + packs_needed shape remaining * unat (pack_bytes shape))"
proof (induction rounds arbitrary: remaining c xs m)
  case 0
  then show ?case using assms by (simp add: packs_needed_0)
next
  case (Suc rounds)
  let ?v = "unat (vcnt shape)" and ?n = "unat (pack_bytes shape)"
  show ?case
  proof (cases "0 < remaining")
    case True
    let ?t = "min remaining ?v"
    let ?q = "packs_needed shape (remaining - ?t)"
    note q = packs_needed_step [OF assms True]
    have t: "0 < ?t" using True shape_sizes [OF assms] by simp
    have c: "c + ?t \<le> length entries" using Suc.prems(2) by simp
    have es: "take ?v (take remaining (drop c entries)) = take ?t (drop c entries)" by (simp add: min.commute)
    let ?p = "pack_of lobits shape (take ?t (drop c entries))"
    have m: "?n \<le> m" "?q * ?n \<le> m - ?n" using Suc.prems(3) unfolding q by simp_all
    have rest: "take (remaining - ?t) (drop (c + ?t) entries) = drop ?v (take remaining (drop c entries))"
      by (simp add: drop_take min_def add.commute)
    have "emit_region rounds lobits shape entries (remaining - ?t) (c + ?t) ((xs @ ?p) @ replicate (m - ?n) 0, length (xs @ ?p)) =
      Ok (c + ?t + (remaining - ?t),
          (xs @ ?p) @ region_of lobits shape ?q (take (remaining - ?t) (drop (c + ?t) entries)) @ replicate (m - ?n - ?q * ?n) 0,
          length (xs @ ?p) + ?q * ?n)"
      using t Suc.prems m by (intro Suc.IH) auto
    then show ?thesis
      using True c emit_pack_at [OF assms m(1), of lobits "take ?t (drop c entries)" xs]
      unfolding rest q region_of.simps es by (simp add: length_pack_of [OF assms] Let_def del: take_take)
  qed (use assms in \<open>simp add: packs_needed_0\<close>)
qed

definition index_of :: "u32 \<Rightarrow> compact_geom \<Rightarrow> compact_entry list \<Rightarrow> bytes" where
  "index_of lobits g es =
     (let i = unat (cg_initial g); m = unat (cg_middle g); t = unat (cg_tail g) in
      region_of lobits COMPACT_4B (packs_needed COMPACT_4B i) (take i es)
      @ region_of lobits COMPACT_2B (packs_needed COMPACT_2B m) (take m (drop i es))
      @ region_of lobits COMPACT_4B (packs_needed COMPACT_4B t) (take t (drop (i + m) es)))"

lemma shapes: "pack_shape COMPACT_4B" "pack_shape COMPACT_2B"
  "unat (pack_bytes COMPACT_4B) = 8" "unat (vcnt COMPACT_4B) = 2" "unat (encodebits COMPACT_4B) = 16"
  "unat (pack_bytes COMPACT_2B) = 32" "unat (vcnt COMPACT_2B) = 16" "unat (encodebits COMPACT_2B) = 14"
  by (simp_all add: pack_shape_def COMPACT_4B_def COMPACT_2B_def)

lemma packs_needed_shapes: "packs_needed COMPACT_4B r = (r + 1) div 2" "packs_needed COMPACT_2B r = (r + 15) div 16"
  by (simp_all add: packs_needed_def shapes)

lemma unat_div_ceil_up:
  "b \<noteq> 0 \<Longrightarrow> unat (div_ceil (ucast (r :: u32)) b) = (unat r + unat b - 1) div unat b"
  by (simp add: unat_div_ceil unat_ucast_up)

lemma unat_packs:
  "unat (div_ceil (ucast (r :: u32)) 2 * 8) = packs_needed COMPACT_4B (unat r) * 8"
  "unat (div_ceil (ucast (r :: u32)) 16 * 32) = packs_needed COMPACT_2B (unat r) * 32"
proof -
  have r: "unat r < 2 ^ 32" using unsigned_less [of r, where 'a = nat] by simp
  show "unat (div_ceil (ucast r) 2 * 8) = packs_needed COMPACT_4B (unat r) * 8"
    using r unat_div_ceil_up [of 2 r] by (subst unat_mult_no_wrap) (simp_all add: packs_needed_shapes)
  show "unat (div_ceil (ucast r) 16 * 32) = packs_needed COMPACT_2B (unat r) * 32"
    using r unat_div_ceil_up [of 16 r] by (subst unat_mult_no_wrap) (simp_all add: packs_needed_shapes)
qed

lemma packs_bound: "r < 2 ^ 32 \<Longrightarrow> packs_needed COMPACT_4B r * 8 \<le> 2 ^ 35" "r < 2 ^ 32 \<Longrightarrow> packs_needed COMPACT_2B r * 32 \<le> 2 ^ 35"
  by (simp_all add: packs_needed_shapes)

lemma unat_compact_geom_bytes:
  "unat (compact_geom_bytes g) = packs_needed COMPACT_4B (unat (cg_initial g)) * 8
     + packs_needed COMPACT_2B (unat (cg_middle g)) * 32 + packs_needed COMPACT_4B (unat (cg_tail g)) * 8"
proof -
  have r: "unat r < 2 ^ 32" for r :: u32 using unsigned_less [of r, where 'a = nat] by simp
  note b = packs_bound(1) [OF r [of "cg_initial g"]] packs_bound(2) [OF r [of "cg_middle g"]] packs_bound(1) [OF r [of "cg_tail g"]]
  have "unat (div_ceil (ucast (cg_initial g)) 2 * 8 + div_ceil (ucast (cg_middle g)) 16 * 32)
      = packs_needed COMPACT_4B (unat (cg_initial g)) * 8 + packs_needed COMPACT_2B (unat (cg_middle g)) * 32"
    using b by (subst unat_add_no_wrap) (simp_all add: unat_packs)
  then show ?thesis unfolding compact_geom_bytes_def Let_def
    using b by (subst unat_add_no_wrap) (simp_all add: unat_packs)
qed

lemma encode_index_gives:
  assumes "unat (cg_initial g) + unat (cg_middle g) + unat (cg_tail g) = length es" "cg_use_2b_middle g = (0 < cg_middle g)"
  shows "encode_compact2b_index g es lobits = Ok (index_of lobits g es)"
proof -
  let ?i = "unat (cg_initial g)" and ?m = "unat (cg_middle g)" and ?t = "unat (cg_tail g)"
  let ?a = "packs_needed COMPACT_4B ?i * 8" and ?b = "packs_needed COMPACT_2B ?m * 32" and ?c = "packs_needed COMPACT_4B ?t * 8"
  let ?A = "region_of lobits COMPACT_4B (packs_needed COMPACT_4B ?i) (take ?i es)"
  let ?B = "region_of lobits COMPACT_2B (packs_needed COMPACT_2B ?m) (take ?m (drop ?i es))"
  let ?C = "region_of lobits COMPACT_4B (packs_needed COMPACT_4B ?t) (take ?t (drop (?i + ?m) es))"
  have la: "length ?A = ?a" and lb: "length (?A @ ?B) = ?a + ?b"
    by (simp_all add: length_region_of shapes)
  have 1: "emit_region ?i lobits COMPACT_4B es ?i 0 (replicate (?a + ?b + ?c) 0, 0)
      = Ok (?i, ?A @ replicate (?b + ?c) 0, ?a)"
    using emit_region_gives [OF shapes(1), of ?i ?i 0 es "?a + ?b + ?c" lobits "[]"] assms by (simp add: shapes add.assoc)
  have 2: "(if cg_use_2b_middle g then emit_region ?m lobits COMPACT_2B es ?m ?i (?A @ replicate (?b + ?c) 0, ?a)
      else Ok (?i, ?A @ replicate (?b + ?c) 0, ?a)) = Ok (?i + ?m, (?A @ ?B) @ replicate ?c 0, ?a + ?b)"
  proof (cases "cg_use_2b_middle g")
    case True
    then show ?thesis using emit_region_gives [OF shapes(2), of ?m ?m ?i es "?b + ?c" lobits ?A] assms(1) la
      by (simp add: shapes)
  next
    case False
    then have "?m = 0" using assms(2) by (simp add: word_gt_0 unat_eq_zero)
    then show ?thesis using False by (simp add: packs_needed_0 shapes)
  qed
  have 3: "emit_region ?t lobits COMPACT_4B es ?t (?i + ?m) ((?A @ ?B) @ replicate ?c 0, ?a + ?b)
      = Ok (?i + ?m + ?t, (?A @ ?B) @ ?C, ?a + ?b + ?c)"
    using emit_region_gives [OF shapes(1), of ?t ?t "?i + ?m" es ?c lobits "?A @ ?B"] assms(1) lb by (simp add: shapes)
  show ?thesis
    unfolding encode_compact2b_index_def Let_def unat_compact_geom_bytes 1 bindR_simps case_prod_conv 2 3
    by (simp add: index_of_def Let_def)
qed

section \<open>Reading an index back\<close>

text \<open>
  The entries of a file whose clusters have one block each: an entry fits its bits, a NONHEAD entry
  counts the distance to its head, and the heads have consecutive addresses.
\<close>

definition planned_entries :: "nat \<Rightarrow> compact_entry list \<Rightarrow> bool" where
  "planned_entries start es =
     ((\<forall>k<length es. chained es k) \<and> in_order start es \<and> 0 < start \<and> start + length es \<le> 2 ^ 32)"

lemma chained_slice: "chained es (c + k) \<Longrightarrow> c + k < length es \<Longrightarrow> k < n \<Longrightarrow> chained (take n (drop c es)) k"
  by (cases k) (auto simp: chained_def)

lemma in_order_slice:
  assumes "in_order start es" "c \<le> length es"
  shows "in_order (start + heads (take c es)) (take n (drop c es))"
  unfolding in_order_def
proof (intro allI impI)
  fix k assume k: "k < length (take n (drop c es))" "\<not> is_nonhead (take n (drop c es) ! k)"
  then have e: "take n (drop c es) ! k = es ! (c + k)" "c + k < length es" "k < n" by auto
  have "take (c + k) es = take c es @ take k (take n (drop c es))"
    using e(3) by (simp add: take_add min_def)
  then have "heads (take (c + k) es) = heads (take c es) + heads (take k (take n (drop c es)))" by simp
  moreover have "take n (drop c es) ! j = es ! (c + j)" if "j < length (take n (drop c es))" for j
    using that assms(2) by simp
  ultimately show "unat (ce_pcluster_blkaddr (take n (drop c es) ! k))
        = start + heads (take c es) + heads (take k (take n (drop c es)))
      \<or> ce_pcluster_blkaddr (take n (drop c es) ! k) = 0
        \<and> (\<forall>j. k < j \<longrightarrow> j < length (take n (drop c es)) \<longrightarrow> is_nonhead (take n (drop c es) ! j))"
    using assms(1) k e unfolding in_order_def by (auto simp: add.assoc)
qed

lemma planned_slice:
  assumes "planned_entries start es" "c \<le> length es"
  shows "\<exists>start. planned_entries start (take n (drop c es))"
proof (intro exI)
  have "heads (take c es) \<le> c" using heads_le [of "take c es"] assms(2) by simp
  moreover have "length (take n (drop c es)) \<le> length es - c" by simp
  moreover have "start + length es \<le> 2 ^ 32" "0 < start" using assms(1) by (simp_all add: planned_entries_def)
  ultimately have "start + heads (take c es) + length (take n (drop c es)) \<le> 2 ^ 32" using assms(2) by linarith
  then show "planned_entries (start + heads (take c es)) (take n (drop c es))"
    using assms in_order_slice [of start es c n] chained_slice [of es c _ n]
    by (auto simp: planned_entries_def)
qed

lemma serves_at:
  assumes "serves dev img" "drop (unat off) img = bs @ rest" "k + n \<le> length bs" "0 < n"
  shows "read_at dev (off + word_of_nat k) n = Ok (take n (drop k bs))"
proof -
  have "length (drop (unat off) img) = length bs + length rest" using assms(2) by simp
  then have len: "unat off + length bs + length rest = length img" using assms(3,4) by simp
  moreover have "length img < 2 ^ 64"
    using serves_size [OF assms(1)] unsigned_less [of "dev_size dev", where 'a = nat] by simp
  ultimately have u: "unat (off + word_of_nat k) = unat off + k"
    using assms(3) by (subst unat_add_no_wrap) (simp_all add: unat_of_nat)
  have "drop (unat off + k) img = drop k (bs @ rest)" unfolding assms(2) [symmetric] by (simp add: add.commute)
  then show ?thesis using serves_read [OF assms(1), of "off + word_of_nat k" n] u len assms(3) by simp
qed

lemma read_region_entry:
  assumes img: "serves dev img" "drop (unat off) img = region_of lobits shape (packs_needed shape (length es)) es @ rest"
    and es: "planned_entries start es" "\<forall>e\<in>set es. entry_fits lobits e" "length es < 2 ^ 32"
    and shape: "pack_shape shape" "unat lobits + 2 \<le> unat (encodebits shape)" "lobits = max (zm_z_lclusterbits zm) 12"
    and loc: "locate_compact_pack zm i = Ok \<lparr>pl_pack_offset = off + word_of_nat k div ucast (vcnt shape) * ucast (pack_bytes shape),
        pl_intra_pack = ucast (word_of_nat k mod (ucast (vcnt shape) :: u64)), pl_geom = from_shape shape (zm_z_lclusterbits zm)\<rparr>"
    and zm: "\<not> zm_big_pcluster zm" and k: "k < length es"
  shows "reads_as (es ! k) (read_lcluster_compact zm dev i)"
proof -
  define v n j m where d: "v = unat (vcnt shape)" "n = unat (pack_bytes shape)" "j = k div v" "m = k mod v"
  note sz = shape_sizes [OF shape(1), folded d]
  have k_eq: "k = j * v + m" and m: "m < v" using sz by (simp_all add: d)
  let ?p = "take v (drop (j * v) es)" and ?g = "from_shape shape (zm_z_lclusterbits zm)"
  have lob: "g_lobits ?g = lobits" by (simp add: from_shape_def shape(3))
  obtain start' where pl: "planned_entries start' ?p"
    using planned_slice [OF es(1), of "j * v" v] k k_eq by auto
  have ek: "es ! k = ?p ! m" "m < length ?p" using k_eq m k by auto
  have "unat (encodebits shape) \<le> 16" using shape(1) by (auto simp: pack_shape_def shapes)
  then have ok: "pack_ok lobits shape start' ?p"
    using pl es(2) shape(1,2) unfolding pack_ok_def planned_entries_def by (auto simp: d dest: in_set_takeD in_set_dropD)
  have "Suc j * v \<le> length es + (v - 1)" using k k_eq m by simp
  then have jq: "j < packs_needed shape (length es)"
    using sz by (simp add: packs_needed_def Suc_le_eq [symmetric] less_eq_div_iff_mult_less_eq flip: d)
  then have fit: "j * n + n \<le> length (region_of lobits shape (packs_needed shape (length es)) es)"
    using mult_le_mono1 [of "Suc j" "packs_needed shape (length es)" n] by (simp add: length_region_of shape(1) Suc_le_eq flip: d)
  have ku: "unat (word_of_nat k :: u64) = k" using k es(3) by (simp add: unat_of_nat)
  have "j * n \<le> k * 32" using sz by (intro mult_le_mono) (simp_all add: d)
  then have "unat (word_of_nat k div ucast (vcnt shape) * ucast (pack_bytes shape) :: u64) = j * n"
    using ku k es(3) by (subst unat_mult_no_wrap) (simp_all add: unat_div unat_ucast_up d)
  moreover have "unat (word_of_nat (j * n) :: u64) = j * n" using \<open>j * n \<le> k * 32\<close> k es(3)
    by (intro unat_of_nat_small) simp
  ultimately have at_j: "word_of_nat k div ucast (vcnt shape) * ucast (pack_bytes shape) = (word_of_nat (j * n) :: u64)"
    by (simp only: word_unat_eq_iff)
  have "take n (drop (j * n) (region_of lobits shape (packs_needed shape (length es)) es)) = pack_of lobits shape ?p"
    using region_pack [OF shape(1) jq, of lobits es "[]"] by (simp add: d)
  then have dev: "read_at dev (off + word_of_nat (j * n)) n = Ok (pack_of lobits shape ?p)"
    using serves_at [OF img fit] sz by simp
  have "m \<le> k" by (simp add: d)
  have "unat (word_of_nat k mod ucast (vcnt shape) :: u64) = m"
    using ku by (subst unat_mod, subst unat_ucast_up) (simp_all add: d)
  then have "unat (ucast (word_of_nat k mod (ucast (vcnt shape) :: u64)) :: u32) = m"
    using \<open>m \<le> k\<close> k es(3) by (simp only: unsigned_ucast_eq take_bit_nat_eq_self) (simp add: take_bit_nat_eq_self)
  moreover have "unat (word_of_nat m :: u32) = m" using \<open>m \<le> k\<close> k es(3) by (simp add: unat_of_nat)
  ultimately have at_m: "ucast (word_of_nat k mod (ucast (vcnt shape) :: u64)) = (word_of_nat m :: u32)"
    by (simp only: word_unat_eq_iff)
  show ?thesis unfolding ek(1)
    by (rule read_pack_entry [OF _ zm(1) loc, where shape = shape and start = start' and k = m])
      (use ok dev ek(2) at_m in \<open>simp_all add: lob at_j flip: d\<close>)
qed

lemma bytes_for_shapes: "bytes_for COMPACT_4B x = div_ceil x 2 * 8" "bytes_for COMPACT_2B x = div_ceil x 16 * 32"
  by (simp_all add: bytes_for_def COMPACT_4B_def COMPACT_2B_def)

lemma serves_step:
  assumes "serves dev img" "drop (unat off) img = xs @ ys" "unat (d :: u64) = length xs" "unat off \<le> length img"
  shows "drop (unat (off + d)) img = ys \<and> unat (off + d) \<le> length img"
proof -
  have "length (drop (unat off) img) = length xs + length ys" using assms(2) by simp
  then have len: "unat off + length xs + length ys = length img" using assms(4) by simp
  moreover have "length img < 2 ^ 64"
    using serves_size [OF assms(1)] unsigned_less [of "dev_size dev", where 'a = nat] by simp
  ultimately have u: "unat (off + d) = unat off + length xs" using assms(3) by (subst unat_add_no_wrap) simp_all
  have "drop (unat off + length xs) img = drop (length xs) (xs @ ys)" unfolding assms(2) [symmetric] by (simp add: add.commute)
  then show ?thesis using u len by simp
qed

lemma of_nat_minus: "unat (a :: u32) \<le> i \<Longrightarrow> (word_of_nat i :: u64) - ucast a = word_of_nat (i - unat a)"
proof -
  assume "unat a \<le> i"
  then obtain k where "i = unat a + k" using le_Suc_ex by blast
  moreover have "word_of_nat (unat a) = (ucast a :: u64)" by simp
  ultimately show ?thesis by simp
qed

lemma locate_cases:
  assumes "i < 2 ^ 32" "a = unat (zm_compact_4b_initial zm)" "b = unat (zm_compact_2b zm)"
  defines "pa \<equiv> div_ceil (ucast (zm_compact_4b_initial zm)) 2 * 8" and "pb \<equiv> div_ceil (ucast (zm_compact_2b zm)) 16 * 32"
    and "loc \<equiv> \<lambda>off shape k. Ok \<lparr>pl_pack_offset = off + word_of_nat k div ucast (vcnt shape) * ucast (pack_bytes shape),
        pl_intra_pack = ucast (word_of_nat k mod (ucast (vcnt shape) :: u64)), pl_geom = from_shape shape (zm_z_lclusterbits zm)\<rparr>"
  shows "i < a \<Longrightarrow> locate_compact_pack zm (word_of_nat i) = loc (zm_index_start_offset zm) COMPACT_4B i"
    and "a \<le> i \<Longrightarrow> i < a + b \<Longrightarrow>
      locate_compact_pack zm (word_of_nat i) = loc (zm_index_start_offset zm + pa) COMPACT_2B (i - a)"
    and "a + b \<le> i \<Longrightarrow>
      locate_compact_pack zm (word_of_nat i) = loc (zm_index_start_offset zm + pa + pb) COMPACT_4B (i - a - b)"
proof -
  have lt: "(word_of_nat k < (ucast (x :: u32) :: u64)) = (k < unat x)" if "k < 2 ^ 32" for k x
    using that by (simp add: word_less_nat_alt unat_ucast_up unat_of_nat)
  have i1: "(word_of_nat i :: u64) - ucast (zm_compact_4b_initial zm) = word_of_nat (i - a)" if "a \<le> i"
    using that assms(2) of_nat_minus by (simp del: of_nat_diff)
  have i2: "(word_of_nat (i - a) :: u64) - ucast (zm_compact_2b zm) = word_of_nat (i - a - b)" if "a + b \<le> i"
    using that assms(3) of_nat_minus [of "zm_compact_2b zm" "i - a"] by (simp del: of_nat_diff)
  have c1: "(word_of_nat i < (ucast (zm_compact_4b_initial zm) :: u64)) = (i < a)" using lt assms(1,2) by simp
  have c2: "(word_of_nat (i - a) < (ucast (zm_compact_2b zm) :: u64)) = (i - a < b)"
    using lt [of "i - a"] assms(1,3) by (simp del: of_nat_diff)
  have g: "four_byte z = from_shape COMPACT_4B z" "two_byte z = from_shape COMPACT_2B z"
    "g_vcnt (from_shape s z) = vcnt s" "g_pack_bytes (from_shape s z) = pack_bytes s" for s z
    by (simp_all add: four_byte_def two_byte_def from_shape_def)
  note defs = locate_compact_pack_def Let_def g loc_def bytes_for_shapes pa_def pb_def
  show "locate_compact_pack zm (word_of_nat i) = loc (zm_index_start_offset zm) COMPACT_4B i" if "i < a"
    using that by (simp add: defs c1)
  show "locate_compact_pack zm (word_of_nat i) = loc (zm_index_start_offset zm + pa) COMPACT_2B (i - a)"
    if "a \<le> i" "i < a + b"
  proof -
    have "i - a < b" using that by simp
    with that i1 c1 c2 show ?thesis by (simp add: defs del: of_nat_diff)
  qed
  show "locate_compact_pack zm (word_of_nat i) = loc (zm_index_start_offset zm + pa + pb) COMPACT_4B (i - a - b)"
    if "a + b \<le> i"
  proof -
    have "\<not> i - a < b" using that by simp
    with that i1 i2 c1 c2 show ?thesis by (simp add: defs del: of_nat_diff)
  qed
qed

text \<open>An index read back, whatever the region of the entry.\<close>

definition lobits_fit :: "u32 \<Rightarrow> compact_geom \<Rightarrow> bool" where
  "lobits_fit lobits g = (unat lobits \<le> 12 \<or> (cg_middle g = 0 \<and> unat lobits \<le> 14))"

lemma read_index_entry:
  assumes img: "serves dev img" "drop (unat (zm_index_start_offset zm)) img = index_of lobits g es @ rest"
      "unat (zm_index_start_offset zm) \<le> length img"
    and es: "planned_entries start es" "\<forall>e\<in>set es. entry_fits lobits e" "length es < 2 ^ 32"
    and g: "unat (cg_initial g) + unat (cg_middle g) + unat (cg_tail g) = length es" "lobits_fit lobits g"
    and zm: "\<not> zm_big_pcluster zm" "zm_compact_4b_initial zm = cg_initial g" "zm_compact_2b zm = cg_middle g"
      "lobits = max (zm_z_lclusterbits zm) 12"
    and i: "i < length es"
  shows "reads_as (es ! i) (read_lcluster_compact zm dev (word_of_nat i))"
proof -
  define a b t where d: "a = unat (cg_initial g)" "b = unat (cg_middle g)" "t = unat (cg_tail g)"
  let ?A = "region_of lobits COMPACT_4B (packs_needed COMPACT_4B a) (take a es)"
  let ?B = "region_of lobits COMPACT_2B (packs_needed COMPACT_2B b) (take b (drop a es))"
  let ?C = "region_of lobits COMPACT_4B (packs_needed COMPACT_4B t) (take t (drop (a + b) es))"
  let ?off = "zm_index_start_offset zm"
  let ?pa = "div_ceil (ucast (cg_initial g)) 2 * 8" and ?pb = "div_ceil (ucast (cg_middle g)) 16 * 32"
  have imgA: "drop (unat ?off) img = ?A @ ?B @ ?C @ rest" using img(2) by (simp add: index_of_def Let_def d)
  have len: "unat ?pa = length ?A" "unat ?pb = length ?B" by (simp_all add: unat_packs length_region_of shapes d)
  note imgB = serves_step [OF img(1) imgA len(1) img(3)]
  note imgC = serves_step [OF img(1) conjunct1 [OF imgB] len(2) conjunct2 [OF imgB]]
  have i32: "i < 2 ^ 32" using i es(3) by simp
  note loc = locate_cases [OF i32, of a zm b, unfolded zm(2,3), OF d(1,2)]
  have fit: "\<forall>e\<in>set (take n (drop c es)). entry_fits lobits e" for n c
    using es(2) by (meson in_set_dropD in_set_takeD)
  have small: "length (take n (drop c es)) < 2 ^ 32" for n c using es(3) by simp
  have lob: "unat lobits + 2 \<le> unat (encodebits COMPACT_4B)" "0 < b \<Longrightarrow> unat lobits + 2 \<le> unat (encodebits COMPACT_2B)"
    using g(2) by (auto simp: lobits_fit_def shapes d unat_gt_0)
  have l: "length (take a es) = a" "length (take b (drop a es)) = b" "length (take t (drop (a + b) es)) = t"
    using g(1) by (simp_all add: d)
  note rd = read_region_entry [OF img(1), where lobits = lobits, OF _ _ _ _ _ _ zm(4) _ zm(1)]
  consider "i < a" | "a \<le> i" "i < a + b" | "a + b \<le> i" by linarith
  then show ?thesis
  proof cases
    case 1
    obtain s where s: "planned_entries s (take a es)" using planned_slice [OF es(1), of 0 a] by auto
    have "reads_as (take a es ! i) (read_lcluster_compact zm dev (word_of_nat i))"
      using rd [OF _ s _ _ shapes(1) lob(1) loc(1) [OF 1], unfolded l, OF imgA] fit [of a 0] small [of a 0] 1 l(1) by simp
    then show ?thesis using 1 by simp
  next
    case 2
    have b: "0 < b" using 2 by simp
    obtain s where s: "planned_entries s (take b (drop a es))" using planned_slice [OF es(1), of a b] g(1) d by auto
    have "reads_as (take b (drop a es) ! (i - a)) (read_lcluster_compact zm dev (word_of_nat i))"
      using rd [OF _ s _ _ shapes(2) lob(2) [OF b] loc(2) [OF 2], unfolded l, OF conjunct1 [OF imgB]]
        fit [of b a] small [of b a] 2 l(2) by simp
    then show ?thesis using 2 i by simp
  next
    case 3
    obtain s where s: "planned_entries s (take t (drop (a + b) es))" using planned_slice [OF es(1), of "a + b" t] g(1) d by auto
    have k: "i - a - b < t" using 3 i d g(1) by simp
    have "reads_as (take t (drop (a + b) es) ! (i - a - b)) (read_lcluster_compact zm dev (word_of_nat i))"
      using rd [OF _ s _ _ shapes(1) lob(1) loc(3) [OF 3], unfolded l, OF conjunct1 [OF imgC]]
        fit [of t "a + b"] small [of t "a + b"] k l(3) by simp
    then show ?thesis using 3 i k by simp
  qed
qed

section \<open>Opening a written trailer\<close>

definition map_header :: "compressed_index \<Rightarrow> u16 \<Rightarrow> bytes" where
  "map_header ci advise = to_le32 (push_bit 16 (ucast (word_of_nat (length (inline_bytes ci)) :: u16)))
     @ to_le16 advise @ [algo_id (ci_algo ci) AND 0x0F, ci_lclusterbits ci AND 0x0F]"

definition inline_advise :: "compressed_index \<Rightarrow> u16" where
  "inline_advise ci = (if ci_inline ci \<noteq> None then ADVISE_INLINE_PCLUSTER else 0)"

lemma length_map_header [simp]: "length (map_header ci a) = 8"
  by (simp add: map_header_def)

lemma legacy_trailer_is:
  assumes "mapR (legacy_entry addrs) (ci_entries ci) = Ok es"
  shows "legacy_trailer ci addrs = Ok (map_header ci (inline_advise ci) @ replicate 8 0 @ concat es @ inline_bytes ci)"
proof (cases "ci_inline ci")
  case None
  then show ?thesis using assms
    by (simp add: legacy_trailer_def Let_def map_header_def inline_advise_def inline_bytes_def encode_zmap_header_def)
next
  case (Some t)
  have "put (to_le32 0 @ ys) 0 (to_le32 v) = to_le32 v @ ys" for ys v by (simp add: put_def)
  with Some show ?thesis using assms
    by (simp add: legacy_trailer_def Let_def map_header_def inline_advise_def inline_bytes_def encode_zmap_header_def)
qed

lemma header_idata: "ucast (drop_bit 16 (push_bit 16 (ucast (n :: u16)) :: u32) AND 0xFFFF) = n"
  by (intro bit_eqI) (auto simp: and_masks bit_ucast_iff bit_take_bit_iff bit_drop_bit_eq bit_push_bit_iff)

lemma low_nibble: "(x AND 0x0F) AND 0x0F = (x AND 0x0F :: u8)" "(x AND 0x0F) AND 0x80 = (0 :: u8)"
proof -
  show "(x AND 0x0F) AND 0x0F = (x AND 0x0F :: u8)" by (simp add: and.assoc)
  have "(x AND 0x0F) AND 0x80 = x AND (0x0F AND 0x80)" by (simp only: and.assoc)
  then show "(x AND 0x0F) AND 0x80 = (0 :: u8)" by simp
qed

text \<open>The map a reader opens over such a header.\<close>

definition opened :: "inode \<Rightarrow> superblock \<Rightarrow> compressed_index \<Rightarrow> u16 \<Rightarrow> zmap \<Rightarrow> bool" where
  "opened ino sb ci advise zm =
     (zm_inode zm = ino \<and> zh_advise (zm_header zm) = advise
      \<and> idata_size (zm_header zm) = word_of_nat (length (inline_bytes ci)) \<and> \<not> has_full_fragment zm
      \<and> zm_z_lclusterbits zm = ucast (sb_blkszbits sb) + ucast (ci_lclusterbits ci)
      \<and> zm_big_pcluster zm = (advise AND (ADVISE_BIG_PCLUSTER_1 OR ADVISE_BIG_PCLUSTER_2) \<noteq> 0)
      \<and> zm_algo_head1_id zm = algo_id (ci_algo ci))"

lemma zmap_open_written:
  assumes img: "serves dev img" "drop (unat (body_end ino sb)) img = map_header ci advise @ rest"
    and cb: "ci_lclusterbits ci AND 0x0F = ci_lclusterbits ci"
    and n: "unat (div_ceil (i_size ino) (one_shl (ucast (sb_blkszbits sb) + ucast (ci_lclusterbits ci)))) = n" "n < 2 ^ 32"
  obtains zm where "zmap_open dev sb ino = Ok zm" "opened ino sb ci advise zm"
    "zm_format zm = (if fmt_layout (i_format ino) = Compression then CompactIndex else LegacyIndex)"
    "zm_index_start_offset zm = next_multiple_of (body_end ino sb) COMPACT_MAP_EBASE_ALIGN + Z_EROFS_COMPACT_MAP_HEADER_SIZE
       + (if fmt_layout (i_format ino) = Compression then 0 else 8)"
    "fmt_layout (i_format ino) = Compression \<Longrightarrow> zm_compact_4b_initial zm =
       min (compact_alignment_pad (next_multiple_of (body_end ino sb) COMPACT_MAP_EBASE_ALIGN + Z_EROFS_COMPACT_MAP_HEADER_SIZE)) (word_of_nat n)"
    "fmt_layout (i_format ino) = Compression \<Longrightarrow> zm_compact_2b zm =
       (if advise AND ADVISE_COMPACTED_2B \<noteq> 0 \<and> zm_compact_4b_initial zm < word_of_nat n
        then word_of_nat n - zm_compact_4b_initial zm - (word_of_nat n - zm_compact_4b_initial zm) mod 16 else 0)"
proof -
  have rd: "read_at dev (body_end ino sb) 8 = Ok (map_header ci advise)"
    using serves_at [OF img, of 0 8] by simp
  have h: "u32_at (map_header ci advise) 0 = Ok (push_bit 16 (ucast (word_of_nat (length (inline_bytes ci)) :: u16)))"
    "u16_at (map_header ci advise) 4 = Ok advise"
    "idx (map_header ci advise) 6 = Ok (algo_id (ci_algo ci) AND 0x0F)" "idx (map_header ci advise) 7 = Ok (ci_lclusterbits ci)"
    using cb by (simp_all add: map_header_def idx_def nth_append)
  have al: "algo_id (ci_algo ci) AND 0x0F = algo_id (ci_algo ci)" by (cases "ci_algo ci") (simp_all add: algo_id_def)
  have c80: "ci_lclusterbits ci AND 0x80 = 0" using low_nibble(2) [of "ci_lclusterbits ci"] cb by simp
  let ?n = "div_ceil (i_size ino) (one_shl (ucast (sb_blkszbits sb) + ucast (ci_lclusterbits ci)))"
  have un: "(ucast ?n :: u32) = word_of_nat n" by (simp flip: n(1))
  have sm: "\<not> 2 ^ 32 \<le> unat ?n" using n by simp
  have v16: "vcnt COMPACT_2B = 16" by (simp add: COMPACT_2B_def)
  show thesis
  proof (rule that)
    let ?cf = "fmt_layout (i_format ino) = Compression"
    let ?eb = "next_multiple_of (body_end ino sb) COMPACT_MAP_EBASE_ALIGN + Z_EROFS_COMPACT_MAP_HEADER_SIZE"
    let ?i = "if ?cf then min (compact_alignment_pad ?eb) (word_of_nat n) else 0 :: u32"
    let ?m = "if ?cf \<and> advise AND ADVISE_COMPACTED_2B \<noteq> 0 \<and> ?i < word_of_nat n
       then word_of_nat n - ?i - (word_of_nat n - ?i) mod 16 else 0"
    let ?zm = "\<lparr>zm_inode = ino, zm_header = \<lparr>zh_fragment_off_or_idata_size = push_bit 16 (ucast (word_of_nat (length (inline_bytes ci)) :: u16)),
         zh_advise = advise, zh_algorithm_type = algo_id (ci_algo ci) AND 0x0F, zh_clusterbits_byte = ci_lclusterbits ci\<rparr>,
       zm_index_start_offset = ?eb + (if ?cf then 0 else 8), zm_lclusterbits = ci_lclusterbits ci,
       zm_z_lclusterbits = ucast (sb_blkszbits sb) + ucast (ci_lclusterbits ci),
       zm_format = (if ?cf then CompactIndex else LegacyIndex), zm_compact_4b_initial = ?i, zm_compact_2b = ?m,
       zm_big_pcluster = (advise AND (ADVISE_BIG_PCLUSTER_1 OR ADVISE_BIG_PCLUSTER_2) \<noteq> 0),
       zm_algo_head1_id = algo_id (ci_algo ci) AND 0x0F, zm_algo_head2_id = drop_bit 4 (algo_id (ci_algo ci) AND 0x0F) AND 0x0F\<rparr>"
    show "zmap_open dev sb ino = Ok ?zm"
      unfolding zmap_open_def rd bindR_simps h Let_def cb
      using sm by (auto simp: un v16 split: data_layout.split)
    show "opened ino sb ci advise ?zm"
      by (simp add: opened_def idata_size_def header_idata has_full_fragment_def Z_EROFS_FRAGMENT_INODE_BIT_def c80 al)
  qed simp_all
qed

text \<open>The geometry the writer computes is the one the reader derives.\<close>

lemma alignment_pad: "compact_alignment_pad ebase = ucast (((32 - ebase mod 32) div 4) AND 7)"
  by (simp add: compact_alignment_pad_def bytes_per_lcluster_def COMPACT_2B_def COMPACT_4B_def)

lemma compact_geom_sound:
  fixes ebase :: u64 and total_lc :: u32
  defines "g \<equiv> compute_compact_geom ebase total_lc True"
  shows "unat (cg_initial g) + unat (cg_middle g) + unat (cg_tail g) = unat total_lc"
    and "cg_use_2b_middle g = (0 < cg_middle g)"
    and "cg_initial g = min (compact_alignment_pad ebase) total_lc"
    and "cg_middle g = (if cg_use_2b_middle g \<and> cg_initial g < total_lc
           then total_lc - cg_initial g - (total_lc - cg_initial g) mod 16 else 0)"
proof -
  let ?i = "min (compact_alignment_pad ebase) total_lc"
  define r where "r = total_lc - ?i"
  have i: "?i \<le> total_lc" by simp
  have ur: "unat r = unat total_lc - unat ?i" unfolding r_def by (rule unat_sub_no_wrap [OF i])
  have iu: "unat ?i \<le> unat total_lc" using i by (simp only: word_le_nat_alt)
  have md: "r mod 16 \<le> r" by (simp add: word_le_nat_alt unat_mod)
  have um: "unat (r - r mod 16) = unat r - unat r mod 16" using unat_sub_no_wrap [OF md] by (simp add: unat_mod)
  have ml: "r - r mod 16 \<le> r" by (simp add: word_le_nat_alt um)
  have ut: "unat (r - (r - r mod 16)) = unat r mod 16" using unat_sub_no_wrap [OF ml] um by simp
  have rs: "unat ?i + (unat r - unat r mod 16) + unat r mod 16 = unat total_lc" using ur iu by simp
  have full: "\<not> ?i < total_lc \<Longrightarrow> ?i = total_lc" using i by simp
  consider (none) "total_lc = 0" | (some) "total_lc \<noteq> 0" "?i < total_lc" | (cap) "total_lc \<noteq> 0" "\<not> ?i < total_lc" by blast
  then have "unat (cg_initial g) + unat (cg_middle g) + unat (cg_tail g) = unat total_lc
     \<and> cg_use_2b_middle g = (0 < cg_middle g) \<and> cg_initial g = ?i
     \<and> cg_middle g = (if cg_use_2b_middle g \<and> cg_initial g < total_lc
           then total_lc - cg_initial g - (total_lc - cg_initial g) mod 16 else 0)"
  proof cases
    case none
    then show ?thesis by (simp add: g_def compute_compact_geom_def)
  next
    case some
    then have g: "g = \<lparr>cg_initial = ?i, cg_middle = r - r mod 16, cg_tail = r - (r - r mod 16), cg_use_2b_middle = (0 < r - r mod 16)\<rparr>"
      by (simp add: g_def compute_compact_geom_def Let_def alignment_pad r_def)
    have m: "r - r mod 16 = (if 0 < r - r mod 16 \<and> ?i < total_lc then r - r mod 16 else 0)"
      using some(2) by (simp only: word_gt_0 simp_thms) simp
    show ?thesis unfolding g compact_geom.simps um ut rs r_def [symmetric] using m by (simp only: simp_thms)
  next
    case cap
    then have "g = \<lparr>cg_initial = ?i, cg_middle = 0, cg_tail = total_lc - ?i, cg_use_2b_middle = False\<rparr>"
      by (simp add: g_def compute_compact_geom_def Let_def alignment_pad)
    then show ?thesis using full [OF cap(2)] by simp
  qed
  then show "unat (cg_initial g) + unat (cg_middle g) + unat (cg_tail g) = unat total_lc"
    "cg_use_2b_middle g = (0 < cg_middle g)" "cg_initial g = ?i"
    "cg_middle g = (if cg_use_2b_middle g \<and> cg_initial g < total_lc
           then total_lc - cg_initial g - (total_lc - cg_initial g) mod 16 else 0)" by blast+
qed

lemma next_multiple_8: "next_multiple_of a 8 = a + (8 - a mod 8) mod 8"
proof (cases "a mod 8 = 0")
  case False
  have "unat (a mod 8) < 8" by (simp add: unat_mod)
  moreover have "unat (a mod 8) \<noteq> 0" using False by (simp only: unat_eq_zero not_False_eq_True)
  moreover have "unat (8 - a mod 8) = 8 - unat (a mod 8)"
    using \<open>unat (a mod 8) < 8\<close> by (subst unat_sub_no_wrap) (simp_all add: word_le_nat_alt)
  ultimately have "unat ((8 - a mod 8) mod 8) = unat (8 - a mod 8)" by (simp add: unat_mod)
  then have "(8 - a mod 8) mod 8 = 8 - a mod 8" by (simp only: word_unat_eq_iff)
  then show ?thesis using False by (simp add: next_multiple_of_def)
qed (simp add: next_multiple_of_def)

text \<open>The eight bytes of a legacy entry, in terms of the same normalised entry.\<close>

definition legacy_bytes :: "compact_entry \<Rightarrow> bytes" where
  "legacy_bytes c = encode_lcluster_index (ce_cluster_type c) (if is_nonhead c then 0 else ucast (ce_lo c))
     (if is_nonhead c then ce_lo c else ce_pcluster_blkaddr c)"

lemma length_legacy_bytes [simp]: "length (legacy_bytes c) = 8"
  by (simp add: legacy_bytes_def encode_lcluster_index_def)

lemma ucast_16_32: "ucast (ucast (x :: u16) :: u32) = x"
  by (intro bit_eqI) (auto simp: bit_ucast_iff)

lemma legacy_entry_is: "compact_entry_of addrs e = Ok c \<Longrightarrow> legacy_entry addrs e = Ok (legacy_bytes c)"
  by (auto simp: compact_entry_of_def legacy_entry_def legacy_bytes_def is_nonhead_def ucast_16_32 split: if_splits)

lemma legacy_entries: "mapR (compact_entry_of addrs) es = Ok cs \<Longrightarrow> mapR (legacy_entry addrs) es = Ok (map legacy_bytes cs)"
  by (induction es arbitrary: cs) (auto simp: legacy_entry_is)

lemma read_legacy_entry:
  assumes img: "serves dev img" "drop (unat (zm_index_start_offset zm)) img = concat (map legacy_bytes cs) @ rest"
    and i: "i < length cs" "length cs < 2 ^ 32" and fits: "ce_cluster_type (cs ! i) \<le> 3" "\<not> zm_big_pcluster zm"
  shows "reads_as (cs ! i) (read_lcluster_legacy zm dev (word_of_nat i))"
proof -
  let ?c = "cs ! i"
  have "take 8 (drop (i * 8) (concat (map legacy_bytes cs) @ [])) = map legacy_bytes cs ! i"
    by (rule take_drop_concat_fixed) (use i in auto)
  then have "read_at dev (zm_index_start_offset zm + word_of_nat (i * 8)) 8 = Ok (legacy_bytes ?c)"
    using serves_at [OF img, of "i * 8" 8] i by (simp add: length_concat comp_def sum_list_triv)
  moreover have "word_of_nat i * Z_EROFS_LCLUSTER_INDEX_SIZE = word_of_nat (i * 8)" by (simp add: zmap_consts)
  ultimately have rd: "read_at dev (zm_index_start_offset zm + word_of_nat i * Z_EROFS_LCLUSTER_INDEX_SIZE) 8 = Ok (legacy_bytes ?c)"
    by (simp only:)
  have t: "ucast (ce_cluster_type ?c) AND 3 = (ucast (ce_cluster_type ?c) :: u16)"
    "ucast (ucast (ce_cluster_type ?c) :: u16) = ce_cluster_type ?c"
    using type_bits [OF fits(1)] by (auto intro!: bit_eqI simp: and_masks bit_take_bit_iff bit_ucast_iff)
  have "read_lcluster_legacy zm dev (word_of_nat i) = Ok (entry_read ?c)"
    unfolding read_lcluster_legacy_def Let_def rd bindR_simps
    by (simp add: legacy_bytes_def encode_lcluster_index_def entry_read_def t fits(2))
  then show ?thesis unfolding reads_as_def by (intro exI [of _ "lc_u_raw (entry_read ?c)"]) simp
qed

section \<open>The trailer round trip\<close>

definition z_bits :: "compressed_index \<Rightarrow> superblock \<Rightarrow> u32" where
  "z_bits ci sb = ucast (sb_blkszbits sb) + ucast (ci_lclusterbits ci)"

definition geom_of :: "compressed_index \<Rightarrow> u64 \<Rightarrow> compact_geom" where
  "geom_of ci bend = compute_compact_geom (next_multiple_of bend COMPACT_MAP_EBASE_ALIGN + Z_EROFS_COMPACT_MAP_HEADER_SIZE)
     (word_of_nat (length (ci_entries ci))) True"

text \<open>What the planner guarantees of a file whose clusters have one block each, and where the two formats can be read.\<close>

definition index_plan :: "compressed_index \<Rightarrow> u32 list \<Rightarrow> inode \<Rightarrow> superblock \<Rightarrow> nat \<Rightarrow> compact_entry list \<Rightarrow> bool" where
  "index_plan ci addrs ino sb start es =
     (mapR (compact_entry_of addrs) (ci_entries ci) = Ok es \<and> planned_entries start es
      \<and> (\<forall>e\<in>set es. entry_fits (max (z_bits ci sb) 12) e)
      \<and> ci_lclusterbits ci AND 0x0F = ci_lclusterbits ci \<and> length (inline_bytes ci) < 2 ^ 16
      \<and> unat (div_ceil (i_size ino) (one_shl (z_bits ci sb))) = length es \<and> length es < 2 ^ 32
      \<and> (case ci_format ci of
           Legacy \<Rightarrow> fmt_layout (i_format ino) = CompressionLegacy \<and> body_end ino sb mod 8 = 0
         | Compacted2B \<Rightarrow> fmt_layout (i_format ino) = Compression
             \<and> lobits_fit (max (z_bits ci sb) 12) (geom_of ci (body_end ino sb))))"

text \<open>The map a reader opens gives every entry back, and finds the inlined cluster.\<close>

definition reads_back :: "blockdev \<Rightarrow> superblock \<Rightarrow> inode \<Rightarrow> compressed_index \<Rightarrow> compact_entry list \<Rightarrow> bool" where
  "reads_back dev sb ino ci es =
     (\<exists>zm. zmap_open dev sb ino = Ok zm \<and> header_algo zm LCLUSTER_TYPE_HEAD1 = algorithm_from_id (algo_id (ci_algo ci))
       \<and> (\<forall>i<length es. reads_as (es ! i) (read_lcluster zm dev (word_of_nat i)))
       \<and> (case ci_inline ci of
            None \<Rightarrow> tail_inline_offset_and_size zm = None
          | Some t \<Rightarrow> \<exists>off. tail_inline_offset_and_size zm = Some (off, word_of_nat (length t))
              \<and> read_at dev off (length t) = Ok t))"

lemma serves_prefix:
  "serves dev img \<Longrightarrow> drop (unat off) img = bs @ rest \<Longrightarrow> unat off \<le> length img \<Longrightarrow> read_at dev off (length bs) = Ok bs"
proof -
  assume s: "serves dev img" and d: "drop (unat off) img = bs @ rest" and l: "unat off \<le> length img"
  have "length (drop (unat off) img) = length bs + length rest" using d by simp
  then have "unat off + length bs \<le> length img" using l by simp
  with serves_read [OF s this] d show ?thesis by simp
qed

text \<open>An open map, its index and the inlined bytes in place, reads back.\<close>

lemma reads_back_intro:
  assumes img: "serves dev img" and zm: "zmap_open dev sb ino = Ok zm" "opened ino sb ci advise zm"
    and adv: "advise AND ADVISE_INLINE_PCLUSTER \<noteq> 0 \<longleftrightarrow> ci_inline ci \<noteq> None" "advise AND ADVISE_FRAGMENT_PCLUSTER = 0"
    and n: "unat (div_ceil (i_size ino) (one_shl (z_bits ci sb))) = length es"
    and ent: "\<And>i. i < length es \<Longrightarrow> reads_as (es ! i)
      (case zm_format zm of LegacyIndex \<Rightarrow> read_lcluster_legacy zm dev (word_of_nat i) | CompactIndex \<Rightarrow> read_lcluster_compact zm dev (word_of_nat i))"
    and inl: "drop (unat (zm_index_start_offset zm + index_array_bytes zm)) img = inline_bytes ci @ rest"
      "unat (zm_index_start_offset zm + index_array_bytes zm) \<le> length img" "length (inline_bytes ci) < 2 ^ 16"
  shows "reads_back dev sb ino ci es"
proof -
  have nl: "unat (n_lclusters zm) = length es"
    using n zm(2) by (simp add: n_lclusters_def lcluster_size_def opened_def z_bits_def)
  have bound: "\<not> n_lclusters zm \<le> word_of_nat i" if "i < length es" for i
  proof -
    have "length es < 2 ^ 64" using nl unsigned_less [of "n_lclusters zm", where 'a = nat] by simp
    then show ?thesis using that nl by (simp add: word_le_nat_alt unat_of_nat)
  qed
  have "header_algo zm LCLUSTER_TYPE_HEAD1 = algorithm_from_id (algo_id (ci_algo ci))"
    using zm(2) by (simp add: header_algo_def opened_def)
  moreover have "reads_as (es ! i) (read_lcluster zm dev (word_of_nat i))" if "i < length es" for i
    using ent [OF that] bound [OF that] by (simp add: read_lcluster_def)
  moreover have "case ci_inline ci of None \<Rightarrow> tail_inline_offset_and_size zm = None
      | Some t \<Rightarrow> \<exists>off. tail_inline_offset_and_size zm = Some (off, word_of_nat (length t)) \<and> read_at dev off (length t) = Ok t"
  proof (cases "ci_inline ci")
    case None
    then show ?thesis using adv zm(2) by (simp add: tail_inline_offset_and_size_def has_inline_tail_def opened_def)
  next
    case (Some t)
    have frag: "\<not> has_fragment zm" using adv(2) zm(2) by (simp add: has_fragment_def opened_def has_full_fragment_def)
    have "ucast (idata_size (zm_header zm)) = (word_of_nat (length t) :: u32)"
      using Some inl(3) zm(2) by (simp add: opened_def inline_bytes_def word_unat_eq_iff unat_ucast_up unat_of_nat)
    moreover have "has_inline_tail zm" using adv(1) zm(2) Some by (simp add: has_inline_tail_def opened_def)
    ultimately have "tail_inline_offset_and_size zm = Some (zm_index_start_offset zm + index_array_bytes zm, word_of_nat (length t))"
      using frag by (simp add: tail_inline_offset_and_size_def)
    moreover have "read_at dev (zm_index_start_offset zm + index_array_bytes zm) (length t) = Ok t"
      using serves_prefix [OF img inl(1,2)] Some by (simp add: inline_bytes_def)
    ultimately show ?thesis using Some by auto
  qed
  ultimately show ?thesis unfolding reads_back_def using zm(1) by blast
qed

lemma trailer_in_image: "drop k img = map_header ci a @ xs \<Longrightarrow> k \<le> length img"
proof -
  assume "drop k img = map_header ci a @ xs"
  then have "length img - k = 8 + length xs" by (metis length_append length_drop length_map_header)
  then show ?thesis by simp
qed

lemma plan_length: "index_plan ci addrs ino sb start es \<Longrightarrow> length (ci_entries ci) = length es"
  unfolding index_plan_def using mapR_length by metis

lemma plan_entry_type: "index_plan ci addrs ino sb start es \<Longrightarrow> i < length es \<Longrightarrow> ce_cluster_type (es ! i) \<le> 3"
  by (simp add: index_plan_def entry_fits_def)

lemma legacy_reads_back:
  assumes plan: "index_plan ci addrs ino sb start es" "ci_format ci = Legacy" and img: "serves dev img"
    "drop (unat (body_end ino sb)) img = map_header ci (inline_advise ci) @ replicate 8 0 @ concat (map legacy_bytes es) @ inline_bytes ci @ rest"
  shows "reads_back dev sb ino ci es"
proof -
  let ?b = "body_end ino sb"
  have lay: "fmt_layout (i_format ino) = CompressionLegacy" "?b mod 8 = 0" using plan by (simp_all add: index_plan_def)
  have n: "unat (div_ceil (i_size ino) (one_shl (z_bits ci sb))) = length es" "length es < 2 ^ 32"
    and cb: "ci_lclusterbits ci AND 0x0F = ci_lclusterbits ci" and il: "length (inline_bytes ci) < 2 ^ 16"
    using plan(1) by (simp_all add: index_plan_def)
  obtain zm where zm: "zmap_open dev sb ino = Ok zm" "opened ino sb ci (inline_advise ci) zm" "zm_format zm = LegacyIndex"
    "zm_index_start_offset zm = ?b + 8 + 8"
    using zmap_open_written [OF img cb n [unfolded z_bits_def]] lay
    by (auto simp: next_multiple_of_def COMPACT_MAP_EBASE_ALIGN_def Z_EROFS_COMPACT_MAP_HEADER_SIZE_def)
  note s1 = serves_step [OF img(1) img(2) _ trailer_in_image [OF img(2)], of 8, simplified]
  note s2 = serves_step [OF img(1) conjunct1 [OF s1] _ conjunct2 [OF s1], of 8, simplified, folded add.assoc]
  have lc: "length (concat (map legacy_bytes es)) = length es * 8" by (simp add: length_concat comp_def sum_list_triv)
  have "n_lclusters zm = div_ceil (i_size ino) (one_shl (z_bits ci sb))"
    using zm(2) by (simp add: n_lclusters_def lcluster_size_def opened_def z_bits_def)
  then have ia: "unat (index_array_bytes zm) = length (concat (map legacy_bytes es))"
    using n zm(3) unfolding lc by (simp add: index_array_bytes_def Z_EROFS_LCLUSTER_INDEX_SIZE_def unat_mult_no_wrap)
  note s3 = serves_step [OF img(1) conjunct1 [OF s2] ia conjunct2 [OF s2]]
  show ?thesis
  proof (rule reads_back_intro [OF img(1) zm(1,2)])
    show "inline_advise ci AND ADVISE_INLINE_PCLUSTER \<noteq> 0 \<longleftrightarrow> ci_inline ci \<noteq> None"
      "inline_advise ci AND ADVISE_FRAGMENT_PCLUSTER = 0" by (simp_all add: inline_advise_def zmap_consts)
    show "reads_as (es ! i) (case zm_format zm of LegacyIndex \<Rightarrow> read_lcluster_legacy zm dev (word_of_nat i)
        | CompactIndex \<Rightarrow> read_lcluster_compact zm dev (word_of_nat i))" if "i < length es" for i
    proof -
      have "\<not> zm_big_pcluster zm" using zm(2) by (simp add: opened_def inline_advise_def zmap_consts)
      with read_legacy_entry [OF img(1) _ that n(2) plan_entry_type [OF plan(1) that], of zm] s2 zm(3,4)
      show ?thesis by simp
    qed
  qed (use s3 zm(4) n(1) il in simp_all)
qed

lemma compact_reads_back:
  assumes plan: "index_plan ci addrs ino sb start es" "ci_format ci = Compacted2B" and img: "serves dev img"
    and g: "g = geom_of ci (body_end ino sb)"
    and adv: "advise = (if cg_use_2b_middle g then ADVISE_COMPACTED_2B else 0) OR inline_advise ci"
    and at: "drop (unat (body_end ino sb)) img = map_header ci advise @ replicate (unat ((8 - body_end ino sb mod 8) mod 8)) 0
      @ index_of (max (z_bits ci sb) 12) g es @ inline_bytes ci @ rest"
  shows "reads_back dev sb ino ci es"
proof -
  let ?b = "body_end ino sb" and ?lob = "max (z_bits ci sb) 12"
  let ?eb = "next_multiple_of ?b COMPACT_MAP_EBASE_ALIGN + Z_EROFS_COMPACT_MAP_HEADER_SIZE"
  have lay: "fmt_layout (i_format ino) = Compression" "lobits_fit ?lob g" using plan g by (simp_all add: index_plan_def)
  have n: "unat (div_ceil (i_size ino) (one_shl (z_bits ci sb))) = length es" "length es < 2 ^ 32"
    and cb: "ci_lclusterbits ci AND 0x0F = ci_lclusterbits ci" and il: "length (inline_bytes ci) < 2 ^ 16"
    and es: "planned_entries start es" "\<forall>e\<in>set es. entry_fits ?lob e"
    using plan(1) by (simp_all add: index_plan_def)
  note sound = compact_geom_sound [of ?eb "word_of_nat (length es)", folded geom_of_def [of ci ?b, unfolded plan_length [OF plan(1)]], folded g]
  have un: "unat (word_of_nat (length es) :: u32) = length es" using n(2) by (simp add: unat_of_nat)
  have a2: "advise AND ADVISE_COMPACTED_2B \<noteq> 0 \<longleftrightarrow> cg_use_2b_middle g" "advise AND ADVISE_INLINE_PCLUSTER \<noteq> 0 \<longleftrightarrow> ci_inline ci \<noteq> None"
    "advise AND ADVISE_FRAGMENT_PCLUSTER = 0" "advise AND (ADVISE_BIG_PCLUSTER_1 OR ADVISE_BIG_PCLUSTER_2) = 0"
    by (simp_all add: adv inline_advise_def zmap_consts)
  obtain zm where zm: "zmap_open dev sb ino = Ok zm" "opened ino sb ci advise zm" "zm_format zm = CompactIndex"
    "zm_index_start_offset zm = ?eb" "zm_compact_4b_initial zm = cg_initial g" "zm_compact_2b zm = cg_middle g"
  proof (rule zmap_open_written [OF img at cb n [unfolded z_bits_def]])
    fix zm assume z: "zmap_open dev sb ino = Ok zm" "opened ino sb ci advise zm"
      "zm_format zm = (if fmt_layout (i_format ino) = Compression then CompactIndex else LegacyIndex)"
      "zm_index_start_offset zm = ?eb + (if fmt_layout (i_format ino) = Compression then 0 else 8)"
    assume i: "fmt_layout (i_format ino) = Compression \<Longrightarrow>
        zm_compact_4b_initial zm = min (compact_alignment_pad ?eb) (word_of_nat (length es))"
      and m: "fmt_layout (i_format ino) = Compression \<Longrightarrow> zm_compact_2b zm =
        (if advise AND ADVISE_COMPACTED_2B \<noteq> 0 \<and> zm_compact_4b_initial zm < word_of_nat (length es)
         then word_of_nat (length es) - zm_compact_4b_initial zm - (word_of_nat (length es) - zm_compact_4b_initial zm) mod 16 else 0)"
    have ci: "zm_compact_4b_initial zm = cg_initial g" unfolding i [OF lay(1)] sound(3) by (rule refl)
    have cm: "zm_compact_2b zm = cg_middle g" unfolding m [OF lay(1)] ci a2(1) by (rule sound(4) [symmetric])
    show thesis by (rule that [OF z(1,2) _ _ ci cm]) (simp_all add: z(3,4) lay(1))
  qed
  let ?d = "(8 - ?b mod 8) mod 8" and ?ix = "index_of ?lob g es"
  have eb: "?eb = ?b + 8 + ?d"
    by (simp add: COMPACT_MAP_EBASE_ALIGN_def Z_EROFS_COMPACT_MAP_HEADER_SIZE_def next_multiple_8 ac_simps)
  note s1 = serves_step [OF img at _ trailer_in_image [OF at], of 8, simplified]
  note s2 = serves_step [OF img conjunct1 [OF s1] _ conjunct2 [OF s1], of ?d, unfolded length_replicate, OF refl, folded eb zm(4)]
  have big: "\<not> zm_big_pcluster zm" using zm(2) a2(4) by (simp add: opened_def)
  have gs: "unat (cg_initial g) + unat (cg_middle g) + unat (cg_tail g) = length es" using sound(1) un by simp
  have zb: "zm_z_lclusterbits zm = z_bits ci sb" using zm(2) by (simp add: opened_def z_bits_def)
  have nl: "n_lclusters zm = div_ceil (i_size ino) (one_shl (z_bits ci sb))"
    using zm(2) by (simp add: n_lclusters_def lcluster_size_def opened_def z_bits_def)
  have "(ucast (n_lclusters zm) :: u32) = cg_initial g + cg_middle g + cg_tail g"
  proof (rule word_unat_eq_iff [THEN iffD2])
    have "unat (cg_initial g + cg_middle g) = unat (cg_initial g) + unat (cg_middle g)"
      using gs n(2) by (intro unat_add_no_wrap) simp
    then have "unat (cg_initial g + cg_middle g + cg_tail g) = length es"
      using gs n(2) by (subst unat_add_no_wrap) simp_all
    moreover have "unat (ucast (n_lclusters zm) :: u32) = length es"
      using nl n by (simp add: unsigned_ucast_eq take_bit_nat_eq_self)
    ultimately show "unat (ucast (n_lclusters zm) :: u32) = unat (cg_initial g + cg_middle g + cg_tail g)" by simp
  qed
  then have "index_array_bytes zm = compact_geom_bytes g"
    using zm(3,5,6) by (simp add: index_array_bytes_def compact_geom_bytes_def Let_def)
  then have ia: "unat (index_array_bytes zm) = length ?ix"
    by (simp add: unat_compact_geom_bytes index_of_def Let_def length_region_of shapes)
  note s3 = serves_step [OF img conjunct1 [OF s2] ia conjunct2 [OF s2]]
  show ?thesis
  proof (rule reads_back_intro [OF img zm(1,2) a2(2,3) n(1)])
    show "reads_as (es ! i) (case zm_format zm of LegacyIndex \<Rightarrow> read_lcluster_legacy zm dev (word_of_nat i)
        | CompactIndex \<Rightarrow> read_lcluster_compact zm dev (word_of_nat i))" if "i < length es" for i
      using read_index_entry [OF img conjunct1 [OF s2] conjunct2 [OF s2] es n(2) gs lay(2) big zm(5,6) _ that] zm(3) zb by simp
  qed (use s3 il in simp_all)
qed

lemma compact_trailer_is:
  assumes "mapR (compact_entry_of addrs) (ci_entries ci) = Ok es" "g = geom_of ci bend"
    "length es < 2 ^ 32" "lobits = max (ucast blkszbits + ucast (ci_lclusterbits ci)) 12"
  shows "compact_trailer ci addrs bend blkszbits =
    Ok (map_header ci ((if cg_use_2b_middle g then ADVISE_COMPACTED_2B else 0) OR inline_advise ci)
        @ replicate (unat ((8 - bend mod 8) mod 8)) 0 @ index_of lobits g es @ inline_bytes ci)"
proof -
  have l: "length (ci_entries ci) = length es" using mapR_length [OF assms(1)] by simp
  have un: "unat (word_of_nat (length es) :: u32) = length es" using assms(3) by (simp add: unat_of_nat)
  note sound = compact_geom_sound(1,2) [of "next_multiple_of bend COMPACT_MAP_EBASE_ALIGN + Z_EROFS_COMPACT_MAP_HEADER_SIZE"
      "word_of_nat (length es)", folded geom_of_def [of ci bend, unfolded l], folded assms(2), unfolded un]
  show ?thesis
    unfolding compact_trailer_def Let_def assms(1) bindR_simps geom_of_def [symmetric] assms(2) [symmetric]
      assms(4) [symmetric] encode_index_gives [OF sound]
    by (simp add: map_header_def inline_advise_def)
qed

section \<open>A concrete index\<close>

text \<open>
  A compacted index of 23 logical clusters of 512 bytes, three to a physical one, the last of which is
  inlined: six entries in packs of two, sixteen in a pack of 28 bytes, one in the trailing region.
\<close>

definition demo_index :: compressed_index where
  "demo_index = \<lparr>ci_algo = AlgoLz4, ci_lclusterbits = 0,
     ci_entries = map (\<lambda>i. if i mod 3 = 0
         then \<lparr>li_cluster_type = 1, li_clusterofs_or_delta0 = 0, li_pcluster_idx = word_of_nat (i div 3)\<rparr>
         else \<lparr>li_cluster_type = 2, li_clusterofs_or_delta0 = word_of_nat (i mod 3), li_pcluster_idx = word_of_nat (i div 3)\<rparr>)
       [0..<23],
     ci_format = Compacted2B, ci_inline = Some [7, 8, 9]\<rparr>"

definition demo_addrs :: "u32 list" where "demo_addrs = [100, 101, 102, 103, 104, 105, 106, 0]"

definition demo_centries :: "compact_entry list" where
  "demo_centries = map (\<lambda>i. if i mod 3 = 0
      then \<lparr>ce_cluster_type = 1, ce_lo = 0, ce_pcluster_blkaddr = (if i = 21 then 0 else word_of_nat (100 + i div 3))\<rparr>
      else \<lparr>ce_cluster_type = 2, ce_lo = word_of_nat (i mod 3), ce_pcluster_blkaddr = 0\<rparr>) [0..<23]"

definition demo_cino :: inode where
  "demo_cino = (demo_chunked 11776 0)\<lparr>i_format := \<lparr>fmt_version = Compact, fmt_layout = Compression, fmt_flags = 0\<rparr>\<rparr>"

lemma demo_cbody_end: "body_end demo_cino demo_sb512 = 544"
proof -
  have "body_end demo_cino demo_sb512 = body_end (demo_chunked 11776 0) demo_sb512"
    by (simp add: body_end_def demo_cino_def demo_chunked_def)
  then show ?thesis using demo_body_end [of 11776 0] by (simp add: word_unat_eq_iff)
qed

lemma demo_length: "length demo_centries = 23" "length (ci_entries demo_index) = 23"
  by (simp_all add: demo_centries_def demo_index_def)

lemma demo_z_bits: "z_bits demo_index demo_sb512 = 9"
  by (simp add: z_bits_def demo_index_def demo_sb512_def written_sb_def)

lemma in_order_within: "in_order start es = (\<forall>k<length es. \<not> is_nonhead (es ! k) \<longrightarrow>
     (unat (ce_pcluster_blkaddr (es ! k)) = start + heads (take k es)
      \<or> (ce_pcluster_blkaddr (es ! k) = 0 \<and> (\<forall>j<length es. k < j \<longrightarrow> is_nonhead (es ! j)))))"
  unfolding in_order_def by blast

lemma demo_geom: "geom_of demo_index 544 = \<lparr>cg_initial = 6, cg_middle = 16, cg_tail = 1, cg_use_2b_middle = True\<rparr>"
  by (simp add: geom_of_def demo_length compute_compact_geom_def next_multiple_of_def zmap_consts)

lemma demo_plan: "index_plan demo_index demo_addrs demo_cino demo_sb512 100 demo_centries"
proof -
  have m: "mapR (compact_entry_of demo_addrs) (ci_entries demo_index) = Ok demo_centries" by code_simp
  have "\<forall>k<length demo_centries. chained demo_centries k" by code_simp
  moreover have "in_order 100 demo_centries" unfolding in_order_within by code_simp
  ultimately have p: "planned_entries 100 demo_centries" by (simp add: planned_entries_def demo_length)
  have f: "\<forall>e\<in>set demo_centries. entry_fits 12 e" by code_simp
  have sz: "i_size demo_cino = 11776" "fmt_layout (i_format demo_cino) = Compression"
    by (simp_all add: demo_cino_def demo_chunked_def)
  have o9: "one_shl 9 = 512" by (simp add: one_shl_def push_bit_eq_mult)
  show ?thesis
    unfolding index_plan_def demo_z_bits demo_cbody_end demo_geom demo_length sz o9
    using m p f by (simp add: demo_index_def inline_bytes_def lobits_fit_def div_ceil_def)
qed

section \<open>Where the two sides part\<close>

text \<open>
  Behind an inode that ends four bytes off a multiple of eight, the reader looks for the legacy index four
  bytes past where the writer has put it: the header is not padded, as the compacted one is.
\<close>

lemma legacy_index_missed:
  assumes img: "serves dev img" "drop (unat (body_end ino sb)) img = map_header ci (inline_advise ci) @ replicate 8 0 @ entries"
    and n: "unat (div_ceil (i_size ino) (one_shl (z_bits ci sb))) < 2 ^ 32" "ci_lclusterbits ci AND 0x0F = ci_lclusterbits ci"
    and lay: "fmt_layout (i_format ino) = CompressionLegacy" "body_end ino sb mod 8 = 4"
  obtains zm where "zmap_open dev sb ino = Ok zm" "zm_index_start_offset zm = body_end ino sb + 16 + 4"
proof -
  have e: "next_multiple_of (body_end ino sb) 8 + 8 + 8 = body_end ino sb + 16 + 4" by (simp add: next_multiple_8 lay(2))
  show thesis
    by (rule zmap_open_written [OF img n(2) refl n(1) [unfolded z_bits_def]])
      (use that e lay(1) in \<open>auto simp: COMPACT_MAP_EBASE_ALIGN_def Z_EROFS_COMPACT_MAP_HEADER_SIZE_def\<close>)
qed

text \<open>
  Logical clusters of 8192 bytes need thirteen offset bits, one more than an entry of fourteen has beside its
  type: the type of one entry is written over the offset of the next.
\<close>

lemma wide_entries_collide:
  assumes "ce_cluster_type e = 2" "ce_lo e = 1" "ce_cluster_type e' = 1" "ce_lo e' = 0"
  shows "\<exists>t lo. decode_packed_entry (two_byte 13) (write_entries [e, e'] 0 14 13 (replicate 28 0)) 1 = Ok (t, lo) \<and> lo \<noteq> ce_lo e'"
proof -
  let ?a = "pack_write_entry (replicate 28 0) 0 13 2 1" and ?bs = "write_entries [e, e'] 0 14 13 (replicate 28 0)"
  have one: "q < unat (13 :: u32)" if "bit (1 :: u32) q" for q
  proof -
    have "q = 0" using that unfolding bit_1_iff .
    then show ?thesis by simp
  qed
  have zero: "bit (0 :: u32) q \<Longrightarrow> q < unat (13 :: u32)" for q by simp
  have "bit (entry_value 13 2 1) 14" 
    using entry_value_bits [where lobits = 13 and lo = 1 and t = 2 and q = 14, OF _ one] by (simp add: bit_iff_odd)
  then have "sbit ?a 14" using pack_write_bits(2) [where lobits = 13 and lo = 1 and t = 2 and bs = "replicate 28 0" and pos = 0 and p = 14, OF _ one] by simp
  moreover have "length ?a = 28" using pack_write_bits(1) [where lobits = 13 and lo = 1 and t = 2 and bs = "replicate 28 0" and pos = 0, OF _ one] by simp
  ultimately have s: "sbit ?bs 14"
    using pack_write_bits(2) [where lobits = 13 and lo = 0 and t = 1 and bs = ?a and pos = 14 and p = 14, OF _ zero] assms by simp
  show ?thesis
  proof (rule decode_packed_bits [of "two_byte 13" 1 14 ?bs])
    show "unat (g_lobits (two_byte 13)) \<le> 23" "unat (g_encodebits (two_byte 13) * 1) = 14"
      by (simp_all add: two_byte_def from_shape_def COMPACT_2B_def)
    fix t lo assume d: "decode_packed_entry (two_byte 13) ?bs 1 = Ok (t, lo)"
      and l: "\<And>q. bit lo q = (q < unat (g_lobits (two_byte 13)) \<and> sbit ?bs (14 + q))"
    have "bit lo 0" using s by (subst l) (simp add: two_byte_def from_shape_def)
    then have "lo \<noteq> ce_lo e'" using assms(4) by (intro notI) simp
    with d show ?thesis by blast
  qed
qed

text \<open>C37: the trailer that \<open>encode_zmap_trailer\<close> writes behind a compressed inode is read back: for entries
  as the planner makes them (NONHEAD entries count the distance to their head, the clusters follow one
  another in blocks of one), the reader opens the map with the codec that was written, gives every
  entry back, whichever index format and whichever of the three regions of packs it lies in, and finds
  the inlined last cluster. The legacy format needs the inode to end on a multiple of eight, and the
  packs need the offset bits of an entry to fit in them.
\<close>

theorem zmap_trailer_roundtrip:
  assumes "index_plan ci addrs ino sb start es"
  shows "\<exists>tr. encode_zmap_trailer ci addrs (body_end ino sb) (sb_blkszbits sb) = Ok tr
    \<and> (\<forall>dev img rest. serves dev img \<longrightarrow> drop (unat (body_end ino sb)) img = tr @ rest
          \<longrightarrow> reads_back dev sb ino ci es)"
proof (cases "ci_format ci")
  case Legacy
  have "mapR (legacy_entry addrs) (ci_entries ci) = Ok (map legacy_bytes es)"
    using assms by (simp add: index_plan_def legacy_entries)
  with Legacy show ?thesis
    by (auto simp: encode_zmap_trailer_def legacy_trailer_is intro: legacy_reads_back [OF assms Legacy])
next
  case Compacted2B
  have m: "mapR (compact_entry_of addrs) (ci_entries ci) = Ok es" "length es < 2 ^ 32"
    using assms by (simp_all add: index_plan_def)
  show ?thesis
    using compact_trailer_is [OF m(1) refl m(2) refl, of "body_end ino sb" "sb_blkszbits sb", folded z_bits_def] Compacted2B
    by (auto simp: encode_zmap_trailer_def intro: compact_reads_back [OF assms Compacted2B _ refl refl])
qed

theorem zmap_trailer_roundtrip_witness:
  "\<exists>tr. encode_zmap_trailer demo_index demo_addrs 544 9 = Ok tr
     \<and> reads_back (mem_dev (replicate 544 0 @ tr)) demo_sb512 demo_cino demo_index demo_centries"
proof -
  have b9: "sb_blkszbits demo_sb512 = 9" by (simp add: demo_sb512_def written_sb_def)
  obtain tr where tr: "encode_zmap_trailer demo_index demo_addrs 544 9 = Ok tr"
    and rb: "\<forall>dev img rest. serves dev img \<longrightarrow> drop (unat (544 :: u64)) img = tr @ rest
        \<longrightarrow> reads_back dev demo_sb512 demo_cino demo_index demo_centries"
    using zmap_trailer_roundtrip [OF demo_plan, unfolded demo_cbody_end b9] by blast
  have m: "mapR (compact_entry_of demo_addrs) (ci_entries demo_index) = Ok demo_centries"
    using demo_plan by (simp add: index_plan_def)
  have fmt: "ci_format demo_index = Compacted2B" "ci_lclusterbits demo_index = 0" "ci_inline demo_index = Some [7, 8, 9]"
    by (simp_all add: demo_index_def)
  have "length tr < 2 ^ 32"
    using tr compact_trailer_is [OF m refl, of 12 9 544] demo_geom
    by (auto simp: encode_zmap_trailer_def demo_length fmt inline_bytes_def index_of_def length_region_of shapes
        packs_needed_shapes length_pack_of)
  then have "serves (mem_dev (replicate 544 0 @ tr)) (replicate 544 0 @ tr)" by (intro serves_mem_dev) simp
  moreover have "drop (unat (544 :: u64)) (replicate 544 0 @ tr) = tr @ []" by simp
  ultimately have "reads_back (mem_dev (replicate 544 0 @ tr)) demo_sb512 demo_cino demo_index demo_centries"
    using rb by blast
  with tr show ?thesis by blast
qed

end
