(* ===== verification/Collator.thy ===== *)
theory Collator
  imports IndexWriter
begin

text \<open>
  The planner of compressed files (\<open>plan_compressed_pclusters_with_cfg\<close> and what it calls in
  \<open>src/mkfs.rs\<close>): logical clusters are appended to the open physical cluster as long as its frame fits
  the block budget and saves space, one that does not compress is stored as it is, and every logical
  cluster gets an index entry. The three encoders are crates, and so parameters.
\<close>

record encoders =
  enc_lz4 :: "bytes \<Rightarrow> bytes"
  enc_lzma :: "bytes \<Rightarrow> bytes"
  enc_deflate :: "bytes \<Rightarrow> bytes"

section \<open>The planner\<close>

text \<open>The LZMA header of thirteen bytes holds the dictionary size at offset one.\<close>

definition compress_lcluster_with_cfg :: "encoders \<Rightarrow> compressed_algo \<Rightarrow> bytes \<Rightarrow> u32 option \<Rightarrow> bytes" where
  "compress_lcluster_with_cfg E algo src lzma_dict_size_override =
     (case algo of
        AlgoLz4 \<Rightarrow> enc_lz4 E src
      | AlgoLzma \<Rightarrow>
          (let out = enc_lzma E src in
           case lzma_dict_size_override of
             Some d \<Rightarrow> if 13 \<le> length out then put out 1 (to_le32 d) else out
           | None \<Rightarrow> out)
      | AlgoDeflate \<Rightarrow> enc_deflate E src)"

record pcluster_plan =
  pp_block_bytes :: bytes
  pp_cluster_type :: u8
  pp_block_count :: u32
  pp_raw_compressed :: bytes
  pp_head_lcluster_idx :: u32
  pp_n_lclusters :: u32

record open_pcluster =
  op_head_lcluster_idx :: u32
  op_n_lclusters :: u32
  op_src_buf :: bytes
  op_compressed :: bytes
  op_cluster_type :: u8

definition pad_pcluster_block :: "bytes \<Rightarrow> u64 \<Rightarrow> u32 \<Rightarrow> u8 \<Rightarrow> compressed_algo \<Rightarrow> bytes result" where
  "pad_pcluster_block payload bs target_blocks cluster_type algo =
     (let total_bytes = unat bs * unat target_blocks in
      if 2 ^ 64 \<le> total_bytes then Err (BadInode ''pcluster total bytes overflow'')
      else if total_bytes < length payload then Err (BadInode ''pcluster payload exceeds block budget'')
      else
        let block = replicate total_bytes 0 in
        if cluster_type = LCLUSTER_TYPE_HEAD1 then
          (case algo of
             AlgoLz4 \<Rightarrow> put_at block (total_bytes - length payload) payload
           | AlgoLzma \<Rightarrow> put_at block 0 payload
           | AlgoDeflate \<Rightarrow> put_at block 0 payload)
        else put_at block 0 payload)"

definition open_finalize :: "open_pcluster \<Rightarrow> u64 \<Rightarrow> u32 \<Rightarrow> compressed_algo \<Rightarrow> pcluster_plan result" where
  "open_finalize self bs target_blocks algo =
     bindR (pad_pcluster_block (op_compressed self) bs target_blocks (op_cluster_type self) algo) (\<lambda>block_bytes.
       Ok \<lparr>pp_block_bytes = block_bytes, pp_cluster_type = op_cluster_type self, pp_block_count = target_blocks,
           pp_raw_compressed = op_compressed self, pp_head_lcluster_idx = op_head_lcluster_idx self,
           pp_n_lclusters = op_n_lclusters self\<rparr>)"

text \<open>The variables of the loop.\<close>

record collate =
  co_pclusters :: "pcluster_plan list"
  co_entries :: "lcluster_index_entry list"
  co_total_blocks :: u32
  co_open :: "open_pcluster option"

definition commit :: "pcluster_plan \<Rightarrow> u32 \<Rightarrow> collate \<Rightarrow> collate result" where
  "commit pc blocks st =
     bindR (ok_or (checked_add (co_total_blocks st) blocks) (BadInode ''compressed blocks overflow u32'')) (\<lambda>n.
       Ok (st\<lparr>co_total_blocks := n, co_pclusters := co_pclusters st @ [pc]\<rparr>))"

text \<open>\<open>if let Some(prev) = open.take()\<close>: the open cluster is finished and pushed.\<close>

definition close_open :: "u64 \<Rightarrow> u32 \<Rightarrow> compressed_algo \<Rightarrow> collate \<Rightarrow> collate result" where
  "close_open bs target_blocks algo st =
     (case co_open st of
        None \<Rightarrow> Ok st
      | Some prev \<Rightarrow>
          bindR (open_finalize prev bs target_blocks algo) (\<lambda>pc.
            commit pc (pp_block_count pc) (st\<lparr>co_open := None\<rparr>)))"

text \<open>The open cluster with one more logical cluster, when its frame still fits and still saves space.\<close>

definition try_extend ::
    "encoders \<Rightarrow> compressed_algo \<Rightarrow> u32 option \<Rightarrow> usize \<Rightarrow> bytes \<Rightarrow> open_pcluster option \<Rightarrow> (bytes \<times> bytes) option" where
  "try_extend E algo lzma_dict_size_override pcluster_budget_bytes chunk op =
     (case op of
        None \<Rightarrow> None
      | Some cur \<Rightarrow>
          if op_cluster_type cur \<noteq> LCLUSTER_TYPE_HEAD1 then None
          else
            let trial_src = op_src_buf cur @ chunk;
                trial_compressed = compress_lcluster_with_cfg E algo trial_src lzma_dict_size_override
            in if length trial_compressed \<le> pcluster_budget_bytes \<and> length trial_compressed < length trial_src
               then Some (trial_src, trial_compressed) else None)"

definition absorb :: "u64 \<Rightarrow> bytes \<times> bytes \<Rightarrow> open_pcluster \<Rightarrow> collate \<Rightarrow> collate result" where
  "absorb i new cur st =
     (let pcluster_idx = word_of_nat (length (co_pclusters st));
          delta0 = ucast i - op_head_lcluster_idx cur
      in if 0xFFFF < delta0
         then Err (BadInode ''pcluster spans more lclusters than NONHEAD delta[0] can encode'')
         else
           Ok (st\<lparr>co_open := Some (cur\<lparr>op_src_buf := fst new, op_compressed := snd new,
                                       op_n_lclusters := op_n_lclusters cur + 1\<rparr>),
                  co_entries := co_entries st
                    @ [\<lparr>li_cluster_type = LCLUSTER_TYPE_NONHEAD, li_clusterofs_or_delta0 = ucast delta0,
                        li_pcluster_idx = pcluster_idx\<rparr>]\<rparr>))"

text \<open>A fresh cluster: compressed and left open, or stored as it is and pushed at once.\<close>

definition start_fresh ::
    "encoders \<Rightarrow> compressed_algo \<Rightarrow> u32 option \<Rightarrow> usize \<Rightarrow> u64 \<Rightarrow> u32 \<Rightarrow> u64 \<Rightarrow> bytes \<Rightarrow> collate \<Rightarrow> collate result" where
  "start_fresh E algo lzma_dict_size_override pcluster_budget_bytes bs target_blocks i chunk st =
     (let single_compressed = compress_lcluster_with_cfg E algo chunk lzma_dict_size_override;
          cluster_type = (if length single_compressed < length chunk \<and> length single_compressed \<le> pcluster_budget_bytes
                          then LCLUSTER_TYPE_HEAD1 else LCLUSTER_TYPE_PLAIN);
          pcluster_idx = word_of_nat (length (co_pclusters st));
          st = st\<lparr>co_entries := co_entries st @ [\<lparr>li_cluster_type = cluster_type, li_clusterofs_or_delta0 = 0,
                                                 li_pcluster_idx = pcluster_idx\<rparr>]\<rparr>
      in if cluster_type = LCLUSTER_TYPE_PLAIN then
           bindR (pad_pcluster_block chunk bs target_blocks LCLUSTER_TYPE_PLAIN algo) (\<lambda>block_bytes.
             commit \<lparr>pp_block_bytes = block_bytes, pp_cluster_type = cluster_type, pp_block_count = target_blocks,
                     pp_raw_compressed = chunk, pp_head_lcluster_idx = ucast i, pp_n_lclusters = 1\<rparr>
               target_blocks st)
         else
           Ok (st\<lparr>co_open := Some \<lparr>op_head_lcluster_idx = ucast i, op_n_lclusters = 1, op_src_buf = chunk,
                                   op_compressed = single_compressed, op_cluster_type = LCLUSTER_TYPE_HEAD1\<rparr>\<rparr>))"

definition plan_lcluster ::
    "encoders \<Rightarrow> bytes \<Rightarrow> compressed_algo \<Rightarrow> u64 \<Rightarrow> u64 \<Rightarrow> u32 \<Rightarrow> u32 option \<Rightarrow> u64 \<Rightarrow> collate \<Rightarrow> collate result" where
  "plan_lcluster E src algo lcsize bs target_blocks lzma_dict_size_override i st =
     (let pcluster_budget_bytes = min (2 ^ 64 - 1) (unat bs * unat target_blocks);
          start = unat (i * lcsize);
          stop = min (start + unat lcsize) (length src)
      in bindR (slice src start stop) (\<lambda>chunk.
         case (co_open st, try_extend E algo lzma_dict_size_override pcluster_budget_bytes chunk (co_open st)) of
           (Some cur, Some new) \<Rightarrow> absorb i new cur st
         | _ \<Rightarrow>
             bindR (close_open bs target_blocks algo st) (\<lambda>st.
               start_fresh E algo lzma_dict_size_override pcluster_budget_bytes bs target_blocks i chunk st)))"

fun plan_lclusters ::
    "encoders \<Rightarrow> bytes \<Rightarrow> compressed_algo \<Rightarrow> u64 \<Rightarrow> u64 \<Rightarrow> u32 \<Rightarrow> u32 option \<Rightarrow> nat list \<Rightarrow> collate \<Rightarrow> collate result" where
  "plan_lclusters E src algo lcs bs target_blocks ovr [] st = Ok st"
| "plan_lclusters E src algo lcs bs target_blocks ovr (i # is) st =
     bindR (plan_lcluster E src algo lcs bs target_blocks ovr (word_of_nat i) st)
       (\<lambda>st. plan_lclusters E src algo lcs bs target_blocks ovr is st)"

definition plan_compressed_pclusters_with_cfg ::
    "encoders \<Rightarrow> bytes \<Rightarrow> compressed_algo \<Rightarrow> u8 \<Rightarrow> u64 \<Rightarrow> u32 \<Rightarrow> u32 option
       \<Rightarrow> (pcluster_plan list \<times> lcluster_index_entry list \<times> u32) result" where
  "plan_compressed_pclusters_with_cfg E src algo lclusterbits bs target_pcluster_blocks lzma_dict_size_override =
     (if 4 < lclusterbits then Err (BadInode ''lclusterbits > 4 not supported in W2a'')
      else
        let lcsize = push_bit (unat lclusterbits mod 64) bs in
        if lcsize = 0 then Err (BadInode ''lcluster_size overflow'')
        else
          let n_lclusters = (if src = [] then 0 else div_ceil (word_of_nat (length src)) lcsize);
              target_blocks = max target_pcluster_blocks 1
          in bindR (plan_lclusters E src algo lcsize bs target_blocks lzma_dict_size_override
                      [0..<unat n_lclusters]
                      \<lparr>co_pclusters = [], co_entries = [], co_total_blocks = 0, co_open = None\<rparr>) (\<lambda>st.
             bindR (close_open bs target_blocks algo st) (\<lambda>st.
               Ok (co_pclusters st, co_entries st, co_total_blocks st))))"

section \<open>What a plan is\<close>

definition piece :: "nat \<Rightarrow> bytes \<Rightarrow> nat \<Rightarrow> nat \<Rightarrow> bytes" where
  "piece lcs src a n = take (n * lcs) (drop (a * lcs) src)"

text \<open>The logical cluster a physical one begins with is the number of those that come before it.\<close>

definition run_start :: "pcluster_plan list \<Rightarrow> nat \<Rightarrow> nat" where
  "run_start pcs j = sum_list (map (unat \<circ> pp_n_lclusters) (take j pcs))"

definition index_run :: "u8 \<Rightarrow> nat \<Rightarrow> nat \<Rightarrow> lcluster_index_entry list" where
  "index_run t j n =
     \<lparr>li_cluster_type = t, li_clusterofs_or_delta0 = 0, li_pcluster_idx = word_of_nat j\<rparr>
     # map (\<lambda>d. \<lparr>li_cluster_type = LCLUSTER_TYPE_NONHEAD, li_clusterofs_or_delta0 = word_of_nat d,
                   li_pcluster_idx = word_of_nat j\<rparr>) [1..<n]"

definition index_runs :: "pcluster_plan list \<Rightarrow> lcluster_index_entry list" where
  "index_runs pcs = concat (map (\<lambda>j. index_run (pp_cluster_type (pcs ! j)) j (unat (pp_n_lclusters (pcs ! j)))) [0..<length pcs])"

text \<open>A frame is stored when it fits the budget and is shorter than what it stands for.\<close>

definition framed :: "encoders \<Rightarrow> compressed_algo \<Rightarrow> u32 option \<Rightarrow> nat \<Rightarrow> bytes \<Rightarrow> bytes \<Rightarrow> bool" where
  "framed E algo ovr budget s raw =
     (raw = compress_lcluster_with_cfg E algo s ovr \<and> length raw < length s \<and> length raw \<le> budget)"

definition pcluster_ok ::
    "encoders \<Rightarrow> bytes \<Rightarrow> compressed_algo \<Rightarrow> u32 option \<Rightarrow> nat \<Rightarrow> u64 \<Rightarrow> u32 \<Rightarrow> pcluster_plan \<Rightarrow> nat \<Rightarrow> bool" where
  "pcluster_ok E src algo ovr lcs bs tb pc a =
     (let n = unat (pp_n_lclusters pc); s = piece lcs src a n; raw = pp_raw_compressed pc in
      pp_head_lcluster_idx pc = word_of_nat a \<and> 0 < n \<and> pp_block_count pc = tb
      \<and> (pp_cluster_type pc = LCLUSTER_TYPE_HEAD1 \<and> framed E algo ovr (unat bs * unat tb) s raw
         \<or> pp_cluster_type pc = LCLUSTER_TYPE_PLAIN \<and> n = 1 \<and> raw = s)
      \<and> pad_pcluster_block raw bs tb (pp_cluster_type pc) algo = Ok (pp_block_bytes pc))"

definition pclusters_ok ::
    "encoders \<Rightarrow> bytes \<Rightarrow> compressed_algo \<Rightarrow> u32 option \<Rightarrow> nat \<Rightarrow> u64 \<Rightarrow> u32 \<Rightarrow> pcluster_plan list \<Rightarrow> bool" where
  "pclusters_ok E src algo ovr lcs bs tb pcs =
     (\<forall>j<length pcs. pcluster_ok E src algo ovr lcs bs tb (pcs ! j) (run_start pcs j))"

definition open_ok ::
    "encoders \<Rightarrow> bytes \<Rightarrow> compressed_algo \<Rightarrow> u32 option \<Rightarrow> nat \<Rightarrow> nat \<Rightarrow> open_pcluster \<Rightarrow> nat \<Rightarrow> bool" where
  "open_ok E src algo ovr lcs budget cur a =
     (op_cluster_type cur = LCLUSTER_TYPE_HEAD1 \<and> op_head_lcluster_idx cur = word_of_nat a
      \<and> 0 < unat (op_n_lclusters cur) \<and> op_src_buf cur = piece lcs src a (unat (op_n_lclusters cur))
      \<and> framed E algo ovr budget (op_src_buf cur) (op_compressed cur))"

definition open_n :: "open_pcluster option \<Rightarrow> nat" where
  "open_n op = (case op of None \<Rightarrow> 0 | Some cur \<Rightarrow> unat (op_n_lclusters cur))"

definition open_run :: "open_pcluster option \<Rightarrow> nat \<Rightarrow> lcluster_index_entry list" where
  "open_run op j = (case op of None \<Rightarrow> [] | Some cur \<Rightarrow> index_run LCLUSTER_TYPE_HEAD1 j (unat (op_n_lclusters cur)))"

text \<open>The state after \<open>i\<close> logical clusters.\<close>

definition collate_inv ::
    "encoders \<Rightarrow> bytes \<Rightarrow> compressed_algo \<Rightarrow> u32 option \<Rightarrow> nat \<Rightarrow> u64 \<Rightarrow> u32 \<Rightarrow> nat \<Rightarrow> collate \<Rightarrow> bool" where
  "collate_inv E src algo ovr lcs bs tb i st =
     (let pcs = co_pclusters st; done = run_start pcs (length pcs) in
      pclusters_ok E src algo ovr lcs bs tb pcs
      \<and> (case co_open st of None \<Rightarrow> True | Some cur \<Rightarrow> open_ok E src algo ovr lcs (unat bs * unat tb) cur done)
      \<and> done + open_n (co_open st) = i
      \<and> co_entries st = index_runs pcs @ open_run (co_open st) (length pcs)
      \<and> unat (co_total_blocks st) = length pcs * unat tb)"

lemma run_start_snoc:
  "j \<le> length pcs \<Longrightarrow> run_start (pcs @ [pc]) j = run_start pcs j"
  "run_start (pcs @ [pc]) (Suc (length pcs)) = run_start pcs (length pcs) + unat (pp_n_lclusters pc)"
  by (simp_all add: run_start_def)

lemma index_runs_snoc:
  "index_runs (pcs @ [pc]) = index_runs pcs @ index_run (pp_cluster_type pc) (length pcs) (unat (pp_n_lclusters pc))"
proof -
  have "map (\<lambda>j. index_run (pp_cluster_type ((pcs @ [pc]) ! j)) j (unat (pp_n_lclusters ((pcs @ [pc]) ! j)))) [0..<length pcs]
      = map (\<lambda>j. index_run (pp_cluster_type (pcs ! j)) j (unat (pp_n_lclusters (pcs ! j)))) [0..<length pcs]"
    by (rule map_cong) (simp_all add: nth_append)
  then show ?thesis unfolding index_runs_def by (simp del: map_eq_conv)
qed

lemma pclusters_ok_snoc:
  "pclusters_ok E src algo ovr lcs bs tb pcs \<Longrightarrow> pcluster_ok E src algo ovr lcs bs tb pc (run_start pcs (length pcs)) \<Longrightarrow>
   pclusters_ok E src algo ovr lcs bs tb (pcs @ [pc])"
  by (auto simp: pclusters_ok_def less_Suc_eq nth_append run_start_snoc(1))

lemma index_run_Suc:
  "0 < n \<Longrightarrow> index_run t j (Suc n) = index_run t j n @ [\<lparr>li_cluster_type = LCLUSTER_TYPE_NONHEAD,
     li_clusterofs_or_delta0 = word_of_nat n, li_pcluster_idx = word_of_nat j\<rparr>]"
  by (simp add: index_run_def)

lemma piece_add: "piece lcs src a (m + n) = piece lcs src a m @ piece lcs src (a + m) n"
  by (simp add: piece_def algebra_simps take_add)

lemma commit_ok:
  "commit pc blocks st = Ok st' \<longleftrightarrow> unat (co_total_blocks st) + unat blocks < 2 ^ 32
     \<and> st' = st\<lparr>co_total_blocks := co_total_blocks st + blocks, co_pclusters := co_pclusters st @ [pc]\<rparr>"
  by (auto simp: commit_def checked_add_def)

lemma close_open_inv:
  assumes inv: "collate_inv E src algo ovr lcs bs tb i st" and ok: "close_open bs tb algo st = Ok st'"
  shows "collate_inv E src algo ovr lcs bs tb i st'" "co_open st' = None"
proof -
  have "collate_inv E src algo ovr lcs bs tb i st' \<and> co_open st' = None"
  proof (cases "co_open st")
    case None
    then show ?thesis using inv ok by (simp add: close_open_def)
  next
    case (Some cur)
    let ?pcs = "co_pclusters st" let ?done = "run_start ?pcs (length ?pcs)"
    from ok Some obtain bb where pad: "pad_pcluster_block (op_compressed cur) bs tb (op_cluster_type cur) algo = Ok bb"
      and fit: "unat (co_total_blocks st) + unat tb < 2 ^ 32"
      and st': "st' = st\<lparr>co_open := None, co_total_blocks := co_total_blocks st + tb,
        co_pclusters := ?pcs @ [\<lparr>pp_block_bytes = bb, pp_cluster_type = op_cluster_type cur, pp_block_count = tb,
           pp_raw_compressed = op_compressed cur, pp_head_lcluster_idx = op_head_lcluster_idx cur,
           pp_n_lclusters = op_n_lclusters cur\<rparr>]\<rparr>" (is "_ = _\<lparr>co_open := _, co_total_blocks := _, co_pclusters := _ @ [?pc]\<rparr>")
      by (auto simp: close_open_def open_finalize_def commit_ok)
    have o: "open_ok E src algo ovr lcs (unat bs * unat tb) cur ?done" and pcs: "pclusters_ok E src algo ovr lcs bs tb ?pcs"
      and rest: "?done + unat (op_n_lclusters cur) = i" "co_entries st = index_runs ?pcs @ open_run (Some cur) (length ?pcs)"
        "unat (co_total_blocks st) = length ?pcs * unat tb"
      using inv Some by (simp_all add: collate_inv_def Let_def open_n_def)
    have "pcluster_ok E src algo ovr lcs bs tb ?pc ?done"
      using o pad by (auto simp: pcluster_ok_def open_ok_def Let_def)
    then have "pclusters_ok E src algo ovr lcs bs tb (?pcs @ [?pc])" by (rule pclusters_ok_snoc [OF pcs])
    moreover have "index_runs (?pcs @ [?pc]) = co_entries st"
      using o rest(2) by (simp add: index_runs_snoc open_run_def open_ok_def)
    moreover have "unat (co_total_blocks st + tb) = (length ?pcs + 1) * unat tb"
      using fit rest(3) by (subst unat_add_no_wrap) simp_all
    ultimately show ?thesis using rest(1) unfolding st'
      by (simp add: collate_inv_def Let_def open_n_def open_run_def run_start_snoc(2))
  qed
  then show "collate_inv E src algo ovr lcs bs tb i st'" "co_open st' = None" by blast+
qed

text \<open>The lengths a plan is made for: blocks of the format, a source below a tebibyte.\<close>

definition plan_sizes :: "bytes \<Rightarrow> nat \<Rightarrow> u64 \<Rightarrow> nat \<Rightarrow> bool" where
  "plan_sizes src lcs bs n =
     (512 \<le> unat bs \<and> unat bs \<le> 65536 \<and> 512 \<le> lcs \<and> lcs \<le> 2 ^ 20 \<and> n < 2 ^ 32
      \<and> (n = 0 \<longrightarrow> src = []) \<and> (0 < n \<longrightarrow> (n - 1) * lcs < length src) \<and> length src \<le> n * lcs)"

lemma plan_sizes_cover: "plan_sizes src lcs bs n \<Longrightarrow> length src \<le> n * lcs" "plan_sizes src lcs bs n \<Longrightarrow> 0 < lcs"
  by (simp_all add: plan_sizes_def)

lemma ucast_of_nat: "k < 2 ^ 32 \<Longrightarrow> (ucast (word_of_nat k :: u64) :: u32) = word_of_nat k"
  by (simp add: word_unat_eq_iff unsigned_ucast_eq unat_of_nat take_bit_nat_eq_self)

lemma chunk_piece:
  fixes lcsize :: u64
  assumes "plan_sizes src lcs bs n" "i < n" "unat lcsize = lcs"
  shows "slice src (unat (word_of_nat i * lcsize)) (min (unat (word_of_nat i * lcsize) + unat lcsize) (length src))
     = Ok (piece lcs src i 1)"
proof -
  have "i * lcs < 2 ^ 32 * 2 ^ 20" using assms(1,2) by (intro mult_less_le_imp_less) (auto simp: plan_sizes_def)
  moreover have "unat (word_of_nat i :: u64) = i" using assms(1,2) by (simp add: plan_sizes_def unat_of_nat)
  ultimately have u: "unat (word_of_nat i * lcsize) = i * lcs"
    using assms(3) by (subst unat_mult_no_wrap) simp_all
  have "i * lcs \<le> (n - 1) * lcs" using assms(2) by (intro mult_le_mono1) simp
  moreover have "(n - 1) * lcs < length src" using assms(1,2) by (simp add: plan_sizes_def)
  ultimately have "i * lcs \<le> length src" by linarith
  then show ?thesis unfolding u assms(3) by (auto simp: slice_def piece_def min_def)
qed

lemma absorb_inv:
  assumes inv: "collate_inv E src algo ovr lcs bs tb i st" and cur: "co_open st = Some cur"
    and new: "try_extend E algo ovr (unat bs * unat tb) (piece lcs src i 1) (co_open st) = Some new"
    and i: "i + 1 < 2 ^ 32" and ok: "absorb (word_of_nat i) new cur st = Ok st'"
  shows "collate_inv E src algo ovr lcs bs tb (i + 1) st'"
proof -
  let ?pcs = "co_pclusters st" let ?done = "run_start ?pcs (length ?pcs)" let ?n = "unat (op_n_lclusters cur)"
  have o: "open_ok E src algo ovr lcs (unat bs * unat tb) cur ?done" and pcs: "pclusters_ok E src algo ovr lcs bs tb ?pcs"
    and rest: "?done + ?n = i" "co_entries st = index_runs ?pcs @ open_run (Some cur) (length ?pcs)"
      "unat (co_total_blocks st) = length ?pcs * unat tb"
    using inv cur by (simp_all add: collate_inv_def Let_def open_n_def)
  have n1: "unat (op_n_lclusters cur + 1) = ?n + 1" using i rest(1) by (subst unat_add_no_wrap) simp_all
  have pa: "piece lcs src ?done (?n + 1) = op_src_buf cur @ piece lcs src i 1"
    using o rest(1) by (simp only: piece_add open_ok_def)
  have src: "fst new = piece lcs src ?done (?n + 1)" and fr: "framed E algo ovr (unat bs * unat tb) (fst new) (snd new)"
    unfolding pa using new cur o by (auto simp: try_extend_def Let_def framed_def open_ok_def split: if_splits)
  have "word_of_nat i = (word_of_nat ?done + word_of_nat ?n :: u32)" unfolding rest(1) [symmetric] by (rule of_nat_add)
  moreover have "ucast (word_of_nat i :: u64) = (word_of_nat i :: u32)" using i by (intro ucast_of_nat) simp
  ultimately have "ucast (word_of_nat i :: u64) - op_head_lcluster_idx cur = word_of_nat ?n"
    using o by (simp add: open_ok_def)
  moreover have "(ucast (word_of_nat ?n :: u32) :: u16) = word_of_nat ?n"
    by (simp add: word_unat_eq_iff unsigned_ucast_eq unat_of_nat take_bit_eq_mod mod_mod_cancel)
  ultimately have st': "st' = st\<lparr>co_open := Some (cur\<lparr>op_src_buf := fst new, op_compressed := snd new,
        op_n_lclusters := op_n_lclusters cur + 1\<rparr>),
      co_entries := co_entries st @ [\<lparr>li_cluster_type = LCLUSTER_TYPE_NONHEAD, li_clusterofs_or_delta0 = word_of_nat ?n,
        li_pcluster_idx = word_of_nat (length ?pcs)\<rparr>]\<rparr>"
    using ok by (simp add: absorb_def Let_def split: if_splits)
  have "0 < ?n" using o by (simp add: open_ok_def)
  then show ?thesis using pcs o src fr rest n1 unfolding st'
    by (simp add: collate_inv_def Let_def open_ok_def open_n_def open_run_def index_run_Suc)
qed

lemma fresh_inv:
  assumes inv: "collate_inv E src algo ovr lcs bs tb i st" and none: "co_open st = None" and i: "i + 1 < 2 ^ 32"
    and ok: "start_fresh E algo ovr (unat bs * unat tb) bs tb (word_of_nat i) (piece lcs src i 1) st = Ok st'"
  shows "collate_inv E src algo ovr lcs bs tb (i + 1) st'"
proof -
  let ?pcs = "co_pclusters st" and ?ch = "piece lcs src i 1"
  have pcs: "pclusters_ok E src algo ovr lcs bs tb ?pcs" and d: "run_start ?pcs (length ?pcs) = i"
    and rest: "co_entries st = index_runs ?pcs" "unat (co_total_blocks st) = length ?pcs * unat tb"
    using inv none by (simp_all add: collate_inv_def Let_def open_n_def open_run_def)
  have ci: "(ucast (word_of_nat i :: u64) :: u32) = word_of_nat i" using i by (intro ucast_of_nat) simp
  let ?c = "compress_lcluster_with_cfg E algo ?ch ovr"
  have th: "LCLUSTER_TYPE_HEAD1 \<noteq> LCLUSTER_TYPE_PLAIN" by (simp add: zmap_consts)
  show ?thesis
  proof (cases "length ?c < length ?ch \<and> length ?c \<le> unat bs * unat tb")
    case True
    then have st': "st' = st\<lparr>co_entries := co_entries st @ [\<lparr>li_cluster_type = LCLUSTER_TYPE_HEAD1, li_clusterofs_or_delta0 = 0,
          li_pcluster_idx = word_of_nat (length ?pcs)\<rparr>],
        co_open := Some \<lparr>op_head_lcluster_idx = word_of_nat i, op_n_lclusters = 1, op_src_buf = ?ch,
          op_compressed = ?c, op_cluster_type = LCLUSTER_TYPE_HEAD1\<rparr>\<rparr>"
      using ok th by (simp add: start_fresh_def Let_def ci)
    show ?thesis using True pcs d rest unfolding st'
      by (simp add: collate_inv_def Let_def open_ok_def open_n_def open_run_def index_run_def framed_def)
  next
    case False
    from ok False th obtain bb where pad: "pad_pcluster_block ?ch bs tb LCLUSTER_TYPE_PLAIN algo = Ok bb"
      and fit: "unat (co_total_blocks st) + unat tb < 2 ^ 32"
      and st': "st' = st\<lparr>co_entries := co_entries st @ [\<lparr>li_cluster_type = LCLUSTER_TYPE_PLAIN, li_clusterofs_or_delta0 = 0,
            li_pcluster_idx = word_of_nat (length ?pcs)\<rparr>],
          co_total_blocks := co_total_blocks st + tb,
          co_pclusters := ?pcs @ [\<lparr>pp_block_bytes = bb, pp_cluster_type = LCLUSTER_TYPE_PLAIN, pp_block_count = tb,
            pp_raw_compressed = ?ch, pp_head_lcluster_idx = word_of_nat i, pp_n_lclusters = 1\<rparr>]\<rparr>"
        (is "_ = _\<lparr>co_entries := _, co_total_blocks := _, co_pclusters := _ @ [?pc]\<rparr>")
      by (auto simp: start_fresh_def Let_def ci commit_ok)
    have "pcluster_ok E src algo ovr lcs bs tb ?pc (run_start ?pcs (length ?pcs))"
      using pad by (simp add: pcluster_ok_def Let_def d)
    then have "pclusters_ok E src algo ovr lcs bs tb (?pcs @ [?pc])" by (rule pclusters_ok_snoc [OF pcs])
    moreover have "unat (co_total_blocks st + tb) = (length ?pcs + 1) * unat tb"
      using fit rest(2) by (subst unat_add_no_wrap) simp_all
    ultimately show ?thesis using d rest(1) none unfolding st'
      by (simp add: collate_inv_def Let_def open_n_def open_run_def run_start_snoc(2) index_runs_snoc index_run_def)
  qed
qed

lemma plan_lcluster_inv:
  assumes inv: "collate_inv E src algo ovr lcs bs tb i st" and sz: "plan_sizes src lcs bs n" "i < n" "unat lcsize = lcs"
    and ok: "plan_lcluster E src algo lcsize bs tb ovr (word_of_nat i) st = Ok st'"
  shows "collate_inv E src algo ovr lcs bs tb (i + 1) st'"
proof -
  have i: "i + 1 < 2 ^ 32" using sz(1,2) by (simp add: plan_sizes_def)
  have "unat bs * unat tb \<le> 65536 * 2 ^ 32"
    using sz(1) unsigned_less [of tb, where 'a = nat] by (intro mult_le_mono) (auto simp: plan_sizes_def)
  then have b: "min (2 ^ 64 - 1) (unat bs * unat tb) = unat bs * unat tb" by simp
  let ?x = "try_extend E algo ovr (unat bs * unat tb) (piece lcs src i 1) (co_open st)"
  have st: "(case (co_open st, ?x) of (Some cur, Some new) \<Rightarrow> absorb (word_of_nat i) new cur st
      | _ \<Rightarrow> bindR (close_open bs tb algo st) (\<lambda>st.
          start_fresh E algo ovr (unat bs * unat tb) bs tb (word_of_nat i) (piece lcs src i 1) st)) = Ok st'"
    using ok unfolding plan_lcluster_def Let_def b chunk_piece [OF sz] bindR_simps .
  show ?thesis
  proof (cases "\<exists>cur new. co_open st = Some cur \<and> ?x = Some new")
    case True
    then obtain cur new where o: "co_open st = Some cur" and x: "?x = Some new" by blast
    then have "absorb (word_of_nat i) new cur st = Ok st'" using st by (simp only: prod.case option.case)
    then show ?thesis by (rule absorb_inv [OF inv o x i])
  next
    case False
    then obtain st'' where cl: "close_open bs tb algo st = Ok st''"
      and fr: "start_fresh E algo ovr (unat bs * unat tb) bs tb (word_of_nat i) (piece lcs src i 1) st'' = Ok st'"
      using st by (cases "co_open st"; cases ?x) auto
    show ?thesis by (rule fresh_inv [OF close_open_inv [OF inv cl] i fr])
  qed
qed

lemma plan_lclusters_inv:
  assumes sz: "plan_sizes src lcs bs n" "unat lcsize = lcs"
  shows "collate_inv E src algo ovr lcs bs tb i st \<Longrightarrow> i \<le> n \<Longrightarrow>
    plan_lclusters E src algo lcsize bs tb ovr [i..<n] st = Ok st' \<Longrightarrow> collate_inv E src algo ovr lcs bs tb n st'"
proof (induction "n - i" arbitrary: i st)
  case (Suc k)
  then have i: "i < n" "[i..<n] = i # [Suc i..<n]" by (simp_all add: upt_conv_Cons)
  from Suc.prems(3) obtain st1 where s: "plan_lcluster E src algo lcsize bs tb ovr (word_of_nat i) st = Ok st1"
    "plan_lclusters E src algo lcsize bs tb ovr [Suc i..<n] st1 = Ok st'" unfolding i(2) by auto
  have "collate_inv E src algo ovr lcs bs tb (Suc i) st1"
    using plan_lcluster_inv [OF Suc.prems(1) sz(1) i(1) sz(2) s(1)] by simp
  then show ?case using Suc.hyps(1) [of "Suc i" st1] Suc.hyps(2) i(1) s(2) by simp
qed simp

section \<open>The plan of a whole file\<close>

lemma plan_count:
  fixes bs :: u64 and lcb :: u8
  assumes "512 \<le> unat bs" "unat bs \<le> 65536" "lcb \<le> 4" "length src < 2 ^ 40"
  defines "lcs \<equiv> unat bs * 2 ^ unat lcb" and "lcsize \<equiv> push_bit (unat lcb mod 64) bs"
  defines "n \<equiv> unat (if src = [] then 0 else div_ceil (word_of_nat (length src)) lcsize)"
  shows "unat lcsize = lcs" "plan_sizes src lcs bs n" "n = (length src + lcs - 1) div lcs"
proof -
  have l4: "unat lcb \<le> 4" using assms(3) by (simp add: word_le_nat_alt)
  then have p: "(2 :: nat) ^ unat lcb \<le> 2 ^ 4" by (intro power_increasing) simp_all
  have lcs: "512 \<le> lcs" "lcs \<le> 2 ^ 20"
    using mult_le_mono [OF assms(1) one_le_power [of 2 "unat lcb"]] mult_le_mono [OF assms(2) p] by (simp_all add: lcs_def)
  have "lcsize = bs * 2 ^ unat lcb" using l4 by (simp add: lcsize_def push_bit_eq_mult)
  then show u: "unat lcsize = lcs"
    using lcs(2) l4 by (simp add: lcs_def unat_mult_no_wrap unat_power2)
  then have nz: "lcsize \<noteq> 0" using lcs(1) by auto
  have len: "unat (word_of_nat (length src) :: u64) = length src" using assms(4) by (simp add: unat_of_nat)
  show n: "n = (length src + lcs - 1) div lcs"
  proof (cases "src = []")
    case True
    then show ?thesis using lcs(1) by (simp add: n_def)
  next
    case False
    then show ?thesis using nz by (simp add: n_def unat_div_ceil len u)
  qed
  have d: "n * lcs \<le> length src + lcs - 1" "length src + lcs - 1 < n * lcs + lcs"
    using lcs(1) by (simp_all add: n div_times_less_eq_dividend) (metis dividend_less_div_times add.commute less_le_trans zero_less_numeral)
  have "n * 512 \<le> n * lcs" using lcs(1) by simp
  then have "n * 512 < 2 ^ 40 + 2 ^ 20" using d(1) lcs(2) assms(4) by linarith
  then have n32: "n < 2 ^ 32" by simp
  have z: "n = 0 \<Longrightarrow> src = []" using d(2) lcs(1) by (cases src) simp_all
  have "(n - 1) * lcs < length src" if "0 < n"
  proof -
    obtain m where m: "n = Suc m" using \<open>0 < n\<close> by (cases n) auto
    then show ?thesis using d(1) lcs(1) by simp
  qed
  then show "plan_sizes src lcs bs n"
    using assms(1,2) lcs n32 z d(2) by (auto simp: plan_sizes_def)
qed

lemma pieces_concat:
  "concat (map (\<lambda>j. piece lcs src (run_start pcs j) (unat (pp_n_lclusters (pcs ! j)))) [0..<length pcs])
     = take (run_start pcs (length pcs) * lcs) src"
proof -
  have "concat (map (\<lambda>j. piece lcs src (run_start pcs j) (unat (pp_n_lclusters (pcs ! j)))) [0..<k])
      = take (run_start pcs k * lcs) src" if "k \<le> length pcs" for k
    using that
  proof (induction k)
    case 0
    then show ?case by (simp add: run_start_def)
  next
    case (Suc k)
    have "run_start pcs (Suc k) = run_start pcs k + unat (pp_n_lclusters (pcs ! k))"
      using Suc.prems by (simp add: run_start_def take_Suc_conv_app_nth)
    then show ?case using Suc by (simp add: piece_def take_add algebra_simps)
  qed
  then show ?thesis by simp
qed

lemma length_index_runs:
  "\<forall>j<length pcs. 0 < unat (pp_n_lclusters (pcs ! j)) \<Longrightarrow> length (index_runs pcs) = run_start pcs (length pcs)"
proof (induction pcs rule: rev_induct)
  case (snoc pc pcs)
  have "\<forall>j<length pcs. 0 < unat (pp_n_lclusters (pcs ! j))" "0 < unat (pp_n_lclusters pc)"
    using snoc.prems by (auto simp: nth_append less_Suc_eq dest: spec [of _ "length pcs"])
  then show ?case using snoc.IH by (simp add: index_runs_snoc index_run_def run_start_snoc(2))
qed (simp add: index_runs_def run_start_def)

definition collated ::
    "encoders \<Rightarrow> bytes \<Rightarrow> compressed_algo \<Rightarrow> u32 option \<Rightarrow> nat \<Rightarrow> u64 \<Rightarrow> u32 \<Rightarrow> pcluster_plan list \<times> lcluster_index_entry list \<times> u32 \<Rightarrow> bool" where
  "collated E src algo ovr lcs bs tb p =
     (let (pcs, entries, blocks) = p in
      pclusters_ok E src algo ovr lcs bs tb pcs
      \<and> concat (map (\<lambda>j. piece lcs src (run_start pcs j) (unat (pp_n_lclusters (pcs ! j)))) [0..<length pcs]) = src
      \<and> entries = index_runs pcs \<and> length entries = (length src + lcs - 1) div lcs
      \<and> unat blocks = length pcs * unat tb)"

lemma collate_gives:
  assumes ok: "plan_compressed_pclusters_with_cfg E src algo lcb bs target ovr = Ok p"
    and bs: "512 \<le> unat bs" "unat bs \<le> 65536" and src: "length src < 2 ^ 40"
  shows "collated E src algo ovr (unat bs * 2 ^ unat lcb) bs (max target 1) p"
proof -
  let ?lcs = "unat bs * 2 ^ unat lcb" and ?lcsize = "push_bit (unat lcb mod 64) bs" and ?tb = "max target 1"
  let ?n = "unat (if src = [] then 0 else div_ceil (word_of_nat (length src)) ?lcsize)"
  let ?st0 = "\<lparr>co_pclusters = [], co_entries = [], co_total_blocks = 0, co_open = None\<rparr>"
  have lcb: "lcb \<le> 4" using ok by (simp add: plan_compressed_pclusters_with_cfg_def not_less split: if_splits)
  note sz = plan_count [OF bs lcb src]
  have "unat ?lcsize \<noteq> 0" using plan_sizes_cover(2) [OF sz(2)] unfolding sz(1) by simp
  then have "?lcsize \<noteq> 0" by (rule contrapos_nn) simp
  with ok lcb obtain st st' where st: "plan_lclusters E src algo ?lcsize bs ?tb ovr [0..<?n] ?st0 = Ok st"
    and cl: "close_open bs ?tb algo st = Ok st'" and p: "p = (co_pclusters st', co_entries st', co_total_blocks st')"
    unfolding plan_compressed_pclusters_with_cfg_def Let_def
    by (simp only: not_less [symmetric] if_False bindR_eq_Ok) blast
  have "collate_inv E src algo ovr ?lcs bs ?tb 0 ?st0"
    by (simp add: collate_inv_def Let_def pclusters_ok_def run_start_def open_n_def open_run_def index_runs_def)
  from plan_lclusters_inv [OF sz(2,1) this _ st] close_open_inv [OF _ cl]
  have inv: "collate_inv E src algo ovr ?lcs bs ?tb ?n st'" and none: "co_open st' = None" by blast+
  have pcs: "pclusters_ok E src algo ovr ?lcs bs ?tb (co_pclusters st')"
    and n: "run_start (co_pclusters st') (length (co_pclusters st')) = ?n"
    and rest: "co_entries st' = index_runs (co_pclusters st')" "unat (co_total_blocks st') = length (co_pclusters st') * unat ?tb"
    using inv none by (simp_all add: collate_inv_def Let_def open_n_def open_run_def)
  have pos: "\<forall>j<length (co_pclusters st'). 0 < unat (pp_n_lclusters (co_pclusters st' ! j))"
    using pcs by (simp add: pclusters_ok_def pcluster_ok_def Let_def)
  note all = take_all [OF plan_sizes_cover(1) [OF sz(2)]]
  show ?thesis
    unfolding collated_def p Let_def prod.case pieces_concat n all rest length_index_runs [OF pos] sz(3) [symmetric]
    using pcs by (intro conjI refl)
qed

section \<open>The plan exists\<close>

lemma put_into_zeros:
  "length ys \<le> n \<Longrightarrow> put (replicate n x) 0 ys = ys @ replicate (n - length ys) x"
  "length ys \<le> n \<Longrightarrow> put (replicate n x) (n - length ys) ys = replicate (n - length ys) x @ ys"
  by (simp_all add: put_def)

text \<open>A payload within the budget is padded to it, before an LZ4 frame and behind everything else.\<close>

lemma pad_pcluster_block_eq:
  "length payload \<le> unat bs * unat tb \<Longrightarrow> unat bs * unat tb < 2 ^ 64 \<Longrightarrow>
   pad_pcluster_block payload bs tb t algo =
     Ok (if t = LCLUSTER_TYPE_HEAD1 \<and> algo = AlgoLz4
         then replicate (unat bs * unat tb - length payload) 0 @ payload
         else payload @ replicate (unat bs * unat tb - length payload) 0)"
  by (cases algo) (simp_all add: pad_pcluster_block_def Let_def put_into_zeros)

lemma pad_pcluster_block_fits:
  "pad_pcluster_block payload bs tb t algo = Ok b \<Longrightarrow> length payload \<le> unat bs * unat tb \<and> unat bs * unat tb < 2 ^ 64"
  by (auto simp: pad_pcluster_block_def Let_def not_le split: if_splits)

lemma collate_invD:
  assumes "collate_inv E src algo ovr lcs bs tb i st"
  shows "pclusters_ok E src algo ovr lcs bs tb (co_pclusters st)"
    and "co_open st = Some cur \<Longrightarrow>
      open_ok E src algo ovr lcs (unat bs * unat tb) cur (run_start (co_pclusters st) (length (co_pclusters st)))"
    and "run_start (co_pclusters st) (length (co_pclusters st)) + open_n (co_open st) = i"
    and "unat (co_total_blocks st) = length (co_pclusters st) * unat tb"
  using assms by (auto simp: collate_inv_def Let_def)

lemma pclusters_le_lclusters:
  assumes "pclusters_ok E src algo ovr lcs bs tb pcs"
  shows "length pcs \<le> run_start pcs (length pcs)"
proof -
  have "\<forall>pc\<in>set pcs. 0 < unat (pp_n_lclusters pc)"
    using assms by (auto simp: pclusters_ok_def pcluster_ok_def Let_def in_set_conv_nth)
  then show ?thesis unfolding run_start_def by (induction pcs) auto
qed

lemma commit_succeeds: "unat (co_total_blocks st) < 65535 \<Longrightarrow> \<exists>st'. commit pc 1 st = Ok st'"
  by (simp add: commit_def checked_add_def)

lemma close_open_succeeds:
  assumes inv: "collate_inv E src algo ovr lcs bs 1 i st" and bs: "unat bs \<le> 65536" and i: "i \<le> 65535"
  shows "\<exists>st'. close_open bs 1 algo st = Ok st'"
proof (cases "co_open st")
  case (Some cur)
  note d = collate_invD [OF inv]
  have fits: "length (op_compressed cur) \<le> unat bs * unat (1 :: u32)" and pos: "0 < unat (op_n_lclusters cur)"
    using d(2) [OF Some] unfolding open_ok_def framed_def by blast+
  have "unat (co_total_blocks st) < 65535"
    using d(3,4) pclusters_le_lclusters [OF d(1)] pos i Some by (simp add: open_n_def)
  moreover obtain b where "pad_pcluster_block (op_compressed cur) bs 1 (op_cluster_type cur) algo = Ok b"
    using pad_pcluster_block_eq [of "op_compressed cur" bs 1, OF fits] bs by auto
  ultimately show ?thesis using Some commit_succeeds [of "st\<lparr>co_open := None\<rparr>"]
    by (simp add: close_open_def open_finalize_def)
qed (simp add: close_open_def)

lemma absorb_succeeds:
  assumes inv: "collate_inv E src algo ovr lcs bs tb i st" and cur: "co_open st = Some cur" and i: "i \<le> 65535"
  shows "\<exists>st'. absorb (word_of_nat i) new cur st = Ok st'"
proof -
  let ?done = "run_start (co_pclusters st) (length (co_pclusters st))" and ?n = "unat (op_n_lclusters cur)"
  note d = collate_invD [OF inv]
  have n: "?done + ?n = i" using d(3) cur by (simp add: open_n_def)
  have "word_of_nat i = (word_of_nat ?done + word_of_nat ?n :: u32)" unfolding n [symmetric] by (rule of_nat_add)
  moreover have "ucast (word_of_nat i :: u64) = (word_of_nat i :: u32)" using i by (intro ucast_of_nat) simp
  ultimately have "ucast (word_of_nat i :: u64) - op_head_lcluster_idx cur = word_of_nat ?n"
    using d(2) [OF cur] by (simp add: open_ok_def)
  moreover have "\<not> (0xFFFF :: u32) < word_of_nat ?n" using n i by (simp add: word_less_nat_alt)
  ultimately show ?thesis unfolding absorb_def Let_def by (simp only: if_False) blast
qed

lemma start_fresh_succeeds:
  assumes "length chunk \<le> unat bs" "unat bs \<le> 65536" "unat (co_total_blocks st) < 65535"
  shows "\<exists>st'. start_fresh E algo ovr budget bs 1 i chunk st = Ok st'"
proof -
  obtain b where "pad_pcluster_block chunk bs 1 LCLUSTER_TYPE_PLAIN algo = Ok b"
    using pad_pcluster_block_eq [of chunk bs 1] assms by auto
  then show ?thesis using assms(3) by (simp add: start_fresh_def Let_def commit_def checked_add_def)
qed

lemma plan_lcluster_succeeds:
  assumes inv: "collate_inv E src algo ovr (unat bs) bs 1 i st" and sz: "plan_sizes src (unat bs) bs n" "i < n" "n \<le> 65535"
  shows "\<exists>st'. plan_lcluster E src algo bs bs 1 ovr (word_of_nat i) st = Ok st'"
proof -
  have bs: "unat bs \<le> 65536" using sz(1) by (simp add: plan_sizes_def)
  then have b: "min (2 ^ 64 - 1) (unat bs * unat (1 :: u32)) = unat bs" by simp
  let ?c = "piece (unat bs) src i 1"
  have len: "length ?c \<le> unat bs" by (simp add: piece_def)
  obtain st1 where cl: "close_open bs 1 algo st = Ok st1" using close_open_succeeds [OF inv bs] sz by auto
  note inv1 = close_open_inv [OF inv cl]
  have "unat (co_total_blocks st1) < 65535"
    using collate_invD(3,4) [OF inv1(1)] pclusters_le_lclusters [OF collate_invD(1) [OF inv1(1)]] sz(2,3) by simp
  then have fresh: "\<exists>st'. start_fresh E algo ovr (unat bs) bs 1 (word_of_nat i) ?c st1 = Ok st'"
    by (rule start_fresh_succeeds [OF len bs])
  have abs: "\<exists>st'. absorb (word_of_nat i) new cur st = Ok st'" if "co_open st = Some cur" for new cur
    using absorb_succeeds [OF inv that] sz(2,3) by simp
  define c where "c = ?c"
  note plan = plan_lcluster_def Let_def b chunk_piece [OF sz(1,2) refl] bindR_simps c_def [symmetric]
  show ?thesis
  proof (cases "\<exists>cur new. co_open st = Some cur \<and> try_extend E algo ovr (unat bs) c (co_open st) = Some new")
    case True
    then show ?thesis unfolding plan using abs by fastforce
  next
    case False
    then show ?thesis unfolding plan using cl fresh [folded c_def] by (auto split: option.splits)
  qed
qed

lemma plan_lclusters_succeeds:
  assumes sz: "plan_sizes src (unat bs) bs n" "n \<le> 65535"
  shows "collate_inv E src algo ovr (unat bs) bs 1 i st \<Longrightarrow> i \<le> n \<Longrightarrow>
    \<exists>st'. plan_lclusters E src algo bs bs 1 ovr [i..<n] st = Ok st'"
proof (induction "n - i" arbitrary: i st)
  case (Suc k)
  then have i: "i < n" "[i..<n] = i # [Suc i..<n]" by (simp_all add: upt_conv_Cons)
  from plan_lcluster_succeeds [OF Suc.prems(1) sz(1) i(1) sz(2)] obtain st1 where
    s: "plan_lcluster E src algo bs bs 1 ovr (word_of_nat i) st = Ok st1" by blast
  have "collate_inv E src algo ovr (unat bs) bs 1 (Suc i) st1"
    using plan_lcluster_inv [OF Suc.prems(1) sz(1) i(1) refl s] by simp
  then show ?case using Suc.hyps(1) [of "Suc i" st1] Suc.hyps(2) i s by (simp del: upt_Suc)
qed simp

text \<open>With blocks for logical clusters and one block for a physical cluster, which is what the builder asks for
by default, no check of the planner fails as long as the file has fewer than \<open>2 ^ 16\<close> logical clusters.\<close>

lemma plan_succeeds:
  assumes bs: "512 \<le> unat bs" "unat bs \<le> 65536" and src: "length src \<le> 65535 * unat bs" and target: "target \<le> 1"
  shows "\<exists>p. plan_compressed_pclusters_with_cfg E src algo 0 bs target ovr = Ok p"
proof -
  let ?n = "unat (if src = [] then 0 else div_ceil (word_of_nat (length src)) (push_bit (unat (0 :: u8) mod 64) bs))"
  let ?st0 = "\<lparr>co_pclusters = [], co_entries = [], co_total_blocks = 0, co_open = None\<rparr>"
  have "unat bs * 65535 \<le> 65536 * 65535" using bs(2) by (rule mult_le_mono1)
  then have len: "length src < 2 ^ 40" using src by simp
  note sz = plan_count [OF bs, of 0 src, OF _ len, simplified]
  have tb: "max target 1 = 1" using target by (rule max.absorb2)
  have nz: "bs \<noteq> 0" using bs(1) by auto
  have "length src + unat bs - 1 < 65536 * unat bs" using src bs(1) by simp
  then have n: "?n < 65536" using sz(3) by (simp add: less_mult_imp_div_less)
  have init: "collate_inv E src algo ovr (unat bs) bs 1 0 ?st0"
    by (simp add: collate_inv_def Let_def pclusters_ok_def run_start_def open_n_def open_run_def index_runs_def)
  obtain st where st: "plan_lclusters E src algo bs bs 1 ovr [0..<?n] ?st0 = Ok st"
    using plan_lclusters_succeeds [OF _ _ init, of ?n] sz(2) n by auto
  have "collate_inv E src algo ovr (unat bs) bs 1 ?n st" using plan_lclusters_inv [OF _ _ init _ st] sz(2) by simp
  from close_open_succeeds [OF this bs(2)] n obtain st' where "close_open bs 1 algo st = Ok st'" by auto
  then show ?thesis using st nz by (cases "src = []") (simp_all add: plan_compressed_pclusters_with_cfg_def tb)
qed

end
