(* ===== verification/CompressedFile.thy ===== *)
theory CompressedFile
  imports Collator
begin

text \<open>
  A compressed file from its source to its index: the plan of \<open>plan_compressed_pclusters_with_cfg\<close>
  (\<open>Collator\<close>), with the block addresses that \<open>build_image_with\<close> hands out (one block after the other),
  is an index that \<open>encode_zmap_trailer\<close> writes and a reader gets back (\<open>IndexWriter\<close>).
\<close>

section \<open>The entries of a plan with their addresses\<close>

definition addressed_run :: "u8 \<Rightarrow> u32 \<Rightarrow> nat \<Rightarrow> compact_entry list" where
  "addressed_run t a n =
     \<lparr>ce_cluster_type = t, ce_lo = 0, ce_pcluster_blkaddr = a\<rparr>
     # map (\<lambda>d. \<lparr>ce_cluster_type = LCLUSTER_TYPE_NONHEAD, ce_lo = word_of_nat d, ce_pcluster_blkaddr = 0\<rparr>) [1..<n]"

definition addressed_runs :: "nat \<Rightarrow> pcluster_plan list \<Rightarrow> compact_entry list" where
  "addressed_runs start pcs =
     concat (map (\<lambda>j. addressed_run (pp_cluster_type (pcs ! j)) (word_of_nat (start + j)) (unat (pp_n_lclusters (pcs ! j)))) [0..<length pcs])"

text \<open>Clusters as the planner makes them that the compacted index can hold: runs of at most \<open>0x800\<close>.\<close>

definition runs_fit :: "pcluster_plan list \<Rightarrow> bool" where
  "runs_fit pcs = (\<forall>pc\<in>set pcs. 0 < unat (pp_n_lclusters pc) \<and> unat (pp_n_lclusters pc) \<le> 0x800
     \<and> (pp_cluster_type pc = LCLUSTER_TYPE_HEAD1 \<or> pp_cluster_type pc = LCLUSTER_TYPE_PLAIN))"

lemma addressed_runs_snoc:
  "addressed_runs start (pcs @ [pc]) =
     addressed_runs start pcs @ addressed_run (pp_cluster_type pc) (word_of_nat (start + length pcs)) (unat (pp_n_lclusters pc))"
proof -
  have "map (\<lambda>j. addressed_run (pp_cluster_type ((pcs @ [pc]) ! j)) (word_of_nat (start + j)) (unat (pp_n_lclusters ((pcs @ [pc]) ! j)))) [0..<length pcs]
      = map (\<lambda>j. addressed_run (pp_cluster_type (pcs ! j)) (word_of_nat (start + j)) (unat (pp_n_lclusters (pcs ! j)))) [0..<length pcs]"
    by (rule map_cong) (simp_all add: nth_append)
  then show ?thesis by (simp add: addressed_runs_def del: map_eq_conv of_nat_add)
qed

lemma addressed_run_nth:
  "0 < n \<Longrightarrow> length (addressed_run t a n) = n"
  "addressed_run t a n ! 0 = \<lparr>ce_cluster_type = t, ce_lo = 0, ce_pcluster_blkaddr = a\<rparr>"
  "0 < m \<Longrightarrow> m < n \<Longrightarrow> addressed_run t a n ! m =
     \<lparr>ce_cluster_type = LCLUSTER_TYPE_NONHEAD, ce_lo = word_of_nat m, ce_pcluster_blkaddr = 0\<rparr>"
  using nth_upt [of 1 "m - 1" n] by (simp_all add: addressed_run_def)

lemma index_runs_addressed:
  assumes "length addrs = length pcs" "\<And>j. j < length pcs \<Longrightarrow> addrs ! j = word_of_nat (start + j)"
    "runs_fit pcs" "length pcs < 2 ^ 32"
  shows "mapR (compact_entry_of addrs) (index_runs pcs) = Ok (addressed_runs start pcs)"
proof -
  let ?g = "\<lambda>e. if li_cluster_type e = LCLUSTER_TYPE_NONHEAD
      then \<lparr>ce_cluster_type = li_cluster_type e, ce_lo = ucast (li_clusterofs_or_delta0 e), ce_pcluster_blkaddr = 0\<rparr>
      else \<lparr>ce_cluster_type = li_cluster_type e, ce_lo = ucast (li_clusterofs_or_delta0 e),
             ce_pcluster_blkaddr = word_of_nat (start + unat (li_pcluster_idx e))\<rparr>"
  have "compact_entry_of addrs e = Ok (?g e)" if e: "e \<in> set (index_runs pcs)" for e
  proof -
    obtain j where j: "j < length pcs" "e \<in> set (index_run (pp_cluster_type (pcs ! j)) j (unat (pp_n_lclusters (pcs ! j))))"
      using e by (auto simp: index_runs_def)
    then have "unat (li_pcluster_idx e) = j" using assms(4) by (auto simp: index_run_def unat_of_nat)
    then show ?thesis using j(1) assms(1,2) by (simp add: compact_entry_of_def idx_def)
  qed
  then have "mapR (compact_entry_of addrs) (index_runs pcs) = Ok (map ?g (index_runs pcs))" by (rule mapR_all_Ok)
  moreover have "map ?g (index_run (pp_cluster_type (pcs ! j)) j (unat (pp_n_lclusters (pcs ! j))))
      = addressed_run (pp_cluster_type (pcs ! j)) (word_of_nat (start + j)) (unat (pp_n_lclusters (pcs ! j)))" if "j < length pcs" for j
  proof -
    have pc: "unat (pp_n_lclusters (pcs ! j)) \<le> 0x800" "pp_cluster_type (pcs ! j) \<noteq> LCLUSTER_TYPE_NONHEAD"
      using assms(3) nth_mem [OF that] by (auto simp: runs_fit_def zmap_consts)
    have j: "unat (word_of_nat j :: u32) = j" using that assms(4) by (simp add: unat_of_nat)
    have "ucast (word_of_nat d :: u16) = (word_of_nat d :: u32)" if "d < 0x800" for d
      using that by (simp add: word_unat_eq_iff unat_ucast_up unat_of_nat)
    then show ?thesis using pc unfolding index_run_def addressed_run_def
      by (simp add: j)
  qed
  then have "map ?g (index_runs pcs) = addressed_runs start pcs"
    unfolding index_runs_def addressed_runs_def map_concat map_map by (intro arg_cong [of _ _ concat] map_cong refl) simp
  ultimately show ?thesis by simp
qed

text \<open>Entry by entry, what the index asks of them.\<close>

definition linked :: "nat \<Rightarrow> compact_entry list \<Rightarrow> nat \<Rightarrow> bool" where
  "linked start es k = (chained es k \<and> (\<not> is_nonhead (es ! k) \<longrightarrow> unat (ce_pcluster_blkaddr (es ! k)) = start + heads (take k es)))"

lemma linked_append: "k < length xs \<Longrightarrow> linked start (xs @ ys) k = linked start xs k"
  by (cases k) (simp_all add: linked_def chained_def nth_append)

lemma heads_run:
  assumes "t \<noteq> LCLUSTER_TYPE_NONHEAD" "0 < m"
  shows "heads (take m (addressed_run t a n)) = 1"
proof -
  obtain k where "m = Suc k" using assms(2) by (cases m) auto
  then show ?thesis using assms(1) by (simp add: heads_def addressed_run_def is_nonhead_def take_map zmap_consts filter_empty_conv)
qed

lemma addressed_linked:
  "runs_fit pcs \<Longrightarrow> start + length pcs < 2 ^ 32 \<Longrightarrow>
   heads (addressed_runs start pcs) = length pcs \<and> (\<forall>k<length (addressed_runs start pcs). linked start (addressed_runs start pcs) k)"
proof (induction pcs rule: rev_induct)
  case (snoc pc pcs)
  let ?xs = "addressed_runs start pcs" and ?n = "unat (pp_n_lclusters pc)"
  let ?run = "addressed_run (pp_cluster_type pc) (word_of_nat (start + length pcs)) ?n"
  have ih: "heads ?xs = length pcs" "\<forall>k<length ?xs. linked start ?xs k"
    using snoc by (simp_all add: runs_fit_def)
  have pc: "0 < ?n" "?n \<le> 0x800" "pp_cluster_type pc \<noteq> LCLUSTER_TYPE_NONHEAD"
    using snoc.prems(1) by (auto simp: runs_fit_def zmap_consts)
  note len = addressed_run_nth(1) [OF pc(1)]
  have new: "linked start (?xs @ ?run) (length ?xs + m)" if m: "m < ?n" for m
  proof (cases "m = 0")
    case True
    have "unat (word_of_nat (start + length pcs) :: u32) = start + length pcs" using snoc.prems(2) by (simp add: unat_of_nat del: of_nat_add)
    then show ?thesis using pc(3) True ih(1)
      by (simp add: linked_def chained_def nth_append addressed_run_nth(2) is_nonhead_def del: of_nat_add)
  next
    case False
    then have "m < 0x800" "0 < m" "(?xs @ ?run) ! (length ?xs + m - 1) = ?run ! (m - 1)"
      using m pc(2) by (simp_all add: nth_append)
    moreover have "unat (word_of_nat m :: u32) = m" using calculation(1) by (simp add: unat_of_nat)
    moreover have "unat (word_of_nat (m - 1) :: u32) = m - 1" using calculation(1) by (simp add: unat_of_nat)
    ultimately show ?thesis using m pc(3) addressed_run_nth(2,3) [where n = ?n]
      by (cases "m = 1") (simp_all add: linked_def chained_def is_nonhead_def nth_append)
  qed
  have "linked start (?xs @ ?run) k" if "k < length ?xs + ?n" for k
    using ih(2) new [of "k - length ?xs"] that by (cases "k < length ?xs") (simp_all add: linked_append)
  then show ?case
    using ih(1) heads_run [OF pc(3,1), of "word_of_nat (start + length pcs)" ?n] len
    by (simp add: addressed_runs_snoc heads_simps)
qed (simp add: addressed_runs_def heads_def)

text \<open>C38: a plan covers its source. The physical clusters stand for consecutive pieces of it that join up to
  the whole; each holds, padded to the blocks it was asked for, either the frame of its piece, which is
  shorter than the piece, or one logical cluster as it is; and the index has one entry per logical
  cluster, a head for each physical one and behind it the distances to it.\<close>

theorem plan_covers_source:
  assumes "plan_compressed_pclusters_with_cfg E src algo lcb bs target ovr = Ok (pcs, entries, blocks)"
    and "512 \<le> unat bs" "unat bs \<le> 65536" and "length src < 2 ^ 40"
  defines "lcs \<equiv> unat bs * 2 ^ unat lcb"
  shows "concat (map (\<lambda>j. piece lcs src (run_start pcs j) (unat (pp_n_lclusters (pcs ! j)))) [0..<length pcs]) = src
    \<and> (\<forall>j<length pcs. pcluster_ok E src algo ovr lcs bs (max target 1) (pcs ! j) (run_start pcs j))
    \<and> entries = index_runs pcs \<and> length entries = (length src + lcs - 1) div lcs
    \<and> unat blocks = length pcs * unat (max target 1)"
  using collate_gives [OF assms(1-4)] by (auto simp: collated_def pclusters_ok_def lcs_def)

theorem plan_covers_source_witness:
  "\<exists>pcs entries blocks. plan_compressed_pclusters_with_cfg \<lparr>enc_lz4 = take 300, enc_lzma = take 300, enc_deflate = take 300\<rparr>
       (replicate 1500 7) AlgoLz4 0 512 1 None = Ok (pcs, entries, blocks)
     \<and> entries = index_runs pcs \<and> length entries = 3"
proof -
  let ?E = "\<lparr>enc_lz4 = take 300, enc_lzma = take 300, enc_deflate = take 300\<rparr> :: encoders"
  obtain p where p: "plan_compressed_pclusters_with_cfg ?E (replicate 1500 7) AlgoLz4 0 512 1 None = Ok p"
    using plan_succeeds [where E = ?E and src = "replicate 1500 7" and algo = AlgoLz4 and bs = 512 and target = 1 and ovr = None] by auto
  obtain pcs entries blocks where "p = (pcs, entries, blocks)" by (cases p)
  with plan_covers_source [OF p [unfolded this]] p show ?thesis by auto
qed

end
