(* ===== verification/Text.thy ===== *)
theory Text
  imports Utf8
begin

text \<open>
  The text the two outer layers make: numbers in decimal, octal and hexadecimal, \<open>String::from_utf8_lossy\<close>,
  \<open>u64::from_str\<close>, the \<open>Display\<close> of \<open>src/error.rs\<close> and the UUID of \<open>src/cli/erofs/mod.rs\<close>. A text is the list
  of its bytes. The \<open>Debug\<close> form of a block error belongs to the \<open>fs_core\<close> crate and is a parameter.
\<close>

definition ascii :: "string \<Rightarrow> bytes" where "ascii s = map of_char s"

section \<open>Numbers\<close>

definition digit :: "nat \<Rightarrow> byte" where "digit d = (if d < 10 then word_of_nat (48 + d) else word_of_nat (87 + d))"

function radix :: "nat \<Rightarrow> nat \<Rightarrow> bytes" where
  "radix b n = (if n < b \<or> b < 2 then [digit n] else radix b (n div b) @ [digit (n mod b)])"
  by pat_completeness auto
termination
  by (relation "measure snd") auto

declare radix.simps [simp del]

abbreviation dec :: "nat \<Rightarrow> bytes" where "dec \<equiv> radix 10"

definition zero_pad :: "nat \<Rightarrow> bytes \<Rightarrow> bytes" where "zero_pad w xs = replicate (w - length xs) 48 @ xs"

definition hex_byte :: "byte \<Rightarrow> bytes" where "hex_byte b = zero_pad 2 (radix 16 (unat b))"

text \<open>\<open>u64::from_str\<close>: an optional plus sign, then digits, each step checked.\<close>

definition digit_value :: "byte \<Rightarrow> nat option" where
  "digit_value c = (if 48 \<le> c \<and> c \<le> 57 then Some (unat c - 48) else None)"

fun parse_digits :: "bytes \<Rightarrow> nat \<Rightarrow> nat option" where
  "parse_digits [] acc = Some acc"
| "parse_digits (c # cs) acc =
     (case digit_value c of
        None \<Rightarrow> None
      | Some d \<Rightarrow> if 2 ^ 64 \<le> acc * 10 + d then None else parse_digits cs (acc * 10 + d))"

definition parse_u64 :: "bytes \<Rightarrow> u64 option" where
  "parse_u64 text =
     (let digits = (if text \<noteq> [] \<and> hd text = 43 then tl text else text)
      in if digits = [] then None else map_option word_of_nat (parse_digits digits 0))"

lemma unat_digit: "d < 10 \<Longrightarrow> unat (digit d) = 48 + d"
  by (simp add: digit_def unat_of_nat_small del: of_nat_add)

lemma digit_value_digit: "d < 10 \<Longrightarrow> digit_value (digit d) = Some d"
  by (simp add: digit_value_def word_le_nat_alt unat_digit)

lemma parse_digits_append: "parse_digits (xs @ ys) acc = Option.bind (parse_digits xs acc) (parse_digits ys)"
  by (induction xs arbitrary: acc) (auto split: option.split)

lemma parse_digits_dec: "parse_digits (dec n) 0 = (if n < 2 ^ 64 then Some n else None)"
proof (induction n rule: less_induct)
  case (less n)
  show ?case
  proof (cases "n < 10")
    case True
    then show ?thesis by (subst radix.simps) (simp add: digit_value_digit)
  next
    case False
    then have ih: "parse_digits (dec (n div 10)) 0 = (if n div 10 < 2 ^ 64 then Some (n div 10) else None)"
      by (intro less) simp
    have n: "n div 10 * 10 + n mod 10 = n" by simp
    have "parse_digits (dec n) 0 = Option.bind (parse_digits (dec (n div 10)) 0) (parse_digits [digit (n mod 10)])"
      by (subst radix.simps) (use False in \<open>simp add: parse_digits_append\<close>)
    then show ?thesis using n by (auto simp: ih digit_value_digit)
  qed
qed

lemma radix_nonempty [simp]: "radix b n \<noteq> []"
  by (subst radix.simps) simp

lemma digits_of_dec: "c \<in> set (dec n) \<Longrightarrow> 48 \<le> unat c \<and> unat c \<le> 57"
proof (induction n rule: less_induct)
  case (less n)
  have "48 \<le> unat (digit d) \<and> unat (digit d) \<le> 57" if "d < 10" for d
    using that by (simp add: unat_digit)
  then show ?case using less.prems less.IH [of "n div 10"]
    by (subst (asm) radix.simps) (auto split: if_splits)
qed

lemma parse_u64_dec: "parse_u64 (dec n) = (if n < 2 ^ 64 then Some (word_of_nat n) else None)"
proof -
  have "unat (hd (dec n)) \<noteq> 43" using digits_of_dec [of "hd (dec n)" n] by auto
  then have "hd (dec n) \<noteq> 43" by auto
  then show ?thesis by (simp add: parse_u64_def parse_digits_dec)
qed

section \<open>Lossy decoding\<close>

text \<open>
  The bytes the decoder takes from the front and whether they are a character: what is not is the longest
  part a character could have begun with, and at least one byte.
\<close>

definition third_end :: "byte \<Rightarrow> byte \<Rightarrow> bool" where
  "third_end a b = in_range (if a = 0xE0 then 0xA0 else 0x80) (if a = 0xED then 0x9F else 0xBF) b"

definition fourth_end :: "byte \<Rightarrow> byte \<Rightarrow> bool" where
  "fourth_end a b = in_range (if a = 0xF0 then 0x90 else 0x80) (if a = 0xF4 then 0x8F else 0xBF) b"

definition continues :: "byte option \<Rightarrow> bool" where
  "continues c = (case c of Some b \<Rightarrow> in_range 0x80 0xBF b | None \<Rightarrow> False)"

definition byte_at :: "bytes \<Rightarrow> nat \<Rightarrow> byte option" where
  "byte_at bs i = (if i < length bs then Some (bs ! i) else None)"

definition utf8_chunk :: "bytes \<Rightarrow> nat \<times> bool" where
  "utf8_chunk bs =
     (let a = hd bs; b = byte_at bs 1 in
      if unat a < 0x80 then (1, True)
      else if in_range 0xC2 0xDF a then (if continues b then (2, True) else (1, False))
      else if in_range 0xE0 0xEF a then
        (if \<not> (case b of Some b \<Rightarrow> third_end a b | None \<Rightarrow> False) then (1, False)
         else if continues (byte_at bs 2) then (3, True) else (2, False))
      else if in_range 0xF0 0xF4 a then
        (if \<not> (case b of Some b \<Rightarrow> fourth_end a b | None \<Rightarrow> False) then (1, False)
         else if \<not> continues (byte_at bs 2) then (2, False)
         else if continues (byte_at bs 3) then (4, True) else (3, False))
      else (1, False))"

definition REPLACEMENT :: bytes where "REPLACEMENT = [0xEF, 0xBF, 0xBD]"

lemma utf8_chunk_pos: "0 < fst (utf8_chunk bs)"
  by (simp add: utf8_chunk_def Let_def)

function from_utf8_lossy :: "bytes \<Rightarrow> bytes" where
  "from_utf8_lossy bs =
     (if bs = [] then []
      else let (k, good) = utf8_chunk bs in (if good then take k bs else REPLACEMENT) @ from_utf8_lossy (drop k bs))"
  by pat_completeness auto
termination
proof (relation "measure length")
  fix bs :: bytes and x k good assume "bs \<noteq> []" "x = utf8_chunk bs" "(k, good) = x"
  then have "0 < k" using utf8_chunk_pos [of bs] by (metis fst_conv)
  then show "(drop k bs, bs) \<in> measure length" using \<open>bs \<noteq> []\<close> by simp
qed simp

declare from_utf8_lossy.simps [simp del]

lemma byte_at_Cons: "byte_at (a # bs) 0 = Some a" "byte_at (a # bs) (Suc i) = byte_at bs i" "byte_at [] i = None"
  by (simp_all add: byte_at_def)

lemma lead_cases:
  obtains (one) "unat a < 0x80"
  | (two) "in_range 0xC2 0xDF a" "\<not> unat a < 0x80"
  | (three) "in_range 0xE0 0xEF a" "\<not> unat a < 0x80" "\<not> in_range 0xC2 0xDF a"
  | (four) "in_range 0xF0 0xF4 a" "\<not> unat a < 0x80" "\<not> in_range 0xC2 0xDF a" "\<not> in_range 0xE0 0xEF a"
  | (bad) "\<not> unat a < 0x80" "\<not> in_range 0xC2 0xDF a" "\<not> in_range 0xE0 0xEF a" "\<not> in_range 0xF0 0xF4 a"
proof -
  have "in_range 0xC2 0xDF a \<Longrightarrow> \<not> unat a < 0x80" "in_range 0xE0 0xEF a \<Longrightarrow> \<not> unat a < 0x80 \<and> \<not> in_range 0xC2 0xDF a"
    "in_range 0xF0 0xF4 a \<Longrightarrow> \<not> unat a < 0x80 \<and> \<not> in_range 0xC2 0xDF a \<and> \<not> in_range 0xE0 0xEF a"
    by (simp_all add: in_range_def)
  then show thesis using that by blast
qed

lemma utf8_valid_chunk:
  "utf8_valid (a # bs) = (snd (utf8_chunk (a # bs)) \<and> utf8_valid (drop (fst (utf8_chunk (a # bs))) (a # bs)))"
proof (cases a rule: lead_cases)
  case one
  then show ?thesis by (simp add: utf8_chunk_def)
next
  case two
  then show ?thesis by (cases bs) (simp_all add: utf8_chunk_def byte_at_def continues_def)
next
  case three
  show ?thesis
  proof (cases bs)
    case (Cons b cs)
    then show ?thesis using three by (cases cs) (simp_all add: utf8_chunk_def byte_at_def continues_def third_end_def)
  qed (use three in \<open>simp add: utf8_chunk_def byte_at_def\<close>)
next
  case four
  show ?thesis
  proof (cases bs)
    case (Cons b cs)
    show ?thesis
    proof (cases cs)
      case c: (Cons c ds)
      show ?thesis
      proof (cases ds)
        case d: (Cons d es)
        have ch: "utf8_chunk (a # b # c # d # es) =
            (if \<not> fourth_end a b then (1, False) else if \<not> in_range 0x80 0xBF c then (2, False)
             else if in_range 0x80 0xBF d then (4, True) else (3, False))"
          using four by (simp add: utf8_chunk_def byte_at_def continues_def numeral_2_eq_2 numeral_3_eq_3)
        have "utf8_valid (a # b # c # d # es) =
            (fourth_end a b \<and> in_range 0x80 0xBF c \<and> in_range 0x80 0xBF d \<and> utf8_valid es)"
          using four by (simp only: utf8_valid.simps(2) if_False list.case fourth_end_def) simp
        then show ?thesis unfolding Cons c d ch by (simp split: if_splits)
      qed (use four Cons c in \<open>simp add: utf8_chunk_def byte_at_def continues_def\<close>)
    qed (use four Cons in \<open>simp add: utf8_chunk_def byte_at_def continues_def\<close>)
  qed (use four in \<open>simp add: utf8_chunk_def byte_at_def\<close>)
next
  case bad
  obtain b cs where "bs = [] \<or> bs = b # cs" by (cases bs) auto
  moreover obtain c ds where "cs = [] \<or> cs = c # ds" by (cases cs) auto
  moreover obtain d es where "ds = [] \<or> ds = d # es" by (cases ds) auto
  ultimately have "\<not> utf8_valid (a # bs)" using bad by (elim disjE) simp_all
  then show ?thesis using bad by (simp add: utf8_chunk_def del: utf8_valid.simps)
qed

lemma continues_Some: "continues x \<Longrightarrow> \<exists>b. x = Some b"
  by (auto simp: continues_def split: option.splits)

lemma byte_at_Some: "byte_at bs i = Some b \<Longrightarrow> i < length bs"
  by (simp add: byte_at_def split: if_splits)

lemma utf8_chunk_local:
  assumes "utf8_chunk bs = (k, True)" "hd bs' = hd bs" "\<forall>i. 0 < i \<and> i < k \<longrightarrow> byte_at bs' i = byte_at bs i"
  shows "utf8_chunk bs' = (k, True)"
proof -
  have e: "i < k \<Longrightarrow> 0 < i \<Longrightarrow> byte_at bs' i = byte_at bs i" for i using assms(3) by blast
  show ?thesis using assms(1) e [of 1] e [of 2] e [of 3]
    by (cases "hd bs" rule: lead_cases) (simp_all add: utf8_chunk_def Let_def assms(2) split: if_splits)
qed

lemma utf8_chunk_length:
  assumes "utf8_chunk bs = (k, True)" "bs \<noteq> []"
  shows "k \<le> length bs"
proof -
  have b: "continues (byte_at bs i) \<Longrightarrow> i < length bs" for i using continues_Some byte_at_Some by blast
  show ?thesis using assms b [of 1] b [of 2] b [of 3]
    by (cases "hd bs" rule: lead_cases) (auto simp: utf8_chunk_def Let_def Suc_le_eq split: if_splits)
qed

lemma utf8_chunk_valid:
  assumes "utf8_chunk bs = (k, True)" "bs \<noteq> []"
  shows "utf8_valid (take k bs @ ys) = utf8_valid ys"
proof -
  have k: "0 < k" "k \<le> length bs" using assms utf8_chunk_pos [of bs] utf8_chunk_length by simp_all
  then obtain a as where t: "take k bs = a # as" "hd bs = a" by (cases bs; cases k) auto
  have "utf8_chunk (take k bs @ ys) = (k, True)"
  proof (rule utf8_chunk_local [OF assms(1)])
    have "byte_at (take k bs @ ys) i = byte_at bs i" if "i < k" for i using that k by (simp add: byte_at_def nth_append)
    then show "\<forall>i. 0 < i \<and> i < k \<longrightarrow> byte_at (take k bs @ ys) i = byte_at bs i" by simp
  qed (simp add: t)
  moreover have "drop k (take k bs @ ys) = ys" using k by simp
  ultimately show ?thesis using utf8_valid_chunk [of a "as @ ys"] t by simp
qed

lemma from_utf8_lossy_valid: "utf8_valid bs \<Longrightarrow> from_utf8_lossy bs = bs"
proof (induction bs rule: from_utf8_lossy.induct)
  case (1 bs)
  show ?case
  proof (cases bs)
    case (Cons a cs)
    obtain k good where k: "utf8_chunk bs = (k, good)" by (cases "utf8_chunk bs")
    have "good \<and> utf8_valid (drop k bs)" using 1(2) k utf8_valid_chunk [of a cs] by (simp add: Cons)
    then show ?thesis using 1(1) [of _ k good] k Cons by (subst from_utf8_lossy.simps) simp
  qed (simp add: from_utf8_lossy.simps)
qed

lemma from_utf8_lossy_utf8: "utf8_valid (from_utf8_lossy bs)"
proof (induction bs rule: from_utf8_lossy.induct)
  case (1 bs)
  show ?case
  proof (cases bs)
    case (Cons a cs)
    obtain k good where k: "utf8_chunk bs = (k, good)" by (cases "utf8_chunk bs")
    have "utf8_valid (from_utf8_lossy (drop k bs))" using 1 [of _ k good] k Cons by simp
    then show ?thesis using k Cons utf8_chunk_valid [of bs k]
      by (subst from_utf8_lossy.simps) (auto simp: REPLACEMENT_def in_range_def)
  qed (simp add: from_utf8_lossy.simps)
qed

lemma from_utf8_lossy_nonempty: "bs \<noteq> [] \<Longrightarrow> from_utf8_lossy bs \<noteq> []"
  by (subst from_utf8_lossy.simps) (use utf8_chunk_pos [of bs] in \<open>auto simp: REPLACEMENT_def split: prod.splits\<close>)

section \<open>The texts of errors\<close>

definition display_error :: "(block_error \<Rightarrow> bytes) \<Rightarrow> error \<Rightarrow> bytes" where
  "display_error debug e =
     (case e of
        Block b \<Rightarrow> ascii ''block device: '' @ debug b
      | NotErofs \<Rightarrow> ascii ''not an EROFS image (magic mismatch at byte 1024)''
      | BadSuperblock s \<Rightarrow> ascii ''malformed superblock: '' @ ascii s
      | BadInode s \<Rightarrow> ascii ''malformed inode: '' @ ascii s
      | UnsupportedLayout n \<Rightarrow>
          ascii ''compression algorithm '' @ dec (unat n)
            @ ascii '' is not one this build decodes (expected 0 = LZ4, 1 = LZMA, 2 = DEFLATE)''
      | BadDirent s \<Rightarrow> ascii ''malformed directory: '' @ ascii s
      | BadXattr s \<Rightarrow> ascii ''malformed xattr: '' @ ascii s
      | NotFound \<Rightarrow> ascii ''not found''
      | NotADirectory \<Rightarrow> ascii ''not a directory''
      | OutOfRange \<Rightarrow> ascii ''read past end of file'')"

section \<open>A UUID\<close>

definition format_uuid :: "bytes \<Rightarrow> bytes" where
  "format_uuid u =
     (let hex = concat (map hex_byte u); dash = ascii ''-'' in
      take 8 hex @ dash @ take 4 (drop 8 hex) @ dash @ take 4 (drop 12 hex) @ dash @ take 4 (drop 16 hex) @ dash
        @ take 12 (drop 20 hex))"

end
