(* ===== verification/Cli.thy ===== *)
theory Cli
  imports Paths Text "HOL-Library.List_Lexorder" "HOL-Library.Option_ord"
begin

text \<open>
  The verbs of \<open>fs.erofs\<close> (\<open>src/cli/erofs/fs.rs\<close>) over the modelled reader, from the parsed command line to the
  outcome: \<open>ls\<close> and \<open>ls -R\<close>, \<open>stat\<close>, \<open>read\<close>, \<open>export\<close> with the tree it exports from, \<open>xattr\<close>, \<open>get\<close> and the
  verbs that are refused. The state of a verb is the cache of the handle and the world of files and streams
  around the process. JSON values, the rendering of a report, the bounds of a listing and the transfer of an
  export belong to \<open>fs_core::cli\<close>: of a value the constructors the sources use are given, and what is computed
  from one is a parameter, as are the calls of the host. A path of the host is its bytes.
\<close>

section \<open>Values, errors and the world\<close>

datatype json =
    JNull
  | JBool bool
  | JNum int
  | JStr bytes
  | JArr "json list"
  | JObj "(string \<times> json) list"

datatype cli_error =
    CliFailed bytes
  | CliNotFound bytes
  | CliRefused bytes
  | CliUsage bytes
  | CliNotImplemented bytes
  | BoundReached string u64 bytes

record outcome =
  oc_report :: "json option"
  oc_text :: "bytes option"

definition report :: "json \<Rightarrow> outcome" where "report j = \<lparr>oc_report = Some j, oc_text = None\<rparr>"
definition with_text :: "bytes \<Rightarrow> outcome \<Rightarrow> outcome" where "with_text t oc = oc\<lparr>oc_text := Some t\<rparr>"
definition outcome_done :: outcome where "outcome_done = \<lparr>oc_report = None, oc_text = None\<rparr>"

text \<open>A call of the host fails with a text, or succeeds; a failure may have done a part of its work.\<close>

type_synonym 'w host_call = "'w \<Rightarrow> bytes option \<times> 'w"

record 'w host =
  h_stdout :: "bytes \<Rightarrow> 'w host_call"
  h_flush_stdout :: "'w host_call"
  h_create :: "bytes \<Rightarrow> 'w host_call"
  h_append :: "bytes \<Rightarrow> bytes \<Rightarrow> 'w host_call"
  h_flush :: "bytes \<Rightarrow> 'w host_call"
  h_write_file :: "bytes \<Rightarrow> bytes \<Rightarrow> 'w host_call"
  h_rename :: "bytes \<Rightarrow> bytes \<Rightarrow> 'w host_call"
  h_remove :: "bytes \<Rightarrow> 'w \<Rightarrow> 'w"

record ('z, 'c, 'w) tool =
  t_libs :: "('z, 'c) libs"
  t_depth :: nat
  t_debug :: "block_error \<Rightarrow> bytes"
  t_get :: "json \<Rightarrow> string \<Rightarrow> json option"
  t_text :: "json \<Rightarrow> bytes"
  t_render :: "outcome \<Rightarrow> bytes"
  t_quote :: "string \<Rightarrow> bytes"
  t_host :: "'w host"

section \<open>Steps of a verb\<close>

datatype 'a answer = Fine 'a | Fails cli_error | Panics | Runs

type_synonym ('c, 'w, 'a) verb = "'c pcluster_cache \<times> 'w \<Rightarrow> 'a answer \<times> 'c pcluster_cache \<times> 'w"

definition retV :: "'a answer \<Rightarrow> ('c, 'w, 'a) verb" where "retV a s = (a, s)"

definition bindV :: "('c, 'w, 'a) verb \<Rightarrow> ('a \<Rightarrow> ('c, 'w, 'b) verb) \<Rightarrow> ('c, 'w, 'b) verb" where
  "bindV m f s = (case m s of
     (Fine a, s') \<Rightarrow> f a s' | (Fails e, s') \<Rightarrow> (Fails e, s') | (Panics, s') \<Rightarrow> (Panics, s') | (Runs, s') \<Rightarrow> (Runs, s'))"

lemma bindV_cong [fundef_cong]:
  "m s = m' s \<Longrightarrow> s = t \<Longrightarrow> (\<And>a s'. m' s = (Fine a, s') \<Longrightarrow> f a s' = g a s') \<Longrightarrow> bindV m f s = bindV m' g t"
  by (cases "m' s"; cases "fst (m' s)") (auto simp: bindV_def)

definition answer_of :: "(error \<Rightarrow> cli_error) \<Rightarrow> 'a result \<Rightarrow> 'a answer" where
  "answer_of f r = (case r of Ok a \<Rightarrow> Fine a | Err e \<Rightarrow> Fails (f e) | Panic \<Rightarrow> Panics | Overrun \<Rightarrow> Runs)"

text \<open>A call of the library with \<open>map_err\<close>, and a call of the host whose failure is the text behind \<open>what\<close>.\<close>

definition lib :: "(error \<Rightarrow> cli_error) \<Rightarrow> ('c, 'a) io \<Rightarrow> ('c, 'w, 'a) verb" where
  "lib f m s = (case m (fst s) of (r, pc) \<Rightarrow> (answer_of f r, (pc, snd s)))"

definition on_host :: "'w host_call \<Rightarrow> bytes \<Rightarrow> ('c, 'w, unit) verb" where
  "on_host m what s = (case m (snd s) of (None, w) \<Rightarrow> (Fine (), (fst s, w)) | (Some t, w) \<Rightarrow> (Fails (CliFailed (what @ t)), (fst s, w)))"

primrec mapV :: "('a \<Rightarrow> ('c, 'w, 'b) verb) \<Rightarrow> 'a list \<Rightarrow> ('c, 'w, 'b list) verb" where
  "mapV f [] = retV (Fine [])"
| "mapV f (x # xs) = bindV (f x) (\<lambda>y. bindV (mapV f xs) (\<lambda>ys. retV (Fine (y # ys))))"

section \<open>Texts\<close>

definition show_bytes :: "bytes \<Rightarrow> bytes" where "show_bytes bs = from_utf8_lossy bs"

definition hex_bytes :: "bytes \<Rightarrow> bytes" where "hex_bytes bs = concat (map hex_byte bs)"

definition hex_field :: "string \<Rightarrow> bytes \<Rightarrow> (string \<times> json) list" where
  "hex_field key bs = (if from_utf8 bs = None then [(key, JStr (hex_bytes bs))] else [])"

definition erofs_error :: "('z, 'c, 'w) tool \<Rightarrow> bytes \<Rightarrow> error \<Rightarrow> cli_error" where
  "erofs_error T what e =
     (let message = show_bytes what @ ascii '': '' @ display_error (t_debug T) e in
      case e of NotFound \<Rightarrow> CliNotFound message | _ \<Rightarrow> CliFailed message)"

definition type_name :: "file_type \<Rightarrow> string" where
  "type_name t =
     (case t of
        RegularFile \<Rightarrow> ''file'' | Dir \<Rightarrow> ''dir'' | Symlink \<Rightarrow> ''symlink'' | ChrDev \<Rightarrow> ''char''
      | BlkDev \<Rightarrow> ''block'' | Fifo \<Rightarrow> ''fifo'' | Sock \<Rightarrow> ''socket'' | Unknown \<Rightarrow> ''unknown'')"

definition type_char :: "bytes \<Rightarrow> byte" where
  "type_char t =
     (if t = ascii ''file'' then 0x2D else if t = ascii ''dir'' then 0x64 else if t = ascii ''symlink'' then 0x6C
      else if t = ascii ''char'' then 0x63 else if t = ascii ''block'' then 0x62 else if t = ascii ''fifo'' then 0x70
      else if t = ascii ''socket'' then 0x73 else 0x3F)"

definition mode_text :: "u16 \<Rightarrow> bytes" where "mode_text mode = zero_pad 4 (radix 8 (unat (mode AND 0xFFF)))"

text \<open>The characters of a text: its bytes that do not continue one.\<close>

definition char_count :: "bytes \<Rightarrow> nat" where
  "char_count t = length (filter (\<lambda>b. b AND 0xC0 \<noteq> 0x80) t)"

definition pad_left :: "nat \<Rightarrow> bytes \<Rightarrow> bytes" where "pad_left n t = replicate (n - char_count t) 0x20 @ t"

fun join_with :: "bytes \<Rightarrow> bytes list \<Rightarrow> bytes" where
  "join_with sep [] = []"
| "join_with sep [t] = t"
| "join_with sep (t # u # ts) = t @ sep @ join_with sep (u # ts)"

definition join_lines :: "bytes list \<Rightarrow> bytes" where "join_lines = join_with [0x0A]"

section \<open>Listing\<close>

definition inode_time :: "filesystem \<Rightarrow> inode \<Rightarrow> u64 \<times> u32" where
  "inode_time fs ino =
     (case fmt_version (i_format ino) of
        Compact \<Rightarrow> (sb_build_time (fs_sb fs), sb_build_time_nsec (fs_sb fs))
      | Extended \<Rightarrow> (i_mtime ino, i_mtime_nsec ino))"

definition target_field :: "bytes \<Rightarrow> (string \<times> json) list" where
  "target_field target = [(''target'', JStr (show_bytes target))]"

definition rdev_fields :: "inode \<Rightarrow> (string \<times> json) list" where
  "rdev_fields ino =
     (case rdev ino of Some (major, minor) \<Rightarrow> [(''major'', JNum (uint major)), (''minor'', JNum (uint minor))] | None \<Rightarrow> [])"

definition entry :: "('z, 'c, 'w) tool \<Rightarrow> filesystem \<Rightarrow> bytes \<Rightarrow> inode \<Rightarrow> ('c, json) io" where
  "entry T fs name ino =
     (let kind = file_type ino;
          front = (''name'', JStr (show_bytes name)) # hex_field ''name_hex'' name @
            [(''type'', JStr (ascii (type_name kind))), (''size'', JNum (uint (i_size ino))),
             (''mode'', JStr (mode_text (i_mode ino))), (''mtime'', JNum (uint (fst (inode_time fs ino)))),
             (''inode'', JNum (uint (i_nid ino)))]
      in bindS (if kind = Symlink
                then bindS (read_symlink_target (t_depth T) (t_libs T) fs ino) (\<lambda>target. liftS (Ok (target_field target)))
                else liftS (Ok [])) (\<lambda>link.
           liftS (Ok (JObj (front @ link @ rdev_fields ino)))))"

definition entry_text :: "('z, 'c, 'w) tool \<Rightarrow> json \<Rightarrow> bytes" where
  "entry_text T e =
     (let field = (\<lambda>k. case t_get T e k of Some v \<Rightarrow> t_text T v | None \<Rightarrow> []) in
      [type_char (field ''type'')] @ field ''mode'' @ [0x20] @ pad_left 12 (field ''size'') @ [0x20] @
      (case t_get T e ''path'' of Some v \<Rightarrow> t_text T v | None \<Rightarrow> field ''name'') @
      (case t_get T e ''target'' of Some v \<Rightarrow> ascii '' -> '' @ t_text T v | None \<Rightarrow> []) @
      (if t_get T e ''revisited'' \<noteq> None then ascii '' [revisited]'' else []))"

definition listing_report :: "('z, 'c, 'w) tool \<Rightarrow> json list \<Rightarrow> outcome" where
  "listing_report T entries = with_text (join_lines (map (entry_text T) entries)) (report (JArr entries))"

text \<open>A name of a directory under its path.\<close>

definition path_join :: "bytes \<Rightarrow> bytes \<Rightarrow> bytes" where
  "path_join path name = (if path \<noteq> [] \<and> last path = slash then path else path @ [slash]) @ name"

definition is_dot_entry :: "dir_entry \<Rightarrow> bool" where
  "is_dot_entry e = (de_name e = [0x2E] \<or> de_name e = [0x2E, 0x2E])"

definition last_component :: "bytes \<Rightarrow> bytes" where
  "last_component path = (case filter (\<lambda>c. c \<noteq> []) (rev (split_slash path)) of c # _ \<Rightarrow> c | [] \<Rightarrow> path)"

definition ls_child :: "('z, 'c, 'w) tool \<Rightarrow> filesystem \<Rightarrow> bytes \<Rightarrow> dir_entry \<Rightarrow> ('c, 'w, json) verb" where
  "ls_child T fs path d =
     (let full = path_join path (de_name d) in
      lib (erofs_error T full) (bindS (liftS (read_inode fs (de_nid d))) (entry T fs (de_name d))))"

definition ls :: "('z, 'c, 'w) tool \<Rightarrow> filesystem \<Rightarrow> bytes \<Rightarrow> ('c, 'w, outcome) verb" where
  "ls T fs path =
     bindV (lib (erofs_error T path) (lookup_path_bytes (t_depth T) (t_libs T) fs path)) (\<lambda>ino.
     bindV (if is_dir ino
            then bindV (lib (erofs_error T path) (read_dir (t_depth T) (t_libs T) fs ino)) (\<lambda>ds.
                 bindV (mapV (ls_child T fs path) (filter (\<lambda>d. \<not> is_dot_entry d) ds)) (\<lambda>listed.
                   retV (Fine (sort_key (\<lambda>e. map_option (t_text T) (t_get T e ''name'')) listed))))
            else bindV (lib (erofs_error T path) (entry T fs (last_component path) ino)) (\<lambda>e. retV (Fine [e]))) (\<lambda>entries.
       retV (Fine (listing_report T entries))))"

section \<open>Recursive listing\<close>

definition recursive_entry :: "('z, 'c, 'w) tool \<Rightarrow> filesystem \<Rightarrow> bytes \<Rightarrow> u64 \<Rightarrow> inode \<Rightarrow> bool \<Rightarrow> ('c, 'w, json) verb" where
  "recursive_entry T fs path depth ino revisited =
     bindV (lib (erofs_error T path) (entry T fs (last (split_slash path)) ino)) (\<lambda>e.
       case e of
         JObj fds \<Rightarrow>
           retV (Fine (JObj (fds @ [(''path'', JStr (show_bytes path))] @ hex_field ''path_hex'' path
             @ [(''depth'', JNum (uint depth))] @ (if revisited then [(''revisited'', JBool True)] else []))))
       | _ \<Rightarrow> retV Panics)"

definition list_children :: "('z, 'c, 'w) tool \<Rightarrow> filesystem \<Rightarrow> inode \<Rightarrow> bytes \<Rightarrow> ('c, 'w, dir_entry list) verb" where
  "list_children T fs node at =
     bindV (lib (erofs_error T at) (read_dir (t_depth T) (t_libs T) fs node)) (\<lambda>ds.
       retV (Fine (sort_key de_name (filter (\<lambda>d. \<not> is_dot_entry d) ds))))"

text \<open>A step of the loop: what was listed before it stays when it fails.\<close>

definition or_stop ::
    "('c, 'w, 'a) verb \<Rightarrow> json list \<Rightarrow> ('a \<Rightarrow> 'c pcluster_cache \<times> 'w \<Rightarrow> (json list \<times> unit answer) \<times> 'c pcluster_cache \<times> 'w)
       \<Rightarrow> 'c pcluster_cache \<times> 'w \<Rightarrow> (json list \<times> unit answer) \<times> 'c pcluster_cache \<times> 'w" where
  "or_stop m entries k s = (case m s of
     (Fine a, s') \<Rightarrow> k a s' | (Fails e, s') \<Rightarrow> ((entries, Fails e), s') | (Panics, s') \<Rightarrow> ((entries, Panics), s')
   | (Runs, s') \<Rightarrow> ((entries, Runs), s'))"

lemma or_stop_cong [fundef_cong]:
  "m s = m' s \<Longrightarrow> es = es' \<Longrightarrow> s = t \<Longrightarrow> (\<And>a s'. m' s = (Fine a, s') \<Longrightarrow> k a s' = k' a s') \<Longrightarrow> or_stop m es k s = or_stop m' es' k' t"
  by (cases "m' s"; cases "fst (m' s)") (auto simp: or_stop_def)

text \<open>The stack of directory iterators: a path, its depth and the children still to list.\<close>

type_synonym dir_frame = "bytes \<times> u64 \<times> dir_entry list"

lemma card_words_le: "card (A :: u64 set) \<le> 2 ^ 64"
  using card_mono [of "UNIV :: u64 set" A] by (simp add: card_word)

function (sequential) ls_loop ::
    "('z, 'c, 'w) tool \<Rightarrow> filesystem \<Rightarrow> u64 \<Rightarrow> u64 \<Rightarrow> dir_frame list \<Rightarrow> u64 set \<Rightarrow> json list
       \<Rightarrow> 'c pcluster_cache \<times> 'w \<Rightarrow> (json list \<times> unit answer) \<times> 'c pcluster_cache \<times> 'w" where
  "ls_loop T fs max_depth limit [] visited entries s = ((entries, Fine ()), s)"
| "ls_loop T fs max_depth limit ((parent, parent_depth, []) # stack) visited entries s =
     ls_loop T fs max_depth limit stack visited entries s"
| "ls_loop T fs max_depth limit ((parent, parent_depth, child # children) # stack) visited entries s =
     (let full = path_join parent (de_name child); depth = parent_depth + 1 in
      if limit \<le> word_of_nat (length entries) then ((entries, Fails (BoundReached ''--limit'' limit (show_bytes full))), s)
      else if max_depth < depth then ((entries, Fails (BoundReached ''--max-depth'' max_depth (show_bytes full))), s)
      else or_stop (lib (erofs_error T full) (liftS (read_inode fs (de_nid child)))) entries (\<lambda>ino s.
        let revisited = is_dir ino \<and> i_nid ino \<in> visited;
            visited' = (if is_dir ino then insert (i_nid ino) visited else visited)
        in or_stop (recursive_entry T fs full depth ino revisited) entries (\<lambda>e s.
             if is_dir ino \<and> i_nid ino \<notin> visited
             then or_stop (list_children T fs ino full) (entries @ [e]) (\<lambda>next s.
                    ls_loop T fs max_depth limit ((full, depth, next) # (parent, parent_depth, children) # stack) visited'
                      (entries @ [e]) s) s
             else ls_loop T fs max_depth limit ((parent, parent_depth, children) # stack) visited' (entries @ [e]) s) s) s)"
  by pat_completeness auto
termination
proof (relation "measures [\<lambda>(T, fs, m, l, st, v, es, s). 2 ^ 64 - card v,
    \<lambda>(T, fs, m, l, st, v, es, s). sum_list (map (\<lambda>(p, d, cs). Suc (length cs)) st)]", goal_cases)
  case (3 _ _ _ _ _ _ _ _ _ visited _ _ _ _ ino)
  then show ?case using card_words_le [of "insert (i_nid ino) visited"] by simp
next
  case (4 _ _ _ _ _ _ _ _ _ visited _ _ _ _ ino)
  then show ?case by (auto simp: insert_absorb)
qed simp_all

text \<open>The printing of what was listed before a failure may fail itself, and then with its own error.\<close>

record list_bounds =
  lb_max_depth :: u64
  lb_limit :: u64

definition start_path :: "bytes \<Rightarrow> bytes" where
  "start_path path = (let full = concat (map (\<lambda>c. slash # c) (components path)) in if full = [] then [slash] else full)"

definition list_tree ::
    "('z, 'c, 'w) tool \<Rightarrow> filesystem \<Rightarrow> list_bounds \<Rightarrow> bytes \<Rightarrow> inode
       \<Rightarrow> 'c pcluster_cache \<times> 'w \<Rightarrow> (json list \<times> unit answer) \<times> 'c pcluster_cache \<times> 'w" where
  "list_tree T fs lb full ino s =
     (if \<not> is_dir ino then
        if lb_limit lb = 0 then (([], Fails (BoundReached ''--limit'' (lb_limit lb) (show_bytes full))), s)
        else or_stop (recursive_entry T fs full 0 ino False) [] (\<lambda>e s. (([e], Fine ()), s)) s
      else or_stop (list_children T fs ino full) [] (\<lambda>first s.
             ls_loop T fs (lb_max_depth lb) (lb_limit lb) [(full, 0, first)] {i_nid ino} [] s) s)"

definition ls_recursive :: "('z, 'c, 'w) tool \<Rightarrow> filesystem \<Rightarrow> bytes \<Rightarrow> list_bounds \<Rightarrow> ('c, 'w, outcome) verb" where
  "ls_recursive T fs path lb =
     bindV (lib (erofs_error T path) (lookup_path_bytes (t_depth T) (t_libs T) fs path)) (\<lambda>ino s.
       case list_tree T fs lb (start_path path) ino s of
         ((entries, Fine _), s) \<Rightarrow> (Fine (listing_report T entries), s)
       | ((entries, Fails e), s) \<Rightarrow>
           bindV (on_host (h_stdout (t_host T) (t_render T (listing_report T entries))) (ascii ''write: '')) (\<lambda>_.
             retV (Fails e)) s
       | ((entries, Panics), s) \<Rightarrow> (Panics, s)
       | ((entries, Runs), s) \<Rightarrow> (Runs, s))"

section \<open>One path\<close>

definition layout_name :: "data_layout \<Rightarrow> string" where
  "layout_name l =
     (case l of
        FlatPlain \<Rightarrow> ''flat_plain'' | FlatInline \<Rightarrow> ''flat_inline'' | CompressionLegacy \<Rightarrow> ''compression_legacy''
      | Compression \<Rightarrow> ''compression'' | ChunkBased \<Rightarrow> ''chunk_based'')"

definition version_name :: "inode_version \<Rightarrow> string" where
  "version_name v = (case v of Compact \<Rightarrow> ''compact'' | Extended \<Rightarrow> ''extended'')"

text \<open>The blocks the kernel accounts to an inode.\<close>

definition stat_blocks :: "filesystem \<Rightarrow> inode \<Rightarrow> u64" where
  "stat_blocks fs ino =
     (if file_type ino \<in> {RegularFile, Dir, Symlink} then
        if fmt_layout (i_format ino) \<in> {Compression, CompressionLegacy} then ucast (i_raw_u ino)
        else div_ceil (i_size ino) (block_size (fs_sb fs))
      else 0)"

definition stat_fields :: "filesystem \<Rightarrow> bytes \<Rightarrow> inode \<Rightarrow> u64 \<Rightarrow> (string \<times> json) list" where
  "stat_fields fs path ino allocated =
     [(''path'', JStr (show_bytes path)), (''inode'', JNum (uint (i_nid ino))),
      (''type'', JStr (ascii (type_name (file_type ino)))), (''mode'', JStr (mode_text (i_mode ino))),
      (''uid'', JNum (uint (i_uid ino))), (''gid'', JNum (uint (i_gid ino))), (''nlink'', JNum (uint (i_nlink ino))),
      (''size'', JNum (uint (i_size ino))), (''allocated_bytes'', JNum (uint allocated)),
      (''atime'', JNull), (''atime_nsec'', JNull),
      (''mtime'', JNum (sint (fst (inode_time fs ino)))), (''mtime_nsec'', JNum (uint (snd (inode_time fs ino)))),
      (''ctime'', JNull), (''ctime_nsec'', JNull), (''btime'', JNull), (''btime_nsec'', JNull)]"

definition stat :: "('z, 'c, 'w) tool \<Rightarrow> filesystem \<Rightarrow> bytes \<Rightarrow> ('c, 'w, outcome) verb" where
  "stat T fs path =
     bindV (lib (erofs_error T path) (lookup_path_bytes (t_depth T) (t_libs T) fs path)) (\<lambda>ino.
     case checked_mul (stat_blocks fs ino) (block_size (fs_sb fs)) of
       None \<Rightarrow> retV (Fails (CliFailed (show_bytes path @ ascii '': allocated size overflows'')))
     | Some allocated \<Rightarrow>
         bindV (if is_symlink ino
                then bindV (lib (erofs_error T path) (read_symlink_target (t_depth T) (t_libs T) fs ino)) (\<lambda>target.
                       retV (Fine (target_field target)))
                else retV (Fine [])) (\<lambda>link.
         bindV (lib (erofs_error T path) (liftS (fs_xattrs fs ino))) (\<lambda>xattrs.
           retV (Fine (report (JObj (stat_fields fs path ino allocated @ hex_field ''path_hex'' path @ link @ rdev_fields ino @
             [(''erofs'', JObj
                [(''layout'', JStr (ascii (version_name (fmt_version (i_format ino))))),
                 (''datalayout'', JStr (ascii (layout_name (fmt_layout (i_format ino))))),
                 (''xattr_count'', JNum (int (length xattrs))),
                 (''flags'', JStr (ascii ''0x'' @ zero_pad 4 (radix 16 (unat (push_bit 4 (fmt_flags (i_format ino)))))))])])))))))"

section \<open>Content\<close>

definition CHUNK :: usize where "CHUNK = 2 ^ 20"

text \<open>The loop of \<open>read\<close> over a sink, which is the standard output or a file.\<close>

lemma copy_step:
  fixes sz :: u64
  assumes "off < sz" "0 < c"
  shows "unat (off + word_of_nat (min (min c (unat sz)) (unat (sz - off)))) = unat off + min (min c (unat sz)) (unat (sz - off))"
    "0 < min (min c (unat sz)) (unat (sz - off))" "unat off + min (min c (unat sz)) (unat (sz - off)) \<le> unat sz"
    "unat sz - unat (off + word_of_nat (min (min c (unat sz)) (unat (sz - off)))) < unat sz - unat off"
proof -
  let ?w = "min (min c (unat sz)) (unat (sz - off))"
  have o: "unat off < unat sz" using assms(1) by (simp add: word_less_nat_alt)
  then have "unat (sz - off) = unat sz - unat off" using assms(1) by (simp add: unat_sub less_imp_le)
  then show w: "0 < ?w" "unat off + ?w \<le> unat sz" using o assms(2) by auto
  show n: "unat (off + word_of_nat ?w) = unat off + ?w"
    using w(2) unsigned_less [of sz, where ?'a = nat] by (simp add: unat_word_ariths unat_of_nat)
  show "unat sz - unat (off + word_of_nat ?w) < unat sz - unat off" unfolding n using w o by linarith
qed

function copy_loop ::
    "('z, 'c, 'w) tool \<Rightarrow> filesystem \<Rightarrow> bytes \<Rightarrow> inode \<Rightarrow> (bytes \<Rightarrow> 'w host_call) \<Rightarrow> 'w host_call \<Rightarrow> u64 \<Rightarrow> ('c, 'w, unit) verb" where
  "copy_loop T fs path ino write_all flush offset s =
     (let buf_len = min CHUNK (unat (i_size ino)) in
      if offset < i_size ino then
        let want = min buf_len (unat (i_size ino - offset)) in
        bindV (lib (erofs_error T path) (read_file (t_depth T) (t_libs T) fs ino offset want)) (\<lambda>got.
        bindV (on_host (write_all got) (ascii ''write: '')) (\<lambda>_.
          copy_loop T fs path ino write_all flush (offset + word_of_nat want))) s
      else on_host flush (ascii ''write: '') s)"
  by pat_completeness auto
termination
proof (relation "measure (\<lambda>(T, fs, path, ino, wr, fl, offset, s). unat (i_size ino) - unat offset)", goal_cases)
  case (2 T fs path ino wr fl offset s b w)
  then have "offset < i_size ino" by simp
  from copy_step(4) [OF this, of CHUNK] 2 show ?case by (simp add: CHUNK_def)
qed simp

declare copy_loop.simps [simp del]

definition partial_name :: "bytes \<Rightarrow> bytes" where "partial_name file = file @ ascii ''.partial''"

definition read_refusal :: "('z, 'c, 'w) tool \<Rightarrow> filesystem \<Rightarrow> bytes \<Rightarrow> inode \<Rightarrow> ('c, 'w, unit) verb" where
  "read_refusal T fs path ino =
     (case file_type ino of
        RegularFile \<Rightarrow> retV (Fine ())
      | Dir \<Rightarrow> retV (Fails (CliFailed (show_bytes path @ ascii '': is a directory'')))
      | Symlink \<Rightarrow> (\<lambda>s.
          case read_symlink_target (t_depth T) (t_libs T) fs ino (fst s) of (r, pc) \<Rightarrow>
            ((case r of Panic \<Rightarrow> Panics | Overrun \<Rightarrow> Runs
              | _ \<Rightarrow> Fails (CliFailed (show_bytes path @ ascii '': is a symlink to ''
                       @ show_bytes (case r of Ok target \<Rightarrow> target | _ \<Rightarrow> []) @ ascii ''; read the target instead''))),
             (pc, snd s)))
      | _ \<Rightarrow> retV (Fails (CliFailed (show_bytes path @ ascii '': not a regular file''))))"

definition read_out :: "('z, 'c, 'w) tool \<Rightarrow> filesystem \<Rightarrow> bytes \<Rightarrow> inode \<Rightarrow> bytes option \<Rightarrow> ('c, 'w, unit) verb" where
  "read_out T fs path ino output =
     (case output of
        None \<Rightarrow> copy_loop T fs path ino (h_stdout (t_host T)) (h_flush_stdout (t_host T)) 0
      | Some dest \<Rightarrow>
          let partial = partial_name dest in
          bindV (on_host (h_create (t_host T) partial) (ascii ''create '' @ show_bytes partial @ ascii '': '')) (\<lambda>_ s.
            case copy_loop T fs path ino (h_append (t_host T) partial) (h_flush (t_host T) partial) 0 s of
              (Fails e, (pc, w)) \<Rightarrow> (Fails e, (pc, h_remove (t_host T) partial w))
            | (Fine _, s) \<Rightarrow> on_host (h_rename (t_host T) partial dest) (ascii ''rename to '' @ show_bytes dest @ ascii '': '') s
            | (a, s) \<Rightarrow> (a, s)))"

definition read_verb :: "('z, 'c, 'w) tool \<Rightarrow> filesystem \<Rightarrow> bytes \<Rightarrow> bytes option \<Rightarrow> ('c, 'w, outcome) verb" where
  "read_verb T fs path output =
     bindV (lib (erofs_error T path) (lookup_path_bytes (t_depth T) (t_libs T) fs path)) (\<lambda>ino.
     bindV (read_refusal T fs path ino) (\<lambda>_.
     bindV (read_out T fs path ino output) (\<lambda>_. retV (Fine outcome_done))))"

section \<open>Export\<close>

text \<open>What the transfer of \<open>fs_core\<close> is given: a file, or a tree.\<close>

record ('c, 'w) file_source =
  src_size :: u64
  src_read_at :: "u64 \<Rightarrow> usize \<Rightarrow> ('c, 'w, bytes) verb"

datatype tree_kind = TreeFile | TreeDirectory | TreeOther

record tree_metadata =
  tm_kind :: tree_kind
  tm_size :: u64
  tm_inode :: u64
  tm_accessed :: "(nat \<times> nat) option"
  tm_modified :: "(nat \<times> nat) option"

record tree_entry =
  te_name :: bytes
  te_metadata :: tree_metadata

record symbolic_link =
  sl_target :: bytes
  sl_target_is_directory :: bool

record ('c, 'w) tree_source =
  ts_symbolic_link :: "bytes \<Rightarrow> ('c, 'w, symbolic_link option) verb"
  ts_image_path :: bytes
  ts_metadata :: "bytes \<Rightarrow> ('c, 'w, tree_metadata) verb"
  ts_read_dir :: "bytes \<Rightarrow> ('c, 'w, tree_entry list) verb"
  ts_read_file_at :: "bytes \<Rightarrow> u64 \<Rightarrow> usize \<Rightarrow> ('c, 'w, bytes) verb"

text \<open>A duration behind the epoch in seconds and nanoseconds, when the time of a system can hold it.\<close>

definition since_epoch :: "u64 \<Rightarrow> u32 \<Rightarrow> (nat \<times> nat) option" where
  "since_epoch seconds nanos =
     (let secs = unat seconds + unat nanos div 1000000000 in
      if secs < 2 ^ 63 then Some (secs, unat nanos mod 1000000000) else None)"

definition source_read_at ::
    "('z, 'c, 'w) tool \<Rightarrow> filesystem \<Rightarrow> inode \<Rightarrow> bytes \<Rightarrow> u64 \<Rightarrow> usize \<Rightarrow> ('c, 'w, bytes) verb" where
  "source_read_at T fs ino path offset n = lib (erofs_error T path) (read_file (t_depth T) (t_libs T) fs ino offset n)"

definition drop_cache :: "('z, 'c, 'w) tool \<Rightarrow> ('c, 'w, unit) verb" where
  "drop_cache T s = (Fine (), (set_pcluster_cache_capacity (lib_lru (t_libs T)) 0 (fst s), snd s))"

definition export ::
    "('z, 'c, 'w) tool \<Rightarrow> (('c, 'w) file_source \<Rightarrow> ('c, 'w, outcome) verb) \<Rightarrow> filesystem \<Rightarrow> bytes \<Rightarrow> ('c, 'w, outcome) verb" where
  "export T transfer fs path =
     bindV (lib (erofs_error T path) (lookup_path_bytes (t_depth T) (t_libs T) fs path)) (\<lambda>ino.
       if file_type ino \<noteq> RegularFile then
         retV (Fails (CliFailed (show_bytes path
           @ ascii '': not a regular file; directories, symlinks and special files cannot be exported'')))
       else bindV (drop_cache T) (\<lambda>_.
         transfer \<lparr>src_size = i_size ino, src_read_at = source_read_at T fs ino path\<rparr>))"

definition tree_resolve :: "('z, 'c, 'w) tool \<Rightarrow> filesystem \<Rightarrow> bytes \<Rightarrow> ('c, 'w, inode) verb" where
  "tree_resolve T fs path = lib (erofs_error T path) (lookup_path_bytes (t_depth T) (t_libs T) fs path)"

definition metadata_for :: "filesystem \<Rightarrow> inode \<Rightarrow> tree_metadata" where
  "metadata_for fs ino =
     \<lparr>tm_kind = (case file_type ino of RegularFile \<Rightarrow> TreeFile | Dir \<Rightarrow> TreeDirectory | _ \<Rightarrow> TreeOther),
      tm_size = i_size ino, tm_inode = i_nid ino, tm_accessed = None,
      tm_modified = (case inode_time fs ino of (seconds, nanos) \<Rightarrow> since_epoch seconds nanos)\<rparr>"

definition tree_symbolic_link :: "('z, 'c, 'w) tool \<Rightarrow> filesystem \<Rightarrow> bytes \<Rightarrow> ('c, 'w, symbolic_link option) verb" where
  "tree_symbolic_link T fs path =
     bindV (tree_resolve T fs path) (\<lambda>ino.
       if \<not> is_symlink ino then retV (Fine None)
       else bindV (lib (erofs_error T path) (read_symlink_target (t_depth T) (t_libs T) fs ino)) (\<lambda>target.
         retV (Fine (Some \<lparr>sl_target = target, sl_target_is_directory = False\<rparr>))))"

definition tree_metadata_of :: "('z, 'c, 'w) tool \<Rightarrow> filesystem \<Rightarrow> bytes \<Rightarrow> ('c, 'w, tree_metadata) verb" where
  "tree_metadata_of T fs path = bindV (tree_resolve T fs path) (\<lambda>ino. retV (Fine (metadata_for fs ino)))"

definition tree_child :: "('z, 'c, 'w) tool \<Rightarrow> filesystem \<Rightarrow> bytes \<Rightarrow> dir_entry \<Rightarrow> ('c, 'w, tree_entry) verb" where
  "tree_child T fs path d =
     bindV (lib (erofs_error T (path_join path (de_name d))) (liftS (read_inode fs (de_nid d)))) (\<lambda>child.
       retV (Fine \<lparr>te_name = de_name d, te_metadata = metadata_for fs child\<rparr>))"

definition tree_read_dir :: "('z, 'c, 'w) tool \<Rightarrow> filesystem \<Rightarrow> bytes \<Rightarrow> ('c, 'w, tree_entry list) verb" where
  "tree_read_dir T fs path =
     bindV (tree_resolve T fs path) (\<lambda>ino.
     bindV (lib (erofs_error T path) (read_dir (t_depth T) (t_libs T) fs ino)) (\<lambda>ds.
       mapV (tree_child T fs path) (filter (\<lambda>d. \<not> is_dot_entry d) ds)))"

definition tree_read_file_at :: "('z, 'c, 'w) tool \<Rightarrow> filesystem \<Rightarrow> bytes \<Rightarrow> u64 \<Rightarrow> usize \<Rightarrow> ('c, 'w, bytes) verb" where
  "tree_read_file_at T fs path offset n =
     bindV (tree_resolve T fs path) (\<lambda>ino.
       if file_type ino \<noteq> RegularFile then retV (Fails (CliFailed (show_bytes path @ ascii '': not a regular file'')))
       else lib (erofs_error T path) (read_file (t_depth T) (t_libs T) fs ino offset n))"

definition tree_export :: "('z, 'c, 'w) tool \<Rightarrow> filesystem \<Rightarrow> bytes \<Rightarrow> ('c, 'w) tree_source" where
  "tree_export T fs target =
     \<lparr>ts_symbolic_link = tree_symbolic_link T fs, ts_image_path = target, ts_metadata = tree_metadata_of T fs,
      ts_read_dir = tree_read_dir T fs, ts_read_file_at = tree_read_file_at T fs\<rparr>"

section \<open>Attributes\<close>

definition write_value :: "('z, 'c, 'w) tool \<Rightarrow> bytes \<Rightarrow> bytes option \<Rightarrow> ('c, 'w, unit) verb" where
  "write_value T value output =
     (case output of
        None \<Rightarrow> bindV (on_host (h_stdout (t_host T) value) (ascii ''write: '')) (\<lambda>_.
                 on_host (h_flush_stdout (t_host T)) (ascii ''write: ''))
      | Some dest \<Rightarrow> (\<lambda>s.
          let partial = partial_name dest; what = ascii ''write '' @ show_bytes dest @ ascii '': '' in
          case bindV (on_host (h_write_file (t_host T) partial value) what) (\<lambda>_. on_host (h_rename (t_host T) partial dest) what) s of
            (Fails e, (pc, w)) \<Rightarrow> (Fails e, (pc, h_remove (t_host T) partial w))
          | (a, s) \<Rightarrow> (a, s)))"

definition xattr_entry_json :: "bytes \<times> bytes \<Rightarrow> json" where
  "xattr_entry_json a =
     JObj ((''name'', JStr (show_bytes (fst a))) # hex_field ''name_hex'' (fst a) @ [(''size'', JNum (int (length (snd a))))])"

definition xattr_line :: "bytes \<times> bytes \<Rightarrow> bytes" where
  "xattr_line a = dec (length (snd a)) @ [0x09] @ show_bytes (fst a)"

definition xattr :: "('z, 'c, 'w) tool \<Rightarrow> filesystem \<Rightarrow> bytes \<Rightarrow> bytes option \<Rightarrow> bytes option \<Rightarrow> ('c, 'w, outcome) verb" where
  "xattr T fs path name output =
     bindV (lib (erofs_error T path) (lookup_path_bytes (t_depth T) (t_libs T) fs path)) (\<lambda>ino.
     bindV (lib (erofs_error T path) (liftS (fs_xattrs fs ino))) (\<lambda>attrs.
     case name of
       Some name \<Rightarrow>
         (case find (\<lambda>a. fst a = name) attrs of
            None \<Rightarrow> retV (Fails (CliFailed (show_bytes path @ ascii '': no attribute '' @ show_bytes name)))
          | Some (_, value) \<Rightarrow> bindV (write_value T value output) (\<lambda>_. retV (Fine outcome_done)))
     | None \<Rightarrow>
         (let sorted = sort_key fst attrs in
          retV (Fine (with_text (join_lines (map xattr_line sorted)) (report (JArr (map xattr_entry_json sorted))))))))"

section \<open>Properties of the image\<close>

definition KEYS :: "string list" where
  "KEYS = [''fs'', ''label'', ''total_bytes'', ''free_bytes'', ''block_size'', ''dirty'', ''erofs'']"

definition envelope :: "filesystem \<Rightarrow> json" where
  "envelope fs =
     (let sb = fs_sb fs; label = takeWhile (\<lambda>b. b \<noteq> 0) (sb_volume_name sb) in
      JObj
       [(''fs'', JStr (ascii ''erofs'')), (''label'', if label = [] then JNull else JStr (show_bytes label)),
        (''total_bytes'', JNum (uint (ucast (sb_blocks sb) * block_size sb))), (''free_bytes'', JNum 0),
        (''block_size'', JNum (uint (block_size sb))), (''dirty'', JBool False),
        (''erofs'', JObj
          [(''uuid'', JStr (format_uuid (sb_uuid sb))), (''inode_count'', JNum (uint (sb_inos sb))),
           (''total_blocks'', JNum (uint (sb_blocks sb))), (''build_time'', JNum (uint (sb_build_time sb))),
           (''build_time_nsec'', JNum (uint (sb_build_time_nsec sb))), (''root_nid'', JNum (uint (sb_root_nid sb))),
           (''feature_compat'', JNum (uint (sb_feature_compat sb))),
           (''feature_incompat'', JNum (uint (sb_feature_incompat sb))),
           (''extra_devices'', JNum (uint (sb_extra_devices sb)))])])"

fun split_dot :: "string \<Rightarrow> string list" where
  "split_dot [] = [[]]"
| "split_dot (c # cs) =
     (if c = CHR ''.'' then [] # split_dot cs
      else (case split_dot cs of [] \<Rightarrow> [[c]] | p # ps \<Rightarrow> (c # p) # ps))"

definition get :: "('z, 'c, 'w) tool \<Rightarrow> filesystem \<Rightarrow> string option \<Rightarrow> outcome answer" where
  "get T fs key =
     (case key of
        None \<Rightarrow> Fine (report (envelope fs))
      | Some key \<Rightarrow>
          (case fold (\<lambda>part v. Option.bind v (\<lambda>v. t_get T v part)) (split_dot key) (Some (envelope fs)) of
             None \<Rightarrow> Fails (CliUsage (ascii ''no key '' @ t_quote T key @ ascii ''; the keys are ''
                        @ join_with (ascii '', '') (map ascii KEYS) @ ascii '' (and erofs.<field>)''))
           | Some value \<Rightarrow> Fine (with_text (t_text T value) (report (JObj [(key, value)])))))"

section \<open>The command line\<close>

definition READ_ONLY :: string where "READ_ONLY = ''EROFS is read-only''"

datatype request =
    Ls bytes "list_bounds option"
  | Stat bytes
  | Read bytes "bytes option"
  | Export bytes bool
  | Xattr bytes "bytes option" "bytes option"
  | Get "string option"

datatype command = On request | Mutation string

text \<open>Opening a file of the host gives a device or the text of a failure; \<open>OwnedSlice\<close> is a part of a device.\<close>

record ('c, 'w) surroundings =
  su_crc :: "bytes \<Rightarrow> u32"
  su_caching :: "blockdev \<Rightarrow> u64 \<Rightarrow> usize \<Rightarrow> blockdev"
  su_open_file :: "bytes \<Rightarrow> bytes + blockdev"
  su_slice :: "blockdev \<Rightarrow> u64 \<Rightarrow> u64 \<Rightarrow> blockdev"
  su_export :: "('c, 'w) file_source \<Rightarrow> ('c, 'w, outcome) verb"
  su_export_tree :: "('c, 'w) tree_source \<Rightarrow> ('c, 'w, outcome) verb"

definition open_target :: "('z, 'c, 'w) tool \<Rightarrow> ('c, 'w) surroundings \<Rightarrow> bytes \<Rightarrow> u64 \<Rightarrow> filesystem answer" where
  "open_target T su target offset =
     (let name = show_bytes target in
      case su_open_file su target of
        Inl e \<Rightarrow> Fails (CliFailed (ascii ''open '' @ name @ ascii '': '' @ e))
      | Inr file \<Rightarrow>
          if offset \<noteq> 0 \<and> dev_size file \<le> offset then
            Fails (CliFailed (ascii ''--offset '' @ dec (unat offset) @ ascii '' is past the end of '' @ name
              @ ascii '' ('' @ dec (unat (dev_size file)) @ ascii '' bytes)''))
          else
            let dev = (if offset = 0 then file else su_slice su file offset (dev_size file - offset)) in
            answer_of (\<lambda>e. CliFailed (name @ ascii '' is not a readable EROFS image: '' @ display_error (t_debug T) e))
              (fs_open (su_crc su) (su_caching su) dev))"

definition run_on :: "('z, 'c, 'w) tool \<Rightarrow> ('c, 'w) surroundings \<Rightarrow> filesystem \<Rightarrow> bytes \<Rightarrow> request \<Rightarrow> ('c, 'w, outcome) verb" where
  "run_on T su fs target req =
     (case req of
        Ls path (Some bounds) \<Rightarrow> ls_recursive T fs path bounds
      | Ls path None \<Rightarrow> ls T fs path
      | Stat path \<Rightarrow> stat T fs path
      | Read path output \<Rightarrow> read_verb T fs path output
      | Export path recursive \<Rightarrow>
          if recursive then bindV (drop_cache T) (\<lambda>_. su_export_tree su (tree_export T fs target))
          else export T (su_export su) fs path
      | Xattr path name output \<Rightarrow> xattr T fs path name output
      | Get key \<Rightarrow> retV (get T fs key))"

definition run :: "('z, 'c, 'w) tool \<Rightarrow> ('c, 'w) surroundings \<Rightarrow> bytes \<Rightarrow> u64 \<Rightarrow> command \<Rightarrow> 'w \<Rightarrow> outcome answer \<times> 'w" where
  "run T su target offset cmd w =
     (case cmd of
        Mutation verb \<Rightarrow>
          (Fails (CliRefused (ascii verb @ ascii '': '' @ ascii READ_ONLY @ ascii ''; build a new image with mkfs.erofs instead'')), w)
      | On req \<Rightarrow>
          (case open_target T su target offset of
             Fine fs \<Rightarrow>
               (case run_on T su fs target req (cache_new (lib_lru (t_libs T)) DEFAULT_PCLUSTER_CACHE_CAPACITY, w) of
                  (a, (_, w)) \<Rightarrow> (a, w))
           | Fails e \<Rightarrow> (Fails e, w) | Panics \<Rightarrow> (Panics, w) | Runs \<Rightarrow> (Runs, w)))"

end
