(* ===== verification/Capi.thy ===== *)
theory Capi
  imports PathsSafe Text
begin

text \<open>
  The C ABI (\<open>src/capi.rs\<close>) over the modelled reader: the calls a C program makes, with the boxes they hand
  out, the error the thread keeps, and the guard that stops a panic from unwinding into C. A pointer is a
  number, null being 0; the boxes behind the pointers are maps of the process, and a call on a pointer to no
  box is undefined, as it is in C. A pointer to memory of the caller is that memory or \<open>None\<close> for null: a C
  string is the bytes up to its first NUL, a buffer is the number of bytes that may be written to it, and the
  reply of a call that fills a buffer holds the bytes it stores there when it succeeds. The addresses the
  allocator gives are taken to be the next unused numbers. File and callback devices, the cache between them
  and the reader, the text of a panic and the \<open>Debug\<close> form of a block error belong to other crates and are
  parameters.
\<close>

section \<open>Errors of a thread\<close>

definition EIO :: int where "EIO = 5"
definition ENOENT :: int where "ENOENT = 2"
definition ENOTDIR :: int where "ENOTDIR = 20"
definition EACCES :: int where "EACCES = 13"
definition EINVAL :: int where "EINVAL = 22"
definition ERANGE :: int where "ERANGE = 34"

lemmas errno_consts = EIO_def ENOENT_def ENOTDIR_def EACCES_def EINVAL_def ERANGE_def

definition errno_for :: "error \<Rightarrow> int" where
  "errno_for e =
     (case e of
        NotFound \<Rightarrow> ENOENT
      | NotADirectory \<Rightarrow> ENOTDIR
      | OutOfRange \<Rightarrow> ERANGE
      | NotErofs \<Rightarrow> EINVAL
      | BadSuperblock _ \<Rightarrow> EINVAL
      | _ \<Rightarrow> EIO)"

record abi_attr =
  at_inode :: u64
  at_mode :: u16
  at_uid :: u32
  at_gid :: u32
  at_size :: u64
  at_mtime :: u32
  at_link_count :: u32
  at_file_type :: u32

record abi_dirent =
  ad_inode :: u64
  ad_file_type :: u8
  ad_name_len :: u8
  ad_name :: bytes

record volume_info =
  vi_block_size :: u32
  vi_total_blocks :: u32
  vi_inode_count :: u64
  vi_build_time :: u64
  vi_volume_name :: bytes
  vi_uuid :: bytes
  vi_feature_compat :: u32
  vi_feature_incompat :: u32

record dir_iter =
  it_entries :: "abi_dirent list"
  it_position :: usize
  it_current :: abi_dirent

record 'c mounted =
  mt_fs :: filesystem
  mt_cache :: "'c pcluster_cache"

type_synonym ptr = nat

record 'c process =
  p_error :: bytes
  p_errno :: int
  p_mounts :: "ptr \<rightharpoonup> 'c mounted"
  p_iters :: "ptr \<rightharpoonup> dir_iter"
  p_next :: ptr

definition set_last_error :: "bytes \<Rightarrow> 'c process \<Rightarrow> 'c process" where
  "set_last_error msg st = st\<lparr>p_error := (if 0 \<in> set msg then ascii ''unknown error'' else msg)\<rparr>"

definition set_err_msg :: "bytes \<Rightarrow> int \<Rightarrow> 'c process \<Rightarrow> 'c process" where
  "set_err_msg msg e st = (set_last_error msg st)\<lparr>p_errno := e\<rparr>"

definition set_err_from :: "(block_error \<Rightarrow> bytes) \<Rightarrow> error \<Rightarrow> bytes \<Rightarrow> 'c process \<Rightarrow> 'c process" where
  "set_err_from debug err ctxt st =
     (set_last_error (ctxt @ ascii '': '' @ display_error debug err) st)\<lparr>p_errno := errno_for err\<rparr>"

definition clear_last_error :: "'c process \<Rightarrow> 'c process" where
  "clear_last_error st = st\<lparr>p_error := [], p_errno := 0\<rparr>"

definition fs_erofs_last_error :: "'c process \<Rightarrow> bytes" where "fs_erofs_last_error st = p_error st"
definition fs_erofs_last_errno :: "'c process \<Rightarrow> int" where "fs_erofs_last_errno st = p_errno st"

section \<open>A call\<close>

text \<open>The kinds of an I/O error that are told apart.\<close>

datatype io_kind = KindNotFound | KindPermissionDenied | KindOther
datatype open_failure = Io io_kind | OtherFailure

definition errno_for_open_failure :: "open_failure \<Rightarrow> int" where
  "errno_for_open_failure e =
     (case e of
        Io KindNotFound \<Rightarrow> ENOENT
      | Io KindPermissionDenied \<Rightarrow> EACCES
      | Io KindOther \<Rightarrow> EIO
      | OtherFailure \<Rightarrow> EIO)"

text \<open>What the other crates provide: opening a file gives a device, or the kind and the text of an error; a callback
  device reads through a function that gives a code or the bytes.\<close>

record ('z, 'c) env =
  e_libs :: "('z, 'c) libs"
  e_crc :: "bytes \<Rightarrow> u32"
  e_caching :: "blockdev \<Rightarrow> u64 \<Rightarrow> usize \<Rightarrow> blockdev"
  e_depth :: nat
  e_open_file :: "bytes \<Rightarrow> open_failure \<times> bytes + blockdev"
  e_callback_device :: "u64 \<Rightarrow> (u64 \<Rightarrow> usize \<Rightarrow> int + (nat \<Rightarrow> byte)) \<Rightarrow> blockdev"
  e_debug :: "block_error \<Rightarrow> bytes"
  e_payload :: bytes

text \<open>A call returns, is unwinding from a panic, is still running when the bound on nested reads is spent, or
  has done what C leaves undefined.\<close>

datatype ('r, 's) ran = Done 'r 's | Unwinding 's | Running | Undefined

definition ffi_guard :: "('z, 'c) env \<Rightarrow> 'r \<Rightarrow> ('r, 'c process) ran \<Rightarrow> ('r, 'c process) ran" where
  "ffi_guard E fail body =
     (case body of
        Unwinding st \<Rightarrow> Done fail (set_err_msg (ascii ''panic: '' @ e_payload E) EIO st)
      | r \<Rightarrow> r)"

definition refuse :: "'r \<Rightarrow> bytes \<Rightarrow> int \<Rightarrow> 'c process \<Rightarrow> ('r, 'c process) ran" where
  "refuse fail msg e st = Done fail (set_err_msg msg e st)"

definition fail_with :: "('z, 'c) env \<Rightarrow> 'r \<Rightarrow> bytes \<Rightarrow> error \<Rightarrow> 'c process \<Rightarrow> ('r, 'c process) ran" where
  "fail_with E fail ctxt err st = Done fail (set_err_from (e_debug E) err ctxt st)"

text \<open>A call of the library, and what the caller does with its error or its value.\<close>

definition on_result ::
    "'a result \<Rightarrow> (error \<Rightarrow> 'c process \<Rightarrow> ('r, 'c process) ran) \<Rightarrow> ('a \<Rightarrow> 'c process \<Rightarrow> ('r, 'c process) ran)
      \<Rightarrow> 'c process \<Rightarrow> ('r, 'c process) ran" where
  "on_result r failed k st =
     (case r of Ok a \<Rightarrow> k a st | Err e \<Rightarrow> failed e st | Panic \<Rightarrow> Unwinding st | Overrun \<Rightarrow> Running)"

definition on_fs ::
    "ptr \<Rightarrow> ('c, 'a) io \<Rightarrow> (error \<Rightarrow> 'c process \<Rightarrow> ('r, 'c process) ran) \<Rightarrow> ('a \<Rightarrow> 'c process \<Rightarrow> ('r, 'c process) ran)
      \<Rightarrow> 'c process \<Rightarrow> ('r, 'c process) ran" where
  "on_fs fs m failed k st =
     (case p_mounts st fs of
        None \<Rightarrow> Undefined
      | Some mnt \<Rightarrow>
          case m (mt_cache mnt) of (r, pc) \<Rightarrow>
            on_result r failed k (st\<lparr>p_mounts := (p_mounts st)(fs \<mapsto> mnt\<lparr>mt_cache := pc\<rparr>)\<rparr>))"

definition the_fs :: "ptr \<Rightarrow> 'c process \<Rightarrow> (filesystem \<Rightarrow> ('r, 'c process) ran) \<Rightarrow> ('r, 'c process) ran" where
  "the_fs fs st k = (case p_mounts st fs of None \<Rightarrow> Undefined | Some mnt \<Rightarrow> k (mt_fs mnt))"

section \<open>Strings of the caller\<close>

definition c_str :: "bytes \<Rightarrow> bytes" where "c_str p = takeWhile (\<lambda>b. b \<noteq> 0) p"

definition cstr_to_str :: "bytes option \<Rightarrow> bytes" where
  "cstr_to_str p = (case p of None \<Rightarrow> [] | Some s \<Rightarrow> (case from_utf8 (c_str s) of Some t \<Rightarrow> t | None \<Rightarrow> []))"

definition shown :: "bytes \<Rightarrow> bytes" where "shown path = from_utf8_lossy path"

definition cstr_to_bytes :: "bytes option \<Rightarrow> 'c process \<Rightarrow> bytes option \<times> 'c process" where
  "cstr_to_bytes p st =
     (case p of None \<Rightarrow> (None, set_err_msg (ascii ''null path'') EINVAL st) | Some s \<Rightarrow> (Some (c_str s), st))"

section \<open>Structures of the caller\<close>

definition fill_attr :: "inode \<Rightarrow> abi_attr" where
  "fill_attr ino =
     \<lparr>at_inode = i_nid ino, at_mode = i_mode ino AND 0xFFF, at_uid = i_uid ino, at_gid = i_gid ino,
      at_size = i_size ino, at_mtime = ucast (i_mtime ino), at_link_count = i_nlink ino,
      at_file_type = ucast (dirent_type_for_mode (i_mode ino))\<rparr>"

definition dir_entry_to_abi :: "dir_entry \<Rightarrow> abi_dirent" where
  "dir_entry_to_abi e =
     (let copy = min (length (de_name e)) 255 in
      \<lparr>ad_inode = de_nid e, ad_file_type = de_file_type e, ad_name_len = word_of_nat copy,
       ad_name = take copy (de_name e) @ replicate (256 - copy) 0\<rparr>)"

definition zero_dirent :: abi_dirent where
  "zero_dirent = \<lparr>ad_inode = 0, ad_file_type = 0, ad_name_len = 0, ad_name = replicate 256 0\<rparr>"

section \<open>Mounting\<close>

definition mount_from_device :: "('z, 'c) env \<Rightarrow> blockdev \<Rightarrow> bytes \<Rightarrow> 'c process \<Rightarrow> (ptr, 'c process) ran" where
  "mount_from_device E dev ctxt st =
     on_result (fs_open (e_crc E) (e_caching E) dev) (fail_with E 0 ctxt)
       (\<lambda>fs st. Done (p_next st)
          (st\<lparr>p_mounts := (p_mounts st)(p_next st \<mapsto>
                \<lparr>mt_fs = fs, mt_cache = cache_new (lib_lru (e_libs E)) DEFAULT_PCLUSTER_CACHE_CAPACITY\<rparr>),
              p_next := Suc (p_next st)\<rparr>)) st"

definition fs_erofs_mount :: "('z, 'c) env \<Rightarrow> bytes option \<Rightarrow> 'c process \<Rightarrow> (ptr, 'c process) ran" where
  "fs_erofs_mount E device_path st =
     ffi_guard E 0
       (let st = clear_last_error st; path = cstr_to_str device_path in
        if path = [] then refuse 0 (ascii ''null or empty device_path'') EINVAL st
        else case e_open_file E path of
          Inl (e, text) \<Rightarrow> refuse 0 (ascii ''open '' @ path @ ascii '': '' @ text) (errno_for_open_failure e) st
        | Inr dev \<Rightarrow> mount_from_device E dev (ascii ''mount '' @ path) st)"

text \<open>The callback of the caller gives a code and, with code 0, has filled the buffer.\<close>

type_synonym read_callback = "u64 \<Rightarrow> usize \<Rightarrow> int \<times> (nat \<Rightarrow> byte)"

record blockdev_cfg =
  bc_read :: "read_callback option"
  bc_size_bytes :: u64

definition callback_read :: "read_callback \<Rightarrow> u64 \<Rightarrow> usize \<Rightarrow> int + (nat \<Rightarrow> byte)" where
  "callback_read f off n = (case f off n of (rc, buf) \<Rightarrow> if rc = 0 then Inr buf else Inl rc)"

definition fs_erofs_mount_with_callbacks :: "('z, 'c) env \<Rightarrow> blockdev_cfg option \<Rightarrow> 'c process \<Rightarrow> (ptr, 'c process) ran" where
  "fs_erofs_mount_with_callbacks E cfg st =
     ffi_guard E 0
       (let st = clear_last_error st in
        case cfg of
          None \<Rightarrow> refuse 0 (ascii ''null cfg'') EINVAL st
        | Some cfg \<Rightarrow>
            (case bc_read cfg of
               None \<Rightarrow> refuse 0 (ascii ''cfg.read is null'') EINVAL st
             | Some read_fn \<Rightarrow>
                 mount_from_device E (e_callback_device E (bc_size_bytes cfg) (callback_read read_fn)) (ascii ''mount (callback)'') st))"

definition fs_erofs_mount_with_fs_core_device :: "('z, 'c) env \<Rightarrow> blockdev option \<Rightarrow> 'c process \<Rightarrow> (ptr, 'c process) ran" where
  "fs_erofs_mount_with_fs_core_device E handle st =
     ffi_guard E 0
       (let st = clear_last_error st in
        case handle of
          None \<Rightarrow> refuse 0 (ascii ''null fs_core handle'') EINVAL st
        | Some dev \<Rightarrow> mount_from_device E dev (ascii ''mount via fs_core handle'') st)"

definition fs_erofs_umount :: "('z, 'c) env \<Rightarrow> ptr \<Rightarrow> 'c process \<Rightarrow> (unit, 'c process) ran" where
  "fs_erofs_umount E fs st =
     ffi_guard E ()
       (if fs = 0 then Done () st
        else if p_mounts st fs = None then Undefined
        else Done () (st\<lparr>p_mounts := (p_mounts st)(fs := None)\<rparr>))"

section \<open>Queries\<close>

definition volume_info_of :: "superblock \<Rightarrow> volume_info" where
  "volume_info_of sb =
     (let name = volume_name_str sb; n = min (length name) 15 in
      \<lparr>vi_block_size = ucast (block_size sb), vi_total_blocks = sb_blocks sb, vi_inode_count = sb_inos sb,
       vi_build_time = sb_build_time sb, vi_volume_name = take n name @ replicate (16 - n) 0, vi_uuid = sb_uuid sb,
       vi_feature_compat = sb_feature_compat sb, vi_feature_incompat = sb_feature_incompat sb\<rparr>)"

definition fs_erofs_get_volume_info ::
    "('z, 'c) env \<Rightarrow> ptr \<Rightarrow> volume_info option \<Rightarrow> 'c process \<Rightarrow> (int \<times> volume_info option, 'c process) ran" where
  "fs_erofs_get_volume_info E fs info st =
     ffi_guard E (-1, info)
       (let st = clear_last_error st in
        if fs = 0 \<or> info = None then refuse (-1, info) (ascii ''null fs or info'') EINVAL st
        else the_fs fs st (\<lambda>f. Done (0, Some (volume_info_of (fs_sb f))) st))"

definition fs_erofs_stat ::
    "('z, 'c) env \<Rightarrow> ptr \<Rightarrow> bytes option \<Rightarrow> abi_attr option \<Rightarrow> 'c process \<Rightarrow> (int \<times> abi_attr option, 'c process) ran" where
  "fs_erofs_stat E fs path attr st =
     ffi_guard E (-1, attr)
       (let st = clear_last_error st in
        if fs = 0 \<or> path = None \<or> attr = None then refuse (-1, attr) (ascii ''null fs, path, or attr'') EINVAL st
        else the_fs fs st (\<lambda>f.
          case cstr_to_bytes path st of
            (None, st) \<Rightarrow> Done (-1, attr) st
          | (Some path, st) \<Rightarrow>
              on_fs fs (lookup_path_bytes (e_depth E) (e_libs E) f path)
                (fail_with E (-1, attr) (ascii ''stat '' @ shown path))
                (\<lambda>ino st. Done (0, Some (fill_attr ino)) st) st))"

definition is_dot_name :: "bytes \<Rightarrow> bool" where "is_dot_name name = (name = [0x2E] \<or> name = [0x2E, 0x2E])"

definition fs_erofs_dir_open :: "('z, 'c) env \<Rightarrow> ptr \<Rightarrow> bytes option \<Rightarrow> 'c process \<Rightarrow> (ptr, 'c process) ran" where
  "fs_erofs_dir_open E fs path st =
     ffi_guard E 0
       (let st = clear_last_error st in
        if fs = 0 \<or> path = None then refuse 0 (ascii ''null fs or path'') EINVAL st
        else the_fs fs st (\<lambda>f.
          case cstr_to_bytes path st of
            (None, st) \<Rightarrow> Done 0 st
          | (Some path, st) \<Rightarrow>
              on_fs fs (lookup_path_bytes (e_depth E) (e_libs E) f path)
                (fail_with E 0 (ascii ''dir_open '' @ shown path))
                (\<lambda>ino st.
                   if \<not> is_dir ino then refuse 0 (ascii ''dir_open '' @ shown path @ ascii '': not a directory'') ENOTDIR st
                   else on_fs fs (read_dir (e_depth E) (e_libs E) f ino)
                     (fail_with E 0 (ascii ''read directory '' @ shown path))
                     (\<lambda>es st. Done (p_next st)
                        (st\<lparr>p_iters := (p_iters st)(p_next st \<mapsto>
                              \<lparr>it_entries = map dir_entry_to_abi (filter (\<lambda>e. \<not> is_dot_name (de_name e)) es),
                               it_position = 0, it_current = zero_dirent\<rparr>),
                            p_next := Suc (p_next st)\<rparr>)) st) st))"

text \<open>The reply is what the returned pointer, one into the iterator, points at.\<close>

definition fs_erofs_dir_next :: "('z, 'c) env \<Rightarrow> ptr \<Rightarrow> 'c process \<Rightarrow> (abi_dirent option, 'c process) ran" where
  "fs_erofs_dir_next E iter st =
     ffi_guard E None
       (if iter = 0 then Done None st
        else case p_iters st iter of
          None \<Rightarrow> Undefined
        | Some it \<Rightarrow>
            if length (it_entries it) \<le> it_position it then Done None st
            else let current = it_entries it ! it_position it in
              Done (Some current)
                (st\<lparr>p_iters := (p_iters st)(iter \<mapsto> it\<lparr>it_current := current, it_position := it_position it + 1\<rparr>)\<rparr>))"

definition fs_erofs_dir_close :: "('z, 'c) env \<Rightarrow> ptr \<Rightarrow> 'c process \<Rightarrow> (unit, 'c process) ran" where
  "fs_erofs_dir_close E iter st =
     ffi_guard E ()
       (if iter = 0 then Done () st
        else if p_iters st iter = None then Undefined
        else Done () (st\<lparr>p_iters := (p_iters st)(iter := None)\<rparr>))"

text \<open>\<open>to_read as i64\<close>.\<close>

definition as_i64 :: "nat \<Rightarrow> int" where "as_i64 n = sint (word_of_nat n :: u64)"

definition fs_erofs_read_file ::
    "('z, 'c) env \<Rightarrow> ptr \<Rightarrow> bytes option \<Rightarrow> usize option \<Rightarrow> u64 \<Rightarrow> u64 \<Rightarrow> 'c process \<Rightarrow> (int \<times> bytes, 'c process) ran" where
  "fs_erofs_read_file E fs path buf offset len st =
     ffi_guard E (-1, [])
       (let st = clear_last_error st in
        if fs = 0 \<or> path = None \<or> buf = None then refuse (-1, []) (ascii ''null fs, path, or buf'') EINVAL st
        else the_fs fs st (\<lambda>f.
          case cstr_to_bytes path st of
            (None, st) \<Rightarrow> Done (-1, []) st
          | (Some path, st) \<Rightarrow>
              on_fs fs (lookup_path_bytes (e_depth E) (e_libs E) f path)
                (fail_with E (-1, []) (ascii ''read_file '' @ shown path))
                (\<lambda>ino st.
                   if \<not> is_regular_file ino
                   then refuse (-1, []) (ascii ''read_file '' @ shown path @ ascii '': not a regular file'') EINVAL st
                   else if i_size ino \<le> offset then Done (0, []) st
                   else let to_read = unat (min len (i_size ino - offset)) in
                     if to_read = 0 then Done (0, []) st
                     else if the buf < to_read then Undefined
                     else on_fs fs (read_file (e_depth E) (e_libs E) f ino offset to_read)
                            (fail_with E (-1, []) (ascii ''read_file '' @ shown path))
                            (\<lambda>out st. Done (as_i64 to_read, out) st) st) st))"

definition fs_erofs_readlink ::
    "('z, 'c) env \<Rightarrow> ptr \<Rightarrow> bytes option \<Rightarrow> usize option \<Rightarrow> usize \<Rightarrow> 'c process \<Rightarrow> (int \<times> bytes, 'c process) ran" where
  "fs_erofs_readlink E fs path buf bufsize st =
     ffi_guard E (-1, [])
       (let st = clear_last_error st in
        if fs = 0 \<or> path = None \<or> buf = None then refuse (-1, []) (ascii ''readlink: null fs/path/buf'') EINVAL st
        else the_fs fs st (\<lambda>f.
          case cstr_to_bytes path st of
            (None, st) \<Rightarrow> Done (-1, []) st
          | (Some path, st) \<Rightarrow>
              on_fs fs (lookup_path_bytes (e_depth E) (e_libs E) f path)
                (fail_with E (-1, []) (ascii ''readlink '' @ shown path))
                (\<lambda>ino st.
                   if \<not> is_symlink ino
                   then refuse (-1, []) (ascii ''readlink '' @ shown path @ ascii '': not a symlink'') EINVAL st
                   else on_fs fs (read_symlink_target (e_depth E) (e_libs E) f ino)
                     (fail_with E (-1, []) (ascii ''readlink '' @ shown path))
                     (\<lambda>target st.
                        let need = length target + 1 in
                        if 2 ^ 31 \<le> length target
                        then refuse (-1, []) (ascii ''readlink '' @ shown path @ ascii '': target of '' @ dec (length target)
                               @ ascii '' bytes'') EIO st
                        else if bufsize < need
                        then refuse (-1, []) (ascii ''readlink '' @ shown path @ ascii '': buffer of '' @ dec bufsize
                               @ ascii '' bytes is too small, need '' @ dec need @ ascii '' (target '' @ dec (length target)
                               @ ascii '' bytes + NUL)'') ERANGE st
                        else if the buf < need then Undefined
                        else Done (int (length target), target @ [0]) st) st) st))"

section \<open>The calls together\<close>

datatype c_call =
    CMount "bytes option"
  | CMountCallbacks "blockdev_cfg option"
  | CMountDevice "blockdev option"
  | CUmount ptr
  | CVolumeInfo ptr "volume_info option"
  | CStat ptr "bytes option" "abi_attr option"
  | CDirOpen ptr "bytes option"
  | CDirNext ptr
  | CDirClose ptr
  | CRead ptr "bytes option" "usize option" u64 u64
  | CReadlink ptr "bytes option" "usize option" usize

datatype c_reply =
    RHandle ptr
  | RNothing
  | RInfo int "volume_info option"
  | RAttr int "abi_attr option"
  | RNext "abi_dirent option"
  | RBytes int bytes

fun exec :: "('z, 'c) env \<Rightarrow> c_call \<Rightarrow> 'c process \<Rightarrow> (c_reply, 'c process) ran" where
  "exec E (CMount path) st = map_ran RHandle id (fs_erofs_mount E path st)"
| "exec E (CMountCallbacks cfg) st = map_ran RHandle id (fs_erofs_mount_with_callbacks E cfg st)"
| "exec E (CMountDevice handle) st = map_ran RHandle id (fs_erofs_mount_with_fs_core_device E handle st)"
| "exec E (CUmount fs) st = map_ran (\<lambda>_. RNothing) id (fs_erofs_umount E fs st)"
| "exec E (CVolumeInfo fs info) st = map_ran (\<lambda>(r, info). RInfo r info) id (fs_erofs_get_volume_info E fs info st)"
| "exec E (CStat fs path attr) st = map_ran (\<lambda>(r, attr). RAttr r attr) id (fs_erofs_stat E fs path attr st)"
| "exec E (CDirOpen fs path) st = map_ran RHandle id (fs_erofs_dir_open E fs path st)"
| "exec E (CDirNext iter) st = map_ran RNext id (fs_erofs_dir_next E iter st)"
| "exec E (CDirClose iter) st = map_ran (\<lambda>_. RNothing) id (fs_erofs_dir_close E iter st)"
| "exec E (CRead fs path buf off n) st = map_ran (\<lambda>(r, out). RBytes r out) id (fs_erofs_read_file E fs path buf off n st)"
| "exec E (CReadlink fs path buf n) st = map_ran (\<lambda>(r, out). RBytes r out) id (fs_erofs_readlink E fs path buf n st)"

definition process_start :: "'c process" where
  "process_start = \<lparr>p_error = [], p_errno = 0, p_mounts = Map.empty, p_iters = Map.empty, p_next = 1\<rparr>"

end
