(* ===== verification/CapiSafe.thy ===== *)
theory CapiSafe
  imports Capi
begin

text \<open>
  What a C program may rely on: the calls it may make, that each of them returns, what a failure leaves in the
  error of the thread, and what the listing of a directory and the reading of a link and of a file give.
\<close>

section \<open>What the caller owes\<close>

definition live :: "(ptr \<rightharpoonup> 'a) \<Rightarrow> ptr \<Rightarrow> bool" where "live m p = (p = 0 \<or> m p \<noteq> None)"

text \<open>The device a call mounts, and an image whose packed inode is not a fragment of itself.\<close>

fun call_device :: "('z, 'c) env \<Rightarrow> c_call \<Rightarrow> blockdev option" where
  "call_device E (CMount path) = (case e_open_file E (cstr_to_str path) of Inr dev \<Rightarrow> Some dev | Inl _ \<Rightarrow> None)"
| "call_device E (CMountCallbacks (Some cfg)) =
     map_option (\<lambda>f. e_callback_device E (bc_size_bytes cfg) (callback_read f)) (bc_read cfg)"
| "call_device E (CMountDevice handle) = handle"
| "call_device E _ = None"

definition sound_image :: "('z, 'c) env \<Rightarrow> blockdev \<Rightarrow> bool" where
  "sound_image E dev = (\<forall>fs. fs_open (e_crc E) (e_caching E) dev = Ok fs \<longrightarrow> packed_plain fs)"

fun room_for :: "usize option \<Rightarrow> nat \<Rightarrow> bool" where
  "room_for None n = True"
| "room_for (Some cap) n = (n \<le> cap \<and> cap < 2 ^ 63)"

fun lawful :: "('z, 'c) env \<Rightarrow> c_call \<Rightarrow> 'c process \<Rightarrow> bool" where
  "lawful E (CUmount fs) st = live (p_mounts st) fs"
| "lawful E (CVolumeInfo fs info) st = live (p_mounts st) fs"
| "lawful E (CStat fs path attr) st = live (p_mounts st) fs"
| "lawful E (CDirOpen fs path) st = live (p_mounts st) fs"
| "lawful E (CDirNext iter) st = live (p_iters st) iter"
| "lawful E (CDirClose iter) st = live (p_iters st) iter"
| "lawful E (CRead fs path buf off n) st = (live (p_mounts st) fs \<and> room_for buf (unat n))"
| "lawful E (CReadlink fs path buf n) st = (live (p_mounts st) fs \<and> room_for buf n)"
| "lawful E c st = (\<forall>dev. call_device E c = Some dev \<longrightarrow> sound_image E dev)"

text \<open>A run of lawful calls.\<close>

inductive c_run :: "('z, 'c) env \<Rightarrow> (c_call \<times> c_reply) list \<Rightarrow> 'c process \<Rightarrow> bool" for E where
  start: "c_run E [] process_start"
| call: "c_run E tr st \<Longrightarrow> lawful E c st \<Longrightarrow> exec E c st = Done r st' \<Longrightarrow> c_run E (tr @ [(c, r)]) st'"

inductive_cases c_run_callE: "c_run E (tr @ [(c, r)]) st'"

text \<open>Whether a reply is a failure; the calls that free or step an iterator have no failure to report.\<close>

fun failed :: "c_reply \<Rightarrow> bool" where
  "failed (RHandle p) = (p = 0)"
| "failed (RInfo r _) = (r < 0)"
| "failed (RAttr r _) = (r < 0)"
| "failed (RBytes r _) = (r < 0)"
| "failed _ = False"

fun reports :: "c_call \<Rightarrow> bool" where
  "reports (CUmount _) = False" | "reports (CDirNext _) = False" | "reports (CDirClose _) = False" | "reports _ = True"

section \<open>Rules for calls\<close>

definition ran_ok :: "('r \<Rightarrow> 's \<Rightarrow> bool) \<Rightarrow> ('r, 's) ran \<Rightarrow> bool" where
  "ran_ok P x = (case x of Done r st \<Rightarrow> P r st | _ \<Rightarrow> False)"

lemma ran_ok_Done [simp]: "ran_ok P (Done r st) = P r st"
  by (simp add: ran_ok_def)

lemma ran_ok_guard: "ran_ok P body \<Longrightarrow> ran_ok P (ffi_guard E fail body)"
  by (cases body) (simp_all add: ran_ok_def ffi_guard_def)

lemma ran_ok_mono: "ran_ok P x \<Longrightarrow> (\<And>r st. P r st \<Longrightarrow> Q r st) \<Longrightarrow> ran_ok Q x"
  by (cases x) (simp_all add: ran_ok_def)

lemma ran_ok_map: "ran_ok (\<lambda>r. P (f r)) x \<Longrightarrow> ran_ok P (map_ran f id x)"
  by (cases x) (simp_all add: ran_ok_def)

lemma ran_ok_elim:
  assumes "ran_ok P x"
  obtains r st where "x = Done r st" "P r st"
  using assms by (cases x) (auto simp: ran_ok_def)

lemma as_i64_small: "n < 2 ^ 63 \<Longrightarrow> as_i64 n = int n"
  by (simp add: as_i64_def signed_of_nat signed_take_bit_int_eq_self)

lemma errno_for_pos: "0 < errno_for e"
  by (simp add: errno_for_def errno_consts split: error.split)

lemma ascii_nonempty [simp]: "(ascii s = []) = (s = [])"
  by (simp add: ascii_def)

text \<open>The error of the thread is set or it is not.\<close>

definition reported :: "bool \<Rightarrow> 'c process \<Rightarrow> bool" where
  "reported bad st = ((p_errno st \<noteq> 0) = bad \<and> (p_error st \<noteq> []) = bad)"

lemma reported_set [simp]:
  "msg \<noteq> [] \<Longrightarrow> e \<noteq> 0 \<Longrightarrow> reported True (set_err_msg msg e st)"
  "reported True (set_err_from debug err ctxt st)"
  using errno_for_pos [of err] by (simp_all add: reported_def set_err_msg_def set_err_from_def set_last_error_def)

lemma superblock_read_sb_ok: "superblock_read crc d1 d2 = Ok sb \<Longrightarrow> sb_ok sb"
  by (auto simp: superblock_read_def Let_def dest: superblock_parse_ok split: if_splits)

lemma open_split_sb_ok: "open_split crc p d ex = Ok fs \<Longrightarrow> sb_ok (fs_sb fs)"
  by (auto simp: open_split_def superblock_read_sb_ok split: if_splits)

lemma returns_incompat [returns_intros]: "returns (check_incompat_features sb)"
  by (simp add: check_incompat_features_def Let_def)

lemma returns_open_split [returns_intros]: "returns (open_split crc p d ex)"
  unfolding open_split_def
  by (intro returns_bindR returns_if returns_superblock_read returns_incompat returns_read_compr_cfgs returns_simps)

lemma fs_open_sb_ok: "fs_open crc caching dev = Ok fs \<Longrightarrow> sb_ok (fs_sb fs)"
  by (auto simp: fs_open_def open_with_cache_def DEFAULT_METADATA_CACHE_BLOCKS_def dest: open_split_sb_ok)

lemma returns_fs_open [returns_intros, simp]: "returns (fs_open crc caching dev)"
  unfolding fs_open_def open_with_cache_def
  by (simp add: DEFAULT_METADATA_CACHE_BLOCKS_def returns_bindR returns_superblock_read returns_open_split)

context lru_cache
begin

definition mount_ok where "mount_ok L m = (safe_reader L (mt_fs m) \<and> good (mt_cache m))"

definition proc_ok where
  "proc_ok L st = ((\<forall>p m. p_mounts st p = Some m \<longrightarrow> 0 < p \<and> p < p_next st \<and> mount_ok L m)
     \<and> (\<forall>p it. p_iters st p = Some it \<longrightarrow> 0 < p \<and> p < p_next st) \<and> 0 < p_next st)"

text \<open>Between the calls of the library: nothing is reported and the handle is the filesystem \<open>f\<close>.\<close>

definition working where
  "working L fs f st = (proc_ok L st \<and> reported False st \<and> (\<exists>m. p_mounts st fs = Some m \<and> mt_fs m = f))"

definition outcome where
  "outcome L bad r st = (proc_ok L st \<and> reported (bad r) st)"

lemma working_reader: "working L fs f st \<Longrightarrow> safe_reader L f"
  by (auto simp: working_def proc_ok_def mount_ok_def)

lemma proc_ok_error [simp]: "proc_ok L (set_err_msg msg e st) = proc_ok L st" "proc_ok L (set_err_from debug err ctxt st) = proc_ok L st"
    "proc_ok L (clear_last_error st) = proc_ok L st"
  by (simp_all add: proc_ok_def set_err_msg_def set_err_from_def set_last_error_def clear_last_error_def)

lemma outcome_refuse: "working L fs f st \<Longrightarrow> bad r \<Longrightarrow> msg \<noteq> [] \<Longrightarrow> e \<noteq> 0 \<Longrightarrow> ran_ok (outcome L bad) (refuse r msg e st)"
  by (simp add: refuse_def outcome_def working_def)

lemma outcome_fail: "working L fs f st \<Longrightarrow> bad r \<Longrightarrow> ran_ok (outcome L bad) (fail_with E r ctxt err st)"
  by (simp add: fail_with_def outcome_def working_def)

lemma outcome_done: "working L fs f st \<Longrightarrow> \<not> bad r \<Longrightarrow> ran_ok (outcome L bad) (Done r st)"
  by (simp add: outcome_def working_def)

lemma ran_ok_on_fs:
  assumes w: "working L fs f st" and m: "io_ok good Q m"
    and e: "\<And>err st. working L fs f st \<Longrightarrow> ran_ok P (fl err st)"
    and k: "\<And>a st. Q a \<Longrightarrow> working L fs f st \<Longrightarrow> ran_ok P (k a st)"
  shows "ran_ok P (on_fs fs m fl k st)"
proof -
  obtain mnt where mnt: "p_mounts st fs = Some mnt" "mt_fs mnt = f" "mount_ok L mnt"
    using w by (auto simp: working_def proc_ok_def)
  obtain r pc where r: "m (mt_cache mnt) = (r, pc)" by (cases "m (mt_cache mnt)")
  have "good (mt_cache mnt)" using mnt(3) by (simp add: mount_ok_def)
  with m r have io: "good pc" "case r of Ok a \<Rightarrow> Q a | Err _ \<Rightarrow> True | Panic \<Rightarrow> False | Overrun \<Rightarrow> False"
    by (auto simp: io_ok_def dest!: spec [of _ "mt_cache mnt"])
  let ?st = "st\<lparr>p_mounts := (p_mounts st)(fs \<mapsto> mnt\<lparr>mt_cache := pc\<rparr>)\<rparr>"
  have "mount_ok L (mnt\<lparr>mt_cache := pc\<rparr>)" using mnt(3) io(1) by (simp add: mount_ok_def)
  then have "working L fs f ?st" using w mnt by (auto simp: working_def proc_ok_def reported_def)
  then show ?thesis
    using e k io(2) by (cases r) (simp_all add: on_fs_def mnt(1) r on_result_def)
qed

lemma the_fs_ok:
  assumes "proc_ok L st" "p_mounts st fs = Some mnt" "reported False st" "\<And>f. working L fs f st \<Longrightarrow> ran_ok P (k f)"
  shows "ran_ok P (the_fs fs st k)"
  using assms by (auto simp: the_fs_def working_def)

lemma lookup_path_ok:
  assumes "safe_reader L f" "lib_lru L = lru"
  shows "io_ok good (\<lambda>_. True) (lookup_path_bytes (Suc d) L f path)"
proof -
  have "io_ok good (\<lambda>_. True) (liftS (root_inode f))" by (simp add: io_ok_lift)
  then show ?thesis unfolding lookup_path_bytes_def by (rule io_ok_bind) (rule walk_ok [OF assms])
qed

lemma cleared: "proc_ok L st \<Longrightarrow> reported False (clear_last_error st)" "p_mounts (clear_last_error st) = p_mounts st"
  by (simp_all add: reported_def clear_last_error_def)

lemma mount_from_device_ok:
  assumes "proc_ok (e_libs E) st" "reported False st" "sound_image E dev" "reads_within (lib_codecs (e_libs E))" "lib_lru (e_libs E) = lru"
  shows "ran_ok (outcome (e_libs E) (\<lambda>p. p = 0)) (mount_from_device E dev ctxt st)"
proof (cases "fs_open (e_crc E) (e_caching E) dev")
  case (Ok fs)
  have "mount_ok (e_libs E) \<lparr>mt_fs = fs, mt_cache = cache_new lru n\<rparr>" for n
    using fs_open_sb_ok [OF Ok] assms(3,4) Ok good_new(1) by (auto simp: mount_ok_def safe_reader_def sound_image_def)
  then show ?thesis
    using assms(1,2,5) by (auto simp: mount_from_device_def Ok on_result_def outcome_def proc_ok_def reported_def less_Suc_eq)
next
  case (Err e)
  then show ?thesis using assms(1,2) by (simp add: mount_from_device_def on_result_def fail_with_def outcome_def)
qed (use returns_fs_open [of "e_crc E" "e_caching E" dev] in simp_all)

lemma mount_ok_refused: "proc_ok L st \<Longrightarrow> msg \<noteq> [] \<Longrightarrow> e \<noteq> 0 \<Longrightarrow> bad r \<Longrightarrow> ran_ok (outcome L bad) (refuse r msg e st)"
  by (simp add: refuse_def outcome_def)

lemma path_call_ok:
  assumes "proc_ok L st" "live (p_mounts st) fs" "bad r" "msg \<noteq> []" "\<not> null \<Longrightarrow> fs \<noteq> 0 \<and> path \<noteq> None"
    and "\<And>f p st. \<not> null \<Longrightarrow> working L fs f st \<Longrightarrow> ran_ok (outcome L bad) (k f p st)"
  shows "ran_ok (outcome L bad) (ffi_guard E r (let st = clear_last_error st in
      if null then refuse r msg EINVAL st
      else the_fs fs st (\<lambda>f. case cstr_to_bytes path st of (None, st) \<Rightarrow> Done r st | (Some p, st) \<Rightarrow> k f p st)))"
proof (rule ran_ok_guard, unfold Let_def, cases null)
  case True
  then show "ran_ok (outcome L bad) (if null then refuse r msg EINVAL (clear_last_error st)
      else the_fs fs (clear_last_error st) (\<lambda>f. case cstr_to_bytes path (clear_last_error st) of
        (None, st) \<Rightarrow> Done r st | (Some p, st) \<Rightarrow> k f p st))"
    using assms by (simp add: mount_ok_refused errno_consts)
next
  case False
  then obtain mnt p where m: "p_mounts st fs = Some mnt" "path = Some p" using assms(2,5) by (auto simp: live_def)
  have "ran_ok (outcome L bad) (the_fs fs (clear_last_error st) (\<lambda>f. k f (c_str p) (clear_last_error st)))"
    by (rule the_fs_ok [where mnt = mnt]) (use assms(1,6) False m cleared in simp_all)
  then show "ran_ok (outcome L bad) (if null then refuse r msg EINVAL (clear_last_error st)
      else the_fs fs (clear_last_error st) (\<lambda>f. case cstr_to_bytes path (clear_last_error st) of
        (None, st) \<Rightarrow> Done r st | (Some p, st) \<Rightarrow> k f p st))"
    using False by (simp add: m cstr_to_bytes_def)
qed

lemma mount_call_ok:
  assumes "proc_ok L st" "\<And>st. proc_ok L st \<Longrightarrow> reported False st \<Longrightarrow> ran_ok (outcome L bad) (k st)"
  shows "ran_ok (outcome L bad) (ffi_guard E r (let st = clear_last_error st in k st))"
  using assms cleared(1) [OF assms(1)] by (auto simp: Let_def intro!: ran_ok_guard)

text \<open>What the calls need of the library they run on.\<close>

definition provided where
  "provided E d = (lib_lru (e_libs E) = lru \<and> reads_within (lib_codecs (e_libs E)) \<and> e_depth E = Suc (Suc d))"

lemma library_ok:
  assumes "provided E d" "working (e_libs E) fs f st"
  shows "io_ok good (\<lambda>_. True) (lookup_path_bytes (e_depth E) (e_libs E) f p)"
    "io_ok good (\<lambda>_. True) (read_dir (e_depth E) (e_libs E) f ino)"
    "io_ok good (\<lambda>_. True) (read_symlink_target (e_depth E) (e_libs E) f ino)"
    "n < 2 ^ 64 \<Longrightarrow> unat off + n \<le> unat (i_size ino) \<Longrightarrow> io_ok good (\<lambda>bs. length bs = n) (read_file (e_depth E) (e_libs E) f ino off n)"
proof -
  note e = assms(1) [unfolded provided_def] and s = working_reader [OF assms(2)]
  show "io_ok good (\<lambda>_. True) (lookup_path_bytes (e_depth E) (e_libs E) f p)"
    "io_ok good (\<lambda>_. True) (read_dir (e_depth E) (e_libs E) f ino)"
    "io_ok good (\<lambda>_. True) (read_symlink_target (e_depth E) (e_libs E) f ino)"
    using e s by (simp_all add: lookup_path_ok read_dir_ok read_symlink_target_ok)
  show "n < 2 ^ 64 \<Longrightarrow> unat off + n \<le> unat (i_size ino) \<Longrightarrow> io_ok good (\<lambda>bs. length bs = n) (read_file (e_depth E) (e_libs E) f ino off n)"
    using e s read_file_ok [of "e_libs E" f ino off n d] by (simp add: safe_reader_def del: read_file.simps)
qed

lemmas ran_ok_call = ran_ok_on_fs [where Q = "\<lambda>_. True"]

lemma stat_ok:
  assumes "provided E d" "proc_ok (e_libs E) st" "live (p_mounts st) fs"
  shows "ran_ok (outcome (e_libs E) (\<lambda>(r, _). r < 0)) (fs_erofs_stat E fs path attr st)"
  unfolding fs_erofs_stat_def
proof (rule path_call_ok [OF assms(2,3)], goal_cases)
  case (4 f p st)
  show ?case
    by (rule ran_ok_call [OF 4(2) library_ok(1) [OF assms(1) 4(2)]]) (simp_all add: outcome_fail outcome_done del: ran_ok_Done)
qed auto

lemma opened_dir_ok:
  assumes "working L fs f st"
  shows "ran_ok (outcome L (\<lambda>p. p = 0)) (Done (p_next st) (st\<lparr>p_iters := (p_iters st)(p_next st \<mapsto> it), p_next := Suc (p_next st)\<rparr>))"
  using assms by (auto simp: outcome_def working_def proc_ok_def reported_def less_Suc_eq)

lemma dir_open_ok:
  assumes "provided E d" "proc_ok (e_libs E) st" "live (p_mounts st) fs"
  shows "ran_ok (outcome (e_libs E) (\<lambda>p. p = 0)) (fs_erofs_dir_open E fs path st)"
  unfolding fs_erofs_dir_open_def
proof (rule path_call_ok [OF assms(2,3)], goal_cases)
  case (4 f p st)
  show ?case
  proof (rule ran_ok_call [OF 4(2) library_ok(1) [OF assms(1) 4(2)]], goal_cases)
    case (2 ino st)
    then show ?case
      by (cases "is_dir ino") (auto intro!: ran_ok_call library_ok [OF assms(1)] outcome_fail opened_dir_ok
          intro: outcome_refuse simp: errno_consts simp del: ran_ok_Done)
  qed (simp add: outcome_fail)
qed auto

lemma volume_info_ok:
  assumes "proc_ok (e_libs E) st" "live (p_mounts st) fs"
  shows "ran_ok (outcome (e_libs E) (\<lambda>(r, _). r < 0)) (fs_erofs_get_volume_info E fs info st)"
  unfolding fs_erofs_get_volume_info_def Let_def
proof (rule ran_ok_guard, cases "fs = 0 \<or> info = None")
  case False
  then obtain mnt vi where m: "p_mounts (clear_last_error st) fs = Some mnt" "info = Some vi"
    using assms(2) by (auto simp: live_def cleared(2))
  have "ran_ok (outcome (e_libs E) (\<lambda>(r, _). r < 0))
      (the_fs fs (clear_last_error st) (\<lambda>f. Done (0 :: int, Some (volume_info_of (fs_sb f))) (clear_last_error st)))"
    by (rule the_fs_ok [where L = "e_libs E", OF _ m(1) cleared(1) [OF assms(1)]])
      (simp add: assms(1), erule outcome_done, simp)
  then
  show "ran_ok (outcome (e_libs E) (\<lambda>(r, _). r < 0))
      (if fs = 0 \<or> info = None then refuse (- 1 :: int, info) (ascii ''null fs or info'') EINVAL (clear_last_error st)
       else the_fs fs (clear_last_error st) (\<lambda>f. Done (0, Some (volume_info_of (fs_sb f))) (clear_last_error st)))"
    using False m(2) by simp
qed (use assms in \<open>simp add: mount_ok_refused errno_consts\<close>)

lemma read_file_call_ok:
  assumes "provided E d" "proc_ok (e_libs E) st" "live (p_mounts st) fs" "room_for buf (unat n)"
  shows "ran_ok (outcome (e_libs E) (\<lambda>(r, _). r < 0)) (fs_erofs_read_file E fs path buf off n st)"
  unfolding fs_erofs_read_file_def
proof (rule path_call_ok [OF assms(2,3)], goal_cases)
  case (4 f p st)
  obtain cap where cap: "buf = Some cap" "unat n \<le> cap" "cap < 2 ^ 63" using 4(1) assms(4) by (cases buf) auto
  show ?case
  proof (rule ran_ok_call [OF 4(2) library_ok(1) [OF assms(1) 4(2)]], goal_cases)
    case (2 ino st)
    show ?case
    proof (cases "is_regular_file ino \<and> off < i_size ino")
      case True
      let ?k = "unat (min n (i_size ino - off))"
      have k: "?k \<le> unat n" "?k \<le> unat (i_size ino - off)" by (simp_all add: word_le_nat_alt [symmetric])
      then have b: "?k \<le> cap" "?k < 2 ^ 63" using cap by simp_all
      have "unat (i_size ino - off) = unat (i_size ino) - unat off" using True by (simp add: unat_sub less_imp_le)
      moreover have "unat off < unat (i_size ino)" using True by (simp add: word_less_nat_alt)
      ultimately have le: "unat off + ?k \<le> unat (i_size ino)" using k(2) by linarith
      have pos: "\<not> as_i64 ?k < 0"
        using b(2) as_i64_small by simp
      have io: "io_ok good (\<lambda>bs. length bs = ?k) (read_file (e_depth E) (e_libs E) f ino off ?k)"
        by (rule library_ok(4) [OF assms(1) 2(2) _ le]) (use b(2) in simp)
      have "ran_ok (outcome (e_libs E) (\<lambda>(r, _). r < 0)) (on_fs fs (read_file (e_depth E) (e_libs E) f ino off ?k)
          (fail_with E (- 1, []) (ascii ''read_file '' @ shown p)) (\<lambda>out st. Done (as_i64 ?k, out) st) st)"
        by (rule ran_ok_on_fs [OF 2(2) io]) (use pos in \<open>simp_all add: outcome_fail outcome_done del: ran_ok_Done\<close>)
      then show ?thesis using True b(1) 2(2) by (simp add: Let_def cap outcome_done not_le del: ran_ok_Done)
    qed (use 2(2) in \<open>auto simp: outcome_done outcome_refuse errno_consts not_less simp del: ran_ok_Done\<close>)
  qed (simp add: outcome_fail)
qed auto

lemma readlink_ok:
  assumes "provided E d" "proc_ok (e_libs E) st" "live (p_mounts st) fs" "room_for buf n"
  shows "ran_ok (outcome (e_libs E) (\<lambda>(r, _). r < 0)) (fs_erofs_readlink E fs path buf n st)"
  unfolding fs_erofs_readlink_def
proof (rule path_call_ok [OF assms(2,3)], goal_cases)
  case (4 f p st)
  obtain cap where cap: "buf = Some cap" "n \<le> cap" using 4(1) assms(4) by (cases buf) auto
  show ?case
  proof (rule ran_ok_call [OF 4(2) library_ok(1) [OF assms(1) 4(2)]], goal_cases)
    case (2 ino st)
    show ?case
    proof (cases "is_symlink ino")
      case True
      have "ran_ok (outcome (e_libs E) (\<lambda>(r, _). r < 0))
          (on_fs fs (read_symlink_target (e_depth E) (e_libs E) f ino) (fail_with E (- 1, []) (ascii ''readlink '' @ shown p))
            (\<lambda>target st.
               let need = length target + 1 in
               if 2 ^ 31 \<le> length target
               then refuse (-1, []) (ascii ''readlink '' @ shown p @ ascii '': target of '' @ dec (length target) @ ascii '' bytes'') EIO st
               else if n < need
               then refuse (-1, []) (ascii ''readlink '' @ shown p @ ascii '': buffer of '' @ dec n
                      @ ascii '' bytes is too small, need '' @ dec need @ ascii '' (target '' @ dec (length target)
                      @ ascii '' bytes + NUL)'') ERANGE st
               else if the buf < need then Undefined
               else Done (int (length target), target @ [0]) st) st)"
      proof (rule ran_ok_call [OF 2(2) library_ok(3) [OF assms(1) 2(2)]], goal_cases)
        case (2 target st)
        then show ?case using cap by (auto simp: Let_def errno_consts simp del: ran_ok_Done intro: outcome_done outcome_refuse)
      qed (simp add: outcome_fail)
      then show ?thesis using True by simp
    qed (use 2(2) in \<open>auto simp: errno_consts intro: outcome_refuse\<close>)
  qed (simp add: outcome_fail)
qed auto

lemma free_ok:
  assumes "proc_ok (e_libs E) st"
  shows "live (p_mounts st) fs \<Longrightarrow> ran_ok (\<lambda>_. proc_ok (e_libs E)) (fs_erofs_umount E fs st)"
    "live (p_iters st) it \<Longrightarrow> ran_ok (\<lambda>_. proc_ok (e_libs E)) (fs_erofs_dir_close E it st)"
    "live (p_iters st) it \<Longrightarrow> ran_ok (\<lambda>_. proc_ok (e_libs E)) (fs_erofs_dir_next E it st)"
  using assms
  by (auto simp: fs_erofs_umount_def fs_erofs_dir_close_def fs_erofs_dir_next_def live_def proc_ok_def Let_def intro!: ran_ok_guard)

lemma mount_calls_ok:
  assumes "provided E d" "proc_ok (e_libs E) st"
  shows "(\<forall>dev. call_device E (CMount path) = Some dev \<longrightarrow> sound_image E dev) \<Longrightarrow>
      ran_ok (outcome (e_libs E) (\<lambda>p. p = 0)) (fs_erofs_mount E path st)"
    "(\<forall>dev. call_device E (CMountCallbacks cfg) = Some dev \<longrightarrow> sound_image E dev) \<Longrightarrow>
      ran_ok (outcome (e_libs E) (\<lambda>p. p = 0)) (fs_erofs_mount_with_callbacks E cfg st)"
    "(\<forall>dev. call_device E (CMountDevice handle) = Some dev \<longrightarrow> sound_image E dev) \<Longrightarrow>
      ran_ok (outcome (e_libs E) (\<lambda>p. p = 0)) (fs_erofs_mount_with_fs_core_device E handle st)"
proof -
  note e = assms(1) [unfolded provided_def]
  have dev: "ran_ok (outcome (e_libs E) (\<lambda>p. p = 0)) (mount_from_device E dev ctxt st)"
    if "proc_ok (e_libs E) st" "reported False st" "sound_image E dev" for dev ctxt st
    using mount_from_device_ok [OF that] e by blast
  have open_errno: "errno_for_open_failure x \<noteq> 0" for x
    by (simp add: errno_for_open_failure_def errno_consts split: open_failure.split io_kind.split)
  show "(\<forall>dev. call_device E (CMount path) = Some dev \<longrightarrow> sound_image E dev) \<Longrightarrow>
      ran_ok (outcome (e_libs E) (\<lambda>p. p = 0)) (fs_erofs_mount E path st)"
    unfolding fs_erofs_mount_def
    by (rule mount_call_ok [OF assms(2)])
      (auto simp: Let_def mount_ok_refused open_errno errno_consts dev split: sum.split)
  show "(\<forall>dev. call_device E (CMountCallbacks cfg) = Some dev \<longrightarrow> sound_image E dev) \<Longrightarrow>
      ran_ok (outcome (e_libs E) (\<lambda>p. p = 0)) (fs_erofs_mount_with_callbacks E cfg st)"
    unfolding fs_erofs_mount_with_callbacks_def
    by (rule mount_call_ok [OF assms(2)]) (auto simp: mount_ok_refused errno_consts dev split: option.split)
  show "(\<forall>dev. call_device E (CMountDevice handle) = Some dev \<longrightarrow> sound_image E dev) \<Longrightarrow>
      ran_ok (outcome (e_libs E) (\<lambda>p. p = 0)) (fs_erofs_mount_with_fs_core_device E handle st)"
    unfolding fs_erofs_mount_with_fs_core_device_def
    by (rule mount_call_ok [OF assms(2)]) (auto simp: mount_ok_refused errno_consts dev split: option.split)
qed

lemma replies:
  "ran_ok (outcome L bad) x \<Longrightarrow> (\<And>r. failed (f r) = bad r) \<Longrightarrow>
    ran_ok (\<lambda>r st'. proc_ok L st' \<and> (q \<longrightarrow> reported (failed r) st')) (map_ran f id x)"
  "ran_ok (\<lambda>_. proc_ok L) y \<Longrightarrow> \<not> q \<Longrightarrow> ran_ok (\<lambda>r st'. proc_ok L st' \<and> (q \<longrightarrow> reported (failed r) st')) (map_ran g id y)"
  by (auto intro!: ran_ok_map elim!: ran_ok_mono simp: outcome_def)

lemma exec_ok:
  assumes "provided E d" "proc_ok (e_libs E) st" "lawful E c st"
  shows "ran_ok (\<lambda>r st'. proc_ok (e_libs E) st' \<and> (reports c \<longrightarrow> reported (failed r) st')) (exec E c st)"
proof (cases c)
  case (CMount path)
  show ?thesis unfolding CMount exec.simps by (rule replies(1) [OF mount_calls_ok(1) [OF assms(1,2)]]) (use assms(3) CMount in simp_all)
next
  case (CMountCallbacks cfg)
  show ?thesis unfolding CMountCallbacks exec.simps
    by (rule replies(1) [OF mount_calls_ok(2) [OF assms(1,2)]]) (use assms(3) CMountCallbacks in simp_all)
next
  case (CMountDevice handle)
  show ?thesis unfolding CMountDevice exec.simps
    by (rule replies(1) [OF mount_calls_ok(3) [OF assms(1,2)]]) (use assms(3) CMountDevice in simp_all)
next
  case (CVolumeInfo fs info)
  show ?thesis unfolding CVolumeInfo exec.simps
    by (rule replies(1) [OF volume_info_ok [OF assms(2)]]) (use assms(3) CVolumeInfo in auto)
next
  case (CStat fs path attr)
  show ?thesis unfolding CStat exec.simps by (rule replies(1) [OF stat_ok [OF assms(1,2)]]) (use assms(3) CStat in auto)
next
  case (CDirOpen fs path)
  show ?thesis unfolding CDirOpen exec.simps by (rule replies(1) [OF dir_open_ok [OF assms(1,2)]]) (use assms(3) CDirOpen in auto)
next
  case (CRead fs path buf off n)
  show ?thesis unfolding CRead exec.simps by (rule replies(1) [OF read_file_call_ok [OF assms(1,2)]]) (use assms(3) CRead in auto)
next
  case (CReadlink fs path buf n)
  show ?thesis unfolding CReadlink exec.simps by (rule replies(1) [OF readlink_ok [OF assms(1,2)]]) (use assms(3) CReadlink in auto)
next
  case (CUmount fs)
  show ?thesis unfolding CUmount exec.simps by (rule replies(2) [OF free_ok(1) [OF assms(2)]]) (use assms(3) CUmount in auto)
next
  case (CDirNext it)
  show ?thesis unfolding CDirNext exec.simps by (rule replies(2) [OF free_ok(3) [OF assms(2)]]) (use assms(3) CDirNext in auto)
next
  case (CDirClose it)
  show ?thesis unfolding CDirClose exec.simps by (rule replies(2) [OF free_ok(2) [OF assms(2)]]) (use assms(3) CDirClose in auto)
qed

lemma run_ok: "c_run E tr st \<Longrightarrow> provided E d \<Longrightarrow> proc_ok (e_libs E) st"
proof (induction rule: c_run.induct)
  case start
  show ?case by (simp add: proc_ok_def process_start_def)
next
  case (call tr st c r st')
  then show ?case using exec_ok [of E d st c] by simp
qed

end

section \<open>Every lawful call returns\<close>

text \<open>C7: a C program that frees and uses only what it was handed, and gives buffers as long as it says, is always
  answered: whatever calls it has made before, the next one returns. No call panics, none reaches memory it
  was not given, none is left running, whatever the images hold, as long as no packed inode has a fragment
  of its own or the size 2^64 - 1 (\<open>sound_image\<close>, part of \<open>lawful\<close>). A call that reports is a failure exactly when the thread is left with an error number, and then
  with a message; a success leaves neither.\<close>

theorem capi_calls_return:
  assumes "lru_cache lru contents" "lib_lru (e_libs E) = lru" "reads_within (lib_codecs (e_libs E))" "2 \<le> e_depth E"
    and "c_run E tr st" "lawful E c st"
  shows "\<exists>r st'. exec E c st = Done r st' \<and> c_run E (tr @ [(c, r)]) st'
    \<and> (reports c \<longrightarrow> (failed r \<longleftrightarrow> fs_erofs_last_errno st' \<noteq> 0) \<and> (failed r \<longleftrightarrow> fs_erofs_last_error st' \<noteq> []))"
proof -
  obtain d where d: "e_depth E = Suc (Suc d)" using assms(4) by (metis add_2_eq_Suc le_Suc_ex)
  have p: "lru_cache.provided lru E d" using assms(1-3) d by (simp add: lru_cache.provided_def)
  from lru_cache.exec_ok [OF assms(1) p lru_cache.run_ok [OF assms(1,5) p] assms(6)]
  obtain r st' where "exec E c st = Done r st'" "reports c \<longrightarrow> reported (failed r) st'" by (elim ran_ok_elim) blast
  then show ?thesis
    using c_run.call [OF assms(5,6)] by (auto simp: reported_def fs_erofs_last_errno_def fs_erofs_last_error_def)
qed

section \<open>Links\<close>

context lru_cache
begin

lemma target_length:
  assumes "safe_reader L f" "lib_lru L = lru" "good pc" "read_symlink_target (Suc (Suc d)) L f ino pc = (Ok target, pc')"
  shows "length target \<le> 4096"
proof -
  have "io_ok good (\<lambda>t. length t \<le> 4096) (read_symlink_target (Suc (Suc d)) L f ino)"
    unfolding read_symlink_target_def Let_def
  proof (intro io_ok_if)
    assume "\<not> MAX_SYMLINK_TARGET < i_size ino"
    then have "unat (i_size ino) \<le> 4096" by (simp add: MAX_SYMLINK_TARGET_def not_less word_le_nat_alt)
    then show "io_ok good (\<lambda>t. length t \<le> 4096) (read_file (Suc (Suc d)) L f ino 0 (unat (i_size ino)))"
      using assms(1,2) by (intro io_ok_mono [OF read_file_ok]) (simp_all add: safe_reader_def)
  qed (auto intro!: io_ok_lift)
  then show ?thesis using assms(3,4) by (auto simp: io_ok_def dest!: spec [of _ pc])
qed

text \<open>A handle of a run is a filesystem that reads, with a cache that holds what it claims.\<close>

lemma run_mounted:
  assumes "c_run E tr st" "provided E d" "p_mounts st fs = Some mnt"
  shows "fs \<noteq> 0" "safe_reader (e_libs E) (mt_fs mnt)" "good (mt_cache mnt)"
  using run_ok [OF assms(1,2)] assms(3) by (auto simp: proc_ok_def mount_ok_def)

end

text \<open>C8: reading a link through the C interface is all or nothing. When the path is a link whose target the image
  gives, a buffer longer than the target receives it with its NUL and the reply is its length without; a
  buffer that is not receives nothing at all, and the reply is -1 with \<open>ERANGE\<close>: the target is never cut.\<close>

theorem readlink_never_cuts:
  assumes "lru_cache lru contents" "lib_lru (e_libs E) = lru" "reads_within (lib_codecs (e_libs E))" "2 \<le> e_depth E"
    and "c_run E tr st" "p_mounts st fs = Some mnt" "bufsize \<le> cap"
    and "lookup_path_bytes (e_depth E) (e_libs E) (mt_fs mnt) (c_str path) (mt_cache mnt) = (Ok ino, pc)" "is_symlink ino"
    and "read_symlink_target (e_depth E) (e_libs E) (mt_fs mnt) ino pc = (Ok target, pc')"
  shows "\<exists>st'. fs_erofs_readlink E fs (Some path) (Some cap) bufsize st =
      Done (if length target < bufsize then (int (length target), target @ [0]) else (-1, [])) st'
    \<and> fs_erofs_last_errno st' = (if length target < bufsize then 0 else ERANGE)"
proof -
  obtain d where d: "e_depth E = Suc (Suc d)" using assms(4) by (metis add_2_eq_Suc le_Suc_ex)
  have p: "lru_cache.provided lru E d" using assms(1-3) d by (simp add: lru_cache.provided_def)
  note m = lru_cache.run_mounted [OF assms(1,5) p assms(6)]
  have "lru_cache.good lru contents pc"
    using lru_cache.lookup_path_ok [OF assms(1) m(2) assms(2), of "Suc d" "c_str path"] m(3) assms(8)
    by (auto simp: io_ok_def d dest!: spec [of _ "mt_cache mnt"])
  then have "length target \<le> 4096"
    using lru_cache.target_length [OF assms(1) m(2) assms(2)] assms(10) by (simp add: d)
  then show ?thesis
    using m(1) assms(6-10)
    by (auto simp: fs_erofs_readlink_def ffi_guard_def the_fs_def on_fs_def on_result_def cstr_to_bytes_def clear_last_error_def
        refuse_def set_err_msg_def set_last_error_def fs_erofs_last_errno_def Let_def)
qed

section \<open>Directories\<close>

text \<open>What successive calls of \<open>dir_next\<close> give.\<close>

primrec next_calls :: "('z, 'c) env \<Rightarrow> nat \<Rightarrow> ptr \<Rightarrow> 'c process \<Rightarrow> (abi_dirent option list, 'c process) ran" where
  "next_calls E 0 iter st = Done [] st"
| "next_calls E (Suc n) iter st =
     (case fs_erofs_dir_next E iter st of
        Done r st \<Rightarrow>
          (case next_calls E n iter st of
             Done rs st \<Rightarrow> Done (r # rs) st | Unwinding st \<Rightarrow> Unwinding st | Running \<Rightarrow> Running | Undefined \<Rightarrow> Undefined)
      | Unwinding st \<Rightarrow> Unwinding st | Running \<Rightarrow> Running | Undefined \<Rightarrow> Undefined)"

lemma next_calls_from:
  assumes "iter \<noteq> 0" "p_iters st iter = Some it" "it_position it \<le> length (it_entries it)"
  shows "\<exists>st'. next_calls E (Suc (length (it_entries it) - it_position it)) iter st =
    Done (map Some (drop (it_position it) (it_entries it)) @ [None]) st'"
  using assms(2,3)
proof (induction "length (it_entries it) - it_position it" arbitrary: it st)
  case 0
  then show ?case using assms(1) by (simp add: fs_erofs_dir_next_def ffi_guard_def)
next
  case (Suc k)
  let ?i = "it_position it" and ?es = "it_entries it"
  let ?it = "it\<lparr>it_current := ?es ! ?i, it_position := ?i + 1\<rparr>"
  let ?st = "st\<lparr>p_iters := (p_iters st)(iter \<mapsto> ?it)\<rparr>"
  have lt: "?i < length ?es" using Suc.hyps(2) by linarith
  have step: "fs_erofs_dir_next E iter st = Done (Some (?es ! ?i)) ?st"
    using assms(1) lt Suc.prems(1) by (simp add: fs_erofs_dir_next_def ffi_guard_def Let_def)
  have "\<exists>st'. next_calls E (Suc (length (it_entries ?it) - it_position ?it)) iter ?st =
      Done (map Some (drop (it_position ?it) (it_entries ?it)) @ [None]) st'"
    by (rule Suc.hyps(1)) (use Suc.hyps(2) lt in simp_all)
  moreover have "length ?es - Suc ?i = k" using Suc.hyps(2) by simp
  ultimately obtain st' where "next_calls E (Suc k) iter ?st = Done (map Some (drop (Suc ?i) ?es) @ [None]) st'"
    by (auto simp del: next_calls.simps)
  moreover have "drop ?i ?es = ?es ! ?i # drop (Suc ?i) ?es" using lt by (simp add: Cons_nth_drop_Suc)
  ultimately have "next_calls E (Suc (Suc k)) iter st = Done (map Some (drop ?i ?es) @ [None]) st'"
    by (simp only: next_calls.simps(2) [of E "Suc k"] step ran.case) simp
  then show ?case using Suc.hyps(2) by metis
qed

lemma listed_names:
  assumes "read_dir depth L f ino pc = (Ok es, pc')"
  shows "\<forall>e\<in>set es. 0 \<notin> set (de_name e)"
proof -
  have loop: "read_dir_loop rd bs n r i out pc = (Ok es, pc') \<Longrightarrow> \<forall>e\<in>set out. 0 \<notin> set (de_name e) \<Longrightarrow>
      \<forall>e\<in>set es. 0 \<notin> set (de_name e)" for rd bs n r i out pc
  proof (induction n arbitrary: r i out pc)
    case (Suc n)
    show ?case
    proof (cases "0 < r")
      case True
      obtain buf pc1 where b: "rd i (unat (min r bs)) pc = (Ok buf, pc1)"
        using Suc.prems(1) True by (auto simp: Let_def bindS_def split: prod.splits result.splits)
      obtain xs where x: "iter_block (pad_block bs buf) = Ok xs"
        using Suc.prems(1) True b by (auto simp: Let_def bindS_def liftS_apply split: result.splits)
      have "\<forall>e\<in>set xs. 0 \<notin> set (de_name e)"
        by (rule iter_block_Ok [OF x]) (auto simp: dirent_of_def name_ok_def)
      then have "\<forall>e\<in>set (out @ xs). 0 \<notin> set (de_name e)" using Suc.prems(2) by auto
      moreover have "read_dir_loop rd bs n (r - min r bs) (i + 1) (out @ xs) pc1 = (Ok es, pc')"
        using Suc.prems(1) True b x by (simp add: Let_def bindS_def liftS_apply)
      ultimately show ?thesis by (rule Suc.IH [rotated])
    qed (use Suc.prems in \<open>simp add: liftS_apply\<close>)
  qed (auto simp: liftS_apply split: if_splits)
  obtain zm where "is_dir ino" "zmap_for f ino = Ok zm"
    using assms by (auto simp: read_dir_def Let_def bindS_def liftS_apply split: if_splits result.splits)
  then show ?thesis using assms loop [where out = "[]"] by (auto simp: read_dir_def Let_def bindS_def liftS_apply)
qed

lemma on_fs_Ok:
  assumes "on_fs fs m fl k st = Done r st'" "\<And>e st. fl e st \<noteq> Done r st'"
  obtains mnt a pc st1 where "p_mounts st fs = Some mnt" "m (mt_cache mnt) = (Ok a, pc)" "k a st1 = Done r st'"
    "p_mounts st1 = (p_mounts st)(fs \<mapsto> mnt\<lparr>mt_cache := pc\<rparr>)"
proof -
  obtain mnt where m: "p_mounts st fs = Some mnt" using assms(1) by (auto simp: on_fs_def split: option.splits)
  obtain x pc where x: "m (mt_cache mnt) = (x, pc)" by (cases "m (mt_cache mnt)")
  show thesis using assms that [OF m] by (cases x) (simp_all add: on_fs_def m x on_result_def)
qed

lemma ffi_guard_Done:
  assumes "ffi_guard E fail body = Done r st'" "r \<noteq> fail"
  shows "body = Done r st'"
  using assms by (cases body) (auto simp: ffi_guard_def)

lemma dir_open_Done:
  assumes "fs_erofs_dir_open E fs (Some path) st = Done it st1" "it \<noteq> 0"
  obtains mnt ino pc es pc' where "p_mounts st fs = Some mnt"
    "lookup_path_bytes (e_depth E) (e_libs E) (mt_fs mnt) (c_str path) (mt_cache mnt) = (Ok ino, pc)" "is_dir ino"
    "read_dir (e_depth E) (e_libs E) (mt_fs mnt) ino pc = (Ok es, pc')"
    "p_iters st1 it = Some \<lparr>it_entries = map dir_entry_to_abi (filter (\<lambda>e. \<not> is_dot_name (de_name e)) es),
       it_position = 0, it_current = zero_dirent\<rparr>"
proof -
  let ?p = "c_str path"
  define opn where "opn = (\<lambda>es (st :: 'a process). Done (p_next st) (st\<lparr>p_iters := (p_iters st)(p_next st \<mapsto>
      \<lparr>it_entries = map dir_entry_to_abi (filter (\<lambda>e. \<not> is_dot_name (de_name e)) es), it_position = 0, it_current = zero_dirent\<rparr>),
      p_next := Suc (p_next st)\<rparr>))"
  define listing where "listing f ino st =
      (if \<not> is_dir ino then refuse 0 (ascii ''dir_open '' @ shown ?p @ ascii '': not a directory'') ENOTDIR st
       else on_fs fs (read_dir (e_depth E) (e_libs E) f ino) (fail_with E 0 (ascii ''read directory '' @ shown ?p)) opn st)" for f ino st
  obtain mnt where m: "p_mounts st fs = Some mnt" and
    d: "on_fs fs (lookup_path_bytes (e_depth E) (e_libs E) (mt_fs mnt) ?p) (fail_with E 0 (ascii ''dir_open '' @ shown ?p))
        (listing (mt_fs mnt)) (clear_last_error st) = Done it st1"
    using ffi_guard_Done [OF assms(1) [unfolded fs_erofs_dir_open_def] assms(2)] assms(2)
    unfolding listing_def [abs_def] opn_def
    by (auto simp: Let_def refuse_def the_fs_def cstr_to_bytes_def clear_last_error_def split: if_splits option.splits)
  have f: "fail_with E 0 ctxt e st \<noteq> Done it st1" for ctxt e st using assms(2) by (simp add: fail_with_def)
  obtain mnt1 ino pc st2 where l: "p_mounts (clear_last_error st) fs = Some mnt1"
    "lookup_path_bytes (e_depth E) (e_libs E) (mt_fs mnt) ?p (mt_cache mnt1) = (Ok ino, pc)" "listing (mt_fs mnt) ino st2 = Done it st1"
    "p_mounts st2 = (p_mounts (clear_last_error st))(fs \<mapsto> mnt1\<lparr>mt_cache := pc\<rparr>)" by (rule on_fs_Ok [OF d f])
  have e: "mnt1 = mnt" using l(1) m by (simp add: clear_last_error_def)
  have dir: "is_dir ino" and d2: "on_fs fs (read_dir (e_depth E) (e_libs E) (mt_fs mnt) ino)
      (fail_with E 0 (ascii ''read directory '' @ shown ?p)) opn st2 = Done it st1"
    using l(3) assms(2) by (auto simp: listing_def refuse_def split: if_splits)
  obtain mnt2 es pc' st3 where r: "p_mounts st2 fs = Some mnt2"
    "read_dir (e_depth E) (e_libs E) (mt_fs mnt) ino (mt_cache mnt2) = (Ok es, pc')" "opn es st3 = Done it st1"
    by (rule on_fs_Ok [OF d2 f])
  have "mt_cache mnt2 = pc" using r(1) l(4) by auto
  with r(2,3) show thesis by (intro that [OF m l(2) [unfolded e] dir]) (auto simp: opn_def)
qed

text \<open>C9: the calls of \<open>dir_next\<close> on an iterator that \<open>dir_open\<close> gave list the directory as the image has it, without
  the two dots: entry by entry in order, then null for good; and they do so whatever other calls come
  between, unmounting the image included. Each name is a C string, the name of the entry cut to 255 bytes,
  and \<open>name_len\<close> is its length.\<close>

theorem dir_iteration_lists:
  assumes "fs_erofs_dir_open E fs (Some path) st = Done it st1" "it \<noteq> 0" "p_iters st2 it = p_iters st1 it"
  shows "\<exists>mnt ino pc es pc' st3. p_mounts st fs = Some mnt
    \<and> lookup_path_bytes (e_depth E) (e_libs E) (mt_fs mnt) (c_str path) (mt_cache mnt) = (Ok ino, pc)
    \<and> read_dir (e_depth E) (e_libs E) (mt_fs mnt) ino pc = (Ok es, pc')
    \<and> (let listed = map dir_entry_to_abi (filter (\<lambda>e. \<not> is_dot_name (de_name e)) es) in
         next_calls E (Suc (length listed)) it st2 = Done (map Some listed @ [None]) st3)
    \<and> (\<forall>e\<in>set es. c_str (ad_name (dir_entry_to_abi e)) = take 255 (de_name e)
         \<and> unat (ad_name_len (dir_entry_to_abi e)) = length (c_str (ad_name (dir_entry_to_abi e))))"
proof -
  obtain mnt ino pc es pc' where o: "p_mounts st fs = Some mnt"
    "lookup_path_bytes (e_depth E) (e_libs E) (mt_fs mnt) (c_str path) (mt_cache mnt) = (Ok ino, pc)"
    "read_dir (e_depth E) (e_libs E) (mt_fs mnt) ino pc = (Ok es, pc')"
    "p_iters st1 it = Some \<lparr>it_entries = map dir_entry_to_abi (filter (\<lambda>e. \<not> is_dot_name (de_name e)) es),
       it_position = 0, it_current = zero_dirent\<rparr>"
    by (rule dir_open_Done [OF assms(1,2)])
  have name: "c_str (ad_name (dir_entry_to_abi e)) = take 255 (de_name e)" if "e \<in> set es" for e
  proof -
    have "0 \<notin> set (de_name e)" using listed_names [OF o(3)] that by blast
    then have "takeWhile (\<lambda>b. b \<noteq> 0) (take k (de_name e) @ replicate (256 - k) 0) = take k (de_name e)" if "k \<le> 255" for k
      using that by (subst takeWhile_append2) (auto dest: in_set_takeD simp: takeWhile_eq_Nil_iff)
    then show ?thesis by (simp add: c_str_def dir_entry_to_abi_def Let_def min_def)
  qed
  have "unat (ad_name_len (dir_entry_to_abi e)) = min (length (de_name e)) 255" for e
    by (simp add: dir_entry_to_abi_def Let_def unat_of_nat_small min_less_iff_disj)
  then have len: "\<forall>e\<in>set es. c_str (ad_name (dir_entry_to_abi e)) = take 255 (de_name e)
      \<and> unat (ad_name_len (dir_entry_to_abi e)) = length (c_str (ad_name (dir_entry_to_abi e)))"
    by (simp add: name min.commute)
  obtain st3 where "next_calls E (Suc (length (map dir_entry_to_abi (filter (\<lambda>e. \<not> is_dot_name (de_name e)) es)))) it st2
      = Done (map Some (map dir_entry_to_abi (filter (\<lambda>e. \<not> is_dot_name (de_name e)) es)) @ [None]) st3"
    using next_calls_from [OF assms(2) o(4) [folded assms(3)]] by auto
  then show ?thesis unfolding Let_def using o(1-3) len by blast
qed

end
