(* ===== verification/CliSafe.thy ===== *)
theory CliSafe
  imports Cli CapiSafe
begin

text \<open>
  The verbs of \<open>fs.erofs\<close> on an image whose packed inode has no fragment: each answers, with a report or an error, and a recursive listing keeps
  its bounds and enters no directory twice, whatever loops the directories of the image make.
\<close>

section \<open>Verbs that answer\<close>

definition answered :: "'a answer \<Rightarrow> bool" where
  "answered a = (case a of Fine _ \<Rightarrow> True | Fails _ \<Rightarrow> True | _ \<Rightarrow> False)"

lemma answered_iff: "answered a \<longleftrightarrow> (\<exists>x. a = Fine x) \<or> (\<exists>e. a = Fails e)"
  by (cases a) (simp_all add: answered_def)

lemma answered_simps [simp]: "answered (Fine x)" "answered (Fails e)" "\<not> answered Panics" "\<not> answered Runs"
  by (simp_all add: answered_def)

text \<open>\<open>verb_ok I R P m\<close>: from a cache in \<open>I\<close> the verb answers, ends in \<open>I\<close> with a world that \<open>R\<close> relates to
  the one before, and its value satisfies \<open>P\<close>.\<close>

definition verb_ok :: "('c pcluster_cache \<Rightarrow> bool) \<Rightarrow> ('w \<Rightarrow> 'w \<Rightarrow> bool) \<Rightarrow> ('a \<Rightarrow> bool) \<Rightarrow> ('c, 'w, 'a) verb \<Rightarrow> bool" where
  "verb_ok I R P m = (\<forall>s. I (fst s) \<longrightarrow> I (fst (snd (m s))) \<and> R (snd s) (snd (snd (m s))) \<and>
     (case fst (m s) of Fine a \<Rightarrow> P a | Fails _ \<Rightarrow> True | _ \<Rightarrow> False))"

named_theorems verb_intros "rules for verb_ok"

lemma verb_okD:
  assumes "verb_ok I R P m" "I (fst s)"
  obtains a s' where "m s = (Fine a, s')" "P a" "I (fst s')" "R (snd s) (snd s')"
    | e s' where "m s = (Fails e, s')" "I (fst s')" "R (snd s) (snd s')"
proof -
  obtain r s' where m: "m s = (r, s')" by (cases "m s")
  have ok: "I (fst s') \<and> R (snd s) (snd s') \<and> (case r of Fine a \<Rightarrow> P a | Fails _ \<Rightarrow> True | _ \<Rightarrow> False)"
    using assms(1) [unfolded verb_ok_def, rule_format, OF assms(2)] by (simp add: m)
  show thesis by (cases r) (use ok m that in auto)
qed

lemma verb_ok_ret [verb_intros]: "answered a \<Longrightarrow> (\<And>x. a = Fine x \<Longrightarrow> P x) \<Longrightarrow> reflp R \<Longrightarrow> verb_ok I R P (retV a)"
  by (cases a) (simp_all add: verb_ok_def retV_def reflp_def)

lemma verb_ok_if [verb_intros]: "(b \<Longrightarrow> verb_ok I R P m) \<Longrightarrow> (\<not> b \<Longrightarrow> verb_ok I R P m') \<Longrightarrow> verb_ok I R P (if b then m else m')"
  by simp

lemma verb_ok_bind:
  assumes m: "verb_ok I R Q m" and f: "\<And>a. Q a \<Longrightarrow> verb_ok I R P (f a)" and R: "transp R"
  shows "verb_ok I R P (bindV m f)"
  unfolding verb_ok_def
proof (intro allI impI, goal_cases)
  case (1 s)
  show ?case
  proof (rule verb_okD [OF m 1])
    fix a s' assume a: "m s = (Fine a, s')" "Q a" "I (fst s')" "R (snd s) (snd s')"
    show ?thesis
      by (rule verb_okD [OF f [OF a(2)] a(3)]) (use a R in \<open>auto simp: bindV_def elim: transpE\<close>)
  qed (simp add: bindV_def)
qed

lemma verb_ok_lib [verb_intros]: "io_ok I P m \<Longrightarrow> reflp R \<Longrightarrow> verb_ok I R P (lib f m)"
  unfolding verb_ok_def
proof (intro allI impI, goal_cases)
  case (1 s)
  then show ?case
    using 1(1) [unfolded io_ok_def, rule_format, OF 1(3)]
    by (cases "m (fst s)"; cases "fst (m (fst s))") (auto simp: lib_def answer_of_def reflp_def)
qed

lemma verb_ok_host [verb_intros]: "verb_ok I (\<lambda>_ _. True) (\<lambda>_. True) (on_host m what)"
  by (auto simp: verb_ok_def on_host_def split: prod.splits option.splits)

lemma verb_ok_map [verb_intros]:
  "(\<And>x. verb_ok I R (\<lambda>_. True) (f x)) \<Longrightarrow> reflp R \<Longrightarrow> transp R \<Longrightarrow> verb_ok I R (\<lambda>_. True) (mapV f xs)"
  by (induction xs) (auto intro!: verb_intros verb_ok_bind [where Q = "\<lambda>_. True"])

lemma verb_ok_mono: "verb_ok I R P m \<Longrightarrow> (\<And>a. P a \<Longrightarrow> Q a) \<Longrightarrow> (\<And>w w'. R w w' \<Longrightarrow> R' w w') \<Longrightarrow> verb_ok I R' Q m"
  unfolding verb_ok_def by (auto split: answer.splits)

section \<open>Fields of an entry\<close>

definition json_field :: "string \<Rightarrow> json \<Rightarrow> json option" where
  "json_field k e = (case e of JObj fds \<Rightarrow> map_of fds k | _ \<Rightarrow> None)"

lemma entry_shape:
  assumes "entry T fs name ino pc = (Ok e, pc')"
  obtains rest where "e = JObj ((''name'', JStr (show_bytes name)) # hex_field ''name_hex'' name @
     [(''type'', JStr (ascii (type_name (file_type ino)))), (''size'', JNum (uint (i_size ino))),
      (''mode'', JStr (mode_text (i_mode ino))), (''mtime'', JNum (uint (fst (inode_time fs ino)))),
      (''inode'', JNum (uint (i_nid ino)))] @ rest)"
    "set (map fst rest) \<subseteq> {''target'', ''major'', ''minor''}"
proof -
  have "set (map fst (target_field t @ rdev_fields ino)) \<subseteq> {''target'', ''major'', ''minor''}"
    "set (map fst (rdev_fields ino)) \<subseteq> {''target'', ''major'', ''minor''}" for t
    by (auto simp: target_field_def rdev_fields_def split: option.splits)
  then show thesis
    using assms that unfolding entry_def Let_def
    by (auto simp: bindS_def liftS_apply split: if_splits result.splits prod.splits) blast+
qed

text \<open>What a recursive listing puts into an entry.\<close>

definition lists_inode :: "inode \<Rightarrow> bytes \<Rightarrow> u64 \<Rightarrow> bool \<Rightarrow> json \<Rightarrow> bool" where
  "lists_inode ino path depth revisited e =
     (json_field ''path'' e = Some (JStr (show_bytes path)) \<and> json_field ''depth'' e = Some (JNum (uint depth))
      \<and> json_field ''type'' e = Some (JStr (ascii (type_name (file_type ino))))
      \<and> json_field ''inode'' e = Some (JNum (uint (i_nid ino)))
      \<and> (json_field ''revisited'' e \<noteq> None) = revisited)"

lemma map_of_absent: "k \<notin> set (map fst xs) \<Longrightarrow> map_of (xs @ ys) k = map_of ys k"
  by (simp add: map_add_def map_of_eq_None_iff [symmetric] split: option.split)

lemma recursive_entry_lists:
  assumes "recursive_entry T fs path depth ino revisited s = (Fine e, s')"
  shows "lists_inode ino path depth revisited e"
proof -
  let ?tail = "(''path'', JStr (show_bytes path)) # hex_field ''path_hex'' path @ (''depth'', JNum (uint depth)) #
    (if revisited then [(''revisited'', JBool True)] else [])"
  obtain fds pc' where e0: "entry T fs (last (split_slash path)) ino (fst s) = (Ok (JObj fds), pc')" and e: "e = JObj (fds @ ?tail)"
    using assms
    by (auto simp: recursive_entry_def bindV_def lib_def answer_of_def retV_def split: prod.splits result.splits answer.splits json.splits)
  obtain rest where f: "fds = ((''name'', JStr (show_bytes (last (split_slash path)))) # hex_field ''name_hex'' (last (split_slash path)) @
     [(''type'', JStr (ascii (type_name (file_type ino)))), (''size'', JNum (uint (i_size ino))),
      (''mode'', JStr (mode_text (i_mode ino))), (''mtime'', JNum (uint (fst (inode_time fs ino)))),
      (''inode'', JNum (uint (i_nid ino)))] @ rest)"
    and rest: "set (map fst rest) \<subseteq> {''target'', ''major'', ''minor''}" using entry_shape [OF e0] by (metis json.inject(5))
  have "map_of fds ''type'' = Some (JStr (ascii (type_name (file_type ino))))" "map_of fds ''inode'' = Some (JNum (uint (i_nid ino)))"
    by (simp_all add: f hex_field_def)
  moreover have "map_of (fds @ ?tail) k = map_of ?tail k" if "k \<in> {''path'', ''depth'', ''revisited''}" for k
  proof (rule map_of_absent)
    have "set (map fst fds) \<subseteq> {''name'', ''name_hex'', ''type'', ''size'', ''mode'', ''mtime'', ''inode'', ''target'', ''major'', ''minor''}"
      using rest by (auto simp: f hex_field_def split: if_splits)
    then show "k \<notin> set (map fst fds)" using that by auto
  qed
  moreover have "map_of ?tail ''path'' = Some (JStr (show_bytes path))" "map_of ?tail ''depth'' = Some (JNum (uint depth))"
    "(map_of ?tail ''revisited'' \<noteq> None) = revisited" by (simp_all add: hex_field_def)
  ultimately show ?thesis by (simp add: lists_inode_def e json_field_def map_add_def del: map_of_append) (simp add: map_add_def)
qed

section \<open>Recursive listings\<close>

text \<open>The inode numbers of the directories a listing entered.\<close>

definition is_entered :: "json \<Rightarrow> bool" where
  "is_entered e = (json_field ''type'' e = Some (JStr (ascii ''dir'')) \<and> json_field ''revisited'' e = None)"

definition entered :: "json list \<Rightarrow> json option list" where
  "entered es = map (json_field ''inode'') (filter is_entered es)"

definition within :: "u64 \<Rightarrow> json \<Rightarrow> bool" where
  "within max_depth e = (\<exists>n. json_field ''depth'' e = Some (JNum n) \<and> 0 \<le> n \<and> n \<le> uint max_depth)"

definition as_inode :: "u64 \<Rightarrow> json option" where "as_inode n = Some (JNum (uint n))"

lemma as_inode_inj [simp]: "as_inode a = as_inode b \<longleftrightarrow> a = b"
  by (simp add: as_inode_def word_uint_eq_iff)

definition listing_ok :: "u64 \<Rightarrow> u64 \<Rightarrow> u64 \<Rightarrow> u64 set \<Rightarrow> json list \<Rightarrow> bool" where
  "listing_ok root max_depth limit visited es =
     (length es \<le> unat limit \<and> list_all (within max_depth) es \<and> distinct (as_inode root # entered es)
      \<and> set (as_inode root # entered es) \<subseteq> as_inode ` visited)"

lemma type_dir: "ascii (type_name t) = ascii ''dir'' \<longleftrightarrow> t = Dir"
  by (cases t) (simp_all add: type_name_def ascii_def)

lemma listing_ok_snoc:
  assumes "listing_ok root md limit visited es" "lists_inode ino path depth (is_dir ino \<and> i_nid ino \<in> visited) e"
    and "\<not> limit \<le> word_of_nat (length es)" "\<not> md < depth"
  shows "listing_ok root md limit (if is_dir ino then insert (i_nid ino) visited else visited) (es @ [e])"
proof -
  note l = assms(1) [unfolded listing_ok_def] and e = assms(2) [unfolded lists_inode_def]
  have "length es < 2 ^ 64" using l unsigned_less [of limit, where ?'a = nat] by simp
  then have "length es < unat limit" using assms(3) by (simp add: not_le word_less_nat_alt unat_of_nat_small)
  moreover have "within md e" using e assms(4) by (auto simp: within_def not_less word_le_def)
  moreover have "is_entered e \<longleftrightarrow> is_dir ino \<and> i_nid ino \<notin> visited" using e by (auto simp: is_entered_def type_dir is_type_simps)
  ultimately show ?thesis using l e
    by (auto simp: listing_ok_def entered_def as_inode_def [symmetric])
qed

text \<open>What the loop leaves: it answered, the listing is bounded, and the cache is sound.\<close>

definition listed_ok ::
    "('c pcluster_cache \<Rightarrow> bool) \<Rightarrow> u64 \<Rightarrow> u64 \<Rightarrow> u64 \<Rightarrow> 'w \<Rightarrow> (json list \<times> unit answer) \<times> 'c pcluster_cache \<times> 'w \<Rightarrow> bool" where
  "listed_ok I root md limit w out =
     (case out of ((es, a), (pc, w')) \<Rightarrow> answered a \<and> I pc \<and> w' = w \<and> (\<exists>visited. listing_ok root md limit visited es))"

lemma or_stop_ok:
  assumes m: "verb_ok I (=) P m" and s: "I (fst s)" and es: "listing_ok root md limit visited es"
    and k: "\<And>a s'. m s = (Fine a, s') \<Longrightarrow> P a \<Longrightarrow> I (fst s') \<Longrightarrow> snd s' = snd s \<Longrightarrow> listed_ok I root md limit (snd s) (k a s')"
  shows "listed_ok I root md limit (snd s) (or_stop m es k s)"
  by (rule verb_okD [OF m s]) (use k es in \<open>auto simp: or_stop_def listed_ok_def split: prod.splits\<close>)

definition reader_tool :: "('c lru_ops) \<Rightarrow> ('z, 'c, 'w) tool \<Rightarrow> bool" where
  "reader_tool lru T = (lib_lru (t_libs T) = lru \<and> reads_within (lib_codecs (t_libs T)) \<and> 2 \<le> t_depth T)"

context lru_cache
begin

lemma tool_calls:
  assumes "reader_tool lru T" "safe_reader (t_libs T) fs"
  shows "io_ok good (\<lambda>_. True) (lookup_path_bytes (t_depth T) (t_libs T) fs p)"
    "io_ok good (\<lambda>_. True) (read_dir (t_depth T) (t_libs T) fs ino)"
    "io_ok good (\<lambda>_. True) (read_symlink_target (t_depth T) (t_libs T) fs ino)"
    "n < 2 ^ 64 \<Longrightarrow> unat off + n \<le> unat (i_size ino) \<Longrightarrow> io_ok good (\<lambda>bs. length bs = n) (read_file (t_depth T) (t_libs T) fs ino off n)"
proof -
  obtain d where d: "t_depth T = Suc (Suc d)" using assms(1) by (metis reader_tool_def add_2_eq_Suc le_Suc_ex)
  have l: "lib_lru (t_libs T) = lru" using assms(1) by (simp add: reader_tool_def)
  show "io_ok good (\<lambda>_. True) (lookup_path_bytes (t_depth T) (t_libs T) fs p)"
    "io_ok good (\<lambda>_. True) (read_dir (t_depth T) (t_libs T) fs ino)"
    "io_ok good (\<lambda>_. True) (read_symlink_target (t_depth T) (t_libs T) fs ino)"
    using l assms(2) by (simp_all add: d lookup_path_ok read_dir_ok read_symlink_target_ok)
  show "n < 2 ^ 64 \<Longrightarrow> unat off + n \<le> unat (i_size ino) \<Longrightarrow> io_ok good (\<lambda>bs. length bs = n) (read_file (t_depth T) (t_libs T) fs ino off n)"
    using l assms(2) read_file_ok [of "t_libs T" fs ino off n d] by (simp add: d safe_reader_def del: read_file.simps)
qed

lemma entry_ok:
  assumes "reader_tool lru T" "safe_reader (t_libs T) fs"
  shows "io_ok good (\<lambda>e. \<exists>fds. e = JObj fds) (entry T fs name ino)"
  unfolding entry_def Let_def
  by (rule io_ok_bind [where Q = "\<lambda>_. True"], rule io_ok_if, rule io_ok_bind [OF tool_calls(3) [OF assms]]) (auto intro!: io_ok_lift)

lemma listing_steps_ok:
  assumes "reader_tool lru T" "safe_reader (t_libs T) fs" "reflp R" "transp R"
  shows "verb_ok good R (\<lambda>_. True) (lib f (liftS (read_inode fs nid)))"
    "verb_ok good R (\<lambda>_. True) (list_children T fs ino path)"
    "verb_ok good R (\<lambda>_. True) (recursive_entry T fs path depth ino revisited)"
proof -
  show "verb_ok good R (\<lambda>_. True) (lib f (liftS (read_inode fs nid)))" using assms(3) by (intro verb_intros) (simp_all add: io_ok_lift)
  show "verb_ok good R (\<lambda>_. True) (list_children T fs ino path)"
    unfolding list_children_def
    by (rule verb_ok_bind [OF verb_ok_lib [OF tool_calls(2) [OF assms(1,2)] assms(3)] _ assms(4)]) (intro verb_intros, simp_all add: assms)
  show "verb_ok good R (\<lambda>_. True) (recursive_entry T fs path depth ino revisited)"
    unfolding recursive_entry_def
    by (rule verb_ok_bind [OF verb_ok_lib [OF entry_ok [OF assms(1,2)] assms(3)] _ assms(4)])
      (auto intro!: verb_intros simp: assms)
qed

lemma ls_loop_ok:
  assumes "reader_tool lru T" "safe_reader (t_libs T) fs"
  shows "good (fst s) \<Longrightarrow> listing_ok root md limit visited es \<Longrightarrow> listed_ok good root md limit (snd s) (ls_loop T fs md limit stack visited es s)"
  using assms
proof (induction T fs md limit stack visited es s rule: ls_loop.induct)
  case (1 T fs md limit visited es s)
  then show ?case by (auto simp: listed_ok_def split: prod.splits)
next
  case (2 T fs md limit parent pd stack visited es s)
  then show ?case by simp
next
  case (3 T fs md limit parent pd child children stack visited es s)
  let ?full = "path_join parent (de_name child)" and ?depth = "pd + 1"
  note steps = listing_steps_ok [OF 3(5,6) reflp_on_equality transp_on_equality]
  show ?case
  proof (cases "limit \<le> word_of_nat (length es) \<or> md < ?depth")
    case True
    then show ?thesis using 3(3,4) by (auto simp: Let_def listed_ok_def split: prod.splits)
  next
    case False
    then have bounds: "\<not> limit \<le> word_of_nat (length es)" "\<not> md < ?depth" by auto
    show ?thesis
      unfolding ls_loop.simps Let_def if_not_P [OF bounds(1)] if_not_P [OF bounds(2)]
    proof (rule or_stop_ok [OF steps(1) 3(3,4)], goal_cases)
      case (1 ino s1)
      let ?rev = "is_dir ino \<and> i_nid ino \<in> visited" and ?vis = "if is_dir ino then insert (i_nid ino) visited else visited"
      show ?case unfolding 1(4) [symmetric]
      proof (rule or_stop_ok [OF steps(3) 1(3) 3(4)], goal_cases)
        case r: (1 e s2)
        have new: "listing_ok root md limit ?vis (es @ [e])"
          by (rule listing_ok_snoc [OF 3(4) recursive_entry_lists [OF r(1)] bounds])
        show ?case
        proof (cases "is_dir ino \<and> i_nid ino \<notin> visited")
          case True
          show ?thesis unfolding if_P [OF True] r(4) [symmetric]
          proof (rule or_stop_ok [OF steps(2) r(3) new], goal_cases)
            case l: (1 ds s3)
            show ?case unfolding l(4) [symmetric]
              by (rule 3(1) [OF refl refl bounds 1(1) refl refl r(1) True l(1) l(3) new 3(5,6)])
          qed
        next
          case no: False
          show ?thesis unfolding if_not_P [OF no] r(4) [symmetric]
            by (rule 3(2) [OF refl refl bounds 1(1) refl refl r(1) no r(3) new 3(5,6)])
        qed
      qed
    qed
  qed
qed

lemma list_tree_ok:
  assumes T: "reader_tool lru T" "safe_reader (t_libs T) fs" and pc: "good pc"
  shows "listed_ok good (i_nid ino) (lb_max_depth lb) (lb_limit lb) w (list_tree T fs lb path ino (pc, w))"
proof -
  note steps = listing_steps_ok [OF T reflp_on_equality transp_on_equality]
  have start: "listing_ok (i_nid ino) md l {i_nid ino} []" for md l by (simp add: listing_ok_def entered_def)
  have s: "good (fst (pc, w))" "w = snd (pc, w)" using pc by simp_all
  show ?thesis
  proof (cases "is_dir ino")
    case True
    have "listed_ok good (i_nid ino) (lb_max_depth lb) (lb_limit lb) (snd (pc, w))
        (or_stop (list_children T fs ino path) [] (\<lambda>ds. ls_loop T fs (lb_max_depth lb) (lb_limit lb) [(path, 0, ds)] {i_nid ino} []) (pc, w))"
      by (rule or_stop_ok [OF steps(2) s(1) start]) (metis ls_loop_ok [OF T _ start])
    then show ?thesis using True by (simp add: list_tree_def)
  next
    case False
    have one: "listing_ok (i_nid ino) md l {i_nid ino} [e]" if "lists_inode ino path 0 False e" "l \<noteq> 0" for e md l
    proof -
      have "0 < unat l" using that(2) by (simp add: unat_gt_0)
      then show ?thesis using that(1) False
        by (auto simp: listing_ok_def entered_def is_entered_def lists_inode_def type_dir is_type_simps within_def)
    qed
    show ?thesis
    proof (cases "lb_limit lb = 0")
      case True
      then show ?thesis using False pc start by (auto simp: list_tree_def listed_ok_def)
    next
      case nz: False
      show ?thesis unfolding list_tree_def if_P [OF False] if_not_P [OF nz]
      proof (subst s(2), rule or_stop_ok [OF steps(3) s(1) start], goal_cases)
        case (1 e s')
        then show ?case using one [OF recursive_entry_lists [OF 1(1)] nz] by (cases s') (auto simp: listed_ok_def)
      qed
    qed
  qed
qed

end

text \<open>C11: on an opened image whose packed inode has no fragment of its own and not the size 2^64 - 1 (\<open>safe_reader\<close>;
  a read of a packed inode outside this need not end), \<open>ls -R\<close> ends whatever else the image holds, loops and
  shared directories included, with a listing or an error and the listing so far. The codecs yield no more than
  they are asked for and the pcluster cache is sound. The walk never lists more entries than the
  limit or deeper than the depth it was given, and it enters a directory once: of all entries for the same
  directory, the first alone is not marked as visited before, and the directory it started from is never
  entered again. It changes nothing outside but the cache.\<close>

theorem ls_recursive_bounded:
  assumes "lru_cache lru contents" "reader_tool lru T" "safe_reader (t_libs T) fs" "lru_cache.good lru contents pc"
  shows "\<exists>es a pc'. list_tree T fs lb path ino (pc, w) = ((es, a), (pc', w)) \<and> lru_cache.good lru contents pc'
    \<and> ((\<exists>u. a = Fine u) \<or> (\<exists>e. a = Fails e))
    \<and> length es \<le> unat (lb_limit lb) \<and> list_all (within (lb_max_depth lb)) es
    \<and> distinct (as_inode (i_nid ino) # entered es)"
  using lru_cache.list_tree_ok [OF assms, of ino lb w path]
  by (auto simp: listed_ok_def listing_ok_def answered_iff split: prod.splits)

end
