(* ===== verification/Builder.thy ===== *)
theory Builder
  imports Inode Dir Chunked Xattr Collator "HOL-Library.List_Lexorder" "HOL-Library.Multiset"
begin

text \<open>
  The planning half of the image builder (\<open>mkfs.rs\<close>): the tree of nodes a caller gives, \<open>flatten\<close>, which
  numbers them, \<open>plan_body\<close>, which sizes one inode with its trailers, \<open>plan_meta_layout\<close>, which places
  them, and the encoders that need the plan: \<open>encode_inode\<close>, \<open>encode_dir_blocks\<close>. A \<open>BTreeMap\<close> is the list
  of its pairs in the order of its keys, and a \<open>String\<close> the list of its bytes.
\<close>

section \<open>Nodes\<close>

record compressed_file_spec =
  cf_mode :: u16
  cf_data :: bytes
  cf_algo :: compressed_algo
  cf_lclusterbits :: u8
  cf_meta :: node_meta
  cf_xattrs :: "xattr_entry list"
  cf_index_format :: compressed_index_format
  cf_ztailpacking :: bool
  cf_target_pcluster_blocks :: u32

datatype node =
  NFile u16 bytes node_meta "xattr_entry list"
| NDir u16 "(bytes \<times> node) list" node_meta "xattr_entry list"
| NSymlink u16 bytes node_meta "xattr_entry list"
| NDevice u16 u32 node_meta "xattr_entry list"
| NSpecial u16 node_meta "xattr_entry list"
| NChunkedFile u16 u8 "bytes option list" bool node_meta "xattr_entry list"
| NCompressedFile compressed_file_spec

definition node_meta_default :: node_meta where
  "node_meta_default = \<lparr>m_uid = 0, m_gid = 0, m_mtime = 0, m_mtime_nsec = 0\<rparr>"

datatype file_layout = PlainFile | InlineFile

record compressed_plan =
  cp_src :: bytes
  cp_algo :: compressed_algo
  cp_lclusterbits :: u8
  cp_pclusters :: "pcluster_plan list"
  cp_lcluster_entries :: "lcluster_index_entry list"
  cp_total_compressed_blocks :: u32
  cp_index_format :: compressed_index_format
  cp_ztailpacking_requested :: bool
  cp_ztailpacking_inline :: "bytes option"
  cp_target_pcluster_blocks :: u32

datatype plan_kind =
  PFile bytes file_layout
| PDir "(bytes \<times> nat) list"
| PSymlink bytes
| PDevice u32
| PSpecial
| PChunked "bytes option list" u8 bool
| PCompressed compressed_plan

record plan_node =
  pn_parent_idx :: nat
  pn_mode :: u16
  pn_meta :: node_meta
  pn_xattrs :: "xattr_entry list"
  pn_kind :: plan_kind

section \<open>Numbering the tree\<close>

text \<open>A node is numbered before its children; its entry is filled in after them.\<close>

definition placeholder :: "nat \<Rightarrow> plan_node" where
  "placeholder parent = \<lparr>pn_parent_idx = parent, pn_mode = 0, pn_meta = node_meta_default, pn_xattrs = [], pn_kind = PSpecial\<rparr>"

definition fill_in ::
    "nat \<Rightarrow> nat \<Rightarrow> u16 \<Rightarrow> node_meta \<Rightarrow> xattr_entry list \<Rightarrow> plan_kind \<Rightarrow> plan_node list \<Rightarrow> (nat \<times> plan_node list) result" where
  "fill_in i parent mode meta xattrs kind plan =
     Ok (i, plan[i := \<lparr>pn_parent_idx = parent, pn_mode = mode, pn_meta = meta, pn_xattrs = xattrs, pn_kind = kind\<rparr>])"

definition check_name :: "bytes \<Rightarrow> unit result" where
  "check_name name =
     (if name = [] \<or> 0x2F \<in> set name \<or> 0 \<in> set name then Err (BadDirent ''invalid name'')
      else if 65535 < length name then Err (BadDirent ''name length > 65535'')
      else Ok ())"

definition planned_compressed :: "compressed_file_spec \<Rightarrow> compressed_plan" where
  "planned_compressed spec =
     \<lparr>cp_src = cf_data spec, cp_algo = cf_algo spec, cp_lclusterbits = cf_lclusterbits spec, cp_pclusters = [],
      cp_lcluster_entries = [], cp_total_compressed_blocks = 0, cp_index_format = cf_index_format spec,
      cp_ztailpacking_requested = cf_ztailpacking spec, cp_ztailpacking_inline = None,
      cp_target_pcluster_blocks = cf_target_pcluster_blocks spec\<rparr>"

function (sequential) flatten :: "node \<Rightarrow> nat \<Rightarrow> plan_node list \<Rightarrow> (nat \<times> plan_node list) result"
  and flatten_entries :: "(bytes \<times> node) list \<Rightarrow> nat \<Rightarrow> plan_node list \<Rightarrow> ((bytes \<times> nat) list \<times> plan_node list) result" where
  "flatten (NFile mode data meta xattrs) parent plan =
     (if mode AND S_IFMT \<noteq> S_IFREG then Err (BadInode ''File mode missing S_IFREG'')
      else fill_in (length plan) parent mode meta xattrs (PFile data PlainFile) (plan @ [placeholder parent]))"
| "flatten (NDir mode entries meta xattrs) parent plan =
     (if mode AND S_IFMT \<noteq> S_IFDIR then Err (BadInode ''Dir mode missing S_IFDIR'')
      else bindR (flatten_entries entries (length plan) (plan @ [placeholder parent])) (\<lambda>(children, plan').
             fill_in (length plan) parent mode meta xattrs (PDir children) plan'))"
| "flatten (NSymlink mode target meta xattrs) parent plan =
     (if mode AND S_IFMT \<noteq> S_IFLNK then Err (BadInode ''Symlink mode missing S_IFLNK'')
      else if target = [] then Err (BadInode ''symlink target empty'')
      else fill_in (length plan) parent mode meta xattrs (PSymlink target) (plan @ [placeholder parent]))"
| "flatten (NDevice mode devt meta xattrs) parent plan =
     (if mode AND S_IFMT \<noteq> S_IFCHR \<and> mode AND S_IFMT \<noteq> S_IFBLK
      then Err (BadInode ''Device mode must be S_IFCHR or S_IFBLK'')
      else fill_in (length plan) parent mode meta xattrs (PDevice devt) (plan @ [placeholder parent]))"
| "flatten (NSpecial mode meta xattrs) parent plan =
     (if mode AND S_IFMT \<noteq> S_IFIFO \<and> mode AND S_IFMT \<noteq> S_IFSOCK
      then Err (BadInode ''Special mode must be S_IFIFO or S_IFSOCK'')
      else fill_in (length plan) parent mode meta xattrs PSpecial (plan @ [placeholder parent]))"
| "flatten (NChunkedFile mode cbits chunks use_indexed_format meta xattrs) parent plan =
     (if mode AND S_IFMT \<noteq> S_IFREG then Err (BadInode ''ChunkedFile mode missing S_IFREG'')
      else if EROFS_CHUNK_FORMAT_BLKBITS_MASK < ucast cbits then Err (BadInode ''chunk_bits > 31'')
      else fill_in (length plan) parent mode meta xattrs (PChunked chunks cbits use_indexed_format)
             (plan @ [placeholder parent]))"
| "flatten (NCompressedFile spec) parent plan =
     (if cf_mode spec AND S_IFMT \<noteq> S_IFREG then Err (BadInode ''CompressedFile mode missing S_IFREG'')
      else fill_in (length plan) parent (cf_mode spec) (cf_meta spec) (cf_xattrs spec)
             (PCompressed (planned_compressed spec)) (plan @ [placeholder parent]))"
| "flatten_entries [] parent plan = Ok ([], plan)"
| "flatten_entries ((name, child) # entries) parent plan =
     bindR (check_name name) (\<lambda>_.
     bindR (flatten child parent plan) (\<lambda>(child_idx, plan).
     bindR (flatten_entries entries parent plan) (\<lambda>(children, plan).
       Ok ((name, child_idx) # children, plan))))"
  by pat_completeness auto
termination
  by (relation "measure (case_sum (\<lambda>(n, _, _). size n) (\<lambda>(es, _, _). size_list (size_prod (\<lambda>_. 0) size) es))") auto

section \<open>Sizing one inode\<close>

record inode_body =
  ib_body_size :: u64
  ib_is_extended :: bool
  ib_xattr_bytes :: bytes
  ib_xattr_icount :: u16
  ib_inline_tail :: bytes
  ib_chunkmap_bytes :: u64
  ib_zmap_bytes :: u64

abbreviation len64 :: "'a list \<Rightarrow> u64" where "len64 xs \<equiv> word_of_nat (length xs)"

definition sat_sub :: "'a::len word \<Rightarrow> 'a word \<Rightarrow> 'a word" where
  "sat_sub a b = (if a < b then 0 else a - b)"

definition planned_size :: "plan_kind \<Rightarrow> u64 \<Rightarrow> u64 result" where
  "planned_size kind bs =
     (case kind of
        PFile data _ \<Rightarrow> Ok (len64 data)
      | PSymlink target \<Rightarrow> Ok (len64 target)
      | PDir _ \<Rightarrow> Ok 0
      | PDevice _ \<Rightarrow> Ok 0
      | PSpecial \<Rightarrow> Ok 0
      | PChunked chunks cbits _ \<Rightarrow> total_chunked_size chunks cbits bs
      | PCompressed cp \<Rightarrow> Ok (len64 (cp_src cp)))"

text \<open>A regular file that fits behind its inode is stored there.\<close>

definition plan_tail :: "plan_kind \<Rightarrow> u64 \<Rightarrow> u64 \<Rightarrow> bytes \<Rightarrow> plan_kind \<times> bytes" where
  "plan_tail kind bs body_size xattr_bytes =
     (case kind of
        PFile data layout \<Rightarrow>
          let tail_room = sat_sub bs (body_size + len64 xattr_bytes) in
          if data \<noteq> [] \<and> len64 data < bs \<and> len64 data \<le> tail_room then (PFile data InlineFile, data)
          else (PFile data layout, [])
      | _ \<Rightarrow> (kind, []))"

definition plan_chunkmap :: "plan_kind \<Rightarrow> u64" where
  "plan_chunkmap kind =
     (case kind of PChunked chunks _ indexed \<Rightarrow> len64 chunks * (if indexed then 8 else 4) | _ \<Rightarrow> 0)"

text \<open>The size of the index of a compressed file, of which only the end of its inode modulo 32 is known.\<close>

definition planned_index_bytes :: "compressed_index_format \<Rightarrow> u64 \<Rightarrow> u64 \<Rightarrow> u64 result" where
  "planned_index_bytes format nl body_end_mod_32 =
     (let ebase_mod_32 = (next_multiple_of body_end_mod_32 COMPACT_MAP_EBASE_ALIGN mod 32 + 8) mod 32 in
      case format of
        Legacy \<Rightarrow> Ok (nl * Z_EROFS_LCLUSTER_INDEX_SIZE)
      | Compacted2B \<Rightarrow>
          if 0xFFFFFFFF < nl then Err (BadInode ''compacted-2B totalidx overflow u32'')
          else Ok (compact_geom_bytes (compute_compact_geom ebase_mod_32 (ucast nl) True)))"

definition planned_header_bytes :: "compressed_index_format \<Rightarrow> u64 \<Rightarrow> u64" where
  "planned_header_bytes format body_end_mod_32 =
     (case format of
        Legacy \<Rightarrow> Z_EROFS_LEGACY_MAP_HEADER_SIZE
      | Compacted2B \<Rightarrow> Z_EROFS_COMPACT_MAP_HEADER_SIZE + (8 - body_end_mod_32 mod 8) mod 8)"

text \<open>The last cluster goes behind the index when it was asked for and everything fits one block.\<close>

definition inlined_size :: "bool \<Rightarrow> pcluster_plan list \<Rightarrow> u64 \<Rightarrow> u64 \<Rightarrow> u64" where
  "inlined_size requested pcs room_taken bs =
     (if requested \<and> pcs \<noteq> [] then
        let candidate_idata = len64 (pp_raw_compressed (last pcs)) in
        if candidate_idata \<le> 0xFFFF \<and> room_taken + candidate_idata \<le> bs then candidate_idata else 0
      else 0)"

definition steal_last :: "pcluster_plan list \<Rightarrow> pcluster_plan list" where
  "steal_last pcs = butlast pcs @ [(last pcs)\<lparr>pp_raw_compressed := [], pp_block_bytes := [], pp_block_count := 0\<rparr>]"

definition plan_compressed ::
    "encoders \<Rightarrow> compressed_plan \<Rightarrow> u64 \<Rightarrow> u32 option \<Rightarrow> u64 \<Rightarrow> u64 \<Rightarrow> (compressed_plan \<times> u64) result" where
  "plan_compressed E cp bs ovr body_size other_trailers =
     bindR (plan_compressed_pclusters_with_cfg E (cp_src cp) (cp_algo cp) (cp_lclusterbits cp) bs
              (cp_target_pcluster_blocks cp) ovr) (\<lambda>(pcs, lcl_entries, total_blocks).
     let body_end_mod_32 = (body_size + other_trailers) mod 32 in
     bindR (planned_index_bytes (cp_index_format cp) (len64 lcl_entries) body_end_mod_32) (\<lambda>index_bytes.
     let header_plus_pad = planned_header_bytes (cp_index_format cp) body_end_mod_32;
         isz = inlined_size (cp_ztailpacking_requested cp) pcs
                 (body_size + other_trailers + (header_plus_pad + index_bytes)) bs;
         cp = cp\<lparr>cp_lcluster_entries := lcl_entries\<rparr>;
         cp = (if 0 < isz
               then cp\<lparr>cp_pclusters := steal_last pcs, cp_ztailpacking_inline := Some (pp_raw_compressed (last pcs)),
                       cp_total_compressed_blocks := sat_sub total_blocks (pp_block_count (last pcs))\<rparr>
               else cp\<lparr>cp_pclusters := pcs, cp_total_compressed_blocks := total_blocks\<rparr>)
     in Ok (cp, header_plus_pad + index_bytes + isz)))"

definition plan_body :: "encoders \<Rightarrow> plan_node \<Rightarrow> u64 \<Rightarrow> u32 option \<Rightarrow> (plan_node \<times> inode_body) result" where
  "plan_body E n bs ovr =
     bindR (encode_inline_xattrs (pn_xattrs n)) (\<lambda>(xattr_bytes, xattr_icount).
     bindR (planned_size (pn_kind n) bs) (\<lambda>fsize.
     let is_extended = needs_extended fsize (pn_meta n);
         body_size = inode_body_size is_extended;
         (kind, inline_tail) = plan_tail (pn_kind n) bs body_size xattr_bytes;
         chunkmap_bytes = plan_chunkmap kind
     in bindR (case kind of
                 PCompressed cp \<Rightarrow>
                   bindR (plan_compressed E cp bs ovr body_size (len64 xattr_bytes)) (\<lambda>(cp, zmap_bytes).
                     Ok (PCompressed cp, zmap_bytes))
               | _ \<Rightarrow> Ok (kind, 0)) (\<lambda>(kind, zmap_bytes).
          Ok (n\<lparr>pn_kind := kind\<rparr>,
              \<lparr>ib_body_size = body_size, ib_is_extended = is_extended, ib_xattr_bytes = xattr_bytes,
               ib_xattr_icount = xattr_icount, ib_inline_tail = inline_tail, ib_chunkmap_bytes = chunkmap_bytes,
               ib_zmap_bytes = zmap_bytes\<rparr>))))"

section \<open>Placing the inodes\<close>

record meta_slot =
  ms_start :: u64
  ms_span :: u64

definition slot_nid :: "meta_slot \<Rightarrow> u64" where "slot_nid s = ms_start s div COMPACT_INODE_SIZE"
definition slot_end :: "meta_slot \<Rightarrow> u64" where "slot_end s = ms_start s + ms_span s"

definition body_span :: "inode_body \<Rightarrow> u64" where
  "body_span b = ib_body_size b + len64 (ib_xattr_bytes b) + len64 (ib_inline_tail b) + ib_chunkmap_bytes b + ib_zmap_bytes b"

definition place :: "inode_body \<Rightarrow> u64 \<Rightarrow> u64 \<Rightarrow> meta_slot" where
  "place body bs cursor =
     (let cursor = div_ceil cursor COMPACT_INODE_SIZE * COMPACT_INODE_SIZE;
          span = body_span body;
          trailers = span - ib_body_size body;
          cursor = (if 0 < trailers \<and> bs < cursor mod bs + span then div_ceil cursor bs * bs else cursor)
      in \<lparr>ms_start = cursor, ms_span = span\<rparr>)"

fun plan_slots :: "inode_body list \<Rightarrow> u64 \<Rightarrow> u64 \<Rightarrow> meta_slot list" where
  "plan_slots [] bs cursor = []"
| "plan_slots (body # bodies) bs cursor =
     (let slot = place body bs cursor in slot # plan_slots bodies bs (slot_end slot))"

definition plan_meta_layout :: "inode_body list \<Rightarrow> u64 \<Rightarrow> meta_slot list" where
  "plan_meta_layout bodies bs = plan_slots bodies bs 0"

section \<open>Encoding what the plan holds\<close>

definition file_type_byte :: "plan_node \<Rightarrow> u8" where
  "file_type_byte n =
     (case pn_kind n of
        PFile _ _ \<Rightarrow> FT_REG_FILE
      | PChunked _ _ _ \<Rightarrow> FT_REG_FILE
      | PCompressed _ \<Rightarrow> FT_REG_FILE
      | PDir _ \<Rightarrow> FT_DIR
      | PSymlink _ \<Rightarrow> FT_SYMLINK
      | PDevice _ \<Rightarrow> (let t = dirent_type_for_mode (pn_mode n) in if t = FT_CHRDEV \<or> t = FT_BLKDEV then t else FT_UNKNOWN)
      | PSpecial \<Rightarrow> (let t = dirent_type_for_mode (pn_mode n) in if t = FT_FIFO \<or> t = FT_SOCK then t else FT_UNKNOWN))"

definition child_entry :: "plan_node list \<Rightarrow> u64 list \<Rightarrow> bytes \<times> nat \<Rightarrow> dir_ent result" where
  "child_entry plan nids c =
     bindR (idx plan (snd c)) (\<lambda>child. bindR (idx nids (snd c)) (\<lambda>nid. Ok (fst c, nid, file_type_byte child)))"

definition encode_dir_blocks :: "nat \<Rightarrow> (bytes \<times> nat) list \<Rightarrow> plan_node list \<Rightarrow> u64 list \<Rightarrow> u64 \<Rightarrow> bytes list result" where
  "encode_dir_blocks parent_idx children plan nids bs =
     bindR (idx plan parent_idx) (\<lambda>parent.
     bindR (idx nids parent_idx) (\<lambda>parent_nid.
     bindR (idx nids (pn_parent_idx parent)) (\<lambda>parent_parent_nid.
     bindR (mapR (child_entry plan nids) children) (\<lambda>entries.
     bindR (pack_dir_blocks bs ([([0x2E], parent_nid, FT_DIR), ([0x2E, 0x2E], parent_parent_nid, FT_DIR)]
                                @ sort_key fst entries)) (\<lambda>out.
       if out = [] then Err (BadDirent ''dir has zero entries'') else Ok out)))))"

definition inode_layout_and_flags :: "plan_kind \<Rightarrow> data_layout \<times> u16" where
  "inode_layout_and_flags kind =
     (case kind of
        PFile _ PlainFile \<Rightarrow> (FlatPlain, 0)
      | PFile _ InlineFile \<Rightarrow> (FlatInline, 0)
      | PChunked _ _ _ \<Rightarrow> (ChunkBased, 0)
      | PCompressed cp \<Rightarrow>
          ((case cp_index_format cp of Legacy \<Rightarrow> CompressionLegacy | Compacted2B \<Rightarrow> Compression),
           ucast (cp_lclusterbits cp) AND 0x000F)
      | _ \<Rightarrow> (FlatPlain, 0))"

text \<open>\<open>map[&key]\<close> panics without the key.\<close>

definition map_at :: "('k \<rightharpoonup> 'v) \<Rightarrow> 'k \<Rightarrow> 'v result" where
  "map_at m k = (case m k of Some v \<Rightarrow> Ok v | None \<Rightarrow> Panic)"

definition inode_raw_u :: "plan_node \<Rightarrow> u64 \<Rightarrow> (u64 \<rightharpoonup> u64) \<Rightarrow> (u64 \<rightharpoonup> u64) \<Rightarrow> u32 result" where
  "inode_raw_u n nid dir_block_for_nid data_block_for_nid =
     (case pn_kind n of
        PFile _ PlainFile \<Rightarrow> Ok (case data_block_for_nid nid of Some b \<Rightarrow> ucast b | None \<Rightarrow> 0)
      | PFile _ InlineFile \<Rightarrow> Ok 0
      | PDir _ \<Rightarrow> bindR (map_at dir_block_for_nid nid) (\<lambda>b. Ok (ucast b))
      | PSymlink _ \<Rightarrow> bindR (map_at data_block_for_nid nid) (\<lambda>b. Ok (ucast b))
      | PDevice devt \<Rightarrow> Ok devt
      | PSpecial \<Rightarrow> Ok 0
      | PChunked _ cbits indexed \<Rightarrow>
          (let cf = ucast cbits AND EROFS_CHUNK_FORMAT_BLKBITS_MASK;
               cf = (if indexed then cf OR EROFS_CHUNK_FORMAT_INDEXES else cf)
           in Ok (ucast cf))
      | PCompressed cp \<Rightarrow> Ok (cp_total_compressed_blocks cp))"

fun count_subdirs :: "(bytes \<times> nat) list \<Rightarrow> plan_node list \<Rightarrow> u32 \<Rightarrow> u32 result" where
  "count_subdirs [] plan nlink = Ok nlink"
| "count_subdirs (c # children) plan nlink =
     bindR (idx plan (snd c)) (\<lambda>child.
       count_subdirs children plan (case pn_kind child of PDir _ \<Rightarrow> sat_add nlink 1 | _ \<Rightarrow> nlink))"

definition inode_nlink :: "plan_node \<Rightarrow> plan_node list \<Rightarrow> u32 result" where
  "inode_nlink n plan = (case pn_kind n of PDir children \<Rightarrow> count_subdirs children plan 2 | _ \<Rightarrow> Ok 1)"

definition stored_size :: "plan_kind \<Rightarrow> u64 \<Rightarrow> (u64 \<rightharpoonup> u64) \<Rightarrow> u64 \<Rightarrow> u64 result" where
  "stored_size kind nid dir_size_for_nid bs =
     (case kind of
        PDir _ \<Rightarrow> Ok (case dir_size_for_nid nid of Some s \<Rightarrow> s | None \<Rightarrow> 0)
      | PFile data _ \<Rightarrow> Ok (len64 data)
      | PSymlink target \<Rightarrow> Ok (len64 target)
      | PDevice _ \<Rightarrow> Ok 0
      | PSpecial \<Rightarrow> Ok 0
      | PChunked chunks cbits _ \<Rightarrow>
          (case total_chunked_size chunks cbits bs of Ok s \<Rightarrow> Ok s | Err _ \<Rightarrow> Ok 0 | Panic \<Rightarrow> Panic | Overrun \<Rightarrow> Overrun)
      | PCompressed cp \<Rightarrow> Ok (len64 (cp_src cp)))"

definition encode_inode ::
    "plan_node \<Rightarrow> u64 \<Rightarrow> inode_body \<Rightarrow> plan_node list \<Rightarrow> (u64 \<rightharpoonup> u64) \<Rightarrow> (u64 \<rightharpoonup> u64) \<Rightarrow> (u64 \<rightharpoonup> u64) \<Rightarrow> u64 \<Rightarrow> bytes result" where
  "encode_inode n nid body plan dir_size_for_nid dir_block_for_nid data_block_for_nid bs =
     (let (layout, flags) = inode_layout_and_flags (pn_kind n) in
      bindR (inode_raw_u n nid dir_block_for_nid data_block_for_nid) (\<lambda>raw_u.
      bindR (stored_size (pn_kind n) nid dir_size_for_nid bs) (\<lambda>fsize.
      bindR (inode_nlink n plan) (\<lambda>nlink.
        Ok (encode_inode_body (ib_is_extended body) layout flags (ib_xattr_icount body) (pn_mode n) raw_u fsize nlink nid
              (pn_meta n))))))"

section \<open>The tree in preorder\<close>

text \<open>
  What \<open>flatten\<close> computes, without the list it grows: the nodes in preorder, a child's index being its
  parent's, plus one, plus the sizes of the children before it.
\<close>

fun node_count :: "node \<Rightarrow> nat" where
  "node_count (NDir mode entries meta xattrs) = Suc (sum_list (map (\<lambda>e. node_count (snd e)) entries))"
| "node_count _ = 1"

lemma node_count_pos: "0 < node_count n"
  by (cases n) simp_all

fun child_indices :: "nat \<Rightarrow> (bytes \<times> node) list \<Rightarrow> (bytes \<times> nat) list" where
  "child_indices i [] = []"
| "child_indices i ((name, child) # entries) = (name, i) # child_indices (i + node_count child) entries"

definition node_entry :: "nat \<Rightarrow> u16 \<Rightarrow> node_meta \<Rightarrow> xattr_entry list \<Rightarrow> plan_kind \<Rightarrow> plan_node" where
  "node_entry parent mode meta xattrs kind =
     \<lparr>pn_parent_idx = parent, pn_mode = mode, pn_meta = meta, pn_xattrs = xattrs, pn_kind = kind\<rparr>"

function (sequential) preorder :: "nat \<Rightarrow> nat \<Rightarrow> node \<Rightarrow> plan_node list"
  and preorder_list :: "nat \<Rightarrow> nat \<Rightarrow> (bytes \<times> node) list \<Rightarrow> plan_node list" where
  "preorder i parent (NFile mode data meta xattrs) = [node_entry parent mode meta xattrs (PFile data PlainFile)]"
| "preorder i parent (NDir mode entries meta xattrs) =
     node_entry parent mode meta xattrs (PDir (child_indices (Suc i) entries)) # preorder_list (Suc i) i entries"
| "preorder i parent (NSymlink mode target meta xattrs) = [node_entry parent mode meta xattrs (PSymlink target)]"
| "preorder i parent (NDevice mode devt meta xattrs) = [node_entry parent mode meta xattrs (PDevice devt)]"
| "preorder i parent (NSpecial mode meta xattrs) = [node_entry parent mode meta xattrs PSpecial]"
| "preorder i parent (NChunkedFile mode cbits chunks indexed meta xattrs) =
     [node_entry parent mode meta xattrs (PChunked chunks cbits indexed)]"
| "preorder i parent (NCompressedFile spec) =
     [node_entry parent (cf_mode spec) (cf_meta spec) (cf_xattrs spec) (PCompressed (planned_compressed spec))]"
| "preorder_list i parent [] = []"
| "preorder_list i parent ((name, child) # entries) =
     preorder i parent child @ preorder_list (i + node_count child) parent entries"
  by pat_completeness auto
termination
  by (relation "measure (case_sum (\<lambda>(_, _, n). size n) (\<lambda>(_, _, es). size_list (size_prod (\<lambda>_. 0) size) es))") auto

text \<open>The trees the builder accepts.\<close>

fun valid_node :: "node \<Rightarrow> bool" where
  "valid_node (NFile mode data meta xattrs) = (mode AND S_IFMT = S_IFREG)"
| "valid_node (NDir mode entries meta xattrs) =
     (mode AND S_IFMT = S_IFDIR \<and> (\<forall>e\<in>set entries. check_name (fst e) = Ok () \<and> valid_node (snd e)))"
| "valid_node (NSymlink mode target meta xattrs) = (mode AND S_IFMT = S_IFLNK \<and> target \<noteq> [])"
| "valid_node (NDevice mode devt meta xattrs) = (mode AND S_IFMT = S_IFCHR \<or> mode AND S_IFMT = S_IFBLK)"
| "valid_node (NSpecial mode meta xattrs) = (mode AND S_IFMT = S_IFIFO \<or> mode AND S_IFMT = S_IFSOCK)"
| "valid_node (NChunkedFile mode cbits chunks indexed meta xattrs) = (mode AND S_IFMT = S_IFREG \<and> cbits \<le> 31)"
| "valid_node (NCompressedFile spec) = (cf_mode spec AND S_IFMT = S_IFREG)"

lemma length_preorder:
  "length (preorder i parent n) = node_count n"
  "length (preorder_list i parent es) = sum_list (map (\<lambda>e. node_count (snd e)) es)"
  by (induction i parent n and i parent es rule: preorder_preorder_list.induct) simp_all

lemma fill_in_last:
  "fill_in (length plan) parent mode meta xattrs kind (plan @ placeholder parent # rest) =
     Ok (length plan, plan @ node_entry parent mode meta xattrs kind # rest)"
  by (simp add: fill_in_def node_entry_def)

lemma check_name_cases: "check_name name = Ok () \<or> (\<exists>e. check_name name = Err e)"
  by (simp add: check_name_def)

lemma cbits_bound: "(EROFS_CHUNK_FORMAT_BLKBITS_MASK < ucast cbits) = (\<not> cbits \<le> (31 :: u8))"
  by (simp add: EROFS_CHUNK_FORMAT_BLKBITS_MASK_def word_less_nat_alt word_le_nat_alt unat_ucast_up not_le)

lemma flatten_is_preorder:
  "(if valid_node n then flatten n parent plan = Ok (length plan, plan @ preorder (length plan) parent n)
    else \<exists>e. flatten n parent plan = Err e)"
  "(if \<forall>e\<in>set es. check_name (fst e) = Ok () \<and> valid_node (snd e)
    then flatten_entries es parent plan = Ok (child_indices (length plan) es, plan @ preorder_list (length plan) parent es)
    else \<exists>e. flatten_entries es parent plan = Err e)"
proof (induction n parent plan and es parent plan rule: flatten_flatten_entries.induct)
  case (2 mode entries meta xattrs parent plan)
  let ?ok = "\<forall>e\<in>set entries. check_name (fst e) = Ok () \<and> valid_node (snd e)"
  note last = fill_in_last [of plan parent mode meta xattrs _ "preorder_list (Suc (length plan)) (length plan) entries"]
  show ?case
  proof (cases "mode AND S_IFMT = S_IFDIR")
    case dir: True
    then show ?thesis using 2 last by (cases ?ok) (simp_all only: flatten.simps valid_node.simps if_True if_False simp_thms
      preorder.simps bindR_simps prod.case length_append list.size append_assoc append_Cons append_Nil, simp_all, metis bindR_simps(2))
  qed simp
next
  case (9 name child entries parent plan)
  show ?case
  proof (cases "check_name name = Ok () \<and> valid_node child")
    case True
    then have "flatten child parent plan = Ok (length plan, plan @ preorder (length plan) parent child)"
      using "9.IH"(1) by simp
    with True "9.IH"(2) [OF _ this refl] show ?thesis by (auto simp: length_preorder add.assoc split: if_splits)
  next
    case False
    then show ?thesis using "9.IH"(1) check_name_cases [of name] by (auto split: if_splits)
  qed
qed (use fill_in_last [where rest = "[]"] in \<open>auto simp: cbits_bound\<close>)

text \<open>C39: flattening a tree numbers its nodes in preorder: it succeeds exactly on the trees whose modes, names and
  chunk sizes are in order, and then appends one entry per node, a directory before its children with
  the index of each, and the children of a directory one subtree after the other.\<close>

theorem flatten_preorder:
  "flatten root 0 [] = Ok (i, plan) \<longleftrightarrow> valid_node root \<and> i = 0 \<and> plan = preorder 0 0 root"
  using flatten_is_preorder(1) [of root 0 "[]"] by (auto split: if_splits)

section \<open>A directory\<close>

lemma check_name_ok: "check_name name = Ok () \<Longrightarrow> name_ok name"
  by (auto simp: check_name_def name_ok_def slash_def split: if_splits)

definition dir_listing :: "nat \<Rightarrow> (bytes \<times> nat) list \<Rightarrow> plan_node list \<Rightarrow> u64 list \<Rightarrow> dir_ent list" where
  "dir_listing i children plan nids =
     [([0x2E], nids ! i, FT_DIR), ([0x2E, 0x2E], nids ! pn_parent_idx (plan ! i), FT_DIR)]
     @ sort_key fst (map (\<lambda>(name, c). (name, nids ! c, file_type_byte (plan ! c))) children)"

lemma encode_dir_blocks_eq:
  assumes "i < length plan" "length nids = length plan" "pn_parent_idx (plan ! i) < length plan"
    and "\<forall>(name, c)\<in>set children. c < length plan"
  shows "encode_dir_blocks i children plan nids bs =
    bindR (pack_dir_blocks bs (dir_listing i children plan nids)) (\<lambda>out.
      if out = [] then Err (BadDirent ''dir has zero entries'') else Ok out)"
proof -
  have "mapR (child_entry plan nids) children = Ok (map (\<lambda>(name, c). (name, nids ! c, file_type_byte (plan ! c))) children)"
    using assms(2,4) by (intro mapR_all_Ok) (auto simp: child_entry_def)
  then show ?thesis using assms(1-3) by (simp add: encode_dir_blocks_def dir_listing_def)
qed

lemma names_size_listing:
  "names_size (dir_listing i children plan nids) = 3 + sum_list (map (length \<circ> fst) children)"
proof -
  let ?es = "map (\<lambda>(name, c). (name, nids ! c, file_type_byte (plan ! c))) children"
  have "sum_list (map (\<lambda>(name, _, _). length name) (sort_key fst ?es)) = sum_list (map (\<lambda>(name, _, _). length name) ?es)"
    unfolding sum_mset_sum_list [symmetric] mset_map mset_sort ..
  then show ?thesis by (simp add: dir_listing_def names_size_def comp_def case_prod_unfold)
qed

text \<open>The blocks written for a directory list, one after the other, as the two dots and then its children,
  each with the node id of its inode and the type byte of its kind, in the order of their names; none is
  lost, repeated or cut.\<close>

theorem encode_dir_blocks_lists:
  assumes plan: "i < length plan" "length nids = length plan" "pn_parent_idx (plan ! i) < length plan"
    and ch: "\<forall>(name, c)\<in>set children. c < length plan \<and> check_name name = Ok () \<and> 12 + length name \<le> unat bs"
    and bs: "512 \<le> unat bs" "unat bs \<le> 65536" and fits: "12 * length children + sum_list (map (length \<circ> fst) children) < 2 ^ 63"
  shows "\<exists>blocks. encode_dir_blocks i children plan nids bs = Ok blocks \<and> blocks \<noteq> [] \<and> (\<forall>b\<in>set blocks. length b = unat bs)
    \<and> bindR (mapR iter_block blocks) (\<lambda>ess. Ok (concat ess)) = Ok (map ent_of (dir_listing i children plan nids))
    \<and> sorted (map fst (drop 2 (dir_listing i children plan nids)))
    \<and> mset (drop 2 (dir_listing i children plan nids))
        = mset (map (\<lambda>(name, c). (name, nids ! c, file_type_byte (plan ! c))) children)"
proof -
  let ?all = "dir_listing i children plan nids"
  have dots: "name_ok [0x2E]" "name_ok [0x2E, 0x2E]" by (simp_all add: name_ok_def slash_def)
  have "\<forall>e\<in>set ?all. name_ok (fst e) \<and> 12 + length (fst e) \<le> unat bs"
    using ch bs(1) dots check_name_ok by (auto simp: dir_listing_def)
  moreover have "12 * length ?all + names_size ?all < 2 ^ 64"
    using fits by (simp add: names_size_listing) (simp add: dir_listing_def)
  ultimately obtain blocks where b: "pack_dir_blocks bs ?all = Ok blocks" "\<forall>b\<in>set blocks. length b = unat bs"
    "bindR (mapR iter_block blocks) (\<lambda>ess. Ok (concat ess)) = Ok (map ent_of ?all)"
    using pack_dir_blocks_lists [of ?all bs] bs(2) by blast
  have ne: "blocks \<noteq> []" using b(3) by (auto simp: dir_listing_def)
  have idx: "\<forall>(name, c)\<in>set children. c < length plan" using ch by auto
  have "encode_dir_blocks i children plan nids bs = Ok blocks"
    using b(1) ne by (simp add: encode_dir_blocks_eq [OF plan idx])
  moreover have "sorted (map fst (drop 2 ?all))"
    "mset (drop 2 ?all) = mset (map (\<lambda>(name, c). (name, nids ! c, file_type_byte (plan ! c))) children)"
    by (simp_all add: dir_listing_def)
  ultimately show ?thesis using b(2,3) ne by blast
qed

theorem encode_dir_blocks_lists_witness:
  "\<exists>blocks. encode_dir_blocks 0 [([0x62], 2), ([0x61], 1)]
       [node_entry 0 0x41ED node_meta_default [] (PDir [([0x62], 2), ([0x61], 1)]),
        node_entry 0 0x81A4 node_meta_default [] (PFile [1] InlineFile),
        node_entry 0 0x41ED node_meta_default [] (PDir [])] [0, 1, 3] 512 = Ok blocks
     \<and> bindR (mapR iter_block blocks) (\<lambda>ess. Ok (map de_name (concat ess))) = Ok [[0x2E], [0x2E, 0x2E], [0x61], [0x62]]"
proof -
  let ?plan = "[node_entry 0 0x41ED node_meta_default [] (PDir [([0x62], 2), ([0x61], 1)]),
        node_entry 0 0x81A4 node_meta_default [] (PFile [1] InlineFile),
        node_entry 0 0x41ED node_meta_default [] (PDir [])]"
  obtain blocks where b: "encode_dir_blocks 0 [([0x62], 2), ([0x61], 1)] ?plan [0, 1, 3] 512 = Ok blocks"
    "bindR (mapR iter_block blocks) (\<lambda>ess. Ok (concat ess)) = Ok (map ent_of (dir_listing 0 [([0x62], 2), ([0x61], 1)] ?plan [0, 1, 3]))"
    using encode_dir_blocks_lists [of 0 ?plan "[0, 1, 3]" "[([0x62], 2), ([0x61], 1)]" 512]
    by (auto simp: node_entry_def check_name_def)
  then show ?thesis by (auto simp: dir_listing_def ent_of_def)
qed

end
