(* ===== verification/MetaLayout.thy ===== *)
theory MetaLayout
  imports Builder
begin

text \<open>
  Where the builder puts the inodes (\<open>plan_meta_layout\<close>) and how large it takes them to be (\<open>plan_body\<close>):
  slots are aligned, apart from one another and inside a block where the format asks for it, and the
  trailers the emission writes have the sizes that were planned.
\<close>

section \<open>Slots\<close>

definition ceil_to :: "nat \<Rightarrow> nat \<Rightarrow> nat" where
  "ceil_to m c = (c + m - 1) div m * m"

lemma ceil_to_bounds:
  assumes "0 < m"
  shows "c \<le> ceil_to m c" "ceil_to m c < c + m" "m dvd ceil_to m c"
proof -
  have "c + m - 1 = (c + m - 1) div m * m + (c + m - 1) mod m" by simp
  moreover have "(c + m - 1) mod m < m" using assms by simp
  ultimately show "c \<le> ceil_to m c" "ceil_to m c < c + m" using assms unfolding ceil_to_def by linarith+
  show "m dvd ceil_to m c" by (simp add: ceil_to_def)
qed

lemma unat_ceil_mult:
  assumes "b \<noteq> 0" "unat c + unat b < 2 ^ 64"
  shows "unat (div_ceil c b * b) = ceil_to (unat b) (unat c)"
proof -
  have "0 < unat b" using assms(1) by (simp add: unat_gt_0)
  then have "ceil_to (unat b) (unat c) < 2 ^ 64" using ceil_to_bounds(2) [of "unat b" "unat c"] assms(2) by simp
  then show ?thesis using assms(1) by (subst unat_mult_no_wrap) (simp_all add: unat_div_ceil ceil_to_def)
qed

text \<open>The bytes of an inode and of everything behind it, and how far they move the cursor at most.\<close>

definition trailer_len :: "inode_body \<Rightarrow> nat" where
  "trailer_len b = length (ib_xattr_bytes b) + length (ib_inline_tail b) + unat (ib_chunkmap_bytes b) + unat (ib_zmap_bytes b)"

definition span_len :: "inode_body \<Rightarrow> nat" where
  "span_len b = unat (ib_body_size b) + trailer_len b"

definition room :: "inode_body list \<Rightarrow> nat \<Rightarrow> nat" where
  "room bodies bs = sum_list (map (\<lambda>b. span_len b + 32 + bs) bodies)"

lemma unat_body_span:
  assumes "span_len b < 2 ^ 64"
  shows "unat (body_span b) = span_len b" "unat (body_span b - ib_body_size b) = trailer_len b"
proof -
  have l: "unat (len64 (ib_xattr_bytes b)) = length (ib_xattr_bytes b)" "unat (len64 (ib_inline_tail b)) = length (ib_inline_tail b)"
    using assms by (simp_all add: span_len_def trailer_len_def unat_of_nat)
  show s: "unat (body_span b) = span_len b"
    using assms unfolding body_span_def span_len_def trailer_len_def by (simp add: unat_word_ariths l)
  then have "ib_body_size b \<le> body_span b" by (simp add: word_le_nat_alt span_len_def)
  then show "unat (body_span b - ib_body_size b) = trailer_len b" by (simp add: unat_sub_no_wrap s span_len_def)
qed

text \<open>A slot for \<open>b\<close> from position \<open>c\<close> on: aligned, and in one block when it fits one.\<close>

definition slot_ok :: "nat \<Rightarrow> inode_body \<Rightarrow> meta_slot \<Rightarrow> nat \<Rightarrow> bool" where
  "slot_ok bs b s c =
     (c \<le> unat (ms_start s) \<and> unat (ms_start s) < c + 32 + bs \<and> unat (ms_span s) = span_len b
      \<and> 32 dvd unat (ms_start s) \<and> unat (slot_end s) = unat (ms_start s) + span_len b
      \<and> (0 < trailer_len b \<longrightarrow> span_len b \<le> bs \<longrightarrow> unat (ms_start s) mod bs + span_len b \<le> bs))"

lemma place_ok:
  assumes bs: "0 < unat bs" "32 dvd unat bs" and fit: "unat cursor + span_len b + 32 + unat bs < 2 ^ 64"
  shows "slot_ok (unat bs) b (place b bs cursor) (unat cursor)"
proof -
  define c1 where "c1 = div_ceil cursor COMPACT_INODE_SIZE * COMPACT_INODE_SIZE"
  have sz: "COMPACT_INODE_SIZE = 32" by (simp add: inode_consts)
  have u1: "unat c1 = ceil_to 32 (unat cursor)" using fit unat_ceil_mult [of 32 cursor] by (simp add: c1_def sz)
  have b1: "unat cursor \<le> unat c1" "unat c1 < unat cursor + 32" "32 dvd unat c1"
    using ceil_to_bounds [of 32 "unat cursor"] by (simp_all add: u1)
  have span: "unat (body_span b) = span_len b" "unat (body_span b - ib_body_size b) = trailer_len b"
    using unat_body_span [of b] fit by simp_all
  have nz: "bs \<noteq> 0" using bs(1) by auto
  define c2 where "c2 = (if 0 < body_span b - ib_body_size b \<and> bs < c1 mod bs + body_span b then div_ceil c1 bs * bs else c1)"
  have pl: "place b bs cursor = \<lparr>ms_start = c2, ms_span = body_span b\<rparr>"
    by (simp add: place_def Let_def c1_def c2_def)
  have "unat (c1 mod bs) < unat bs" using bs(1) by (simp add: unat_mod)
  then have md: "unat (c1 mod bs + body_span b) = unat c1 mod unat bs + span_len b"
    using fit by (subst unat_add_no_wrap) (simp_all add: span unat_mod)
  have u2: "unat c2 = (if 0 < trailer_len b \<and> unat bs < unat c1 mod unat bs + span_len b then ceil_to (unat bs) (unat c1) else unat c1)"
    using unat_ceil_mult [of bs c1] nz fit b1(2) by (simp add: c2_def word_less_nat_alt md span(2))
  note cb = ceil_to_bounds [OF bs(1), of "unat c1"]
  have start: "unat cursor \<le> unat c2" "unat c2 < unat cursor + 32 + unat bs" "32 dvd unat c2"
    using b1 cb dvd_trans [OF bs(2) cb(3)] by (auto simp: u2)
  have blk: "unat c2 mod unat bs + span_len b \<le> unat bs" if "0 < trailer_len b" "span_len b \<le> unat bs"
    using that cb(3) by (cases "unat bs < unat c1 mod unat bs + span_len b") (simp_all add: u2)
  have "unat (c2 + body_span b) = unat c2 + span_len b" using start(2) fit by (subst unat_add_no_wrap) (simp_all add: span)
  then show ?thesis using start blk by (simp add: slot_ok_def pl slot_end_def span)
qed

text \<open>The slots of a list of bodies, one after the other.\<close>

definition slots_ok :: "nat \<Rightarrow> inode_body list \<Rightarrow> meta_slot list \<Rightarrow> nat \<Rightarrow> bool" where
  "slots_ok bs bodies slots c =
     (length slots = length bodies
      \<and> (\<forall>i<length slots. slot_ok bs (bodies ! i) (slots ! i) (if i = 0 then c else unat (slot_end (slots ! (i - 1))))))"

lemma plan_slots_ok:
  assumes bs: "0 < unat bs" "32 dvd unat bs"
  shows "unat cursor + room bodies (unat bs) < 2 ^ 64 \<Longrightarrow> slots_ok (unat bs) bodies (plan_slots bodies bs cursor) (unat cursor)"
proof (induction bodies arbitrary: cursor)
  case (Cons b bodies)
  let ?s = "place b bs cursor"
  have s: "slot_ok (unat bs) b ?s (unat cursor)" by (rule place_ok [OF bs]) (use Cons.prems in \<open>simp add: room_def\<close>)
  then have "unat (slot_end ?s) < unat cursor + 32 + unat bs + span_len b" by (simp add: slot_ok_def)
  then have "slots_ok (unat bs) bodies (plan_slots bodies bs (slot_end ?s)) (unat (slot_end ?s))"
    by (intro Cons.IH) (use Cons.prems in \<open>simp add: room_def\<close>)
  note ih = this [unfolded slots_ok_def]
  have "slot_ok (unat bs) ((b # bodies) ! i) (plan_slots (b # bodies) bs cursor ! i)
      (if i = 0 then unat cursor else unat (slot_end (plan_slots (b # bodies) bs cursor ! (i - 1))))"
    if "i < Suc (length bodies)" for i
  proof (cases i)
    case (Suc k)
    then show ?thesis using conjunct2 [OF ih, rule_format, of k] conjunct1 [OF ih] that
      by (cases k) (simp_all add: Let_def)
  qed (use s in \<open>simp add: Let_def\<close>)
  moreover have "length (plan_slots (b # bodies) bs cursor) = Suc (length bodies)" using ih by (simp add: Let_def)
  ultimately show ?case by (simp add: slots_ok_def del: plan_slots.simps)
qed (simp add: slots_ok_def)

lemma slots_apart:
  assumes "slots_ok bs bodies slots c" "i < j" "j < length slots"
  shows "unat (slot_end (slots ! i)) \<le> unat (ms_start (slots ! j))"
  using assms(2,3)
proof (induction j)
  case (Suc j)
  have s: "slot_ok bs (bodies ! Suc j) (slots ! Suc j) (unat (slot_end (slots ! j)))"
    "slot_ok bs (bodies ! j) (slots ! j) (if j = 0 then c else unat (slot_end (slots ! (j - 1))))"
    using assms(1) Suc.prems(2) by (auto simp: slots_ok_def)
  then have "unat (slot_end (slots ! j)) \<le> unat (ms_start (slots ! Suc j))" "unat (ms_start (slots ! j)) \<le> unat (slot_end (slots ! j))"
    by (simp_all add: slot_ok_def)
  then show ?case using Suc by (cases "i = j") auto
qed simp

lemma slot_nid_start:
  assumes "32 dvd unat (ms_start s)"
  shows "slot_nid s * 32 = ms_start s"
proof -
  have "unat (slot_nid s * 32) = unat (ms_start s)"
    using assms unsigned_less [of "ms_start s", where 'a = nat]
    by (subst unat_mult_no_wrap) (simp_all add: slot_nid_def inode_consts unat_div)
  then show ?thesis by (simp add: word_unat_eq_iff)
qed

text \<open>C40: the builder puts the inodes apart from one another: a slot starts on a multiple of 32, so that the node
  id written for it names its very address; it is as long as the inode with everything behind it; slots
  follow one another without overlap; and an inode with something behind it that fits a block lies in one.\<close>

theorem meta_layout_sound:
  assumes "bs = 2 ^ k" "9 \<le> k" "k \<le> 16" "room bodies (unat bs) < 2 ^ 64"
  defines "slots \<equiv> plan_meta_layout bodies bs"
  shows "length slots = length bodies \<and>
    (\<forall>i<length slots.
       slot_nid (slots ! i) * 32 = ms_start (slots ! i)
       \<and> unat (slot_end (slots ! i)) = unat (ms_start (slots ! i)) + span_len (bodies ! i)
       \<and> (\<forall>j<i. unat (slot_end (slots ! j)) \<le> unat (ms_start (slots ! i)))
       \<and> (0 < trailer_len (bodies ! i) \<longrightarrow> span_len (bodies ! i) \<le> unat bs \<longrightarrow>
            unat (ms_start (slots ! i)) div unat bs = (unat (slot_end (slots ! i)) - 1) div unat bs))"
proof -
  have u: "unat bs = 2 ^ k" using assms(1,3) by (simp add: unat_power2)
  have "(2 :: nat) ^ 5 dvd 2 ^ k" using assms(2) by (intro le_imp_power_dvd) simp
  then have bs: "0 < unat bs" "32 dvd unat bs" by (simp_all add: u)
  have ok: "slots_ok (unat bs) bodies slots 0"
    using plan_slots_ok [OF bs, of 0 bodies] assms(4) by (simp add: slots_def plan_meta_layout_def)
  have "unat (ms_start (slots ! i)) div unat bs = (unat (slot_end (slots ! i)) - 1) div unat bs"
    if i: "i < length slots" "0 < trailer_len (bodies ! i)" "span_len (bodies ! i) \<le> unat bs" for i
  proof -
    let ?a = "unat (ms_start (slots ! i))" and ?n = "span_len (bodies ! i)"
    have s: "?a mod unat bs + ?n \<le> unat bs" "unat (slot_end (slots ! i)) = ?a + ?n"
      using ok i by (auto simp: slots_ok_def slot_ok_def)
    have pos: "0 < ?n" using i(2) by (simp add: span_len_def)
    have "?a + ?n - 1 = ?a div unat bs * unat bs + (?a mod unat bs + ?n - 1)" using pos by simp
    also have "\<dots> div unat bs = ?a div unat bs"
      using s(1) pos bs(1) by (subst div_mult_self3) simp_all
    finally show ?thesis by (simp add: s(2))
  qed
  moreover have "slot_nid (slots ! i) * 32 = ms_start (slots ! i)" if "i < length slots" for i
    using ok that by (intro slot_nid_start) (auto simp: slots_ok_def slot_ok_def)
  ultimately show ?thesis
    using ok slots_apart [OF ok] by (auto simp: slots_ok_def slot_ok_def)
qed

section \<open>The sizes of the trailers\<close>

text \<open>What the trailer of a compressed file takes from its plan.\<close>

definition index_of_plan :: "compressed_plan \<Rightarrow> compressed_index" where
  "index_of_plan cp = \<lparr>ci_algo = cp_algo cp, ci_lclusterbits = cp_lclusterbits cp, ci_entries = cp_lcluster_entries cp,
     ci_format = cp_index_format cp, ci_inline = cp_ztailpacking_inline cp\<rparr>"

lemma length_legacy_entry: "legacy_entry addrs x = Ok e \<Longrightarrow> length e = 8"
  by (auto simp: legacy_entry_def encode_lcluster_index_def split: if_splits)

lemma length_legacy_trailer:
  assumes "legacy_trailer ci addrs = Ok tr"
  shows "length tr = 16 + 8 * length (ci_entries ci) + length (inline_bytes ci)"
proof -
  from assms obtain es where es: "mapR (legacy_entry addrs) (ci_entries ci) = Ok es"
    by (auto simp: legacy_trailer_def Let_def)
  have "length e = 8" if "e \<in> set es" for e
    using es that length_legacy_entry by (fastforce simp: mapR_eq_Ok in_set_conv_nth list_all2_conv_all_nth)
  then have "length (concat es) = 8 * length es" by (induction es) auto
  with assms legacy_trailer_is [OF es] mapR_length [OF es] show ?thesis by auto
qed

lemma length_index_of: "length (index_of lobits g es) = unat (compact_geom_bytes g)"
  by (simp add: index_of_def Let_def length_region_of shapes unat_compact_geom_bytes)

lemma length_compact_trailer:
  assumes "compact_trailer ci addrs bend b = Ok tr" "length (ci_entries ci) < 2 ^ 32"
  shows "length tr = 8 + unat ((8 - bend mod 8) mod 8) + unat (compact_geom_bytes (geom_of ci bend)) + length (inline_bytes ci)"
proof -
  from assms(1) obtain es where es: "mapR (compact_entry_of addrs) (ci_entries ci) = Ok es"
    by (auto simp: compact_trailer_def Let_def)
  show ?thesis
    using compact_trailer_is [OF es refl _ refl, of bend b] assms mapR_length [OF es] by (simp add: length_index_of)
qed

text \<open>The geometry needs the place of the index modulo 32 only.\<close>

lemma compute_geom_mod: "e mod 32 = e' mod 32 \<Longrightarrow> compute_compact_geom e n b = compute_compact_geom e' n b"
  by (simp add: compute_compact_geom_def)

lemma unat_add_mod: "2 ^ k dvd (2 :: nat) ^ LENGTH('a) \<Longrightarrow> unat (a + b) mod 2 ^ k = (unat a + unat (b :: 'a::len word)) mod 2 ^ k"
  by (simp add: unat_word_ariths mod_mod_cancel)

lemma mod_32_idem: "x mod 32 mod 32 = (x mod 32 :: u64)"
  by (simp add: word_unat_eq_iff unat_mod)

lemma index_place_mod:
  fixes a b :: u64
  assumes "a mod 32 = b mod 32"
  shows "a mod 8 = b mod 8" "(next_multiple_of a 8 + 8) mod 32 = (next_multiple_of b 8 mod 32 + 8) mod 32"
proof -
  have eq: "unat a mod 32 = unat b mod 32" using arg_cong [OF assms, of unat] by (simp add: unat_mod)
  then have "unat a mod 8 = unat b mod 8" using mod_mod_cancel [of 8 32 "unat a"] mod_mod_cancel [of 8 32 "unat b"] by simp
  then show m8: "a mod 8 = b mod 8" by (simp add: word_unat_eq_iff unat_mod)
  have add: "unat (x + y) mod 32 = (unat x + unat y) mod 32" for x y :: u64 using unat_add_mod [of 5 x y] by simp
  have "unat (next_multiple_of a 8) mod 32 = unat (next_multiple_of b 8) mod 32"
    unfolding next_multiple_8 add m8 using eq by (metis mod_add_left_eq)
  then show "(next_multiple_of a 8 + 8) mod 32 = (next_multiple_of b 8 mod 32 + 8) mod 32"
    by (simp add: word_unat_eq_iff unat_mod add mod_add_left_eq) (metis mod_add_left_eq)
qed

text \<open>The place of the last cluster.\<close>

lemma inlined_size_bounds:
  assumes "pcs \<noteq> [] \<Longrightarrow> length (pp_raw_compressed (last pcs)) < 2 ^ 64" "isz = inlined_size req pcs taken bs"
  shows "unat isz < 2 ^ 16" "0 < isz \<Longrightarrow> pcs \<noteq> [] \<and> unat isz = length (pp_raw_compressed (last pcs))"
  using assms by (auto simp: inlined_size_def Let_def unat_of_nat word_le_nat_alt)

text \<open>With an address for each cluster the index can be written.\<close>

lemma legacy_entries_exist:
  assumes "length pcs \<le> length addrs" "length pcs < 2 ^ 32"
  shows "\<exists>es. mapR (legacy_entry addrs) (index_runs pcs) = Ok es"
proof -
  have "legacy_entry addrs e = Ok (case legacy_entry addrs e of Ok b \<Rightarrow> b | _ \<Rightarrow> [])" if "e \<in> set (index_runs pcs)" for e
  proof -
    from that obtain j where "j < length pcs" "e \<in> set (index_run (pp_cluster_type (pcs ! j)) j (unat (pp_n_lclusters (pcs ! j))))"
      by (auto simp: index_runs_def)
    then have "unat (li_pcluster_idx e) < length addrs" using assms by (auto simp: index_run_def unat_of_nat)
    then show ?thesis by (simp add: legacy_entry_def)
  qed
  then show ?thesis by (intro exI) (rule mapR_all_Ok)
qed

lemma plan_compressed_cases:
  assumes "plan_compressed E cp bs ovr body_size other = Ok (cp', z)"
  obtains pcs entries blocks index_bytes isz where
    "plan_compressed_pclusters_with_cfg E (cp_src cp) (cp_algo cp) (cp_lclusterbits cp) bs (cp_target_pcluster_blocks cp) ovr
       = Ok (pcs, entries, blocks)"
    "planned_index_bytes (cp_index_format cp) (len64 entries) ((body_size + other) mod 32) = Ok index_bytes"
    "isz = inlined_size (cp_ztailpacking_requested cp) pcs
       (body_size + other + (planned_header_bytes (cp_index_format cp) ((body_size + other) mod 32) + index_bytes)) bs"
    "z = planned_header_bytes (cp_index_format cp) ((body_size + other) mod 32) + index_bytes + isz"
    "cp_lcluster_entries cp' = entries" "cp_index_format cp' = cp_index_format cp"
    "cp_src cp' = cp_src cp" "cp_algo cp' = cp_algo cp" "cp_lclusterbits cp' = cp_lclusterbits cp"
    "if 0 < isz then cp_pclusters cp' = steal_last pcs \<and> cp_ztailpacking_inline cp' = Some (pp_raw_compressed (last pcs))
       \<and> cp_total_compressed_blocks cp' = sat_sub blocks (pp_block_count (last pcs))
     else cp_pclusters cp' = pcs \<and> cp_ztailpacking_inline cp' = cp_ztailpacking_inline cp
       \<and> cp_total_compressed_blocks cp' = blocks"
proof -
  from assms obtain pcs entries blocks index_bytes where
    a: "plan_compressed_pclusters_with_cfg E (cp_src cp) (cp_algo cp) (cp_lclusterbits cp) bs (cp_target_pcluster_blocks cp) ovr
       = Ok (pcs, entries, blocks)"
      "planned_index_bytes (cp_index_format cp) (len64 entries) ((body_size + other) mod 32) = Ok index_bytes"
    by (auto simp: plan_compressed_def Let_def)
  show thesis
    by (rule that [OF a refl]) (use assms in \<open>auto simp: plan_compressed_def Let_def a\<close>)
qed

lemma raw_bounded:
  assumes "plan_compressed_pclusters_with_cfg E src algo lcb bs target ovr = Ok (pcs, entries, blocks)"
    and bs: "512 \<le> unat bs" "unat bs \<le> 65536" and src: "length src < 2 ^ 40"
  shows "pcs \<noteq> [] \<Longrightarrow> length (pp_raw_compressed (last pcs)) < 2 ^ 64" "length entries * 512 < 2 ^ 40 + 512"
proof -
  let ?lcs = "unat bs * 2 ^ unat lcb"
  have c: "pclusters_ok E src algo ovr ?lcs bs (max target 1) pcs" "length entries = (length src + ?lcs - 1) div ?lcs"
    using collate_gives [OF assms] by (auto simp: collated_def)
  show "length (pp_raw_compressed (last pcs)) < 2 ^ 64" if "pcs \<noteq> []"
  proof -
    from that have "length pcs - 1 < length pcs" by simp
    with c(1) that have "\<exists>b. pad_pcluster_block (pp_raw_compressed (last pcs)) bs (max target 1) (pp_cluster_type (last pcs)) algo = Ok b"
      unfolding pclusters_ok_def pcluster_ok_def Let_def by (auto simp: last_conv_nth)
    then show ?thesis using pad_pcluster_block_fits by fastforce
  qed
  have "512 * 1 \<le> ?lcs" by (rule mult_le_mono [OF bs(1)]) simp
  then have lcs: "512 \<le> ?lcs" by simp
  define l where "l = ?lcs"
  have l: "512 \<le> l" using lcs by (simp add: l_def)
  show "length entries * 512 < 2 ^ 40 + 512"
  proof (cases "src = []")
    case True
    then show ?thesis using l c(2) by (simp add: l_def [symmetric])
  next
    case False
    then have "0 < length src" by simp
    then have e: "length src + l - 1 = l + (length src - 1)" by linarith
    have "(l + (length src - 1)) div l = Suc ((length src - 1) div l)" using l by (subst div_add_self1) simp_all
    then have n: "length entries = Suc ((length src - 1) div l)" using e c(2) unfolding l_def [symmetric] by (simp only:)
    have "(length src - 1) div l \<le> (length src - 1) div 512" using l by (intro div_le_mono2) simp_all
    then show ?thesis using src \<open>0 < length src\<close> n by linarith
  qed
qed

text \<open>The size the builder plans for the map and index of a compressed file, from nothing but the size of
  the inode and of its attributes, is the length of the trailer that is later written behind it, wherever
  the inode comes to lie: legacy or compacted index, with the alignment of its packs, and with the last
  cluster inlined or not. The check of the emission for it never fails.\<close>

theorem planned_trailer_size:
  assumes plan: "plan_compressed E cp bs ovr body_size other = Ok (cp', z)" and none: "cp_ztailpacking_inline cp = None"
    and bs: "512 \<le> unat bs" "unat bs \<le> 65536" and src: "length (cp_src cp) < 2 ^ 40"
    and at: "bend mod 32 = (body_size + other) mod 32"
    and tr: "encode_zmap_trailer (index_of_plan cp') addrs bend blkszbits = Ok tr"
  shows "length tr = unat z"
proof -
  from plan obtain pcs entries blocks ib isz where
    p: "plan_compressed_pclusters_with_cfg E (cp_src cp) (cp_algo cp) (cp_lclusterbits cp) bs (cp_target_pcluster_blocks cp) ovr
       = Ok (pcs, entries, blocks)"
    and ib: "planned_index_bytes (cp_index_format cp) (len64 entries) ((body_size + other) mod 32) = Ok ib"
    and isz: "isz = inlined_size (cp_ztailpacking_requested cp) pcs
       (body_size + other + (planned_header_bytes (cp_index_format cp) ((body_size + other) mod 32) + ib)) bs"
    and z: "z = planned_header_bytes (cp_index_format cp) ((body_size + other) mod 32) + ib + isz"
    and cp': "cp_lcluster_entries cp' = entries" "cp_index_format cp' = cp_index_format cp"
    and inl: "if 0 < isz then cp_pclusters cp' = steal_last pcs \<and> cp_ztailpacking_inline cp' = Some (pp_raw_compressed (last pcs))
         \<and> cp_total_compressed_blocks cp' = sat_sub blocks (pp_block_count (last pcs))
       else cp_pclusters cp' = pcs \<and> cp_ztailpacking_inline cp' = cp_ztailpacking_inline cp
         \<and> cp_total_compressed_blocks cp' = blocks"
    by (rule plan_compressed_cases)
  note raw = raw_bounded [OF p bs src]
  have n: "length entries * 512 < 2 ^ 40 + 512" by (rule raw(2))
  then have n32: "length entries < 2 ^ 32" "unat (len64 entries) = length entries" by (simp_all add: unat_of_nat)
  have i16: "unat isz < 2 ^ 16" "length (inline_bytes (index_of_plan cp')) = unat isz"
  proof -
    note b = inlined_size_bounds [OF raw(1) isz]
    show "unat isz < 2 ^ 16" by (rule b)
    show "length (inline_bytes (index_of_plan cp')) = unat isz"
      using b(2) inl none by (cases "0 < isz") (simp_all add: inline_bytes_def index_of_plan_def word_gt_0)
  qed
  define m where "m = (body_size + other) mod 32"
  have mm: "bend mod 32 = m mod 32" using at by (simp add: m_def mod_32_idem)
  note im = index_place_mod [OF mm]
  have ci: "ci_format (index_of_plan cp') = cp_index_format cp" "ci_entries (index_of_plan cp') = entries"
    by (simp_all add: index_of_plan_def cp')
  show ?thesis
  proof (cases "cp_index_format cp")
    case Legacy
    then have "z = 16 + len64 entries * 8 + isz" using ib z
      by (auto simp: planned_index_bytes_def planned_header_bytes_def Let_def Z_EROFS_LEGACY_MAP_HEADER_SIZE_def Z_EROFS_LCLUSTER_INDEX_SIZE_def)
    then have "unat z = 16 + length entries * 8 + unat isz"
      using n i16(1) n32(2) by (simp add: unat_word_ariths)
    moreover have "legacy_trailer (index_of_plan cp') addrs = Ok tr" using tr Legacy ci(1) by (simp add: encode_zmap_trailer_def)
    ultimately show ?thesis using length_legacy_trailer i16(2) ci(2) by fastforce
  next
    case Compacted2B
    let ?g = "geom_of (index_of_plan cp') bend" and ?pad = "(8 - bend mod 8) mod 8 :: u64"
    have "(next_multiple_of bend COMPACT_MAP_EBASE_ALIGN + Z_EROFS_COMPACT_MAP_HEADER_SIZE) mod 32
        = ((next_multiple_of m COMPACT_MAP_EBASE_ALIGN mod 32 + 8) mod 32) mod 32"
      using im(2) by (simp add: mod_32_idem COMPACT_MAP_EBASE_ALIGN_def Z_EROFS_COMPACT_MAP_HEADER_SIZE_def)
    moreover have "ucast (len64 entries) = (word_of_nat (length entries) :: u32)"
      using n32 by (simp add: word_unat_eq_iff unsigned_ucast_eq take_bit_nat_eq_self unat_of_nat)
    ultimately have g: "compute_compact_geom ((next_multiple_of m COMPACT_MAP_EBASE_ALIGN mod 32 + 8) mod 32) (ucast (len64 entries)) True = ?g"
      unfolding geom_of_def ci(2) by (metis compute_geom_mod)
    have ibg: "ib = compact_geom_bytes ?g"
      using ib Compacted2B g by (auto simp: planned_index_bytes_def Let_def m_def split: if_splits)
    have hd: "planned_header_bytes (cp_index_format cp) m = 8 + ?pad"
      using Compacted2B im(1) by (simp add: planned_header_bytes_def Z_EROFS_COMPACT_MAP_HEADER_SIZE_def)
    have "unat ?pad < 8" by (simp add: unat_mod)
    moreover have "unat (compact_geom_bytes ?g) < 2 ^ 40"
      using packs_bound [of "unat (cg_initial ?g)"] packs_bound [of "unat (cg_middle ?g)"] packs_bound [of "unat (cg_tail ?g)"]
        unsigned_less [of "cg_initial ?g", where 'a = nat] unsigned_less [of "cg_middle ?g", where 'a = nat]
        unsigned_less [of "cg_tail ?g", where 'a = nat]
      unfolding unat_compact_geom_bytes by simp
    ultimately have "unat z = 8 + unat ?pad + unat (compact_geom_bytes ?g) + unat isz"
      using i16(1) unfolding z m_def [symmetric] hd ibg by (simp add: unat_word_ariths)
    moreover have "compact_trailer (index_of_plan cp') addrs bend blkszbits = Ok tr"
      using tr Compacted2B ci(1) by (simp add: encode_zmap_trailer_def)
    ultimately show ?thesis using length_compact_trailer n32(1) i16(2) ci(2) by fastforce
  qed
qed

section \<open>Witnesses\<close>

definition demo_body :: "nat \<Rightarrow> inode_body" where
  "demo_body n = \<lparr>ib_body_size = 32, ib_is_extended = False, ib_xattr_bytes = [], ib_xattr_icount = 0,
     ib_inline_tail = replicate n 7, ib_chunkmap_bytes = 0, ib_zmap_bytes = 0\<rparr>"

theorem meta_layout_sound_witness:
  "\<exists>a b. plan_meta_layout [demo_body 300, demo_body 200] 512 = [a, b]
     \<and> unat (slot_end a) \<le> unat (ms_start b) \<and> slot_nid b * 32 = ms_start b
     \<and> unat (ms_start b) div 512 = (unat (slot_end b) - 1) div 512"
proof -
  let ?bs = "[demo_body 300, demo_body 200]"
  have len: "room ?bs (unat (512 :: u64)) < 2 ^ 64" "span_len (demo_body 200) = 232" "trailer_len (demo_body 200) = 200"
    by (simp_all add: room_def span_len_def trailer_len_def demo_body_def)
  note s = meta_layout_sound [of 512 9 ?bs, OF _ _ _ len(1)]
  obtain a b where ab: "plan_meta_layout ?bs 512 = [a, b]"
    by (simp add: plan_meta_layout_def Let_def)
  have "1 < length (plan_meta_layout ?bs 512)" by (simp add: ab)
  then show ?thesis using s ab len(2,3) by auto
qed

definition demo_cplan :: compressed_plan where
  "demo_cplan = \<lparr>cp_src = [1, 2, 3], cp_algo = AlgoLz4, cp_lclusterbits = 0, cp_pclusters = [], cp_lcluster_entries = [],
     cp_total_compressed_blocks = 0, cp_index_format = Legacy, cp_ztailpacking_requested = True,
     cp_ztailpacking_inline = None, cp_target_pcluster_blocks = 1\<rparr>"

definition demo_encoders :: encoders where
  "demo_encoders = \<lparr>enc_lz4 = take 2, enc_lzma = take 2, enc_deflate = take 2\<rparr>"

theorem planned_trailer_size_witness:
  "\<exists>cp' z tr. plan_compressed demo_encoders demo_cplan 512 None 32 0 = Ok (cp', z)
     \<and> encode_zmap_trailer (index_of_plan cp') [100] 1568 9 = Ok tr \<and> length tr = unat z"
proof -
  obtain pcs entries blocks where p:
    "plan_compressed_pclusters_with_cfg demo_encoders [1, 2, 3] AlgoLz4 0 512 1 None = Ok (pcs, entries, blocks)"
    using plan_succeeds [of 512 "[1, 2, 3]" 1 demo_encoders AlgoLz4 None] by auto
  then obtain cp' z where plan: "plan_compressed demo_encoders demo_cplan 512 None 32 0 = Ok (cp', z)"
    and cp': "cp_lcluster_entries cp' = entries" "cp_index_format cp' = Legacy"
    by (auto simp: plan_compressed_def demo_cplan_def planned_index_bytes_def Let_def)
  have c: "pclusters_ok demo_encoders [1, 2, 3] AlgoLz4 None 512 512 1 pcs" "entries = index_runs pcs" "length entries = 1"
    using collate_gives [OF p] by (auto simp: collated_def)
  have "length pcs \<le> 1"
  proof -
    have "\<forall>j<length pcs. 0 < unat (pp_n_lclusters (pcs ! j))" using c(1) by (simp add: pclusters_ok_def pcluster_ok_def Let_def)
    then show ?thesis using length_index_runs pclusters_le_lclusters [OF c(1)] c(2,3) by fastforce
  qed
  then obtain es where "mapR (legacy_entry [100]) entries = Ok es"
    using legacy_entries_exist [of pcs "[100]"] c(2) by auto
  then obtain tr where tr: "encode_zmap_trailer (index_of_plan cp') [100] 1568 9 = Ok tr"
    using cp' by (auto simp: encode_zmap_trailer_def index_of_plan_def legacy_trailer_def Let_def)
  have "length tr = unat z"
    by (rule planned_trailer_size [OF plan _ _ _ _ _ tr]) (simp_all add: demo_cplan_def)
  with plan tr show ?thesis by blast
qed

end
