(* ===== verification/ImageBuild.thy ===== *)
theory ImageBuild
  imports MetaLayout Superblock
begin

text \<open>
  \<open>build_image_with\<close> of \<open>mkfs.rs\<close>, pass by pass: flattening and sizing the nodes, placing the inodes, packing
  the directories, giving out data blocks, and writing the image. A \<open>BTreeMap\<close> that is only looked up is a
  map; the one that is walked is the list of its pairs in the order of its keys.
\<close>

record compr_cfgs_config =
  cc_lz4 :: "u16 option"
  cc_lzma :: "lzma_cfg option"
  cc_deflate :: "u8 option"

record build_options =
  bo_xattr_prefixes :: "xattr_long_prefix list"
  bo_compr_cfgs :: "compr_cfgs_config option"

definition build_options_default :: build_options where
  "build_options_default = \<lparr>bo_xattr_prefixes = [], bo_compr_cfgs = None\<rparr>"

definition SB_AREA_END :: u64 where
  "SB_AREA_END = EROFS_SUPER_OFFSET + word_of_nat EROFS_SUPER_BLOCK_SIZE"

section \<open>Pass 1\<close>

definition uses :: "compressed_algo \<Rightarrow> plan_node list \<Rightarrow> bool" where
  "uses algo plan = list_ex (\<lambda>n. case pn_kind n of PCompressed cp \<Rightarrow> cp_algo cp = algo | _ \<Rightarrow> False) plan"

definition or_else :: "'a option \<Rightarrow> 'a option \<Rightarrow> 'a option" where
  "or_else a b = (case a of Some x \<Rightarrow> Some x | None \<Rightarrow> b)"

definition lzma_dict_size_override :: "build_options \<Rightarrow> plan_node list \<Rightarrow> u32 option" where
  "lzma_dict_size_override options plan =
     or_else (map_option dict_size (Option.bind (bo_compr_cfgs options) cc_lzma))
       (if uses AlgoLzma plan then Some (dict_size lzma_cfg_default) else None)"

section \<open>Pass 3: directories\<close>

fun bt_insert :: "'k::linorder \<Rightarrow> 'v \<Rightarrow> ('k \<times> 'v) list \<Rightarrow> ('k \<times> 'v) list" where
  "bt_insert k v [] = [(k, v)]"
| "bt_insert k v ((k', v') # kvs) =
     (if k < k' then (k, v) # (k', v') # kvs
      else if k = k' then (k, v) # kvs
      else (k', v') # bt_insert k v kvs)"

record dir_layout =
  dl_blocks :: "(u64 \<times> bytes list) list"
  dl_block_for_nid :: "u64 \<rightharpoonup> u64"
  dl_size_for_nid :: "u64 \<rightharpoonup> u64"
  dl_next :: u64

definition lay_dir :: "plan_node list \<Rightarrow> u64 list \<Rightarrow> u64 \<Rightarrow> nat \<Rightarrow> dir_layout \<Rightarrow> dir_layout result" where
  "lay_dir plan nids bs i st =
     bindR (idx plan i) (\<lambda>n.
       case pn_kind n of
         PDir children \<Rightarrow>
           bindR (encode_dir_blocks i children plan nids bs) (\<lambda>blocks.
           bindR (idx nids i) (\<lambda>nid.
             Ok \<lparr>dl_blocks = bt_insert nid blocks (dl_blocks st), dl_block_for_nid = (dl_block_for_nid st)(nid \<mapsto> dl_next st),
                 dl_size_for_nid = (dl_size_for_nid st)(nid \<mapsto> len64 blocks * bs), dl_next = dl_next st + len64 blocks\<rparr>))
       | _ \<Rightarrow> Ok st)"

text \<open>A loop over the indices of the plan that carries a state.\<close>

fun foldR :: "(nat \<Rightarrow> 's \<Rightarrow> 's result) \<Rightarrow> nat list \<Rightarrow> 's \<Rightarrow> 's result" where
  "foldR f [] st = Ok st"
| "foldR f (i # is) st = bindR (f i st) (\<lambda>st. foldR f is st)"

section \<open>Pass 4: data blocks\<close>

record data_layout_state =
  da_block_for_nid :: "u64 \<rightharpoonup> u64"
  da_chunk_addrs :: "u64 \<rightharpoonup> u32 list"
  da_pcluster_addrs :: "u64 \<rightharpoonup> u32 list"
  da_any_compressed :: bool
  da_any_inline_tail :: bool
  da_next :: u64

definition too_far :: error where
  "too_far = BadSuperblock ''data block address > u32::MAX''"

fun chunk_addresses :: "bytes option list \<Rightarrow> u64 \<Rightarrow> u64 \<Rightarrow> (u32 list \<times> u64) result" where
  "chunk_addresses [] bs next = Ok ([], next)"
| "chunk_addresses (None # cs) bs next =
     bindR (chunk_addresses cs bs next) (\<lambda>(addrs, next'). Ok (EROFS_NULL_ADDR # addrs, next'))"
| "chunk_addresses (Some buf # cs) bs next =
     (if 0xFFFFFFFF < next then Err too_far
      else bindR (chunk_addresses cs bs (next + max (div_ceil (len64 buf) bs) 1)) (\<lambda>(addrs, next').
             Ok (ucast next # addrs, next')))"

fun pcluster_addresses :: "pcluster_plan list \<Rightarrow> u64 \<Rightarrow> (u32 list \<times> u64) result" where
  "pcluster_addresses [] next = Ok ([], next)"
| "pcluster_addresses (pc # pcs) next =
     (if 0xFFFFFFFF < next then Err too_far
      else bindR (pcluster_addresses pcs (next + ucast (pp_block_count pc))) (\<lambda>(addrs, next').
             Ok (ucast next # addrs, next')))"

definition lay_data :: "plan_node list \<Rightarrow> u64 list \<Rightarrow> u64 \<Rightarrow> nat \<Rightarrow> data_layout_state \<Rightarrow> data_layout_state result" where
  "lay_data plan nids bs i st =
     bindR (idx plan i) (\<lambda>n. bindR (idx nids i) (\<lambda>nid.
       case pn_kind n of
         PFile data PlainFile \<Rightarrow>
           if data = [] then Ok (st\<lparr>da_block_for_nid := (da_block_for_nid st)(nid \<mapsto> 0)\<rparr>)
           else Ok (st\<lparr>da_block_for_nid := (da_block_for_nid st)(nid \<mapsto> da_next st),
                       da_next := da_next st + div_ceil (len64 data) bs\<rparr>)
       | PFile data InlineFile \<Rightarrow> Ok (st\<lparr>da_block_for_nid := (da_block_for_nid st)(nid \<mapsto> 0)\<rparr>)
       | PSymlink target \<Rightarrow>
           if bs < len64 target then Err (BadInode ''symlink target longer than one block'')
           else Ok (st\<lparr>da_block_for_nid := (da_block_for_nid st)(nid \<mapsto> da_next st), da_next := da_next st + 1\<rparr>)
       | PChunked chunks _ _ \<Rightarrow>
           bindR (chunk_addresses chunks bs (da_next st)) (\<lambda>(addrs, next').
             Ok (st\<lparr>da_chunk_addrs := (da_chunk_addrs st)(nid \<mapsto> addrs), da_next := next'\<rparr>))
       | PCompressed cp \<Rightarrow>
           bindR (pcluster_addresses (cp_pclusters cp) (da_next st)) (\<lambda>(addrs, next').
             Ok (st\<lparr>da_pcluster_addrs := (da_pcluster_addrs st)(nid \<mapsto> addrs), da_next := next', da_any_compressed := True,
                    da_any_inline_tail := da_any_inline_tail st \<or> cp_ztailpacking_inline cp \<noteq> None\<rparr>))
       | _ \<Rightarrow> Ok st))"

section \<open>The configuration blob and the gap behind the superblock\<close>

definition largest_pcluster :: "plan_node list \<Rightarrow> u32" where
  "largest_pcluster plan =
     (let maxima = concat (map (\<lambda>n. case pn_kind n of
            PCompressed cp \<Rightarrow> if cp_pclusters cp = [] then [] else [Max (set (map pp_block_count (cp_pclusters cp)))]
          | _ \<Rightarrow> []) plan)
      in max (if maxima = [] then 1 else Max (set maxima)) 1)"

definition lz4_record :: "u16 option \<Rightarrow> plan_node list \<Rightarrow> (u16 \<times> bytes) result" where
  "lz4_record cfg plan =
     (case cfg of
        None \<Rightarrow> Ok (0, [])
      | Some max_distance \<Rightarrow>
          let max_pcluster_blks = largest_pcluster plan in
          if 0xFFFF < max_pcluster_blks then Err (BadInode ''pcluster too large for the LZ4 cfgs record'')
          else Ok (LZ4_BIT, to_le16 14 @ to_le16 max_distance @ to_le16 (ucast max_pcluster_blks) @ replicate 10 0))"

definition lzma_record :: "lzma_cfg option \<Rightarrow> u16 \<times> bytes" where
  "lzma_record cfg =
     (case cfg of None \<Rightarrow> (0, [])
      | Some lzma \<Rightarrow> (LZMA_BIT, to_le16 14 @ to_le32 (dict_size lzma) @ to_le16 0 @ replicate 8 0))"

definition deflate_record :: "u8 option \<Rightarrow> u16 \<times> bytes" where
  "deflate_record cfg =
     (case cfg of None \<Rightarrow> (0, [])
      | Some window_bits \<Rightarrow> (DEFLATE_BIT, to_le16 6 @ [window_bits] @ replicate 5 0))"

text \<open>The bits of \<open>u1\<close>, the records in canonical order, and whether any is there.\<close>

definition compr_cfgs_blob :: "build_options \<Rightarrow> plan_node list \<Rightarrow> (u16 \<times> bytes) result" where
  "compr_cfgs_blob options plan =
     (let cfg = bo_compr_cfgs options;
          lz4_cfg = Option.bind cfg cc_lz4;
          lzma_cfg = or_else (Option.bind cfg cc_lzma) (if uses AlgoLzma plan then Some lzma_cfg_default else None);
          deflate_cfg = or_else (Option.bind cfg cc_deflate) (if uses AlgoDeflate plan then Some 15 else None)
      in bindR (lz4_record lz4_cfg plan) (\<lambda>(b0, r0).
           let (b1, r1) = lzma_record lzma_cfg; (b2, r2) = deflate_record deflate_cfg
           in Ok (b0 OR b1 OR b2, r0 @ r1 @ r2)))"

definition place_cfgs :: "bytes \<Rightarrow> u64 \<Rightarrow> bytes \<Rightarrow> (bytes \<times> u64) result" where
  "place_cfgs blob meta_byte_base img =
     (if blob = [] then Ok (img, SB_AREA_END)
      else let stop = unat SB_AREA_END + length blob in
        if meta_byte_base < word_of_nat stop then Err (BadSuperblock ''COMPR_CFGS blob overflows pre-meta gap'')
        else bindR (put_at img (unat SB_AREA_END) blob) (\<lambda>img. Ok (img, word_of_nat stop)))"

definition place_prefixes :: "bytes \<Rightarrow> u64 \<Rightarrow> bytes \<times> u64 \<Rightarrow> (bytes \<times> u32) result" where
  "place_prefixes dict meta_byte_base st =
     (let (img, gap_cursor) = st in
      if dict = [] then Ok (img, 0)
      else let dict_byte_off = next_multiple_of gap_cursor XATTR_ENTRY_ALIGN in
        if 0xFFFFFFFF < dict_byte_off div 4 then Err (BadXattr ''xattr_prefix_start overflows u32'')
        else if meta_byte_base < word_of_nat (unat dict_byte_off + length dict)
        then Err (BadXattr ''xattr prefix dictionary overflows pre-meta gap'')
        else bindR (put_at img (unat dict_byte_off) dict) (\<lambda>img. Ok (img, ucast (dict_byte_off div 4))))"

section \<open>Pass 5: writing the image\<close>

text \<open>What the earlier passes have settled.\<close>

record image_plan =
  im_plan :: "plan_node list"
  im_bodies :: "inode_body list"
  im_slots :: "meta_slot list"
  im_nids :: "u64 list"
  im_dirs :: dir_layout
  im_data :: data_layout_state
  im_meta_blkaddr :: u32
  im_meta_byte_base :: u64

text \<open>One piece of an inode at the cursor, and the checks of the lengths that were planned.\<close>

definition emit_part :: "bytes \<Rightarrow> u64 \<Rightarrow> bytes \<times> u64 \<Rightarrow> (bytes \<times> u64) result" where
  "emit_part part meta_byte_base st =
     (let (img, meta_cursor) = st in
      if part = [] then Ok (img, meta_cursor)
      else bindR (put_at img (unat (meta_byte_base + meta_cursor)) part) (\<lambda>img.
             Ok (img, meta_cursor + len64 part)))"

definition chunkmap_of :: "plan_node \<Rightarrow> (u64 \<rightharpoonup> u32 list) \<Rightarrow> u64 \<Rightarrow> bytes result" where
  "chunkmap_of n chunk_addrs_for_nid nid =
     (case pn_kind n of
        PChunked _ _ indexed \<Rightarrow> bindR (map_at chunk_addrs_for_nid nid) (\<lambda>addrs. Ok (encode_chunkmap indexed addrs))
      | _ \<Rightarrow> Ok [])"

definition zmap_trailer_of :: "plan_node \<Rightarrow> (u64 \<rightharpoonup> u32 list) \<Rightarrow> u64 \<Rightarrow> u64 \<Rightarrow> u8 \<Rightarrow> bytes result" where
  "zmap_trailer_of n pcluster_addrs_for_nid nid bend blkszbits =
     (case pn_kind n of
        PCompressed cp \<Rightarrow>
          encode_zmap_trailer (index_of_plan cp)
            (case pcluster_addrs_for_nid nid of Some addrs \<Rightarrow> addrs | None \<Rightarrow> []) bend blkszbits
      | _ \<Rightarrow> Ok [])"

definition emit_sized :: "u64 \<Rightarrow> (u64 \<Rightarrow> bytes result) \<Rightarrow> string \<Rightarrow> u64 \<Rightarrow> bytes \<times> u64 \<Rightarrow> (bytes \<times> u64) result" where
  "emit_sized planned encode msg meta_byte_base st =
     (let (img, meta_cursor) = st in
      if 0 < planned then
        bindR (encode (meta_byte_base + meta_cursor)) (\<lambda>buf.
          if len64 buf \<noteq> planned then Err (BadInode msg)
          else bindR (put_at img (unat (meta_byte_base + meta_cursor)) buf) (\<lambda>img. Ok (img, meta_cursor + planned)))
      else Ok (img, meta_cursor))"

definition emit_inode :: "image_plan \<Rightarrow> u64 \<Rightarrow> u8 \<Rightarrow> nat \<Rightarrow> bytes \<Rightarrow> bytes result" where
  "emit_inode im bs blkszbits i img =
     (let body = im_bodies im ! i; slot = im_slots im ! i; nid = slot_nid slot; base = im_meta_byte_base im;
          dirs = im_dirs im; data = im_data im
      in bindR (idx (im_plan im) i) (\<lambda>n.
         bindR (encode_inode n nid body (im_plan im) (dl_size_for_nid dirs) (dl_block_for_nid dirs) (da_block_for_nid data) bs)
           (\<lambda>inode_buf.
         bindR (put_at img (unat (base + ms_start slot)) inode_buf) (\<lambda>img.
         bindR (emit_part (ib_xattr_bytes body) base (img, ms_start slot + ib_body_size body)) (\<lambda>st.
         bindR (emit_part (ib_inline_tail body) base st) (\<lambda>st.
         bindR (emit_sized (ib_chunkmap_bytes body) (\<lambda>_. chunkmap_of n (da_chunk_addrs data) nid)
                  ''emitted chunkmap length disagrees with the planned trailer size'' base st) (\<lambda>st.
         bindR (emit_sized (ib_zmap_bytes body) (\<lambda>bend. zmap_trailer_of n (da_pcluster_addrs data) nid bend blkszbits)
                  ''emitted zmap trailer length disagrees with the planned trailer size'' base st) (\<lambda>(img, meta_cursor).
           if meta_cursor \<noteq> slot_end slot then Err (BadInode ''inode emission did not fill its planned metadata span'')
           else Ok img))))))))"

fun emit_blocks :: "u64 \<Rightarrow> bytes list \<Rightarrow> u64 \<Rightarrow> bytes \<Rightarrow> bytes result" where
  "emit_blocks bs [] blk img = Ok img"
| "emit_blocks bs (buf # bufs) blk img =
     bindR (put_at img (unat (blk * bs)) buf) (\<lambda>img. emit_blocks bs bufs (blk + 1) img)"

fun emit_dirs :: "u64 \<Rightarrow> (u64 \<rightharpoonup> u64) \<Rightarrow> (u64 \<times> bytes list) list \<Rightarrow> bytes \<Rightarrow> bytes result" where
  "emit_dirs bs dir_block_for_nid [] img = Ok img"
| "emit_dirs bs dir_block_for_nid ((nid, blocks) # dirs) img =
     bindR (map_at dir_block_for_nid nid) (\<lambda>blk.
     bindR (emit_blocks bs blocks blk img) (\<lambda>img. emit_dirs bs dir_block_for_nid dirs img))"

fun emit_chunks :: "u64 \<Rightarrow> bytes option list \<Rightarrow> u32 list \<Rightarrow> nat \<Rightarrow> bytes \<Rightarrow> bytes result" where
  "emit_chunks bs [] addrs k img = Ok img"
| "emit_chunks bs (None # cs) addrs k img = emit_chunks bs cs addrs (Suc k) img"
| "emit_chunks bs (Some buf # cs) addrs k img =
     bindR (idx addrs k) (\<lambda>a. bindR (put_at img (unat (ucast a * bs)) buf) (\<lambda>img. emit_chunks bs cs addrs (Suc k) img))"

fun emit_pclusters :: "u64 \<Rightarrow> pcluster_plan list \<Rightarrow> u32 list \<Rightarrow> nat \<Rightarrow> bytes \<Rightarrow> bytes result" where
  "emit_pclusters bs [] addrs k img = Ok img"
| "emit_pclusters bs (pc # pcs) addrs k img =
     (if pp_block_count pc = 0 then emit_pclusters bs pcs addrs (Suc k) img
      else bindR (idx addrs k) (\<lambda>a. bindR (put_at img (unat (ucast a * bs)) (pp_block_bytes pc)) (\<lambda>img.
             emit_pclusters bs pcs addrs (Suc k) img)))"

definition emit_data :: "image_plan \<Rightarrow> u64 \<Rightarrow> nat \<Rightarrow> bytes \<Rightarrow> bytes result" where
  "emit_data im bs i img =
     bindR (idx (im_plan im) i) (\<lambda>n. bindR (idx (im_nids im) i) (\<lambda>nid.
       let block = da_block_for_nid (im_data im) in
       case pn_kind n of
         PFile data PlainFile \<Rightarrow>
           if data = [] then Ok img else bindR (map_at block nid) (\<lambda>blk. put_at img (unat (blk * bs)) data)
       | PFile data InlineFile \<Rightarrow> Ok img
       | PSymlink target \<Rightarrow> bindR (map_at block nid) (\<lambda>blk. put_at img (unat (blk * bs)) target)
       | PChunked chunks _ _ \<Rightarrow>
           bindR (map_at (da_chunk_addrs (im_data im)) nid) (\<lambda>addrs. emit_chunks bs chunks addrs 0 img)
       | PCompressed cp \<Rightarrow>
           bindR (map_at (da_pcluster_addrs (im_data im)) nid) (\<lambda>addrs. emit_pclusters bs (cp_pclusters cp) addrs 0 img)
       | _ \<Rightarrow> Ok img))"

section \<open>The whole builder\<close>

text \<open>Passes 1 to 4: everything that is settled before the first byte is written.\<close>

definition plan_image :: "encoders \<Rightarrow> node \<Rightarrow> u64 \<Rightarrow> build_options \<Rightarrow> (image_plan \<times> u64) result" where
  "plan_image E root bs options =
     bindR (flatten root 0 []) (\<lambda>(_, flat).
     let ovr = lzma_dict_size_override options flat in
     bindR (mapR (\<lambda>n. plan_body E n bs ovr) flat) (\<lambda>planned.
     let plan = map fst planned; bodies = map snd planned;
         meta_blkaddr = div_ceil SB_AREA_END bs
     in if 0xFFFFFFFF < meta_blkaddr then Err (BadSuperblock ''meta_blkaddr overflow'')
     else
       let slots = plan_meta_layout bodies bs;
           nids = map slot_nid slots;
           meta_total_bytes = div_ceil (if slots = [] then 0 else slot_end (last slots)) COMPACT_INODE_SIZE * COMPACT_INODE_SIZE;
           data_area_start = meta_blkaddr + div_ceil meta_total_bytes bs
       in bindR (foldR (lay_dir plan nids bs) [0..<length plan]
                   \<lparr>dl_blocks = [], dl_block_for_nid = Map.empty, dl_size_for_nid = Map.empty, dl_next = data_area_start\<rparr>) (\<lambda>dirs.
          bindR (foldR (lay_data plan nids bs) [0..<length plan]
                   \<lparr>da_block_for_nid = Map.empty, da_chunk_addrs = Map.empty, da_pcluster_addrs = Map.empty,
                    da_any_compressed = False, da_any_inline_tail = False, da_next = dl_next dirs\<rparr>) (\<lambda>data.
          let total_blocks = max (da_next data) data_area_start in
          if total_blocks < 2 then Err (BadSuperblock ''image too small'')
          else if 0xFFFFFFFF < total_blocks then Err (BadSuperblock ''FS too large for u32 block count'')
          else Ok (\<lparr>im_plan = plan, im_bodies = bodies, im_slots = slots, im_nids = nids, im_dirs = dirs, im_data = data,
                    im_meta_blkaddr = ucast meta_blkaddr, im_meta_byte_base = meta_blkaddr * bs\<rparr>, total_blocks)))))"

definition image_features :: "data_layout_state \<Rightarrow> bytes \<Rightarrow> u32" where
  "image_features data blob =
     (if da_any_compressed data then INCOMPAT_ZERO_PADDING else 0)
     OR (if da_any_inline_tail data then INCOMPAT_ZTAILPACKING else 0)
     OR (if blob \<noteq> [] then INCOMPAT_COMPR_CFGS else 0)"

text \<open>Pass 5.\<close>

definition write_image ::
    "(bytes \<Rightarrow> u32) \<Rightarrow> image_plan \<Rightarrow> u64 \<Rightarrow> u64 \<Rightarrow> u8 \<Rightarrow> build_options \<Rightarrow> bytes result" where
  "write_image crc im total_blocks bs blkszbits options =
     (let img = replicate (unat (total_blocks * bs)) 0; n = length (im_plan im) in
      bindR (compr_cfgs_blob options (im_plan im)) (\<lambda>(u1, blob).
      bindR (encode_prefixes (bo_xattr_prefixes options)) (\<lambda>(dict, prefix_count).
      bindR (place_cfgs blob (im_meta_byte_base im) img) (\<lambda>st.
      bindR (place_prefixes dict (im_meta_byte_base im) st) (\<lambda>(img, prefix_start).
      bindR (write_superblock crc img blkszbits (word_of_nat n) (ucast total_blocks) (im_meta_blkaddr im)
               (image_features (im_data im) blob) u1 prefix_count prefix_start) (\<lambda>img.
      bindR (foldR (emit_inode im bs blkszbits) [0..<n] img) (\<lambda>img.
      bindR (emit_dirs bs (dl_block_for_nid (im_dirs im)) (dl_blocks (im_dirs im)) img) (\<lambda>img.
        foldR (emit_data im bs) [0..<n] img))))))))"

definition build_image_with :: "(bytes \<Rightarrow> u32) \<Rightarrow> encoders \<Rightarrow> node \<Rightarrow> u8 \<Rightarrow> build_options \<Rightarrow> bytes result" where
  "build_image_with crc E root blkszbits options =
     (if \<not> is_valid_blkszbits blkszbits then Err (BadSuperblock ''blkszbits out of range'')
      else let bs = one_shl (ucast blkszbits) in
        bindR (plan_image E root bs options) (\<lambda>(im, total_blocks).
          write_image crc im total_blocks bs blkszbits options))"

definition build_image :: "(bytes \<Rightarrow> u32) \<Rightarrow> encoders \<Rightarrow> node \<Rightarrow> u8 \<Rightarrow> bytes result" where
  "build_image crc E root blkszbits = build_image_with crc E root blkszbits build_options_default"

end
