(* ===== verification/ImageWritten.thy ===== *)
theory ImageWritten
  imports ImageBuild
begin

text \<open>
  The image that \<open>build_image_with\<close> writes, as a set of regions: every write of pass 5 goes to a region of its
  own, so that what it has put there is still there at the end.
\<close>

section \<open>Writes and what they leave alone\<close>

definition holds_at :: "bytes \<Rightarrow> nat \<Rightarrow> bytes \<Rightarrow> bool" where
  "holds_at img a xs = (a + length xs \<le> length img \<and> take (length xs) (drop a img) = xs)"

definition outside :: "nat \<Rightarrow> nat \<Rightarrow> bytes \<Rightarrow> bytes \<Rightarrow> bool" where
  "outside lo hi img img' =
     (length img' = length img
      \<and> (\<forall>a n. a + n \<le> length img \<longrightarrow> a + n \<le> lo \<or> hi \<le> a \<longrightarrow> take n (drop a img') = take n (drop a img)))"

lemma outside_refl [simp]: "outside lo hi img img"
  by (simp add: outside_def)

lemma outside_trans: "outside lo hi x y \<Longrightarrow> outside lo hi y z \<Longrightarrow> outside lo hi x z"
  by (simp add: outside_def)

lemma outside_mono: "outside lo hi x y \<Longrightarrow> lo' \<le> lo \<Longrightarrow> hi \<le> hi' \<Longrightarrow> outside lo' hi' x y"
  unfolding outside_def by (meson order_trans)

lemma outside_length: "outside lo hi x y \<Longrightarrow> length y = length x"
  by (simp add: outside_def)

lemma holds_outside:
  "holds_at img a xs \<Longrightarrow> outside lo hi img img' \<Longrightarrow> a + length xs \<le> lo \<or> hi \<le> a \<Longrightarrow> holds_at img' a xs"
  unfolding outside_def holds_at_def by metis

lemma holds_append:
  "holds_at img a (xs @ ys) = (holds_at img a xs \<and> holds_at img (a + length xs) ys)"
proof
  let ?D = "drop a img" and ?n = "length xs" and ?m = "length ys"
  assume h: "holds_at img a (xs @ ys)"
  then have t: "take (?n + ?m) ?D = xs @ ys" "a + ?n + ?m \<le> length img" by (simp_all add: holds_at_def)
  have "take ?n ?D = take ?n (take (?n + ?m) ?D)" by simp
  then have "take ?n ?D = xs" unfolding t(1) by simp
  moreover have "take ?m (drop (a + ?n) img) = drop ?n (take (?n + ?m) ?D)" by (simp add: drop_take add.commute)
  then have "take ?m (drop (a + ?n) img) = ys" unfolding t(1) by simp
  ultimately show "holds_at img a xs \<and> holds_at img (a + length xs) ys" using t(2) by (simp add: holds_at_def)
next
  assume "holds_at img a xs \<and> holds_at img (a + length xs) ys"
  then show "holds_at img a (xs @ ys)" by (simp add: holds_at_def take_add add.commute)
qed

lemma holds_nil [simp]: "holds_at img a [] = (a \<le> length img)"
  by (simp add: holds_at_def)

lemma put_at_writes:
  assumes "put_at img a xs = Ok img'"
  shows "outside a (a + length xs) img img'" "holds_at img' a xs" "length img' = length img"
proof -
  from assms have l: "a + length xs \<le> length img" "img' = put img a xs" by (auto simp: put_at_def split: if_splits)
  then show "outside a (a + length xs) img img'" "length img' = length img"
    by (auto simp: outside_def take_drop_put_other)
  show "holds_at img' a xs" using l by (simp add: holds_at_def take_drop_put_same)
qed

lemma serves_holds: "serves d img \<Longrightarrow> holds_at img (unat off) xs \<Longrightarrow> read_at d off (length xs) = Ok xs"
  by (simp add: holds_at_def serves_read)

section \<open>A loop of writes, each to its own region\<close>

lemma foldR_snoc: "foldR f (is @ [i]) st = bindR (foldR f is st) (f i)"
proof (induction "is" arbitrary: st)
  case (Cons j js)
  then show ?case by (cases "f j st") simp_all
next
  case Nil
  have "foldR f [] = Ok" by (rule ext) simp
  then show ?case by (cases "f i st") simp_all
qed

text \<open>Each step writes to its own region; what holds of a region is settled by its bytes.\<close>

lemma foldR_holds:
  assumes step: "\<And>i img img'. i < n \<Longrightarrow> length img = L \<Longrightarrow> f i img = Ok img' \<Longrightarrow> outside (lo i) (hi i) img img' \<and> H i img'"
    and stable: "\<And>i a z img img'. i < n \<Longrightarrow> H i img \<Longrightarrow> outside a z img img' \<Longrightarrow> hi i \<le> a \<or> z \<le> lo i \<Longrightarrow> H i img'"
    and apart: "\<And>i j. i < j \<Longrightarrow> j < n \<Longrightarrow> hi i \<le> lo j"
    and within: "\<And>i. i < n \<Longrightarrow> A \<le> lo i \<and> hi i \<le> B"
  shows "k \<le> n \<Longrightarrow> length img = L \<Longrightarrow> foldR f [0..<k] img = Ok img' \<Longrightarrow> outside A B img img' \<and> (\<forall>i<k. H i img')"
proof (induction k arbitrary: img')
  case (Suc k)
  have split: "foldR f ([0..<k] @ [k]) img = bindR (foldR f [0..<k] img) (f k)"
    by (rule foldR_snoc)
  with Suc.prems(3) obtain mid where m: "foldR f [0..<k] img = Ok mid" "f k mid = Ok img'" by auto
  have ih: "outside A B img mid" "\<forall>i<k. H i mid" using Suc m(1) by auto
  have l: "length mid = L" using outside_length [OF ih(1)] Suc.prems(2) by simp
  have s: "outside (lo k) (hi k) mid img'" "H k img'" using step [OF _ l m(2)] Suc.prems(1) by auto
  have "H i img'" if "i < k" for i
    using stable [OF _ _ s(1), of i] ih(2) apart [OF that] that Suc.prems(1) by simp
  moreover have "outside A B mid img'" using outside_mono [OF s(1)] within [of k] Suc.prems(1) by simp
  ultimately show ?case using outside_trans [OF ih(1)] s(2) by (auto simp: less_Suc_eq)
qed simp

text \<open>Writes one behind the other.\<close>

fun write_parts :: "(nat \<times> bytes) list \<Rightarrow> bytes \<Rightarrow> bytes result" where
  "write_parts [] img = Ok img"
| "write_parts ((a, xs) # ps) img = bindR (put_at img a xs) (write_parts ps)"

fun seq_parts :: "(nat \<times> bytes) list \<Rightarrow> nat \<Rightarrow> nat \<Rightarrow> bool" where
  "seq_parts [] lo hi = (lo \<le> hi)"
| "seq_parts ((a, xs) # ps) lo hi = (lo \<le> a \<and> seq_parts ps (a + length xs) hi)"

definition parts_hold :: "(nat \<times> bytes) list \<Rightarrow> nat \<Rightarrow> nat \<Rightarrow> bytes \<Rightarrow> bool" where
  "parts_hold ps lo hi img = (\<forall>p\<in>set ps. lo \<le> fst p \<and> fst p + length (snd p) \<le> hi \<and> holds_at img (fst p) (snd p))"

lemma seq_parts_le: "seq_parts ps lo hi \<Longrightarrow> lo \<le> hi"
  by (induction ps lo hi rule: seq_parts.induct) auto

lemma seq_parts_mono: "seq_parts ps lo hi \<Longrightarrow> lo' \<le> lo \<Longrightarrow> seq_parts ps lo' hi"
  by (cases ps) auto

lemma write_parts_hold:
  "write_parts ps img = Ok img' \<Longrightarrow> seq_parts ps lo hi \<Longrightarrow> outside lo hi img img' \<and> parts_hold ps lo hi img'"
proof (induction ps img arbitrary: lo rule: write_parts.induct)
  case (2 a xs ps img)
  from 2(2) obtain mid where m: "put_at img a xs = Ok mid" "write_parts ps mid = Ok img'" by auto
  have s: "lo \<le> a" "seq_parts ps (a + length xs) hi" using 2(3) by simp_all
  note w = put_at_writes [OF m(1)]
  have ih: "outside (a + length xs) hi mid img'" "parts_hold ps (a + length xs) hi img'" using 2(1) [OF m s(2)] by simp_all
  have le: "a + length xs \<le> hi" by (rule seq_parts_le [OF s(2)])
  have "outside lo hi img img'"
    using outside_trans [OF outside_mono [OF w(1)] outside_mono [OF ih(1)]] s(1) le by simp
  moreover have "holds_at img' a xs" using holds_outside [OF w(2) ih(1)] by simp
  ultimately show ?case using ih(2) s(1) le by (auto simp: parts_hold_def)
qed (simp add: parts_hold_def)

lemma parts_hold_outside:
  "parts_hold ps lo hi img \<Longrightarrow> outside a z img img' \<Longrightarrow> hi \<le> a \<or> z \<le> lo \<Longrightarrow> parts_hold ps lo hi img'"
  unfolding parts_hold_def
proof (intro ballI conjI)
  fix p
  assume h: "\<forall>p\<in>set ps. lo \<le> fst p \<and> fst p + length (snd p) \<le> hi \<and> holds_at img (fst p) (snd p)"
    and o: "outside a z img img'" "hi \<le> a \<or> z \<le> lo" and p: "p \<in> set ps"
  have b: "lo \<le> fst p" "fst p + length (snd p) \<le> hi" "holds_at img (fst p) (snd p)" using h p by blast+
  show "lo \<le> fst p" "fst p + length (snd p) \<le> hi" by (fact b)+
  show "holds_at img' (fst p) (snd p)" by (rule holds_outside [OF b(3) o(1)]) (use b(1,2) o(2) in linarith)
qed

section \<open>One inode\<close>

text \<open>A part written at the cursor: the cursor moves by its length.\<close>

definition part_written :: "u64 \<Rightarrow> bytes \<times> u64 \<Rightarrow> bytes \<times> u64 \<Rightarrow> bytes \<Rightarrow> bool" where
  "part_written base st st' xs =
     (let a = unat (base + snd st) in
      unat (base + snd st') = a + length xs \<and> outside a (a + length xs) (fst st) (fst st') \<and> holds_at (fst st') a xs)"

lemma part_written_trans:
  assumes "part_written base st st1 xs" "part_written base st1 st2 ys"
  shows "part_written base st st2 (xs @ ys)"
proof -
  let ?a = "unat (base + snd st)"
  have 1: "unat (base + snd st1) = ?a + length xs" "outside ?a (?a + length xs) (fst st) (fst st1)" "holds_at (fst st1) ?a xs"
    using assms(1) by (simp_all add: part_written_def Let_def)
  have 2: "unat (base + snd st2) = ?a + length xs + length ys"
    "outside (?a + length xs) (?a + length xs + length ys) (fst st1) (fst st2)" "holds_at (fst st2) (?a + length xs) ys"
    using assms(2) by (simp_all add: part_written_def Let_def 1(1))
  have "holds_at (fst st2) ?a xs" using holds_outside [OF 1(3) 2(2)] by simp
  moreover have "outside ?a (?a + length (xs @ ys)) (fst st) (fst st2)"
    using outside_trans [OF outside_mono [OF 1(2)] outside_mono [OF 2(2)]] by simp
  ultimately show ?thesis using 2(1,3) by (simp add: part_written_def Let_def holds_append)
qed

lemma part_written_nil: "unat (base + c) \<le> length img \<Longrightarrow> part_written base (img, c) (img, c) []"
  by (simp add: part_written_def Let_def)

lemma unat_advance:
  fixes a :: u64
  assumes "unat a + n \<le> L" "L < 2 ^ 64"
  shows "unat (a + word_of_nat n) = unat a + n"
  using assms by (subst unat_add_no_wrap) (simp_all add: unat_of_nat)

lemma put_at_part:
  assumes "put_at img (unat (base + c)) xs = Ok img'" "length img < 2 ^ 64"
  shows "part_written base (img, c) (img', c + len64 xs) xs"
proof -
  have "unat (base + c) + length xs \<le> length img" using assms(1) by (auto simp: put_at_def split: if_splits)
  from unat_advance [OF this assms(2)] put_at_writes [OF assms(1)] show ?thesis
    by (simp add: part_written_def Let_def add.assoc)
qed

lemma emit_part_written:
  assumes "emit_part xs base st = Ok st'" "length (fst st) < 2 ^ 64" "unat (base + snd st) \<le> length (fst st)"
  shows "part_written base st st' xs"
  using assms part_written_nil [of base "snd st" "fst st"] put_at_part
  by (cases st) (auto simp: emit_part_def Let_def split: if_splits)

lemma emit_sized_written:
  assumes "emit_sized planned encode msg base st = Ok st'" "length (fst st) < 2 ^ 64" "unat (base + snd st) \<le> length (fst st)"
  obtains xs where "part_written base st st' xs" "if 0 < planned then encode (base + snd st) = Ok xs \<and> length xs = unat planned else xs = []"
proof (cases "0 < planned")
  case True
  obtain img c where st: "st = (img, c)" by (cases st)
  from assms(1) True obtain xs img' where xs: "encode (base + c) = Ok xs" "len64 xs = planned"
    "put_at img (unat (base + c)) xs = Ok img'" "st' = (img', c + planned)"
    by (auto simp: emit_sized_def st Let_def split: if_splits)
  have "length xs < 2 ^ 64" using xs(3) assms(2) by (auto simp: put_at_def st split: if_splits)
  then have "length xs = unat planned" using xs(2) by (simp add: unat_of_nat flip: xs(2))
  with put_at_part [OF xs(3)] assms(2) xs True show thesis by (intro that [of xs]) (simp_all add: st)
next
  case False
  then have "st' = st" using assms(1) by (cases st) (simp add: emit_sized_def Let_def)
  then show thesis using False part_written_nil [of base "snd st" "fst st"] assms(3) by (intro that [of "[]"]) simp_all
qed

lemma part_written_length: "part_written base st st' xs \<Longrightarrow> length (fst st') = length (fst st) \<and> unat (base + snd st') \<le> length (fst st')"
  by (auto simp: part_written_def Let_def holds_at_def outside_def)

lemma length_encode_inode: "encode_inode n nid body plan m1 m2 m3 bs = Ok ibuf \<Longrightarrow> length ibuf = unat (inode_body_size (ib_is_extended body))"
  by (auto simp: encode_inode_def split: prod.splits)

text \<open>What lies behind an inode: its attributes, its tail, its chunk map and its compressed index.\<close>

definition behind_inode :: "image_plan \<Rightarrow> u8 \<Rightarrow> nat \<Rightarrow> bytes \<Rightarrow> bytes \<Rightarrow> bool" where
  "behind_inode im b i cm zt =
     (let body = im_bodies im ! i; n = im_plan im ! i; slot = im_slots im ! i; nid = slot_nid slot;
          at = im_meta_byte_base im + (ms_start slot + ib_body_size body + len64 (ib_xattr_bytes body)
                 + len64 (ib_inline_tail body) + ib_chunkmap_bytes body)
      in (if 0 < ib_chunkmap_bytes body
          then chunkmap_of n (da_chunk_addrs (im_data im)) nid = Ok cm \<and> length cm = unat (ib_chunkmap_bytes body) else cm = [])
       \<and> (if 0 < ib_zmap_bytes body
          then zmap_trailer_of n (da_pcluster_addrs (im_data im)) nid at b = Ok zt \<and> length zt = unat (ib_zmap_bytes body)
          else zt = []))"

definition inode_at :: "image_plan \<Rightarrow> nat \<Rightarrow> nat" where
  "inode_at im i = unat (im_meta_byte_base im + ms_start (im_slots im ! i))"

definition inode_stop :: "image_plan \<Rightarrow> nat \<Rightarrow> nat" where
  "inode_stop im i = unat (im_meta_byte_base im + slot_end (im_slots im ! i))"

definition encoded_inode :: "image_plan \<Rightarrow> u64 \<Rightarrow> nat \<Rightarrow> bytes result" where
  "encoded_inode im bs i =
     encode_inode (im_plan im ! i) (slot_nid (im_slots im ! i)) (im_bodies im ! i) (im_plan im) (dl_size_for_nid (im_dirs im))
       (dl_block_for_nid (im_dirs im)) (da_block_for_nid (im_data im)) bs"

lemma emit_inode_written:
  assumes e: "emit_inode im bs b i img = Ok img'" and len: "length img < 2 ^ 64" and i: "i < length (im_plan im)"
    and body: "ib_body_size (im_bodies im ! i) = inode_body_size (ib_is_extended (im_bodies im ! i))"
  obtains ibuf cm zt where "encoded_inode im bs i = Ok ibuf" "behind_inode im b i cm zt"
    "outside (inode_at im i) (inode_stop im i) img img'"
    "holds_at img' (inode_at im i) (ibuf @ ib_xattr_bytes (im_bodies im ! i) @ ib_inline_tail (im_bodies im ! i) @ cm @ zt)"
    "inode_stop im i = inode_at im i + length (ibuf @ ib_xattr_bytes (im_bodies im ! i) @ ib_inline_tail (im_bodies im ! i) @ cm @ zt)"
proof -
  let ?body = "im_bodies im ! i" and ?slot = "im_slots im ! i" and ?base = "im_meta_byte_base im"
  from e i obtain ibuf img1 st2 st3 st4 c5 where
    1: "encoded_inode im bs i = Ok ibuf" "put_at img (unat (?base + ms_start ?slot)) ibuf = Ok img1"
    and 2: "emit_part (ib_xattr_bytes ?body) ?base (img1, ms_start ?slot + ib_body_size ?body) = Ok st2"
    and 3: "emit_part (ib_inline_tail ?body) ?base st2 = Ok st3"
    and 4: "emit_sized (ib_chunkmap_bytes ?body) (\<lambda>_. chunkmap_of (im_plan im ! i) (da_chunk_addrs (im_data im)) (slot_nid ?slot))
        ''emitted chunkmap length disagrees with the planned trailer size'' ?base st3 = Ok st4"
    and 5: "emit_sized (ib_zmap_bytes ?body) (\<lambda>bend. zmap_trailer_of (im_plan im ! i) (da_pcluster_addrs (im_data im)) (slot_nid ?slot) bend b)
        ''emitted zmap trailer length disagrees with the planned trailer size'' ?base st4 = Ok (img', c5)"
    and stop: "c5 = slot_end ?slot"
    unfolding emit_inode_def Let_def encoded_inode_def by (auto split: if_splits)
  have "len64 ibuf = ib_body_size ?body"
    using length_encode_inode 1(1) body by (simp add: encoded_inode_def)
  then have w1: "part_written ?base (img, ms_start ?slot) (img1, ms_start ?slot + ib_body_size ?body) ibuf"
    using put_at_part [OF 1(2) len] by simp
  note l1 = part_written_length [OF w1, simplified]
  have w2: "part_written ?base (img1, ms_start ?slot + ib_body_size ?body) st2 (ib_xattr_bytes ?body)"
    by (rule emit_part_written [OF 2]) (use l1 len in simp_all)
  note l2 = part_written_length [OF w2]
  have w3: "part_written ?base st2 st3 (ib_inline_tail ?body)"
    by (rule emit_part_written [OF 3]) (use l1 l2 len in simp_all)
  note l3 = part_written_length [OF w3]
  obtain cm where w4: "part_written ?base st3 st4 cm" and cm: "if 0 < ib_chunkmap_bytes ?body
      then chunkmap_of (im_plan im ! i) (da_chunk_addrs (im_data im)) (slot_nid ?slot) = Ok cm \<and> length cm = unat (ib_chunkmap_bytes ?body)
      else cm = []"
    by (rule emit_sized_written [OF 4]) (use l1 l2 l3 len in simp_all)
  note l4 = part_written_length [OF w4]
  obtain zt where w5: "part_written ?base st4 (img', c5) zt" and zt: "if 0 < ib_zmap_bytes ?body
      then zmap_trailer_of (im_plan im ! i) (da_pcluster_addrs (im_data im)) (slot_nid ?slot) (?base + snd st4) b = Ok zt
        \<and> length zt = unat (ib_zmap_bytes ?body) else zt = []"
    by (rule emit_sized_written [OF 5]) (use l1 l2 l3 l4 len in simp_all)
  have c2: "snd st2 = ms_start ?slot + ib_body_size ?body + len64 (ib_xattr_bytes ?body)"
    using 2 by (auto simp: emit_part_def split: if_splits)
  have c3: "snd st3 = snd st2 + len64 (ib_inline_tail ?body)"
    using 3 by (cases st2) (auto simp: emit_part_def split: if_splits)
  have c4: "snd st4 = snd st3 + ib_chunkmap_bytes ?body"
    using 4 by (cases st3) (auto simp: emit_sized_def word_gt_0 split: if_splits)
  have "behind_inode im b i cm zt"
    using cm zt unfolding behind_inode_def Let_def c4 c3 c2 by blast
  moreover from part_written_trans [OF w1 part_written_trans [OF w2 part_written_trans [OF w3 part_written_trans [OF w4 w5]]]]
  have "part_written ?base (img, ms_start ?slot) (img', slot_end ?slot)
      (ibuf @ ib_xattr_bytes ?body @ ib_inline_tail ?body @ cm @ zt)" by (simp add: stop)
  ultimately show thesis using 1(1)
    by (intro that) (simp_all only: part_written_def Let_def fst_conv snd_conv inode_at_def inode_stop_def)
qed

section \<open>Directory blocks\<close>

lemma bt_insert_last: "\<forall>k'\<in>fst ` set kvs. k' < k \<Longrightarrow> bt_insert k v kvs = kvs @ [(k, v)]"
  by (induction kvs) auto

text \<open>Directories that follow one another from block \<open>a\<close> to block \<open>z\<close>.\<close>

fun seq_dirs :: "(u64 \<rightharpoonup> u64) \<Rightarrow> (u64 \<times> bytes list) list \<Rightarrow> nat \<Rightarrow> nat \<Rightarrow> bool" where
  "seq_dirs m [] a z = (a = z)"
| "seq_dirs m ((nid, blocks) # ds) a z = ((\<exists>b. m nid = Some b \<and> unat b = a) \<and> seq_dirs m ds (a + length blocks) z)"

lemma seq_dirs_snoc:
  "seq_dirs m (ds @ [(nid, blocks)]) a z \<longleftrightarrow>
     (\<exists>y. seq_dirs m ds a y \<and> (\<exists>b. m nid = Some b \<and> unat b = y) \<and> z = y + length blocks)"
  by (induction m ds a z rule: seq_dirs.induct) auto

lemma seq_dirs_cong: "(\<And>nid. nid \<in> fst ` set ds \<Longrightarrow> m nid = m' nid) \<Longrightarrow> seq_dirs m ds a z = seq_dirs m' ds a z"
  by (induction m ds a z rule: seq_dirs.induct) auto

lemma seq_dirs_le: "seq_dirs m ds a z \<Longrightarrow> a \<le> z"
  by (induction m ds a z rule: seq_dirs.induct) auto

lemma seq_dirs_sum: "seq_dirs m ds a z \<Longrightarrow> z = a + sum_list (map (length \<circ> snd) ds)"
  by (induction m ds a z rule: seq_dirs.induct) auto

lemma unat_block: "unat blk * unat bs < 2 ^ 64 \<Longrightarrow> unat (blk * bs :: u64) = unat blk * unat bs"
  by (simp add: unat_mult_no_wrap)

lemma emit_blocks_written:
  assumes "emit_blocks bs bufs blk img = Ok img'" "\<forall>b\<in>set bufs. length b = unat bs" "(unat blk + length bufs) * unat bs < 2 ^ 64"
    "0 < unat bs"
  shows "outside (unat blk * unat bs) ((unat blk + length bufs) * unat bs) img img' \<and> holds_at img' (unat blk * unat bs) (concat bufs)
    \<or> bufs = [] \<and> img' = img"
  using assms
proof (induction bs bufs blk img rule: emit_blocks.induct)
  case (2 bs buf bufs blk img)
  let ?a = "unat blk * unat bs"
  from 2(2) obtain mid where m: "put_at img (unat (blk * bs)) buf = Ok mid" "emit_blocks bs bufs (blk + 1) mid = Ok img'" by auto
  have "unat blk * unat bs \<le> (unat blk + length (buf # bufs)) * unat bs" by (rule mult_le_mono1) simp
  then have a: "unat (blk * bs) = ?a" using 2(4) by (intro unat_block) simp
  note w = put_at_writes [OF m(1), unfolded a]
  have lb: "length buf = unat bs" using 2(3) by simp
  have "unat blk + 1 \<le> (unat blk + length (buf # bufs)) * unat bs" 
    using mult_le_mono [of "unat blk + 1" "unat blk + length (buf # bufs)" 1 "unat bs"] 2(5) by simp
  then have b1: "unat (blk + 1) = unat blk + 1" using 2(4) by (subst unat_add_no_wrap) simp_all
  have ih: "outside ((unat blk + 1) * unat bs) ((unat blk + 1 + length bufs) * unat bs) mid img'
      \<and> holds_at img' ((unat blk + 1) * unat bs) (concat bufs) \<or> bufs = [] \<and> img' = mid"
    using 2(1) [OF m] 2(3-5) by (simp add: b1)
  show ?case
  proof (cases "bufs = []")
    case True
    then have "img' = mid" using m(2) by simp
    then show ?thesis using w lb True by (simp add: algebra_simps)
  next
    case False
    with ih have i: "outside (?a + unat bs) ((unat blk + 1 + length bufs) * unat bs) mid img'"
      "holds_at img' (?a + unat bs) (concat bufs)" by (auto simp: algebra_simps)
    have "?a + unat bs \<le> (unat blk + 1 + length bufs) * unat bs" by (simp add: algebra_simps)
    then have "outside ?a ((unat blk + 1 + length bufs) * unat bs) img img'"
      using outside_trans [OF outside_mono [OF w(1)] outside_mono [OF i(1)], of ?a "(unat blk + 1 + length bufs) * unat bs"] lb by simp
    moreover have "holds_at img' ?a buf" using holds_outside [OF w(2) i(1)] lb by simp
    ultimately show ?thesis using i(2) lb by (simp add: holds_append)
  qed
qed simp

lemma length_concat_blocks: "\<forall>x\<in>set bl. length x = n \<Longrightarrow> length (concat bl) = length bl * n"
  by (induction bl) auto

lemma emit_dirs_written:
  assumes "emit_dirs bs m ds img = Ok img'" "seq_dirs m ds a z" "z * unat bs < 2 ^ 64" "0 < unat bs"
    "\<forall>d\<in>set ds. snd d \<noteq> [] \<and> (\<forall>b\<in>set (snd d). length b = unat bs)"
  shows "outside (a * unat bs) (z * unat bs) img img'
    \<and> (\<forall>(nid, blocks)\<in>set ds. \<exists>b. m nid = Some b \<and> a \<le> unat b \<and> unat b + length blocks \<le> z
          \<and> holds_at img' (unat b * unat bs) (concat blocks))"
  using assms
proof (induction bs m ds img arbitrary: a rule: emit_dirs.induct)
  case (2 bs m nid blocks ds img)
  from 2(2,3) obtain blk mid where b: "m nid = Some blk" "unat blk = a" "emit_blocks bs blocks blk img = Ok mid"
    "emit_dirs bs m ds mid = Ok img'" "seq_dirs m ds (a + length blocks) z"
    by (auto simp: map_at_def)
  have az: "a + length blocks \<le> z" using seq_dirs_le [OF b(5)] .
  then have "(a + length blocks) * unat bs \<le> z * unat bs" by (rule mult_le_mono1)
  then have "(a + length blocks) * unat bs < 2 ^ 64" using 2(4) by (rule le_less_trans)
  then have w: "outside (a * unat bs) ((a + length blocks) * unat bs) img mid" "holds_at mid (a * unat bs) (concat blocks)"
    using emit_blocks_written [OF b(3)] 2(4-6) by (auto simp: b(2))
  have mid: "map_at m nid = Ok blk" by (simp add: map_at_def b(1))
  have ih: "outside ((a + length blocks) * unat bs) (z * unat bs) mid img'"
    "\<forall>(nid, blocks')\<in>set ds. \<exists>b. m nid = Some b \<and> a + length blocks \<le> unat b \<and> unat b + length blocks' \<le> z
          \<and> holds_at img' (unat b * unat bs) (concat blocks')"
    using 2(1) [OF mid b(3,4,5)] 2(4-6) by auto
  have "\<forall>b\<in>set blocks. length b = unat bs" using 2(6) by simp
  then have len: "length (concat blocks) = length blocks * unat bs" by (rule length_concat_blocks)
  have "holds_at img' (a * unat bs) (concat blocks)"
    using holds_outside [OF w(2) ih(1)] by (simp add: len algebra_simps)
  moreover have "outside (a * unat bs) (z * unat bs) img img'"
    using outside_trans [OF outside_mono [OF w(1)] outside_mono [OF ih(1)]] az by simp
  ultimately show ?case using b(1,2) ih(2) az by fastforce
qed simp

text \<open>The loop that packs the directories, over node ids that increase.\<close>

definition is_pdir :: "plan_node list \<Rightarrow> nat \<Rightarrow> bool" where
  "is_pdir plan i = (case pn_kind (plan ! i) of PDir _ \<Rightarrow> True | _ \<Rightarrow> False)"

definition children_of :: "plan_node \<Rightarrow> (bytes \<times> nat) list" where
  "children_of n = (case pn_kind n of PDir children \<Rightarrow> children | _ \<Rightarrow> [])"

definition blocks_of_dir :: "plan_node list \<Rightarrow> u64 list \<Rightarrow> u64 \<Rightarrow> nat \<Rightarrow> bytes list" where
  "blocks_of_dir plan nids bs i =
     (case encode_dir_blocks i (children_of (plan ! i)) plan nids bs of Ok blocks \<Rightarrow> blocks | _ \<Rightarrow> [])"

definition listed_dirs :: "plan_node list \<Rightarrow> u64 list \<Rightarrow> u64 \<Rightarrow> nat \<Rightarrow> (u64 \<times> bytes list) list" where
  "listed_dirs plan nids bs k = map (\<lambda>i. (nids ! i, blocks_of_dir plan nids bs i)) (filter (is_pdir plan) [0..<k])"

definition dirs_listed :: "plan_node list \<Rightarrow> u64 list \<Rightarrow> u64 \<Rightarrow> nat \<Rightarrow> dir_layout \<Rightarrow> bool" where
  "dirs_listed plan nids bs k st =
     ((\<forall>i<k. is_pdir plan i \<longrightarrow>
         encode_dir_blocks i (children_of (plan ! i)) plan nids bs = Ok (blocks_of_dir plan nids bs i)
         \<and> dl_size_for_nid st (nids ! i) = Some (len64 (blocks_of_dir plan nids bs i) * bs))
      \<and> dl_blocks st = listed_dirs plan nids bs k)"

lemma listed_dirs_Suc:
  "listed_dirs plan nids bs (Suc k) = listed_dirs plan nids bs k @
     (if is_pdir plan k then [(nids ! k, blocks_of_dir plan nids bs k)] else [])"
  by (simp add: listed_dirs_def)

lemma listed_dirs_keys: "d \<in> set (listed_dirs plan nids bs k) \<Longrightarrow> \<exists>i<k. fst d = nids ! i"
  by (auto simp: listed_dirs_def)

lemma lay_dir_dir:
  assumes "lay_dir plan nids bs k mid = Ok st" "is_pdir plan k" "k < length plan" "k < length nids"
  defines "bl \<equiv> blocks_of_dir plan nids bs k"
  shows "encode_dir_blocks k (children_of (plan ! k)) plan nids bs = Ok bl"
    "st = \<lparr>dl_blocks = bt_insert (nids ! k) bl (dl_blocks mid), dl_block_for_nid = (dl_block_for_nid mid)(nids ! k \<mapsto> dl_next mid),
        dl_size_for_nid = (dl_size_for_nid mid)(nids ! k \<mapsto> len64 bl * bs), dl_next = dl_next mid + len64 bl\<rparr>"
  using assms(1-4) unfolding bl_def
  by (auto simp: lay_dir_def is_pdir_def children_of_def blocks_of_dir_def split: plan_kind.splits)

lemma lay_dir_other: "lay_dir plan nids bs k mid = Ok st \<Longrightarrow> \<not> is_pdir plan k \<Longrightarrow> k < length plan \<Longrightarrow> st = mid"
  by (auto simp: lay_dir_def is_pdir_def split: plan_kind.splits)

lemma lay_dirs_listed:
  assumes incr: "\<And>i j. i < j \<Longrightarrow> j < length plan \<Longrightarrow> nids ! i < nids ! j" and len: "length nids = length plan"
    and st0: "dl_blocks st0 = []"
  shows "k \<le> length plan \<Longrightarrow> foldR (lay_dir plan nids bs) [0..<k] st0 = Ok st \<Longrightarrow> dirs_listed plan nids bs k st"
proof (induction k arbitrary: st)
  case 0
  then show ?case using st0 by (simp add: dirs_listed_def listed_dirs_def)
next
  case (Suc k)
  from Suc.prems(2) obtain mid where m: "foldR (lay_dir plan nids bs) [0..<k] st0 = Ok mid" "lay_dir plan nids bs k mid = Ok st"
    by (auto simp: foldR_snoc)
  have k: "k < length plan" "k < length nids" using Suc.prems(1) len by simp_all
  have ih: "dirs_listed plan nids bs k mid" by (rule Suc.IH [OF Suc_leD [OF Suc.prems(1)] m(1)])
  show ?case
  proof (cases "is_pdir plan k")
    case False
    then show ?thesis using ih lay_dir_other [OF m(2) _ k(1)] by (auto simp: dirs_listed_def less_Suc_eq listed_dirs_Suc)
  next
    case True
    note st = lay_dir_dir [OF m(2) True k]
    have "k' < nids ! k" if key: "k' \<in> fst ` set (dl_blocks mid)" for k'
    proof -
      have "dl_blocks mid = listed_dirs plan nids bs k" using ih by (simp add: dirs_listed_def)
      with key obtain d where "d \<in> set (listed_dirs plan nids bs k)" "k' = fst d" by auto
      moreover from this(1) obtain i where "i < k" "fst d = nids ! i" using listed_dirs_keys by blast
      ultimately show ?thesis using incr k(1) by simp
    qed
    then have "bt_insert (nids ! k) (blocks_of_dir plan nids bs k) (dl_blocks mid) = listed_dirs plan nids bs (Suc k)"
      using ih True by (simp add: bt_insert_last dirs_listed_def listed_dirs_Suc)
    moreover have "nids ! i \<noteq> nids ! k" if "i < k" for i using incr [OF that k(1)] by simp
    ultimately show ?thesis using ih st True by (auto simp: dirs_listed_def less_Suc_eq)
  qed
qed

lemma lay_dirs_seq:
  assumes incr: "\<And>i j. i < j \<Longrightarrow> j < length plan \<Longrightarrow> nids ! i < nids ! j" and len: "length nids = length plan"
    and st0: "dl_blocks st0 = []"
  shows "k \<le> length plan \<Longrightarrow> foldR (lay_dir plan nids bs) [0..<k] st0 = Ok st \<Longrightarrow>
    unat (dl_next st0) + sum_list (map (length \<circ> snd) (listed_dirs plan nids bs k)) < 2 ^ 64 \<Longrightarrow>
    seq_dirs (dl_block_for_nid st) (listed_dirs plan nids bs k) (unat (dl_next st0)) (unat (dl_next st))"
proof (induction k arbitrary: st)
  case 0
  then show ?case by (simp add: listed_dirs_def)
next
  case (Suc k)
  from Suc.prems(2) obtain mid where m: "foldR (lay_dir plan nids bs) [0..<k] st0 = Ok mid" "lay_dir plan nids bs k mid = Ok st"
    by (auto simp: foldR_snoc)
  have k: "k < length plan" "k < length nids" using Suc.prems(1) len by simp_all
  have ih: "seq_dirs (dl_block_for_nid mid) (listed_dirs plan nids bs k) (unat (dl_next st0)) (unat (dl_next mid))"
    using Suc.IH [OF Suc_leD [OF Suc.prems(1)] m(1)] Suc.prems(3) by (simp add: listed_dirs_Suc)
  show ?case
  proof (cases "is_pdir plan k")
    case False
    then show ?thesis using ih lay_dir_other [OF m(2) _ k(1)] by (simp add: listed_dirs_Suc)
  next
    case True
    let ?bl = "blocks_of_dir plan nids bs k"
    note st = lay_dir_dir [OF m(2) True k]
    have "nids ! i \<noteq> nids ! k" if "i < k" for i using incr [OF that k(1)] by simp
    then have "seq_dirs (dl_block_for_nid st) (listed_dirs plan nids bs k) (unat (dl_next st0)) (unat (dl_next mid))"
      by (subst seq_dirs_cong [of _ _ "dl_block_for_nid mid"]) (use ih in \<open>auto simp: st(2) dest!: listed_dirs_keys\<close>)
    moreover have "unat (dl_next st) = unat (dl_next mid) + length ?bl"
      using seq_dirs_sum [OF ih] Suc.prems(3) True unat_advance [of "dl_next mid" "length ?bl" "2 ^ 64 - 1"]
      by (simp add: listed_dirs_Suc st(2) comp_def)
    ultimately show ?thesis using True by (simp add: listed_dirs_Suc seq_dirs_snoc st(2) del: fun_upd_apply) simp
  qed
qed

section \<open>Data blocks\<close>

definition blocks_for :: "nat \<Rightarrow> bytes \<Rightarrow> nat" where
  "blocks_for b data = (length data + b - 1) div b"

definition chunk_blocks :: "nat \<Rightarrow> bytes option \<Rightarrow> nat" where
  "chunk_blocks b c = (case c of None \<Rightarrow> 0 | Some buf \<Rightarrow> max (blocks_for b buf) 1)"

definition node_blocks :: "nat \<Rightarrow> plan_node \<Rightarrow> nat" where
  "node_blocks b n =
     (case pn_kind n of
        PFile data PlainFile \<Rightarrow> blocks_for b data
      | PSymlink _ \<Rightarrow> 1
      | PChunked chunks _ _ \<Rightarrow> sum_list (map (chunk_blocks b) chunks)
      | PCompressed cp \<Rightarrow> sum_list (map (unat \<circ> pp_block_count) (cp_pclusters cp))
      | _ \<Rightarrow> 0)"

fun chunks_laid :: "nat \<Rightarrow> bytes option list \<Rightarrow> u32 list \<Rightarrow> nat \<Rightarrow> bool" where
  "chunks_laid b [] [] a = True"
| "chunks_laid b (None # cs) (x # addrs) a = (x = EROFS_NULL_ADDR \<and> chunks_laid b cs addrs a)"
| "chunks_laid b (Some buf # cs) (x # addrs) a = (unat x = a \<and> chunks_laid b cs addrs (a + chunk_blocks b (Some buf)))"
| "chunks_laid b _ _ a = False"

fun pclusters_laid :: "pcluster_plan list \<Rightarrow> u32 list \<Rightarrow> nat \<Rightarrow> bool" where
  "pclusters_laid [] [] a = True"
| "pclusters_laid (pc # pcs) (x # addrs) a = (unat x = a \<and> pclusters_laid pcs addrs (a + unat (pp_block_count pc)))"
| "pclusters_laid _ _ a = False"

lemma length_le_blocks:
  assumes "0 < b"
  shows "length data \<le> blocks_for b data * b"
proof -
  have "length data \<le> ceil_to b (length data)" by (rule ceil_to_bounds [OF assms])
  then show ?thesis by (simp add: ceil_to_def blocks_for_def)
qed

lemma unat_blocks_for:
  assumes "bs \<noteq> 0" "unat bs \<le> 65536" "blocks_for (unat bs) data < 2 ^ 41"
  shows "unat (div_ceil (len64 data) bs) = blocks_for (unat bs) data"
proof -
  have "length data \<le> blocks_for (unat bs) data * unat bs" using length_le_blocks [of "unat bs"] assms(1) by (simp add: unat_gt_0)
  also have "\<dots> \<le> 2 ^ 41 * 65536" using assms by (intro mult_le_mono) simp_all
  finally have "unat (len64 data :: u64) = length data" by (simp add: unat_of_nat)
  then show ?thesis by (simp add: unat_div_ceil assms(1) blocks_for_def)
qed

lemma unat_low32: "\<not> 0xFFFFFFFF < (a :: u64) \<Longrightarrow> unat (ucast a :: u32) = unat a"
  by (simp add: word_less_nat_alt not_less unsigned_ucast_eq take_bit_nat_eq_self)

lemma chunk_addresses_laid:
  "chunk_addresses chunks bs next = Ok (addrs, next') \<Longrightarrow> bs \<noteq> 0 \<Longrightarrow> unat bs \<le> 65536 \<Longrightarrow>
    unat next + sum_list (map (chunk_blocks (unat bs)) chunks) < 2 ^ 41 \<Longrightarrow>
    chunks_laid (unat bs) chunks addrs (unat next) \<and> unat next' = unat next + sum_list (map (chunk_blocks (unat bs)) chunks)"
proof (induction chunks bs "next" arbitrary: addrs rule: chunk_addresses.induct)
  case (2 cs bs "next")
  then show ?case by (auto simp: chunk_blocks_def)
next
  case (3 buf cs bs "next")
  let ?m = "max (div_ceil (len64 buf) bs) 1" and ?n = "chunk_blocks (unat bs) (Some buf)"
  from 3(2) obtain addrs' where a: "\<not> 0xFFFFFFFF < next" "chunk_addresses cs bs (next + ?m) = Ok (addrs', next')"
    "addrs = ucast next # addrs'" by (auto split: if_splits)
  have "blocks_for (unat bs) buf \<le> ?n" by (simp add: chunk_blocks_def)
  then have "unat (div_ceil (len64 buf) bs) = blocks_for (unat bs) buf" using 3(3-5) by (intro unat_blocks_for) simp_all
  then have m: "unat ?m = ?n" by (simp add: max_def word_le_nat_alt chunk_blocks_def)
  have "unat (next + ?m) = unat next + unat ?m" by (rule unat_add_no_wrap, unfold m) (use 3(5) in simp)
  then show ?case using 3(1) [OF a(1,2)] 3(3-5) a unat_low32 [OF a(1)] by (simp add: m)
qed simp

lemma pcluster_addresses_laid:
  "pcluster_addresses pcs next = Ok (addrs, next') \<Longrightarrow>
    unat next + sum_list (map (unat \<circ> pp_block_count) pcs) < 2 ^ 41 \<Longrightarrow>
    pclusters_laid pcs addrs (unat next) \<and> unat next' = unat next + sum_list (map (unat \<circ> pp_block_count) pcs)"
proof (induction pcs "next" arbitrary: addrs rule: pcluster_addresses.induct)
  case (2 pc pcs "next")
  from 2(2) obtain addrs' where a: "\<not> 0xFFFFFFFF < next" "pcluster_addresses pcs (next + ucast (pp_block_count pc)) = Ok (addrs', next')"
    "addrs = ucast next # addrs'" by (auto split: if_splits)
  have m: "unat (ucast (pp_block_count pc) :: u64) = unat (pp_block_count pc)" by (rule unat_ucast_up) simp
  have "unat (next + ucast (pp_block_count pc)) = unat next + unat (pp_block_count pc)"
    using 2(3) by (subst unat_add_no_wrap) (simp_all add: m)
  then show ?case using 2(1) [OF a(1,2)] 2(3) a unat_low32 [OF a(1)] by simp
qed simp

definition laid :: "data_layout_state \<Rightarrow> plan_node \<Rightarrow> u64 \<Rightarrow> nat \<Rightarrow> nat \<Rightarrow> bool" where
  "laid st n nid b a =
     (case pn_kind n of
        PFile data PlainFile \<Rightarrow>
          if data = [] then da_block_for_nid st nid = Some 0 else (\<exists>blk. da_block_for_nid st nid = Some blk \<and> unat blk = a)
      | PFile data InlineFile \<Rightarrow> da_block_for_nid st nid = Some 0
      | PSymlink target \<Rightarrow> (\<exists>blk. da_block_for_nid st nid = Some blk \<and> unat blk = a) \<and> unat (len64 target :: u64) \<le> b
      | PChunked chunks _ _ \<Rightarrow> (\<exists>addrs. da_chunk_addrs st nid = Some addrs \<and> chunks_laid b chunks addrs a)
      | PCompressed cp \<Rightarrow> (\<exists>addrs. da_pcluster_addrs st nid = Some addrs \<and> pclusters_laid (cp_pclusters cp) addrs a)
      | _ \<Rightarrow> True)"

definition maps_keep :: "u64 \<Rightarrow> data_layout_state \<Rightarrow> data_layout_state \<Rightarrow> bool" where
  "maps_keep nid st st' =
     (\<forall>k. k \<noteq> nid \<longrightarrow> da_block_for_nid st' k = da_block_for_nid st k \<and> da_chunk_addrs st' k = da_chunk_addrs st k
        \<and> da_pcluster_addrs st' k = da_pcluster_addrs st k)"

lemma laid_keep: "maps_keep nid st st' \<Longrightarrow> nid' \<noteq> nid \<Longrightarrow> laid st n nid' b a \<Longrightarrow> laid st' n nid' b a"
  by (simp add: laid_def maps_keep_def split: plan_kind.splits file_layout.splits if_splits)

lemma lay_data_step:
  assumes l: "lay_data plan nids bs i st = Ok st'" and i: "i < length plan" "i < length nids"
    and bs: "bs \<noteq> 0" "unat bs \<le> 65536" and fit: "unat (da_next st) + node_blocks (unat bs) (plan ! i) < 2 ^ 41"
  shows "laid st' (plan ! i) (nids ! i) (unat bs) (unat (da_next st))
    \<and> unat (da_next st') = unat (da_next st) + node_blocks (unat bs) (plan ! i) \<and> maps_keep (nids ! i) st st'"
proof (cases "pn_kind (plan ! i)")
  case (PFile data layout)
  show ?thesis
  proof (cases layout)
    case PlainFile
    note k = PFile [unfolded PlainFile]
    show ?thesis
    proof (cases "data = []")
      case False
      have n: "node_blocks (unat bs) (plan ! i) = blocks_for (unat bs) data" by (simp add: node_blocks_def k)
      then have u: "unat (div_ceil (len64 data) bs) = blocks_for (unat bs) data" using bs fit by (intro unat_blocks_for) simp_all
      have "unat (da_next st + div_ceil (len64 data) bs) = unat (da_next st) + blocks_for (unat bs) data"
        using fit n by (subst unat_add_no_wrap) (simp_all add: u)
      then show ?thesis using l i False by (auto simp: lay_data_def k laid_def n maps_keep_def)
    qed (use l i bs in \<open>auto simp: lay_data_def k laid_def node_blocks_def blocks_for_def maps_keep_def unat_gt_0\<close>)
  qed (use l i in \<open>auto simp: lay_data_def PFile laid_def node_blocks_def maps_keep_def\<close>)
next
  case (PSymlink target)
  have "unat (da_next st + 1) = unat (da_next st) + 1" using fit by (subst unat_add_no_wrap) (simp_all add: node_blocks_def PSymlink)
  then show ?thesis using l i by (auto simp: lay_data_def PSymlink laid_def node_blocks_def maps_keep_def not_less word_le_nat_alt split: if_splits)
next
  case (PChunked chunks cb ix)
  then show ?thesis using l i chunk_addresses_laid [OF _ bs] fit
    by (fastforce simp: lay_data_def laid_def node_blocks_def maps_keep_def)
next
  case (PCompressed cp)
  then show ?thesis using l i pcluster_addresses_laid fit
    by (fastforce simp: lay_data_def laid_def node_blocks_def maps_keep_def)
qed (use l i in \<open>auto simp: lay_data_def laid_def node_blocks_def maps_keep_def\<close>)

text \<open>Where the blocks of node \<open>k\<close> begin.\<close>

definition data_pos :: "nat \<Rightarrow> plan_node list \<Rightarrow> nat \<Rightarrow> nat \<Rightarrow> nat" where
  "data_pos b plan start k = start + sum_list (map (node_blocks b) (take k plan))"

lemma data_pos_Suc: "k < length plan \<Longrightarrow> data_pos b plan start (Suc k) = data_pos b plan start k + node_blocks b (plan ! k)"
  by (simp add: data_pos_def take_Suc_conv_app_nth)

lemma data_pos_mono: "i \<le> j \<Longrightarrow> data_pos b plan start i \<le> data_pos b plan start j"
proof -
  assume "i \<le> j"
  then have "take j plan = take i plan @ take (j - i) (drop i plan)" by (metis le_add_diff_inverse take_add)
  then show ?thesis by (simp add: data_pos_def)
qed

lemma lay_data_all:
  assumes incr: "\<And>i j. i < j \<Longrightarrow> j < length plan \<Longrightarrow> nids ! i < nids ! j" and len: "length nids = length plan"
    and bs: "bs \<noteq> 0" "unat bs \<le> 65536"
    and fit: "data_pos (unat bs) plan (unat (da_next st0)) (length plan) < 2 ^ 41"
  shows "k \<le> length plan \<Longrightarrow> foldR (lay_data plan nids bs) [0..<k] st0 = Ok st \<Longrightarrow>
    unat (da_next st) = data_pos (unat bs) plan (unat (da_next st0)) k
    \<and> (\<forall>i<k. laid st (plan ! i) (nids ! i) (unat bs) (data_pos (unat bs) plan (unat (da_next st0)) i))"
proof (induction k arbitrary: st)
  case 0
  then show ?case by (simp add: data_pos_def)
next
  case (Suc k)
  let ?p = "data_pos (unat bs) plan (unat (da_next st0))"
  from Suc.prems(2) obtain mid where m: "foldR (lay_data plan nids bs) [0..<k] st0 = Ok mid" "lay_data plan nids bs k mid = Ok st"
    by (auto simp: foldR_snoc)
  have k: "k < length plan" "k < length nids" using Suc.prems(1) len by simp_all
  have ih: "unat (da_next mid) = ?p k" "\<forall>i<k. laid mid (plan ! i) (nids ! i) (unat bs) (?p i)"
    using Suc.IH [OF Suc_leD [OF Suc.prems(1)] m(1)] by simp_all
  have "?p k + node_blocks (unat bs) (plan ! k) < 2 ^ 41"
    using data_pos_mono [of "Suc k" "length plan" "unat bs" plan "unat (da_next st0)"] Suc.prems(1) fit data_pos_Suc [OF k(1)] by simp
  then have s: "laid st (plan ! k) (nids ! k) (unat bs) (?p k)" "unat (da_next st) = ?p (Suc k)" "maps_keep (nids ! k) mid st"
    using lay_data_step [OF m(2) k bs] ih(1) data_pos_Suc [OF k(1)] by simp_all
  have "laid st (plan ! i) (nids ! i) (unat bs) (?p i)" if "i < k" for i
    using laid_keep [OF s(3)] ih(2) incr [OF that k(1)] that by simp
  then show ?case using s(1,2) by (auto simp: less_Suc_eq)
qed

section \<open>Writing the data blocks\<close>

definition chunk_parts :: "nat \<Rightarrow> bytes option list \<Rightarrow> u32 list \<Rightarrow> (nat \<times> bytes) list" where
  "chunk_parts b chunks addrs =
     concat (map2 (\<lambda>c x. case c of None \<Rightarrow> [] | Some buf \<Rightarrow> [(unat x * b, buf)]) chunks addrs)"

definition pcluster_parts :: "nat \<Rightarrow> pcluster_plan list \<Rightarrow> u32 list \<Rightarrow> (nat \<times> bytes) list" where
  "pcluster_parts b pcs addrs =
     concat (map2 (\<lambda>pc x. if pp_block_count pc = 0 then [] else [(unat x * b, pp_block_bytes pc)]) pcs addrs)"

text \<open>The writes of one node.\<close>

definition node_parts :: "data_layout_state \<Rightarrow> plan_node \<Rightarrow> u64 \<Rightarrow> nat \<Rightarrow> (nat \<times> bytes) list" where
  "node_parts st n nid b =
     (case pn_kind n of
        PFile data PlainFile \<Rightarrow> if data = [] then [] else [(unat (the (da_block_for_nid st nid)) * b, data)]
      | PSymlink target \<Rightarrow> [(unat (the (da_block_for_nid st nid)) * b, target)]
      | PChunked chunks _ _ \<Rightarrow> chunk_parts b chunks (the (da_chunk_addrs st nid))
      | PCompressed cp \<Rightarrow> pcluster_parts b (cp_pclusters cp) (the (da_pcluster_addrs st nid))
      | _ \<Rightarrow> [])"

lemma unat_addr: "unat bs \<le> 65536 \<Longrightarrow> unat (ucast (x :: u32) * bs :: u64) = unat x * unat bs"
proof -
  assume b: "unat bs \<le> 65536"
  have "unat x * unat bs \<le> 2 ^ 32 * 65536" using b unsigned_less [of x, where 'a = nat] by (intro mult_le_mono) simp_all
  then show ?thesis by (subst unat_mult_no_wrap) (simp_all add: unat_ucast_up)
qed

lemma drop_is_Cons: "drop k xs = y # ys \<Longrightarrow> k < length xs \<and> xs ! k = y \<and> drop (Suc k) xs = ys"
proof -
  assume d: "drop k xs = y # ys"
  then have k: "k < length xs" by (metis drop_all list.distinct(1) not_le)
  show ?thesis using Cons_nth_drop_Suc [OF k] d k by simp
qed

lemma emit_chunks_parts:
  "chunks_laid b chunks addrs' a \<Longrightarrow> drop k addrs = addrs' \<Longrightarrow> unat bs \<le> 65536 \<Longrightarrow>
     emit_chunks bs chunks addrs k img = write_parts (chunk_parts (unat bs) chunks addrs') img"
proof (induction b chunks addrs' a arbitrary: k img rule: chunks_laid.induct)
  case (2 b cs x addrs' a)
  from drop_is_Cons [OF 2(3)] 2 show ?case by (simp add: chunk_parts_def)
next
  case (3 b buf cs x addrs' a)
  note d = drop_is_Cons [OF 3(3)]
  have "chunks_laid b cs addrs' (a + chunk_blocks b (Some buf))" using 3(2) by simp
  then have "emit_chunks bs cs addrs (Suc k) = write_parts (chunk_parts (unat bs) cs addrs')"
    using 3(1) [of "Suc k"] d 3(4) by (intro ext) simp
  then show ?case using d 3(4) by (simp add: chunk_parts_def unat_addr)
qed (simp_all add: chunk_parts_def)

lemma emit_pclusters_parts:
  "pclusters_laid pcs addrs' a \<Longrightarrow> drop k addrs = addrs' \<Longrightarrow> unat bs \<le> 65536 \<Longrightarrow>
     emit_pclusters bs pcs addrs k img = write_parts (pcluster_parts (unat bs) pcs addrs') img"
proof (induction pcs addrs' a arbitrary: k img rule: pclusters_laid.induct)
  case (2 pc pcs x addrs' a)
  note d = drop_is_Cons [OF 2(3)]
  have "pclusters_laid pcs addrs' (a + unat (pp_block_count pc))" using 2(2) by simp
  then have "emit_pclusters bs pcs addrs (Suc k) = write_parts (pcluster_parts (unat bs) pcs addrs')"
    using 2(1) [of "Suc k"] d 2(4) by (intro ext) simp
  then show ?case using d 2(4) by (simp add: pcluster_parts_def unat_addr)
qed (simp_all add: pcluster_parts_def)

lemma write_one: "write_parts [(a, xs)] img = put_at img a xs"
proof -
  have "write_parts [] = Ok" by (rule ext) simp
  then show ?thesis by (cases "put_at img a xs") simp_all
qed

lemma emit_data_parts:
  assumes l: "laid (im_data im) (im_plan im ! i) (im_nids im ! i) (unat bs) a" and i: "i < length (im_plan im)" "i < length (im_nids im)"
    and bs: "unat bs \<le> 65536" and a: "a < 2 ^ 41"
  shows "emit_data im bs i img = write_parts (node_parts (im_data im) (im_plan im ! i) (im_nids im ! i) (unat bs)) img"
proof -
  have u: "unat (blk * bs) = unat blk * unat bs" if "unat blk = a" for blk :: u64
  proof -
    have "unat blk * unat bs \<le> 2 ^ 41 * 65536" using that a bs by (intro mult_le_mono) simp_all
    then show ?thesis by (intro unat_block) simp
  qed
  show ?thesis
  proof (cases "pn_kind (im_plan im ! i)")
    case (PFile data layout)
    then show ?thesis using l i u
      by (cases layout) (auto simp: emit_data_def laid_def node_parts_def Let_def map_at_def write_one simp del: write_parts.simps(2) split: if_splits)
  next
    case (PSymlink target)
    then show ?thesis using l i u
      by (auto simp: emit_data_def laid_def node_parts_def Let_def map_at_def write_one simp del: write_parts.simps(2))
  next
    case (PChunked chunks cb ix)
    then show ?thesis using l i emit_chunks_parts [OF _ _ bs, of "unat bs" chunks _ a 0]
      by (auto simp: emit_data_def laid_def node_parts_def Let_def map_at_def)
  next
    case (PCompressed cp)
    then show ?thesis using l i emit_pclusters_parts [OF _ _ bs, of "cp_pclusters cp" _ a 0]
      by (auto simp: emit_data_def laid_def node_parts_def Let_def map_at_def)
  qed (use i in \<open>simp_all add: emit_data_def node_parts_def Let_def\<close>)
qed

text \<open>The bytes of a node stay in its blocks.\<close>

definition bytes_fit :: "nat \<Rightarrow> plan_node \<Rightarrow> bool" where
  "bytes_fit b n =
     (case pn_kind n of
        PSymlink target \<Rightarrow> length target \<le> b
      | PCompressed cp \<Rightarrow> list_all (\<lambda>pc. length (pp_block_bytes pc) \<le> unat (pp_block_count pc) * b) (cp_pclusters cp)
      | _ \<Rightarrow> True)"

lemma seq_parts_Cons: "lo \<le> a \<Longrightarrow> a + length xs \<le> m \<Longrightarrow> seq_parts ps m hi \<Longrightarrow> seq_parts ((a, xs) # ps) lo hi"
  using seq_parts_mono by auto

lemma chunk_parts_seq:
  "chunks_laid b chunks addrs a \<Longrightarrow> 0 < b \<Longrightarrow>
     seq_parts (chunk_parts b chunks addrs) (a * b) ((a + sum_list (map (chunk_blocks b) chunks)) * b)"
proof (induction b chunks addrs a rule: chunks_laid.induct)
  case (2 b cs x addrs a)
  have "chunk_blocks b None = 0" by (simp add: chunk_blocks_def)
  then show ?case using 2 by (simp add: chunk_parts_def)
next
  case (3 b buf cs x addrs a)
  have "length buf \<le> blocks_for b buf * b" by (rule length_le_blocks [OF 3(3)])
  also have "\<dots> \<le> chunk_blocks b (Some buf) * b" by (rule mult_le_mono1) (simp add: chunk_blocks_def)
  finally have "a * b + length buf \<le> (a + chunk_blocks b (Some buf)) * b" by (simp add: algebra_simps)
  then show ?case using 3 seq_parts_Cons [of "a * b" "a * b" buf] by (simp add: chunk_parts_def add.assoc del: seq_parts.simps)
qed (simp_all add: chunk_parts_def)

lemma pcluster_parts_seq:
  "pclusters_laid pcs addrs a \<Longrightarrow> list_all (\<lambda>pc. length (pp_block_bytes pc) \<le> unat (pp_block_count pc) * b) pcs \<Longrightarrow>
     seq_parts (pcluster_parts b pcs addrs) (a * b) ((a + sum_list (map (unat \<circ> pp_block_count) pcs)) * b)"
proof (induction pcs addrs a rule: pclusters_laid.induct)
  case (2 pc pcs x addrs a)
  have "a * b + length (pp_block_bytes pc) \<le> (a + unat (pp_block_count pc)) * b" using 2(3) by (simp add: algebra_simps)
  moreover have "seq_parts (pcluster_parts b pcs addrs) ((a + unat (pp_block_count pc)) * b)
      ((a + sum_list (map (unat \<circ> pp_block_count) (pc # pcs))) * b)" using 2 by (simp add: add.assoc comp_def)
  ultimately show ?case using 2(2) seq_parts_Cons [of "a * b" "a * b" "pp_block_bytes pc"] seq_parts_mono
    by (cases "pp_block_count pc = 0") (auto simp: pcluster_parts_def comp_def simp del: seq_parts.simps)
qed (simp_all add: pcluster_parts_def)

lemma node_parts_seq:
  assumes "laid st n nid b a" "bytes_fit b n" "0 < b"
  shows "seq_parts (node_parts st n nid b) (a * b) ((a + node_blocks b n) * b)"
proof (cases "pn_kind n")
  case (PFile data layout)
  then show ?thesis using assms length_le_blocks [OF assms(3), of data]
    by (cases layout) (auto simp: laid_def node_parts_def node_blocks_def blocks_for_def algebra_simps split: if_splits)
next
  case (PSymlink target)
  then show ?thesis using assms by (auto simp: laid_def node_parts_def node_blocks_def bytes_fit_def)
next
  case (PChunked chunks cb ix)
  then show ?thesis using assms chunk_parts_seq by (auto simp: laid_def node_parts_def node_blocks_def)
next
  case (PCompressed cp)
  then show ?thesis using assms pcluster_parts_seq by (auto simp: laid_def node_parts_def node_blocks_def bytes_fit_def)
qed (simp_all add: node_parts_def node_blocks_def)

section \<open>What the passes have settled\<close>

definition data_area_start :: "image_plan \<Rightarrow> u64 \<Rightarrow> u64" where
  "data_area_start im bs =
     div_ceil SB_AREA_END bs
       + div_ceil (div_ceil (if im_slots im = [] then 0 else slot_end (last (im_slots im))) COMPACT_INODE_SIZE * COMPACT_INODE_SIZE) bs"

lemma plan_image_cases:
  assumes "plan_image E root bs options = Ok (im, total_blocks)"
  obtains k flat planned where
    "flatten root 0 [] = Ok (k, flat)" "mapR (\<lambda>n. plan_body E n bs (lzma_dict_size_override options flat)) flat = Ok planned"
    "im_plan im = map fst planned" "im_bodies im = map snd planned" "im_slots im = plan_meta_layout (im_bodies im) bs"
    "im_nids im = map slot_nid (im_slots im)" "im_meta_blkaddr im = ucast (div_ceil SB_AREA_END bs)"
    "im_meta_byte_base im = div_ceil SB_AREA_END bs * bs"
    "foldR (lay_dir (im_plan im) (im_nids im) bs) [0..<length (im_plan im)]
       \<lparr>dl_blocks = [], dl_block_for_nid = Map.empty, dl_size_for_nid = Map.empty, dl_next = data_area_start im bs\<rparr> = Ok (im_dirs im)"
    "foldR (lay_data (im_plan im) (im_nids im) bs) [0..<length (im_plan im)]
       \<lparr>da_block_for_nid = Map.empty, da_chunk_addrs = Map.empty, da_pcluster_addrs = Map.empty,
        da_any_compressed = False, da_any_inline_tail = False, da_next = dl_next (im_dirs im)\<rparr> = Ok (im_data im)"
    "total_blocks = max (da_next (im_data im)) (data_area_start im bs)" "\<not> total_blocks < 2" "\<not> 0xFFFFFFFF < total_blocks"
proof -
  from assms obtain k flat planned dirs data where
    1: "flatten root 0 [] = Ok (k, flat)" "mapR (\<lambda>n. plan_body E n bs (lzma_dict_size_override options flat)) flat = Ok planned"
    and im: "im_plan im = map fst planned" "im_bodies im = map snd planned" "im_slots im = plan_meta_layout (im_bodies im) bs"
    "im_nids im = map slot_nid (im_slots im)" "im_meta_blkaddr im = ucast (div_ceil SB_AREA_END bs)"
    "im_meta_byte_base im = div_ceil SB_AREA_END bs * bs" "im_dirs im = dirs" "im_data im = data"
    and 2: "foldR (lay_dir (im_plan im) (im_nids im) bs) [0..<length (im_plan im)]
       \<lparr>dl_blocks = [], dl_block_for_nid = Map.empty, dl_size_for_nid = Map.empty, dl_next = data_area_start im bs\<rparr> = Ok dirs"
    "foldR (lay_data (im_plan im) (im_nids im) bs) [0..<length (im_plan im)]
       \<lparr>da_block_for_nid = Map.empty, da_chunk_addrs = Map.empty, da_pcluster_addrs = Map.empty,
        da_any_compressed = False, da_any_inline_tail = False, da_next = dl_next dirs\<rparr> = Ok data"
    "total_blocks = max (da_next data) (data_area_start im bs)" "\<not> total_blocks < 2" "\<not> 0xFFFFFFFF < total_blocks"
    unfolding plan_image_def Let_def data_area_start_def by (auto split: if_splits)
  show thesis by (rule that [OF 1 im(1-6)]) (simp_all only: im(7,8) 2(1,2,3) 2(4,5)[unfolded 2(3)] not_False_eq_True)
qed

text \<open>The bounds that hold of everything that fits a memory.\<close>

definition source_len :: "plan_node \<Rightarrow> nat" where
  "source_len n =
     (case pn_kind n of
        PSymlink target \<Rightarrow> length target
      | PCompressed cp \<Rightarrow> length (cp_src cp)
      | PDir children \<Rightarrow> 12 * length children + sum_list (map (length \<circ> fst) children)
      | _ \<Rightarrow> 0)"

definition image_fits :: "nat \<Rightarrow> image_plan \<Rightarrow> bool" where
  "image_fits b im =
     (room (im_bodies im) b < 2 ^ 46
      \<and> sum_list (map (length \<circ> snd) (dl_blocks (im_dirs im))) + sum_list (map (node_blocks b) (im_plan im)) < 2 ^ 40
      \<and> list_all (\<lambda>n. source_len n < 2 ^ 40) (im_plan im))"

lemma plan_body_cases:
  assumes "plan_body E n bs ovr = Ok (n', body)"
  obtains xb xc fsize kind tail kind' z where
    "encode_inline_xattrs (pn_xattrs n) = Ok (xb, xc)" "planned_size (pn_kind n) bs = Ok fsize"
    "plan_tail (pn_kind n) bs (inode_body_size (needs_extended fsize (pn_meta n))) xb = (kind, tail)"
    "case kind of
       PCompressed cp \<Rightarrow> \<exists>cp'. kind' = PCompressed cp'
         \<and> plan_compressed E cp bs ovr (inode_body_size (needs_extended fsize (pn_meta n))) (len64 xb) = Ok (cp', z)
     | _ \<Rightarrow> kind' = kind \<and> z = 0"
    "n' = n\<lparr>pn_kind := kind'\<rparr>"
    "body = \<lparr>ib_body_size = inode_body_size (needs_extended fsize (pn_meta n)), ib_is_extended = needs_extended fsize (pn_meta n),
       ib_xattr_bytes = xb, ib_xattr_icount = xc, ib_inline_tail = tail, ib_chunkmap_bytes = plan_chunkmap kind, ib_zmap_bytes = z\<rparr>"
proof -
  let ?bsz = "\<lambda>fsize. inode_body_size (needs_extended fsize (pn_meta n))"
  from assms obtain xb xc fsize where
    1: "encode_inline_xattrs (pn_xattrs n) = Ok (xb, xc)" "planned_size (pn_kind n) bs = Ok fsize"
    by (cases "encode_inline_xattrs (pn_xattrs n)"; cases "planned_size (pn_kind n) bs") (auto simp: plan_body_def simp del: bindR_eq_Ok)
  obtain kind tail where t: "plan_tail (pn_kind n) bs (?bsz fsize) xb = (kind, tail)" by fastforce
  from assms obtain kind' z where
    2: "(case kind of PCompressed cp \<Rightarrow> bindR (plan_compressed E cp bs ovr (?bsz fsize) (len64 xb)) (\<lambda>(cp, zmap_bytes).
          Ok (PCompressed cp, zmap_bytes)) | _ \<Rightarrow> Ok (kind, 0)) = Ok (kind', z)"
    and 3: "n' = n\<lparr>pn_kind := kind'\<rparr>"
      "body = \<lparr>ib_body_size = ?bsz fsize, ib_is_extended = needs_extended fsize (pn_meta n),
         ib_xattr_bytes = xb, ib_xattr_icount = xc, ib_inline_tail = tail, ib_chunkmap_bytes = plan_chunkmap kind, ib_zmap_bytes = z\<rparr>"
    unfolding plan_body_def Let_def 1 bindR_simps prod.case t by (simp only: bindR_eq_Ok split_paired_Ex prod.case) auto
  show thesis by (rule that [OF 1 t _ 3]) (use 2 in \<open>auto split: plan_kind.splits\<close>)
qed

lemma plan_body_size: "plan_body E n bs ovr = Ok (n', body) \<Longrightarrow> ib_body_size body = inode_body_size (ib_is_extended body)"
  by (erule plan_body_cases) simp

lemma pad_length: "pad_pcluster_block raw bs tb t algo = Ok b \<Longrightarrow> length b = unat bs * unat tb"
  using pad_pcluster_block_fits [of raw bs tb t algo b] by (cases "t = LCLUSTER_TYPE_HEAD1 \<and> algo = AlgoLz4") (auto simp: pad_pcluster_block_eq)

lemma plan_body_blocks:
  assumes p: "plan_body E n bs ovr = Ok (n', body)" "pn_kind n' = PCompressed cp'" and src: "length (cp_src cp') < 2 ^ 40"
    and bs: "512 \<le> unat bs" "unat bs \<le> 65536" and pc: "pc \<in> set (cp_pclusters cp')"
  shows "length (pp_block_bytes pc) \<le> unat (pp_block_count pc) * unat bs"
proof -
  from p obtain cp bsz xl z where pl: "plan_compressed E cp bs ovr bsz xl = Ok (cp', z)"
    by (elim plan_body_cases) (auto split: plan_kind.splits)
  obtain pcs entries blocks where
    c: "plan_compressed_pclusters_with_cfg E (cp_src cp) (cp_algo cp) (cp_lclusterbits cp) bs (cp_target_pcluster_blocks cp) ovr
       = Ok (pcs, entries, blocks)" "cp_src cp' = cp_src cp"
    and s: "cp_pclusters cp' = pcs \<or> cp_pclusters cp' = steal_last pcs \<and> pcs \<noteq> []"
    by (rule plan_compressed_cases [OF pl]) (auto simp: inlined_size_def split: if_splits)
  have ok: "pclusters_ok E (cp_src cp) (cp_algo cp) ovr (unat bs * 2 ^ unat (cp_lclusterbits cp)) bs (max (cp_target_pcluster_blocks cp) 1) pcs"
    using collate_gives [OF c(1) bs] src c(2) by (simp add: collated_def)
  have each: "length (pp_block_bytes q) \<le> unat (pp_block_count q) * unat bs" if q: "q \<in> set pcs" for q
  proof -
    from q ok obtain raw where r: "pad_pcluster_block raw bs (pp_block_count q) (pp_cluster_type q) (cp_algo cp) = Ok (pp_block_bytes q)"
      by (auto simp: pclusters_ok_def pcluster_ok_def Let_def in_set_conv_nth)
    then show ?thesis using pad_length [OF r] by (simp add: mult.commute)
  qed
  show ?thesis using s pc each [OF in_set_butlastD] each by (auto simp: steal_last_def)
qed

text \<open>The slots: where they end, and that their node ids increase.\<close>

lemma slot_end_bound:
  assumes "slots_ok b bodies slots 0" "i < length slots"
  shows "unat (slot_end (slots ! i)) \<le> room (take (Suc i) bodies) b"
  using assms(2)
proof (induction i)
  case 0
  then show ?case using assms(1) by (cases bodies) (auto simp: slots_ok_def slot_ok_def room_def)
next
  case (Suc i)
  have s: "slot_ok b (bodies ! Suc i) (slots ! Suc i) (unat (slot_end (slots ! i)))" and l: "Suc i < length bodies"
    using assms(1) Suc.prems by (auto simp: slots_ok_def)
  have "room (take (Suc (Suc i)) bodies) b = room (take (Suc i) bodies) b + (span_len (bodies ! Suc i) + 32 + b)"
    using l by (simp add: room_def take_Suc_conv_app_nth)
  then show ?case using s Suc by (simp add: slot_ok_def)
qed

lemma room_take: "room (take k bodies) b \<le> room bodies b"
proof -
  have "room bodies b = room (take k bodies) b + room (drop k bodies) b"
    unfolding room_def by (simp flip: sum_list_append map_append)
  then show ?thesis by simp
qed

lemma nids_increase:
  assumes ok: "slots_ok b bodies slots c" and pos: "\<forall>body\<in>set bodies. 0 < span_len body" and ij: "i < j" "j < length slots"
  shows "slot_nid (slots ! i) < slot_nid (slots ! j)"
proof -
  have i: "slot_ok b (bodies ! i) (slots ! i) (if i = 0 then c else unat (slot_end (slots ! (i - 1))))"
    and j: "32 dvd unat (ms_start (slots ! j))" and len: "length slots = length bodies"
    using ok ij by (auto simp: slots_ok_def slot_ok_def)
  have "0 < span_len (bodies ! i)" using pos ij len by simp
  then have "unat (ms_start (slots ! i)) < unat (ms_start (slots ! j))"
    using slots_apart [OF ok ij] i by (simp add: slot_ok_def)
  moreover have "unat (slot_nid s) = unat (ms_start s) div 32" for s by (simp add: slot_nid_def inode_consts unat_div)
  moreover have "32 dvd unat (ms_start (slots ! i))" using i by (simp add: slot_ok_def)
  ultimately show ?thesis using j by (auto simp: word_less_nat_alt elim!: dvdE)
qed

text \<open>How the areas of the image follow one another: the inodes, the directories, the data.\<close>

record image_map =
  mp_base :: nat
  mp_dirs :: nat
  mp_data :: nat
  mp_stop :: nat

definition map_of_image :: "image_plan \<Rightarrow> u64 \<Rightarrow> image_map" where
  "map_of_image im bs =
     \<lparr>mp_base = unat (im_meta_byte_base im), mp_dirs = unat (data_area_start im bs), mp_data = unat (dl_next (im_dirs im)),
      mp_stop = unat (da_next (im_data im))\<rparr>"

definition node_pos :: "image_plan \<Rightarrow> u64 \<Rightarrow> nat \<Rightarrow> nat" where
  "node_pos im bs i = data_pos (unat bs) (im_plan im) (unat (dl_next (im_dirs im))) i"

definition image_laid :: "image_plan \<Rightarrow> u64 \<Rightarrow> bool" where
  "image_laid im bs =
     (let mp = map_of_image im bs; b = unat bs; n = length (im_plan im) in
      length (im_bodies im) = n \<and> length (im_slots im) = n \<and> im_nids im = map slot_nid (im_slots im)
      \<and> b dvd mp_base mp \<and> 1152 \<le> mp_base mp \<and> b \<le> mp_base mp
      \<and> (\<forall>i<n. mp_base mp \<le> inode_at im i \<and> inode_stop im i \<le> mp_dirs mp * b
             \<and> inode_at im i = mp_base mp + unat (slot_nid (im_slots im ! i)) * 32)
      \<and> (\<forall>i j. i < j \<longrightarrow> j < n \<longrightarrow> inode_stop im i \<le> inode_at im j \<and> im_nids im ! i < im_nids im ! j)
      \<and> mp_dirs mp \<le> mp_data mp \<and> mp_data mp \<le> mp_stop mp \<and> mp_stop mp < 2 ^ 32
      \<and> mp_base mp \<le> mp_dirs mp * b
      \<and> dirs_listed (im_plan im) (im_nids im) bs n (im_dirs im)
      \<and> seq_dirs (dl_block_for_nid (im_dirs im)) (dl_blocks (im_dirs im)) (mp_dirs mp) (mp_data mp)
      \<and> (\<forall>i<n. laid (im_data im) (im_plan im ! i) (im_nids im ! i) b (node_pos im bs i) \<and> bytes_fit b (im_plan im ! i))
      \<and> mp_stop mp = node_pos im bs n)"

lemma image_laidD:
  assumes "image_laid im bs"
  shows "length (im_bodies im) = length (im_plan im)" "length (im_slots im) = length (im_plan im)" "im_nids im = map slot_nid (im_slots im)"
    "unat bs dvd mp_base (map_of_image im bs)" "1152 \<le> mp_base (map_of_image im bs)" "unat bs \<le> mp_base (map_of_image im bs)"
    "\<And>i. i < length (im_plan im) \<Longrightarrow> mp_base (map_of_image im bs) \<le> inode_at im i
       \<and> inode_stop im i \<le> mp_dirs (map_of_image im bs) * unat bs
       \<and> inode_at im i = mp_base (map_of_image im bs) + unat (slot_nid (im_slots im ! i)) * 32"
    "\<And>i j. i < j \<Longrightarrow> j < length (im_plan im) \<Longrightarrow> inode_stop im i \<le> inode_at im j \<and> im_nids im ! i < im_nids im ! j"
    "mp_dirs (map_of_image im bs) \<le> mp_data (map_of_image im bs)" "mp_data (map_of_image im bs) \<le> mp_stop (map_of_image im bs)"
    "mp_stop (map_of_image im bs) < 2 ^ 32" "mp_base (map_of_image im bs) \<le> mp_dirs (map_of_image im bs) * unat bs"
    "dirs_listed (im_plan im) (im_nids im) bs (length (im_plan im)) (im_dirs im)"
    "seq_dirs (dl_block_for_nid (im_dirs im)) (dl_blocks (im_dirs im)) (mp_dirs (map_of_image im bs)) (mp_data (map_of_image im bs))"
    "\<And>i. i < length (im_plan im) \<Longrightarrow> laid (im_data im) (im_plan im ! i) (im_nids im ! i) (unat bs) (node_pos im bs i)"
    "\<And>i. i < length (im_plan im) \<Longrightarrow> bytes_fit (unat bs) (im_plan im ! i)"
    "mp_stop (map_of_image im bs) = node_pos im bs (length (im_plan im))"
  using assms unfolding image_laid_def Let_def by blast+

lemma meta_area:
  assumes bs: "512 \<le> unat bs" "unat bs \<le> 65536" and slots: "slots_ok (unat bs) (im_bodies im) (im_slots im) 0"
    and room: "room (im_bodies im) (unat bs) < 2 ^ 46" and base: "im_meta_byte_base im = div_ceil SB_AREA_END bs * bs"
  shows "unat (im_meta_byte_base im) = ceil_to (unat bs) 1152" "unat (data_area_start im bs) < 2 ^ 40"
    "unat (im_meta_byte_base im) \<le> unat (data_area_start im bs) * unat bs"
    "i < length (im_slots im) \<Longrightarrow>
       unat (im_meta_byte_base im) + unat (slot_end (im_slots im ! i)) \<le> unat (data_area_start im bs) * unat bs"
proof -
  let ?b = "unat bs" and ?slots = "im_slots im"
  define e where "e = (if ?slots = [] then 0 else slot_end (last ?slots))"
  have nz: "bs \<noteq> 0" and b0: "0 < ?b" using bs(1) by auto
  have sb: "unat SB_AREA_END = 1152" by (simp add: SB_AREA_END_def sb_consts)
  have bound: "unat (slot_end (?slots ! i)) < 2 ^ 46" if "i < length ?slots" for i
    using slot_end_bound [OF slots that] room_take [of "Suc i" "im_bodies im" ?b] room by simp
  have e46: "unat e < 2 ^ 46" using bound [of "length ?slots - 1"] by (cases "?slots = []") (simp_all add: e_def last_conv_nth)
  define q1 where "q1 = unat (div_ceil SB_AREA_END bs)"
  define q2 where "q2 = unat (div_ceil (div_ceil e COMPACT_INODE_SIZE * COMPACT_INODE_SIZE) bs)"
  have u32: "unat (div_ceil e COMPACT_INODE_SIZE * COMPACT_INODE_SIZE) = ceil_to 32 (unat e)"
    using unat_ceil_mult [of 32 e] e46 by (simp add: inode_consts)
  have c32: "unat e \<le> ceil_to 32 (unat e)" "ceil_to 32 (unat e) < unat e + 32" using ceil_to_bounds [of 32 "unat e"] by simp_all
  have q1: "q1 * ?b = ceil_to ?b 1152" by (simp add: q1_def unat_div_ceil nz sb ceil_to_def)
  have q2: "q2 * ?b = ceil_to ?b (ceil_to 32 (unat e))" by (simp add: q2_def unat_div_ceil nz u32 ceil_to_def)
  note cb = ceil_to_bounds [OF b0, of 1152] ceil_to_bounds [OF b0, of "ceil_to 32 (unat e)"]
  have "q1 * 512 \<le> q1 * ?b" "q2 * 512 \<le> q2 * ?b" using bs(1) by simp_all
  then have lt: "q1 < 2 ^ 38" "q2 < 2 ^ 38" using cb(2,5) q1 q2 c32 e46 bs(2) by simp_all
  have start: "unat (data_area_start im bs) = q1 + q2"
    unfolding data_area_start_def e_def [symmetric] q1_def q2_def
    by (rule unat_add_no_wrap) (use lt in \<open>simp add: q1_def q2_def\<close>)
  show b: "unat (im_meta_byte_base im) = ceil_to ?b 1152"
    unfolding base by (subst unat_ceil_mult) (use nz bs(2) in \<open>simp_all add: sb\<close>)
  show "unat (data_area_start im bs) < 2 ^ 40" using lt by (simp add: start)
  have prod: "unat (data_area_start im bs) * ?b = ceil_to ?b 1152 + ceil_to ?b (ceil_to 32 (unat e))"
    by (simp add: start distrib_right q1 q2)
  then show "unat (im_meta_byte_base im) \<le> unat (data_area_start im bs) * ?b" by (simp add: b)
  show "unat (im_meta_byte_base im) + unat (slot_end (?slots ! i)) \<le> unat (data_area_start im bs) * ?b" if i: "i < length ?slots"
  proof -
    let ?l = "length ?slots - 1"
    have l: "unat (slot_end (?slots ! ?l)) = unat e" using i by (auto simp: e_def last_conv_nth)
    have "unat (slot_end (?slots ! i)) \<le> unat e"
    proof (cases "i = ?l")
      case False
      then have "unat (slot_end (?slots ! i)) \<le> unat (ms_start (?slots ! ?l))" using i by (intro slots_apart [OF slots]) simp_all
      also have "\<dots> \<le> unat (slot_end (?slots ! ?l))" using slots i by (simp add: slots_ok_def slot_ok_def)
      finally show ?thesis unfolding l .
    qed (use l in simp)
    then show ?thesis using cb(4) c32 by (simp add: b prod)
  qed
qed

lemma planned_bodies:
  assumes p: "mapR (\<lambda>n. plan_body E n bs ovr) flat = Ok planned" and bs: "512 \<le> unat bs" "unat bs \<le> 65536" and i: "i < length planned"
    and src: "source_len (fst (planned ! i)) < 2 ^ 40"
  shows "ib_body_size (snd (planned ! i)) = inode_body_size (ib_is_extended (snd (planned ! i)))"
    "plan_body E (flat ! i) bs ovr = Ok (planned ! i)"
    "pn_kind (fst (planned ! i)) = PCompressed cp \<Longrightarrow> bytes_fit (unat bs) (fst (planned ! i))"
proof -
  show b: "plan_body E (flat ! i) bs ovr = Ok (planned ! i)"
    using p i by (simp add: mapR_eq_Ok list_all2_conv_all_nth)
  then have b': "plan_body E (flat ! i) bs ovr = Ok (fst (planned ! i), snd (planned ! i))" by simp
  show "ib_body_size (snd (planned ! i)) = inode_body_size (ib_is_extended (snd (planned ! i)))" by (rule plan_body_size [OF b'])
  assume k: "pn_kind (fst (planned ! i)) = PCompressed cp"
  have "length (cp_src cp) < 2 ^ 40" using src k by (simp add: source_len_def)
  then show "bytes_fit (unat bs) (fst (planned ! i))"
    using plan_body_blocks [OF b' k _ bs] k by (simp add: bytes_fit_def list_all_iff)
qed

lemma laid_bytes_fit:
  assumes "laid st n nid b a" "source_len n < 2 ^ 40" "\<And>cp. pn_kind n = PCompressed cp \<Longrightarrow> bytes_fit b n"
  shows "bytes_fit b n"
  using assms by (cases "pn_kind n") (auto simp: bytes_fit_def laid_def source_len_def unat_of_nat)

lemma plan_image_laid:
  assumes p: "plan_image E root bs options = Ok (im, total_blocks)" and bs: "512 \<le> unat bs" "unat bs \<le> 65536" "32 dvd unat bs"
    and fits: "image_fits (unat bs) im"
  shows "image_laid im bs \<and> unat total_blocks = mp_stop (map_of_image im bs)
    \<and> (\<forall>i<length (im_plan im). ib_body_size (im_bodies im ! i) = inode_body_size (ib_is_extended (im_bodies im ! i)))"
proof -
  let ?n = "length (im_plan im)" and ?b = "unat bs" and ?mp = "map_of_image im bs"
  obtain k flat planned where
    planned: "mapR (\<lambda>n. plan_body E n bs (lzma_dict_size_override options flat)) flat = Ok planned"
      "im_plan im = map fst planned" "im_bodies im = map snd planned"
    and slots: "im_slots im = plan_meta_layout (im_bodies im) bs" and nids: "im_nids im = map slot_nid (im_slots im)"
    and base: "im_meta_byte_base im = div_ceil SB_AREA_END bs * bs"
    and dirs: "foldR (lay_dir (im_plan im) (im_nids im) bs) [0..<?n]
       \<lparr>dl_blocks = [], dl_block_for_nid = Map.empty, dl_size_for_nid = Map.empty, dl_next = data_area_start im bs\<rparr> = Ok (im_dirs im)"
    and data: "foldR (lay_data (im_plan im) (im_nids im) bs) [0..<?n]
       \<lparr>da_block_for_nid = Map.empty, da_chunk_addrs = Map.empty, da_pcluster_addrs = Map.empty,
        da_any_compressed = False, da_any_inline_tail = False, da_next = dl_next (im_dirs im)\<rparr> = Ok (im_data im)"
    and total: "total_blocks = max (da_next (im_data im)) (data_area_start im bs)" "\<not> 0xFFFFFFFF < total_blocks"
    by (rule plan_image_cases [OF p])
  have f: "room (im_bodies im) ?b < 2 ^ 46"
    "sum_list (map (length \<circ> snd) (dl_blocks (im_dirs im))) + sum_list (map (node_blocks ?b) (im_plan im)) < 2 ^ 40"
    "\<And>i. i < ?n \<Longrightarrow> source_len (im_plan im ! i) < 2 ^ 40"
    using fits by (auto simp: image_fits_def list_all_length)
  have b0: "0 < ?b" "bs \<noteq> 0" using bs(1) by auto
  have ok: "slots_ok ?b (im_bodies im) (im_slots im) 0"
    using plan_slots_ok [OF b0(1) bs(3), of 0] f(1) by (simp add: slots plan_meta_layout_def)
  have len: "length (im_bodies im) = ?n" "length (im_slots im) = ?n" "length (im_nids im) = ?n"
    using ok planned(2,3) by (simp_all add: slots_ok_def nids)
  have body: "ib_body_size (im_bodies im ! i) = inode_body_size (ib_is_extended (im_bodies im ! i))"
    and fit_c: "pn_kind (im_plan im ! i) = PCompressed cp \<Longrightarrow> bytes_fit ?b (im_plan im ! i)" if "i < ?n" for i cp
    using planned_bodies [OF planned(1) bs(1,2)] f(3) [OF that] that by (auto simp: planned(2,3))
  have "0 < span_len body" if "body \<in> set (im_bodies im)" for body
    using that body len(1) by (auto simp: span_len_def in_set_conv_nth inode_body_size_def inode_consts)
  then have incr: "im_nids im ! i < im_nids im ! j" if "i < j" "j < ?n" for i j
    using nids_increase [OF ok _ that(1)] that len by (simp add: nids)
  note ma = meta_area [OF bs(1,2) ok f(1) base]
  have listed: "dirs_listed (im_plan im) (im_nids im) bs ?n (im_dirs im)"
    by (rule lay_dirs_listed [OF incr len(3) _ order_refl dirs]) simp_all
  then have bl: "dl_blocks (im_dirs im) = listed_dirs (im_plan im) (im_nids im) bs ?n" by (simp add: dirs_listed_def)
  have seq: "seq_dirs (dl_block_for_nid (im_dirs im)) (dl_blocks (im_dirs im)) (unat (data_area_start im bs)) (unat (dl_next (im_dirs im)))"
    using lay_dirs_seq [OF incr len(3) _ order_refl dirs] f(2) ma(2) by (simp add: bl)
  note sum = seq_dirs_sum [OF seq]
  have "data_pos ?b (im_plan im) (unat (dl_next (im_dirs im))) ?n < 2 ^ 41" using sum f(2) ma(2) by (simp add: data_pos_def)
  then have d: "unat (da_next (im_data im)) = node_pos im bs ?n"
    "\<forall>i<?n. laid (im_data im) (im_plan im ! i) (im_nids im ! i) ?b (node_pos im bs i)"
    using lay_data_all [OF incr len(3) b0(2) bs(2) _ order_refl data] by (simp_all add: node_pos_def)
  have le: "unat (dl_next (im_dirs im)) \<le> unat (da_next (im_data im))" by (simp add: d(1) node_pos_def data_pos_def)
  then have tot: "unat total_blocks = unat (da_next (im_data im))" using sum by (simp add: total(1) max_def word_le_nat_alt)
  have at: "unat (im_meta_byte_base im) + unat (ms_start (im_slots im ! i)) = inode_at im i
      \<and> unat (im_meta_byte_base im) + unat (slot_end (im_slots im ! i)) = inode_stop im i
      \<and> unat (ms_start (im_slots im ! i)) = unat (slot_nid (im_slots im ! i)) * 32" if i: "i < ?n" for i
  proof -
    have s: "slot_ok ?b (im_bodies im ! i) (im_slots im ! i) (if i = 0 then 0 else unat (slot_end (im_slots im ! (i - 1))))"
      using ok i len(2) by (auto simp: slots_ok_def)
    have fit: "unat (im_meta_byte_base im) + unat (slot_end (im_slots im ! i)) < 2 ^ 57"
    proof -
      have "unat (data_area_start im bs) * ?b \<le> 2 ^ 40 * 65536" using ma(2) bs(2) by (intro mult_le_mono) simp_all
      then show ?thesis using ma(4) [of i] i len(2) by simp
    qed
    have "unat (ms_start (im_slots im ! i)) = unat (slot_nid (im_slots im ! i)) * 32"
      using s by (simp add: slot_nid_def inode_consts unat_div slot_ok_def)
    moreover have "unat (ms_start (im_slots im ! i)) \<le> unat (slot_end (im_slots im ! i))" using s by (simp add: slot_ok_def)
    ultimately show ?thesis using fit s
      by (simp add: inode_at_def inode_stop_def unat_add_no_wrap slot_ok_def)
  qed
  have "unat (data_area_start im bs) \<le> unat (dl_next (im_dirs im))" using sum by simp
  moreover have "unat (da_next (im_data im)) < 2 ^ 32" using total(2) tot by (simp add: word_less_nat_alt)
  moreover have "inode_stop im i \<le> inode_at im j" if "i < j" "j < ?n" for i j
    using slots_apart [OF ok that(1)] at [of i] at [of j] that len(2) by simp
  moreover have "1152 \<le> ceil_to ?b 1152" "?b dvd ceil_to ?b 1152" by (rule ceil_to_bounds [OF b0(1)])+
  moreover have "?b \<le> ceil_to ?b 1152" using calculation(4,5) by (intro dvd_imp_le) simp_all
  moreover have "bytes_fit ?b (im_plan im ! i)" if "i < ?n" for i
    using laid_bytes_fit d(2) f(3) fit_c that by blast
  moreover have "unat (im_meta_byte_base im) \<le> inode_at im i
      \<and> inode_at im i = unat (im_meta_byte_base im) + unat (slot_nid (im_slots im ! i)) * 32" if "i < ?n" for i
    using at [OF that] by simp
  moreover have "inode_stop im i \<le> unat (data_area_start im bs) * ?b" if "i < ?n" for i
    using ma(4) [of i] at [OF that] that len(2) by simp
  ultimately have "image_laid im bs"
    unfolding image_laid_def Let_def map_of_image_def using len nids incr ma(1-3) listed seq d le by simp
  then show ?thesis using tot body by (simp add: map_of_image_def)
qed

section \<open>What the image holds\<close>

definition node_written :: "image_plan \<Rightarrow> u64 \<Rightarrow> u8 \<Rightarrow> bytes \<Rightarrow> nat \<Rightarrow> bool" where
  "node_written im bs blkszbits img i =
     (\<exists>ibuf cm zt. encoded_inode im bs i = Ok ibuf \<and> behind_inode im blkszbits i cm zt
        \<and> holds_at img (inode_at im i) (ibuf @ ib_xattr_bytes (im_bodies im ! i) @ ib_inline_tail (im_bodies im ! i) @ cm @ zt)
        \<and> inode_stop im i = inode_at im i + length (ibuf @ ib_xattr_bytes (im_bodies im ! i) @ ib_inline_tail (im_bodies im ! i) @ cm @ zt))"

definition dirs_written :: "image_plan \<Rightarrow> u64 \<Rightarrow> bytes \<Rightarrow> bool" where
  "dirs_written im bs img =
     (\<forall>(nid, blocks)\<in>set (dl_blocks (im_dirs im)). \<exists>blk. dl_block_for_nid (im_dirs im) nid = Some blk
        \<and> unat blk + length blocks \<le> mp_stop (map_of_image im bs) \<and> holds_at img (unat blk * unat bs) (concat blocks))"

definition data_written :: "image_plan \<Rightarrow> u64 \<Rightarrow> bytes \<Rightarrow> nat \<Rightarrow> bool" where
  "data_written im bs img i =
     parts_hold (node_parts (im_data im) (im_plan im ! i) (im_nids im ! i) (unat bs)) (node_pos im bs i * unat bs)
       (node_pos im bs (Suc i) * unat bs) img"

definition image_written :: "image_plan \<Rightarrow> u64 \<Rightarrow> u8 \<Rightarrow> bytes \<Rightarrow> bool" where
  "image_written im bs blkszbits img =
     (length img = mp_stop (map_of_image im bs) * unat bs \<and> dirs_written im bs img
      \<and> (\<forall>i<length (im_plan im). node_written im bs blkszbits img i \<and> data_written im bs img i))"

lemma node_written_outside:
  "node_written im bs b img i \<Longrightarrow> outside a z img img' \<Longrightarrow> inode_stop im i \<le> a \<or> z \<le> inode_at im i \<Longrightarrow> node_written im bs b img' i"
  unfolding node_written_def by (elim exE conjE, intro exI conjI) (assumption | rule holds_outside | simp)+

lemma inodes_written:
  assumes laid: "image_laid im bs" and len: "length img = mp_stop (map_of_image im bs) * unat bs" and bs: "unat bs \<le> 65536"
    and body: "\<forall>i<length (im_plan im). ib_body_size (im_bodies im ! i) = inode_body_size (ib_is_extended (im_bodies im ! i))"
    and e: "foldR (emit_inode im bs b) [0..<length (im_plan im)] img = Ok img'"
  shows "outside (mp_base (map_of_image im bs)) (mp_dirs (map_of_image im bs) * unat bs) img img'
    \<and> (\<forall>i<length (im_plan im). node_written im bs b img' i)"
proof (rule foldR_holds [where lo = "inode_at im" and hi = "inode_stop im" and n = "length (im_plan im)" and L = "length img", OF _ _ _ _ _ _ e])
  have "mp_stop (map_of_image im bs) * unat bs \<le> 2 ^ 32 * 65536"
    using laid bs by (intro mult_le_mono) (simp_all add: image_laid_def Let_def)
  then have l: "length img < 2 ^ 64" by (simp add: len)
  show "outside (inode_at im i) (inode_stop im i) x y \<and> node_written im bs b y i"
    if "i < length (im_plan im)" "length x = length img" "emit_inode im bs b i x = Ok y" for i x y
    by (rule emit_inode_written [OF that(3)]) (use that l body in \<open>auto simp: node_written_def\<close>)
qed (use laid in \<open>auto simp: image_laid_def Let_def intro: node_written_outside\<close>)

lemma write_dirents_length: "write_dirents es i c buf = Ok block \<Longrightarrow> length block = length buf"
  by (induction es i c buf rule: write_dirents.induct) (fastforce simp: Let_def dest: put_at_writes(3))+

lemma pack_block_length: "pack_dir_blocks bs all = Ok blocks \<Longrightarrow> b \<in> set blocks \<Longrightarrow> length b = unat bs"
proof (induction bs all arbitrary: blocks rule: pack_dir_blocks.induct)
  case (1 bs all)
  show ?case
  proof (cases "all = []")
    case True
    then show ?thesis using 1(2,3) by (simp add: pack_dir_blocks.simps)
  next
    case False
    with 1(2) obtain k block out where k: "block_take bs all True 0 0 = Some k" "encode_one_dir_block (take k all) bs = Ok block"
      "pack_dir_blocks bs (drop k all) = Ok out" "blocks = block # out"
      by (auto simp: pack_dir_blocks.simps [of bs all] split: option.splits)
    have "length block = unat bs" using k(2) write_dirents_length by (auto simp: encode_one_dir_block_def Let_def split: if_splits)
    then show ?thesis using 1(1) [OF False k(1,2,3)] 1(3) k(4) by auto
  qed
qed

lemma dir_blocks_shape:
  assumes "encode_dir_blocks i children plan nids bs = Ok blocks"
  shows "blocks \<noteq> [] \<and> (\<forall>b\<in>set blocks. length b = unat bs)"
  using assms by (auto simp: encode_dir_blocks_def pack_block_length split: if_splits)

lemma mp_stop_bytes: "image_laid im bs \<Longrightarrow> unat bs \<le> 65536 \<Longrightarrow> mp_stop (map_of_image im bs) * unat bs < 2 ^ 64"
proof -
  assume "image_laid im bs" "unat bs \<le> 65536"
  then have "mp_stop (map_of_image im bs) * unat bs \<le> 2 ^ 32 * 65536"
    using image_laidD(11) by (intro mult_le_mono) fastforce+
  then show ?thesis by simp
qed

lemma directories_written:
  assumes laid: "image_laid im bs" and bs: "0 < unat bs" "unat bs \<le> 65536"
    and e: "emit_dirs bs (dl_block_for_nid (im_dirs im)) (dl_blocks (im_dirs im)) img = Ok img'"
  shows "outside (mp_dirs (map_of_image im bs) * unat bs) (mp_data (map_of_image im bs) * unat bs) img img' \<and>
    (\<forall>(nid, blocks)\<in>set (dl_blocks (im_dirs im)). \<exists>blk. dl_block_for_nid (im_dirs im) nid = Some blk
        \<and> unat blk + length blocks \<le> mp_data (map_of_image im bs) \<and> holds_at img' (unat blk * unat bs) (concat blocks))"
proof -
  let ?mp = "map_of_image im bs"
  have l: "seq_dirs (dl_block_for_nid (im_dirs im)) (dl_blocks (im_dirs im)) (mp_dirs ?mp) (mp_data ?mp)"
    "dirs_listed (im_plan im) (im_nids im) bs (length (im_plan im)) (im_dirs im)" "mp_data ?mp \<le> mp_stop ?mp"
    using image_laidD [OF laid] by blast+
  have "mp_data ?mp * unat bs \<le> mp_stop ?mp * unat bs" using l(3) by (rule mult_le_mono1)
  then have z: "mp_data ?mp * unat bs < 2 ^ 64" using mp_stop_bytes [OF laid bs(2)] by (rule le_less_trans)
  have "\<forall>d\<in>set (dl_blocks (im_dirs im)). snd d \<noteq> [] \<and> (\<forall>b\<in>set (snd d). length b = unat bs)"
    using l(2) dir_blocks_shape by (fastforce simp: dirs_listed_def listed_dirs_def)
  from emit_dirs_written [OF e l(1) z bs(1) this] show ?thesis by fastforce
qed

lemma all_data_written:
  assumes laid: "image_laid im bs" and bs: "0 < unat bs" "unat bs \<le> 65536"
    and e: "foldR (emit_data im bs) [0..<length (im_plan im)] img = Ok img'"
  shows "outside (mp_data (map_of_image im bs) * unat bs) (mp_stop (map_of_image im bs) * unat bs) img img'
    \<and> (\<forall>i<length (im_plan im). data_written im bs img' i)"
proof (rule foldR_holds [where lo = "\<lambda>i. node_pos im bs i * unat bs" and hi = "\<lambda>i. node_pos im bs (Suc i) * unat bs"
      and n = "length (im_plan im)" and L = "length img", OF _ _ _ _ _ _ e])
  let ?n = "length (im_plan im)"
  have l: "mp_stop (map_of_image im bs) = node_pos im bs ?n" "mp_stop (map_of_image im bs) < 2 ^ 32" "length (im_nids im) = ?n"
    "\<And>i. i < ?n \<Longrightarrow> laid (im_data im) (im_plan im ! i) (im_nids im ! i) (unat bs) (node_pos im bs i)"
    "\<And>i. i < ?n \<Longrightarrow> bytes_fit (unat bs) (im_plan im ! i)" "mp_data (map_of_image im bs) = node_pos im bs 0"
    using image_laidD(11,15,16,17) [OF laid] image_laidD(2,3) [OF laid] by (simp_all add: node_pos_def map_of_image_def data_pos_def)
  have mono: "node_pos im bs i \<le> node_pos im bs j" if "i \<le> j" for i j using data_pos_mono [OF that] by (simp add: node_pos_def)
  show "outside (node_pos im bs i * unat bs) (node_pos im bs (Suc i) * unat bs) x y \<and> data_written im bs y i"
    if i: "i < ?n" "emit_data im bs i x = Ok y" for i x y
  proof -
    have "node_pos im bs i < 2 ^ 41" using mono [of i ?n] i(1) l(1,2) by simp
    then have w: "write_parts (node_parts (im_data im) (im_plan im ! i) (im_nids im ! i) (unat bs)) x = Ok y"
      using emit_data_parts [OF l(4) [OF i(1)] i(1) _ bs(2)] i l(3) by simp
    have "node_pos im bs (Suc i) = node_pos im bs i + node_blocks (unat bs) (im_plan im ! i)"
      using data_pos_Suc [OF i(1)] by (simp add: node_pos_def)
    then show ?thesis
      using write_parts_hold [OF w] node_parts_seq [OF l(4,5) bs(1)] i(1) by (simp add: data_written_def)
  qed
  show "data_written im bs y i" if "data_written im bs x i" "outside a z x y"
      "node_pos im bs (Suc i) * unat bs \<le> a \<or> z \<le> node_pos im bs i * unat bs" for i a z x y
    using that parts_hold_outside unfolding data_written_def by blast
  show "node_pos im bs (Suc i) * unat bs \<le> node_pos im bs j * unat bs" if "i < j" for i j
    using mono [of "Suc i" j] that by simp
  show "mp_data (map_of_image im bs) * unat bs \<le> node_pos im bs i * unat bs
      \<and> node_pos im bs (Suc i) * unat bs \<le> mp_stop (map_of_image im bs) * unat bs" if "i < ?n" for i
    using mono [of 0 i] mono [of "Suc i" ?n] that by (simp add: l(1,6))
qed simp_all

section \<open>The whole of pass 5\<close>

lemma put_outside: "a + length xs \<le> length img \<Longrightarrow> outside a (a + length xs) img (put img a xs)"
  by (auto simp: outside_def take_drop_put_other)

lemma outside_zero: "outside lo hi img img' \<Longrightarrow> a + n \<le> length img \<Longrightarrow> a + n \<le> lo \<or> hi \<le> a \<Longrightarrow>
    take n (drop a img') = take n (drop a img)"
  by (auto simp: outside_def)

text \<open>The gap behind the superblock: the configuration records and the prefix dictionary.\<close>

definition gap_holds :: "bytes \<Rightarrow> bytes \<Rightarrow> u32 \<Rightarrow> nat \<Rightarrow> bytes \<Rightarrow> bool" where
  "gap_holds blob dict pstart base img =
     ((blob \<noteq> [] \<longrightarrow> 1152 + length blob \<le> base \<and> holds_at img 1152 blob)
      \<and> (dict \<noteq> [] \<longrightarrow> 1152 \<le> unat pstart * 4 \<and> unat pstart * 4 + length dict \<le> base \<and> holds_at img (unat pstart * 4) dict))"

lemma place_cfgs_written:
  assumes "place_cfgs blob base img = Ok (img', gap)" "length img < 2 ^ 60" "unat base \<le> length img" "1152 \<le> unat base"
  shows "outside 1152 (unat base) img img' \<and> unat gap = 1152 + length blob \<and> unat gap \<le> unat base
    \<and> (blob \<noteq> [] \<longrightarrow> holds_at img' 1152 blob)"
proof (cases "blob = []")
  case True
  then show ?thesis using assms by (auto simp: place_cfgs_def SB_AREA_END_def sb_consts)
next
  case False
  have sb: "unat SB_AREA_END = 1152" by (simp add: SB_AREA_END_def sb_consts)
  from assms(1) False have p: "put_at img 1152 blob = Ok img'" and g: "\<not> base < word_of_nat (1152 + length blob)"
    "gap = word_of_nat (1152 + length blob)" by (auto simp: place_cfgs_def Let_def sb split: if_splits)
  have l: "1152 + length blob \<le> length img" using p by (auto simp: put_at_def split: if_splits)
  then have u: "unat (word_of_nat (1152 + length blob) :: u64) = 1152 + length blob"
    by (intro unat_of_nat_small) (use assms(2) in simp)
  then have "1152 + length blob \<le> unat base" using g(1) by (simp add: word_less_nat_alt not_less)
  then show ?thesis using outside_mono [OF put_at_writes(1) [OF p]] put_at_writes(2) [OF p] u g(2) by auto
qed

lemma next_multiple_of_4:
  assumes "unat a < 2 ^ 63"
  shows "unat a \<le> unat (next_multiple_of a 4) \<and> 4 dvd unat (next_multiple_of a (4 :: u64))"
proof (cases "a mod 4 = 0")
  case True
  then have "unat (a mod 4) = unat (0 :: u64)" by simp
  then have "unat a mod 4 = 0" by (simp add: unat_mod)
  then show ?thesis using True by (simp add: next_multiple_of_def mod_eq_0_iff_dvd)
next
  case False
  have "unat (a mod 4) = unat a mod 4" by (simp add: unat_mod)
  then have "unat (4 - a mod 4) = 4 - unat a mod 4" by (subst unat_sub_no_wrap) (simp_all add: word_le_nat_alt)
  then have "unat (a + (4 - a mod 4)) = unat a + (4 - unat a mod 4)" using assms by (subst unat_add_no_wrap) simp_all
  moreover have "4 dvd x + (4 - x mod 4)" for x :: nat by presburger
  ultimately show ?thesis using False by (simp add: next_multiple_of_def)
qed

lemma place_prefixes_written:
  assumes p: "place_prefixes dict base (img, gap) = Ok (img', pstart)" and len: "length img < 2 ^ 60" "unat base \<le> length img"
    and gap: "1152 \<le> unat gap" "unat gap \<le> unat base"
  shows "outside (unat gap) (unat base) img img' \<and> (dict \<noteq> [] \<longrightarrow> unat gap \<le> unat pstart * 4
    \<and> unat pstart * 4 + length dict \<le> unat base \<and> holds_at img' (unat pstart * 4) dict)"
proof (cases "dict = []")
  case False
  define off where "off = next_multiple_of gap XATTR_ENTRY_ALIGN"
  have al: "unat gap \<le> unat off" "4 dvd unat off"
    using next_multiple_of_4 [of gap] gap(2) len by (simp_all add: off_def XATTR_ENTRY_ALIGN_def)
  from p False have w: "put_at img (unat off) dict = Ok img'" and g: "\<not> 0xFFFFFFFF < off div 4"
    "\<not> base < word_of_nat (unat off + length dict)" and ps: "pstart = ucast (off div 4)"
    by (auto simp: place_prefixes_def Let_def off_def split: if_splits)
  have l: "unat off + length dict \<le> length img" using w by (auto simp: put_at_def split: if_splits)
  then have "unat (word_of_nat (unat off + length dict) :: u64) = unat off + length dict"
    by (intro unat_of_nat_small) (use len in simp)
  then have "unat off + length dict \<le> unat base" using g(2) by (simp add: word_less_nat_alt not_less)
  moreover have "unat pstart * 4 = unat off" using unat_low32 [OF g(1)] al(2) by (simp add: ps unat_div)
  ultimately show ?thesis using outside_mono [OF put_at_writes(1) [OF w]] put_at_writes(2) [OF w] al(1) by auto
qed (use assms in \<open>simp add: place_prefixes_def\<close>)

definition gap_bytes :: "build_options \<Rightarrow> image_plan \<Rightarrow> u16 \<Rightarrow> bytes \<Rightarrow> bytes \<Rightarrow> u8 \<Rightarrow> bool" where
  "gap_bytes options im u1 blob dict cnt =
     (compr_cfgs_blob options (im_plan im) = Ok (u1, blob) \<and> encode_prefixes (bo_xattr_prefixes options) = Ok (dict, cnt))"

lemma gap_holds_outside:
  "gap_holds blob dict pstart base img \<Longrightarrow> outside a z img img' \<Longrightarrow> z \<le> 1152 \<or> base \<le> a \<Longrightarrow> gap_holds blob dict pstart base img'"
  unfolding gap_holds_def by (auto intro: holds_outside)

lemma sb_in_outside:
  assumes "sb_in crc img cs b n t m fi u1 c st" "outside a z img img'" "max 1152 (2 ^ unat b) \<le> a"
  shows "sb_in crc img' cs b n t m fi u1 c st"
proof -
  have h: "take 128 (drop 1024 img') = take 128 (drop 1024 img)"
    by (rule outside_zero [OF assms(2)]) (use assms(1,3) in \<open>auto simp: sb_in_def\<close>)
  have "take (2 ^ unat b - 1024) (drop 1024 img') = take (2 ^ unat b - 1024) (drop 1024 img)" if "\<not> b \<le> 10"
  proof (rule outside_zero [OF assms(2)])
    have "\<not> unat b \<le> 10" using that by (simp add: word_le_nat_alt)
    then have "(2 :: nat) ^ 11 \<le> 2 ^ unat b" by (intro power_increasing) auto
    then have "1024 + (2 ^ unat b - 1024) = (2 :: nat) ^ unat b" by simp
    then show "1024 + (2 ^ unat b - 1024) \<le> length img" "1024 + (2 ^ unat b - 1024) \<le> a \<or> z \<le> 1024"
      using assms(1,3) by (simp_all only: sb_in_def max.bounded_iff simp_thms)
  qed
  with h show ?thesis using assms(1) outside_length [OF assms(2)] by (simp add: sb_in_def)
qed

lemma write_image_written:
  assumes w: "write_image crc im total_blocks bs b options = Ok img" and laid: "image_laid im bs"
    and total: "unat total_blocks = mp_stop (map_of_image im bs)"
    and body: "\<forall>i<length (im_plan im). ib_body_size (im_bodies im ! i) = inode_body_size (ib_is_extended (im_bodies im ! i))"
    and b: "is_valid_blkszbits b" "unat bs = 2 ^ unat b"
  shows "image_written im bs b img \<and> (\<exists>u1 blob dict cnt pstart cs.
      gap_bytes options im u1 blob dict cnt \<and> (dict = [] \<longrightarrow> pstart = 0)
      \<and> gap_holds blob dict pstart (mp_base (map_of_image im bs)) img
      \<and> sb_in crc img cs b (word_of_nat (length (im_plan im))) (ucast total_blocks) (im_meta_blkaddr im)
           (image_features (im_data im) blob) u1 cnt pstart)"
proof -
  let ?mp = "map_of_image im bs" and ?b = "unat bs" and ?n = "length (im_plan im)"
  let ?img0 = "replicate (unat (total_blocks * bs)) (0 :: byte)" and ?base = "im_meta_byte_base im"
  obtain u1 blob dict cnt img1 gap img2 pstart img3 img4 img5 where
    g: "gap_bytes options im u1 blob dict cnt"
    and 1: "place_cfgs blob ?base ?img0 = Ok (img1, gap)" "place_prefixes dict ?base (img1, gap) = Ok (img2, pstart)"
    and 2: "write_superblock crc img2 b (word_of_nat ?n) (ucast total_blocks) (im_meta_blkaddr im)
               (image_features (im_data im) blob) u1 cnt pstart = Ok img3"
    and 3: "foldR (emit_inode im bs b) [0..<?n] img3 = Ok img4"
      "emit_dirs bs (dl_block_for_nid (im_dirs im)) (dl_blocks (im_dirs im)) img4 = Ok img5"
      "foldR (emit_data im bs) [0..<?n] img5 = Ok img"
    using w unfolding write_image_def Let_def gap_bytes_def by (auto split: prod.splits)
  have "unat b \<le> 16" "9 \<le> unat b" using b(1) by (auto simp: is_valid_blkszbits_def sb_consts word_le_nat_alt)
  then have "(2 :: nat) ^ unat b \<le> 2 ^ 16" "(2 :: nat) ^ 9 \<le> 2 ^ unat b" by (intro power_increasing; simp)+
  then have bs: "0 < ?b" "?b \<le> 65536" using b(2) by simp_all
  note L = image_laidD [OF laid]
  have len0: "length ?img0 = mp_stop ?mp * ?b"
    using mp_stop_bytes [OF laid bs(2)] by (simp add: unat_mult_no_wrap total)
  have "mp_stop ?mp * ?b \<le> 2 ^ 32 * 65536" using L(11) bs(2) by (intro mult_le_mono) simp_all
  then have small: "length ?img0 < 2 ^ 60" unfolding len0 by simp
  have ord: "mp_base ?mp \<le> mp_dirs ?mp * ?b" "mp_dirs ?mp * ?b \<le> mp_data ?mp * ?b" "mp_data ?mp * ?b \<le> mp_stop ?mp * ?b"
    using L(9,10,12) by (auto intro: mult_le_mono1)
  have base: "unat ?base = mp_base ?mp" by (simp add: map_of_image_def)
  have base_le: "mp_base ?mp \<le> length ?img0" unfolding len0 using order_trans [OF ord(1) order_trans [OF ord(2,3)]] .
  have c: "outside 1152 (mp_base ?mp) ?img0 img1" "unat gap = 1152 + length blob" "unat gap \<le> mp_base ?mp" "blob \<noteq> [] \<Longrightarrow> holds_at img1 1152 blob"
    using place_cfgs_written [OF 1(1) small] base base_le L(5) by auto
  have len1: "length img1 = length ?img0" using c(1) by (rule outside_length)
  have d: "outside (unat gap) (mp_base ?mp) img1 img2"
    "dict \<noteq> [] \<Longrightarrow> unat gap \<le> unat pstart * 4 \<and> unat pstart * 4 + length dict \<le> mp_base ?mp \<and> holds_at img2 (unat pstart * 4) dict"
    using place_prefixes_written [OF 1(2)] small base base_le c(2,3) len1 by auto
  have p0: "dict = [] \<longrightarrow> pstart = 0" using 1(2) by (auto simp: place_prefixes_def Let_def)
  have o2: "outside 1152 (mp_base ?mp) ?img0 img2" using outside_trans [OF c(1) outside_mono [OF d(1)]] c(2) by simp
  have len2: "length img2 = length ?img0" using o2 by (rule outside_length)
  have gap2: "gap_holds blob dict pstart (mp_base ?mp) img2"
    using c d holds_outside [OF c(4) d(1)] by (auto simp: gap_holds_def)
  have z: "take 128 (drop 1024 img2) = replicate 128 0"
    using outside_zero [OF o2, of 1024 128] base_le L(5) by (simp add: take_replicate drop_replicate)
  have big: "1152 \<le> length img2" "2 ^ unat b \<le> length img2" using len2 base_le L(5,6) b(2) by simp_all
  obtain h cs where h: "img3 = put img2 1024 h" "length h = 128"
    "sb_in crc img3 cs b (word_of_nat ?n) (ucast total_blocks) (im_meta_blkaddr im) (image_features (im_data im) blob) u1 cnt pstart"
    using write_superblock_in [OF z big(1) b(1) big(2)] 2 by (metis result.inject(1))
  have o3: "outside 1024 1152 img2 img3" using put_outside [of 1024 h img2] h(1,2) big(1) by simp
  have len3: "length img3 = mp_stop ?mp * ?b" using outside_length [OF o3] len2 len0 by simp
  have i: "outside (mp_base ?mp) (mp_dirs ?mp * ?b) img3 img4" "\<forall>i<?n. node_written im bs b img4 i"
    using inodes_written [OF laid len3 bs(2) body 3(1)] by blast+
  note j = directories_written [OF laid bs 3(2)] and k = all_data_written [OF laid bs 3(3)]
  have tail: "outside (mp_base ?mp) (mp_stop ?mp * ?b) img3 img"
    using outside_trans [OF outside_mono [OF i(1)] outside_trans [OF outside_mono [OF conjunct1 [OF j]] outside_mono [OF conjunct1 [OF k]]]]
      ord by simp
  have keep: "outside (mp_dirs ?mp * ?b) (mp_stop ?mp * ?b) img4 img"
    using outside_trans [OF outside_mono [OF conjunct1 [OF j]] outside_mono [OF conjunct1 [OF k]]] ord by simp
  have "node_written im bs b img i" if "i < ?n" for i
    using node_written_outside [OF _ keep] i(2) L(7) [OF that] that by blast
  moreover have "dirs_written im bs img" unfolding dirs_written_def
  proof (clarify, goal_cases)
    case (1 nid blocks)
    then obtain blk where blk: "dl_block_for_nid (im_dirs im) nid = Some blk" "unat blk + length blocks \<le> mp_data ?mp"
      "holds_at img5 (unat blk * ?b) (concat blocks)" using j by blast
    have "\<forall>x\<in>set blocks. length x = ?b" using 1 L(13) dir_blocks_shape by (fastforce simp: dirs_listed_def listed_dirs_def)
    then have "length (concat blocks) = length blocks * ?b" by (rule length_concat_blocks)
    then have "unat blk * ?b + length (concat blocks) \<le> mp_data ?mp * ?b"
      using mult_le_mono1 [OF blk(2), of ?b] by (simp add: algebra_simps)
    then have "holds_at img (unat blk * ?b) (concat blocks)" using holds_outside [OF blk(3) conjunct1 [OF k]] by simp
    then show ?case using blk(1,2) L(10) by auto
  qed
  moreover have "length img = mp_stop ?mp * ?b" using outside_length [OF tail] len3 by simp
  ultimately have "image_written im bs b img" using k by (simp add: image_written_def)
  moreover have "gap_holds blob dict pstart (mp_base ?mp) img"
    using gap_holds_outside [OF gap_holds_outside [OF gap2 o3] tail] by simp
  moreover have "sb_in crc img cs b (word_of_nat ?n) (ucast total_blocks) (im_meta_blkaddr im)
      (image_features (im_data im) blob) u1 cnt pstart"
    by (rule sb_in_outside [OF h(3) tail]) (use L(5,6) b(2) in simp)
  ultimately show ?thesis using g p0 by blast
qed

end
