(* ===== verification/ImageRead.thy ===== *)
theory ImageRead
  imports ImageWritten FileContent PathsSafe
begin

text \<open>
  The reader over an image the builder wrote: it opens, and every inode, directory and file of the plan reads
  back as the builder was given it.
\<close>

section \<open>An image on a device\<close>

definition bs_of :: "u8 \<Rightarrow> u64" where "bs_of b = one_shl (ucast b)"

definition built :: "(bytes \<Rightarrow> u32) \<Rightarrow> encoders \<Rightarrow> node \<Rightarrow> u8 \<Rightarrow> build_options \<Rightarrow> image_plan \<Rightarrow> bytes \<Rightarrow> bool" where
  "built crc E root b options im img =
     (is_valid_blkszbits b \<and> (\<exists>total_blocks. plan_image E root (bs_of b) options = Ok (im, total_blocks)
        \<and> write_image crc im total_blocks (bs_of b) b options = Ok img))"

lemma build_image_with_built: "build_image_with crc E root b options = Ok img \<Longrightarrow> \<exists>im. built crc E root b options im img"
  by (auto simp: build_image_with_def built_def bs_of_def Let_def split: if_splits prod.splits)

lemma valid_block_size:
  assumes "is_valid_blkszbits b"
  shows "unat (bs_of b) = 2 ^ unat b" "512 \<le> unat (bs_of b)" "unat (bs_of b) \<le> 65536" "32 dvd unat (bs_of b)"
    "9 \<le> unat b" "unat b \<le> 16"
proof -
  show b: "9 \<le> unat b" "unat b \<le> 16" using assms by (auto simp: is_valid_blkszbits_def sb_consts word_le_nat_alt)
  have m: "unat b mod 64 = unat b" using b(2) by simp
  have "unat (push_bit (unat b) (1 :: u64)) = 2 ^ unat b" using b(2) by (simp add: push_bit_eq_mult unat_power2)
  then show e: "unat (bs_of b) = 2 ^ unat b" by (simp add: bs_of_def one_shl_def unat_ucast_up m)
  have "(2 :: nat) ^ 9 \<le> 2 ^ unat b" "(2 :: nat) ^ unat b \<le> 2 ^ 16" using b by (intro power_increasing; simp)+
  then show "512 \<le> unat (bs_of b)" "unat (bs_of b) \<le> 65536" by (simp_all add: e)
  have "(2 :: nat) ^ 5 dvd 2 ^ unat b" using b(1) by (intro le_imp_power_dvd) simp
  then show "32 dvd unat (bs_of b)" by (simp add: e)
qed

text \<open>A device with the image, and the superblock that is read from it.\<close>

definition image_at :: "blockdev \<Rightarrow> superblock \<Rightarrow> image_plan \<Rightarrow> u8 \<Rightarrow> bytes \<Rightarrow> bool" where
  "image_at d sb im b img =
     (serves d img \<and> is_valid_blkszbits b \<and> sb_ok sb \<and> sb_blkszbits sb = b \<and> sb_meta_blkaddr sb = im_meta_blkaddr im
      \<and> unat (im_meta_blkaddr im) * unat (bs_of b) = mp_base (map_of_image im (bs_of b))
      \<and> image_laid im (bs_of b) \<and> image_written im (bs_of b) b img)"

lemma meta_blkaddr_base:
  assumes "plan_image E root bs options = Ok (im, total_blocks)" "512 \<le> unat bs" "unat bs \<le> 65536"
  shows "unat (im_meta_blkaddr im) * unat bs = unat (im_meta_byte_base im)"
proof -
  have m: "im_meta_blkaddr im = ucast (div_ceil SB_AREA_END bs)" "im_meta_byte_base im = div_ceil SB_AREA_END bs * bs"
    using plan_image_cases [OF assms(1)] by metis+
  have nz: "bs \<noteq> 0" using assms(2) by auto
  have sb: "unat SB_AREA_END = 1152" by (simp add: SB_AREA_END_def sb_consts)
  have q: "unat (div_ceil SB_AREA_END bs) = (1152 + unat bs - 1) div unat bs" by (simp add: unat_div_ceil nz sb)
  have "(1152 + unat bs - 1) div unat bs \<le> 1152 + unat bs - 1" by (rule div_le_dividend)
  moreover have "1152 + unat bs - 1 < 2 ^ 17" using assms(3) by simp
  ultimately have lt: "unat (div_ceil SB_AREA_END bs) < 2 ^ 17" unfolding q by (rule le_less_trans)
  have "unat (div_ceil SB_AREA_END bs) * unat bs \<le> 2 ^ 17 * 65536" using lt assms(3) by (intro mult_le_mono) simp_all
  then have "unat (div_ceil SB_AREA_END bs * bs) = unat (div_ceil SB_AREA_END bs) * unat bs" by (intro unat_mult_no_wrap) simp
  then show ?thesis using lt by (simp add: m unsigned_ucast_eq take_bit_nat_eq_self)
qed

text \<open>The superblock of a built image, and what it says.\<close>

definition built_sb :: "superblock \<Rightarrow> image_plan \<Rightarrow> u8 \<Rightarrow> build_options \<Rightarrow> bytes \<Rightarrow> bool" where
  "built_sb sb im b options img =
     (\<exists>cs u1 blob dict cnt pstart. gap_bytes options im u1 blob dict cnt \<and> (dict = [] \<longrightarrow> pstart = 0)
        \<and> gap_holds blob dict pstart (mp_base (map_of_image im (bs_of b))) img
        \<and> sb = written_sb cs b (word_of_nat (length (im_plan im))) (word_of_nat (length img div unat (bs_of b))) (im_meta_blkaddr im)
             (image_features (im_data im) blob) u1 cnt pstart)"

lemma built_image_at:
  assumes bt: "built crc E root b options im img" and fits: "image_fits (unat (bs_of b)) im" and d: "serves d img"
  shows "\<exists>sb. superblock_read crc d d = Ok sb \<and> built_sb sb im b options img \<and> image_at d sb im b img"
proof -
  from bt obtain total_blocks where v: "is_valid_blkszbits b" and p: "plan_image E root (bs_of b) options = Ok (im, total_blocks)"
    and w: "write_image crc im total_blocks (bs_of b) b options = Ok img" by (auto simp: built_def)
  note bs = valid_block_size [OF v]
  note l = plan_image_laid [OF p bs(2-4) fits]
  from write_image_written [OF w conjunct1 [OF l] _ _ v bs(1)] l obtain u1 blob dict cnt pstart cs where
    i: "image_written im (bs_of b) b img" and g: "gap_bytes options im u1 blob dict cnt" "dict = [] \<longrightarrow> pstart = 0"
      "gap_holds blob dict pstart (mp_base (map_of_image im (bs_of b))) img"
    and s: "sb_in crc img cs b (word_of_nat (length (im_plan im))) (ucast total_blocks) (im_meta_blkaddr im)
           (image_features (im_data im) blob) u1 cnt pstart" by blast
  let ?sb = "written_sb cs b (word_of_nat (length (im_plan im))) (ucast total_blocks) (im_meta_blkaddr im)
           (image_features (im_data im) blob) u1 cnt pstart"
  have r: "superblock_read crc d d = Ok ?sb" by (rule sb_in_reads [OF s v d])
  have "length img = unat total_blocks * unat (bs_of b)" using i l by (simp add: image_written_def)
  then have t: "ucast total_blocks = (word_of_nat (length img div unat (bs_of b)) :: u32)"
    using bs(2) by (simp add: word_unat_eq_iff unsigned_ucast_eq unsigned_of_nat)
  have "superblock_parse (sb_header cs (if b \<le> 10 then 0 else 1) b (word_of_nat (length (im_plan im))) (ucast total_blocks)
      (im_meta_blkaddr im) (image_features (im_data im) blob) u1 cnt pstart) = Ok ?sb" by (rule parse_header [OF v])
  then have ok: "sb_ok ?sb" by (rule superblock_parse_ok)
  have "unat (im_meta_blkaddr im) * unat (bs_of b) = mp_base (map_of_image im (bs_of b))"
    using meta_blkaddr_base [OF p bs(2,3)] by (simp add: map_of_image_def)
  then have "image_at d ?sb im b img" using d v ok l i by (simp add: image_at_def written_sb_def)
  moreover have "built_sb ?sb im b options img" using g t unfolding built_sb_def by metis
  ultimately show ?thesis using r by blast
qed

section \<open>Inodes\<close>

lemma image_atD:
  assumes "image_at d sb im b img"
  shows "serves d img" "is_valid_blkszbits b" "sb_ok sb" "image_laid im (bs_of b)" "image_written im (bs_of b) b img"
    "unat (block_size sb) = unat (bs_of b)" "block_size sb = bs_of b"
    "unat (sb_meta_blkaddr sb) * unat (block_size sb) = mp_base (map_of_image im (bs_of b))"
proof -
  show 1: "serves d img" "is_valid_blkszbits b" "sb_ok sb" "image_laid im (bs_of b)" "image_written im (bs_of b) b img"
    using assms by (simp_all add: image_at_def)
  have b: "sb_blkszbits sb = b" using assms by (simp add: image_at_def)
  show u: "unat (block_size sb) = unat (bs_of b)"
    using valid_block_size [OF 1(2)] by (subst unat_block_size) (simp_all add: b)
  then show "block_size sb = bs_of b" by (simp add: word_unat_eq_iff)
  show "unat (sb_meta_blkaddr sb) * unat (block_size sb) = mp_base (map_of_image im (bs_of b))"
    unfolding u using assms by (simp add: image_at_def)
qed

lemma image_length:
  assumes "image_at d sb im b img"
  shows "length img = mp_stop (map_of_image im (bs_of b)) * unat (bs_of b)" "length img < 2 ^ 63"
proof -
  show l: "length img = mp_stop (map_of_image im (bs_of b)) * unat (bs_of b)"
    using image_atD(5) [OF assms] by (simp add: image_written_def)
  have "mp_stop (map_of_image im (bs_of b)) * unat (bs_of b) \<le> 2 ^ 32 * 65536"
    using image_laidD(11) [OF image_atD(4) [OF assms]] valid_block_size(3) [OF image_atD(2) [OF assms]]
    by (intro mult_le_mono) simp_all
  then show "length img < 2 ^ 63" unfolding l by simp
qed

text \<open>The inode behind a node id is where its slot begins.\<close>

lemma node_at:
  assumes im: "image_at d sb im b img" and i: "i < length (im_plan im)"
  shows "unat (iloc sb (im_nids im ! i)) = inode_at im i" "node_written im (bs_of b) b img i" "inode_stop im i \<le> length img"
proof -
  note L = image_laidD [OF image_atD(4) [OF im]]
  show w: "node_written im (bs_of b) b img i" using image_atD(5) [OF im] i by (simp add: image_written_def)
  have "mp_dirs (map_of_image im (bs_of b)) * unat (bs_of b) \<le> length img"
    unfolding image_length(1) [OF im] using L(9,10) by (intro mult_le_mono1) simp
  then show stop: "inode_stop im i \<le> length img" using L(7) [OF i] by linarith
  have "inode_at im i \<le> inode_stop im i" using w by (auto simp: node_written_def)
  then show "unat (iloc sb (im_nids im ! i)) = inode_at im i"
    using L(2,3) L(7) [OF i] image_length(2) [OF im] stop i by (simp add: unat_iloc image_atD(8) [OF im])
qed

text \<open>The inode that was asked for: the fields \<open>encode_inode\<close> is given.\<close>

definition planned_inode :: "image_plan \<Rightarrow> u64 \<Rightarrow> nat \<Rightarrow> inode result" where
  "planned_inode im bs i =
     (let n = im_plan im ! i; nid = im_nids im ! i; (layout, flags) = inode_layout_and_flags (pn_kind n) in
      bindR (inode_raw_u n nid (dl_block_for_nid (im_dirs im)) (da_block_for_nid (im_data im))) (\<lambda>raw_u.
      bindR (stored_size (pn_kind n) nid (dl_size_for_nid (im_dirs im)) bs) (\<lambda>fsize.
      bindR (inode_nlink n (im_plan im)) (\<lambda>nlink.
        Ok (written_inode layout flags (ib_xattr_icount (im_bodies im ! i)) (pn_mode n) raw_u fsize nlink nid (pn_meta n))))))"

text \<open>The shape of the inode was chosen for its size and its link count.\<close>

definition shape_ok :: "image_plan \<Rightarrow> u64 \<Rightarrow> nat \<Rightarrow> bool" where
  "shape_ok im bs i =
     (case planned_inode im bs i of
        Ok ino \<Rightarrow> ib_is_extended (im_bodies im ! i) = needs_extended (i_size ino) (pn_meta (im_plan im ! i))
          \<and> (ib_is_extended (im_bodies im ! i) \<or> i_nlink ino \<le> 0xFFFF)
      | _ \<Rightarrow> True)"

lemma flags_bound: "inode_layout_and_flags kind = (layout, flags) \<Longrightarrow> flags \<le> 0x0FFF"
proof -
  have "x AND 0x000F \<le> (0x000F :: u16)" for x by (simp add: word_and_le1)
  then have "x AND 0x000F \<le> (0x0FFF :: u16)" for x by (rule order_trans) simp
  then show "inode_layout_and_flags kind = (layout, flags) \<Longrightarrow> flags \<le> 0x0FFF"
    by (auto simp: inode_layout_and_flags_def split: plan_kind.splits file_layout.splits)
qed

lemma inode_reads:
  assumes im: "image_at d sb im b img" and i: "i < length (im_plan im)" and room: "inode_at im i + 64 \<le> length img"
    and shape: "shape_ok im (bs_of b) i"
  shows "\<exists>ino. planned_inode im (bs_of b) i = Ok ino \<and> inode_read d sb (im_nids im ! i) = Ok ino"
proof -
  let ?n = "im_plan im ! i" and ?nid = "im_nids im ! i"
  note at = node_at [OF im i]
  obtain ibuf tl where ib: "encoded_inode im (bs_of b) i = Ok ibuf" and h: "holds_at img (inode_at im i) (ibuf @ tl)"
    using at(2) by (auto simp: node_written_def)
  have nid: "slot_nid (im_slots im ! i) = ?nid" using image_laidD(2,3) [OF image_atD(4) [OF im]] i by simp
  obtain layout flags where lf: "inode_layout_and_flags (pn_kind ?n) = (layout, flags)" by fastforce
  from ib obtain raw_u fsize nlink where
    f: "inode_raw_u ?n ?nid (dl_block_for_nid (im_dirs im)) (da_block_for_nid (im_data im)) = Ok raw_u"
      "stored_size (pn_kind ?n) ?nid (dl_size_for_nid (im_dirs im)) (bs_of b) = Ok fsize" "inode_nlink ?n (im_plan im) = Ok nlink"
    and buf: "ibuf = encode_inode_body (ib_is_extended (im_bodies im ! i)) layout flags (ib_xattr_icount (im_bodies im ! i))
        (pn_mode ?n) raw_u fsize nlink ?nid (pn_meta ?n)"
    by (auto simp: encoded_inode_def encode_inode_def lf nid)
  let ?ino = "written_inode layout flags (ib_xattr_icount (im_bodies im ! i)) (pn_mode ?n) raw_u fsize nlink ?nid (pn_meta ?n)"
  have p: "planned_inode im (bs_of b) i = Ok ?ino" by (simp add: planned_inode_def Let_def lf f)
  have sh: "ib_is_extended (im_bodies im ! i) = needs_extended fsize (pn_meta ?n)" "ib_is_extended (im_bodies im ! i) \<or> nlink \<le> 0xFFFF"
    using shape by (auto simp: shape_ok_def p) (auto simp: written_inode_def Let_def)
  let ?raw = "take 64 (drop (inode_at im i) img)"
  have lb: "length ibuf \<le> 64" by (simp add: buf inode_body_size_def inode_consts)
  have "holds_at img (inode_at im i) ibuf" using h by (simp add: holds_append)
  then have "take (length ibuf) ?raw = ibuf" using lb by (simp add: holds_at_def min_def)
  then obtain rest where raw: "?raw = ibuf @ rest" by (metis append_take_drop_id)
  have "length ?raw = 64" using room by simp
  then have "inode_parse ?nid ?raw = Ok ?ino"
    unfolding raw buf by (intro parse_encoded [OF sh flags_bound [OF lf]]) (simp only: buf)
  moreover have "read_at d (iloc sb ?nid) 64 = Ok ?raw"
    using serves_read [OF image_atD(1) [OF im], of "iloc sb ?nid" 64] room by (simp add: at(1))
  ultimately show ?thesis using p by (simp add: inode_read_def inode_consts)
qed

section \<open>The nodes behind the plan\<close>

definition planned_from :: "encoders \<Rightarrow> node \<Rightarrow> u64 \<Rightarrow> image_plan \<Rightarrow> bool" where
  "planned_from E root bs im =
     (valid_node root \<and> length (im_plan im) = node_count root
      \<and> (\<exists>ovr. \<forall>i<length (im_plan im). plan_body E (preorder 0 0 root ! i) bs ovr = Ok (im_plan im ! i, im_bodies im ! i)))"

lemma plan_image_from:
  assumes "plan_image E root bs options = Ok (im, total_blocks)"
  shows "planned_from E root bs im"
proof -
  obtain k flat planned where f: "flatten root 0 [] = Ok (k, flat)"
    and m: "mapR (\<lambda>n. plan_body E n bs (lzma_dict_size_override options flat)) flat = Ok planned"
    and im: "im_plan im = map fst planned" "im_bodies im = map snd planned"
    by (rule plan_image_cases [OF assms])
  have v: "valid_node root" "flat = preorder 0 0 root"
    using flatten_is_preorder(1) [of root 0 "[]"] f by (auto split: if_splits)
  have "\<forall>i<length planned. plan_body E (flat ! i) bs (lzma_dict_size_override options flat) = Ok (planned ! i)"
    and "length planned = length flat"
    using m by (simp_all add: mapR_eq_Ok list_all2_conv_all_nth)
  then show ?thesis using v by (auto simp: planned_from_def im length_preorder)
qed

text \<open>What \<open>plan_body\<close> keeps of a node and what it decides.\<close>

definition kind_kept :: "plan_kind \<Rightarrow> plan_kind \<Rightarrow> bool" where
  "kind_kept k k' =
     (case k of
        PFile data _ \<Rightarrow> (case k' of PFile data' _ \<Rightarrow> data' = data | _ \<Rightarrow> False)
      | PCompressed cp \<Rightarrow> (case k' of PCompressed cp' \<Rightarrow> cp_src cp' = cp_src cp | _ \<Rightarrow> False)
      | _ \<Rightarrow> k' = k)"

definition tail_of :: "plan_kind \<Rightarrow> bytes" where
  "tail_of k = (case k of PFile data InlineFile \<Rightarrow> data | _ \<Rightarrow> [])"

lemma plan_tail_kept:
  assumes "plan_tail k bs bsz xb = (k', ending)" "\<And>data l. k = PFile data l \<Longrightarrow> l = PlainFile"
  shows "kind_kept k k' \<and> ending = tail_of k' \<and> (\<forall>data. k' = PFile data InlineFile \<longrightarrow> len64 data < bs \<and> data \<noteq> [])"
  using assms by (cases k) (auto simp: plan_tail_def kind_kept_def tail_of_def Let_def split: if_splits file_layout.splits)

lemma plan_body_kept:
  assumes p: "plan_body E n bs ovr = Ok (n', body)" and plain: "\<And>data l. pn_kind n = PFile data l \<Longrightarrow> l = PlainFile"
  shows "n' = n\<lparr>pn_kind := pn_kind n'\<rparr>" "kind_kept (pn_kind n) (pn_kind n')" "ib_inline_tail body = tail_of (pn_kind n')"
    "encode_inline_xattrs (pn_xattrs n) = Ok (ib_xattr_bytes body, ib_xattr_icount body)"
    "\<And>data. pn_kind n' = PFile data InlineFile \<Longrightarrow> len64 data < bs \<and> data \<noteq> []"
    "\<exists>fsize. planned_size (pn_kind n) bs = Ok fsize \<and> ib_is_extended body = needs_extended fsize (pn_meta n)"
proof -
  obtain xb xc fsize k ending k' z where
    1: "encode_inline_xattrs (pn_xattrs n) = Ok (xb, xc)" "planned_size (pn_kind n) bs = Ok fsize"
      "plan_tail (pn_kind n) bs (inode_body_size (needs_extended fsize (pn_meta n))) xb = (k, ending)"
    and 2: "case k of PCompressed cp \<Rightarrow> \<exists>cp'. k' = PCompressed cp'
         \<and> plan_compressed E cp bs ovr (inode_body_size (needs_extended fsize (pn_meta n))) (len64 xb) = Ok (cp', z)
       | _ \<Rightarrow> k' = k \<and> z = 0"
    and 3: "n' = n\<lparr>pn_kind := k'\<rparr>" "body = \<lparr>ib_body_size = inode_body_size (needs_extended fsize (pn_meta n)),
       ib_is_extended = needs_extended fsize (pn_meta n), ib_xattr_bytes = xb, ib_xattr_icount = xc, ib_inline_tail = ending,
       ib_chunkmap_bytes = plan_chunkmap k, ib_zmap_bytes = z\<rparr>"
    by (rule plan_body_cases [OF p])
  have t: "kind_kept (pn_kind n) k" "ending = tail_of k" "\<And>data. k = PFile data InlineFile \<Longrightarrow> len64 data < bs \<and> data \<noteq> []"
    using plan_tail_kept [OF 1(3)] plain by blast+
  have "cp_src cp' = cp_src cp" if "plan_compressed E cp bs ovr x y = Ok (cp', z)" for cp cp' x y
    using that by (rule plan_compressed_cases)
  then have k': "kind_kept (pn_kind n) k'" "tail_of k' = tail_of k" "\<And>data. k' = PFile data InlineFile \<Longrightarrow> k = PFile data InlineFile"
    using t(1) 2 by (auto simp: kind_kept_def tail_of_def split: plan_kind.splits)
  show "n' = n\<lparr>pn_kind := pn_kind n'\<rparr>" "kind_kept (pn_kind n) (pn_kind n')" "ib_inline_tail body = tail_of (pn_kind n')"
    "encode_inline_xattrs (pn_xattrs n) = Ok (ib_xattr_bytes body, ib_xattr_icount body)"
    "\<exists>fsize. planned_size (pn_kind n) bs = Ok fsize \<and> ib_is_extended body = needs_extended fsize (pn_meta n)"
    using 1 3 t(2) k' by simp_all
  show "len64 data < bs \<and> data \<noteq> []" if "pn_kind n' = PFile data InlineFile" for data using that 3(1) k'(3) t(3) by simp
qed

lemma preorder_plain:
  "p \<in> set (preorder i parent n) \<Longrightarrow> pn_kind p = PFile data l \<Longrightarrow> l = PlainFile"
  "p \<in> set (preorder_list i parent es) \<Longrightarrow> pn_kind p = PFile data l \<Longrightarrow> l = PlainFile"
  by (induction i parent n and i parent es rule: preorder_preorder_list.induct) (auto simp: node_entry_def)

text \<open>The indices in the plan of a tree lie in the plan, and the names of a directory are valid.\<close>

definition indices_ok :: "nat \<Rightarrow> nat \<Rightarrow> nat \<Rightarrow> plan_node \<Rightarrow> bool" where
  "indices_ok parent lo hi p =
     ((pn_parent_idx p = parent \<or> lo \<le> pn_parent_idx p \<and> pn_parent_idx p < hi)
      \<and> (\<forall>(name, c)\<in>set (children_of p). lo \<le> c \<and> c < hi \<and> check_name name = Ok ()))"

lemma child_indices_in: "(name, c) \<in> set (child_indices i es) \<Longrightarrow>
    i \<le> c \<and> c < i + sum_list (map (\<lambda>e. node_count (snd e)) es) \<and> (\<exists>e\<in>set es. fst e = name)"
  using node_count_pos by (induction i es rule: child_indices.induct) (fastforce simp: add.assoc)+

lemma indices_weaken:
  "indices_ok par lo hi p \<Longrightarrow> lo' \<le> lo \<Longrightarrow> hi \<le> hi' \<Longrightarrow> par = par' \<or> lo' \<le> par \<and> par < hi' \<Longrightarrow> indices_ok par' lo' hi' p"
  unfolding indices_ok_def by fastforce

lemma preorder_indices:
  "valid_node n \<Longrightarrow> p \<in> set (preorder i parent n) \<Longrightarrow> indices_ok parent i (i + node_count n) p"
  "\<forall>e\<in>set es. check_name (fst e) = Ok () \<and> valid_node (snd e) \<Longrightarrow> p \<in> set (preorder_list i parent es) \<Longrightarrow>
     indices_ok parent i (i + sum_list (map (\<lambda>e. node_count (snd e)) es)) p"
proof (induction i parent n and i parent es rule: preorder_preorder_list.induct)
  case (2 i parent mode entries meta xattrs)
  let ?m = "sum_list (map (\<lambda>e. node_count (snd e)) entries)"
  have v: "\<forall>e\<in>set entries. check_name (fst e) = Ok () \<and> valid_node (snd e)" using 2(2) by simp
  show ?case
  proof (cases "p \<in> set (preorder_list (Suc i) i entries)")
    case True
    from indices_weaken [OF 2(1) [OF v True], of i "i + Suc ?m" parent] show ?thesis by simp
  next
    case False
    then have p: "p = node_entry parent mode meta xattrs (PDir (child_indices (Suc i) entries))" using 2(3) by simp
    have "i \<le> c \<and> c < i + Suc ?m \<and> check_name name = Ok ()" if "(name, c) \<in> set (child_indices (Suc i) entries)" for name c
      using child_indices_in [OF that] v by auto
    then show ?thesis by (auto simp: p indices_ok_def node_entry_def children_of_def)
  qed
next
  case (9 i parent name child entries)
  then show ?case
    using indices_weaken [OF "9.IH"(1), of i "i + (node_count child + sum_list (map (\<lambda>e. node_count (snd e)) entries))" parent]
      indices_weaken [OF "9.IH"(2), of i "i + (node_count child + sum_list (map (\<lambda>e. node_count (snd e)) entries))" parent]
    by auto
qed (auto simp: indices_ok_def node_entry_def children_of_def)

lemma planned_node:
  assumes "planned_from E root bs im" "i < length (im_plan im)"
  shows "encode_inline_xattrs (pn_xattrs (im_plan im ! i)) = Ok (ib_xattr_bytes (im_bodies im ! i), ib_xattr_icount (im_bodies im ! i))"
    "ib_inline_tail (im_bodies im ! i) = tail_of (pn_kind (im_plan im ! i))"
    "\<And>data. pn_kind (im_plan im ! i) = PFile data InlineFile \<Longrightarrow> len64 data < bs \<and> data \<noteq> []"
    "indices_ok 0 0 (length (im_plan im)) (im_plan im ! i)"
    "\<exists>k fsize. kind_kept k (pn_kind (im_plan im ! i)) \<and> planned_size k bs = Ok fsize
       \<and> ib_is_extended (im_bodies im ! i) = needs_extended fsize (pn_meta (im_plan im ! i))"
proof -
  let ?p = "preorder 0 0 root ! i" and ?n = "im_plan im ! i"
  from assms obtain ovr where v: "valid_node root" and len: "length (im_plan im) = node_count root"
    and b: "plan_body E ?p bs ovr = Ok (?n, im_bodies im ! i)" by (auto simp: planned_from_def)
  have m: "?p \<in> set (preorder 0 0 root)" using assms(2) len by (simp add: length_preorder)
  have k: "?n = ?p\<lparr>pn_kind := pn_kind ?n\<rparr>" "kind_kept (pn_kind ?p) (pn_kind ?n)" "ib_inline_tail (im_bodies im ! i) = tail_of (pn_kind ?n)"
    "encode_inline_xattrs (pn_xattrs ?p) = Ok (ib_xattr_bytes (im_bodies im ! i), ib_xattr_icount (im_bodies im ! i))"
    "\<And>data. pn_kind ?n = PFile data InlineFile \<Longrightarrow> len64 data < bs \<and> data \<noteq> []"
    "\<exists>fsize. planned_size (pn_kind ?p) bs = Ok fsize \<and> ib_is_extended (im_bodies im ! i) = needs_extended fsize (pn_meta ?p)"
    using plan_body_kept [OF b] preorder_plain(1) [OF m] by blast+
  have same: "pn_xattrs ?n = pn_xattrs ?p" "pn_meta ?n = pn_meta ?p" "pn_parent_idx ?n = pn_parent_idx ?p" 
    using arg_cong [OF k(1), of pn_xattrs] arg_cong [OF k(1), of pn_meta] arg_cong [OF k(1), of pn_parent_idx] by simp_all
  show "encode_inline_xattrs (pn_xattrs ?n) = Ok (ib_xattr_bytes (im_bodies im ! i), ib_xattr_icount (im_bodies im ! i))"
    unfolding same by (rule k(4))
  show "ib_inline_tail (im_bodies im ! i) = tail_of (pn_kind ?n)" by (rule k(3))
  show "len64 data < bs \<and> data \<noteq> []" if "pn_kind ?n = PFile data InlineFile" for data by (rule k(5) [OF that])
  have "children_of ?n = children_of ?p" using k(2) by (auto simp: kind_kept_def children_of_def split: plan_kind.splits)
  then show "indices_ok 0 0 (length (im_plan im)) ?n"
    using preorder_indices(1) [OF v m] len by (simp add: indices_ok_def same)
  show "\<exists>k fsize. kind_kept k (pn_kind ?n) \<and> planned_size k bs = Ok fsize
       \<and> ib_is_extended (im_bodies im ! i) = needs_extended fsize (pn_meta ?n)"
    using k(2,6) unfolding same by blast
qed

text \<open>A directory that fits its inode: its size and its links stay in the fields of the shape chosen before they were known.\<close>

definition dir_small :: "image_plan \<Rightarrow> u64 \<Rightarrow> nat \<Rightarrow> bool" where
  "dir_small im bs i =
     (case planned_inode im bs i of
        Ok ino \<Rightarrow> is_pdir (im_plan im) i \<longrightarrow> ib_is_extended (im_bodies im ! i) \<or> i_size ino \<le> 0xFFFFFFFF \<and> i_nlink ino \<le> 0xFFFF
      | _ \<Rightarrow> True)"

lemma needs_extended_small: "\<not> 0xFFFFFFFF < sz \<Longrightarrow> needs_extended sz me = needs_extended 0 me"
  by (simp add: needs_extended_def)

lemma needs_extended_0: "needs_extended 0 me \<Longrightarrow> needs_extended sz me"
  by (auto simp: needs_extended_def)

lemma kept_size:
  assumes "kind_kept k k'" "planned_size k bs = Ok fsize" "stored_size k' nid m bs = Ok sz" "\<forall>ch. k' \<noteq> PDir ch"
  shows "sz = fsize"
proof (cases k)
  case (PFile data l)
  then show ?thesis using assms by (cases k') (simp_all add: kind_kept_def planned_size_def stored_size_def)
next
  case (PCompressed cp)
  then show ?thesis using assms by (cases k') (simp_all add: kind_kept_def planned_size_def stored_size_def)
qed (use assms in \<open>simp_all add: kind_kept_def planned_size_def stored_size_def\<close>)

lemma shape_holds:
  assumes p: "planned_from E root bs im" "i < length (im_plan im)" and small: "dir_small im bs i"
  shows "shape_ok im bs i"
proof (cases "planned_inode im bs i")
  case (Ok ino)
  let ?n = "im_plan im ! i"
  obtain k fsize where k: "kind_kept k (pn_kind ?n)" "planned_size k bs = Ok fsize"
    "ib_is_extended (im_bodies im ! i) = needs_extended fsize (pn_meta ?n)" using planned_node(5) [OF p] by blast
  from Ok obtain sz nl where ino: "stored_size (pn_kind ?n) (im_nids im ! i) (dl_size_for_nid (im_dirs im)) bs = Ok sz"
    "inode_nlink ?n (im_plan im) = Ok nl" "i_size ino = sz" "i_nlink ino = nl"
    by (auto simp: planned_inode_def Let_def split: prod.splits) (auto simp: written_inode_def Let_def)
  show ?thesis
  proof (cases "is_pdir (im_plan im) i")
    case True
    then obtain ch where ch: "pn_kind ?n = PDir ch" by (auto simp: is_pdir_def split: plan_kind.splits)
    then have "k = PDir ch" using k(1) by (auto simp: kind_kept_def split: plan_kind.splits)
    then have "fsize = 0" using k(2) by (simp add: planned_size_def)
    then have e: "ib_is_extended (im_bodies im ! i) = needs_extended 0 (pn_meta ?n)" using k(3) by simp
    have sm: "ib_is_extended (im_bodies im ! i) \<or> i_size ino \<le> 0xFFFFFFFF \<and> i_nlink ino \<le> 0xFFFF"
      using small True by (simp add: dir_small_def Ok)
    have "needs_extended (i_size ino) (pn_meta ?n) = needs_extended 0 (pn_meta ?n)"
    proof (cases "ib_is_extended (im_bodies im ! i)")
      case True
      then show ?thesis using needs_extended_0 e by simp
    next
      case False
      then show ?thesis using sm by (intro needs_extended_small) (simp add: not_less)
    qed
    then show ?thesis using sm e by (auto simp: shape_ok_def Ok)
  next
    case False
    have "nl = 1" using False ino(2) by (cases "pn_kind ?n") (simp_all add: is_pdir_def inode_nlink_def)
    moreover have "sz = fsize"
      using False by (intro kept_size [OF k(1,2) ino(1)]) (simp add: is_pdir_def split: plan_kind.splits)
    ultimately have "sz = fsize" "nl = 1" by simp_all
    then show ?thesis using k(3) ino by (simp add: shape_ok_def Ok)
  qed
qed (simp_all add: shape_ok_def)

section \<open>One inode with its attributes\<close>

definition named_xattrs :: "xattr_entry list \<Rightarrow> bool" where
  "named_xattrs xs = (\<forall>x\<in>set xs. \<not> (x_name x = [] \<and> x_value x = [] \<and> x_name_index x = 0))"

lemma pushed_lengths:
  "push_xattrs xs buf = Ok r \<Longrightarrow> \<forall>x\<in>set xs. length (x_name x) < 256 \<and> length (x_value x) < 65536"
  by (induction xs buf rule: push_xattrs.induct) (auto split: if_splits)

lemma encoded_entries_ok: "encode_inline_xattrs xs = Ok (buf, c) \<Longrightarrow> named_xattrs xs \<Longrightarrow> \<forall>x\<in>set xs. entry_ok x"
  by (auto simp: encode_inline_xattrs_def named_xattrs_def entry_ok_def Let_def dest: pushed_lengths split: if_splits)

lemma planned_inode_fields:
  assumes "planned_inode im bs i = Ok ino"
  shows "i_nid ino = im_nids im ! i" "i_xattr_icount ino = ib_xattr_icount (im_bodies im ! i)" "i_mode ino = pn_mode (im_plan im ! i)"
    "fmt_layout (i_format ino) = fst (inode_layout_and_flags (pn_kind (im_plan im ! i)))"
    "fmt_flags (i_format ino) = snd (inode_layout_and_flags (pn_kind (im_plan im ! i)))"
    "inode_raw_u (im_plan im ! i) (im_nids im ! i) (dl_block_for_nid (im_dirs im)) (da_block_for_nid (im_data im)) = Ok (i_raw_u ino)"
    "stored_size (pn_kind (im_plan im ! i)) (im_nids im ! i) (dl_size_for_nid (im_dirs im)) bs = Ok (i_size ino)"
    "i_on_disk_size ino = (if needs_extended (i_size ino) (pn_meta (im_plan im ! i)) then 64 else 32)"
  using assms by (auto simp: planned_inode_def Let_def split: prod.splits) (auto simp: written_inode_def Let_def)

text \<open>When the image has a directory, there is a block behind the inodes.\<close>

lemma inode_room:
  assumes im: "image_at d sb im b img" and i: "i < length (im_plan im)" and dir: "is_pdir (im_plan im) j" "j < length (im_plan im)"
  shows "inode_at im i + 64 \<le> length img"
proof -
  let ?mp = "map_of_image im (bs_of b)" and ?b = "unat (bs_of b)"
  note L = image_laidD [OF image_atD(4) [OF im]]
  let ?bl = "blocks_of_dir (im_plan im) (im_nids im) (bs_of b) j"
  have m: "(im_nids im ! j, ?bl) \<in> set (dl_blocks (im_dirs im))"
    and e: "encode_dir_blocks j (children_of (im_plan im ! j)) (im_plan im) (im_nids im) (bs_of b) = Ok ?bl"
    using L(13) dir by (auto simp: dirs_listed_def listed_dirs_def)
  have "?bl \<noteq> []" using dir_blocks_shape [OF e] by simp
  then have "0 < length ?bl" by simp
  also have "length ?bl \<le> sum_list (map (length \<circ> snd) (dl_blocks (im_dirs im)))"
    by (rule member_le_sum_list) (use m in \<open>force+\<close>)
  finally have "mp_dirs ?mp + 1 \<le> mp_stop ?mp" using seq_dirs_sum [OF L(14)] L(10) by simp
  from mult_le_mono1 [OF this, of ?b] have "mp_dirs ?mp * ?b + ?b \<le> length img"
    by (simp add: image_length(1) [OF im] algebra_simps)
  moreover have "inode_at im i \<le> inode_stop im i" using node_at(2) [OF im i] by (auto simp: node_written_def)
  ultimately show ?thesis using L(7) [OF i] valid_block_size(2) [OF image_atD(2) [OF im]] by linarith
qed

definition node_ok :: "image_plan \<Rightarrow> u64 \<Rightarrow> nat \<Rightarrow> bool" where
  "node_ok im bs i = (dir_small im bs i \<and> named_xattrs (pn_xattrs (im_plan im ! i)))"

lemma node_reads:
  assumes im: "image_at d sb im b img" and p: "planned_from E root (bs_of b) im" and i: "i < length (im_plan im)"
    and dir: "is_pdir (im_plan im) 0" and ok: "node_ok im (bs_of b) i"
  obtains ino where "planned_inode im (bs_of b) i = Ok ino" "inode_read d sb (im_nids im ! i) = Ok ino"
    "read_all_xattrs d sb ino = Ok (pn_xattrs (im_plan im ! i))"
    "unat (body_end ino sb) + length (tail_of (pn_kind (im_plan im ! i))) \<le> length img"
    "holds_at img (unat (body_end ino sb)) (tail_of (pn_kind (im_plan im ! i)))"
proof -
  let ?n = "im_plan im ! i" and ?body = "im_bodies im ! i" and ?nid = "im_nids im ! i"
  have "im_plan im \<noteq> []" using i by auto
  then have room: "inode_at im i + 64 \<le> length img" by (intro inode_room [OF im i dir]) simp
  note shape = shape_holds [OF p i conjunct1 [OF ok [unfolded node_ok_def]]]
  obtain ino where ino: "planned_inode im (bs_of b) i = Ok ino" "inode_read d sb ?nid = Ok ino"
    using inode_reads [OF im i room shape] by blast
  note f = planned_inode_fields [OF ino(1)] and x = planned_node(1) [OF p i]
  obtain ibuf cm zt where e: "encoded_inode im (bs_of b) i = Ok ibuf"
    and h: "holds_at img (inode_at im i) (ibuf @ ib_xattr_bytes ?body @ ib_inline_tail ?body @ cm @ zt)"
    using node_at(2) [OF im i] by (auto simp: node_written_def)
  have "length ibuf = unat (inode_body_size (ib_is_extended ?body))" using e length_encode_inode by (simp add: encoded_inode_def)
  then have ds: "unat (i_on_disk_size ino) = length ibuf"
    using shape ino(1) f(8) by (auto simp: shape_ok_def inode_body_size_def inode_consts)
  have ek: "\<forall>a\<in>set (pn_xattrs ?n). entry_ok a" using encoded_entries_ok [OF x] ok by (simp add: node_ok_def)
  note xa = encode_inline_xattrs_parses [OF x ek f(2)]
  have il: "unat (iloc sb (i_nid ino)) = inode_at im i" by (simp add: f(1) node_at(1) [OF im i])
  have h1: "holds_at img (inode_at im i + length ibuf) (ib_xattr_bytes ?body)"
    "holds_at img (inode_at im i + length ibuf + length (ib_xattr_bytes ?body)) (ib_inline_tail ?body)"
    using h by (simp_all add: holds_append)
  have rx: "read_all_xattrs d sb ino = Ok (pn_xattrs ?n)"
    by (rule read_all_xattrs_written [OF image_atD(1) [OF im] x ek f(2)]) (use h1(1) in \<open>simp_all add: il ds holds_at_def\<close>)
  have "unat (body_end ino sb) = inode_at im i + length ibuf + length (ib_xattr_bytes ?body)"
  proof -
    have s: "inode_at im i = unat (sb_meta_blkaddr sb) * unat (block_size sb) + unat (i_nid ino) * 32"
      using node_at(3) [OF im i] image_length(2) [OF im] il room by (simp add: unat_iloc min_def split: if_splits)
    show ?thesis
      unfolding unat_body_end s [symmetric] using h1(2) image_length(2) [OF im] xa ds by (simp add: holds_at_def)
  qed
  then show thesis using that [OF ino rx] h1(2) planned_node(2) [OF p i] by (simp add: holds_at_def)
qed

section \<open>Plain content\<close>

definition stored_bytes :: "image_plan \<Rightarrow> u64 \<Rightarrow> nat \<Rightarrow> bytes option" where
  "stored_bytes im bs i =
     (case pn_kind (im_plan im ! i) of
        PFile data _ \<Rightarrow> Some data
      | PSymlink target \<Rightarrow> Some target
      | PDir _ \<Rightarrow> Some (concat (blocks_of_dir (im_plan im) (im_nids im) bs i))
      | _ \<Rightarrow> None)"

lemma block_in_image:
  assumes im: "image_at d sb im b img" and i: "i < length (im_plan im)" and blk: "unat blk = node_pos im (bs_of b) i"
  shows "unat (ucast (blk :: u64) :: u32) = unat blk"
proof -
  have "node_pos im (bs_of b) i \<le> node_pos im (bs_of b) (length (im_plan im))"
    using data_pos_mono [of i "length (im_plan im)"] i by (simp add: node_pos_def)
  then have "unat blk < 2 ^ 32" using image_laidD(11,17) [OF image_atD(4) [OF im]] blk by simp
  then show ?thesis by (simp add: unsigned_ucast_eq take_bit_nat_eq_self)
qed

text \<open>Bytes that lie in blocks of their own from \<open>blk\<close> on.\<close>

lemma own_blocks_read:
  assumes im: "image_at d sb im b img" and lay: "fmt_layout (i_format ino) = FlatPlain" and sz: "i_size ino = len64 xs"
    and raw: "unat (i_raw_u ino) * unat (bs_of b) = a" and h: "xs \<noteq> [] \<Longrightarrow> holds_at img a xs" "xs = [] \<Longrightarrow> a \<le> length img"
  shows "flat_fits sb ino img" "flat_content sb ino img = xs" "unat (i_size ino) = length xs"
proof -
  have l: "a + length xs \<le> length img" using h by (cases "xs = []") (auto simp: holds_at_def)
  then show u: "unat (i_size ino) = length xs" using image_length(2) [OF im] by (simp add: sz unat_of_nat)
  show "flat_fits sb ino img" using l by (simp add: flat_fits_def Let_def lay u image_atD(6) [OF im] raw)
  show "flat_content sb ino img = xs"
    using h by (cases "xs = []") (simp_all add: flat_content_def Let_def lay u image_atD(6) [OF im] raw holds_at_def)
qed

lemma dir_at:
  assumes im: "image_at d sb im b img" and i: "i < length (im_plan im)" and dir: "is_pdir (im_plan im) i"
  obtains blk where "dl_block_for_nid (im_dirs im) (im_nids im ! i) = Some blk" "unat blk < 2 ^ 32"
    "holds_at img (unat blk * unat (bs_of b)) (concat (blocks_of_dir (im_plan im) (im_nids im) (bs_of b) i))"
    "encode_dir_blocks i (children_of (im_plan im ! i)) (im_plan im) (im_nids im) (bs_of b) = Ok (blocks_of_dir (im_plan im) (im_nids im) (bs_of b) i)"
    "dl_size_for_nid (im_dirs im) (im_nids im ! i) = Some (len64 (blocks_of_dir (im_plan im) (im_nids im) (bs_of b) i) * bs_of b)"
proof -
  note L = image_laidD [OF image_atD(4) [OF im]]
  have "(im_nids im ! i, blocks_of_dir (im_plan im) (im_nids im) (bs_of b) i) \<in> set (dl_blocks (im_dirs im))"
    using L(13) dir i by (auto simp: dirs_listed_def listed_dirs_def)
  moreover have "dirs_written im (bs_of b) img" using image_atD(5) [OF im] by (simp add: image_written_def)
  ultimately obtain blk where "dl_block_for_nid (im_dirs im) (im_nids im ! i) = Some blk"
    "unat blk + length (blocks_of_dir (im_plan im) (im_nids im) (bs_of b) i) \<le> mp_stop (map_of_image im (bs_of b))"
    "holds_at img (unat blk * unat (bs_of b)) (concat (blocks_of_dir (im_plan im) (im_nids im) (bs_of b) i))"
    unfolding dirs_written_def by blast
  then show thesis using L(11,13) dir i by (intro that) (auto simp: dirs_listed_def)
qed

lemma flat_node:
  assumes im: "image_at d sb im b img" and i: "i < length (im_plan im)" and pl: "planned_inode im (bs_of b) i = Ok ino"
    and st: "stored_bytes im (bs_of b) i = Some xs"
    and tl: "unat (body_end ino sb) + length (tail_of (pn_kind (im_plan im ! i))) \<le> length img"
      "holds_at img (unat (body_end ino sb)) (tail_of (pn_kind (im_plan im ! i)))"
    and small: "\<And>data. pn_kind (im_plan im ! i) = PFile data InlineFile \<Longrightarrow> len64 data < bs_of b \<and> data \<noteq> []"
  shows "fmt_layout (i_format ino) \<in> {FlatPlain, FlatInline} \<and> flat_fits sb ino img \<and> flat_content sb ino img = xs
    \<and> unat (i_size ino) = length xs"
proof -
  let ?n = "im_plan im ! i" and ?nid = "im_nids im ! i" and ?b = "unat (bs_of b)"
  note f = planned_inode_fields [OF pl] and own = own_blocks_read [OF im, of ino xs]
  have dw: "data_written im (bs_of b) img i" and la: "laid (im_data im) ?n ?nid ?b (node_pos im (bs_of b) i)"
    using image_atD(5) [OF im] image_laidD(15) [OF image_atD(4) [OF im] i] i by (simp_all add: image_written_def)
  show ?thesis
  proof (cases "pn_kind ?n")
    case (PFile data layout)
    then have xs: "xs = data" using st by (simp add: stored_bytes_def)
    have sz: "i_size ino = len64 xs" using f(7) by (simp add: PFile stored_size_def xs)
    show ?thesis
    proof (cases layout)
      case PlainFile
      note k = PFile [unfolded PlainFile]
      have lay: "fmt_layout (i_format ino) = FlatPlain" using f(4) by (simp add: k inode_layout_and_flags_def)
      show ?thesis
      proof (cases "data = []")
        case True
        then have "i_raw_u ino = 0" using la f(6) by (simp add: laid_def k inode_raw_u_def)
        then show ?thesis using own [OF lay sz refl] True lay by (simp add: xs)
      next
        case False
        then obtain blk where blk: "da_block_for_nid (im_data im) ?nid = Some blk" "unat blk = node_pos im (bs_of b) i"
          using la by (auto simp: laid_def k)
        then have "unat (i_raw_u ino) = unat blk" using f(6) block_in_image [OF im i blk(2)] by (auto simp: inode_raw_u_def k)
        moreover have "holds_at img (unat blk * ?b) data" using dw False blk(1) by (simp add: data_written_def node_parts_def k parts_hold_def)
        ultimately show ?thesis using own [OF lay sz refl] lay False by (simp add: xs)
      qed
    next
      case InlineFile
      note k = PFile [unfolded InlineFile]
      have lay: "fmt_layout (i_format ino) = FlatInline" and r: "i_raw_u ino = 0"
        using f(4,6) by (simp_all add: k inode_layout_and_flags_def inode_raw_u_def)
      have t: "tail_of (pn_kind ?n) = data" by (simp add: k tail_of_def)
      have u: "unat (i_size ino) = length xs" using tl(1) image_length(2) [OF im] by (simp add: sz xs t unat_of_nat)
      have "len64 data < bs_of b" using small [OF k] by simp
      then have "length xs < ?b" using u sz xs by (simp add: word_less_nat_alt)
      then have ts: "tail_start ?b (length xs) = 0" by (simp add: tail_start_def)
      show ?thesis using tl by (simp add: lay flat_fits_def flat_content_def Let_def image_atD(6) [OF im] u r ts [unfolded xs] t xs holds_at_def)
    qed
  next
    case (PSymlink target)
    then have xs: "xs = target" using st by (simp add: stored_bytes_def)
    have sz: "i_size ino = len64 xs" using f(7) by (simp add: PSymlink stored_size_def xs)
    have lay: "fmt_layout (i_format ino) = FlatPlain" using f(4) by (simp add: PSymlink inode_layout_and_flags_def)
    obtain blk where blk: "da_block_for_nid (im_data im) ?nid = Some blk" "unat blk = node_pos im (bs_of b) i"
      using la by (auto simp: laid_def PSymlink)
    then have "unat (i_raw_u ino) = unat blk" using f(6) block_in_image [OF im i blk(2)] by (auto simp: inode_raw_u_def PSymlink map_at_def)
    moreover have "holds_at img (unat blk * ?b) target" using dw blk(1) by (simp add: data_written_def node_parts_def PSymlink parts_hold_def)
    ultimately show ?thesis using own [OF lay sz refl] lay holds_at_def by (simp add: xs)
  next
    case (PDir ch)
    let ?bl = "blocks_of_dir (im_plan im) (im_nids im) (bs_of b) i"
    have "is_pdir (im_plan im) i" by (simp add: is_pdir_def PDir)
    from dir_at [OF im i this] obtain blk where blk: "dl_block_for_nid (im_dirs im) ?nid = Some blk" "unat blk < 2 ^ 32"
      "holds_at img (unat blk * ?b) (concat ?bl)" and e: "encode_dir_blocks i (children_of ?n) (im_plan im) (im_nids im) (bs_of b) = Ok ?bl"
      and ds: "dl_size_for_nid (im_dirs im) ?nid = Some (len64 ?bl * bs_of b)" .
    have xs: "xs = concat ?bl" using st by (simp add: stored_bytes_def PDir)
    have "\<forall>x\<in>set ?bl. length x = ?b" using dir_blocks_shape [OF e] by simp
    then have len: "length (concat ?bl) = length ?bl * ?b" by (rule length_concat_blocks)
    then have sz: "i_size ino = len64 xs" using f(7) ds by (simp add: stored_size_def PDir xs)
    have lay: "fmt_layout (i_format ino) = FlatPlain" using f(4) by (simp add: PDir inode_layout_and_flags_def)
    have "unat (ucast blk :: u32) = unat blk" using blk(2) by (simp add: unsigned_ucast_eq take_bit_nat_eq_self)
    then have "unat (i_raw_u ino) = unat blk" using f(6) blk(1) by (auto simp: inode_raw_u_def PDir map_at_def)
    then show ?thesis using own [OF lay sz refl] lay blk(3) holds_at_def by (simp add: xs)
  qed (use st in \<open>simp_all add: stored_bytes_def\<close>)
qed

section \<open>Opening the image\<close>

text \<open>The configuration a reader finds in the records that were written for \<open>options\<close> and the files of the plan.\<close>

definition written_cfgs :: "build_options \<Rightarrow> plan_node list \<Rightarrow> compr_cfgs option" where
  "written_cfgs options plan =
     (let cfg = bo_compr_cfgs options;
          lz4 = Option.bind cfg cc_lz4;
          lzma = or_else (Option.bind cfg cc_lzma) (if uses AlgoLzma plan then Some lzma_cfg_default else None);
          deflate = or_else (Option.bind cfg cc_deflate) (if uses AlgoDeflate plan then Some 15 else None)
      in if lz4 = None \<and> lzma = None \<and> deflate = None then None
         else Some \<lparr>cfg_lz4 = map_option (\<lambda>_. ()) lz4,
                cfg_lzma = map_option (\<lambda>c. lzma_cfg_default\<lparr>dict_size := if dict_size c = 0 then dict_size lzma_cfg_default else dict_size c\<rparr>) lzma,
                cfg_deflate = map_option (\<lambda>_. ()) deflate, cfg_zstd = None\<rparr>)"

lemma read_record:
  assumes d: "serves d img" and h: "holds_at img (unat cur) (to_le16 n @ payload)" "length payload = unat n" "n \<noteq> 0"
    and stop: "unat cur + 2 \<le> unat stop" and len: "length img < 2 ^ 63"
  shows "read_one d stop cur = Ok (payload, cur + 2 + word_of_nat (unat n)) \<and> unat (cur + 2 + word_of_nat (unat n)) = unat cur + 2 + length payload"
proof -
  have l: "unat cur + 2 + length payload \<le> length img" using h(1) by (simp add: holds_at_def)
  have c2: "unat (cur + 2) = unat cur + 2" using l len by (subst unat_add_no_wrap) simp_all
  have "\<not> stop < cur + 2" using stop by (simp add: word_less_nat_alt c2)
  moreover have "read_at d cur 2 = Ok (to_le16 n)" "read_at d (cur + 2) (unat n) = Ok payload"
    using serves_holds [OF d, of cur "to_le16 n"] serves_holds [OF d, of "cur + 2" payload] h(1,2) by (simp_all add: holds_append c2)
  moreover have "0 < unat n" using h(3) by (simp add: unat_gt_0)
  moreover have "unat (cur + 2 + word_of_nat (unat n)) = unat cur + 2 + length payload"
    using l len h(2) by (subst unat_add_no_wrap) (simp_all add: c2 unat_ucast_up)
  ultimately show ?thesis by (simp add: read_one_def Let_def)
qed

text \<open>One record of the blob: a bit of \<open>u1\<close> and its bytes, or neither.\<close>

lemma lz4_record_read:
  assumes r: "lz4_record cfg plan = Ok (b0, r0)" and d: "serves d img" "length img < 2 ^ 63"
    and h: "holds_at img (unat cur) r0" "unat cur + 2 \<le> unat stop" and bit: "(algos AND LZ4_BIT \<noteq> 0) = (cfg \<noteq> None)"
  shows "\<exists>cur'. read_lz4_cfg d stop algos (cur, c) = Ok (cur', c\<lparr>cfg_lz4 := if cfg = None then cfg_lz4 c else Some ()\<rparr>)
    \<and> unat cur' = unat cur + length r0"
proof (cases cfg)
  case (Some max_distance)
  let ?pay = "to_le16 max_distance @ to_le16 (ucast (largest_pcluster plan)) @ replicate 10 0"
  have r0: "r0 = to_le16 14 @ ?pay" using r by (auto simp: lz4_record_def Some Let_def split: if_splits)
  from read_record [OF d(1) h(1) [unfolded r0] _ _ h(2) d(2)] show ?thesis
    using bit by (simp add: read_lz4_cfg_def Some r0)
qed (use r bit in \<open>auto simp: lz4_record_def read_lz4_cfg_def\<close>)

lemma lzma_record_read:
  assumes r: "lzma_record cfg = (b0, r0)" and d: "serves d img" "length img < 2 ^ 63"
    and h: "holds_at img (unat cur) r0" "unat cur + 2 \<le> unat stop" and bit: "(algos AND LZMA_BIT \<noteq> 0) = (cfg \<noteq> None)"
  shows "\<exists>cur'. read_lzma_cfg d stop algos (cur, c) = Ok (cur', c\<lparr>cfg_lzma := if cfg = None then cfg_lzma c
      else map_option (\<lambda>c. lzma_cfg_default\<lparr>dict_size := if dict_size c = 0 then dict_size lzma_cfg_default else dict_size c\<rparr>) cfg\<rparr>)
    \<and> unat cur' = unat cur + length r0"
proof (cases cfg)
  case (Some lz)
  let ?pay = "to_le32 (dict_size lz) @ to_le16 0 @ replicate 8 0"
  have r0: "r0 = to_le16 14 @ ?pay" using r by (auto simp: lzma_record_def Some)
  from read_record [OF d(1) h(1) [unfolded r0] _ _ h(2) d(2)] show ?thesis
    using bit by (simp add: read_lzma_cfg_def Some r0 Let_def)
qed (use r bit in \<open>auto simp: lzma_record_def read_lzma_cfg_def\<close>)

lemma deflate_record_read:
  assumes r: "deflate_record cfg = (b0, r0)" and d: "serves d img" "length img < 2 ^ 63"
    and h: "holds_at img (unat cur) r0" "unat cur + 2 \<le> unat stop" and bit: "(algos AND DEFLATE_BIT \<noteq> 0) = (cfg \<noteq> None)"
  shows "\<exists>cur'. read_deflate_cfg d stop algos (cur, c) = Ok (cur', c\<lparr>cfg_deflate := if cfg = None then cfg_deflate c else Some ()\<rparr>)
    \<and> unat cur' = unat cur + length r0"
proof (cases cfg)
  case (Some window_bits)
  let ?pay = "[window_bits] @ replicate 5 0"
  have r0: "r0 = to_le16 6 @ ?pay" using r by (auto simp: deflate_record_def Some)
  from read_record [OF d(1) h(1) [unfolded r0] _ _ h(2) d(2)] show ?thesis
    using bit by (simp add: read_deflate_cfg_def Some r0)
qed (use r bit in \<open>auto simp: deflate_record_def read_deflate_cfg_def\<close>)

lemma record_bits:
  "lz4_record c0 plan = Ok (b0, r0) \<Longrightarrow> b0 = (if c0 = None then 0 else LZ4_BIT) \<and> (r0 = [] \<longleftrightarrow> c0 = None) \<and> length r0 \<le> 16"
  "lzma_record c1 = (b1, r1) \<Longrightarrow> b1 = (if c1 = None then 0 else LZMA_BIT) \<and> (r1 = [] \<longleftrightarrow> c1 = None) \<and> length r1 \<le> 16"
  "deflate_record c2 = (b2, r2) \<Longrightarrow> b2 = (if c2 = None then 0 else DEFLATE_BIT) \<and> (r2 = [] \<longleftrightarrow> c2 = None) \<and> length r2 \<le> 8"
proof -
  have ne: "to_le16 x @ ys \<noteq> []" for x and ys :: bytes using le_lengths(1) [of x] by (cases "to_le16 x") auto
  show "lz4_record c0 plan = Ok (b0, r0) \<Longrightarrow> b0 = (if c0 = None then 0 else LZ4_BIT) \<and> (r0 = [] \<longleftrightarrow> c0 = None) \<and> length r0 \<le> 16"
    using ne by (auto simp: lz4_record_def Let_def split: option.splits if_splits)
  show "lzma_record c1 = (b1, r1) \<Longrightarrow> b1 = (if c1 = None then 0 else LZMA_BIT) \<and> (r1 = [] \<longleftrightarrow> c1 = None) \<and> length r1 \<le> 16"
    using ne by (auto simp: lzma_record_def split: option.splits)
  show "deflate_record c2 = (b2, r2) \<Longrightarrow> b2 = (if c2 = None then 0 else DEFLATE_BIT) \<and> (r2 = [] \<longleftrightarrow> c2 = None) \<and> length r2 \<le> 8"
    using ne by (auto simp: deflate_record_def split: option.splits)
qed

lemma algorithm_bits:
  fixes b0 b1 b2 :: u16
  assumes "b0 = (if p0 then 0 else LZ4_BIT)" "b1 = (if p1 then 0 else LZMA_BIT)" "b2 = (if p2 then 0 else DEFLATE_BIT)"
  shows "(b0 OR b1 OR b2) AND LZ4_BIT \<noteq> 0 \<longleftrightarrow> \<not> p0" "(b0 OR b1 OR b2) AND LZMA_BIT \<noteq> 0 \<longleftrightarrow> \<not> p1"
    "(b0 OR b1 OR b2) AND DEFLATE_BIT \<noteq> 0 \<longleftrightarrow> \<not> p2" "(b0 OR b1 OR b2) AND ZSTD_BIT = 0"
  unfolding assms by (cases p0; cases p1; cases p2; simp add: sb_consts)+

lemma feature_bits: "(image_features data blob AND INCOMPAT_COMPR_CFGS = 0) = (blob = [])"
  by (cases "da_any_compressed data"; cases "da_any_inline_tail data"; cases "blob = []"; simp add: image_features_def sb_consts)

lemma features_supported: "sb_feature_incompat sb = image_features data blob \<Longrightarrow> check_incompat_features sb = Ok ()"
  by (cases "da_any_compressed data"; cases "da_any_inline_tail data"; cases "blob = []";
      simp add: check_incompat_features_def image_features_def sb_consts)

lemma written_cfgs_read:
  assumes blob: "compr_cfgs_blob options plan = Ok (u1, blob)" and d: "serves d img" "length img < 2 ^ 63"
    and h: "blob \<noteq> [] \<Longrightarrow> holds_at img 1152 blob"
    and sb: "sb_u1 sb = u1" "sb_extslots sb = 0" "sb_feature_incompat sb = image_features data blob"
  shows "read_compr_cfgs d sb = Ok (written_cfgs options plan)"
proof -
  define c0 where "c0 = Option.bind (bo_compr_cfgs options) cc_lz4"
  define c1 where "c1 = or_else (Option.bind (bo_compr_cfgs options) cc_lzma) (if uses AlgoLzma plan then Some lzma_cfg_default else None)"
  define c2 where "c2 = or_else (Option.bind (bo_compr_cfgs options) cc_deflate) (if uses AlgoDeflate plan then Some (15 :: u8) else None)"
  obtain b1 r1 b2 r2 where r12: "lzma_record c1 = (b1, r1)" "deflate_record c2 = (b2, r2)" by fastforce
  obtain b0 r0 where r0: "lz4_record c0 plan = Ok (b0, r0)" and u1: "u1 = b0 OR b1 OR b2" "blob = r0 @ r1 @ r2"
    using blob unfolding compr_cfgs_blob_def Let_def c0_def [symmetric] c1_def [symmetric] c2_def [symmetric] r12 by auto
  note r = r0 r12
  note rb = record_bits(1) [OF r(1)] record_bits(2) [OF r(2)] record_bits(3) [OF r(3)]
  have bits: "u1 AND LZ4_BIT \<noteq> 0 \<longleftrightarrow> c0 \<noteq> None" "u1 AND LZMA_BIT \<noteq> 0 \<longleftrightarrow> c1 \<noteq> None"
    "u1 AND DEFLATE_BIT \<noteq> 0 \<longleftrightarrow> c2 \<noteq> None" "u1 AND ZSTD_BIT = 0"
    using algorithm_bits [of b0 "c0 = None" b1 "c1 = None" b2 "c2 = None"] rb by (simp_all add: u1(1))
  have none: "blob = [] \<longleftrightarrow> c0 = None \<and> c1 = None \<and> c2 = None" using rb by (simp add: u1(2))
  have w: "written_cfgs options plan = (if blob = [] then None
     else Some \<lparr>cfg_lz4 = map_option (\<lambda>_. ()) c0,
                cfg_lzma = map_option (\<lambda>c. lzma_cfg_default\<lparr>dict_size := if dict_size c = 0 then dict_size lzma_cfg_default else dict_size c\<rparr>) c1,
                cfg_deflate = map_option (\<lambda>_. ()) c2, cfg_zstd = None\<rparr>)"
    by (simp add: written_cfgs_def Let_def none c0_def c1_def c2_def)
  show ?thesis
  proof (cases "blob = []")
    case True
    then show ?thesis using feature_bits [of data blob] by (simp add: read_compr_cfgs_def sb(3) w)
  next
    case False
    let ?stop = "compr_cfgs_offset sb + COMPR_CFGS_MAX_BYTES"
    have off: "unat (compr_cfgs_offset sb) = 1152" "unat ?stop = 1152 + 524296" by (simp_all add: compr_cfgs_offset_def sb(2) sb_consts)
    have h3: "holds_at img 1152 r0" "holds_at img (1152 + length r0) r1" "holds_at img (1152 + length r0 + length r1) r2"
      using h [OF False] by (simp_all add: u1(2) holds_append)
    obtain k1 where 1: "read_lz4_cfg d ?stop u1 (compr_cfgs_offset sb, compr_cfgs_default)
        = Ok (k1, compr_cfgs_default\<lparr>cfg_lz4 := if c0 = None then cfg_lz4 compr_cfgs_default else Some ()\<rparr>)"
      "unat k1 = 1152 + length r0"
      using lz4_record_read [OF r(1) d, of "compr_cfgs_offset sb" ?stop u1 compr_cfgs_default] h3(1) off bits(1) by auto
    let ?c1 = "compr_cfgs_default\<lparr>cfg_lz4 := if c0 = None then cfg_lz4 compr_cfgs_default else Some ()\<rparr>"
    let ?lz = "map_option (\<lambda>c. lzma_cfg_default\<lparr>dict_size := if dict_size c = 0 then dict_size lzma_cfg_default else dict_size c\<rparr>) c1"
    let ?c2 = "?c1\<lparr>cfg_lzma := if c1 = None then cfg_lzma ?c1 else ?lz\<rparr>"
    have k1: "unat k1 + 2 \<le> unat ?stop" using 1(2) off(2) rb(1) by simp
    obtain k2 where 2: "read_lzma_cfg d ?stop u1 (k1, ?c1) = Ok (k2, ?c2)" "unat k2 = unat k1 + length r1"
      using lzma_record_read [OF r(2) d _ k1 bits(2), of ?c1] h3(2) 1(2) by auto
    have k2: "unat k2 + 2 \<le> unat ?stop" using 1(2) 2(2) off(2) rb by simp
    obtain k3 where 3: "read_deflate_cfg d ?stop u1 (k2, ?c2) = Ok (k3, ?c2\<lparr>cfg_deflate := if c2 = None then cfg_deflate ?c2 else Some ()\<rparr>)"
      using deflate_record_read [OF r(3) d _ k2 bits(3), of ?c2] h3(3) 1(2) 2(2) by auto
    have "sb_feature_incompat sb AND INCOMPAT_COMPR_CFGS \<noteq> 0" using feature_bits [of data blob] False by (simp add: sb(3))
    moreover have "read_zstd_cfg d ?stop u1 (k3, c) = Ok (k3, c)" for c by (simp add: read_zstd_cfg_def bits(4))
    ultimately show ?thesis
      using False unfolding read_compr_cfgs_def Let_def sb(1) 1(1) bindR_simps 2(1) 3 w
      by (cases c0; cases c1; cases c2) (simp_all add: compr_cfgs_default_def)
  qed
qed

lemma built_opens:
  assumes bt: "built crc E root b options im img" and fits: "image_fits (unat (bs_of b)) im" and d: "serves d img"
  shows "\<exists>fs. open_with_devices crc d [] = Ok fs \<and> fs_primary fs = d \<and> fs_data fs = d \<and> fs_compr_cfgs fs = written_cfgs options (im_plan im)
    \<and> xattr_prefix_dict fs = Ok (bo_xattr_prefixes options) \<and> built_sb (fs_sb fs) im b options img \<and> image_at d (fs_sb fs) im b img"
proof -
  obtain sb where sb: "superblock_read crc d d = Ok sb" "built_sb sb im b options img" "image_at d sb im b img"
    using built_image_at [OF bt fits d] by blast
  obtain cs u1 blob dict cnt pstart where g: "gap_bytes options im u1 blob dict cnt" "dict = [] \<longrightarrow> pstart = 0"
    "gap_holds blob dict pstart (mp_base (map_of_image im (bs_of b))) img"
    and s: "sb = written_sb cs b (word_of_nat (length (im_plan im))) (word_of_nat (length img div unat (bs_of b))) (im_meta_blkaddr im)
             (image_features (im_data im) blob) u1 cnt pstart"
    using sb(2) unfolding built_sb_def by blast
  note len = image_length(2) [OF sb(3)]
  have c: "read_compr_cfgs d sb = Ok (written_cfgs options (im_plan im))"
    by (rule written_cfgs_read [of options "im_plan im" u1 blob d img sb "im_data im"])
      (use g d len in \<open>simp_all add: s written_sb_def gap_bytes_def gap_holds_def\<close>)
  have "read_xattr_prefix_dictionary d sb = Ok (bo_xattr_prefixes options)"
  proof (rule prefix_dictionary_roundtrip [OF d len _ _ _])
    show "encode_prefixes (bo_xattr_prefixes options) = Ok (dict, cnt)" using g(1) by (simp add: gap_bytes_def)
    show "sb_xattr_prefix_count sb = cnt" by (simp add: s written_sb_def)
    have h: "unat pstart * 4 + length dict \<le> length img" "take (length dict) (drop (unat pstart * 4) img) = dict"
      using g(2,3) by (cases "dict = []"; simp add: gap_holds_def holds_at_def)+
    then show "unat (sb_xattr_prefix_start sb) * 4 \<le> length img" by (simp add: s written_sb_def)
    show "drop (unat (sb_xattr_prefix_start sb) * 4) img = dict @ drop (length dict) (drop (unat pstart * 4) img)"
      using append_take_drop_id [of "length dict" "drop (unat pstart * 4) img"] h(2) by (simp add: s written_sb_def)
  qed
  moreover have "check_incompat_features sb = Ok ()"
    by (rule features_supported [of _ "im_data im" blob]) (simp add: s written_sb_def)
  ultimately show ?thesis using sb c by (simp add: open_with_devices_def open_split_def xattr_prefix_dict_def s written_sb_def)
qed

section \<open>Files and directories\<close>

lemma read_dir_blocks:
  assumes bs: "0 < unat bs" and len: "\<forall>x\<in>set blocks. length x = unat bs" and fit: "(j + length blocks) * unat bs < 2 ^ 64"
    and rd: "\<And>k. k < length blocks \<Longrightarrow> rd (word_of_nat (j + k)) (unat bs) = liftS (Ok (blocks ! k))"
    and listed: "mapR iter_block blocks = Ok ess" and rem: "unat remaining = length blocks * unat bs"
  shows "read_dir_loop rd bs (length blocks) remaining (word_of_nat j) out = liftS (Ok (out @ concat ess))"
  using assms(2-)
proof (induction blocks arbitrary: j remaining out ess)
  case (Cons x blocks)
  from Cons.prems(4) obtain es ess' where es: "iter_block x = Ok es" "mapR iter_block blocks = Ok ess'" "ess = es # ess'" by auto
  have x: "length x = unat bs" using Cons.prems(1) by simp
  have rem: "unat remaining = unat bs + length blocks * unat bs" using Cons.prems(5) by simp
  have m: "0 < remaining" "min remaining bs = bs" using rem bs by (auto simp: word_gt_0 min_def word_le_nat_alt word_unat_eq_iff)
  have sub: "unat (remaining - bs) = length blocks * unat bs" using rem by (subst unat_sub_no_wrap) (simp_all add: word_le_nat_alt)
  have r: "rd (word_of_nat j) (unat bs) = liftS (Ok x)" using Cons.prems(3) [of 0] by simp
  have pad: "pad_block bs x = x" by (simp add: pad_block_def x)
  have "read_dir_loop rd bs (length blocks) (remaining - bs) (word_of_nat (Suc j)) (out @ es) = liftS (Ok ((out @ es) @ concat ess'))"
  proof (rule Cons.IH [OF _ _ _ es(2) sub])
    show "rd (word_of_nat (Suc j + k)) (unat bs) = liftS (Ok (blocks ! k))" if "k < length blocks" for k
      using Cons.prems(3) [of "Suc k"] that by simp
  qed (use Cons.prems(1,2) in simp_all)
  then show ?case using m r pad es(1,3) by (simp add: add.commute)
qed (simp add: word_gt_0 unat_eq_zero)

text \<open>What is read behind a reader that was opened on the image.\<close>

definition opened :: "filesystem \<Rightarrow> blockdev \<Rightarrow> bool" where
  "opened fs d = (fs_primary fs = d \<and> fs_data fs = d)"

lemma opened_content: "opened fs d \<Longrightarrow> content_dev fs ino = d"
  by (simp add: opened_def content_dev_def)

lemma take_drop_blocks:
  assumes "\<forall>x\<in>set bl. length x = n" "k < length bl"
  shows "take n (drop (k * n) (concat bl)) = bl ! k"
  using assms
proof (induction bl arbitrary: k)
  case (Cons x bl)
  then show ?case by (cases k) simp_all
qed simp

lemma dir_reads:
  assumes im: "image_at d (fs_sb fs) im b img" and op: "opened fs d" and i: "i < length (im_plan im)" and dir: "is_pdir (im_plan im) i"
    and ino: "planned_inode im (bs_of b) i = Ok ino" "is_dir ino"
    and fl: "fmt_layout (i_format ino) = FlatPlain" "flat_fits (fs_sb fs) ino img"
      "flat_content (fs_sb fs) ino img = concat (blocks_of_dir (im_plan im) (im_nids im) (bs_of b) i)"
      "unat (i_size ino) = length (concat (blocks_of_dir (im_plan im) (im_nids im) (bs_of b) i))"
    and es: "bindR (mapR iter_block (blocks_of_dir (im_plan im) (im_nids im) (bs_of b) i)) (\<lambda>ess. Ok (concat ess)) = Ok es"
  shows "read_dir depth L fs ino = liftS (Ok es)"
proof -
  let ?bl = "blocks_of_dir (im_plan im) (im_nids im) (bs_of b) i" and ?bs = "bs_of b"
  note D = image_atD [OF im] and len = image_length(2) [OF im]
  note bs = valid_block_size [OF D(2)]
  have lb: "\<forall>x\<in>set ?bl. length x = unat ?bs" by (rule dir_at [OF im i dir]) (use dir_blocks_shape in blast)
  have u: "unat (i_size ino) = length ?bl * unat ?bs" unfolding fl(4) by (rule length_concat_blocks [OF lb])
  have start: "unat (i_raw_u ino) * unat ?bs + unat (i_size ino) \<le> length img"
    using fl(1,2) by (simp add: flat_fits_def Let_def D(6))
  have raw: "unat (ucast (i_raw_u ino) * ?bs) = unat (i_raw_u ino) * unat ?bs"
    using start len by (subst unat_mult_no_wrap) (simp_all add: unat_ucast_up)
  have pos: "0 < unat ?bs" using bs(2) by simp
  have nz: "?bs \<noteq> 0" using pos by auto
  have n: "unat (div_ceil (i_size ino) ?bs) = length ?bl"
  proof -
    have "(m * c + c - 1) div c = m" if "0 < c" for m c :: nat
    proof -
      have "m * c + c - 1 = m * c + (c - 1)" using that by simp
      also have "\<dots> div c = m" using that by (subst div_mult_self3) simp_all
      finally show ?thesis .
    qed
    from this [OF pos] show ?thesis unfolding unat_div_ceil [OF nz] u .
  qed
  have content: "take (length (concat ?bl)) (drop (unat (i_raw_u ino) * unat ?bs) img) = concat ?bl"
    using fl(1,3,4) by (simp add: flat_content_def Let_def D(6))
  have rd: "read_data_block L fs rp ino (word_of_nat (0 + k)) tot zm (unat ?bs) = liftS (Ok (?bl ! k))" if k: "k < length ?bl" for k rp tot zm
  proof -
    have kb: "k * unat ?bs + unat ?bs \<le> length (concat ?bl)"
      using mult_le_mono1 [of "Suc k" "length ?bl" "unat ?bs"] k by (simp add: length_concat_blocks [OF lb])
    have "read_at d (ucast (i_raw_u ino) * ?bs + word_of_nat k * ?bs) (unat ?bs)
        = Ok (take (unat ?bs) (drop (unat (i_raw_u ino) * unat ?bs + k * unat ?bs) img))"
      using serves_block [OF D(1), of "ucast (i_raw_u ino) * ?bs" k ?bs "unat ?bs"] kb start u nz fl(4) by (simp add: raw)
    also have "take (unat ?bs) (drop (unat (i_raw_u ino) * unat ?bs + k * unat ?bs) img)
        = take (unat ?bs) (drop (k * unat ?bs) (concat ?bl))"
      using kb by (subst content [symmetric]) (simp add: take_drop_take add.commute)
    finally show ?thesis
      using op by (simp add: read_data_block_def read_data_block_for_def Let_def fl(1) read_via_dev opened_content [OF op]
          image_atD(7) [OF im] take_drop_blocks [OF lb k])
  qed
  obtain ess where ess: "mapR iter_block ?bl = Ok ess" "es = concat ess" using es by auto
  have "(0 + length ?bl) * unat ?bs < 2 ^ 64" using start u len by simp
  from read_dir_blocks [OF pos lb this _ ess(1) u, of "\<lambda>block_idx. read_data_block L fs (read_file depth L fs) ino block_idx (div_ceil (i_size ino) ?bs) None" "[]"]
  have "read_dir_loop (\<lambda>block_idx. read_data_block L fs (read_file depth L fs) ino block_idx (div_ceil (i_size ino) ?bs) None) ?bs
      (length ?bl) (i_size ino) 0 [] = liftS (Ok es)" using rd ess(2) by simp
  then show ?thesis by (simp add: read_dir_def ino(2) Let_def zmap_for_def fl(1) D(7) n)
qed

text \<open>What was packed is listed.\<close>

lemma names_size_mem: "e \<in> set es \<Longrightarrow> length (fst e) \<le> names_size es"
  by (induction es) (auto simp: names_size_def)

lemma pack_fits:
  "pack_dir_blocks bs all = Ok blocks \<Longrightarrow> 12 * length all + names_size all < 2 ^ 64 \<Longrightarrow> e \<in> set all \<Longrightarrow> 12 + length (fst e) \<le> unat bs"
proof (induction bs all arbitrary: blocks rule: pack_dir_blocks.induct)
  case (1 bs all)
  have ne: "all \<noteq> []" using 1(4) by auto
  with 1(2) obtain k block out where k: "block_take bs all True 0 0 = Some k" "encode_one_dir_block (take k all) bs = Ok block"
    "pack_dir_blocks bs (drop k all) = Ok out"
    by (auto simp: pack_dir_blocks.simps [of bs all] split: option.splits)
  have fits: "12 * k + names_size (take k all) \<le> unat bs" using block_take_fits [OF k(1)] 1(3) by simp
  show ?case
  proof (cases "e \<in> set (take k all)")
    case True
    then have "0 < k" by (cases k) auto
    then show ?thesis using names_size_mem [OF True] fits by simp
  next
    case False
    have "e \<in> set (take k all) \<union> set (drop k all)" using 1(4) by (metis append_take_drop_id set_append)
    with False have m: "e \<in> set (drop k all)" by simp
    have "12 * length (drop k all) + names_size (drop k all) < 2 ^ 64" using 1(3) names_size_take_drop [of k all] by simp
    then show ?thesis using 1(1) [OF ne k(1,2,3)] m by simp
  qed
qed

lemma planned_dir_listed:
  assumes e: "encode_dir_blocks i (children_of (plan ! i)) plan nids bs = Ok blocks" and i: "i < length plan" "length nids = length plan"
    and ok: "indices_ok 0 0 (length plan) (plan ! i)" and small: "source_len (plan ! i) < 2 ^ 40" and dir: "is_pdir plan i"
    and bs: "512 \<le> unat bs" "unat bs \<le> 65536"
  shows "bindR (mapR iter_block blocks) (\<lambda>ess. Ok (concat ess)) = Ok (map ent_of (dir_listing i (children_of (plan ! i)) plan nids))"
proof -
  let ?ch = "children_of (plan ! i)" and ?all = "dir_listing i (children_of (plan ! i)) plan nids"
  have "pn_parent_idx (plan ! i) < length plan" using ok i(1) by (auto simp: indices_ok_def)
  moreover have ch: "\<forall>(name, c)\<in>set ?ch. c < length plan" "\<forall>(name, c)\<in>set ?ch. check_name name = Ok ()"
    using ok by (auto simp: indices_ok_def)
  ultimately have p: "pack_dir_blocks bs ?all = Ok blocks"
    using e by (auto simp: encode_dir_blocks_eq [OF i] split: if_splits)
  have "12 * length ?ch + sum_list (map (length \<circ> fst) ?ch) < 2 ^ 40"
    using small dir by (auto simp: source_len_def children_of_def is_pdir_def split: plan_kind.splits)
  then have tot: "12 * length ?all + names_size ?all < 2 ^ 64"
    by (simp add: names_size_listing) (simp add: dir_listing_def)
  have dots: "name_ok [0x2E]" "name_ok [0x2E, 0x2E]" by (simp_all add: name_ok_def slash_def)
  have "\<forall>e\<in>set ?all. name_ok (fst e)" using ch(2) dots check_name_ok by (auto simp: dir_listing_def)
  then have "\<forall>e\<in>set ?all. name_ok (fst e) \<and> 12 + length (fst e) \<le> unat bs" using pack_fits [OF p tot] by blast
  from pack_dir_blocks_lists [OF this bs(2) tot] p show ?thesis by auto
qed

section \<open>The tree on the device\<close>

definition kind_mode :: "plan_node \<Rightarrow> bool" where
  "kind_mode n =
     (let t = pn_mode n AND S_IFMT in
      case pn_kind n of
        PDir _ \<Rightarrow> t = S_IFDIR
      | PSymlink _ \<Rightarrow> t = S_IFLNK
      | PDevice _ \<Rightarrow> t = S_IFCHR \<or> t = S_IFBLK
      | PSpecial \<Rightarrow> t = S_IFIFO \<or> t = S_IFSOCK
      | _ \<Rightarrow> t = S_IFREG)"

lemma preorder_modes:
  "valid_node n \<Longrightarrow> p \<in> set (preorder i parent n) \<Longrightarrow> kind_mode p"
  "\<forall>e\<in>set es. valid_node (snd e) \<Longrightarrow> p \<in> set (preorder_list i parent es) \<Longrightarrow> kind_mode p"
  by (induction i parent n and i parent es rule: preorder_preorder_list.induct)
    (auto simp: kind_mode_def node_entry_def planned_compressed_def)

lemma planned_mode:
  assumes "planned_from E root bs im" "i < length (im_plan im)"
  shows "kind_mode (im_plan im ! i)"
    "pn_mode (im_plan im ! i) = pn_mode (preorder 0 0 root ! i)" "pn_meta (im_plan im ! i) = pn_meta (preorder 0 0 root ! i)"
    "pn_xattrs (im_plan im ! i) = pn_xattrs (preorder 0 0 root ! i)"
    "kind_kept (pn_kind (preorder 0 0 root ! i)) (pn_kind (im_plan im ! i))"
proof -
  let ?p = "preorder 0 0 root ! i" and ?n = "im_plan im ! i"
  from assms obtain ovr where v: "valid_node root" and len: "length (im_plan im) = node_count root"
    and b: "plan_body E ?p bs ovr = Ok (?n, im_bodies im ! i)" by (auto simp: planned_from_def)
  have m: "?p \<in> set (preorder 0 0 root)" using assms(2) len by (simp add: length_preorder)
  have k: "?n = ?p\<lparr>pn_kind := pn_kind ?n\<rparr>" and kk: "kind_kept (pn_kind ?p) (pn_kind ?n)"
    using plan_body_kept [OF b] preorder_plain(1) [OF m] by blast+
  show same: "pn_mode ?n = pn_mode ?p" "pn_meta ?n = pn_meta ?p" "pn_xattrs ?n = pn_xattrs ?p"
    using arg_cong [OF k, of pn_mode] arg_cong [OF k, of pn_meta] arg_cong [OF k, of pn_xattrs] by simp_all
  show "kind_kept (pn_kind ?p) (pn_kind ?n)" by (rule kk)
  show "kind_mode ?n" using preorder_modes(1) [OF v m] kk
    by (cases "pn_kind ?p"; cases "pn_kind ?n"; simp add: kind_mode_def kind_kept_def same(1) Let_def)
qed

lemma reader_facts:
  assumes bt: "built crc E root b options im img" and fits: "image_fits (unat (bs_of b)) im" and d: "serves d img"
    and fs: "open_with_devices crc d [] = Ok fs"
  shows "image_at d (fs_sb fs) im b img" "opened fs d" "planned_from E root (bs_of b) im"
    "\<And>i. i < length (im_plan im) \<Longrightarrow> source_len (im_plan im ! i) < 2 ^ 40" "sb_root_nid (fs_sb fs) = 0" "sb_ok (fs_sb fs)"
proof -
  obtain fs' where f: "open_with_devices crc d [] = Ok fs'" "fs_primary fs' = d" "fs_data fs' = d" "built_sb (fs_sb fs') im b options img"
    "image_at d (fs_sb fs') im b img" using built_opens [OF bt fits d] by blast
  with fs have e: "fs' = fs" by simp
  show "image_at d (fs_sb fs) im b img" "opened fs d" using f(2,3,5) by (simp_all add: e opened_def)
  then show "sb_ok (fs_sb fs)" using image_atD(3) by blast
  show "planned_from E root (bs_of b) im" using bt plan_image_from by (auto simp: built_def)
  show "source_len (im_plan im ! i) < 2 ^ 40" if "i < length (im_plan im)" for i
    using fits that by (simp add: image_fits_def list_all_length)
  show "sb_root_nid (fs_sb fs) = 0" using f(4) by (auto simp: built_sb_def e written_sb_def)
qed

lemma root_is_pdir:
  assumes "planned_from E (NDir mode es meta xs) bs im"
  shows "is_pdir (im_plan im) 0" "0 < length (im_plan im)"
proof -
  show n: "0 < length (im_plan im)" using assms by (simp add: planned_from_def)
  show "is_pdir (im_plan im) 0"
    using planned_mode(5) [OF assms n] by (simp add: is_pdir_def kind_kept_def node_entry_def split: plan_kind.splits)
qed

text \<open>Everything a reader finds of the node \<open>i\<close>.\<close>

lemma built_node:
  assumes im: "image_at d (fs_sb fs) im b img" and op: "opened fs d" and p: "planned_from E root (bs_of b) im"
    and i: "i < length (im_plan im)" and root: "is_pdir (im_plan im) 0" and ok: "node_ok im (bs_of b) i"
  obtains ino where "planned_inode im (bs_of b) i = Ok ino" "read_inode fs (im_nids im ! i) = Ok ino"
    "read_all_xattrs (fs_primary fs) (fs_sb fs) ino = Ok (pn_xattrs (im_plan im ! i))"
    "\<forall>xs. stored_bytes im (bs_of b) i = Some xs \<longrightarrow> fmt_layout (i_format ino) \<in> {FlatPlain, FlatInline}
       \<and> flat_fits (fs_sb fs) ino img \<and> flat_content (fs_sb fs) ino img = xs \<and> unat (i_size ino) = length xs"
    "i_mode ino = pn_mode (im_plan im ! i)"
proof -
  obtain ino where n: "planned_inode im (bs_of b) i = Ok ino" "inode_read d (fs_sb fs) (im_nids im ! i) = Ok ino"
    "read_all_xattrs d (fs_sb fs) ino = Ok (pn_xattrs (im_plan im ! i))"
    and t: "unat (body_end ino (fs_sb fs)) + length (tail_of (pn_kind (im_plan im ! i))) \<le> length img"
      "holds_at img (unat (body_end ino (fs_sb fs))) (tail_of (pn_kind (im_plan im ! i)))"
    by (rule node_reads [OF im p i root ok])
  show thesis
    by (rule that [OF n(1)])
      (use n op flat_node [OF im i n(1) _ t] planned_node(3) [OF p i] planned_inode_fields(3) [OF n(1)] in
        \<open>simp_all add: opened_def read_inode_def\<close>)
qed

text \<open>C1: an image that was built opens: the superblock is accepted, with the block size, the block and inode
  counts and the addresses of the plan, the features it sets are ones the reader implements, the
  compression configuration is read back as the one that was asked for or that the files need, and the
  dictionary of attribute prefixes as the one that was given.\<close>

theorem built_image_opens:
  assumes "build_image_with crc E root b options = Ok img" "plan_image E root (bs_of b) options = Ok (im, total_blocks)"
    and "image_fits (2 ^ unat b) im" "serves d img"
  shows "\<exists>fs. open_with_devices crc d [] = Ok fs \<and> fs_primary fs = d \<and> fs_data fs = d
    \<and> fs_compr_cfgs fs = written_cfgs options (im_plan im) \<and> xattr_prefix_dict fs = Ok (bo_xattr_prefixes options)
    \<and> sb_blkszbits (fs_sb fs) = b \<and> unat (sb_blocks (fs_sb fs)) * 2 ^ unat b = length img
    \<and> sb_inos (fs_sb fs) = word_of_nat (node_count root) \<and> sb_root_nid (fs_sb fs) = 0"
proof -
  have bt: "built crc E root b options im img"
    using assms(1,2) by (auto simp: build_image_with_def built_def bs_of_def Let_def split: if_splits)
  then have v: "is_valid_blkszbits b" by (simp add: built_def)
  note u = valid_block_size(1) [OF v]
  obtain fs where fs: "open_with_devices crc d [] = Ok fs" "fs_primary fs = d" "fs_data fs = d"
    "fs_compr_cfgs fs = written_cfgs options (im_plan im)" "xattr_prefix_dict fs = Ok (bo_xattr_prefixes options)"
    "built_sb (fs_sb fs) im b options img" "image_at d (fs_sb fs) im b img"
    using built_opens [OF bt _ assms(4)] assms(3) unfolding u by blast
  note L = image_length(1) [OF fs(7)] and stop = image_laidD(11) [OF image_atD(4) [OF fs(7)]]
  have "unat (word_of_nat (length img div unat (bs_of b)) :: u32) * 2 ^ unat b = length img"
    using L stop by (simp add: u unat_of_nat_small)
  moreover have "length (im_plan im) = node_count root" using plan_image_from [OF assms(2)] by (simp add: planned_from_def)
  ultimately show ?thesis using fs unfolding built_sb_def by (auto simp: written_sb_def)
qed

text \<open>C2: every node of the tree that was built reads back: the inode its number names has the mode, the owner
  and the times of the node and the size and link count of the plan, and the attributes read behind it are
  those the node was given. A directory needs to fit the shape that is chosen before its size is known.\<close>

theorem built_inode_reads:
  assumes "built crc E (NDir mode es meta xs) b options im img" "image_fits (unat (bs_of b)) im" "serves d img"
    and "open_with_devices crc d [] = Ok fs" "i < node_count (NDir mode es meta xs)" "node_ok im (bs_of b) i"
  shows "\<exists>ino. planned_inode im (bs_of b) i = Ok ino \<and> read_inode fs (im_nids im ! i) = Ok ino
    \<and> i_mode ino = pn_mode (preorder 0 0 (NDir mode es meta xs) ! i)
    \<and> i_uid ino = m_uid (pn_meta (preorder 0 0 (NDir mode es meta xs) ! i))
    \<and> i_gid ino = m_gid (pn_meta (preorder 0 0 (NDir mode es meta xs) ! i))
    \<and> i_mtime ino = m_mtime (pn_meta (preorder 0 0 (NDir mode es meta xs) ! i))
    \<and> read_all_xattrs (fs_primary fs) (fs_sb fs) ino = Ok (pn_xattrs (preorder 0 0 (NDir mode es meta xs) ! i))"
proof -
  note R = reader_facts [OF assms(1-4)]
  have i: "i < length (im_plan im)" using R(3) assms(5) by (simp add: planned_from_def)
  obtain ino where n: "planned_inode im (bs_of b) i = Ok ino" "read_inode fs (im_nids im ! i) = Ok ino"
    "read_all_xattrs (fs_primary fs) (fs_sb fs) ino = Ok (pn_xattrs (im_plan im ! i))" "i_mode ino = pn_mode (im_plan im ! i)"
    by (rule built_node [OF R(1-3) i root_is_pdir(1) [OF R(3)] assms(6)])
  have "i_uid ino = m_uid (pn_meta (im_plan im ! i))" "i_gid ino = m_gid (pn_meta (im_plan im ! i))"
    "i_mtime ino = m_mtime (pn_meta (im_plan im ! i))"
    using n(1) by (auto simp: planned_inode_def Let_def split: prod.splits) (auto simp: written_inode_def Let_def)
  then show ?thesis using n by (simp add: planned_mode(2-4) [OF R(3) i])
qed

lemma built_dir_read:
  assumes im: "image_at d (fs_sb fs) im b img" and op: "opened fs d" and p: "planned_from E root (bs_of b) im"
    and src: "source_len (im_plan im ! i) < 2 ^ 40" and i: "i < length (im_plan im)" and root: "is_pdir (im_plan im) 0"
    and dir: "is_pdir (im_plan im) i" and ok: "node_ok im (bs_of b) i" and ino: "read_inode fs (im_nids im ! i) = Ok ino"
  shows "read_dir depth L fs ino = liftS (Ok (map ent_of (dir_listing i (children_of (im_plan im ! i)) (im_plan im) (im_nids im))))"
proof -
  obtain ino' where n: "planned_inode im (bs_of b) i = Ok ino'" "read_inode fs (im_nids im ! i) = Ok ino'"
    and f: "\<forall>xs. stored_bytes im (bs_of b) i = Some xs \<longrightarrow> fmt_layout (i_format ino') \<in> {FlatPlain, FlatInline}
       \<and> flat_fits (fs_sb fs) ino' img \<and> flat_content (fs_sb fs) ino' img = xs \<and> unat (i_size ino') = length xs"
    and m: "i_mode ino' = pn_mode (im_plan im ! i)"
    by (rule built_node [OF im op p i root ok])
  have e: "ino' = ino" using n(2) ino by simp
  have k: "stored_bytes im (bs_of b) i = Some (concat (blocks_of_dir (im_plan im) (im_nids im) (bs_of b) i))"
    using dir by (auto simp: is_pdir_def stored_bytes_def split: plan_kind.splits)
  have lay: "fmt_layout (i_format ino) = FlatPlain"
    using planned_inode_fields(4) [OF n(1)] dir by (auto simp: e is_pdir_def inode_layout_and_flags_def split: plan_kind.splits)
  have isd: "is_dir ino"
    using planned_mode(1) [OF p i] dir m by (auto simp: e is_dir_def kind_mode_def is_pdir_def Let_def split: plan_kind.splits)
  note bs = valid_block_size [OF image_atD(2) [OF im]] and L = image_laidD [OF image_atD(4) [OF im]]
  have enc: "encode_dir_blocks i (children_of (im_plan im ! i)) (im_plan im) (im_nids im) (bs_of b)
      = Ok (blocks_of_dir (im_plan im) (im_nids im) (bs_of b) i)" by (rule dir_at [OF im i dir])
  have "length (im_nids im) = length (im_plan im)" using L(2,3) by simp
  note listed = planned_dir_listed [OF enc i this planned_node(4) [OF p i] src dir bs(2,3)]
  show ?thesis using dir_reads [OF im op i dir n(1) [unfolded e] isd lay _ _ _ listed] f k by (simp add: e)
qed

text \<open>C3: listing a directory of a built image gives the two dots, with its own number and its parent's, and
  then its children, each with the number of its inode and the type of its node, in the order of their
  names; none is lost, repeated or cut, and the cache is left alone.\<close>

theorem built_dir_lists:
  assumes "built crc E (NDir mode es meta xs) b options im img" "image_fits (unat (bs_of b)) im" "serves d img"
    and "open_with_devices crc d [] = Ok fs" "i < node_count (NDir mode es meta xs)" "node_ok im (bs_of b) i"
    and "is_pdir (im_plan im) i" "read_inode fs (im_nids im ! i) = Ok ino"
  shows "read_dir depth L fs ino pc =
    (Ok (map ent_of (dir_listing i (children_of (im_plan im ! i)) (im_plan im) (im_nids im))), pc)"
proof -
  note R = reader_facts [OF assms(1-4)]
  have i: "i < length (im_plan im)" using R(3) assms(5) by (simp add: planned_from_def)
  show ?thesis
    by (subst built_dir_read [OF R(1-3) R(4) [OF i] i root_is_pdir(1) [OF R(3)] assms(7,6,8)]) (simp add: liftS_apply)
qed

text \<open>C4: reading any range of a regular file of a built image gives that range of the bytes the file was built
  from, whether they were put behind its inode or in blocks of their own; reading a symbolic link no
  longer than a path can be gives its target.\<close>

theorem built_file_reads:
  assumes "built crc E (NDir mode es meta xs) b options im img" "image_fits (unat (bs_of b)) im" "serves d img"
    and "open_with_devices crc d [] = Ok fs" "i < node_count (NDir mode es meta xs)" "node_ok im (bs_of b) i"
    and "read_inode fs (im_nids im ! i) = Ok ino" "0 < depth"
  shows "(pn_kind (preorder 0 0 (NDir mode es meta xs) ! i) = PFile data layout \<longrightarrow> unat off + n \<le> length data \<longrightarrow>
      fst (read_file depth L fs ino off n (cache_new (lib_lru L) 0)) = Ok (take n (drop (unat off) data)))
    \<and> (pn_kind (preorder 0 0 (NDir mode es meta xs) ! i) = PSymlink target \<longrightarrow> length target \<le> 4096 \<longrightarrow>
      fst (read_symlink_target depth L fs ino (cache_new (lib_lru L) 0)) = Ok target)"
proof -
  note R = reader_facts [OF assms(1-4)]
  have i: "i < length (im_plan im)" using R(3) assms(5) by (simp add: planned_from_def)
  let ?k = "pn_kind (preorder 0 0 (NDir mode es meta xs) ! i)"
  obtain ino' where "read_inode fs (im_nids im ! i) = Ok ino'"
    and f: "\<forall>ys. stored_bytes im (bs_of b) i = Some ys \<longrightarrow> fmt_layout (i_format ino') \<in> {FlatPlain, FlatInline}
       \<and> flat_fits (fs_sb fs) ino' img \<and> flat_content (fs_sb fs) ino' img = ys \<and> unat (i_size ino') = length ys"
    and "i_mode ino' = pn_mode (im_plan im ! i)"
    by (rule built_node [OF R(1-3) i root_is_pdir(1) [OF R(3)] assms(6)])
  then have e: "ino' = ino" and m: "i_mode ino = pn_mode (im_plan im ! i)" using assms(7) by simp_all
  have dev: "serves (content_dev fs ino) img" using assms(3) by (simp add: opened_content [OF R(2)])
  have kept: "kind_kept ?k (pn_kind (im_plan im ! i))" by (rule planned_mode(5) [OF R(3) i])
  have rd: "fst (read_file depth L fs ino off n (cache_new (lib_lru L) 0)) = Ok (take n (drop (unat off) ys))"
    if "stored_bytes im (bs_of b) i = Some ys" "unat off + n \<le> length ys" for off n ys
    using flat_read [OF R(6) dev, of off n depth L] f that(1,2) assms(8) by (simp add: e)
  have "stored_bytes im (bs_of b) i = Some data" if "?k = PFile data layout"
    using kept that by (auto simp: kind_kept_def stored_bytes_def split: plan_kind.splits)
  moreover have "fst (read_symlink_target depth L fs ino (cache_new (lib_lru L) 0)) = Ok target"
    if k: "?k = PSymlink target" and l: "length target \<le> 4096"
  proof -
    have pk: "pn_kind (im_plan im ! i) = PSymlink target" using kept k by (simp add: kind_kept_def)
    then have st: "stored_bytes im (bs_of b) i = Some target" by (simp add: stored_bytes_def)
    have sz: "unat (i_size ino) = length target" using f st by (simp add: e)
    then have "\<not> MAX_SYMLINK_TARGET < i_size ino" using l by (simp add: MAX_SYMLINK_TARGET_def word_less_nat_alt)
    moreover have "is_symlink ino" using planned_mode(1) [OF R(3) i] by (simp add: is_symlink_def m kind_mode_def pk Let_def)
    ultimately show ?thesis using rd [OF st, of 0 "length target"] sz by (simp add: read_symlink_target_def Let_def liftS_apply)
  qed
  ultimately show ?thesis using rd by blast
qed

end
