(* ===== verification/ImageTree.thy ===== *)
theory ImageTree
  imports ImageRead
begin

text \<open>
  Paths in an image the builder wrote: a walk of the reader from the root is the walk of the tree the image was
  built from.
\<close>

section \<open>The walk of the tree\<close>

text \<open>The child of a name and its number, when the children are numbered from \<open>k\<close> on.\<close>

fun child_at :: "bytes \<Rightarrow> (bytes \<times> node) list \<Rightarrow> nat \<Rightarrow> (node \<times> nat) option" where
  "child_at c [] k = None"
| "child_at c ((name, child) # es) k = (if name = c then Some (child, k) else child_at c es (k + node_count child))"

text \<open>The number of the node a path leads to from the node \<open>n\<close> of number \<open>i\<close>.\<close>

primrec tree_path :: "bytes list \<Rightarrow> node \<Rightarrow> nat \<Rightarrow> nat result" where
  "tree_path [] n i = Ok i"
| "tree_path (c # cs) n i =
     (case n of
        NDir mode es meta xs \<Rightarrow> (case child_at c es (Suc i) of Some (child, k) \<Rightarrow> tree_path cs child k | None \<Rightarrow> Err NotFound)
      | _ \<Rightarrow> Err NotADirectory)"

definition is_dot :: "bytes \<Rightarrow> bool" where "is_dot c = (c = [0x2E] \<or> c = [0x2E, 0x2E])"

text \<open>No directory has a name twice.\<close>

fun plain_tree :: "node \<Rightarrow> bool" where
  "plain_tree (NDir mode es meta xs) = (distinct (map fst es) \<and> (\<forall>e\<in>set es. plain_tree (snd e)))"
| "plain_tree _ = True"

section \<open>Subtrees and their numbers\<close>

definition lies :: "'a list \<Rightarrow> nat \<Rightarrow> 'a list \<Rightarrow> bool" where
  "lies plan k xs = (\<exists>pre post. plan = pre @ xs @ post \<and> length pre = k)"

lemma lies_append: "lies plan k (xs @ ys) \<Longrightarrow> lies plan k xs \<and> lies plan (k + length xs) ys"
proof -
  assume "lies plan k (xs @ ys)"
  then obtain pre post where p: "plan = pre @ (xs @ ys) @ post" "length pre = k" by (auto simp: lies_def)
  have "lies plan k xs" unfolding lies_def by (rule exI [of _ pre], rule exI [of _ "ys @ post"]) (simp add: p)
  moreover have "lies plan (k + length xs) ys" unfolding lies_def by (rule exI [of _ "pre @ xs"], rule exI [of _ post]) (simp add: p)
  ultimately show ?thesis by blast
qed

lemma lies_nth: "lies plan k (x # xs) \<Longrightarrow> k < length plan \<and> plan ! k = x \<and> lies plan (Suc k) xs"
proof -
  assume l: "lies plan k (x # xs)"
  then obtain pre post where p: "plan = pre @ (x # xs) @ post" "length pre = k" unfolding lies_def by blast
  have "k < length plan" "plan ! k = x" by (simp_all add: p(1) nth_append p(2) [symmetric])
  then show ?thesis using lies_append [of plan k "[x]" xs] l by simp
qed

lemma child_lies:
  "lies plan k (preorder_list k par es) \<Longrightarrow> child_at c es k = Some (child, j) \<Longrightarrow>
     lies plan j (preorder j par child) \<and> (c, child) \<in> set es"
proof (induction es arbitrary: k)
  case (Cons e es)
  obtain name n where e: "e = (name, n)" by (cases e)
  from Cons.prems(1) have l: "lies plan k (preorder k par n)" "lies plan (k + node_count n) (preorder_list (k + node_count n) par es)"
    using lies_append by (fastforce simp: e length_preorder)+
  show ?case using Cons.IH [OF l(2)] Cons.prems(2) l(1) by (auto simp: e split: if_splits)
qed simp

lemma child_at_indices: "map_option snd (child_at c es k) = map_of (child_indices k es) c"
  by (induction c es k rule: child_at.induct) auto

lemma fst_child_indices: "map fst (child_indices k es) = map fst es"
  by (induction k es rule: child_indices.induct) simp_all

section \<open>Looking a name up in a listing\<close>

lemma find_map_of: "find (\<lambda>e. fst e = c) xs = map_option (\<lambda>v. (c, v)) (map_of xs c)"
  by (induction xs) auto

lemma map_of_sorted: "distinct (map fst xs) \<Longrightarrow> map_of (sort_key fst xs) = map_of xs"
proof -
  assume d: "distinct (map fst xs)"
  have "mset (map fst (sort_key fst xs)) = mset (map fst xs)" by (simp add: mset_map)
  then have "distinct (map fst (sort_key fst xs))" using d by (metis mset_eq_imp_distinct_iff)
  then show ?thesis using d by (subst map_of_inject_set) simp_all
qed

lemma find_listed:
  assumes "distinct (map fst children)" "\<not> is_dot c"
  shows "find (\<lambda>e. de_name e = c) (map ent_of (dir_listing i children plan nids)) =
    map_option (\<lambda>k. ent_of (c, nids ! k, file_type_byte (plan ! k))) (map_of children c)"
proof -
  let ?f = "\<lambda>(name, k). (name, nids ! k, file_type_byte (plan ! k))"
  have m: "map_of (map ?f xs) c = map_option (\<lambda>k. (nids ! k, file_type_byte (plan ! k))) (map_of xs c)" for xs :: "(bytes \<times> nat) list"
    by (induction xs) auto
  have "distinct (map fst (map ?f children))" using assms(1) by (simp add: comp_def case_prod_unfold)
  then have s: "find (\<lambda>e. fst e = c) (sort_key fst (map ?f children)) = map_option (\<lambda>k. (c, nids ! k, file_type_byte (plan ! k))) (map_of children c)"
    by (simp add: find_map_of map_of_sorted m option.map_comp comp_def)
  have e: "de_name (ent_of x) = fst x" for x by (cases x) (simp add: ent_of_def)
  have "find (\<lambda>x. de_name x = c) (map ent_of xs) = map_option ent_of (find (\<lambda>x. fst x = c) xs)" for xs
    by (induction xs) (simp_all add: e)
  then show ?thesis using s assms(2) by (auto simp: dir_listing_def is_dot_def e option.map_comp comp_def)
qed

section \<open>Walking\<close>

text \<open>The tree that was built, seen from a reader: every node fits its inode.\<close>

definition nodes_ok :: "image_plan \<Rightarrow> u64 \<Rightarrow> bool" where
  "nodes_ok im bs = list_all (node_ok im bs) [0..<length (im_plan im)]"

lemma first_nid:
  assumes "built crc E root b options im img" "im_plan im \<noteq> []"
  shows "im_nids im ! 0 = 0"
proof -
  obtain total_blocks where p: "plan_image E root (bs_of b) options = Ok (im, total_blocks)" using assms(1) by (auto simp: built_def)
  have m: "im_slots im = plan_meta_layout (im_bodies im) (bs_of b)" "im_nids im = map slot_nid (im_slots im)"
    "length (im_bodies im) = length (im_plan im)"
    using plan_image_cases [OF p] by (metis length_map)+
  then obtain body bodies where "im_bodies im = body # bodies" using assms(2) by (cases "im_bodies im") auto
  then have "im_nids im ! 0 = slot_nid (place body (bs_of b) 0)"
    by (simp add: m plan_meta_layout_def Let_def)
  also have "\<dots> = 0" by (simp add: place_def Let_def slot_nid_def div_ceil_def)
  finally show ?thesis .
qed

lemma built_walk:
  assumes im: "image_at d (fs_sb fs) im b img" and op: "opened fs d" and p: "planned_from E root (bs_of b) im"
    and src: "\<And>i. i < length (im_plan im) \<Longrightarrow> source_len (im_plan im ! i) < 2 ^ 40" and dir: "is_pdir (im_plan im) 0"
    and ok: "nodes_ok im (bs_of b)"
  shows "lies (preorder 0 0 root) i (preorder i par n) \<Longrightarrow> plain_tree n \<Longrightarrow> \<forall>c\<in>set cs. \<not> is_dot c \<Longrightarrow>
    read_inode fs (im_nids im ! i) = Ok ino \<Longrightarrow>
    walk depth L fs cs ino = liftS (bindR (tree_path cs n i) (\<lambda>k. read_inode fs (im_nids im ! k)))"
proof (induction cs arbitrary: n i par ino)
  case (Cons c cs)
  have n: "length (im_plan im) = length (preorder 0 0 root)" using p by (simp add: planned_from_def length_preorder)
  obtain x xs where pre: "preorder i par n = x # xs" using length_preorder(1) [of i par n] node_count_pos [of n] by (cases "preorder i par n") auto
  note at = lies_nth [OF Cons.prems(1) [unfolded pre]]
  have i: "i < length (im_plan im)" using at n by simp
  have ni: "node_ok im (bs_of b) i" using ok i by (simp add: nodes_ok_def list_all_iff)
  have kept: "kind_kept (pn_kind x) (pn_kind (im_plan im ! i))" using planned_mode(5) [OF p i] at by simp
  obtain ino' where "read_inode fs (im_nids im ! i) = Ok ino'" and m: "i_mode ino' = pn_mode (im_plan im ! i)"
    by (rule built_node [OF im op p i dir ni])
  then have m: "i_mode ino = pn_mode (im_plan im ! i)" using Cons.prems(4) by simp
  note km = planned_mode(1) [OF p i]
  show ?case
  proof (cases n)
    case (NDir mode es meta xattrs)
    then have x: "pn_kind x = PDir (child_indices (Suc i) es)" and rest: "lies (preorder 0 0 root) (Suc i) (preorder_list (Suc i) i es)"
      using pre at by (auto simp: node_entry_def)
    have k: "pn_kind (im_plan im ! i) = PDir (child_indices (Suc i) es)" using kept by (simp add: kind_kept_def x)
    have pd: "is_pdir (im_plan im) i" by (simp add: is_pdir_def k)
    have ch: "children_of (im_plan im ! i) = child_indices (Suc i) es" by (simp add: children_of_def k)
    have d: "distinct (map fst (child_indices (Suc i) es))" using Cons.prems(2) by (simp add: fst_child_indices NDir)
    note listing = built_dir_read [OF im op p src [OF i] i dir pd ni Cons.prems(4), of depth L, unfolded ch]
    have lk: "lookup depth L fs ino c = (case child_at c es (Suc i) of Some (child, k) \<Rightarrow> liftS (read_inode fs (im_nids im ! k))
        | None \<Rightarrow> liftS (Err NotFound))"
      unfolding lookup_listing listing bindS_lift using Cons.prems(3) find_listed [OF d, of c] child_at_indices [of c es "Suc i", symmetric]
      by (cases "child_at c es (Suc i)") (auto simp: ent_of_def)
    show ?thesis
    proof (cases "child_at c es (Suc i)")
      case None
      then show ?thesis by (simp add: lk NDir)
    next
      case (Some ck)
      obtain child k where ck: "ck = (child, k)" by (cases ck)
      note cl = child_lies [OF rest Some [unfolded ck]]
      have pt: "plain_tree child" using Cons.prems(2) cl by (auto simp: NDir)
      obtain y ys where "preorder k i child = y # ys"
        using length_preorder(1) [of k i child] node_count_pos [of child] by (cases "preorder k i child") auto
      then have kl: "k < length (im_plan im)" using cl lies_nth n by metis
      obtain ino' where r: "read_inode fs (im_nids im ! k) = Ok ino'"
        by (rule built_node [OF im op p kl dir]) (use ok kl in \<open>simp_all add: nodes_ok_def list_all_iff\<close>)
      show ?thesis using Cons.IH [OF conjunct1 [OF cl] pt _ r] Cons.prems(3) by (simp add: lk NDir Some ck r)
    qed
  qed (use pre km kept m in \<open>auto simp: lookup_def is_dir_def kind_mode_def kind_kept_def node_entry_def Let_def inode_consts split: plan_kind.splits\<close>)
qed simp

lemma built_lookup:
  assumes "built crc E (NDir mode es meta xs) b options im img" "image_fits (unat (bs_of b)) im" "serves d img"
    and "open_with_devices crc d [] = Ok fs" "nodes_ok im (bs_of b)" "plain_tree (NDir mode es meta xs)"
    and "\<forall>c\<in>set (components path). \<not> is_dot c"
  shows "lookup_path_bytes depth L fs path pc =
    (bindR (tree_path (components path) (NDir mode es meta xs) 0) (\<lambda>k. read_inode fs (im_nids im ! k)), pc)"
proof -
  note R = reader_facts [OF assms(1-4)] and root = root_is_pdir [OF R(3)]
  have r: "root_inode fs = read_inode fs (im_nids im ! 0)"
    using first_nid [OF assms(1)] root(2) by (simp add: root_inode_def read_inode_def R(5))
  have ok0: "node_ok im (bs_of b) 0" using assms(5) root(2) by (simp add: nodes_ok_def list_all_iff)
  obtain ino where ino: "read_inode fs (im_nids im ! 0) = Ok ino" by (rule built_node [OF R(1-3) root(2,1) ok0])
  have "lies (preorder 0 0 (NDir mode es meta xs)) 0 (preorder 0 0 (NDir mode es meta xs))"
    unfolding lies_def by (intro exI [of _ "[]"]) simp
  from built_walk [OF R(1-4) root(1) assms(5) this assms(6,7) ino, of depth L]
  show ?thesis by (simp only: lookup_path_bytes_def r ino bindS_lift liftS_apply)
qed

text \<open>C5: a path in a built image leads where it leads in the tree: looking it up from the root gives the inode of
  the very node its names select, child by child, or \<open>NotFound\<close> for a name no child has, or \<open>NotADirectory\<close>
  where a file stands before the end; the cache is left alone.\<close>

theorem built_paths:
  assumes "built crc E (NDir mode es meta xs) b options im img" "image_fits (unat (bs_of b)) im" "serves d img"
    and "open_with_devices crc d [] = Ok fs" "nodes_ok im (bs_of b)" "plain_tree (NDir mode es meta xs)"
    and "\<forall>c\<in>set (components path). \<not> is_dot c"
  shows "lookup_path_bytes depth L fs path pc =
    (bindR (tree_path (components path) (NDir mode es meta xs) 0) (\<lambda>k. read_inode fs (im_nids im ! k)), pc)"
  using assms by (rule built_lookup)

end
