(* ===== verification/CapiBuilt.thy ===== *)
theory CapiBuilt
  imports CapiSafe ImageTree
begin

text \<open>
  The writer and the C interface together: a C program that mounts an image the builder made reads back, byte
  for byte, the files the image was made of. The cache that the handle puts before the metadata is another
  crate's and is taken to give the bytes of the device.
\<close>

section \<open>Reads that leave the cache alone\<close>

lemma lifted_bind: "\<exists>r. m = liftS r \<Longrightarrow> (\<And>a. \<exists>r. f a = liftS r) \<Longrightarrow> \<exists>r. bindS m f = liftS r"
proof -
  assume "\<exists>r. m = liftS r" and f: "\<And>a. \<exists>r. f a = liftS r"
  then obtain r where m: "m = liftS r" by blast
  show ?thesis
  proof (cases r)
    case (Ok a)
    then show ?thesis using f [of a] by (simp add: m)
  qed (auto simp: m bindS_def liftS_apply fun_eq_iff)
qed

lemma flat_block_lifted:
  "fmt_layout (i_format ino) \<in> {FlatPlain, FlatInline} \<Longrightarrow> \<exists>r. read_data_block_for L fs rp ino i t zm k w = liftS r"
  by (auto simp: read_data_block_for_def Let_def)

lemma read_loop_lifted:
  "(\<And>i k w. \<exists>r. rd i k w = liftS r) \<Longrightarrow> \<exists>r. read_loop rd bs fsize rounds cursor n written = liftS r"
proof (induction rounds arbitrary: cursor written)
  case (Suc rounds)
  show ?case
  proof (cases "written < n")
    case True
    show ?thesis unfolding read_loop.simps if_P [OF True] Let_def
      by (rule lifted_bind, rule Suc.prems, rule lifted_bind, blast, rule lifted_bind, rule Suc.IH, rule Suc.prems, blast)
  qed auto
qed auto

lemma flat_read_any:
  assumes "sb_ok (fs_sb fs)" "serves (content_dev fs ino) img"
    and lay: "fmt_layout (i_format ino) \<in> {FlatPlain, FlatInline}" and "flat_fits (fs_sb fs) ino img"
    and "unat off + n \<le> unat (i_size ino)" "0 < depth"
  shows "read_file depth L fs ino off n pc = (Ok (take n (drop (unat off) (flat_content (fs_sb fs) ino img))), pc)"
proof -
  obtain d where d: "depth = Suc d" using assms(6) by (cases depth) auto
  have zm: "zmap_for fs ino = Ok None" using lay by (auto simp: zmap_for_def)
  have "\<exists>r. read_file depth L fs ino off n = liftS r"
    unfolding d read_file.simps read_file_with_def zm Let_def using read_loop_lifted [OF flat_block_lifted [OF lay]] by auto
  then obtain r where r: "read_file depth L fs ino off n = liftS r" by blast
  show ?thesis using flat_read [OF assms, of L] by (simp add: r liftS_apply)
qed

section \<open>A regular file of a built image\<close>

lemma built_regular:
  assumes bt: "built crc B (NDir mode es meta xs) b options im img" and fits: "image_fits (unat (bs_of b)) im" and d: "serves d img"
    and fs: "open_with_devices crc d [] = Ok fs" and i: "i < node_count (NDir mode es meta xs)" and ok: "node_ok im (bs_of b) i"
    and k: "pn_kind (preorder 0 0 (NDir mode es meta xs) ! i) = PFile data l" and depth: "0 < depth"
  obtains ino where "read_inode fs (im_nids im ! i) = Ok ino" "is_regular_file ino" "unat (i_size ino) = length data"
    "\<And>off n pc. unat off + n \<le> length data \<Longrightarrow> read_file depth L fs ino off n pc = (Ok (take n (drop (unat off) data)), pc)"
proof -
  note R = reader_facts [OF bt fits d fs]
  have il: "i < length (im_plan im)" using R(3) i by (simp add: planned_from_def)
  obtain ino where r: "read_inode fs (im_nids im ! i) = Ok ino"
    and f: "\<forall>ys. stored_bytes im (bs_of b) i = Some ys \<longrightarrow> fmt_layout (i_format ino) \<in> {FlatPlain, FlatInline}
       \<and> flat_fits (fs_sb fs) ino img \<and> flat_content (fs_sb fs) ino img = ys \<and> unat (i_size ino) = length ys"
    and m: "i_mode ino = pn_mode (im_plan im ! i)"
    by (rule built_node [OF R(1-3) il root_is_pdir(1) [OF R(3)] ok])
  have kept: "kind_kept (PFile data l) (pn_kind (im_plan im ! i))" using planned_mode(5) [OF R(3) il] k by simp
  then obtain l' where pk: "pn_kind (im_plan im ! i) = PFile data l'" by (auto simp: kind_kept_def split: plan_kind.splits)
  then have st: "stored_bytes im (bs_of b) i = Some data" by (simp add: stored_bytes_def)
  have dev: "serves (content_dev fs ino) img" using d by (simp add: opened_content [OF R(2)])
  have reg: "is_regular_file ino" using planned_mode(1) [OF R(3) il] by (simp add: kind_mode_def pk m is_regular_file_def)
  show thesis
    by (rule that [OF r reg]) (use f st flat_read_any [OF R(6) dev, of _ _ depth L] depth in auto)
qed

lemma built_link:
  assumes bt: "built crc B (NDir mode es meta xs) b options im img" and fits: "image_fits (unat (bs_of b)) im" and d: "serves d img"
    and fs: "open_with_devices crc d [] = Ok fs" and i: "i < node_count (NDir mode es meta xs)" and ok: "node_ok im (bs_of b) i"
    and k: "pn_kind (preorder 0 0 (NDir mode es meta xs) ! i) = PSymlink target" and l: "length target \<le> 4096" and depth: "0 < depth"
  obtains ino where "read_inode fs (im_nids im ! i) = Ok ino" "is_symlink ino"
    "\<And>pc. read_symlink_target depth L fs ino pc = (Ok target, pc)"
proof -
  note R = reader_facts [OF bt fits d fs]
  have il: "i < length (im_plan im)" using R(3) i by (simp add: planned_from_def)
  obtain ino where r: "read_inode fs (im_nids im ! i) = Ok ino"
    and f: "\<forall>ys. stored_bytes im (bs_of b) i = Some ys \<longrightarrow> fmt_layout (i_format ino) \<in> {FlatPlain, FlatInline}
       \<and> flat_fits (fs_sb fs) ino img \<and> flat_content (fs_sb fs) ino img = ys \<and> unat (i_size ino) = length ys"
    and m: "i_mode ino = pn_mode (im_plan im ! i)"
    by (rule built_node [OF R(1-3) il root_is_pdir(1) [OF R(3)] ok])
  have pk: "pn_kind (im_plan im ! i) = PSymlink target" using planned_mode(5) [OF R(3) il] k by (simp add: kind_kept_def)
  then have st: "stored_bytes im (bs_of b) i = Some target" by (simp add: stored_bytes_def)
  have dev: "serves (content_dev fs ino) img" using d by (simp add: opened_content [OF R(2)])
  have sym: "is_symlink ino" using planned_mode(1) [OF R(3) il] by (simp add: kind_mode_def pk m is_symlink_def)
  have sz: "unat (i_size ino) = length target" using f st by simp
  then have short: "\<not> MAX_SYMLINK_TARGET < i_size ino" using l by (simp add: MAX_SYMLINK_TARGET_def not_less word_le_nat_alt)
  have rd: "read_file depth L fs ino 0 (length target) pc = (Ok target, pc)" for pc
    using flat_read_any [OF R(6) dev, of 0 "length target" depth L] f st depth by simp
  have "read_symlink_target depth L fs ino pc = (Ok target, pc)" for pc
    using rd [of pc] by (simp add: read_symlink_target_def sym short sz Let_def liftS_apply)
  then show thesis by (rule that [OF r sym])
qed

lemma child_at_bound:
  "child_at c es k = Some (child, j) \<Longrightarrow> k \<le> j \<and> j + node_count child \<le> k + sum_list (map (\<lambda>e. node_count (snd e)) es)"
  by (induction c es k rule: child_at.induct) (auto split: if_splits)

lemma tree_path_bound: "tree_path cs n i = Ok k \<Longrightarrow> k < i + node_count n"
proof (induction cs arbitrary: n i)
  case Nil
  then show ?case using node_count_pos [of n] by simp
next
  case (Cons c cs)
  then obtain mode es meta xs child j where n: "n = NDir mode es meta xs" "child_at c es (Suc i) = Some (child, j)"
    "tree_path cs child j = Ok k" by (auto split: node.splits option.splits)
  show ?case using Cons.IH [OF n(3)] child_at_bound [OF n(2)] by (simp add: n(1))
qed

lemma fs_open_uncached:
  assumes "\<And>n k. caching d n k = d"
  shows "fs_open crc caching d = open_with_devices crc d []"
proof (cases "superblock_read crc d d")
qed (simp_all add: fs_open_def open_with_cache_def DEFAULT_METADATA_CACHE_BLOCKS_def open_with_devices_def open_split_def assms)

text \<open>C6: what went in comes out. A C program that mounts an image the builder made and reads a path that leads, in
  the tree the image was built from, to a regular file gets the bytes of that file: as many from the offset
  on as the file has and the caller asked for, none at or past its end, and the count of them; with no error
  left behind, and whatever the process had mounted, opened or failed at before.\<close>

theorem c_program_reads_source:
  assumes "built (e_crc E) B (NDir mode es meta xs) b options im img" "image_fits (unat (bs_of b)) im" "serves d img"
    and "nodes_ok im (bs_of b)" "plain_tree (NDir mode es meta xs)" "\<forall>n k. e_caching E d n k = d" "0 < e_depth E" "0 < p_next st"
    and "\<forall>c\<in>set (components (c_str path)). \<not> is_dot c"
    and "tree_path (components (c_str path)) (NDir mode es meta xs) 0 = Ok i"
    and "pn_kind (preorder 0 0 (NDir mode es meta xs) ! i) = PFile data l" "unat n \<le> cap" "cap < 2 ^ 63"
  shows "\<exists>fs st1 st2. fs_erofs_mount_with_fs_core_device E (Some d) st = Done fs st1 \<and> fs \<noteq> 0
    \<and> (let out = take (unat n) (drop (unat off) data) in
         fs_erofs_read_file E fs (Some path) (Some cap) off n st1 = Done (int (length out), out) st2)
    \<and> fs_erofs_last_errno st2 = 0"
proof -
  obtain f where f: "open_with_devices (e_crc E) d [] = Ok f" using built_opens [OF assms(1-3)] by auto
  have fo: "fs_open (e_crc E) (e_caching E) d = Ok f" using fs_open_uncached assms(6) f by simp
  let ?fs = "p_next st" and ?m = "\<lparr>mt_fs = f, mt_cache = cache_new (lib_lru (e_libs E)) DEFAULT_PCLUSTER_CACHE_CAPACITY\<rparr>"
  let ?st1 = "(clear_last_error st)\<lparr>p_mounts := (p_mounts st)(?fs \<mapsto> ?m), p_next := Suc ?fs\<rparr>"
  have mount: "fs_erofs_mount_with_fs_core_device E (Some d) st = Done ?fs ?st1"
    by (simp add: fs_erofs_mount_with_fs_core_device_def Let_def mount_from_device_def fo on_result_def ffi_guard_def clear_last_error_def)
  have ic: "i < node_count (NDir mode es meta xs)" using tree_path_bound [OF assms(10)] by simp
  then have il: "i < length (im_plan im)" using reader_facts(3) [OF assms(1-3) f] by (simp add: planned_from_def)
  have ok: "node_ok im (bs_of b) i" using assms(4) il by (simp add: nodes_ok_def list_all_iff)
  obtain ino where r: "read_inode f (im_nids im ! i) = Ok ino" "is_regular_file ino" "unat (i_size ino) = length data"
    and rd: "\<And>off n pc. unat off + n \<le> length data \<Longrightarrow>
      read_file (e_depth E) (e_libs E) f ino off n pc = (Ok (take n (drop (unat off) data)), pc)"
    using built_regular [OF assms(1-3) f ic ok assms(11,7)] by metis
  have look: "lookup_path_bytes (e_depth E) (e_libs E) f (c_str path) pc = (Ok ino, pc)" for pc
    using built_lookup [OF assms(1-3) f assms(4,5,9)] assms(10) r(1) by simp
  let ?k = "unat (min n (i_size ino - off))" and ?out = "take (unat n) (drop (unat off) data)"
  have short: "?k = length ?out \<and> ?out = take ?k (drop (unat off) data) \<and> unat off + ?k \<le> length data" if "off < i_size ino"
  proof -
    have "unat (i_size ino - off) = length data - unat off" using that r(3) by (simp add: unat_sub less_imp_le)
    then have "?k = min (unat n) (length data - unat off)" by (simp add: unat_min)
    moreover have "unat off < length data" using that r(3) by (simp add: word_less_nat_alt)
    ultimately show ?thesis by (auto simp: min_def)
  qed
  have "\<exists>st2. fs_erofs_read_file E ?fs (Some path) (Some cap) off n ?st1 = Done (int (length ?out), ?out) st2 \<and> p_errno st2 = 0"
  proof (cases "off < i_size ino")
    case True
    note s = short [OF True]
    have c: "\<not> cap < ?k" "?k < 2 ^ 63" using assms(12,13) unat_min [of n "i_size ino - off"] by simp_all
    have rk: "read_file (e_depth E) (e_libs E) f ino off ?k pc = (Ok ?out, pc)" for pc using rd s by metis
    have ck: "as_i64 ?k = int (length ?out)" using as_i64_small [OF c(2)] s by metis
    have z: "?out = []" if "?k = 0" using s that by (metis length_0_conv)
    have off: "\<not> i_size ino \<le> off" using True by simp
    show ?thesis
      by (cases "?k = 0")
        (simp_all add: fs_erofs_read_file_def ffi_guard_def the_fs_def on_fs_def on_result_def cstr_to_bytes_def clear_last_error_def
            look Let_def rk ck z off c(1) r(2) assms(8) [THEN less_imp_neq, symmetric] del: length_take length_drop unat_min)
  next
    case False
    then have "length data \<le> unat off" using r(3) by (simp add: not_less word_le_nat_alt)
    then show ?thesis using False r(2) assms(8)
      by (simp add: fs_erofs_read_file_def ffi_guard_def the_fs_def on_fs_def on_result_def cstr_to_bytes_def clear_last_error_def look
          not_less)
  qed
  then show ?thesis using mount assms(8) by (auto simp: Let_def fs_erofs_last_errno_def)
qed

end
