(* ===== verification/CliBuilt.thy ===== *)
theory CliBuilt
  imports CliSafe CapiBuilt
begin

text \<open>
  The writer and \<open>fs.erofs\<close> together: a recursive listing of an image the builder made is the listing of the tree
  it was made of, and reading a file writes the bytes of the source.
\<close>

section \<open>The listing of a tree\<close>

text \<open>Path, depth and number of every node below a directory, its children first to last, each before its own.\<close>

function tree_list :: "bytes \<Rightarrow> nat \<Rightarrow> nat \<Rightarrow> (bytes \<times> node) list \<Rightarrow> (bytes \<times> nat \<times> nat) list" where
  "tree_list parent d k [] = []"
| "tree_list parent d k ((name, child) # es) =
     (path_join parent name, d, k) #
     (case child of NDir _ ces _ _ \<Rightarrow> tree_list (path_join parent name) (Suc d) (Suc k) ces | _ \<Rightarrow> []) @
     tree_list parent d (k + node_count child) es"
  by pat_completeness auto
termination
  by (relation "measure (\<lambda>(p, d, k, es). size_list (size_prod (\<lambda>_. 0) size) es)") auto

lemma length_tree_list: "length (tree_list parent d k es) = sum_list (map (\<lambda>e. node_count (snd e)) es)"
  by (induction parent d k es rule: tree_list.induct) (auto split: node.split)

text \<open>Directories as a \<open>BTreeMap\<close> holds them, without the dots, and links of a length the reader follows.\<close>

fun listable :: "node \<Rightarrow> bool" where
  "listable (NDir mode es meta xs) = (sorted (map fst es) \<and> distinct (map fst es) \<and> (\<forall>e\<in>set es. \<not> is_dot (fst e) \<and> listable (snd e)))"
| "listable (NSymlink mode target meta xs) = (length target \<le> 4096)"
| "listable _ = True"

lemma plain_listable: "listable n \<Longrightarrow> plain_tree n"
  by (induction n rule: plain_tree.induct) auto

section \<open>A filesystem that shows a tree\<close>

definition children_listed :: "u64 list \<Rightarrow> nat \<Rightarrow> (bytes \<times> node) list \<Rightarrow> dir_entry list \<Rightarrow> bool" where
  "children_listed nids k es ds = (map (\<lambda>d. (de_name d, de_nid d)) ds = map (\<lambda>(name, j). (name, nids ! j)) (child_indices k es))"

lemma children_listed_simps:
  "children_listed nids k [] ds \<longleftrightarrow> ds = []"
  "children_listed nids k ((name, child) # es) ds \<longleftrightarrow>
     (\<exists>d ds'. ds = d # ds' \<and> de_name d = name \<and> de_nid d = nids ! k \<and> children_listed nids (k + node_count child) es ds')"
  by (auto simp: children_listed_def Cons_eq_map_conv)

text \<open>The node of a number has an inode of its kind, and a directory lists its children.\<close>

function displays :: "('z, 'c, 'w) tool \<Rightarrow> filesystem \<Rightarrow> u64 list \<Rightarrow> nat \<Rightarrow> node \<Rightarrow> bool"
  and displays_all :: "('z, 'c, 'w) tool \<Rightarrow> filesystem \<Rightarrow> u64 list \<Rightarrow> nat \<Rightarrow> (bytes \<times> node) list \<Rightarrow> bool" where
  "displays T fs nids k n =
     (\<exists>ino. read_inode fs (nids ! k) = Ok ino \<and> i_nid ino = nids ! k \<and> is_dir ino = (case n of NDir _ _ _ _ \<Rightarrow> True | _ \<Rightarrow> False)
        \<and> (is_symlink ino \<longrightarrow> (\<exists>target. \<forall>pc. read_symlink_target (t_depth T) (t_libs T) fs ino pc = (Ok target, pc)))
        \<and> (case n of
             NDir _ es _ _ \<Rightarrow>
               (\<exists>ds. (\<forall>pc. read_dir (t_depth T) (t_libs T) fs ino pc = (Ok ds, pc))
                  \<and> children_listed nids (Suc k) es (sort_key de_name (filter (\<lambda>d. \<not> is_dot_entry d) ds)))
               \<and> displays_all T fs nids (Suc k) es
           | _ \<Rightarrow> True))"
| "displays_all T fs nids k [] = True"
| "displays_all T fs nids k ((name, child) # es) = (displays T fs nids k child \<and> displays_all T fs nids (k + node_count child) es)"
  by pat_completeness auto
termination
  by (relation "measure (case_sum (\<lambda>(_, _, _, _, n). size n) (\<lambda>(_, _, _, _, es). size_list (size_prod (\<lambda>_. 0) size) es))") auto

declare displays.simps [simp del]

definition listed_as :: "filesystem \<Rightarrow> u64 list \<Rightarrow> bytes \<times> nat \<times> nat \<Rightarrow> json \<Rightarrow> bool" where
  "listed_as fs nids x e =
     (case x of (path, d, k) \<Rightarrow> \<exists>ino. read_inode fs (nids ! k) = Ok ino \<and> lists_inode ino path (word_of_nat d) False e)"

lemma entry_given:
  assumes "is_symlink ino \<longrightarrow> (\<exists>target. \<forall>pc. read_symlink_target (t_depth T) (t_libs T) fs ino pc = (Ok target, pc))"
  obtains e where "recursive_entry T fs path depth ino revisited (pc, w) = (Fine e, (pc, w))"
proof -
  have "\<exists>fds. entry T fs name ino pc = (Ok (JObj fds), pc)" for name
    using assms by (cases "is_symlink ino") (auto simp: entry_def Let_def bindS_def liftS_apply is_type_simps)
  then obtain fds where "entry T fs (last (split_slash path)) ino pc = (Ok (JObj fds), pc)" by blast
  then show thesis using that by (simp add: recursive_entry_def bindV_def lib_def answer_of_def retV_def)
qed

lemma children_given:
  assumes "\<forall>pc. read_dir (t_depth T) (t_libs T) fs ino pc = (Ok ds, pc)"
  shows "list_children T fs ino path (pc, w) = (Fine (sort_key de_name (filter (\<lambda>d. \<not> is_dot_entry d) ds)), (pc, w))"
  using assms by (simp add: list_children_def bindV_def lib_def answer_of_def retV_def)

lemma loop_lists:
  "displays_all T fs nids k es \<Longrightarrow> children_listed nids k es ds \<Longrightarrow>
   d = Suc (unat pd) \<Longrightarrow> \<forall>x\<in>set (tree_list parent d k es). fst (snd x) \<le> unat md \<Longrightarrow>
   length entries + length (tree_list parent d k es) \<le> unat limit \<Longrightarrow>
   inj_on ((!) nids) {..<m} \<Longrightarrow> k + length (tree_list parent d k es) \<le> m \<Longrightarrow> visited \<inter> (!) nids ` {k..<m} = {} \<Longrightarrow>
   \<exists>new visited'. ls_loop T fs md limit ((parent, pd, ds) # stack) visited entries (pc, w) =
       ls_loop T fs md limit stack visited' (entries @ new) (pc, w)
     \<and> list_all2 (listed_as fs nids) (tree_list parent d k es) new
     \<and> visited' \<subseteq> visited \<union> (!) nids ` {k..<k + length (tree_list parent d k es)}"
proof (induction parent d k es arbitrary: ds pd entries visited stack rule: tree_list.induct)
  case (1 parent d k)
  then show ?case by (auto simp: children_listed_simps intro!: exI [of _ "[]"] exI [of _ visited])
next
  case (2 parent d k name child es)
  let ?full = "path_join parent name" and ?kids = "case child of NDir _ ces _ _ \<Rightarrow> tree_list (path_join parent name) (Suc d) (Suc k) ces | _ \<Rightarrow> []"
    and ?rest = "tree_list parent d (k + node_count child) es"
  obtain dd ds' where ds: "ds = dd # ds'" "de_name dd = name" "de_nid dd = nids ! k" "children_listed nids (k + node_count child) es ds'"
    using 2(4) by (auto simp: children_listed_simps)
  obtain ino where r: "read_inode fs (nids ! k) = Ok ino" "i_nid ino = nids ! k"
    and kind: "is_dir ino = (case child of NDir _ _ _ _ \<Rightarrow> True | _ \<Rightarrow> False)"
    and link: "is_symlink ino \<longrightarrow> (\<exists>target. \<forall>pc. read_symlink_target (t_depth T) (t_libs T) fs ino pc = (Ok target, pc))"
    using 2(3) by (auto simp: displays.simps [of T fs nids k])
  have dis: "displays_all T fs nids (k + node_count child) es" using 2(3) by simp
  have kids_len: "Suc (length ?kids) = node_count child" by (cases child) (simp_all add: length_tree_list)
  have fresh: "nids ! k \<notin> visited" using 2(9,10) kids_len by (auto simp: less_Suc_eq_le)
  have room: "\<not> limit \<le> word_of_nat (length entries)"
  proof -
    have "length entries < unat limit" using 2(7) by simp
    moreover have "unat limit < 2 ^ 64" using unsigned_less [of limit, where ?'a = nat] by simp
    ultimately show ?thesis by (simp add: not_le word_less_nat_alt unat_of_nat)
  qed
  have deep: "unat (pd + 1) = d" "\<not> md < pd + 1" "word_of_nat d = pd + 1"
  proof -
    have le: "Suc (unat pd) \<le> unat md" using 2(5,6) by simp
    moreover have "unat md < 2 ^ 64" using unsigned_less [of md, where ?'a = nat] by simp
    ultimately have u: "unat (pd + 1) = Suc (unat pd)" by (simp add: unat_word_ariths)
    show "unat (pd + 1) = d" "\<not> md < pd + 1" using u le 2(5) by (simp_all add: not_less word_le_nat_alt)
    show "word_of_nat d = pd + 1" using 2(5) by (simp add: add.commute)
  qed
  obtain e where e: "recursive_entry T fs ?full (pd + 1) ino False (pc, w) = (Fine e, (pc, w))" by (rule entry_given [OF link])
  have le: "listed_as fs nids (?full, d, k) e" using recursive_entry_lists [OF e] r(1) by (auto simp: listed_as_def deep(3))
  have one: "ls_loop T fs md limit ((parent, pd, ds) # stack) visited entries (pc, w) =
     (if is_dir ino
      then or_stop (list_children T fs ino ?full) (entries @ [e]) (\<lambda>ds. ls_loop T fs md limit ((?full, pd + 1, ds) # (parent, pd, ds') # stack)
             (insert (nids ! k) visited) (entries @ [e])) (pc, w)
      else ls_loop T fs md limit ((parent, pd, ds') # stack) visited (entries @ [e]) (pc, w))"
    using room deep(2) fresh e by (simp add: ds Let_def or_stop_def lib_def answer_of_def liftS_apply r)
  have below: "\<forall>x\<in>set ?rest. fst (snd x) \<le> unat md" "\<forall>x\<in>set ?kids. fst (snd x) \<le> unat md" using 2(6) by auto
  have n: "length (tree_list parent d k ((name, child) # es)) = node_count child + length ?rest" using kids_len by simp
  have mid: "\<exists>new visited'. ls_loop T fs md limit ((parent, pd, ds) # stack) visited entries (pc, w) =
       ls_loop T fs md limit ((parent, pd, ds') # stack) visited' (entries @ new) (pc, w)
     \<and> list_all2 (listed_as fs nids) ((?full, d, k) # ?kids) new \<and> visited' \<subseteq> visited \<union> (!) nids ` {k..<k + node_count child}"
  proof (cases child)
    case (NDir mode ces meta xs)
    then obtain cds where cds: "\<forall>pc. read_dir (t_depth T) (t_libs T) fs ino pc = (Ok cds, pc)"
      "children_listed nids (Suc k) ces (sort_key de_name (filter (\<lambda>d. \<not> is_dot_entry d) cds))" "displays_all T fs nids (Suc k) ces"
      using 2(3) r by (auto simp: displays.simps [of T fs nids k])
    have k1: "Suc k + length (tree_list ?full (Suc d) (Suc k) ces) = k + node_count child" using kids_len by (simp add: NDir)
    have vis: "insert (nids ! k) visited \<inter> (!) nids ` {Suc k..<m} = {}"
    proof -
      have "nids ! k \<notin> (!) nids ` {Suc k..<m}" using 2(8,9) n kids_len by (auto dest!: inj_onD)
      moreover have "nids ! x \<notin> visited" if "x \<in> {Suc k..<m}" for x using 2(10) that by (auto simp: disjoint_iff)
      ultimately show ?thesis by (auto simp: disjoint_iff)
    qed
    from 2(1) [OF NDir cds(3,2) _ _ _ 2(8) _ vis, of "pd + 1" "entries @ [e]" "(parent, pd, ds') # stack"]
    obtain new visited' where new: "ls_loop T fs md limit ((?full, pd + 1, sort_key de_name (filter (\<lambda>d. \<not> is_dot_entry d) cds)) # (parent, pd, ds') # stack)
        (insert (nids ! k) visited) (entries @ [e]) (pc, w) = ls_loop T fs md limit ((parent, pd, ds') # stack) visited' (entries @ [e] @ new) (pc, w)"
      "list_all2 (listed_as fs nids) ?kids new" "visited' \<subseteq> insert (nids ! k) visited \<union> (!) nids ` {Suc k..<k + node_count child}"
      using 2(7,9) n below(2) deep(1) k1 by (auto simp: NDir)
    show ?thesis
      by (rule exI [of _ "e # new"], rule exI [of _ visited'])
        (use new le kids_len in \<open>auto simp: one kind NDir or_stop_def children_given [OF cds(1)]\<close>)
  qed (use le in \<open>auto simp: one kind intro!: exI [of _ "[e]"] exI [of _ visited]\<close>)
  then obtain new visited' where new: "ls_loop T fs md limit ((parent, pd, ds) # stack) visited entries (pc, w) =
       ls_loop T fs md limit ((parent, pd, ds') # stack) visited' (entries @ new) (pc, w)"
    "list_all2 (listed_as fs nids) ((?full, d, k) # ?kids) new" "visited' \<subseteq> visited \<union> (!) nids ` {k..<k + node_count child}" by blast
  have "length new = node_count child" using list_all2_lengthD [OF new(2)] kids_len by simp
  moreover have "visited' \<inter> (!) nids ` {k + node_count child..<m} = {}"
  proof -
    have "(!) nids ` {k..<k + node_count child} \<inter> (!) nids ` {k + node_count child..<m} = (!) nids ` ({k..<k + node_count child} \<inter> {k + node_count child..<m})"
      by (rule inj_on_image_Int [OF 2(8), symmetric]) (use 2(9) n in auto)
    moreover have "visited \<inter> (!) nids ` {k + node_count child..<m} = {}" using 2(10) by (force simp: disjoint_iff)
    ultimately show ?thesis using Int_mono [OF new(3) order_refl [of "(!) nids ` {k + node_count child..<m}"]] by (simp add: Int_Un_distrib2)
  qed
  ultimately obtain new2 visited2 where new2: "ls_loop T fs md limit ((parent, pd, ds') # stack) visited' (entries @ new) (pc, w) =
       ls_loop T fs md limit stack visited2 ((entries @ new) @ new2) (pc, w)"
    "list_all2 (listed_as fs nids) ?rest new2" "visited2 \<subseteq> visited' \<union> (!) nids ` {k + node_count child..<k + node_count child + length ?rest}"
    using 2(2) [OF dis ds(4) 2(5) below(1) _ 2(8), of "entries @ new" visited' stack] 2(7,9) n by auto
  have "visited2 \<subseteq> visited \<union> (!) nids ` ({k..<k + node_count child} \<union> {k + node_count child..<k + node_count child + length ?rest})"
    using new(3) new2(3) unfolding image_Un by blast
  then have "visited2 \<subseteq> visited \<union> (!) nids ` {k..<k + (node_count child + length ?rest)}"
    by (simp only: ivl_disj_un_two(3) le_add1 add.assoc)
  then show ?case unfolding n using new(1) new2(1) list_all2_appendI [OF new(2) new2(2)]
    by (intro exI [of _ "new @ new2"] exI [of _ visited2]) simp
qed

section \<open>A built image shows its tree\<close>

lemma node_inode:
  assumes bt: "built crc B (NDir mode es meta xs) b options im img" and fits: "image_fits (unat (bs_of b)) im" and d: "serves d img"
    and fs: "open_with_devices crc d [] = Ok fs" and nodes: "nodes_ok im (bs_of b)" and depth: "0 < depth"
    and at: "lies (preorder 0 0 (NDir mode es meta xs)) k (preorder k par n)" and n: "listable n"
  obtains ino where "read_inode fs (im_nids im ! k) = Ok ino" "i_nid ino = im_nids im ! k" "k < length (im_plan im)"
    "is_dir ino = (case n of NDir _ _ _ _ \<Rightarrow> True | _ \<Rightarrow> False)"
    "is_symlink ino \<longrightarrow> (\<exists>target. \<forall>pc. read_symlink_target depth L fs ino pc = (Ok target, pc))"
    "kind_kept (pn_kind (hd (preorder k par n))) (pn_kind (im_plan im ! k))"
proof -
  let ?root = "NDir mode es meta xs"
  note R = reader_facts [OF bt fits d fs]
  have len: "length (im_plan im) = length (preorder 0 0 ?root)" using R(3) by (simp add: planned_from_def length_preorder)
  obtain x ys where pre: "preorder k par n = x # ys" using length_preorder(1) [of k par n] node_count_pos [of n] by (cases "preorder k par n") auto
  note l = lies_nth [OF at [unfolded pre]]
  have k: "k < length (im_plan im)" "k < node_count ?root" using l by (simp_all add: len length_preorder)
  have ok: "node_ok im (bs_of b) k" using nodes k by (simp add: nodes_ok_def list_all_iff)
  obtain ino where r: "read_inode fs (im_nids im ! k) = Ok ino" and m: "i_mode ino = pn_mode (im_plan im ! k)"
    by (rule built_node [OF R(1-3) k(1) root_is_pdir(1) [OF R(3)] ok])
  have nid: "i_nid ino = im_nids im ! k" using r inode_read_ok by (auto simp: read_inode_def)
  have km: "kind_mode (im_plan im ! k)" and kept: "kind_kept (pn_kind x) (pn_kind (im_plan im ! k))"
    using planned_mode(1,5) [OF R(3) k(1)] l by simp_all
  have kind: "is_dir ino = (case n of NDir _ _ _ _ \<Rightarrow> True | _ \<Rightarrow> False)" "is_symlink ino = (case n of NSymlink _ _ _ _ \<Rightarrow> True | _ \<Rightarrow> False)"
    using pre km kept m
    by (cases n; auto simp: is_dir_def is_symlink_def kind_mode_def kind_kept_def node_entry_def Let_def inode_consts split: plan_kind.splits)+
  have link: "\<exists>target. \<forall>pc. read_symlink_target depth L fs ino pc = (Ok target, pc)" if link: "is_symlink ino"
  proof -
    obtain mode' target meta' xs' where n': "n = NSymlink mode' target meta' xs'" using link kind(2) by (cases n) auto
    have "pn_kind (preorder 0 0 ?root ! k) = PSymlink target"
      unfolding l [THEN conjunct2, THEN conjunct1] using pre by (auto simp: n' node_entry_def)
    then obtain ino' where "read_inode fs (im_nids im ! k) = Ok ino'" "\<And>pc. read_symlink_target depth L fs ino' pc = (Ok target, pc)"
      by (rule built_link [OF bt fits d fs k(2) ok]) (use n depth n' in auto)
    then show ?thesis using r by auto
  qed
  show thesis by (rule that [OF r nid k(1) kind(1)]) (use link kept pre in auto)
qed

lemma leaf_displays:
  assumes bt: "built crc B (NDir mode es meta xs) b options im img" and fits: "image_fits (unat (bs_of b)) im" and d: "serves d img"
    and fs: "open_with_devices crc d [] = Ok fs" and nodes: "nodes_ok im (bs_of b)" and depth: "0 < t_depth T"
    and at: "lies (preorder 0 0 (NDir mode es meta xs)) k (preorder k par n)" and n: "listable n"
    and leaf: "case n of NDir _ _ _ _ \<Rightarrow> False | _ \<Rightarrow> True"
  shows "displays T fs (im_nids im) k n"
proof -
  obtain ino where "read_inode fs (im_nids im ! k) = Ok ino" "i_nid ino = im_nids im ! k"
    "is_dir ino = (case n of NDir _ _ _ _ \<Rightarrow> True | _ \<Rightarrow> False)"
    "is_symlink ino \<longrightarrow> (\<exists>target. \<forall>pc. read_symlink_target (t_depth T) (t_libs T) fs ino pc = (Ok target, pc))"
    by (rule node_inode [OF bt fits d fs nodes depth at n])
  then show ?thesis using leaf by (cases n) (auto simp: displays.simps [of T fs "im_nids im" k])
qed

text \<open>The listing of a directory without its dots.\<close>

lemma listing_children:
  assumes "sorted (map fst es)" "\<forall>e\<in>set es. \<not> is_dot (fst e)"
  shows "children_listed nids k es (sort_key de_name (filter (\<lambda>d. \<not> is_dot_entry d)
    (map ent_of (dir_listing i (child_indices k es) plan nids))))"
proof -
  let ?g = "\<lambda>(name, c). (name, nids ! c, file_type_byte (plan ! c))"
  let ?ds = "map (ent_of \<circ> ?g) (child_indices k es)"
  have names: "map de_name ?ds = map fst es"
    unfolding fst_child_indices [of k es, symmetric] by (simp add: comp_def case_prod_unfold ent_of_def)
  have "sorted (map fst (map ?g (child_indices k es)))"
    using assms(1) unfolding fst_child_indices [of k es, symmetric] by (simp add: comp_def case_prod_unfold)
  then have "sort_key fst (map ?g (child_indices k es)) = map ?g (child_indices k es)" by (rule sort_key_id_if_sorted)
  then have "map ent_of (dir_listing i (child_indices k es) plan nids) =
      ent_of ([0x2E], nids ! i, FT_DIR) # ent_of ([0x2E, 0x2E], nids ! pn_parent_idx (plan ! i), FT_DIR) # ?ds"
    by (simp add: dir_listing_def)
  moreover have "filter (\<lambda>d. \<not> is_dot_entry d) ?ds = ?ds"
  proof (rule filter_True, rule ballI)
    fix d assume "d \<in> set ?ds"
    then have "de_name d \<in> set (map de_name ?ds)" unfolding set_map [of de_name] by (rule imageI)
    then have "de_name d \<in> set (map fst es)" unfolding names .
    then show "\<not> is_dot_entry d" using assms(2) by (auto simp: is_dot_entry_def is_dot_def)
  qed
  ultimately have f: "filter (\<lambda>d. \<not> is_dot_entry d) (map ent_of (dir_listing i (child_indices k es) plan nids)) = ?ds"
    by (simp add: is_dot_entry_def ent_of_def)
  have "sorted (map de_name ?ds)" unfolding names by (rule assms(1))
  from sort_key_id_if_sorted [OF this] show ?thesis
    unfolding f by (simp add: children_listed_def ent_of_def comp_def case_prod_unfold)
qed

lemma built_displays:
  assumes bt: "built crc B (NDir mode es meta xs) b options im img" and fits: "image_fits (unat (bs_of b)) im" and d: "serves d img"
    and fs: "open_with_devices crc d [] = Ok fs" and nodes: "nodes_ok im (bs_of b)" and depth: "0 < t_depth T"
  shows "lies (preorder 0 0 (NDir mode es meta xs)) k (preorder k par n) \<Longrightarrow> listable n \<Longrightarrow> displays T fs (im_nids im) k n"
    "lies (preorder 0 0 (NDir mode es meta xs)) k (preorder_list k par ces) \<Longrightarrow> \<forall>e\<in>set ces. listable (snd e) \<Longrightarrow>
       displays_all T fs (im_nids im) k ces"
proof (induction k par n and k par ces rule: preorder_preorder_list.induct)
  case (2 k par m' es' me' xs')
  note R = reader_facts [OF bt fits d fs]
  obtain ino where r: "read_inode fs (im_nids im ! k) = Ok ino" "i_nid ino = im_nids im ! k" "k < length (im_plan im)" "is_dir ino"
    "is_symlink ino \<longrightarrow> (\<exists>target. \<forall>pc. read_symlink_target (t_depth T) (t_libs T) fs ino pc = (Ok target, pc))"
    and kept: "kind_kept (PDir (child_indices (Suc k) es')) (pn_kind (im_plan im ! k))"
    by (rule node_inode [OF bt fits d fs nodes depth 2(2,3)]) (simp_all add: node_entry_def)
  have kd: "pn_kind (im_plan im ! k) = PDir (child_indices (Suc k) es')" using kept by (simp add: kind_kept_def)
  have pd: "is_pdir (im_plan im) k" "children_of (im_plan im ! k) = child_indices (Suc k) es'" by (simp_all add: is_pdir_def children_of_def kd)
  have ok: "node_ok im (bs_of b) k" using nodes r(3) by (simp add: nodes_ok_def list_all_iff)
  have rd: "read_dir (t_depth T) (t_libs T) fs ino pc =
      (Ok (map ent_of (dir_listing k (child_indices (Suc k) es') (im_plan im) (im_nids im))), pc)" for pc
    using built_dir_read [OF R(1-3) R(4) [OF r(3)] r(3) root_is_pdir(1) [OF R(3)] pd(1) ok r(1), of "t_depth T" "t_libs T"]
    by (simp add: pd(2) liftS_apply)
  have "lies (preorder 0 0 (NDir mode es meta xs)) (Suc k) (preorder_list (Suc k) k es')"
    using lies_nth [OF 2(2) [unfolded preorder.simps]] by simp
  then have "displays_all T fs (im_nids im) (Suc k) es'" using 2(1,3) by simp
  then show ?case using r rd listing_children [of es' "im_nids im" "Suc k" k "im_plan im"] 2(3)
    by (auto simp: displays.simps [of T fs "im_nids im" k])
next
  case (9 k par name child es')
  have "lies (preorder 0 0 (NDir mode es meta xs)) k (preorder k par child)"
    "lies (preorder 0 0 (NDir mode es meta xs)) (k + node_count child) (preorder_list (k + node_count child) par es')"
    using lies_append [of _ k "preorder k par child"] 9(3) by (simp_all add: length_preorder)
  then show ?case using 9 by simp
qed ((erule leaf_displays [OF bt fits d fs nodes depth], assumption, simp) | simp)+

lemma built_nids_inj:
  assumes "image_at d sb im b img" shows "inj_on ((!) (im_nids im)) {..<length (im_plan im)}"
proof (rule inj_onI)
  fix i j assume "i \<in> {..<length (im_plan im)}" "j \<in> {..<length (im_plan im)}" and e: "im_nids im ! i = im_nids im ! j"
  then show "i = j" using image_laidD(8) [OF image_atD(4) [OF assms], of i j] image_laidD(8) [OF image_atD(4) [OF assms], of j i]
    by (cases i j rule: linorder_cases) auto
qed

text \<open>C10: \<open>fs.erofs IMAGE ls -R /\<close> on an image the builder made lists the tree the image was made of: every node once,
  with its path, its depth and the inode that was written for it, a directory before what is in it and the
  names of a directory in their order, whenever the bounds admit the tree; no entry is marked as visited
  before, and the cache and the world are left alone.\<close>

theorem built_tree_lists:
  assumes "built crc B (NDir mode es meta xs) b options im img" "image_fits (unat (bs_of b)) im" "serves d img"
    and "open_with_devices crc d [] = Ok fs" "nodes_ok im (bs_of b)" "0 < t_depth T" "listable (NDir mode es meta xs)" "components path = []"
    and "length (tree_list [slash] 1 1 es) \<le> unat (lb_limit lb)"
    and "\<forall>x\<in>set (tree_list [slash] 1 1 es). fst (snd x) \<le> unat (lb_max_depth lb)"
  shows "\<exists>entries. ls_recursive T fs path lb (pc, w) = (Fine (listing_report T entries), (pc, w))
    \<and> list_all2 (listed_as fs (im_nids im)) (tree_list [slash] 1 1 es) entries"
proof -
  let ?root = "NDir mode es meta xs"
  note R = reader_facts [OF assms(1-4)]
  have len: "length (im_plan im) = Suc (length (tree_list [slash] 1 1 es))"
    using R(3) by (simp add: planned_from_def length_tree_list)
  have "lies (preorder 0 0 ?root) 0 (preorder 0 0 ?root)" unfolding lies_def by (intro exI [of _ "[]"]) simp
  from built_displays(1) [OF assms(1-6) this assms(7)]
  obtain ino ds where r: "read_inode fs (im_nids im ! 0) = Ok ino" "i_nid ino = im_nids im ! 0" "is_dir ino"
    and ds: "\<forall>pc. read_dir (t_depth T) (t_libs T) fs ino pc = (Ok ds, pc)"
      "children_listed (im_nids im) 1 es (sort_key de_name (filter (\<lambda>d. \<not> is_dot_entry d) ds))"
    and kids: "displays_all T fs (im_nids im) 1 es" by (auto simp: displays.simps [of T fs "im_nids im" 0])
  have look: "lookup_path_bytes (t_depth T) (t_libs T) fs path pc = (Ok ino, pc)"
    using built_lookup [OF assms(1-5) _, of path "t_depth T" "t_libs T" pc] assms(7,8) r(1) plain_listable by simp
  have inj: "inj_on ((!) (im_nids im)) {..<length (im_plan im)}" by (rule built_nids_inj [OF R(1)])
  have start: "{i_nid ino} \<inter> (!) (im_nids im) ` {1..<length (im_plan im)} = {}"
    using inj_onD [OF inj, of 0] len by (force simp: r(2))
  from loop_lists [where parent = "[slash]" and d = 1 and pd = 0 and md = "lb_max_depth lb" and limit = "lb_limit lb" and entries = "[]"
      and stack = "[]" and pc = pc and w = w, OF kids ds(2) _ _ _ inj _ start] assms(9,10) len
  obtain entries where "ls_loop T fs (lb_max_depth lb) (lb_limit lb) [([slash], 0, sort_key de_name (filter (\<lambda>d. \<not> is_dot_entry d) ds))]
      {i_nid ino} [] (pc, w) = ((entries, Fine ()), (pc, w))" "list_all2 (listed_as fs (im_nids im)) (tree_list [slash] 1 1 es) entries"
    by auto
  then show ?thesis
    using r(3) assms(8) by (auto simp: ls_recursive_def bindV_def lib_def answer_of_def look list_tree_def or_stop_def start_path_def
        children_given [OF ds(1)])
qed

section \<open>Reading a file out\<close>

text \<open>
  What a stream of the host promises: a write that succeeds has appended its bytes, one that fails a part of them,
  and neither it nor a flush changes what \<open>frame\<close> sees of the world.
\<close>

definition stream_ok :: "(bytes \<Rightarrow> 'w host_call) \<Rightarrow> 'w host_call \<Rightarrow> ('w \<Rightarrow> bytes) \<Rightarrow> ('w \<Rightarrow> 'x) \<Rightarrow> ('w \<Rightarrow> bool) \<Rightarrow> bool" where
  "stream_ok write_all flush written frame valid =
     ((\<forall>b w. valid w \<longrightarrow> (case write_all b w of (r, w') \<Rightarrow> valid w' \<and> frame w' = frame w
          \<and> (if r = None then written w' = written w @ b else \<exists>k. written w' = written w @ take k b)))
      \<and> (\<forall>w. valid w \<longrightarrow> (case flush w of (r, w') \<Rightarrow> valid w' \<and> frame w' = frame w \<and> written w' = written w)))"

lemma stream_write:
  assumes "stream_ok write_all flush written frame valid" "valid w" "write_all b w = (x, w1)"
  shows "valid w1" "frame w1 = frame w" "x = None \<Longrightarrow> written w1 = written w @ b"
    "x \<noteq> None \<Longrightarrow> \<exists>k. written w1 = written w @ take k b"
proof -
  have "case write_all b w of (r, w') \<Rightarrow> valid w' \<and> frame w' = frame w
      \<and> (if r = None then written w' = written w @ b else \<exists>k. written w' = written w @ take k b)"
    by (rule assms(1) [unfolded stream_ok_def, THEN conjunct1, THEN spec, THEN spec, THEN mp, OF assms(2)])
  then have "valid w1 \<and> frame w1 = frame w \<and> (if x = None then written w1 = written w @ b else \<exists>k. written w1 = written w @ take k b)"
    unfolding assms(3) prod.case .
  then show "valid w1" "frame w1 = frame w" "x = None \<Longrightarrow> written w1 = written w @ b"
    "x \<noteq> None \<Longrightarrow> \<exists>k. written w1 = written w @ take k b" by (auto split: if_splits)
qed

definition holds_data :: "('z, 'c, 'w) tool \<Rightarrow> filesystem \<Rightarrow> inode \<Rightarrow> bytes \<Rightarrow> bool" where
  "holds_data T fs ino data =
     (unat (i_size ino) = length data
      \<and> (\<forall>off n pc. unat off + n \<le> length data \<longrightarrow>
           read_file (t_depth T) (t_libs T) fs ino off n pc = (Ok (take n (drop (unat off) data)), pc)))"

lemma take_join: "take n xs @ take k (drop n xs) = take (length (take n xs) + k) xs"
  using take_add [of "length (take n xs)" k xs] by (cases "n \<le> length xs") auto

lemma copy_loop_writes:
  assumes r: "holds_data T fs ino data" and st: "stream_ok write_all flush written frame valid"
  shows "unat off \<le> length data \<Longrightarrow> valid w \<Longrightarrow>
    \<exists>a w'. copy_loop T fs path ino write_all flush off (pc, w) = (a, (pc, w')) \<and> valid w' \<and> frame w' = frame w
      \<and> (a = Fine () \<and> written w' = written w @ drop (unat off) data
         \<or> (\<exists>e k. a = Fails e \<and> written w' = written w @ take k (drop (unat off) data)))"
proof (induction "length data - unat off" arbitrary: off w rule: less_induct)
  case less
  note size = r [unfolded holds_data_def, THEN conjunct1] and reads = r [unfolded holds_data_def, THEN conjunct2, rule_format]
  show ?case
  proof (cases "off < i_size ino")
    case False
    then have "drop (unat off) data = []" using less.prems(1) size by (simp add: not_less word_le_nat_alt)
    moreover obtain x w' where f: "flush w = (x, w')" by (cases "flush w")
    moreover from this have "valid w'" "frame w' = frame w" "written w' = written w" using st less.prems(2) by (auto simp: stream_ok_def)
    ultimately show ?thesis using False
      by (cases x) (auto simp: copy_loop.simps [of T fs path ino write_all flush off] on_host_def)
  next
    case True
    define n where "n = min (min CHUNK (unat (i_size ino))) (unat (i_size ino - off))"
    have "0 < CHUNK" by (simp add: CHUNK_def)
    note step = copy_step [OF True this, folded n_def, unfolded size]
    let ?got = "take n (drop (unat off) data)"
    have rd: "read_file (t_depth T) (t_libs T) fs ino off n pc = (Ok ?got, pc)" by (rule reads [OF step(3)])
    obtain x w1 where w1: "write_all ?got w = (x, w1)" by (cases "write_all ?got w")
    note v1 = stream_write [OF st less.prems(2) w1]
    have unfold: "copy_loop T fs path ino write_all flush off (pc, w) =
        (case x of Some t \<Rightarrow> (Fails (CliFailed (ascii ''write: '' @ t)), (pc, w1))
         | None \<Rightarrow> copy_loop T fs path ino write_all flush (off + word_of_nat n) (pc, w1))"
      using True by (subst copy_loop.simps)
        (simp add: Let_def bindV_def lib_def answer_of_def on_host_def rd w1 n_def [symmetric] split: option.split)
    show ?thesis
    proof (cases x)
      case (Some t)
      then obtain k where "written w1 = written w @ take k ?got" using v1(4) by blast
      then have "written w1 = written w @ take (min k n) (drop (unat off) data)" by (simp add: take_take)
      then show ?thesis unfolding unfold using v1(1,2) Some by auto
    next
      case None
      have "unat (off + word_of_nat n) \<le> length data" using step(1,3) by simp
      from less.hyps [OF step(4) this v1(1)]
      obtain a w' where ih: "copy_loop T fs path ino write_all flush (off + word_of_nat n) (pc, w1) = (a, (pc, w'))" "valid w'" "frame w' = frame w1"
        "a = Fine () \<and> written w' = written w1 @ drop (unat off + n) data
          \<or> (\<exists>e k. a = Fails e \<and> written w' = written w1 @ take k (drop (unat off + n) data))" unfolding step(1) by blast
      have sp: "drop (unat off + n) data = drop n (drop (unat off) data)" by (simp add: add.commute)
      have d: "?got @ drop (unat off + n) data = drop (unat off) data" by (simp only: sp append_take_drop_id)
      have t: "?got @ take k (drop (unat off + n) data) = take (length ?got + k) (drop (unat off) data)" for k
        unfolding sp by (rule take_join)
      have eq: "copy_loop T fs path ino write_all flush off (pc, w) = (a, (pc, w'))" unfolding unfold None by (simp add: ih(1))
      have "a = Fine () \<and> written w' = written w @ drop (unat off) data \<or> (\<exists>e k. a = Fails e \<and> written w' = written w @ take k (drop (unat off) data))"
        using ih(4)
      proof (elim disjE exE conjE)
        assume "a = Fine ()" "written w' = written w1 @ drop (unat off + n) data"
        then show ?thesis using d by (simp add: v1(3) [OF None])
      next
        fix e k assume "a = Fails e" "written w' = written w1 @ take k (drop (unat off + n) data)"
        then have "a = Fails e \<and> written w' = written w @ take (length ?got + k) (drop (unat off) data)"
          by (simp only: v1(3) [OF None] append_assoc t simp_thms)
        then show ?thesis by blast
      qed
      then show ?thesis using eq ih(2,3) v1(2) by auto
    qed
  qed
qed

lemma built_data:
  assumes "built crc B (NDir mode es meta xs) b options im img" "image_fits (unat (bs_of b)) im" "serves d img"
    and "open_with_devices crc d [] = Ok fs" "nodes_ok im (bs_of b)" "plain_tree (NDir mode es meta xs)" "0 < t_depth T"
    and "\<forall>c\<in>set (components path). \<not> is_dot c" "tree_path (components path) (NDir mode es meta xs) 0 = Ok i"
    and "pn_kind (preorder 0 0 (NDir mode es meta xs) ! i) = PFile data l"
  obtains ino where "\<forall>pc. lookup_path_bytes (t_depth T) (t_libs T) fs path pc = (Ok ino, pc)" "file_type ino = RegularFile" "holds_data T fs ino data"
proof -
  have ic: "i < node_count (NDir mode es meta xs)" using tree_path_bound [OF assms(9)] by simp
  then have "i < length (im_plan im)" using reader_facts(3) [OF assms(1-4)] by (simp add: planned_from_def)
  then have ok: "node_ok im (bs_of b) i" using assms(5) by (simp add: nodes_ok_def list_all_iff)
  obtain ino where r: "read_inode fs (im_nids im ! i) = Ok ino" "is_regular_file ino" "unat (i_size ino) = length data"
    and rd: "\<And>off n pc. unat off + n \<le> length data \<Longrightarrow>
      read_file (t_depth T) (t_libs T) fs ino off n pc = (Ok (take n (drop (unat off) data)), pc)"
    using built_regular [OF assms(1-4) ic ok assms(10,7)] by metis
  have "\<forall>pc. lookup_path_bytes (t_depth T) (t_libs T) fs path pc = (Ok ino, pc)"
    using built_lookup [OF assms(1-6,8), where depth = "t_depth T" and L = "t_libs T"] assms(9) r(1) by simp
  then show thesis by (rule that) (use r rd in \<open>auto simp: is_type_simps holds_data_def\<close>)
qed

text \<open>C12: \<open>fs.erofs IMAGE read PATH\<close> writes the file the image was made of: for a path that leads, in the tree, to a
  regular file, the standard output receives the bytes of that file, all and in order, whatever their number;
  if a write fails it has received a beginning of them, and the verb fails. Nothing else of the world changes.\<close>

theorem read_prints_source:
  assumes "built crc B (NDir mode es meta xs) b options im img" "image_fits (unat (bs_of b)) im" "serves d img"
    and "open_with_devices crc d [] = Ok fs" "nodes_ok im (bs_of b)" "plain_tree (NDir mode es meta xs)" "0 < t_depth T"
    and "\<forall>c\<in>set (components path). \<not> is_dot c" "tree_path (components path) (NDir mode es meta xs) 0 = Ok i"
    and "pn_kind (preorder 0 0 (NDir mode es meta xs) ! i) = PFile data l"
    and "stream_ok (h_stdout (t_host T)) (h_flush_stdout (t_host T)) printed frame valid" "valid w"
  shows "\<exists>a w'. read_verb T fs path None (pc, w) = (a, (pc, w')) \<and> frame w' = frame w
    \<and> (a = Fine outcome_done \<and> printed w' = printed w @ data \<or> (\<exists>e k. a = Fails e \<and> printed w' = printed w @ take k data))"
proof -
  obtain ino where ino: "\<forall>pc. lookup_path_bytes (t_depth T) (t_libs T) fs path pc = (Ok ino, pc)" "file_type ino = RegularFile" "holds_data T fs ino data"
    by (rule built_data [OF assms(1-10)])
  from copy_loop_writes [OF ino(3) assms(11) _ assms(12), of 0 path pc]
  show ?thesis
    by (auto simp: read_verb_def bindV_def lib_def answer_of_def ino(1,2) read_refusal_def retV_def read_out_def)
qed

text \<open>What the files of a host promise.\<close>

definition files_ok :: "'w host \<Rightarrow> ('w \<Rightarrow> bytes \<rightharpoonup> bytes) \<Rightarrow> bool" where
  "files_ok H files =
     ((\<forall>p w. case h_create H p w of (r, w') \<Rightarrow> (\<forall>q. q \<noteq> p \<longrightarrow> files w' q = files w q) \<and> (r = None \<longrightarrow> files w' p = Some []))
      \<and> (\<forall>p. stream_ok (h_append H p) (h_flush H p) (\<lambda>w. the (files w p)) (\<lambda>w. (files w)(p := None)) (\<lambda>w. files w p \<noteq> None))
      \<and> (\<forall>p q w. case h_rename H p q w of (r, w') \<Rightarrow>
            files w' = (if r = None then (files w)(q := files w p, p := None) else files w))
      \<and> (\<forall>p q w. q \<noteq> p \<longrightarrow> files (h_remove H p w) q = files w q))"

lemma files_okD:
  assumes "files_ok H files"
  shows "h_create H p w = (r, w') \<Longrightarrow> (\<forall>q. q \<noteq> p \<longrightarrow> files w' q = files w q) \<and> (r = None \<longrightarrow> files w' p = Some [])"
    "stream_ok (h_append H p) (h_flush H p) (\<lambda>w. the (files w p)) (\<lambda>w. (files w)(p := None)) (\<lambda>w. files w p \<noteq> None)"
    "h_rename H p q w = (r, w') \<Longrightarrow> files w' = (if r = None then (files w)(q := files w p, p := None) else files w)"
    "q \<noteq> p \<Longrightarrow> files (h_remove H p w) q = files w q"
proof -
  note F = assms [unfolded files_ok_def]
  show "(\<forall>q. q \<noteq> p \<longrightarrow> files w' q = files w q) \<and> (r = None \<longrightarrow> files w' p = Some [])" if "h_create H p w = (r, w')"
    using F [THEN conjunct1, THEN spec [of _ p], THEN spec [of _ w]] unfolding that prod.case .
  show "stream_ok (h_append H p) (h_flush H p) (\<lambda>w. the (files w p)) (\<lambda>w. (files w)(p := None)) (\<lambda>w. files w p \<noteq> None)"
    by (rule F [THEN conjunct2, THEN conjunct1, THEN spec])
  show "files w' = (if r = None then (files w)(q := files w p, p := None) else files w)" if "h_rename H p q w = (r, w')"
    using F [THEN conjunct2, THEN conjunct2, THEN conjunct1, THEN spec [of _ p], THEN spec [of _ q], THEN spec [of _ w]] unfolding that prod.case .
  show "files (h_remove H p w) q = files w q" if "q \<noteq> p"
    by (rule F [THEN conjunct2, THEN conjunct2, THEN conjunct2, THEN spec, THEN spec, THEN spec, THEN mp, OF that])
qed

text \<open>C13: \<open>fs.erofs IMAGE read PATH -o FILE\<close> never leaves \<open>FILE\<close> half written: when the verb is done \<open>FILE\<close> holds the
  bytes of the source, all of them, and when it fails, at whatever call of the host, \<open>FILE\<close> is what it was
  before, there or not. No other file changes but \<open>FILE.partial\<close>.\<close>

theorem read_output_whole:
  assumes "built crc B (NDir mode es meta xs) b options im img" "image_fits (unat (bs_of b)) im" "serves d img"
    and "open_with_devices crc d [] = Ok fs" "nodes_ok im (bs_of b)" "plain_tree (NDir mode es meta xs)" "0 < t_depth T"
    and "\<forall>c\<in>set (components path). \<not> is_dot c" "tree_path (components path) (NDir mode es meta xs) 0 = Ok i"
    and "pn_kind (preorder 0 0 (NDir mode es meta xs) ! i) = PFile data l" "files_ok (t_host T) files"
  shows "\<exists>a w'. read_verb T fs path (Some dest) (pc, w) = (a, (pc, w'))
    \<and> (\<forall>q. q \<noteq> dest \<longrightarrow> q \<noteq> partial_name dest \<longrightarrow> files w' q = files w q)
    \<and> (a = Fine outcome_done \<and> files w' dest = Some data \<or> (\<exists>e. a = Fails e) \<and> files w' dest = files w dest)"
proof -
  let ?H = "t_host T" and ?p = "partial_name dest"
  obtain ino where ino: "\<forall>pc. lookup_path_bytes (t_depth T) (t_libs T) fs path pc = (Ok ino, pc)" "file_type ino = RegularFile" "holds_data T fs ino data"
    by (rule built_data [OF assms(1-10)])
  note F = files_okD [OF assms(11)]
  have np: "?p \<noteq> dest" by (simp add: partial_name_def ascii_def)
  have verb: "read_verb T fs path (Some dest) (pc, w) = bindV (read_out T fs path ino (Some dest)) (\<lambda>_. retV (Fine outcome_done)) (pc, w)"
    by (simp add: read_verb_def bindV_def lib_def answer_of_def ino(1,2) read_refusal_def retV_def)
  obtain r1 w1 where w1: "h_create ?H ?p w = (r1, w1)" by (cases "h_create ?H ?p w")
  have c: "\<And>q. q \<noteq> ?p \<Longrightarrow> files w1 q = files w q" "r1 = None \<Longrightarrow> files w1 ?p = Some []" using F(1) [OF w1] by blast+
  show ?thesis
  proof (cases r1)
    case (Some t)
    then show ?thesis using c(1) np
      by (auto simp: verb bindV_def read_out_def Let_def on_host_def w1)
  next
    case None
    have v: "files w1 ?p \<noteq> None" using c(2) None by simp
    have st: "stream_ok (h_append ?H ?p) (h_flush ?H ?p) (\<lambda>w. the (files w ?p)) (\<lambda>w. (files w)(?p := None)) (\<lambda>w. files w ?p \<noteq> None)" by (rule F(2))
    from copy_loop_writes [OF ino(3) st _ v, of 0 path pc] c(2) [OF None]
    obtain a w2 where cp: "copy_loop T fs path ino (h_append ?H ?p) (h_flush ?H ?p) 0 (pc, w1) = (a, (pc, w2))"
      "files w2 ?p \<noteq> None" "(files w2)(?p := None) = (files w1)(?p := None)" "a = Fine () \<and> the (files w2 ?p) = data \<or> (\<exists>e. a = Fails e)" by auto
    have other: "files w2 q = files w q" if "q \<noteq> ?p" for q using fun_cong [OF cp(3), of q] c(1) that by simp
    show ?thesis
    proof (cases a)
      case (Fails e)
      have "files (h_remove ?H ?p w2) q = files w q" if "q \<noteq> ?p" for q using F(4) [OF that] other [OF that] by simp
      then show ?thesis using np by (auto simp: verb bindV_def read_out_def Let_def on_host_def w1 None cp(1) Fails)
    next
      case (Fine u)
      obtain r3 w3 where w3: "h_rename ?H ?p dest w2 = (r3, w3)" by (cases "h_rename ?H ?p dest w2")
      then have "files w3 = (if r3 = None then (files w2)(dest := files w2 ?p, ?p := None) else files w2)"
        by (rule F(3))
      moreover have "files w2 ?p = Some data" using cp(2,4) Fine by auto
      ultimately show ?thesis using np other
        by (cases r3) (auto simp: verb bindV_def read_out_def Let_def on_host_def w1 None cp(1) Fine w3 retV_def)
    qed (use cp(4) in auto)
  qed
qed

end
