(* ===== verification/ImageDemo.thy ===== *)
theory ImageDemo
  imports ImageTree
begin

text \<open>
  A small image built by the model: a root directory with one file behind its inode and a link to it, in blocks of 512 bytes. It is
  the image at which the theorems on built images are applied.
\<close>

definition demo_tree :: node where
  "demo_tree = NDir 0x41ED [([0x61], NFile 0x81A4 [1, 2, 3] node_meta_default []), ([0x62], NSymlink 0xA1FF [0x61] node_meta_default [])]
     node_meta_default []"

definition demo_plan :: "plan_node list" where
  "demo_plan =
     [node_entry 0 0x41ED node_meta_default [] (PDir [([0x61], Suc 0), ([0x62], Suc (Suc 0))]),
      node_entry 0 0x81A4 node_meta_default [] (PFile [1, 2, 3] InlineFile),
      node_entry 0 0xA1FF node_meta_default [] (PSymlink [0x61])]"

definition demo_dir_block :: bytes where
  "demo_dir_block = dir_image (dir_listing 0 [([0x61], Suc 0), ([0x62], Suc (Suc 0))] demo_plan [0, 1, 3]) 459"

definition demo_im :: image_plan where
  "demo_im =
     \<lparr>im_plan = demo_plan,
      im_bodies = [\<lparr>ib_body_size = 32, ib_is_extended = False, ib_xattr_bytes = [], ib_xattr_icount = 0, ib_inline_tail = [],
                    ib_chunkmap_bytes = 0, ib_zmap_bytes = 0\<rparr>,
                   \<lparr>ib_body_size = 32, ib_is_extended = False, ib_xattr_bytes = [], ib_xattr_icount = 0, ib_inline_tail = [1, 2, 3],
                    ib_chunkmap_bytes = 0, ib_zmap_bytes = 0\<rparr>,
                   \<lparr>ib_body_size = 32, ib_is_extended = False, ib_xattr_bytes = [], ib_xattr_icount = 0, ib_inline_tail = [],
                    ib_chunkmap_bytes = 0, ib_zmap_bytes = 0\<rparr>],
      im_slots = [\<lparr>ms_start = 0, ms_span = 32\<rparr>, \<lparr>ms_start = 32, ms_span = 35\<rparr>, \<lparr>ms_start = 96, ms_span = 32\<rparr>],
      im_nids = [0, 1, 3],
      im_dirs = \<lparr>dl_blocks = [(0, [demo_dir_block])], dl_block_for_nid = [0 \<mapsto> 4], dl_size_for_nid = [0 \<mapsto> 512], dl_next = 5\<rparr>,
      im_data = \<lparr>da_block_for_nid = [1 \<mapsto> 0, 3 \<mapsto> 5], da_chunk_addrs = Map.empty, da_pcluster_addrs = Map.empty,
                 da_any_compressed = False, da_any_inline_tail = False, da_next = 6\<rparr>,
      im_meta_blkaddr = 3, im_meta_byte_base = 1536\<rparr>"

lemma demo_bs: "bs_of 9 = 512"
  by (simp add: bs_of_def one_shl_def push_bit_eq_mult)

lemma demo_flatten: "flatten demo_tree 0 [] = Ok (0,
    [node_entry 0 0x41ED node_meta_default [] (PDir [([0x61], Suc 0), ([0x62], Suc (Suc 0))]),
     node_entry 0 0x81A4 node_meta_default [] (PFile [1, 2, 3] PlainFile),
     node_entry 0 0xA1FF node_meta_default [] (PSymlink [0x61])])"
  by (simp add: demo_tree_def fill_in_def placeholder_def node_entry_def check_name_def inode_consts)

lemma demo_bodies:
  "plan_body E (node_entry 0 0x41ED node_meta_default [] (PDir [([0x61], Suc 0), ([0x62], Suc (Suc 0))])) 512 ovr = Ok (demo_plan ! 0, im_bodies demo_im ! 0)"
  "plan_body E (node_entry 0 0x81A4 node_meta_default [] (PFile [1, 2, 3] PlainFile)) 512 ovr = Ok (demo_plan ! Suc 0, im_bodies demo_im ! Suc 0)"
  "plan_body E (node_entry 0 0xA1FF node_meta_default [] (PSymlink [0x61])) 512 ovr
     = Ok (demo_plan ! Suc (Suc 0), im_bodies demo_im ! Suc (Suc 0))"
  by (simp_all add: plan_body_def node_entry_def encode_inline_xattrs_def planned_size_def needs_extended_def node_meta_default_def
      inode_body_size_def inode_consts plan_tail_def plan_chunkmap_def sat_sub_def demo_plan_def demo_im_def)

lemma demo_slots: "plan_meta_layout (im_bodies demo_im) 512 = im_slots demo_im"
  by (simp add: plan_meta_layout_def demo_im_def place_def body_span_def div_ceil_def inode_consts slot_end_def Let_def)

lemma demo_dir: "encode_dir_blocks 0 [([0x61], Suc 0), ([0x62], Suc (Suc 0))] demo_plan [0, 1, 3] 512 = Ok [demo_dir_block]"
proof -
  let ?all = "dir_listing 0 [([0x61], Suc 0), ([0x62], Suc (Suc 0))] demo_plan [0, 1, 3]"
  have all: "?all = [([0x2E], 0, FT_DIR), ([0x2E, 0x2E], 0, FT_DIR), ([0x61], 1, file_type_byte (demo_plan ! Suc 0)),
      ([0x62], 3, file_type_byte (demo_plan ! Suc (Suc 0)))]"
    by (simp add: dir_listing_def demo_plan_def node_entry_def)
  have "block_take 512 ?all True 0 0 = Some (Suc 3)" unfolding all numeral_3_eq_3 by (simp add: EROFS_DIRENT_SIZE_def Let_def)
  moreover have "encode_one_dir_block ?all 512 = Ok demo_dir_block"
    using encode_one_dir_block_eq [of ?all 512] by (simp add: demo_dir_block_def all names_size_def)
  moreover have "take (Suc 3) ?all = ?all" "drop (Suc 3) ?all = []" by (simp_all add: all)
  ultimately have "pack_dir_blocks 512 ?all = Ok [demo_dir_block]"
    by (subst pack_dir_blocks.simps) (simp add: pack_dir_blocks.simps [of 512 "[]"] all)
  then show ?thesis by (subst encode_dir_blocks_eq) (simp_all add: demo_plan_def node_entry_def)
qed

lemma demo_dirs: "foldR (lay_dir demo_plan [0, 1, 3] 512) [0, Suc 0, Suc (Suc 0)]
    \<lparr>dl_blocks = [], dl_block_for_nid = Map.empty, dl_size_for_nid = Map.empty, dl_next = 4\<rparr> = Ok (im_dirs demo_im)"
proof -
  have k: "pn_kind (demo_plan ! 0) = PDir [([0x61], Suc 0), ([0x62], Suc (Suc 0))]" "pn_kind (demo_plan ! Suc 0) = PFile [1, 2, 3] InlineFile"
    "pn_kind (demo_plan ! Suc (Suc 0)) = PSymlink [0x61]" "length demo_plan = 3"
    by (simp_all add: demo_plan_def node_entry_def)
  show ?thesis by (simp add: lay_dir_def k demo_dir demo_im_def del: bindR_eq_Ok)
qed

lemma demo_data: "foldR (lay_data demo_plan [0, 1, 3] 512) [0, Suc 0, Suc (Suc 0)]
    \<lparr>da_block_for_nid = Map.empty, da_chunk_addrs = Map.empty, da_pcluster_addrs = Map.empty,
     da_any_compressed = False, da_any_inline_tail = False, da_next = 5\<rparr> = Ok (im_data demo_im)"
  by (simp add: lay_data_def demo_plan_def node_entry_def demo_im_def)

lemma demo_plan_image: "plan_image E demo_tree 512 build_options_default = Ok (demo_im, 6)"
proof -
  let ?flat = "[node_entry 0 0x41ED node_meta_default [] (PDir [([0x61], Suc 0), ([0x62], Suc (Suc 0))]),
     node_entry 0 0x81A4 node_meta_default [] (PFile [1, 2, 3] PlainFile),
     node_entry 0 0xA1FF node_meta_default [] (PSymlink [0x61])]"
  let ?bodies = "im_bodies demo_im"
  have p: "mapR (\<lambda>n. plan_body E n 512 ovr) ?flat = Ok [(demo_plan ! 0, ?bodies ! 0), (demo_plan ! Suc 0, ?bodies ! Suc 0),
      (demo_plan ! Suc (Suc 0), ?bodies ! Suc (Suc 0))]" for ovr
    using demo_bodies by simp
  have l: "[demo_plan ! 0, demo_plan ! Suc 0, demo_plan ! Suc (Suc 0)] = demo_plan"
    "[?bodies ! 0, ?bodies ! Suc 0, ?bodies ! Suc (Suc 0)] = ?bodies"
    by (simp_all add: demo_plan_def demo_im_def)
  have mb: "div_ceil SB_AREA_END 512 = 3" by (simp add: SB_AREA_END_def sb_consts div_ceil_def)
  have n: "map slot_nid (im_slots demo_im) = [0, 1, 3]" "slot_end (last (im_slots demo_im)) = 128" "im_slots demo_im \<noteq> []"
    by (simp_all add: demo_im_def slot_nid_def slot_end_def inode_consts)
  have r: "[0..<length demo_plan] = [0, Suc 0, Suc (Suc 0)]" by (simp add: demo_plan_def upt_rec)
  show ?thesis
    unfolding plan_image_def demo_flatten bindR_simps prod.case Let_def p list.map fst_conv snd_conv l mb demo_slots n r
    by (simp add: demo_dirs n inode_consts div_ceil_def del: bindR_eq_Ok foldR.simps) (simp add: demo_data demo_im_def inode_consts div_ceil_def del: bindR_eq_Ok foldR.simps)
qed

lemma put_at_succeeds: "a + length xs \<le> length img \<Longrightarrow> \<exists>img'. put_at img a xs = Ok img' \<and> length img' = length img"
  by simp

lemma demo_inode:
  assumes "length img = 3072"
  shows "\<exists>img'. emit_inode demo_im 512 9 0 img = Ok img' \<and> length img' = 3072"
    "\<exists>img'. emit_inode demo_im 512 9 (Suc 0) img = Ok img' \<and> length img' = 3072"
    "\<exists>img'. emit_inode demo_im 512 9 (Suc (Suc 0)) img = Ok img' \<and> length img' = 3072"
  using assms
  by (simp_all add: emit_inode_def Let_def demo_im_def demo_plan_def node_entry_def encode_inode_def inode_layout_and_flags_def
      inode_raw_u_def map_at_def stored_size_def inode_nlink_def emit_part_def emit_sized_def slot_end_def slot_nid_def
      inode_body_size_def inode_consts del: bindR_eq_Ok)

lemma demo_superblock:
  "\<exists>img. write_superblock crc (replicate 3072 0) 9 n t m fi u1 c st = Ok img \<and> length img = 3072"
proof -
  have "write_superblock crc (replicate 3072 0) 9 n t m fi u1 c st = Ok (put (replicate 3072 0) 1024 (sb_header 0 0 9 n t m fi u1 c st))"
    by (subst write_superblock_eq) (simp_all add: take_replicate drop_replicate is_valid_blkszbits_def sb_consts)
  then show ?thesis by simp
qed

lemma demo_tail:
  assumes "length img = 3072"
  shows "\<exists>img'. emit_dirs 512 (dl_block_for_nid (im_dirs demo_im)) (dl_blocks (im_dirs demo_im)) img = Ok img' \<and> length img' = 3072"
    "\<exists>img'. foldR (emit_data demo_im 512) [0, Suc 0, Suc (Suc 0)] img = Ok img' \<and> length img' = 3072"
proof -
  have "length demo_dir_block = 512" by (simp add: demo_dir_block_def length_dir_image dir_listing_def demo_plan_def node_entry_def names_size_def)
  then show "\<exists>img'. emit_dirs 512 (dl_block_for_nid (im_dirs demo_im)) (dl_blocks (im_dirs demo_im)) img = Ok img' \<and> length img' = 3072"
    using assms by (simp add: demo_im_def map_at_def del: bindR_eq_Ok)
  show "\<exists>img'. foldR (emit_data demo_im 512) [0, Suc 0, Suc (Suc 0)] img = Ok img' \<and> length img' = 3072"
    using assms by (simp add: emit_data_def demo_im_def demo_plan_def node_entry_def map_at_def del: bindR_eq_Ok)
qed

lemma demo_write: "\<exists>img. write_image crc demo_im 6 512 9 build_options_default = Ok img \<and> length img = 3072"
proof -
  let ?img = "replicate 3072 (0 :: byte)"
  have n: "[0..<length (im_plan demo_im)] = [0, Suc 0, Suc (Suc 0)]" by (simp add: demo_im_def demo_plan_def upt_rec)
  have blob: "compr_cfgs_blob build_options_default (im_plan demo_im) = Ok (0, [])"
    by (simp add: compr_cfgs_blob_def build_options_default_def uses_def demo_im_def demo_plan_def node_entry_def or_else_def
        lz4_record_def lzma_record_def deflate_record_def Let_def)
  have gap: "encode_prefixes (bo_xattr_prefixes build_options_default) = Ok ([], 0)" "place_cfgs [] base img = Ok (img, SB_AREA_END)"
    "place_prefixes [] base (img, g) = Ok (img, 0)" for base img g
    by (simp_all add: build_options_default_def encode_prefixes_def place_cfgs_def place_prefixes_def)
  obtain i1 where i1: "write_superblock crc ?img 9 (word_of_nat (length (im_plan demo_im))) (ucast (6 :: u64)) (im_meta_blkaddr demo_im)
      (image_features (im_data demo_im) []) 0 0 0 = Ok i1" "length i1 = 3072"
    using demo_superblock by blast
  obtain i2 where i2: "emit_inode demo_im 512 9 0 i1 = Ok i2" "length i2 = 3072" using demo_inode(1) [OF i1(2)] by blast
  obtain i3 where i3: "emit_inode demo_im 512 9 (Suc 0) i2 = Ok i3" "length i3 = 3072" using demo_inode(2) [OF i2(2)] by blast
  obtain i3b where i3b: "emit_inode demo_im 512 9 (Suc (Suc 0)) i3 = Ok i3b" "length i3b = 3072" using demo_inode(3) [OF i3(2)] by blast
  obtain i4 where i4: "emit_dirs 512 (dl_block_for_nid (im_dirs demo_im)) (dl_blocks (im_dirs demo_im)) i3b = Ok i4" "length i4 = 3072"
    using demo_tail(1) [OF i3b(2)] by blast
  obtain i5 where i5: "foldR (emit_data demo_im 512) [0, Suc 0, Suc (Suc 0)] i4 = Ok i5" "length i5 = 3072"
    using demo_tail(2) [OF i4(2)] by blast
  have inodes: "foldR (emit_inode demo_im 512 9) [0, Suc 0, Suc (Suc 0)] i1 = Ok i3b"
    by (simp only: foldR.simps i2 i3 i3b bindR_simps)
  have z: "replicate (unat (6 * 512 :: u64)) 0 = ?img" by simp
  have "write_image crc demo_im 6 512 9 build_options_default = Ok i5"
    unfolding write_image_def z n Let_def blob bindR_simps prod.case gap i1 inodes i4 i5 ..
  then show ?thesis using i5(2) by blast
qed

section \<open>The image, opened\<close>

definition demo_crc :: "bytes \<Rightarrow> u32" where "demo_crc xs = 0"

definition demo_image :: bytes where
  "demo_image = (case build_image demo_crc demo_encoders demo_tree 9 of Ok img \<Rightarrow> img | _ \<Rightarrow> [])"

lemma demo_image_built:
  "build_image_with demo_crc demo_encoders demo_tree 9 build_options_default = Ok demo_image" "length demo_image = 3072"
proof -
  obtain img where w: "write_image demo_crc demo_im 6 512 9 build_options_default = Ok img" "length img = 3072" using demo_write by blast
  have "is_valid_blkszbits 9" by (simp add: is_valid_blkszbits_def sb_consts)
  then have "build_image_with demo_crc demo_encoders demo_tree 9 build_options_default = Ok img"
    using demo_bs by (simp add: build_image_with_def Let_def bs_of_def demo_plan_image w)
  then show "build_image_with demo_crc demo_encoders demo_tree 9 build_options_default = Ok demo_image" "length demo_image = 3072"
    using w(2) by (simp_all add: demo_image_def build_image_def)
qed

lemma demo_built: "built demo_crc demo_encoders demo_tree 9 build_options_default demo_im demo_image"
proof -
  have p: "plan_image demo_encoders demo_tree (bs_of 9) build_options_default = Ok (demo_im, 6)" by (simp add: demo_bs demo_plan_image)
  show ?thesis
    using demo_image_built(1) p by (auto simp: build_image_with_def built_def Let_def bs_of_def split: if_splits)
qed

lemma demo_serves: "serves (mem_dev demo_image) demo_image"
  by (rule serves_mem_dev) (simp add: demo_image_built(2))

lemma demo_fits: "image_fits 512 demo_im"
proof -
  have "length demo_dir_block = 512" by (simp add: demo_dir_block_def length_dir_image dir_listing_def demo_plan_def node_entry_def names_size_def)
  then show ?thesis
    by (simp add: image_fits_def demo_im_def room_def span_len_def trailer_len_def demo_plan_def node_entry_def node_blocks_def
        source_len_def)
qed

lemma demo_fits_bs: "image_fits (unat (bs_of 9)) demo_im"
  using demo_fits by (simp add: demo_bs)

lemma demo_root: "demo_tree = NDir 0x41ED [([0x61], NFile 0x81A4 [1, 2, 3] node_meta_default []), ([0x62], NSymlink 0xA1FF [0x61] node_meta_default [])]
     node_meta_default []"
  by (rule demo_tree_def)

lemma demo_inodes:
  "planned_inode demo_im 512 0 = Ok (written_inode FlatPlain 0 0 0x41ED 4 512 2 0 node_meta_default)"
  "planned_inode demo_im 512 (Suc (Suc 0)) = Ok (written_inode FlatPlain 0 0 0xA1FF 5 1 1 3 node_meta_default)"
  "planned_inode demo_im 512 (Suc 0) = Ok (written_inode FlatInline 0 0 0x81A4 0 3 1 1 node_meta_default)"
  by (simp_all add: planned_inode_def demo_im_def demo_plan_def node_entry_def inode_layout_and_flags_def inode_raw_u_def map_at_def
      stored_size_def inode_nlink_def del: bindR_eq_Ok)

lemma demo_nodes_ok: "nodes_ok demo_im 512"
proof -
  have "[0..<length (im_plan demo_im)] = [0, Suc 0, Suc (Suc 0)]" by (simp add: demo_im_def demo_plan_def upt_rec)
  then show ?thesis
    by (simp add: nodes_ok_def node_ok_def dir_small_def demo_inodes written_inode_def Let_def named_xattrs_def)
      (simp add: demo_im_def demo_plan_def node_entry_def is_pdir_def)
qed

lemma demo_opens:
  obtains fs where "open_with_devices demo_crc (mem_dev demo_image) [] = Ok fs"
proof -
  show thesis using built_opens [OF demo_built demo_fits_bs demo_serves] by (auto intro: that)
qed

lemmas demo_built_tree = demo_built [unfolded demo_root]

lemma demo_reads:
  assumes fs: "open_with_devices demo_crc (mem_dev demo_image) [] = Ok fs" and i: "i < 3"
  shows "\<exists>ino. read_inode fs (im_nids demo_im ! i) = Ok ino \<and> i_mode ino = pn_mode (demo_plan ! i)"
proof -
  have bs: "unat (bs_of 9) = 512" by (simp add: demo_bs)
  note fits = demo_fits_bs
  note R = reader_facts [OF demo_built_tree fits demo_serves fs]
  have l: "im_plan demo_im = demo_plan" "length demo_plan = 3" by (simp_all add: demo_im_def demo_plan_def)
  have ok: "node_ok demo_im (bs_of 9) i" using demo_nodes_ok i by (simp add: nodes_ok_def demo_bs l list_all_iff)
  obtain ino where "read_inode fs (im_nids demo_im ! i) = Ok ino" "i_mode ino = pn_mode (im_plan demo_im ! i)"
    by (rule built_node [OF R(1-3) _ root_is_pdir(1) [OF R(3)] ok]) (use i l in auto)
  then show ?thesis using l by simp
qed

section \<open>The theorems at the image\<close>

theorem built_image_opens_witness:
  "\<exists>fs. open_with_devices demo_crc (mem_dev demo_image) [] = Ok fs \<and> sb_inos (fs_sb fs) = 3 \<and> unat (sb_blocks (fs_sb fs)) = 6
    \<and> xattr_prefix_dict fs = Ok []"
proof -
  have p: "plan_image demo_encoders demo_tree (bs_of 9) build_options_default = Ok (demo_im, 6)" by (simp add: demo_bs demo_plan_image)
  have f: "image_fits (2 ^ unat (9 :: u8)) demo_im" using demo_fits by simp
  have "node_count demo_tree = 3" by (simp add: demo_tree_def)
  then show ?thesis
    using built_image_opens [OF demo_image_built(1) p f demo_serves] demo_image_built(2) by (auto simp: build_options_default_def)
qed

theorem built_inode_reads_witness:
  "\<exists>fs ino. open_with_devices demo_crc (mem_dev demo_image) [] = Ok fs \<and> read_inode fs 1 = Ok ino \<and> i_mode ino = 0x81A4
    \<and> read_all_xattrs (fs_primary fs) (fs_sb fs) ino = Ok []"
proof -
  obtain fs where fs: "open_with_devices demo_crc (mem_dev demo_image) [] = Ok fs" by (rule demo_opens)
  have bs: "unat (bs_of 9) = 512" "bs_of 9 = 512" by (simp_all add: demo_bs)
  note fits = demo_fits_bs
  have ok: "node_ok demo_im (bs_of 9) (Suc 0)" using demo_nodes_ok by (simp add: nodes_ok_def bs demo_im_def demo_plan_def list_all_iff)
  have "im_nids demo_im ! Suc 0 = 1" by (simp add: demo_im_def)
  then show ?thesis
    using built_inode_reads [OF demo_built_tree fits demo_serves fs _ ok] fs by (fastforce simp: node_entry_def)
qed

theorem built_dir_lists_witness:
  "\<exists>fs ino. open_with_devices demo_crc (mem_dev demo_image) [] = Ok fs \<and> read_inode fs 0 = Ok ino
    \<and> (\<exists>ds. (\<forall>pc. read_dir 1 demo_libs fs ino pc = (Ok ds, pc)) \<and> map de_name ds = [[0x2E], [0x2E, 0x2E], [0x61], [0x62]])"
proof -
  obtain fs where fs: "open_with_devices demo_crc (mem_dev demo_image) [] = Ok fs" by (rule demo_opens)
  have bs: "unat (bs_of 9) = 512" "bs_of 9 = 512" by (simp_all add: demo_bs)
  note fits = demo_fits_bs
  have ok: "node_ok demo_im (bs_of 9) 0" using demo_nodes_ok by (simp add: nodes_ok_def bs demo_im_def demo_plan_def list_all_iff)
  have n: "im_nids demo_im ! 0 = 0" "im_plan demo_im = demo_plan" "is_pdir (im_plan demo_im) 0" "im_nids demo_im = [0, 1, 3]"
    by (simp_all add: demo_im_def is_pdir_def demo_plan_def node_entry_def)
  obtain ino where ino: "read_inode fs (im_nids demo_im ! 0) = Ok ino" using demo_reads [OF fs, of 0] by auto
  have "map de_name (map ent_of (dir_listing 0 (children_of (im_plan demo_im ! 0)) (im_plan demo_im) (im_nids demo_im)))
    = [[0x2E], [0x2E, 0x2E], [0x61], [0x62]]"
    by (simp add: dir_listing_def n demo_plan_def node_entry_def children_of_def ent_of_def)
  then show ?thesis
    using built_dir_lists [OF demo_built_tree fits demo_serves fs _ ok n(3) ino] fs ino n(1) by fastforce
qed

theorem built_file_reads_witness:
  "\<exists>fs ino. open_with_devices demo_crc (mem_dev demo_image) [] = Ok fs \<and> read_inode fs 1 = Ok ino
    \<and> fst (read_file 1 demo_libs fs ino 1 2 (cache_new lru_list 0)) = Ok [2, 3]"
proof -
  obtain fs where fs: "open_with_devices demo_crc (mem_dev demo_image) [] = Ok fs" by (rule demo_opens)
  have bs: "unat (bs_of 9) = 512" "bs_of 9 = 512" by (simp_all add: demo_bs)
  note fits = demo_fits_bs
  have ok: "node_ok demo_im (bs_of 9) (Suc 0)" using demo_nodes_ok by (simp add: nodes_ok_def bs demo_im_def demo_plan_def list_all_iff)
  obtain ino where ino: "read_inode fs (im_nids demo_im ! Suc 0) = Ok ino" using demo_reads [OF fs, of "Suc 0"] by auto
  have "fst (read_file 1 demo_libs fs ino 1 2 (cache_new (lib_lru demo_libs) 0)) = Ok (take 2 (drop (unat (1 :: u64)) [1, 2, 3]))"
    by (rule conjunct1 [OF built_file_reads [OF demo_built_tree fits demo_serves fs _ ok ino], rule_format, where layout = PlainFile])
      (simp_all add: node_entry_def)
  then show ?thesis using fs ino by (auto simp: demo_im_def demo_libs_def)
qed

theorem built_paths_witness:
  "\<exists>fs ino. open_with_devices demo_crc (mem_dev demo_image) [] = Ok fs \<and> read_inode fs 1 = Ok ino
    \<and> (\<forall>pc. lookup_path_bytes 1 demo_libs fs [0x2F, 0x61] pc = (Ok ino, pc))
    \<and> (\<forall>pc. lookup_path_bytes 1 demo_libs fs [0x63] pc = (Err NotFound, pc))"
proof -
  obtain fs where fs: "open_with_devices demo_crc (mem_dev demo_image) [] = Ok fs" by (rule demo_opens)
  have bs: "unat (bs_of 9) = 512" "bs_of 9 = 512" by (simp_all add: demo_bs)
  note fits = demo_fits_bs
  have ok: "nodes_ok demo_im (bs_of 9)" using demo_nodes_ok by (simp add: bs)
  obtain ino where ino: "read_inode fs (im_nids demo_im ! Suc 0) = Ok ino" using demo_reads [OF fs, of "Suc 0"] by auto
  have pt: "plain_tree (NDir 0x41ED [([0x61], NFile 0x81A4 [1, 2, 3] node_meta_default []), ([0x62], NSymlink 0xA1FF [0x61] node_meta_default [])]
     node_meta_default [])" by simp
  have c: "components [0x2F, 0x61] = [[0x61]]" "components [0x63] = [[0x63]]" by (simp_all add: components_def slash_def)
  have "lookup_path_bytes 1 demo_libs fs [0x2F, 0x61] pc = (Ok ino, pc)" for pc
    using built_paths [OF demo_built_tree fits demo_serves fs ok pt, of "[0x2F, 0x61]" 1 demo_libs pc] ino by (simp add: c is_dot_def)
  moreover have "lookup_path_bytes 1 demo_libs fs [0x63] pc = (Err NotFound, pc)" for pc
    using built_paths [OF demo_built_tree fits demo_serves fs ok pt, of "[0x63]" 1 demo_libs pc] by (simp add: c is_dot_def)
  ultimately show ?thesis using fs ino by (auto simp: demo_im_def)
qed

end
