(* ===== verification/CapiDemo.thy ===== *)
theory CapiDemo
  imports CapiBuilt ImageDemo
begin

text \<open>
  The theorems on the C interface at a process that mounts the small built image of \<open>ImageDemo\<close>.
\<close>

definition demo_env :: "(bytes, nat \<times> pcluster_entry list) env" where
  "demo_env = \<lparr>e_libs = demo_libs, e_crc = demo_crc, e_caching = (\<lambda>d _ _. d), e_depth = 2,
     e_open_file = (\<lambda>_. Inl (Io KindNotFound, [])), e_callback_device = (\<lambda>_ _. mem_dev []), e_debug = (\<lambda>_. []), e_payload = []\<rparr>"

lemma demo_env_simps:
  "e_libs demo_env = demo_libs" "e_crc demo_env = demo_crc" "e_caching demo_env d n k = d" "e_depth demo_env = 2"
  "lib_lru demo_libs = lru_list" "reads_within (lib_codecs demo_libs)"
  using demo_reads_within by (simp_all add: demo_env_def demo_libs_def)

lemma demo_fs_open: "fs_open demo_crc (e_caching demo_env) (mem_dev demo_image) = open_with_devices demo_crc (mem_dev demo_image) []"
  by (rule fs_open_uncached) (simp add: demo_env_simps)

lemma demo_fs_facts:
  assumes "open_with_devices demo_crc (mem_dev demo_image) [] = Ok f"
  shows "packed_plain f"
proof -
  obtain f' where "open_with_devices demo_crc (mem_dev demo_image) [] = Ok f'" "built_sb (fs_sb f') demo_im 9 build_options_default demo_image"
    using built_opens [OF demo_built demo_fits_bs demo_serves] by blast
  then have "sb_packed_nid (fs_sb f) = 0" using assms by (auto simp: built_sb_def written_sb_def)
  then show ?thesis by (simp add: packed_plain_def packed_inode_def)
qed

lemma demo_lawful: "lawful demo_env (CMountDevice (Some (mem_dev demo_image))) st"
  using demo_fs_facts by (simp add: sound_image_def demo_env_simps(1-2) demo_fs_open)

theorem capi_calls_return_witness:
  "\<exists>r st'. exec demo_env (CMountDevice (Some (mem_dev demo_image))) process_start = Done r st'
    \<and> (failed r \<longleftrightarrow> fs_erofs_last_errno st' \<noteq> 0)"
  using capi_calls_return [OF lru_list.lru_cache_axioms _ _ _ c_run.start demo_lawful] by (fastforce simp: demo_env_simps)

definition demo_mounted :: "filesystem \<Rightarrow> (nat \<times> pcluster_entry list) mounted" where
  "demo_mounted f = \<lparr>mt_fs = f, mt_cache = cache_new lru_list DEFAULT_PCLUSTER_CACHE_CAPACITY\<rparr>"

lemma demo_run:
  obtains f st where "open_with_devices demo_crc (mem_dev demo_image) [] = Ok f" "p_mounts st 1 = Some (demo_mounted f)"
    "c_run demo_env [(CMountDevice (Some (mem_dev demo_image)), RHandle 1)] st"
proof -
  obtain f where f: "open_with_devices demo_crc (mem_dev demo_image) [] = Ok f" by (rule demo_opens)
  let ?st = "process_start\<lparr>p_mounts := [1 \<mapsto> demo_mounted f], p_next := 2\<rparr>"
  have "exec demo_env (CMountDevice (Some (mem_dev demo_image))) process_start = Done (RHandle 1) ?st"
    by (simp add: fs_erofs_mount_with_fs_core_device_def mount_from_device_def demo_env_simps(1,2,5) demo_fs_open f on_result_def
        ffi_guard_def clear_last_error_def process_start_def demo_mounted_def numeral_2_eq_2)
  from c_run.call [OF c_run.start demo_lawful this]
  show thesis by (intro that [OF f, of ?st]) simp_all
qed

lemma demo_node_ok:
  assumes "n < 3"
  shows "node_ok demo_im (bs_of 9) n"
proof -
  have "length (im_plan demo_im) = 3" by (simp add: demo_im_def demo_plan_def)
  then show ?thesis using demo_nodes_ok assms by (simp add: nodes_ok_def demo_bs list_all_iff)
qed

lemma demo_found:
  assumes f: "open_with_devices demo_crc (mem_dev demo_image) [] = Ok f"
    and c: "\<forall>c\<in>set (components path). \<not> is_dot c" and k: "tree_path (components path) demo_tree 0 = Ok k"
    and r: "read_inode f (im_nids demo_im ! k) = Ok ino"
  shows "lookup_path_bytes 2 demo_libs f path pc = (Ok ino, pc)"
proof -
  have ok: "nodes_ok demo_im (bs_of 9)" using demo_nodes_ok by (simp add: demo_bs)
  have pt: "plain_tree demo_tree" by (simp add: demo_tree_def)
  show ?thesis
    using built_lookup [OF demo_built_tree demo_fits_bs demo_serves f ok pt [unfolded demo_root] c, of 2 demo_libs pc]
      k [unfolded demo_root] r by simp
qed

lemma demo_link:
  assumes f: "open_with_devices demo_crc (mem_dev demo_image) [] = Ok f"
  shows "\<exists>ino. (\<forall>pc. lookup_path_bytes 2 demo_libs f [0x62] pc = (Ok ino, pc)) \<and> is_symlink ino
      \<and> (\<forall>pc. read_symlink_target 2 demo_libs f ino pc = (Ok [0x61], pc))"
proof -
  have ok: "node_ok demo_im (bs_of 9) 2" by (rule demo_node_ok) simp
  have c: "components [0x62] = [[0x62]]" by (simp add: components_def slash_def)
  have t: "tree_path [[0x62]] demo_tree 0 = Ok 2" unfolding demo_tree_def by simp
  obtain ino where r: "read_inode f (im_nids demo_im ! 2) = Ok ino" "is_symlink ino"
    "\<And>pc. read_symlink_target 2 demo_libs f ino pc = (Ok [0x61], pc)"
    by (rule built_link [OF demo_built_tree demo_fits_bs demo_serves f _ ok, of "[0x61]" 2 demo_libs])
      (simp_all add: node_entry_def)
  have "lookup_path_bytes 2 demo_libs f [0x62] pc = (Ok ino, pc)" for pc
    by (rule demo_found [OF f _ _ r(1)]) (use t in \<open>simp_all add: c is_dot_def\<close>)
  then show ?thesis using r by blast
qed

theorem readlink_never_cuts_witness:
  "\<exists>f st st' st''. open_with_devices demo_crc (mem_dev demo_image) [] = Ok f \<and> p_mounts st 1 = Some (demo_mounted f)
    \<and> fs_erofs_readlink demo_env 1 (Some [0x62]) (Some 8) 2 st = Done (1, [0x61, 0]) st'
    \<and> fs_erofs_readlink demo_env 1 (Some [0x62]) (Some 8) 1 st = Done (-1, []) st'' \<and> fs_erofs_last_errno st'' = ERANGE"
proof -
  obtain f st where f: "open_with_devices demo_crc (mem_dev demo_image) [] = Ok f" "p_mounts st 1 = Some (demo_mounted f)"
    and run: "c_run demo_env [(CMountDevice (Some (mem_dev demo_image)), RHandle 1)] st" by (rule demo_run)
  obtain ino where ino: "\<And>pc. lookup_path_bytes 2 demo_libs f [0x62] pc = (Ok ino, pc)" "is_symlink ino"
    "\<And>pc. read_symlink_target 2 demo_libs f ino pc = (Ok [0x61], pc)" using demo_link [OF f(1)] by blast
  have c: "c_str [0x62] = [0x62]" by (simp add: c_str_def)
  have m: "mt_fs (demo_mounted f) = f" by (simp add: demo_mounted_def)
  have "\<exists>st'. fs_erofs_readlink demo_env 1 (Some [0x62]) (Some 8) n st =
      Done (if length [0x61 :: u8] < n then (int (length [0x61 :: u8]), [0x61] @ [0]) else (-1, [])) st'
    \<and> fs_erofs_last_errno st' = (if length [0x61 :: u8] < n then 0 else ERANGE)" if "n \<le> 8" for n
    by (rule readlink_never_cuts [OF lru_list.lru_cache_axioms _ _ _ run f(2) that _ ino(2)])
      (simp_all add: demo_env_simps m c ino)
  from this [of 2] this [of 1] show ?thesis using f by auto
qed

lemma demo_root_dir:
  assumes f: "open_with_devices demo_crc (mem_dev demo_image) [] = Ok f"
  shows "\<exists>ino. (\<forall>pc. lookup_path_bytes 2 demo_libs f [0x2F] pc = (Ok ino, pc)) \<and> is_dir ino
      \<and> (\<exists>es. \<forall>pc. read_dir 2 demo_libs f ino pc = (Ok es, pc))"
proof -
  note R = reader_facts [OF demo_built_tree demo_fits_bs demo_serves f]
  have ok: "node_ok demo_im (bs_of 9) 0" by (rule demo_node_ok) simp
  have c: "components [0x2F] = []" by (simp add: components_def slash_def)
  have l: "0 < length (im_plan demo_im)" "is_pdir (im_plan demo_im) 0" by (simp_all add: demo_im_def demo_plan_def is_pdir_def node_entry_def)
  obtain ino where r: "read_inode f (im_nids demo_im ! 0) = Ok ino" "i_mode ino = pn_mode (demo_plan ! 0)"
    using demo_reads [OF f, of 0] by auto
  have "is_dir ino" using r(2) by (simp add: is_dir_def demo_plan_def node_entry_def inode_consts)
  moreover have "lookup_path_bytes 2 demo_libs f [0x2F] pc = (Ok ino, pc)" for pc
    by (rule demo_found [OF f _ _ r(1)]) (simp_all add: c)
  moreover have "read_dir 2 demo_libs f ino pc =
      (Ok (map ent_of (dir_listing 0 (children_of (im_plan demo_im ! 0)) (im_plan demo_im) (im_nids demo_im))), pc)" for pc
    by (subst built_dir_read [OF R(1-3) R(4) [OF l(1)] l(1,2,2) ok r(1)]) (simp add: liftS_apply)
  ultimately show ?thesis by blast
qed

theorem dir_iteration_lists_witness:
  "\<exists>f st it st1. p_mounts st 1 = Some (demo_mounted f) \<and> fs_erofs_dir_open demo_env 1 (Some [0x2F]) st = Done it st1 \<and> it \<noteq> 0
    \<and> (\<exists>listed st3. next_calls demo_env (Suc (length listed)) it st1 = Done (map Some listed @ [None]) st3)"
proof -
  obtain f st where f: "open_with_devices demo_crc (mem_dev demo_image) [] = Ok f" "p_mounts st 1 = Some (demo_mounted f)"
    and run: "c_run demo_env [(CMountDevice (Some (mem_dev demo_image)), RHandle 1)] st" by (rule demo_run)
  obtain ino es where r: "\<And>pc. lookup_path_bytes 2 demo_libs f [0x2F] pc = (Ok ino, pc)" "is_dir ino"
    "\<And>pc. read_dir 2 demo_libs f ino pc = (Ok es, pc)" using demo_root_dir [OF f(1)] by blast
  have p: "lru_cache.provided lru_list demo_env 0"
    using demo_env_simps by (simp add: lru_list.provided_def numeral_2_eq_2)
  have "0 < p_next st" using lru_list.run_ok [OF run p] by (simp add: lru_list.proc_ok_def)
  then obtain it st1 where o: "fs_erofs_dir_open demo_env 1 (Some [0x2F]) st = Done it st1" "it \<noteq> 0"
    using f(2) r by (fastforce simp: fs_erofs_dir_open_def ffi_guard_def Let_def the_fs_def cstr_to_bytes_def on_fs_def on_result_def
        clear_last_error_def c_str_def demo_env_simps demo_mounted_def)
  from dir_iteration_lists [OF o refl] show ?thesis using f(2) o unfolding Let_def by blast
qed

theorem c_program_reads_source_witness:
  "\<exists>fs st1 st2. fs_erofs_mount_with_fs_core_device demo_env (Some (mem_dev demo_image)) process_start = Done fs st1 \<and> fs \<noteq> 0
    \<and> fs_erofs_read_file demo_env fs (Some [0x61]) (Some 100) 1 50 st1 = Done (2, [2, 3]) st2"
proof -
  have c: "components (c_str [0x61]) = [[0x61]]" by (simp add: components_def slash_def c_str_def)
  have ok: "nodes_ok demo_im (bs_of 9)" using demo_nodes_ok by (simp add: demo_bs)
  have pt: "plain_tree demo_tree" by (simp add: demo_tree_def)
  have t: "tree_path [[0x61]] demo_tree 0 = Ok 1" unfolding demo_tree_def by simp
  have "\<exists>fs st1 st2. fs_erofs_mount_with_fs_core_device demo_env (Some (mem_dev demo_image)) process_start = Done fs st1 \<and> fs \<noteq> 0
    \<and> (let out = take (unat (50 :: u64)) (drop (unat (1 :: u64)) [1, 2, 3]) in
         fs_erofs_read_file demo_env fs (Some [0x61]) (Some 100) 1 50 st1 = Done (int (length out), out) st2)
    \<and> fs_erofs_last_errno st2 = 0"
    by (rule c_program_reads_source [where i = 1 and l = PlainFile, OF demo_built_tree [folded demo_env_simps(2)] demo_fits_bs demo_serves ok
          pt [unfolded demo_root]])
      (simp_all add: demo_env_simps c t [unfolded demo_root] is_dot_def process_start_def node_entry_def)
  then show ?thesis by (simp add: Let_def) blast
qed

end
