(* ===== verification/MkfsCli.thy ===== *)
theory MkfsCli
  imports ImageBuild Cli
begin

text \<open>
  \<open>mkfs.erofs\<close> (\<open>src/cli/erofs/mkfs.rs\<close>): the block size, the walk of the source and the run of the tool. The
  directory of the host is what its calls give: the mode of each entry, the listing of each directory with the
  failure that ends it, if one does, and the content of each file or the failure to read it.
\<close>

section \<open>The block size\<close>

definition trailing_zeros :: "u64 \<Rightarrow> nat" where
  "trailing_zeros w = length (takeWhile (\<lambda>i. \<not> bit w i) [0..<64])"

definition is_power_of_two :: "u64 \<Rightarrow> bool" where
  "is_power_of_two w = (length (filter (bit w) [0..<64]) = 1)"

definition MIN_BLOCK_SIZE :: u64 where "MIN_BLOCK_SIZE = push_bit (unat MIN_BLKSZBITS) 1"
definition MAX_BLOCK_SIZE :: u64 where "MAX_BLOCK_SIZE = push_bit (unat MAX_BLKSZBITS) 1"

text \<open>The quoted form of the text and the reason it is no number belong to the standard library.\<close>

definition parse_block_size :: "(bytes \<Rightarrow> bytes) \<Rightarrow> (bytes \<Rightarrow> bytes) \<Rightarrow> bytes \<Rightarrow> bytes + u8" where
  "parse_block_size quote reason text =
     (case parse_u64 text of
        None \<Rightarrow> Inl (quote text @ ascii '' is not a number of bytes: '' @ reason text)
      | Some n \<Rightarrow>
          let bits = trailing_zeros n in
          if is_power_of_two n \<and> bits < 2 ^ 8 \<and> is_valid_blkszbits (word_of_nat bits) then Inr (word_of_nat bits)
          else Inl (dec (unat n) @ ascii '' is not a power of 2 in '' @ dec (unat MIN_BLOCK_SIZE) @ ascii ''..=''
                 @ dec (unat MAX_BLOCK_SIZE)))"

section \<open>The source\<close>

datatype host_node =
    HDir u32 "(bytes \<times> host_node) list" "bytes option"
  | HFile u32 "bytes + bytes"
  | HSymlink u32
  | HSpecial u32
  | HGone bytes

record walk =
  wk_skipped :: "(bytes \<times> string) list"
  wk_files :: u64
  wk_directories :: u64

definition DEFAULT_DIR_MODE :: u16 where "DEFAULT_DIR_MODE = 0x41ED"
definition DEFAULT_FILE_MODE :: u16 where "DEFAULT_FILE_MODE = 0x81A4"

definition mode_for :: "u32 \<Rightarrow> u16 \<Rightarrow> u16" where
  "mode_for m dflt = (let mode = ucast m in if mode = 0 then dflt else mode)"

definition host_join :: "bytes \<Rightarrow> bytes \<Rightarrow> bytes" where
  "host_join path name = (if path = [] \<or> last path = slash then path @ name else path @ slash # name)"

definition file_node :: "u32 \<Rightarrow> bytes + bytes \<Rightarrow> bytes + node" where
  "file_node m content =
     (case content of Inl e \<Rightarrow> Inl e | Inr data \<Rightarrow> Inr (NFile (mode_for m DEFAULT_FILE_MODE) data node_meta_default []))"

definition skip :: "bytes \<Rightarrow> string \<Rightarrow> walk \<Rightarrow> walk" where
  "skip path reason wk = wk\<lparr>wk_skipped := wk_skipped wk @ [(path, reason)]\<rparr>"

definition dir_node :: "u32 \<Rightarrow> (bytes \<times> node) list \<Rightarrow> node" where
  "dir_node m entries = NDir (mode_for m DEFAULT_DIR_MODE) entries node_meta_default []"

fun walk_dir :: "bytes \<Rightarrow> u32 \<Rightarrow> (bytes \<times> host_node) list \<Rightarrow> bytes option \<Rightarrow> walk \<Rightarrow> (bytes + node) \<times> walk"
and walk_entries ::
  "bytes \<Rightarrow> u32 \<Rightarrow> (bytes \<times> host_node) list \<Rightarrow> bytes option \<Rightarrow> (bytes \<times> node) list \<Rightarrow> walk \<Rightarrow> (bytes + node) \<times> walk" where
  "walk_dir path m es fail wk = walk_entries path m es fail [] (wk\<lparr>wk_directories := wk_directories wk + 1\<rparr>)"
| "walk_entries path m [] fail entries wk =
     (case fail of Some e \<Rightarrow> (Inl e, wk) | None \<Rightarrow> (Inr (dir_node m entries), wk))"
| "walk_entries path m ((file_name, h) # es) fail entries wk =
     (let child = host_join path file_name in
      case h of
        HGone e \<Rightarrow> (Inl e, wk)
      | _ \<Rightarrow>
          (case from_utf8 file_name of
             None \<Rightarrow> walk_entries path m es fail entries (skip child ''name is not UTF-8'' wk)
           | Some name \<Rightarrow>
               (case h of
                  HDir m' es' fail' \<Rightarrow>
                    (case walk_dir child m' es' fail' wk of
                       (Inl e, wk) \<Rightarrow> (Inl e, wk)
                     | (Inr n, wk) \<Rightarrow> walk_entries path m es fail (bt_insert name n entries) wk)
                | HFile m' content \<Rightarrow>
                    (case file_node m' content of
                       Inl e \<Rightarrow> (Inl e, wk)
                     | Inr n \<Rightarrow> walk_entries path m es fail (bt_insert name n entries) (wk\<lparr>wk_files := wk_files wk + 1\<rparr>))
                | HSymlink _ \<Rightarrow> walk_entries path m es fail entries (skip child ''symlink'' wk)
                | _ \<Rightarrow> walk_entries path m es fail entries (skip child ''special file'' wk))))"

text \<open>\<open>Path::file_name\<close>.\<close>

definition path_file_name :: "bytes \<Rightarrow> bytes option" where
  "path_file_name path =
     (case rev (filter (\<lambda>c. c \<noteq> [0x2E]) (components path)) of
        [] \<Rightarrow> None
      | c # _ \<Rightarrow> if c = [0x2E, 0x2E] then None else Some c)"

definition root_node :: "bytes \<Rightarrow> host_node \<Rightarrow> walk \<Rightarrow> (bytes + node) \<times> walk" where
  "root_node path h wk =
     (case h of
        HGone e \<Rightarrow> (Inl e, wk)
      | HDir m es fail \<Rightarrow> walk_dir path m es fail wk
      | HFile m content \<Rightarrow>
          (let name = (case Option.bind (path_file_name path) from_utf8 of Some s \<Rightarrow> s | None \<Rightarrow> ascii ''file'') in
           case file_node m content of
             Inl e \<Rightarrow> (Inl e, wk)
           | Inr n \<Rightarrow>
               (Inr (NDir DEFAULT_DIR_MODE (bt_insert name n []) node_meta_default []),
                wk\<lparr>wk_files := wk_files wk + 1, wk_directories := wk_directories wk + 1\<rparr>))
      | _ \<Rightarrow> (Inl (ascii ''the source must be a directory or a regular file''), wk))"

section \<open>The tool\<close>

record 'w mkfs_host =
  mh_source :: "bytes \<Rightarrow> host_node"
  mh_write_file :: "bytes \<Rightarrow> bytes \<Rightarrow> 'w \<Rightarrow> bytes option \<times> 'w"
  mh_stderr :: "bytes \<Rightarrow> 'w \<Rightarrow> 'w"

record mkfs_args =
  ma_output :: bytes
  ma_source :: bytes
  ma_block_size :: "u8 option"
  ma_label :: "bytes option"
  ma_quiet :: bool

definition DEFAULT_BLOCK_SIZE :: u64 where "DEFAULT_BLOCK_SIZE = 4096"

definition skipped_json :: "bytes \<times> string \<Rightarrow> json" where
  "skipped_json s = JObj [(''path'', JStr (show_bytes (fst s))), (''reason'', JStr (ascii (snd s)))]"

definition mkfs_report :: "bytes \<Rightarrow> bytes \<Rightarrow> superblock \<Rightarrow> walk \<Rightarrow> json" where
  "mkfs_report output img sb wk =
     JObj
      [(''image'', JStr (show_bytes output)), (''bytes'', JNum (int (length img))),
       (''block_size'', JNum (uint (block_size sb))), (''blocks'', JNum (uint (sb_blocks sb))),
       (''inodes'', JNum (uint (sb_inos sb))), (''uuid'', JStr (format_uuid (sb_uuid sb))),
       (''files'', JNum (uint (wk_files wk))), (''directories'', JNum (uint (wk_directories wk))),
       (''skipped'', JArr (map skipped_json (wk_skipped wk)))]"

definition read_back :: "(block_error \<Rightarrow> bytes) \<Rightarrow> bytes \<Rightarrow> superblock answer" where
  "read_back debug img =
     (let start = unat EROFS_SUPER_OFFSET in
      if length img < start + EROFS_SUPER_BLOCK_SIZE then Fails (CliFailed (ascii ''the built image is shorter than its superblock''))
      else answer_of (\<lambda>e. CliFailed (ascii ''reading back the superblock: '' @ display_error debug e))
             (superblock_parse (take EROFS_SUPER_BLOCK_SIZE (drop start img))))"

definition warnings :: "walk \<Rightarrow> bytes list" where
  "warnings wk = map (\<lambda>(path, reason). ascii ''warning: left out '' @ show_bytes path @ ascii '' ('' @ ascii reason @ ascii '')'') (wk_skipped wk)"

definition wrote_text :: "bytes \<Rightarrow> bytes \<Rightarrow> superblock \<Rightarrow> bytes" where
  "wrote_text output img sb =
     ascii ''wrote '' @ dec (length img) @ ascii '' bytes to '' @ show_bytes output @ ascii '' (block size ''
       @ dec (unat (block_size sb)) @ ascii '', '' @ dec (unat (sb_blocks sb)) @ ascii '' blocks)''"

definition mkfs_run ::
    "(bytes \<Rightarrow> u32) \<Rightarrow> encoders \<Rightarrow> (block_error \<Rightarrow> bytes) \<Rightarrow> 'w mkfs_host \<Rightarrow> mkfs_args \<Rightarrow> 'w \<Rightarrow> outcome answer \<times> 'w" where
  "mkfs_run crc E debug mh args w =
     (let blkszbits = (case ma_block_size args of Some b \<Rightarrow> b | None \<Rightarrow> word_of_nat (trailing_zeros DEFAULT_BLOCK_SIZE));
          source = ma_source args; output = ma_output args in
      if ma_label args \<noteq> None
      then (Fails (CliNotImplemented (ascii ''--label: the EROFS image builder takes no volume name yet'')), w)
      else case root_node source (mh_source mh source) \<lparr>wk_skipped = [], wk_files = 0, wk_directories = 0\<rparr> of
        (Inl e, wk) \<Rightarrow> (Fails (CliFailed (ascii ''walking '' @ show_bytes source @ ascii '': '' @ e)), w)
      | (Inr root, wk) \<Rightarrow>
          let w = (if ma_quiet args then w else fold (mh_stderr mh) (warnings wk) w) in
          case answer_of (\<lambda>e. CliFailed (ascii ''building the image: '' @ display_error debug e)) (build_image crc E root blkszbits) of
            Fails e \<Rightarrow> (Fails e, w) | Panics \<Rightarrow> (Panics, w) | Runs \<Rightarrow> (Runs, w)
          | Fine img \<Rightarrow>
              (case mh_write_file mh output img w of
                 (Some e, w) \<Rightarrow> (Fails (CliFailed (ascii ''writing '' @ show_bytes output @ ascii '': '' @ e)), w)
               | (None, w) \<Rightarrow>
                   (case read_back debug img of
                      Fails e \<Rightarrow> (Fails e, w) | Panics \<Rightarrow> (Panics, w) | Runs \<Rightarrow> (Runs, w)
                    | Fine sb \<Rightarrow>
                        (Fine (with_text [] (report (mkfs_report output img sb wk))),
                         if ma_quiet args then w else mh_stderr mh (wrote_text output img sb) w))))"

section \<open>Powers of two\<close>

lemma one_bit: "length (filter P [0..<n]) = 1 \<Longrightarrow> \<exists>i<n. \<forall>j<n. P j \<longleftrightarrow> j = i"
proof -
  assume "length (filter P [0..<n]) = 1"
  then obtain i where "filter P [0..<n] = [i]" by (auto simp: length_Suc_conv)
  then have "set (filter P [0..<n]) = {i}" by simp
  then have "{j. j < n \<and> P j} = {i}" by auto
  then show ?thesis by blast
qed

lemma is_power_of_two_iff: "is_power_of_two w \<longleftrightarrow> (\<exists>i<64. w = 2 ^ i)"
proof
  assume "is_power_of_two w"
  from one_bit [OF this [unfolded is_power_of_two_def]]
  obtain i where i: "i < 64" "\<And>j. j < 64 \<Longrightarrow> bit w j \<longleftrightarrow> j = i" by blast
  have "w = 2 ^ i"
    by (rule bit_word_eqI) (use i in \<open>auto simp: bit_exp_iff\<close>)
  then show "\<exists>i<64. w = 2 ^ i" using i(1) by blast
next
  assume "\<exists>i<64. w = 2 ^ i"
  then obtain i where i: "i < 64" "w = 2 ^ i" by blast
  have "set (filter (bit w) [0..<64]) = {i}" using i by (auto simp: bit_exp_iff)
  then show "is_power_of_two w"
    using distinct_card [of "filter (bit w) [0..<64]"] by (simp add: is_power_of_two_def del: set_filter)
qed

lemma trailing_zeros_power: "i < 64 \<Longrightarrow> trailing_zeros (2 ^ i) = i"
proof -
  assume i: "i < 64"
  have "[0..<64] = [0..<i] @ i # [Suc i..<64]" using i upt_add_eq_append [of 0 i "64 - i"] by (simp add: upt_conv_Cons [symmetric])
  moreover have "takeWhile (\<lambda>j. \<not> bit (2 ^ i :: u64) j) ([0..<i] @ i # [Suc i..<64]) = [0..<i]"
    by (subst takeWhile_append2) (use i in \<open>auto simp: bit_exp_iff\<close>)
  ultimately show ?thesis by (simp add: trailing_zeros_def)
qed

text \<open>\<open>--block-size\<close> takes exactly the decimal powers of two the format allows, 512 to 65536, and gives their
  exponent; anything else that was typed is refused with a message.\<close>

theorem parse_block_size_iff:
  "parse_block_size quote reason text = Inr b \<longleftrightarrow> is_valid_blkszbits b \<and> parse_u64 text = Some (2 ^ unat b)"
proof -
  have v: "is_valid_blkszbits b \<longleftrightarrow> 9 \<le> unat b \<and> unat b \<le> 16" for b
    by (simp add: is_valid_blkszbits_def sb_consts word_le_nat_alt)
  have "parse_block_size quote reason text = Inr b" if "is_valid_blkszbits b" "parse_u64 text = Some (2 ^ unat b)"
  proof -
    have "unat b < 64" using that(1) by (simp add: v)
    then show ?thesis using that is_power_of_two_iff by (auto simp: parse_block_size_def trailing_zeros_power Let_def)
  qed
  moreover have "is_valid_blkszbits b \<and> parse_u64 text = Some (2 ^ unat b)" if "parse_block_size quote reason text = Inr b"
    using that by (auto simp: parse_block_size_def Let_def is_power_of_two_iff trailing_zeros_power unat_of_nat split: option.splits if_splits)
  ultimately show ?thesis by blast
qed

section \<open>What the walk keeps\<close>

text \<open>The tree of a directory of the host: its directories and regular files of a readable name, by name.\<close>

definition is_kept :: "bytes \<times> host_node \<Rightarrow> bool" where
  "is_kept e = (from_utf8 (fst e) \<noteq> None \<and> (case snd e of HDir _ _ _ \<Rightarrow> True | HFile _ _ \<Rightarrow> True | _ \<Rightarrow> False))"

lemma is_kept_simps:
  "is_kept (name, HDir m es fail) = (from_utf8 name \<noteq> None)" "is_kept (name, HFile m c) = (from_utf8 name \<noteq> None)"
  "\<not> is_kept (name, HSymlink m)" "\<not> is_kept (name, HSpecial m)" "\<not> is_kept (name, HGone t)"
  "from_utf8 name = None \<Longrightarrow> \<not> is_kept (name, h)"
  by (simp_all add: is_kept_def)

fun image_of :: "host_node \<Rightarrow> node" where
  "image_of (HDir m es _) = dir_node m (sort_key fst (map (\<lambda>e. (fst e, image_of (snd e))) (filter is_kept es)))"
| "image_of (HFile m (Inr data)) = NFile (mode_for m DEFAULT_FILE_MODE) data node_meta_default []"
| "image_of _ = undefined"

text \<open>Every call of the host succeeds, and no listing has a name twice.\<close>

fun readable :: "host_node \<Rightarrow> bool" where
  "readable (HDir m es fail) = (fail = None \<and> distinct (map fst es) \<and> (\<forall>e\<in>set es. readable (snd e)))"
| "readable (HFile m content) = (case content of Inr _ \<Rightarrow> True | Inl _ \<Rightarrow> False)"
| "readable (HGone e) = False"
| "readable _ = True"

fun count_files :: "host_node \<Rightarrow> nat" where
  "count_files (HDir m es _) = sum_list (map (\<lambda>e. count_files (snd e)) (filter is_kept es))"
| "count_files (HFile m _) = 1"
| "count_files _ = 0"

fun count_dirs :: "host_node \<Rightarrow> nat" where
  "count_dirs (HDir m es _) = Suc (sum_list (map (\<lambda>e. count_dirs (snd e)) (filter is_kept es)))"
| "count_dirs _ = 0"

fun left_out :: "bytes \<Rightarrow> host_node \<Rightarrow> (bytes \<times> string) list" where
  "left_out path (HDir m es _) =
     concat (map (\<lambda>e. if from_utf8 (fst e) = None then [(host_join path (fst e), ''name is not UTF-8'')]
                       else left_out (host_join path (fst e)) (snd e)) es)"
| "left_out path (HSymlink m) = [(path, ''symlink'')]"
| "left_out path (HSpecial m) = [(path, ''special file'')]"
| "left_out path _ = []"

definition tally :: "(bytes \<times> string) list \<Rightarrow> nat \<Rightarrow> nat \<Rightarrow> walk \<Rightarrow> walk" where
  "tally sk files dirs wk =
     \<lparr>wk_skipped = wk_skipped wk @ sk, wk_files = wk_files wk + word_of_nat files,
      wk_directories = wk_directories wk + word_of_nat dirs\<rparr>"

lemma tally_tally: "tally sk' f' d' (tally sk f d wk) = tally (sk @ sk') (f + f') (d + d') wk"
  by (simp add: tally_def add.assoc)

lemma tally_steps:
  "tally [] 0 0 wk = wk" "skip path reason wk = tally [(path, reason)] 0 0 wk"
  "wk\<lparr>wk_files := wk_files wk + 1\<rparr> = tally [] 1 0 wk" "wk\<lparr>wk_directories := wk_directories wk + 1\<rparr> = tally [] 0 1 wk"
  by (simp_all add: tally_def skip_def)

lemma bt_insert_insort:
  "sorted (map fst kvs) \<Longrightarrow> k \<notin> fst ` set kvs \<Longrightarrow> bt_insert k v kvs = insort_key fst (k, v) kvs"
  by (induction k v kvs rule: bt_insert.induct) auto

lemma sort_insert_front:
  assumes "sorted (map fst kvs)" "distinct (map fst (kvs @ (k, v) # rest))"
  shows "sort_key fst (bt_insert k v kvs @ rest) = sort_key fst (kvs @ (k, v) # rest)"
proof -
  have b: "bt_insert k v kvs = insort_key fst (k, v) kvs" using assms by (intro bt_insert_insort) auto
  have "mset (sort_key fst (kvs @ (k, v) # rest)) = mset (bt_insert k v kvs @ rest)" by (simp add: b)
  moreover have "inj_on fst (set (bt_insert k v kvs @ rest))"
    using assms(2) by (auto simp: b set_insort_key distinct_map inj_on_Un)
  ultimately show ?thesis
    using sort_key_inj_key_eq [of "bt_insert k v kvs @ rest" "sort_key fst (kvs @ (k, v) # rest)" fst] by simp
qed

lemma sorted_bt_insert:
  "sorted (map fst kvs) \<Longrightarrow> k \<notin> fst ` set kvs \<Longrightarrow> sorted (map fst (bt_insert k v kvs)) \<and> fst ` set (bt_insert k v kvs) = insert k (fst ` set kvs)"
  by (simp add: bt_insert_insort sorted_insort_key set_insort_key)

lemma from_utf8_same: "from_utf8 bs = Some t \<Longrightarrow> t = bs"
  by (simp add: from_utf8_def split: if_splits)

abbreviation kept_nodes :: "(bytes \<times> host_node) list \<Rightarrow> (bytes \<times> node) list" where
  "kept_nodes es \<equiv> map (\<lambda>e. (fst e, image_of (snd e))) (filter is_kept es)"

lemma walk_keeps:
  "readable (HDir m es fail) \<Longrightarrow> walk_dir path m es fail wk =
     (Inr (image_of (HDir m es fail)), tally (left_out path (HDir m es fail)) (count_files (HDir m es fail)) (count_dirs (HDir m es fail)) wk)"
  "readable (HDir m es fail) \<Longrightarrow> sorted (map fst acc) \<Longrightarrow> distinct (map fst acc @ map fst es) \<Longrightarrow>
     walk_entries path m es fail acc wk =
       (Inr (dir_node m (sort_key fst (acc @ kept_nodes es))),
        tally (left_out path (HDir m es fail)) (count_files (HDir m es fail)) (count_dirs (HDir m es fail) - 1) wk)"
proof (induction path m es fail wk and path m es fail acc wk rule: walk_dir_walk_entries.induct)
  case (1 path m es fail wk)
  then show ?case by (simp add: tally_steps tally_tally)
next
  case (2 path m fail entries wk)
  then show ?case by (simp add: tally_steps sort_key_id_if_sorted)
next
  case (3 path m file_name h es fail entries wk)
  show ?case
  proof (cases "from_utf8 file_name")
    case None
    then show ?thesis using 3 by (cases h) (simp_all add: is_kept_simps tally_steps tally_tally)
  next
    case (Some name)
    then have [simp]: "name = file_name" by (rule from_utf8_same)
    have ins: "sorted (map fst (bt_insert file_name n entries))" "distinct (map fst (bt_insert file_name n entries) @ map fst es)"
      "sort_key fst (bt_insert file_name n entries @ kept_nodes es) = sort_key fst (entries @ (file_name, n) # kept_nodes es)" for n
    proof -
      have d: "distinct (map fst entries @ file_name # map fst es)" and so: "sorted (map fst entries)" using "3.prems" by simp_all
      then have "file_name \<notin> fst ` set entries" by auto
      note b = sorted_bt_insert [OF so this, of n] bt_insert_insort [OF so this, of n]
      show "sorted (map fst (bt_insert file_name n entries))" using b by simp
      show "distinct (map fst (bt_insert file_name n entries) @ map fst es)"
        using d b by (auto simp: distinct_insort_key set_insort_key)
      show "sort_key fst (bt_insert file_name n entries @ kept_nodes es) = sort_key fst (entries @ (file_name, n) # kept_nodes es)"
        by (rule sort_insert_front [OF so]) (use d in \<open>auto simp: distinct_map_filter comp_def\<close>)
    qed
    show ?thesis
    proof (cases h)
      case (HDir m' es' fail')
      then show ?thesis using 3 Some ins by (simp add: is_kept_simps tally_steps tally_tally)
    next
      case (HFile m' content)
      then show ?thesis using 3 Some ins by (simp add: is_kept_simps tally_steps tally_tally file_node_def split: sum.splits)
    qed (use 3 Some in \<open>simp_all add: is_kept_simps tally_steps tally_tally\<close>)
  qed
qed

text \<open>C14: \<open>mkfs.erofs\<close> makes an image of what is there. When the host answers every call, the walk of a source
  directory gives the tree of its directories and regular files, in the order of their names and with the host's
  modes and bytes, whatever the order the host lists them in; links, special files and names that are not UTF-8,
  with all below them, are left out, and the report names every one of them once, with its reason, and counts
  the files and directories that are in.\<close>

theorem walk_gives_source:
  assumes "readable (HDir m es fail)"
  shows "root_node path (HDir m es fail) wk =
     (Inr (image_of (HDir m es fail)), tally (left_out path (HDir m es fail)) (count_files (HDir m es fail)) (count_dirs (HDir m es fail)) wk)"
  using walk_keeps(1) [OF assms] by (simp add: root_node_def)

theorem walk_gives_source_witness:
  "root_node [0x64] (HDir 0x41C0 [([0x62], HFile 0x81A4 (Inr [1])), ([0x63], HSymlink 0xA1FF), ([0x61], HDir 0x41C0 [] None)] None)
     \<lparr>wk_skipped = [], wk_files = 0, wk_directories = 0\<rparr> =
   (Inr (NDir 0x41C0 [([0x61], NDir 0x41C0 [] node_meta_default []), ([0x62], NFile 0x81A4 [1] node_meta_default [])] node_meta_default []),
    \<lparr>wk_skipped = [([0x64, 0x2F, 0x63], ''symlink'')], wk_files = 1, wk_directories = 2\<rparr>)"
  by (subst walk_gives_source)
    (simp_all add: dir_node_def mode_for_def is_kept_def tally_def host_join_def slash_def from_utf8_def)

section \<open>The tree that is built\<close>

text \<open>The types of the modes are those of the entries, and the names are names.\<close>

fun well_typed :: "host_node \<Rightarrow> bool" where
  "well_typed (HDir m es _) =
     (ucast m AND S_IFMT = S_IFDIR \<and> (\<forall>e\<in>set es. check_name (fst e) = Ok () \<and> well_typed (snd e)))"
| "well_typed (HFile m _) = (ucast m AND S_IFMT = S_IFREG)"
| "well_typed _ = True"

lemma mode_for_typed:
  "ucast m AND S_IFMT = S_IFDIR \<Longrightarrow> mode_for m d AND S_IFMT = S_IFDIR"
  "ucast m AND S_IFMT = S_IFREG \<Longrightarrow> mode_for m d AND S_IFMT = S_IFREG"
  by (auto simp: mode_for_def Let_def inode_consts)

lemma image_valid:
  "readable h \<Longrightarrow> well_typed h \<Longrightarrow> (case h of HDir _ _ _ \<Rightarrow> True | HFile _ _ \<Rightarrow> True | _ \<Rightarrow> False) \<Longrightarrow> valid_node (image_of h)"
proof (induction h)
  case (HDir m es fail)
  have "check_name (fst e) = Ok () \<and> valid_node (image_of (snd e))" if "e \<in> set es" "is_kept e" for e
  proof -
    have "readable (snd e)" "well_typed (snd e)" "check_name (fst e) = Ok ()" using HDir.prems that(1) by auto
    then show ?thesis using HDir.IH [of e "snd e"] that by (cases e) (auto simp: is_kept_def)
  qed
  then show ?case using HDir.prems by (auto simp: dir_node_def mode_for_typed)
qed (auto simp: mode_for_typed split: sum.splits)

lemma sum_node_counts: "mset ys = mset (xs :: ('a \<times> node) list) \<Longrightarrow> (\<Sum>e\<leftarrow>ys. node_count (snd e)) = (\<Sum>e\<leftarrow>xs. node_count (snd e))"
proof -
  assume m: "mset ys = mset xs"
  have "(\<Sum>e\<leftarrow>ys. node_count (snd e)) = sum_mset (image_mset (\<lambda>e. node_count (snd e)) (mset ys))"
    by (simp flip: sum_mset_sum_list)
  then show ?thesis unfolding m by (simp flip: sum_mset_sum_list)
qed

lemma image_count:
  "readable h \<Longrightarrow> (case h of HDir _ _ _ \<Rightarrow> True | HFile _ _ \<Rightarrow> True | _ \<Rightarrow> False)
    \<Longrightarrow> node_count (image_of h) = count_files h + count_dirs h"
proof (induction h)
  case (HDir m es fail)
  have "node_count (image_of (snd e)) = count_files (snd e) + count_dirs (snd e)" if "e \<in> set (filter is_kept es)" for e
  proof -
    have "readable (snd e)" using HDir.prems that by auto
    then show ?thesis using HDir.IH [of e "snd e"] that by (cases e) (auto simp: is_kept_def)
  qed
  then have "(\<Sum>e\<leftarrow>filter is_kept es. node_count (image_of (snd e))) = (\<Sum>e\<leftarrow>filter is_kept es. count_files (snd e) + count_dirs (snd e))"
    by (intro arg_cong [where f = sum_list] map_cong refl) blast
  moreover have "(\<Sum>e\<leftarrow>sort_key fst (kept_nodes es). node_count (snd e)) = (\<Sum>e\<leftarrow>kept_nodes es. node_count (snd e))"
    by (rule sum_node_counts) simp
  ultimately show ?case by (simp add: dir_node_def comp_def sum_list_addf)
qed (auto split: sum.splits)

text \<open>C15: the tree the walk gives is one the builder takes: on a host whose modes carry the types of its entries and
  whose names are names, flattening it never fails, and numbers exactly the directories and files that were
  counted.\<close>

theorem walked_tree_flattens:
  assumes "readable (HDir m es fail)" "well_typed (HDir m es fail)"
  shows "\<exists>root wk'. root_node path (HDir m es fail) wk = (Inr root, wk') \<and> valid_node root
    \<and> flatten root 0 [] = Ok (0, preorder 0 0 root)
    \<and> length (preorder 0 0 root) = count_files (HDir m es fail) + count_dirs (HDir m es fail)"
proof -
  define root where "root = image_of (HDir m es fail)"
  have v: "valid_node root" unfolding root_def by (rule image_valid [OF assms]) simp
  have n: "node_count root = count_files (HDir m es fail) + count_dirs (HDir m es fail)"
    unfolding root_def by (rule image_count [OF assms(1)]) simp
  have "flatten root 0 [] = Ok (0, preorder 0 0 root)" using flatten_is_preorder(1) [of root 0 "[]"] v by simp
  moreover have "\<exists>wk'. root_node path (HDir m es fail) wk = (Inr root, wk')"
    unfolding root_node_def host_node.case root_def walk_keeps(1) [OF assms(1)] by blast
  ultimately show ?thesis using v n length_preorder(1) [of 0 0 root] by metis
qed

end
