(* ===== verification/CliDemo.thy ===== *)
theory CliDemo
  imports CliBuilt CapiDemo MkfsCli
begin

text \<open>
  The theorems on \<open>fs.erofs\<close> at the small built image of \<open>ImageDemo\<close>, in a world of a standard output and files in
  memory.
\<close>

type_synonym demo_world = "bytes \<times> (bytes \<rightharpoonup> bytes)"

definition demo_host :: "demo_world host" where
  "demo_host =
     \<lparr>h_stdout = (\<lambda>b w. (None, (fst w @ b, snd w))), h_flush_stdout = (\<lambda>w. (None, w)),
      h_create = (\<lambda>p w. (None, (fst w, (snd w)(p \<mapsto> [])))),
      h_append = (\<lambda>p b w. (None, (fst w, (snd w)(p \<mapsto> the (snd w p) @ b)))), h_flush = (\<lambda>p w. (None, w)),
      h_write_file = (\<lambda>p b w. (None, (fst w, (snd w)(p \<mapsto> b)))),
      h_rename = (\<lambda>p q w. (None, (fst w, (snd w)(q := snd w p, p := None)))), h_remove = (\<lambda>p w. (fst w, (snd w)(p := None)))\<rparr>"

definition demo_tool :: "(bytes, nat \<times> pcluster_entry list, demo_world) tool" where
  "demo_tool = \<lparr>t_libs = demo_libs, t_depth = 2, t_debug = (\<lambda>_. []), t_get = (\<lambda>j k. json_field k j),
     t_text = (\<lambda>j. case j of JStr s \<Rightarrow> s | _ \<Rightarrow> []), t_render = (\<lambda>_. []), t_quote = ascii, t_host = demo_host\<rparr>"

lemma demo_tool_simps: "t_libs demo_tool = demo_libs" "t_depth demo_tool = 2" "t_host demo_tool = demo_host"
  by (simp_all add: demo_tool_def)

lemma demo_reader_tool: "reader_tool lru_list demo_tool"
  using demo_env_simps(5,6) by (simp add: reader_tool_def demo_tool_simps)

lemma demo_stream: "stream_ok (h_stdout demo_host) (h_flush_stdout demo_host) fst snd (\<lambda>_. True)"
  by (simp add: stream_ok_def demo_host_def)

lemma demo_files: "files_ok demo_host snd"
  by (auto simp: files_ok_def stream_ok_def demo_host_def)

lemma demo_fs_safe:
  assumes "open_with_devices demo_crc (mem_dev demo_image) [] = Ok f"
  shows "safe_reader demo_libs f"
  using demo_fs_facts [OF assms] open_split_sb_ok assms demo_env_simps(6) by (auto simp: safe_reader_def open_with_devices_def)

theorem ls_recursive_bounded_witness:
  "\<exists>f root es a pc'. open_with_devices demo_crc (mem_dev demo_image) [] = Ok f \<and> read_inode f 0 = Ok root
    \<and> list_tree demo_tool f \<lparr>lb_max_depth = 8, lb_limit = 1\<rparr> [slash] root (cache_new lru_list 4, ([], Map.empty)) = ((es, a), (pc', ([], Map.empty)))
    \<and> length es \<le> 1"
proof -
  obtain f where f: "open_with_devices demo_crc (mem_dev demo_image) [] = Ok f" by (rule demo_opens)
  obtain root where root: "read_inode f (im_nids demo_im ! 0) = Ok root" using demo_reads [OF f, of 0] by auto
  have n: "im_nids demo_im ! 0 = 0" by (simp add: demo_im_def)
  from ls_recursive_bounded [OF lru_list.lru_cache_axioms demo_reader_tool _ lru_list.good_new(1) [of 4],
      of f "\<lparr>lb_max_depth = 8, lb_limit = 1\<rparr>" "[slash]" root "([], Map.empty)"]
  show ?thesis using f root by (auto simp: demo_tool_simps demo_fs_safe n)
qed

lemma demo_side:
  "nodes_ok demo_im (bs_of 9)" "plain_tree demo_tree" "listable demo_tree" "0 < t_depth demo_tool"
  using demo_nodes_ok unfolding demo_tree_def by (simp_all add: demo_bs demo_tool_simps is_dot_def)

theorem built_tree_lists_witness:
  "\<exists>f entries. open_with_devices demo_crc (mem_dev demo_image) [] = Ok f
    \<and> ls_recursive demo_tool f [slash] \<lparr>lb_max_depth = 1, lb_limit = 2\<rparr> (cache_new lru_list 4, ([], Map.empty)) =
        (Fine (listing_report demo_tool entries), (cache_new lru_list 4, ([], Map.empty)))
    \<and> list_all2 (listed_as f [0, 1, 3]) [([slash, 0x61], 1, 1), ([slash, 0x62], 1, 2)] entries"
proof -
  obtain f where f: "open_with_devices demo_crc (mem_dev demo_image) [] = Ok f" by (rule demo_opens)
  have c: "components [slash] = []" by (simp add: components_def slash_def)
  have n: "im_nids demo_im = [0, 1, 3]" by (simp add: demo_im_def)
  have t: "tree_list [slash] 1 1 [([0x61], NFile 0x81A4 [1, 2, 3] node_meta_default []), ([0x62], NSymlink 0xA1FF [0x61] node_meta_default [])] =
      [([slash, 0x61], 1, 1), ([slash, 0x62], 1, 2)]" by (simp add: path_join_def)
  have "\<exists>entries. ls_recursive demo_tool f [slash] \<lparr>lb_max_depth = 1, lb_limit = 2\<rparr> (cache_new lru_list 4, ([], Map.empty)) =
        (Fine (listing_report demo_tool entries), (cache_new lru_list 4, ([], Map.empty)))
    \<and> list_all2 (listed_as f (im_nids demo_im)) (tree_list [slash] 1 1
        [([0x61], NFile 0x81A4 [1, 2, 3] node_meta_default []), ([0x62], NSymlink 0xA1FF [0x61] node_meta_default [])]) entries"
    by (rule built_tree_lists [OF demo_built_tree demo_fits_bs demo_serves f demo_side(1,4) demo_side(3) [unfolded demo_root] c]) (simp_all add: t)
  then show ?thesis using f unfolding t n by blast
qed

lemma demo_path: "\<forall>c\<in>set (components [0x61]). \<not> is_dot c" "tree_path (components [0x61]) demo_tree 0 = Ok 1"
  "pn_kind (preorder 0 0 demo_tree ! 1) = PFile [1, 2, 3] PlainFile"
proof -
  have c: "components [0x61] = [[0x61]]" by (simp add: components_def slash_def)
  show "\<forall>c\<in>set (components [0x61]). \<not> is_dot c" by (simp add: c is_dot_def)
  show "tree_path (components [0x61]) demo_tree 0 = Ok 1" unfolding c demo_tree_def by simp
  show "pn_kind (preorder 0 0 demo_tree ! 1) = PFile [1, 2, 3] PlainFile" unfolding demo_tree_def by (simp add: node_entry_def)
qed

theorem read_prints_source_witness:
  "\<exists>f a w'. open_with_devices demo_crc (mem_dev demo_image) [] = Ok f
    \<and> read_verb demo_tool f [0x61] None (cache_new lru_list 4, ([7], Map.empty)) = (a, (cache_new lru_list 4, w'))
    \<and> (a = Fine outcome_done \<and> fst w' = [7, 1, 2, 3] \<or> (\<exists>e k. a = Fails e \<and> fst w' = [7] @ take k [1, 2, 3]))"
proof -
  obtain f where f: "open_with_devices demo_crc (mem_dev demo_image) [] = Ok f" by (rule demo_opens)
  from read_prints_source [OF demo_built_tree demo_fits_bs demo_serves f demo_side(1) demo_side(2) [unfolded demo_root] demo_side(4)
      demo_path(1) demo_path(2,3) [unfolded demo_root] demo_stream [folded demo_tool_simps(3)] TrueI, of "cache_new lru_list 4" "([7], Map.empty)"]
  show ?thesis using f by auto
qed

theorem read_output_whole_witness:
  "\<exists>f a w'. open_with_devices demo_crc (mem_dev demo_image) [] = Ok f
    \<and> read_verb demo_tool f [0x61] (Some [0x66]) (cache_new lru_list 4, ([], [[0x66] \<mapsto> [9]])) = (a, (cache_new lru_list 4, w'))
    \<and> (a = Fine outcome_done \<and> snd w' [0x66] = Some [1, 2, 3] \<or> (\<exists>e. a = Fails e) \<and> snd w' [0x66] = Some [9])"
proof -
  obtain f where f: "open_with_devices demo_crc (mem_dev demo_image) [] = Ok f" by (rule demo_opens)
  from read_output_whole [OF demo_built_tree demo_fits_bs demo_serves f demo_side(1) demo_side(2) [unfolded demo_root] demo_side(4)
      demo_path(1) demo_path(2,3) [unfolded demo_root] demo_files [folded demo_tool_simps(3)], of "[0x66]" "cache_new lru_list 4" "([], [[0x66] \<mapsto> [9]])"]
  show ?thesis using f by auto
qed

theorem walked_tree_flattens_witness:
  "\<exists>root wk'. root_node [0x64] (HDir 0x41C0 [([0x61], HFile 0x81A4 (Inr [1]))] None) \<lparr>wk_skipped = [], wk_files = 0, wk_directories = 0\<rparr> = (Inr root, wk')
    \<and> flatten root 0 [] = Ok (0, preorder 0 0 root) \<and> length (preorder 0 0 root) = 2"
proof -
  let ?h = "HDir 0x41C0 [([0x61], HFile 0x81A4 (Inr [1]))] None"
  have "readable ?h" "well_typed ?h" by (simp_all add: inode_consts check_name_def)
  from walked_tree_flattens [OF this, of "[0x64]" "\<lparr>wk_skipped = [], wk_files = 0, wk_directories = 0\<rparr>"]
  show ?thesis by (auto simp: is_kept_def from_utf8_def)
qed

end
