(* ===== verification/Spec2Isabelle.thy ===== *)
theory Spec2Isabelle
  imports Layout Acl Superblock Inode Dir Chunked Xattr Zmap FileContent CompressedFile CliDemo
begin

text \<open>
  \<^bold>\<open>An EROFS reader and image writer.\<close> The repository is a Rust crate with five faces: a parser of the on-disk
  structures, a read-only filesystem handle over a block device (\<open>src/src/fs.rs\<close>), an image builder
  (\<open>src/src/mkfs.rs\<close>), a C interface (\<open>src/src/capi.rs\<close>) and command line tools (\<open>src/src/cli\<close>). This
  development models the crate from the bytes up and ends with what joins the faces: an image the builder made of
  a tree opens, and every path, listing and file read from it, by the library, by a C program and by the tools, is
  what the tree has.

  \<^bold>\<open>How the parts depend on one another.\<close> \<open>Prelude\<close> and \<open>Device\<close> are the vocabulary; \<open>Layout\<close>, \<open>Acl\<close>,
  \<open>Superblock\<close>, \<open>Inode\<close>, \<open>Dir\<close>, \<open>Chunked\<close>, \<open>Xattr\<close>, \<open>Decompress\<close> and \<open>Zmap\<close> are one on-disk structure each,
  with the reader's parser and the writer's encoder side by side; \<open>Cache\<close>, \<open>Reader\<close> and \<open>Paths\<close> put them
  together to the handle; \<open>IndexWriter\<close>, \<open>Collator\<close>, \<open>Builder\<close> and \<open>ImageBuild\<close> put them together to the
  builder; \<open>Text\<close>, \<open>Capi\<close> and the \<open>Cli\<close> theories are the callers. What is proved of several of them stands in
  theories of its own, named below.

  \<^bold>\<open>Conventions.\<close> Machine integers are words of their width, so \<open>+\<close>, \<open>-\<close> and \<open>*\<close> wrap as the release profile
  does; \<open>usize\<close> is \<open>nat\<close> where the code checks or bounds it, with the checks written out. A Rust call is a
  \<open>result\<close>: \<open>Ok\<close>, \<open>Err\<close> with the crate's own error, \<open>Panic\<close> for a slice or index out of range or an \<open>unwrap\<close> on
  nothing, and \<open>Overrun\<close> where a definition takes a bound on recursion and the bound is spent. A call on the handle
  also passes the pcluster cache through (\<open>io\<close>), a call of the C interface the state of the process (\<open>ran\<close>), a verb
  of the tools the cache and the world of the host (\<open>verb\<close>). Buffers that are filled are returned as lists.

  \<^bold>\<open>The reader.\<close>
  \<^item> \<open>Prelude\<close> (\<open>error.rs\<close>, idioms of the language): the error and result types, slices, little-endian codecs,
    checked, saturating and rounding arithmetic, bit fields. The locale \<open>byte_codec\<close> states what encoding and
    decoding a fixed number of bytes owe one another and \<open>codec_pair\<close> builds codecs of tuples; both are
    interpreted on the integers here, on ACL entries in \<open>Acl\<close> and on chunk entries in \<open>Chunked\<close>.
  \<^item> \<open>Device\<close>: the block device of \<open>fs_core\<close> as a parameter, and what it is for a device to serve given bytes.
  \<^item> \<open>Layout\<close> (\<open>layout.rs\<close>): the format word of an inode. \<open>Acl\<close> (\<open>acl.rs\<close>): POSIX ACL values. \<open>Superblock\<close>
    (\<open>superblock.rs\<close>, \<open>write_superblock\<close>): parsing, the checksum gate, the feature gate, the device table and the
    compression configuration. \<open>Inode\<close> (\<open>inode.rs\<close>, \<open>encode_inode\<close>): both shapes, where an inode lies, types and
    device numbers. \<open>Dir\<close> (\<open>dir.rs\<close>, \<open>pack_dir_blocks\<close>): blocks of entries. \<open>Chunked\<close> (\<open>chunked.rs\<close>): chunk maps.
    \<open>Xattr\<close> (\<open>xattr.rs\<close>): inline and shared attributes and the prefix dictionary. Each has the functional
    behaviour of its parser on accepted input, that the parser returns on any input, and that what the writer
    encodes is read back.
  \<^item> \<open>Decompress\<close> (\<open>decompress.rs\<close>): the dispatch over codecs, the partial LZ4 decoder against a description of the
    block format, the window check of ZSTD frames and the search for the end of an LZMA stream. The decoders of
    \<open>lz4_flex\<close>, \<open>lzma-rs\<close>, \<open>flate2\<close> and \<open>ruzstd\<close> are the record \<open>codecs\<close>; \<open>reads_within\<close> is the documented
    behaviour that they yield no more than they were asked for.
  \<^item> \<open>Zmap\<close> (\<open>zmap.rs\<close>): the map header, both encodings of the index, and extents. The locale \<open>lcluster_index\<close> is
    the contract between the search for extents and the reader of one index entry, interpreted on \<open>read_lcluster\<close>
    as \<open>zmi\<close>; from it follows that, where the index is well formed, extents are the ones
    a list of entries assigns and partition the file; on any index they are within bounds.
  \<^item> \<open>Cache\<close> (\<open>PclusterCache\<close> of \<open>fs.rs\<close>): the two bounds. The locale \<open>lru_cache\<close> is what the \<open>lru\<close> crate
    documents, interpreted on lists in order of use as \<open>lru_list\<close>; any run of operations keeps the bounds and the
    exact count of bytes.
  \<^item> \<open>Reader\<close>, \<open>Paths\<close> (\<open>Filesystem\<close> of \<open>fs.rs\<close>): opening, routing to devices, one block of every layout,
    \<open>read_file\<close>, listings, lookup, links and path resolution. \<open>ReaderSafe\<close> and \<open>PathsSafe\<close>: on any image whose
    packed inode has no fragment of its own, and with any sound cache, these calls return, with as many bytes as were asked for or an error. \<open>CacheTransparent\<close>:
    reading through the cache gives what reading without it gives. \<open>FileContent\<close>: a file has one content, of which
    every read is a range.

  \<^bold>\<open>The writer.\<close>
  \<^item> \<open>IndexWriter\<close> (\<open>encode_zmap_trailer\<close> and the index encoders of \<open>mkfs.rs\<close>): what is written is read back by
    \<open>Zmap\<close>, entry for entry, in both formats. \<open>Collator\<close> (\<open>plan_compressed_pclusters_with_cfg\<close>) and
    \<open>CompressedFile\<close>: the clusters of a file partition its source, fit their blocks, and have an index.
  \<^item> \<open>Builder\<close> (\<open>flatten\<close>, \<open>plan_body\<close>, \<open>plan_meta_layout\<close>, \<open>encode_dir_blocks\<close>, \<open>encode_inode\<close>): flattening succeeds
    exactly on valid trees and numbers them in preorder. \<open>MetaLayout\<close>: inodes are placed aligned, apart from one
    another and with their trailers in one block, and the trailers have the sizes that were planned.
  \<^item> \<open>ImageBuild\<close> (\<open>build_image_with\<close>): the passes of the builder in their order, the last as a sequence of writes to
    one buffer. \<open>ImageWritten\<close>: every write has a region of its own, so what was put there is there at the end.
    \<open>ImageRead\<close>: the reader over that image opens it, reads every inode with its attributes, lists every directory
    and reads every uncompressed file and link. \<open>ImageTree\<close>: paths lead where they lead in the tree. \<open>ImageDemo\<close>:
    an image of three nodes, built and checked by evaluation, for the witnesses.

  \<^bold>\<open>The callers.\<close>
  \<^item> \<open>Utf8\<close>, \<open>Text\<close>: UTF-8 validity and lossy decoding, numbers in text, the \<open>Display\<close> texts of errors, UUIDs.
  \<^item> \<open>Capi\<close> (\<open>capi.rs\<close>): every function of the C interface over a process with its boxes and last error; a call on a
    freed pointer and a write past a buffer are the outcome \<open>Undefined\<close>, a panic goes through \<open>ffi_guard\<close>.
    \<open>CapiSafe\<close>: a program that keeps the rules is always answered, and fails exactly when it leaves an errno.
    \<open>CapiBuilt\<close>, \<open>CapiDemo\<close>: reading a built image through the interface gives the source; the witnesses.
  \<^item> \<open>Cli\<close> (\<open>cli/erofs/fs.rs\<close>): every verb of \<open>fs.erofs\<close> from the parsed command line to the outcome, over a host whose
    calls may fail; \<open>ls_loop\<close> is the explicit stack of the recursive listing. \<open>CliSafe\<close>: a recursive listing ends on any
    image whose packed inode has no fragment, within its bounds, and enters no directory twice. \<open>MkfsCli\<close> (\<open>cli/erofs/mkfs.rs\<close>): the block size, the walk
    of the source directory and the run of \<open>mkfs.erofs\<close>; the tree it builds is what is there, and one the builder takes.
    \<open>CliBuilt\<close>: listing a built image gives its tree, and reading a file gives its bytes, whole or not at all where it
    goes to a file. \<open>CliDemo\<close>: the witnesses.

  \<^bold>\<open>Bounds and fuel.\<close> \<open>read_file\<close> counts how deep reads of the packed inode nest: two is enough on any image whose
  packed inode has no fragment (\<open>packed_plain\<close>), and no bound is on one whose packed inode is a fragment of itself,
  which is proved and reported as a flaw. Loops that the code bounds by a length carry that length: \<open>read_loop\<close> a round
  per byte asked for, \<open>evict\<close> one more round than there are entries, \<open>read_dir_loop\<close> and \<open>lookup_loop\<close> a round per
  block, the region loops of the index writer a round per entry; running out is \<open>Overrun\<close>, and the theorems that calls
  return show it does not happen. \<open>resolve_loop\<close>, \<open>ls_loop\<close>, the LZ4 decoder and the other loops are total functions
  with a measure. \<open>image_fits\<close> bounds a built image by 2^40 blocks and 2^46 bytes of inodes, far from where its
  arithmetic would wrap; \<open>node_ok\<close> asks that a directory's size and link count fit the shape of its inode and that no
  attribute is empty in index, name and value at once, the flaws reported for the writer.

  \<^bold>\<open>Not modelled, and why.\<close> The memo of fragment ranges and the two \<open>OnceLock\<close>s of the handle only remember functions
  of the device and are recomputed; the poisoning of a mutex by a panic of another thread; panics on overflow of the
  debug profile in the builder, which wraps here as in release; the addresses an allocator reuses; what a C buffer
  holds after a read that failed; the test device and the crate root, which hold no logic. Third-party code is a
  parameter throughout: devices, the metadata cache, CRC-32C, the codecs, the \<open>lru\<close> crate, the files of the host.
  The declarations of the command line (\<open>command\<close>), the rendering of JSON values and the transfer of an export belong to
  \<open>clap\<close> and \<open>fs_core\<close>. What a compressed or chunked file of a built image reads as is proved in its parts (the plan
  of its clusters, its index, extents, the LZ4 decoder) and not as one theorem, since the encoders are third-party code.
\<close>

end
